(* ===== verification/Prelude.thy ===== *)
theory Prelude
  imports Main "HOL-Library.Word" "HOL-Library.Sublist" "HOL-Library.Char_ord"
    "HOL-Library.List_Lexorder" "HOL-Library.Product_Lexorder"
begin

section \<open>Prelude: machine integers, strings, deques\<close>

text \<open>
  What the component theories share: the integer types at the widths the Rust code has them
  (with the saturating and checked operations of the standard library), byte strings with the
  few string operations the code uses, the bounded double-ended queue that two components keep
  as a sliding window, and the collections of rewrite rules that carry the component proofs.
  Nothing here models a file of the repository; it models the parts of Rust's standard library
  that the modelled code calls.
\<close>

subsection \<open>Collections\<close>

named_theorems step_simps \<open>equations that evaluate one operation of a component\<close>
named_theorems inv_intros \<open>an operation keeps the invariant of its component\<close>

subsection \<open>Machine integers\<close>

text \<open>
  \<open>usize\<close> is the 64-bit one. Durations and instants are counted in nanoseconds; both are
  only compared, subtracted and converted by the code.
\<close>

type_synonym u8 = "8 word"
type_synonym u32 = "32 word"
type_synonym u64 = "64 word"
type_synonym usize = "64 word"
type_synonym u128 = "128 word"
type_synonym duration = nat
type_synonym instant = nat

text \<open>\<open>Duration::MAX\<close>: as many seconds as 64 bits count, and the last nanosecond before the next.\<close>

definition duration_max :: duration where
  "duration_max = 2 ^ 64 * 10 ^ 9 - 1"

definition sat_add :: "'a::len word \<Rightarrow> 'a word \<Rightarrow> 'a word" where
  "sat_add a b = (if unat a + unat b < 2 ^ LENGTH('a) then a + b else - 1)"

definition sat_sub :: "'a::len word \<Rightarrow> 'a word \<Rightarrow> 'a word" where
  "sat_sub a b = (if b \<le> a then a - b else 0)"

definition sat_mul :: "'a::len word \<Rightarrow> 'a word \<Rightarrow> 'a word" where
  "sat_mul a b = (if unat a * unat b < 2 ^ LENGTH('a) then a * b else - 1)"

definition abs_diff :: "'a::len word \<Rightarrow> 'a word \<Rightarrow> 'a word" where
  "abs_diff a b = (if a \<le> b then b - a else a - b)"

definition checked_add :: "'a::len word \<Rightarrow> 'a word \<Rightarrow> 'a word option" where
  "checked_add a b = (if unat a + unat b < 2 ^ LENGTH('a) then Some (a + b) else None)"

definition checked_mul :: "'a::len word \<Rightarrow> 'a word \<Rightarrow> 'a word option" where
  "checked_mul a b = (if unat a * unat b < 2 ^ LENGTH('a) then Some (a * b) else None)"

text \<open>\<open>u64::try_from(n).unwrap_or(u64::MAX)\<close> on a wider non-negative integer.\<close>

definition nat_to_word_sat :: "nat \<Rightarrow> 'a::len word" where
  "nat_to_word_sat n = (if n < 2 ^ LENGTH('a) then of_nat n else - 1)"

lemma unat_minus_one [simp]: "unat (- 1 :: 'a::len word) = 2 ^ LENGTH('a) - 1"
  by (simp add: unsigned_minus_1_eq_mask mask_eq_exp_minus_1)

lemma unat_less_pow [simp]: "unat (a :: 'a::len word) < 2 ^ LENGTH('a)"
  by (rule unsigned_less)

lemma unat_ucast_up:
  assumes "LENGTH('a) \<le> LENGTH('b)"
  shows "unat (ucast (w :: 'a::len word) :: 'b::len word) = unat w"
proof -
  have "unat w < 2 ^ LENGTH('a)" by simp
  also have "\<dots> \<le> 2 ^ LENGTH('b)" using assms by (intro power_increasing) simp_all
  finally show ?thesis by (simp add: unsigned_ucast_eq take_bit_nat_eq_self)
qed

lemma unat_sat_add: "unat (sat_add a b) = min (unat a + unat b) (2 ^ LENGTH('a) - 1)"
  for a b :: "'a::len word"
  by (auto simp: sat_add_def unat_word_ariths min_def)

lemma unat_sat_sub: "unat (sat_sub a b) = unat a - unat b"
  by (auto simp: sat_sub_def unat_sub word_le_nat_alt)

lemma less_pow_iff_le: "n < 2 ^ k \<longleftrightarrow> n \<le> 2 ^ k - (1::nat)"
proof -
  have "(0::nat) < 2 ^ k" by simp
  then show ?thesis by arith
qed

lemma unat_sat_mul: "unat (sat_mul a b) = min (unat a * unat b) (2 ^ LENGTH('a) - 1)"
  for a b :: "'a::len word"
proof (cases "unat a * unat b < 2 ^ LENGTH('a)")
  case True
  then show ?thesis by (simp add: sat_mul_def unat_word_ariths less_pow_iff_le)
next
  case False
  then show ?thesis by (simp add: sat_mul_def)
qed

lemma unat_nat_to_word_sat:
  "unat (nat_to_word_sat n :: 'a::len word) = min n (2 ^ LENGTH('a) - 1)"
  by (auto simp: nat_to_word_sat_def unat_of_nat min_def)

lemma unat_abs_diff:
  "unat (abs_diff a b) = (if unat a \<le> unat b then unat b - unat a else unat a - unat b)"
  by (auto simp: abs_diff_def unat_sub word_le_nat_alt)

lemma checked_add_Some: "checked_add a b = Some c \<Longrightarrow> unat c = unat a + unat b"
  by (auto simp: checked_add_def unat_word_ariths split: if_splits)

lemma checked_mul_Some: "checked_mul a b = Some c \<Longrightarrow> unat c = unat a * unat b"
  by (auto simp: checked_mul_def unat_word_ariths split: if_splits)

lemma checked_add_None: "checked_add a b = None \<longleftrightarrow> 2 ^ LENGTH('a) \<le> unat a + unat b"
  for a b :: "'a::len word"
  by (auto simp: checked_add_def)

lemma checked_mul_None: "checked_mul a b = None \<longleftrightarrow> 2 ^ LENGTH('a) \<le> unat a * unat b"
  for a b :: "'a::len word"
  by (auto simp: checked_mul_def)

lemma sat_add_one:
  assumes "a < b"
  shows "unat (sat_add a 1) = Suc (unat a)"
proof -
  have "unat a < unat b" using assms by (simp add: word_less_nat_alt)
  moreover have "unat b < 2 ^ LENGTH('a)" by simp
  ultimately have "unat a + 1 \<le> 2 ^ LENGTH('a) - 1" by linarith
  then show ?thesis by (simp add: unat_sat_add min_def)
qed

lemma sat_add_of_nat:
  assumes "Suc n < 2 ^ LENGTH('a)"
  shows "sat_add (of_nat n) 1 = (of_nat (Suc n) :: 'a::len word)"
proof -
  have n: "unat (of_nat n :: 'a word) = n" "unat (of_nat (Suc n) :: 'a word) = Suc n"
    using assms by (simp_all only: unat_of_nat mod_less Suc_lessD)
  have "unat (sat_add (of_nat n) 1 :: 'a word) = Suc n"
    using assms by (simp only: unat_sat_add n) simp
  with n(2) show ?thesis by (metis word_unat_eq_iff)
qed

lemma le_sat_add: "a \<le> sat_add a b"
proof -
  have "unat a \<le> 2 ^ LENGTH('a) - 1"
    using unat_less_pow [of a] by linarith
  then show ?thesis by (simp add: word_le_nat_alt unat_sat_add)
qed

lemma sat_add_mono: "a \<le> a' \<Longrightarrow> sat_add a b \<le> sat_add a' b"
  by (simp add: word_le_nat_alt unat_sat_add)

lemma sat_sub_le: "sat_sub a b \<le> a"
  by (simp add: word_le_nat_alt unat_sat_sub)

text \<open>Sums: a wrapping sum that stays in range, and a saturating one.\<close>

lemma unat_sum_list:
  fixes ws :: "'a::len word list"
  assumes "sum_list (map unat ws) < 2 ^ LENGTH('a)"
  shows "unat (sum_list ws) = sum_list (map unat ws)"
  using assms
proof (induction ws)
  case (Cons w ws)
  then have "unat (sum_list ws) = sum_list (map unat ws)" by simp
  with Cons.prems show ?case by (simp add: unat_word_ariths)
qed simp

lemma unat_foldl_sat_add:
  fixes f :: "'b \<Rightarrow> 'a::len word"
  shows "unat (foldl (\<lambda>acc x. sat_add acc (f x)) a xs) =
    min (unat a + sum_list (map (\<lambda>x. unat (f x)) xs)) (2 ^ LENGTH('a) - 1)"
proof (induction xs arbitrary: a)
  case Nil
  have "unat a \<le> 2 ^ LENGTH('a) - 1" using less_pow_iff_le unat_less_pow by blast
  then show ?case by simp
next
  case (Cons x xs)
  then show ?case by (simp add: unat_sat_add)
qed

subsection \<open>Byte strings\<close>

text \<open>
  A Rust \<open>String\<close> is its UTF-8 byte sequence: a \<open>char\<close> is a byte, \<open>length\<close> is
  \<open>str::len\<close>. \<open>str::trim\<close> strips the Unicode White\_Space characters; in UTF-8 these are
  the byte sequences below, and since a UTF-8 sequence is never a proper part of another
  character, stripping them as bytes strips them as characters.
\<close>

definition utf8_whitespace :: "string list" where
  "utf8_whitespace =
     map (map char_of) ([[9], [10], [11], [12], [13], [32], [194, 133], [194, 160],
       [225, 154, 128], [226, 128, 168], [226, 128, 169], [226, 128, 175], [226, 129, 159],
       [227, 128, 128]] @ map (\<lambda>k. [226, 128, 128 + k]) [0..<11] :: nat list list)"

function strip_with :: "string list \<Rightarrow> string \<Rightarrow> string" where
  "strip_with ps s =
     (case find (\<lambda>p. p \<noteq> [] \<and> prefix p s) ps of
        None \<Rightarrow> s
      | Some p \<Rightarrow> strip_with ps (drop (length p) s))"
  by pat_completeness auto
termination
proof (relation "measure (\<lambda>(ps, s). length s)", goal_cases)
  case 1
  then show ?case by simp
next
  case (2 ps s p)
  then have "p \<noteq> []" and "prefix p s" by (auto simp: find_Some_iff)
  then show ?case by (cases p) (auto simp: prefix_def)
qed

declare strip_with.simps [simp del]

definition trim :: "string \<Rightarrow> string" where
  "trim s = rev (strip_with (map rev utf8_whitespace) (rev (strip_with utf8_whitespace s)))"

definition starts_with_any :: "string list \<Rightarrow> string \<Rightarrow> bool" where
  "starts_with_any ps s \<longleftrightarrow> (\<exists>p \<in> set ps. p \<noteq> [] \<and> prefix p s)"

lemma strip_with_stop: "\<not> starts_with_any ps s \<Longrightarrow> strip_with ps s = s"
proof -
  assume "\<not> starts_with_any ps s"
  then have "find (\<lambda>p. p \<noteq> [] \<and> prefix p s) ps = None"
    by (auto simp: find_None_iff starts_with_any_def)
  then show ?thesis by (subst strip_with.simps) simp
qed

lemma strip_with_done: "\<not> starts_with_any ps (strip_with ps s)"
proof (induction ps s rule: strip_with.induct)
  case (1 ps s)
  show ?case
  proof (cases "find (\<lambda>p. p \<noteq> [] \<and> prefix p s) ps")
    case None
    then have "\<not> starts_with_any ps s" by (auto simp: find_None_iff starts_with_any_def)
    then show ?thesis by (simp add: strip_with_stop)
  next
    case (Some p)
    with "1.IH" show ?thesis by (subst strip_with.simps) simp
  qed
qed

lemma strip_with_suffix: "suffix (strip_with ps s) s"
proof (induction ps s rule: strip_with.induct)
  case (1 ps s)
  show ?case
  proof (cases "find (\<lambda>p. p \<noteq> [] \<and> prefix p s) ps")
    case None
    then show ?thesis by (subst strip_with.simps) simp
  next
    case (Some p)
    with "1.IH" have "suffix (strip_with ps (drop (length p) s)) (drop (length p) s)" by simp
    then have "suffix (strip_with ps (drop (length p) s)) s"
      using suffix_drop suffix_order.trans by blast
    with Some show ?thesis by (subst strip_with.simps) simp
  qed
qed

lemma trim_not_starting: "\<not> starts_with_any utf8_whitespace (trim s)"
proof
  let ?t = "strip_with utf8_whitespace s"
  assume "starts_with_any utf8_whitespace (trim s)"
  then obtain p where p: "p \<in> set utf8_whitespace" "p \<noteq> []" "prefix p (trim s)"
    by (auto simp: starts_with_any_def)
  have "prefix (trim s) ?t"
    using strip_with_suffix [of "map rev utf8_whitespace" "rev ?t"]
    by (simp add: trim_def suffix_to_prefix)
  with p(3) have "prefix p ?t" by (rule prefix_order.trans)
  with p(1,2) have "starts_with_any utf8_whitespace ?t" by (auto simp: starts_with_any_def)
  then show False using strip_with_done by blast
qed

lemma trim_idem [simp]: "trim (trim s) = trim s"
proof -
  have "strip_with utf8_whitespace (trim s) = trim s"
    by (rule strip_with_stop [OF trim_not_starting])
  moreover have "strip_with (map rev utf8_whitespace) (rev (trim s)) = rev (trim s)"
    unfolding trim_def by (simp add: strip_with_stop [OF strip_with_done])
  ultimately show ?thesis by (simp add: trim_def [of "trim s"])
qed

text \<open>Decimal digits, as \<open>Display\<close> prints an unsigned integer.\<close>

definition digit_char :: "nat \<Rightarrow> char" where
  "digit_char d = char_of (48 + d)"

fun show_nat :: "nat \<Rightarrow> string" where
  "show_nat n = (if n < 10 then [digit_char n] else show_nat (n div 10) @ [digit_char (n mod 10)])"

declare show_nat.simps [simp del]

text \<open>\<open>u64::from_str\<close> on a string of digits.\<close>

definition is_ascii_digit :: "char \<Rightarrow> bool" where
  "is_ascii_digit c \<longleftrightarrow> 48 \<le> (of_char c :: nat) \<and> (of_char c :: nat) \<le> 57"

definition digits_value :: "string \<Rightarrow> nat" where
  "digits_value ds = foldl (\<lambda>a c. a * 10 + (of_char c - 48)) 0 ds"

definition parse_u64 :: "string \<Rightarrow> u64 option" where
  "parse_u64 ds = (if digits_value ds < 2 ^ 64 then Some (of_nat (digits_value ds)) else None)"

lemma parse_u64_Some: "parse_u64 ds = Some cnt \<longleftrightarrow> digits_value ds < 2 ^ 64 \<and> unat cnt = digits_value ds"
  by (auto simp: parse_u64_def unat_of_nat word_unat_eq_iff)

text \<open>
  \<open>to_lowercase\<close> as far as a search for ASCII patterns can tell: ASCII letters, and the two characters
  beyond ASCII whose lower case has an ASCII letter, the Kelvin sign and the dotted capital I.
\<close>

definition ascii_to_lower :: "char \<Rightarrow> char" where
  "ascii_to_lower c =
     (let code = of_char c :: nat in if 65 \<le> code \<and> code \<le> 90 then char_of (code + 32) else c)"

fun lowercase :: "string \<Rightarrow> string" where
  "lowercase (a # b # c # s) =
     (if a = CHR 0xE2 \<and> b = CHR 0x84 \<and> c = CHR 0xAA then CHR ''k'' # lowercase s
      else if a = CHR 0xC4 \<and> b = CHR 0xB0 then CHR ''i'' # CHR 0xCC # CHR 0x87 # lowercase (c # s)
      else ascii_to_lower a # lowercase (b # c # s))"
| "lowercase [a, b] =
     (if a = CHR 0xC4 \<and> b = CHR 0xB0 then [CHR ''i'', CHR 0xCC, CHR 0x87] else [ascii_to_lower a, ascii_to_lower b])"
| "lowercase [a] = [ascii_to_lower a]"
| "lowercase [] = []"

text \<open>The characters of a string, each as its bytes: a byte that continues a sequence joins the one before.\<close>

definition continues :: "char \<Rightarrow> bool" where
  "continues c \<longleftrightarrow> (of_char c :: nat) div 64 = 2"

function utf8_chars :: "string \<Rightarrow> string list" where
  "utf8_chars [] = []"
| "utf8_chars (c # cs) = (c # takeWhile continues cs) # utf8_chars (dropWhile continues cs)"
  by pat_completeness auto
termination by (relation "measure length") (simp_all add: le_imp_less_Suc length_dropWhile_le)

lemma concat_utf8_chars [simp]: "concat (utf8_chars s) = s"
  by (induction s rule: utf8_chars.induct) simp_all

text \<open>Text that starts a character of its own, as every \<open>str\<close> does.\<close>

definition starts_char :: "string \<Rightarrow> bool" where
  "starts_char s \<longleftrightarrow> (case s of [] \<Rightarrow> True | c # _ \<Rightarrow> \<not> continues c)"

lemma starts_char_simps [simp]: "starts_char []" "starts_char (c # s) \<longleftrightarrow> \<not> continues c"
  by (simp_all add: starts_char_def)

lemma starts_char_dropWhile [simp]: "starts_char (dropWhile continues s)"
  by (induction s) simp_all

lemma takeWhile_starts_char: "starts_char s \<Longrightarrow> takeWhile continues s = [] \<and> dropWhile continues s = s"
  by (cases s) simp_all

lemma all_continue: "\<forall>x \<in> set cs. continues x \<Longrightarrow> takeWhile continues cs = cs \<and> dropWhile continues cs = []"
  by (simp only: takeWhile_eq_all_conv dropWhile_eq_Nil_conv)

lemma utf8_chars_append: "starts_char t \<Longrightarrow> utf8_chars (s @ t) = utf8_chars s @ utf8_chars t"
proof (induction s rule: utf8_chars.induct)
  case (2 c cs)
  then show ?case
    by (cases "\<exists>x \<in> set cs. \<not> continues x")
      (auto simp: takeWhile_append dropWhile_append takeWhile_starts_char all_continue)
qed simp

lemma utf8_chars_Cons: "starts_char s \<Longrightarrow> utf8_chars (c # s) = [c] # utf8_chars s"
  by (simp add: takeWhile_starts_char)

lemma utf8_chars_single: "\<forall>x \<in> set cs. continues x \<Longrightarrow> utf8_chars (c # cs) = [c # cs]"
  by (simp add: all_continue)

lemma starts_char_concat_take: "starts_char s \<Longrightarrow> starts_char (concat (take n (utf8_chars s)))"
  by (cases n; cases s) simp_all

lemma utf8_chars_take [simp]: "utf8_chars (concat (take n (utf8_chars s))) = take n (utf8_chars s)"
proof (induction s arbitrary: n rule: utf8_chars.induct)
  case (2 c cs)
  show ?case
  proof (cases n)
    case (Suc m)
    have "utf8_chars ((c # takeWhile continues cs) @ concat (take m (utf8_chars (dropWhile continues cs)))) =
        utf8_chars (c # takeWhile continues cs) @ utf8_chars (concat (take m (utf8_chars (dropWhile continues cs))))"
      by (intro utf8_chars_append starts_char_concat_take) simp
    also have "utf8_chars (c # takeWhile continues cs) = [c # takeWhile continues cs]"
      by (rule utf8_chars_single) (auto dest: set_takeWhileD)
    finally show ?thesis using Suc "2.IH" by simp
  qed simp
qed simp

lemma utf8_chars_ascii: "\<forall>c \<in> set s. \<not> continues c \<Longrightarrow> utf8_chars s = map (\<lambda>c. [c]) s"
proof (induction s)
  case (Cons c s)
  then have "starts_char s" by (cases s) simp_all
  with Cons show ?case by (simp only: utf8_chars_Cons) simp
qed simp

text \<open>\<open>str::split_whitespace\<close> and \<open>str::split\<close> at one ASCII character.\<close>

function split_words :: "string list \<Rightarrow> string list" where
  "split_words [] = []"
| "split_words (c # cs) =
     (if c \<in> set utf8_whitespace then split_words cs
      else concat (c # takeWhile (\<lambda>c. c \<notin> set utf8_whitespace) cs) #
             split_words (dropWhile (\<lambda>c. c \<notin> set utf8_whitespace) cs))"
  by pat_completeness auto
termination by (relation "measure length") (simp_all add: le_imp_less_Suc length_dropWhile_le)

definition split_whitespace :: "string \<Rightarrow> string list" where
  "split_whitespace s = split_words (utf8_chars s)"

fun split_on :: "char \<Rightarrow> string \<Rightarrow> string list" where
  "split_on sep [] = [[]]"
| "split_on sep (c # cs) =
     (if c = sep then [] # split_on sep cs
      else (case split_on sep cs of [] \<Rightarrow> [[c]] | w # ws \<Rightarrow> (c # w) # ws))"

text \<open>A text between apostrophes, as the messages of the code quote a name.\<close>

definition quoted :: "string \<Rightarrow> string" where
  "quoted s = [CHR 0x27] @ s @ [CHR 0x27]"

fun join :: "string \<Rightarrow> string list \<Rightarrow> string" where
  "join sep [] = []"
| "join sep [x] = x"
| "join sep (x # xs) = x @ sep @ join sep xs"

lemma join_Cons: "xs \<noteq> [] \<Longrightarrow> join sep (x # xs) = x @ sep @ join sep xs"
  by (cases xs) simp_all

lemma split_on_nonempty [simp]: "split_on sep s \<noteq> []"
  by (induction s) (auto split: list.splits)

lemma split_on_free: "sep \<notin> set s \<Longrightarrow> split_on sep s = [s]"
  by (induction s) auto

lemma split_on_append: "sep \<notin> set s \<Longrightarrow> split_on sep (s @ sep # t) = s # split_on sep t"
  by (induction s) (auto split: list.splits)

lemma split_on_join: "xs \<noteq> [] \<Longrightarrow> \<forall>x \<in> set xs. sep \<notin> set x \<Longrightarrow> split_on sep (join [sep] xs) = xs"
proof (induction xs)
  case (Cons x xs)
  then show ?case
    by (cases "xs = []") (simp_all add: split_on_free join_Cons split_on_append)
qed simp

lemma split_on_parts: "w \<in> set (split_on sep s) \<Longrightarrow> sep \<notin> set w"
proof (induction s arbitrary: w)
  case (Cons c s)
  then show ?case by (cases "split_on sep s") (auto split: if_splits)
qed simp

lemma join_empty_sep [simp]: "join [] xs = concat xs"
  by (induction "[] :: string" xs rule: join.induct) auto

subsection \<open>Searching a list\<close>

text \<open>\<open>iter().position(P)\<close>, and \<open>iter_mut().find(P)\<close> followed by an update of what it found.\<close>

fun position :: "('a \<Rightarrow> bool) \<Rightarrow> 'a list \<Rightarrow> nat option" where
  "position P [] = None"
| "position P (x # xs) = (if P x then Some 0 else map_option Suc (position P xs))"

fun update_first :: "('a \<Rightarrow> bool) \<Rightarrow> ('a \<Rightarrow> 'a) \<Rightarrow> 'a list \<Rightarrow> 'a list" where
  "update_first P f [] = []"
| "update_first P f (x # xs) = (if P x then f x # xs else x # update_first P f xs)"

lemma position_Some: "position P xs = Some n \<Longrightarrow> n < length xs \<and> P (xs ! n)"
  by (induction xs arbitrary: n) (auto split: if_splits)

lemma position_first: "position P xs = Some n \<Longrightarrow> i < n \<Longrightarrow> \<not> P (xs ! i)"
  by (induction xs arbitrary: n i) (auto simp: nth_Cons split: if_splits nat.splits)

lemma position_None: "position P xs = None \<longleftrightarrow> (\<forall>x \<in> set xs. \<not> P x)"
  by (induction xs) auto

lemma find_Some_member: "find P xs = Some x \<Longrightarrow> x \<in> set xs \<and> P x"
  by (auto simp: find_Some_iff)

lemma map_update_first: "(\<And>x. g (f x) = g x) \<Longrightarrow> map g (update_first P f xs) = map g xs"
  by (induction xs) auto

lemma update_first_id: "\<forall>x \<in> set xs. \<not> P x \<Longrightarrow> update_first P f xs = xs"
  by (induction xs) auto

lemma update_first_Ball:
  "\<forall>x \<in> set xs. Q x \<Longrightarrow> (\<And>x. Q x \<Longrightarrow> Q (f x)) \<Longrightarrow> \<forall>x \<in> set (update_first P f xs). Q x"
  by (induction xs) auto

lemma in_set_drop: "x \<in> set (drop n xs) \<longleftrightarrow> (\<exists>i. n \<le> i \<and> i < length xs \<and> xs ! i = x)"
proof
  assume "x \<in> set (drop n xs)"
  then obtain j where "j < length xs - n" "drop n xs ! j = x" by (auto simp: in_set_conv_nth)
  then show "\<exists>i. n \<le> i \<and> i < length xs \<and> xs ! i = x" by (intro exI [of _ "n + j"]) simp
next
  assume "\<exists>i. n \<le> i \<and> i < length xs \<and> xs ! i = x"
  then obtain i where "n \<le> i" "i < length xs" "xs ! i = x" by blast
  then show "x \<in> set (drop n xs)"
    by (intro in_set_conv_nth [THEN iffD2] exI [of _ "i - n"]) simp
qed

subsection \<open>Bounded deques\<close>

text \<open>
  The sliding window two components keep: a \<open>VecDeque\<close>, oldest element first, where a push
  first pops the front once the length has reached the capacity. What its clients rely on is
  one law: pushing keeps the most recent elements of the whole stream. The locale states it and
  the facts that follow.
\<close>

definition last_n :: "nat \<Rightarrow> 'a list \<Rightarrow> 'a list" where
  "last_n n xs = drop (length xs - n) xs"

definition window_push :: "nat \<Rightarrow> 'a list \<Rightarrow> 'a \<Rightarrow> 'a list" where
  "window_push cap xs x = (if cap \<le> length xs then tl xs else xs) @ [x]"

lemma length_last_n [simp]: "length (last_n n xs) = min n (length xs)"
  by (simp add: last_n_def)

lemma last_n_all: "length xs \<le> n \<Longrightarrow> last_n n xs = xs"
  by (simp add: last_n_def)

lemma last_n_last_n_snoc: "0 < n \<Longrightarrow> last_n n (last_n n xs @ [x]) = last_n n (xs @ [x])"
  by (cases "length xs \<le> n") (auto simp: last_n_def Suc_diff_le)

lemma set_last_n: "set (last_n n xs) \<subseteq> set xs"
  by (simp add: last_n_def set_drop_subset)

lemma set_window_push: "set (window_push cap xs x) \<subseteq> insert x (set xs)"
  by (cases xs) (auto simp: window_push_def)

lemma last_window_push [simp]: "last (window_push cap xs x) = x"
  by (simp add: window_push_def)

locale sliding_window =
  fixes push :: "nat \<Rightarrow> 'a list \<Rightarrow> 'a \<Rightarrow> 'a list"
  assumes push_last_n: "0 < cap \<Longrightarrow> length xs \<le> cap \<Longrightarrow> push cap xs x = last_n cap (xs @ [x])"
begin

lemma push_bound: "0 < cap \<Longrightarrow> length xs \<le> cap \<Longrightarrow> length (push cap xs x) \<le> cap"
  by (simp add: push_last_n)

lemma push_newest: "0 < cap \<Longrightarrow> length xs \<le> cap \<Longrightarrow> last (push cap xs x) = x"
  by (simp add: push_last_n last_n_def)

lemma push_nonempty: "0 < cap \<Longrightarrow> length xs \<le> cap \<Longrightarrow> push cap xs x \<noteq> []"
  by (simp add: push_last_n last_n_def)

lemma pushes_last_n: "0 < cap \<Longrightarrow> foldl (push cap) [] xs = last_n cap xs"
proof (induction xs rule: rev_induct)
  case Nil
  then show ?case by (simp add: last_n_def)
next
  case (snoc x xs)
  then show ?case by (simp add: push_last_n last_n_last_n_snoc)
qed

end

interpretation deque: sliding_window window_push
proof
  fix cap :: nat and xs :: "'a list" and x
  assume "0 < cap" and "length xs \<le> cap"
  then show "window_push cap xs x = last_n cap (xs @ [x])"
    by (cases xs) (auto simp: window_push_def last_n_def)
qed

end
