(* ===== verification/Errors.thy ===== *)
theory Errors
  imports Prelude
begin

section \<open>The error type of the framework\<close>

text \<open>
  \<open>LoopError\<close> of src/src/error.rs with its constructor and classification methods. An
  operation that returns \<open>Result<T, LoopError>\<close> is modelled by the sum
  \<open>loop_error + 'a\<close>, errors on the left. The budget dimension of src/src/budget.rs is
  declared here because one error variant carries it.
\<close>

datatype budget_dimension = Tokens | Turns | WallClock | Usd

datatype loop_error =
    ToolNotFound (nf_tool: string) (nf_available: string)
  | ToolExecution string string
  | InvalidInput string
  | Api string
  | FallbackExhausted
  | ErrMaxTurnsExceeded usize
  | ContextExceeded u64 u64
  | CompactionFailed u64 u64 string
  | CompactionStalled u64
  | BudgetExhausted budget_dimension u64 u64
  | LockPoisoned string
  | PhaseFailed string string
  | MemoryError string
  | ReflectionError string
  | ErrCancelled
  | ErrLoopDetected string
  | UserInputRequired string
  | ToolLimitReached string
  | ToolRecoveryExhausted string u32
  | StreamError string
  | ConfigError string
  | InternalError string
  | RateLimitEscalation u32 "duration option"

type_synonym 'a result = "loop_error + 'a"

fun show_dimension :: "budget_dimension \<Rightarrow> string" where
  "show_dimension Tokens = ''tokens''"
| "show_dimension Turns = ''turns''"
| "show_dimension WallClock = ''wall-clock''"
| "show_dimension Usd = ''usd''"

text \<open>
  The rendering of an error, one format string per variant. How Rust prints an optional duration
  for debugging is the parameter \<open>show_duration\<close>.
\<close>

fun show_loop_error :: "(duration option \<Rightarrow> string) \<Rightarrow> loop_error \<Rightarrow> string" where
  "show_loop_error d (ToolNotFound tool available) =
     ''Tool not found: '' @ tool @ ''. Available: '' @ available"
| "show_loop_error d (ToolExecution tool msg) = ''Tool execution error: '' @ tool @ '': '' @ msg"
| "show_loop_error d (InvalidInput s) = ''Invalid input: '' @ s"
| "show_loop_error d (Api s) = ''API error: '' @ s"
| "show_loop_error d FallbackExhausted = ''all fallback models exhausted''"
| "show_loop_error d (ErrMaxTurnsExceeded m) = ''Max turns exceeded: '' @ show_nat (unat m)"
| "show_loop_error d (ContextExceeded used limit) =
     ''Context window exceeded: used '' @ show_nat (unat used) @ '' of '' @ show_nat (unat limit) @ '' tokens''"
| "show_loop_error d (CompactionFailed used limit cause) =
     ''Compaction failed: '' @ cause @ '' (used '' @ show_nat (unat used) @ '' of '' @
     show_nat (unat limit) @ '' tokens)''"
| "show_loop_error d (CompactionStalled used) =
     ''Compaction made no progress at '' @ show_nat (unat used) @
     '' tokens: the configured compactor cannot shrink this conversation further''"
| "show_loop_error d (BudgetExhausted dim spent limit) =
     ''Budget exhausted: '' @ show_dimension dim @ '' spent '' @ show_nat (unat spent) @ '' of '' @
     show_nat (unat limit)"
| "show_loop_error d (LockPoisoned what) = ''Lock poisoned: '' @ what"
| "show_loop_error d (PhaseFailed phase msg) = ''Phase '' @ [CHR 0x27] @ phase @ [CHR 0x27] @ '' failed: '' @ msg"
| "show_loop_error d (MemoryError s) = ''Memory error: '' @ s"
| "show_loop_error d (ReflectionError s) = ''Reflection error: '' @ s"
| "show_loop_error d ErrCancelled = ''Agent cancelled''"
| "show_loop_error d (ErrLoopDetected msg) = ''Loop detected: '' @ msg"
| "show_loop_error d (UserInputRequired msg) = ''user input required: '' @ msg"
| "show_loop_error d (ToolLimitReached msg) = ''Tool limit reached: '' @ msg"
| "show_loop_error d (ToolRecoveryExhausted tool attempts) =
     ''Tool recovery exhausted after '' @ show_nat (unat attempts) @ '' attempts: '' @ tool"
| "show_loop_error d (StreamError s) = ''Stream error: '' @ s"
| "show_loop_error d (ConfigError s) = ''Configuration error: '' @ s"
| "show_loop_error d (InternalError s) = s"
| "show_loop_error d (RateLimitEscalation attempts after) =
     ''Rate-limit escalation after '' @ show_nat (unat attempts) @ '' retries (retry-after '' @ d after @ '')''"

definition tool_not_found :: "string \<Rightarrow> string list \<Rightarrow> loop_error" where
  "tool_not_found tool available =
     ToolNotFound tool
       (if available = [] then ''none registered''
        else if length available \<le> 10 then join '', '' available
        else join '', '' (take 10 available) @ ''... (and '' @
             show_nat (length available - 10) @ '' more)'')"

fun is_recoverable :: "loop_error \<Rightarrow> bool" where
  "is_recoverable (ToolExecution _ _) = True"
| "is_recoverable (Api _) = True"
| "is_recoverable (ContextExceeded _ _) = True"
| "is_recoverable (CompactionFailed _ _ _) = True"
| "is_recoverable (ReflectionError _) = True"
| "is_recoverable (RateLimitEscalation _ _) = True"
| "is_recoverable _ = False"

fun is_cancelled_error :: "loop_error \<Rightarrow> bool" where
  "is_cancelled_error ErrCancelled = True"
| "is_cancelled_error _ = False"

definition from_poison :: "string \<Rightarrow> loop_error" where
  "from_poison what = LockPoisoned what"

subsection \<open>Sequencing results\<close>

text \<open>The \<open>?\<close> operator and \<open>collect::<Result<Vec<_>, _>>\<close>.\<close>

definition bind_result :: "'a result \<Rightarrow> ('a \<Rightarrow> 'b result) \<Rightarrow> 'b result" where
  "bind_result r f = (case r of Inl e \<Rightarrow> Inl e | Inr x \<Rightarrow> f x)"

fun collect_results :: "'a result list \<Rightarrow> 'a list result" where
  "collect_results [] = Inr []"
| "collect_results (Inl e # rs) = Inl e"
| "collect_results (Inr x # rs) =
     (case collect_results rs of Inl e \<Rightarrow> Inl e | Inr xs \<Rightarrow> Inr (x # xs))"

lemma bind_result_simps [simp]:
  "bind_result (Inl e) f = Inl e"
  "bind_result (Inr x) f = f x"
  by (simp_all add: bind_result_def)

lemma bind_result_Inr: "bind_result r f = Inr y \<longleftrightarrow> (\<exists>x. r = Inr x \<and> f x = Inr y)"
  by (cases r) auto

lemma collect_results_map_Inr [simp]: "collect_results (map Inr xs) = Inr xs"
  by (induction xs) auto

lemma collect_results_Inr:
  "collect_results rs = Inr xs \<longleftrightarrow> rs = map Inr xs"
proof (induction rs arbitrary: xs rule: collect_results.induct)
  case (3 x rs)
  then show ?case by (cases xs) (auto split: sum.splits)
qed auto

lemma not_recoverable_terminal:
  "\<not> is_recoverable (CompactionStalled n)" "\<not> is_recoverable ErrCancelled"
  "\<not> is_recoverable (tool_not_found t ts)" "\<not> is_recoverable (from_poison w)"
  by (simp_all add: tool_not_found_def from_poison_def)

end
