(* ===== verification/Message.thy ===== *)
theory Message
  imports Errors
begin

section \<open>Conversation messages\<close>

text \<open>
  src/src/message.rs: roles, message parts, tool content, the constructors and queries, the
  display forms, and the two history repairs (\<open>coalesce_adjacent_assistants\<close>,
  \<open>user_head_before_tool_use_opening\<close>). The JSON value of a tool call comes from the
  serde\_json package, so it is the type parameter \<open>'v\<close>; the one function of that
  package the display form calls is an argument.
\<close>

subsection \<open>Data\<close>

datatype role = User | Assistant | System

record image_source =
  encoding :: string
  media_type :: string
  image_data :: string

datatype tool_content_part = TPImage image_source | TPText string

datatype tool_content = TCText string | TCMultipart "tool_content_part list"

datatype retention = Requery | Durable

datatype 'v message_part =
    TextPart string
  | ImagePart image_source
  | ToolCallPart string string 'v
  | ThinkingPart string "string option" "string option"
  | ToolResultPart string string tool_content "bool option" "retention option"

record 'v message =
  msg_role :: role
  msg_parts :: "'v message_part list"

subsection \<open>Constructors and queries\<close>

definition new_message :: "role \<Rightarrow> 'v message_part list \<Rightarrow> 'v message" where
  "new_message r ps = \<lparr>msg_role = r, msg_parts = ps\<rparr>"

definition user_message :: "string \<Rightarrow> 'v message" where
  "user_message t = \<lparr>msg_role = User, msg_parts = [TextPart t]\<rparr>"

definition assistant_message :: "string \<Rightarrow> 'v message" where
  "assistant_message t = \<lparr>msg_role = Assistant, msg_parts = [TextPart t]\<rparr>"

definition tool_result :: "string \<Rightarrow> string \<Rightarrow> tool_content \<Rightarrow> bool \<Rightarrow> 'v message_part" where
  "tool_result call_id name output err = ToolResultPart call_id name output (Some err) None"

fun with_retention_opt :: "'v message_part \<Rightarrow> retention option \<Rightarrow> 'v message_part" where
  "with_retention_opt (ToolResultPart c n out err _) r = ToolResultPart c n out err r"
| "with_retention_opt p r = p"

definition with_retention :: "'v message_part \<Rightarrow> retention \<Rightarrow> 'v message_part" where
  "with_retention p r =
     (case p of ToolResultPart c n out err _ \<Rightarrow> ToolResultPart c n out err (Some r) | _ \<Rightarrow> p)"

fun is_text :: "'v message_part \<Rightarrow> bool" where
  "is_text (TextPart _) = True"
| "is_text _ = False"

fun is_tool_call :: "'v message_part \<Rightarrow> bool" where
  "is_tool_call (ToolCallPart _ _ _) = True"
| "is_tool_call _ = False"

fun is_tool_result :: "'v message_part \<Rightarrow> bool" where
  "is_tool_result (ToolResultPart _ _ _ _ _) = True"
| "is_tool_result _ = False"

fun as_text :: "'v message_part \<Rightarrow> string option" where
  "as_text (TextPart t) = Some t"
| "as_text _ = None"

definition text_content :: "'v message \<Rightarrow> string" where
  "text_content m = join [] (List.map_filter as_text (msg_parts m))"

fun as_tool_call :: "'v message_part \<Rightarrow> (string \<times> string \<times> 'v) option" where
  "as_tool_call (ToolCallPart i n v) = Some (i, n, v)"
| "as_tool_call _ = None"

definition tool_call_parts :: "'v message \<Rightarrow> (string \<times> string \<times> 'v) list" where
  "tool_call_parts m = List.map_filter as_tool_call (msg_parts m)"

definition new_base64 :: "string \<Rightarrow> string \<Rightarrow> image_source" where
  "new_base64 mt d = \<lparr>encoding = ''base64'', media_type = mt, image_data = d\<rparr>"

subsection \<open>Display\<close>

fun show_role :: "role \<Rightarrow> string" where
  "show_role User = ''user''"
| "show_role Assistant = ''assistant''"
| "show_role System = ''system''"

fun part_text :: "tool_content_part \<Rightarrow> string option" where
  "part_text (TPText t) = Some t"
| "part_text (TPImage _) = None"

fun show_tool_content :: "tool_content \<Rightarrow> string" where
  "show_tool_content (TCText s) = s"
| "show_tool_content (TCMultipart ps) = join ''\<newline>'' (List.map_filter part_text ps)"

fun show_part :: "('v \<Rightarrow> string option) \<Rightarrow> 'v message_part \<Rightarrow> string option" where
  "show_part json (TextPart t) = Some t"
| "show_part json (ThinkingPart _ _ _) = None"
| "show_part json (ToolCallPart _ n v) =
     (case json v of
        Some s \<Rightarrow> Some (''[Tool: '' @ n @ '' with input: '' @ s @ '']'')
      | None \<Rightarrow> None)"
| "show_part json (ToolResultPart _ _ out _ _) =
     Some (''[Tool Result: '' @ show_tool_content out @ '']'')"
| "show_part json (ImagePart src) = Some (''[Image: '' @ media_type src @ '']'')"

definition show_message :: "('v \<Rightarrow> string option) \<Rightarrow> 'v message \<Rightarrow> string" where
  "show_message json m = join ''\<newline>'' (List.map_filter (show_part json) (msg_parts m))"

subsection \<open>History repairs\<close>

definition user_head_before_tool_use_opening :: "'v message list \<Rightarrow> 'v message list" where
  "user_head_before_tool_use_opening ms =
     (case ms of
        [] \<Rightarrow> ms
      | m # _ \<Rightarrow>
          if msg_role m = Assistant \<and> (\<exists>p \<in> set (msg_parts m). is_tool_call p)
          then user_message ''(the conversation continues)'' # ms
          else ms)"

definition join_parts :: "'v message_part list \<Rightarrow> 'v message_part list \<Rightarrow> 'v message_part list" where
  "join_parts prev next =
     prev @
     (if prev \<noteq> [] \<and> is_text (last prev) \<and> next \<noteq> [] \<and> is_text (hd next)
      then [TextPart ''\<newline>\<newline>''] else []) @ next"

definition coalesce_push :: "'v message list \<Rightarrow> 'v message \<Rightarrow> 'v message list" where
  "coalesce_push out m =
     (if msg_role m = Assistant \<and> out \<noteq> [] \<and> msg_role (last out) = Assistant
      then butlast out @ [(last out)\<lparr>msg_parts := join_parts (msg_parts (last out)) (msg_parts m)\<rparr>]
      else out @ [m])"

definition coalesce_adjacent_assistants :: "'v message list \<Rightarrow> 'v message list" where
  "coalesce_adjacent_assistants ms = foldl coalesce_push [] ms"

subsection \<open>Tool calls and their results\<close>

text \<open>
  The pairing property the history operations keep: every tool call is followed, somewhere
  later, by a result that carries its id (\<open>answered\<close>), and every result is preceded by the
  call it answers (\<open>solicited\<close>). Both are stated over the parts of a history in order.
\<close>

definition all_parts :: "'v message list \<Rightarrow> 'v message_part list" where
  "all_parts ms = concat (map msg_parts ms)"

fun call_id_of :: "'v message_part \<Rightarrow> string option" where
  "call_id_of (ToolCallPart i _ _) = Some i"
| "call_id_of _ = None"

fun result_id_of :: "'v message_part \<Rightarrow> string option" where
  "result_id_of (ToolResultPart i _ _ _ _) = Some i"
| "result_id_of _ = None"

fun answered :: "'v message_part list \<Rightarrow> bool" where
  "answered [] = True"
| "answered (p # ps) =
     ((case call_id_of p of None \<Rightarrow> True | Some i \<Rightarrow> \<exists>q \<in> set ps. result_id_of q = Some i) \<and>
      answered ps)"

definition coherent :: "'v message list \<Rightarrow> bool" where
  "coherent ms \<longleftrightarrow> answered (all_parts ms)"

definition solicited :: "'v message_part list \<Rightarrow> bool" where
  "solicited ps \<longleftrightarrow>
     (\<forall>n < length ps. \<forall>i. result_id_of (ps ! n) = Some i \<longrightarrow>
        (\<exists>k < n. call_id_of (ps ! k) = Some i))"

lemma all_parts_simps [simp]:
  "all_parts [] = []"
  "all_parts (m # ms) = msg_parts m @ all_parts ms"
  "all_parts (ms @ ns) = all_parts ms @ all_parts ns"
  by (simp_all add: all_parts_def)

lemma text_part_ids [simp]: "is_text p \<Longrightarrow> call_id_of p = None" "is_text p \<Longrightarrow> result_id_of p = None"
  by (cases p; simp)+

lemma coherent_Nil [simp]: "coherent []"
  by (simp add: coherent_def)

lemma answered_append: "answered ps \<Longrightarrow> answered qs \<Longrightarrow> answered (ps @ qs)"
  by (induction ps) (auto split: option.splits)

lemma coherent_append: "coherent ms \<Longrightarrow> coherent ns \<Longrightarrow> coherent (ms @ ns)"
  by (simp add: coherent_def answered_append)

lemma answered_filter_text: "answered (filter (\<lambda>p. \<not> is_text p) ps) = answered ps"
proof (induction ps)
  case (Cons p ps)
  have "(\<exists>q \<in> set (filter (\<lambda>p. \<not> is_text p) ps). result_id_of q = Some i) \<longleftrightarrow>
        (\<exists>q \<in> set ps. result_id_of q = Some i)" for i
    by (auto dest: text_part_ids(2))
  with Cons show ?case by (auto split: option.splits)
qed simp

lemma solicited_append: "solicited (ps @ qs) \<Longrightarrow> solicited ps"
proof -
  assume sol: "solicited (ps @ qs)"
  show "solicited ps"
    unfolding solicited_def
  proof (intro allI impI)
    fix n i assume n: "n < length ps" and r: "result_id_of (ps ! n) = Some i"
    then have "n < length (ps @ qs)" and "result_id_of ((ps @ qs) ! n) = Some i"
      by (simp_all add: nth_append)
    with sol obtain k where "k < n" and "call_id_of ((ps @ qs) ! k) = Some i"
      unfolding solicited_def by blast
    with n show "\<exists>k < n. call_id_of (ps ! k) = Some i"
      by (intro exI [of _ k]) (simp add: nth_append)
  qed
qed

lemma solicited_take: "solicited (all_parts ms) \<Longrightarrow> solicited (all_parts (take k ms))"
  by (metis all_parts_simps(3) append_take_drop_id solicited_append)

subsection \<open>Coalescing\<close>

definition no_adjacent_assistants :: "'v message list \<Rightarrow> bool" where
  "no_adjacent_assistants ms \<longleftrightarrow>
     successively (\<lambda>a b. \<not> (msg_role a = Assistant \<and> msg_role b = Assistant)) ms"

lemma coalesce_Nil [simp]: "coalesce_adjacent_assistants [] = []"
  by (simp add: coalesce_adjacent_assistants_def)

lemma coalesce_snoc:
  "coalesce_adjacent_assistants (ms @ [m]) = coalesce_push (coalesce_adjacent_assistants ms) m"
  by (simp add: coalesce_adjacent_assistants_def)

lemma coalesce_push_nonempty [simp]: "coalesce_push out m \<noteq> []"
  by (simp add: coalesce_push_def)

lemma all_parts_push_tools:
  "filter (\<lambda>p. \<not> is_text p) (all_parts (coalesce_push out m)) =
   filter (\<lambda>p. \<not> is_text p) (all_parts out @ msg_parts m)"
proof (cases "msg_role m = Assistant \<and> out \<noteq> [] \<and> msg_role (last out) = Assistant")
  case True
  then have "all_parts out = all_parts (butlast out) @ msg_parts (last out)"
    by (metis all_parts_simps(1,2,3) append_Nil2 append_butlast_last_id)
  with True show ?thesis by (simp add: coalesce_push_def join_parts_def)
next
  case False
  then show ?thesis by (auto simp: coalesce_push_def)
qed

lemma coalesce_tool_parts:
  "filter (\<lambda>p. \<not> is_text p) (all_parts (coalesce_adjacent_assistants ms)) =
   filter (\<lambda>p. \<not> is_text p) (all_parts ms)"
  by (induction ms rule: rev_induct) (simp_all add: coalesce_snoc all_parts_push_tools)

lemma coalesce_coherent: "coherent (coalesce_adjacent_assistants ms) = coherent ms"
  unfolding coherent_def by (metis answered_filter_text coalesce_tool_parts)

lemma no_adjacent_push:
  assumes "no_adjacent_assistants out"
  shows "no_adjacent_assistants (coalesce_push out m)"
proof (cases "msg_role m = Assistant \<and> out \<noteq> [] \<and> msg_role (last out) = Assistant")
  case True
  then obtain init l where out: "out = init @ [l]" by (metis append_butlast_last_id)
  with True assms show ?thesis
    by (simp add: coalesce_push_def no_adjacent_assistants_def successively_append_iff)
next
  case False
  with assms show ?thesis
    by (auto simp: coalesce_push_def no_adjacent_assistants_def successively_append_iff)
qed

lemma no_adjacent_coalesce: "no_adjacent_assistants (coalesce_adjacent_assistants ms)"
proof (induction ms rule: rev_induct)
  case Nil
  show ?case by (simp add: no_adjacent_assistants_def)
next
  case (snoc m ms)
  then show ?case by (simp add: coalesce_snoc no_adjacent_push)
qed

lemma coalesce_id: "no_adjacent_assistants ms \<Longrightarrow> coalesce_adjacent_assistants ms = ms"
proof (induction ms rule: rev_induct)
  case (snoc m ms)
  then have "no_adjacent_assistants ms"
    and "ms = [] \<or> \<not> (msg_role (last ms) = Assistant \<and> msg_role m = Assistant)"
    by (auto simp: no_adjacent_assistants_def successively_append_iff)
  with snoc.IH show ?case by (auto simp: coalesce_snoc coalesce_push_def)
qed simp

lemma coalesce_others:
  "filter (\<lambda>m. msg_role m \<noteq> Assistant) (coalesce_adjacent_assistants ms) =
   filter (\<lambda>m. msg_role m \<noteq> Assistant) ms"
proof (induction ms rule: rev_induct)
  case (snoc m ms)
  let ?out = "coalesce_adjacent_assistants ms"
  have split: "filter (\<lambda>m. msg_role m \<noteq> Assistant) ?out =
      filter (\<lambda>m. msg_role m \<noteq> Assistant) (butlast ?out)"
    if "?out \<noteq> []" and "msg_role (last ?out) = Assistant"
    using that by (metis (mono_tags, lifting) append_Nil2 append_butlast_last_id filter.simps filter_append)
  with snoc show ?case by (auto simp: coalesce_snoc coalesce_push_def)
qed simp

lemma length_coalesce: "length (coalesce_adjacent_assistants ms) \<le> length ms"
  by (induction ms rule: rev_induct) (auto simp: coalesce_snoc coalesce_push_def)

subsection \<open>Pairing over parts of a history\<close>

text \<open>
  \<open>solicited\<close> and \<open>answered\<close> by the parts that come before and after: the forms the
  compaction proofs use.
\<close>

definition calls_in :: "'v message_part list \<Rightarrow> string set" where
  "calls_in ps = {i. \<exists>p \<in> set ps. call_id_of p = Some i}"

definition results_in :: "'v message_part list \<Rightarrow> string set" where
  "results_in ps = {i. \<exists>p \<in> set ps. result_id_of p = Some i}"

lemma calls_in_simps [simp]:
  "calls_in [] = {}" "calls_in (xs @ ys) = calls_in xs \<union> calls_in ys"
  "calls_in (p # ps) = {i. call_id_of p = Some i} \<union> calls_in ps"
  by (auto simp: calls_in_def)

lemma results_in_simps [simp]:
  "results_in [] = {}" "results_in (xs @ ys) = results_in xs \<union> results_in ys"
  "results_in (p # ps) = {i. result_id_of p = Some i} \<union> results_in ps"
  by (auto simp: results_in_def)

fun solicited_after :: "string set \<Rightarrow> 'v message_part list \<Rightarrow> bool" where
  "solicited_after S [] = True"
| "solicited_after S (p # ps) =
     ((\<forall>i. result_id_of p = Some i \<longrightarrow> i \<in> S) \<and> solicited_after (S \<union> {i. call_id_of p = Some i}) ps)"

fun answered_before :: "string set \<Rightarrow> 'v message_part list \<Rightarrow> bool" where
  "answered_before R [] = True"
| "answered_before R (p # ps) =
     ((\<forall>i. call_id_of p = Some i \<longrightarrow> i \<in> results_in ps \<union> R) \<and> answered_before R ps)"

lemma solicited_after_append:
  "solicited_after S (xs @ ys) \<longleftrightarrow> solicited_after S xs \<and> solicited_after (S \<union> calls_in xs) ys"
  by (induction xs arbitrary: S) (auto simp: Un_assoc)

lemma answered_before_append:
  "answered_before R (xs @ ys) \<longleftrightarrow> answered_before (results_in ys \<union> R) xs \<and> answered_before R ys"
  by (induction xs) (auto simp: Un_assoc)

lemma solicited_after_mono: "solicited_after S ps \<Longrightarrow> S \<subseteq> T \<Longrightarrow> solicited_after T ps"
  by (induction ps arbitrary: S T) (auto, blast)

lemma answered_before_mono: "answered_before R ps \<Longrightarrow> R \<subseteq> T \<Longrightarrow> answered_before T ps"
  by (induction ps) auto

lemma answered_iff: "answered ps \<longleftrightarrow> answered_before {} ps"
  by (induction ps) (auto simp: results_in_def split: option.splits)

lemma solicited_iff: "solicited ps \<longleftrightarrow> solicited_after {} ps"
proof -
  have "solicited_after S ps \<longleftrightarrow> (\<forall>n < length ps. \<forall>i. result_id_of (ps ! n) = Some i \<longrightarrow>
      i \<in> S \<or> (\<exists>k < n. call_id_of (ps ! k) = Some i))" for S
  proof (induction ps arbitrary: S)
    case (Cons p ps)
    have shift: "(\<exists>k < Suc n. call_id_of ((p # ps) ! k) = Some i) \<longleftrightarrow>
        call_id_of p = Some i \<or> (\<exists>k < n. call_id_of (ps ! k) = Some i)" for n i
      by (auto simp: less_Suc_eq_0_disj)
    show ?case
      unfolding solicited_after.simps Cons.IH by (simp add: All_less_Suc2 shift)
  qed simp
  then show ?thesis by (simp add: solicited_def)
qed

lemma solicited_after_splitI:
  assumes "\<And>u y v i. ps = u @ y # v \<Longrightarrow> result_id_of y = Some i \<Longrightarrow> i \<in> S \<union> calls_in u"
  shows "solicited_after S ps"
  using assms
proof (induction ps arbitrary: S)
  case (Cons p ps)
  have "i \<in> S" if "result_id_of p = Some i" for i using Cons.prems [of "[]" p ps i] that by simp
  moreover have "solicited_after (S \<union> {i. call_id_of p = Some i}) ps"
  proof (rule Cons.IH)
    fix u y v i assume "ps = u @ y # v" "result_id_of y = Some i"
    then show "i \<in> (S \<union> {i. call_id_of p = Some i}) \<union> calls_in u"
      using Cons.prems [of "p # u" y v i] by auto
  qed
  ultimately show ?case by simp
qed simp

lemma answered_before_splitI:
  assumes "\<And>u y v i. ps = u @ y # v \<Longrightarrow> call_id_of y = Some i \<Longrightarrow> i \<in> results_in v \<union> R"
  shows "answered_before R ps"
  using assms
proof (induction ps)
  case (Cons p ps)
  have "i \<in> results_in ps \<union> R" if "call_id_of p = Some i" for i using Cons.prems [of "[]" p ps i] that by simp
  moreover have "answered_before R ps"
  proof (rule Cons.IH)
    fix u y v i assume "ps = u @ y # v" "call_id_of y = Some i"
    then show "i \<in> results_in v \<union> R" using Cons.prems [of "p # u" y v i] by simp
  qed
  ultimately show ?case by simp
qed simp

text \<open>Messages without tool parts, such as pinned ones, can be inserted anywhere.\<close>

definition tool_free :: "'v message list \<Rightarrow> bool" where
  "tool_free ms \<longleftrightarrow> (\<forall>p \<in> set (all_parts ms). call_id_of p = None \<and> result_id_of p = None)"

lemma tool_free_neutral:
  assumes "tool_free ms"
  shows "solicited_after S (all_parts ms)" "answered_before R (all_parts ms)"
    "calls_in (all_parts ms) = {}" "results_in (all_parts ms) = {}"
proof -
  have "\<forall>p \<in> set (all_parts ms). call_id_of p = None \<and> result_id_of p = None" using assms by (simp add: tool_free_def)
  then show "solicited_after S (all_parts ms)" "answered_before R (all_parts ms)"
    "calls_in (all_parts ms) = {}" "results_in (all_parts ms) = {}"
    by (induction "all_parts ms" arbitrary: S ms) (auto simp: calls_in_def results_in_def intro: solicited_after_splitI answered_before_splitI)
qed

lemma insert_tool_free:
  assumes "tool_free pins"
  shows "solicited (all_parts (xs @ pins @ ys)) \<longleftrightarrow> solicited (all_parts (xs @ ys))"
    and "coherent (xs @ pins @ ys) \<longleftrightarrow> coherent (xs @ ys)"
  using tool_free_neutral [OF assms]
  by (simp_all add: solicited_iff coherent_def answered_iff solicited_after_append answered_before_append)

lemma solicited_blocks:
  assumes "\<And>pre b post. bs = pre @ b # post \<Longrightarrow> solicited_after (calls_in (concat (map f pre))) (f b)"
  shows "solicited_after {} (concat (map f bs))"
  using assms
proof (induction bs rule: rev_induct)
  case (snoc b bs)
  have "solicited_after {} (concat (map f bs))"
  proof (rule snoc.IH)
    fix pre b' post assume "bs = pre @ b' # post"
    then show "solicited_after (calls_in (concat (map f pre))) (f b')" using snoc.prems [of pre b' "post @ [b]"] by simp
  qed
  then show ?case using snoc.prems [of bs b "[]"] by (simp add: solicited_after_append)
qed simp

lemma answered_blocks:
  assumes "\<And>pre b post. bs = pre @ b # post \<Longrightarrow> answered_before (results_in (concat (map f post))) (f b)"
  shows "answered_before {} (concat (map f bs))"
  using assms
proof (induction bs)
  case (Cons b bs)
  have "answered_before {} (concat (map f bs))"
  proof (rule Cons.IH)
    fix pre b' post assume "bs = pre @ b' # post"
    then show "answered_before (results_in (concat (map f post))) (f b')" using Cons.prems [of "b # pre" b' post] by simp
  qed
  then show ?case using Cons.prems [of "[]" b bs] by (simp add: answered_before_append)
qed simp

lemma nths_split:
  assumes "nths xs K = u @ y # v"
  shows "\<exists>p. p < length xs \<and> p \<in> K \<and> xs ! p = y \<and> u = nths (take p xs) K \<and> v = nths (drop (Suc p) xs) {j. j + Suc p \<in> K}"
  using assms
proof (induction xs arbitrary: u K)
  case (Cons x xs)
  show ?case
  proof (cases "0 \<in> K \<and> u = []")
    case True
    then show ?thesis using Cons.prems by (intro exI [of _ 0]) (simp add: nths_Cons)
  next
    case False
    then obtain u' where rest: "nths xs {j. Suc j \<in> K} = u' @ y # v" and u: "u = (if 0 \<in> K then [x] else []) @ u'"
      using Cons.prems by (cases u) (auto simp: nths_Cons split: if_splits)
    from Cons.IH [OF rest] obtain p where "p < length xs" "Suc p \<in> K" "xs ! p = y"
      "u' = nths (take p xs) {j. Suc j \<in> K}" "v = nths (drop (Suc p) xs) {j. Suc (j + Suc p) \<in> K}" by auto
    then show ?thesis using u by (intro exI [of _ "Suc p"]) (simp add: nths_Cons)
  qed
qed simp

lemma nths_before: "q < p \<Longrightarrow> p \<le> length xs \<Longrightarrow> q \<in> K \<Longrightarrow> xs ! q \<in> set (nths (take p xs) K)"
  unfolding set_nths by (intro CollectI exI [of _ q]) simp

lemma nths_after:
  assumes "p < q" and "q < length xs" and "q \<in> K"
  shows "xs ! q \<in> set (nths (drop (Suc p) xs) {j. j + Suc p \<in> K})"
  unfolding set_nths using assms by (intro CollectI exI [of _ "q - Suc p"]) simp

lemma nths_member: "q < length xs \<Longrightarrow> q \<in> K \<Longrightarrow> xs ! q \<in> set (nths xs K)"
  unfolding set_nths by blast

end
