(* ===== verification/Token_Count.thy ===== *)
theory Token_Count
  imports Message
begin

section \<open>Token counters\<close>

text \<open>
  src/src/compact.rs, the estimators of the size of a conversation: the rendering both share, the
  heuristic counter, the counter by a decimal ratio and the parser of that ratio. The text of a
  JSON value is the argument \<open>json\<close>; the text of a float is an argument too, since the code goes
  on from its printed form. The sums of the iterators wrap, as the release build does.
\<close>

subsection \<open>Characters\<close>

text \<open>\<open>chars().count()\<close>: the bytes that do not continue a UTF-8 sequence.\<close>

definition chars_count :: "string \<Rightarrow> u64" where
  "chars_count s = of_nat (length (filter (\<lambda>c. (of_char c :: nat) div 64 \<noteq> 2) s))"

definition chars_per_token :: u64 where
  "chars_per_token = 4"

definition message_overhead_chars :: u64 where
  "message_overhead_chars = 20"

fun content_part_chars :: "tool_content_part \<Rightarrow> u64" where
  "content_part_chars (TPText t) = chars_count t"
| "content_part_chars (TPImage _) = 256"

fun tool_content_chars :: "tool_content \<Rightarrow> u64" where
  "tool_content_chars (TCText s) = chars_count s"
| "tool_content_chars (TCMultipart ps) = sum_list (map content_part_chars ps)"

fun rendered_part_chars :: "('v \<Rightarrow> string) \<Rightarrow> 'v message_part \<Rightarrow> u64" where
  "rendered_part_chars json (TextPart t) = chars_count t"
| "rendered_part_chars json (ThinkingPart t _ _) = chars_count t"
| "rendered_part_chars json (ImagePart _) = 256"
| "rendered_part_chars json (ToolCallPart _ n v) = sat_add (chars_count n) (chars_count (json v))"
| "rendered_part_chars json (ToolResultPart _ _ out _ _) = tool_content_chars out"

definition rendered_message_chars :: "('v \<Rightarrow> string) \<Rightarrow> 'v message \<Rightarrow> u64" where
  "rendered_message_chars json m = sum_list (map (rendered_part_chars json) (msg_parts m))"

subsection \<open>The counters\<close>

definition heuristic_count :: "('v \<Rightarrow> string) \<Rightarrow> 'v message list \<Rightarrow> u64" where
  "heuristic_count json ms =
     sum_list (map (\<lambda>m. sat_add (rendered_message_chars json m) message_overhead_chars) ms) div chars_per_token"

record ratio_counter =
  per_message :: u64
  ratio_num :: u64
  chars_den :: u64

definition ratio_count :: "('v \<Rightarrow> string) \<Rightarrow> ratio_counter \<Rightarrow> 'v message list \<Rightarrow> u64" where
  "ratio_count json c ms =
     (let scaled_chars = foldl (\<lambda>acc m. sat_add acc (sat_mul (rendered_message_chars json m) (chars_den c))) 0 ms;
          overhead = sat_mul (sat_mul (per_message c) (ratio_num c)) (of_nat (length ms))
      in sat_add scaled_chars overhead div ratio_num c)"

text \<open>\<open>str::parse\<close> to an unsigned integer takes a plus sign before the digits.\<close>

definition parse_unsigned :: "string \<Rightarrow> u64 option" where
  "parse_unsigned s =
     (let digits = (case s of CHR ''+'' # ds \<Rightarrow> ds | _ \<Rightarrow> s)
      in if digits \<noteq> [] \<and> list_all is_ascii_digit digits then parse_u64 digits else None)"

definition split_at_dot :: "string \<Rightarrow> string \<times> string" where
  "split_at_dot t =
     (takeWhile (\<lambda>c. c \<noteq> CHR ''.'') t, drop 1 (dropWhile (\<lambda>c. c \<noteq> CHR ''.'') t))"

definition checked_pow_ten :: "nat \<Rightarrow> u64 option" where
  "checked_pow_ten k = (if k < 2 ^ 32 \<and> 10 ^ k < (2 :: nat) ^ 64 then Some (10 ^ k) else None)"

definition decimal_ratio :: "string \<Rightarrow> (u64 \<times> u64) option" where
  "decimal_ratio t =
     (case split_at_dot t of (whole_text, fraction_text) \<Rightarrow>
        (case (if whole_text = [] then Some 0 else parse_unsigned whole_text) of
           None \<Rightarrow> None
         | Some whole \<Rightarrow>
             if fraction_text = [] then Some (whole, 1)
             else
               (case checked_pow_ten (length fraction_text) of
                  None \<Rightarrow> None
                | Some den \<Rightarrow>
                    (case checked_mul whole den of
                       None \<Rightarrow> None
                     | Some scaled \<Rightarrow>
                         (case parse_unsigned fraction_text of
                            None \<Rightarrow> None
                          | Some fraction \<Rightarrow>
                              (case checked_add scaled fraction of
                                 None \<Rightarrow> None
                               | Some num \<Rightarrow> Some (num, den)))))))"

text \<open>
  A ratio is given by whether it is finite and positive and by its printed form; the default of
  four prints as the one digit.
\<close>

definition validated :: "bool \<Rightarrow> string \<Rightarrow> u64 \<Rightarrow> ratio_counter" where
  "validated usable printed per =
     (let (num, den) = (case decimal_ratio (if usable then printed else ''4'') of Some parts \<Rightarrow> parts | None \<Rightarrow> (4, 1))
      in \<lparr>per_message = per, ratio_num = (if num = 0 then 1 else num), chars_den = den\<rparr>)"

definition openai :: ratio_counter where "openai = validated True ''4.3'' 4"

definition anthropic :: ratio_counter where "anthropic = validated True ''3.6'' 5"

definition gemini :: ratio_counter where "gemini = validated True ''4.05'' 4"

definition local_default :: ratio_counter where "local_default = validated True ''3.8'' 4"

definition budget_permille :: "string \<Rightarrow> u64" where
  "budget_permille printed =
     (case decimal_ratio printed of
        None \<Rightarrow> 250
      | Some (num, den) \<Rightarrow>
          let permille = unat (sat_mul (ucast num :: u128) 1000) div unat den
          in if permille < 2 ^ 64 then of_nat permille else 250)"

subsection \<open>What the counters measure\<close>

text \<open>The size of a message in characters, as a natural number.\<close>

definition chars_len :: "string \<Rightarrow> nat" where
  "chars_len s = length (filter (\<lambda>c. (of_char c :: nat) div 64 \<noteq> 2) s)"

fun content_part_size :: "tool_content_part \<Rightarrow> nat" where
  "content_part_size (TPText t) = chars_len t"
| "content_part_size (TPImage _) = 256"

fun part_size :: "('v \<Rightarrow> string) \<Rightarrow> 'v message_part \<Rightarrow> nat" where
  "part_size json (TextPart t) = chars_len t"
| "part_size json (ThinkingPart t _ _) = chars_len t"
| "part_size json (ImagePart _) = 256"
| "part_size json (ToolCallPart _ n v) = chars_len n + chars_len (json v)"
| "part_size json (ToolResultPart _ _ (TCText s) _ _) = chars_len s"
| "part_size json (ToolResultPart _ _ (TCMultipart ps) _ _) = sum_list (map content_part_size ps)"

definition msg_size :: "('v \<Rightarrow> string) \<Rightarrow> 'v message \<Rightarrow> nat" where
  "msg_size json m = sum_list (map (part_size json) (msg_parts m))"

definition sizes :: "('v \<Rightarrow> string) \<Rightarrow> 'v message list \<Rightarrow> nat" where
  "sizes json ms = sum_list (map (msg_size json) ms)"

definition in_range :: "('v \<Rightarrow> string) \<Rightarrow> 'v message list \<Rightarrow> bool" where
  "in_range json ms \<longleftrightarrow> sizes json ms + 20 * length ms < 2 ^ 64"

lemma unat_chars_count: "chars_len s < 2 ^ 64 \<Longrightarrow> unat (chars_count s) = chars_len s"
  by (simp add: chars_count_def chars_len_def unat_of_nat)

lemma sum_list_mono_index: "(\<And>x. x \<in> set xs \<Longrightarrow> f x = g x) \<Longrightarrow> sum_list (map f xs) = sum_list (map g xs)"
  by (metis map_eq_conv)

lemma elem_le_sum: "x \<in> set xs \<Longrightarrow> f x \<le> sum_list (map f xs)" for f :: "'a \<Rightarrow> nat"
  by (induction xs) auto

lemma unat_content_part: "content_part_size p < 2 ^ 64 \<Longrightarrow> unat (content_part_chars p) = content_part_size p"
  by (cases p) (simp_all add: unat_chars_count)

lemma unat_sum_sizes:
  fixes f :: "'b \<Rightarrow> 'a::len word"
  assumes "\<And>x. x \<in> set xs \<Longrightarrow> g x < 2 ^ LENGTH('a) \<Longrightarrow> unat (f x) = g x" and "sum_list (map g xs) < 2 ^ LENGTH('a)"
  shows "unat (sum_list (map f xs)) = sum_list (map g xs)"
proof -
  have "unat (f x) = g x" if "x \<in> set xs" for x
    using elem_le_sum [OF that, of g] assms(2) by (intro assms(1) [OF that]) simp
  then have "map unat (map f xs) = map g xs" by simp
  then show ?thesis using unat_sum_list [of "map f xs"] assms(2) by metis
qed

lemma unat_content_parts:
  "sum_list (map content_part_size ps) < 2 ^ 64 \<Longrightarrow>
   unat (sum_list (map content_part_chars ps)) = sum_list (map content_part_size ps)"
  by (rule unat_sum_sizes) (simp_all add: unat_content_part)

lemma unat_part_chars:
  assumes "part_size json p < 2 ^ 64"
  shows "unat (rendered_part_chars json p) = part_size json p"
proof (cases p)
  case (ToolCallPart i n v)
  with assms show ?thesis by (simp add: unat_sat_add unat_chars_count)
next
  case (ToolResultPart i n out e r)
  with assms show ?thesis
    by (cases out) (simp_all add: unat_chars_count unat_content_parts)
qed (use assms in \<open>simp_all add: unat_chars_count\<close>)

lemma unat_message_chars: "msg_size json m < 2 ^ 64 \<Longrightarrow> unat (rendered_message_chars json m) = msg_size json m"
  unfolding rendered_message_chars_def msg_size_def
  by (rule unat_sum_sizes) (simp_all add: unat_part_chars)

lemma sizes_simps [simp]:
  "sizes json [] = 0" "sizes json (m # ms) = msg_size json m + sizes json ms"
  "sizes json (ms @ ns) = sizes json ms + sizes json ns"
  by (simp_all add: sizes_def)

lemma heuristic_exact:
  assumes "in_range json ms"
  shows "unat (heuristic_count json ms) = (sizes json ms + 20 * length ms) div 4"
proof -
  have total: "sum_list (map (\<lambda>m. msg_size json m + 20) ms) = sizes json ms + 20 * length ms"
    by (induction ms) simp_all
  have "unat (sum_list (map (\<lambda>m. sat_add (rendered_message_chars json m) message_overhead_chars) ms)) =
      sum_list (map (\<lambda>m. msg_size json m + 20) ms)"
    by (rule unat_sum_sizes)
       (use assms total in \<open>simp_all add: in_range_def unat_sat_add unat_message_chars message_overhead_chars_def\<close>)
  with total have "unat (sum_list (map (\<lambda>m. sat_add (rendered_message_chars json m) message_overhead_chars) ms)) =
      sizes json ms + 20 * length ms" by simp
  then show ?thesis by (simp add: heuristic_count_def chars_per_token_def unat_div)
qed

lemma sat_mul_sum: "sum_list (map (\<lambda>x. min (f x * k) b) xs) \<le> sum_list (map f xs) * k \<and>
    min (sum_list (map (\<lambda>x. min (f x * k) b) xs)) b = min (sum_list (map f xs) * k) (b :: nat)"
  by (induction xs) (auto simp: min_def algebra_simps split: if_splits)

lemma ratio_count_saturated:
  assumes "in_range json ms"
  shows "unat (ratio_count json c ms) =
    min (min (sizes json ms * unat (chars_den c)) (2 ^ 64 - 1) +
         min (min (unat (per_message c) * unat (ratio_num c)) (2 ^ 64 - 1) * length ms) (2 ^ 64 - 1)) (2 ^ 64 - 1)
    div unat (ratio_num c)"
proof -
  have "msg_size json m < 2 ^ 64" if "m \<in> set ms" for m
    using elem_le_sum [OF that, of "msg_size json"] assms by (simp add: in_range_def sizes_def)
  then have "sum_list (map (\<lambda>m. unat (sat_mul (rendered_message_chars json m) (chars_den c))) ms) =
      sum_list (map (\<lambda>m. min (msg_size json m * unat (chars_den c)) (2 ^ 64 - 1)) ms)"
    by (intro sum_list_mono_index) (simp add: unat_sat_mul unat_message_chars)
  then have "unat (foldl (\<lambda>acc m. sat_add acc (sat_mul (rendered_message_chars json m) (chars_den c))) 0 ms) =
      min (sizes json ms * unat (chars_den c)) (2 ^ 64 - 1)"
    using sat_mul_sum [of "msg_size json" "unat (chars_den c)" "2 ^ 64 - 1" ms]
    by (simp add: unat_foldl_sat_add sizes_def)
  moreover have "unat (of_nat (length ms) :: u64) = length ms"
    using assms by (simp add: in_range_def unat_of_nat)
  ultimately show ?thesis by (simp add: ratio_count_def Let_def unat_div unat_sat_add unat_sat_mul)
qed

text \<open>
  A counter by a ratio charges, for a conversation whose figures stay below the width, exactly
  the overhead of every message plus the rounded-down quotient of the characters by the decimal
  ratio: the one division at the end loses less than one token of the whole.
\<close>

theorem ratio_count_exact:
  assumes "in_range json ms" and "ratio_num c \<noteq> 0"
    and "sizes json ms * unat (chars_den c) + unat (per_message c) * unat (ratio_num c) * length ms < 2 ^ 64"
  shows "unat (ratio_count json c ms) =
    unat (per_message c) * length ms + sizes json ms * unat (chars_den c) div unat (ratio_num c)"
proof (cases ms)
  case Nil
  then show ?thesis using ratio_count_saturated [OF assms(1), of c] by simp
next
  case (Cons m ms')
  have num: "0 < unat (ratio_num c)" using assms(2) by (simp add: unat_gt_0)
  have caps: "min (min s (b - 1) + min (min p (b - 1) * n) (b - 1)) (b - 1) = s + p * n"
    if "s + p * n < b" "0 < n" for s p n b :: nat
  proof -
    have "p * 1 \<le> p * n" using that(2) by (intro mult_le_mono2) simp
    then have "p \<le> b - 1" "p * n \<le> b - 1" "s \<le> b - 1" using that(1) by linarith+
    then have "min p (b - 1) = p" "min (p * n) (b - 1) = p * n" "min s (b - 1) = s" by (simp_all only: min_absorb1)
    with that(1) show ?thesis by simp
  qed
  have "unat (ratio_count json c ms) =
      (sizes json ms * unat (chars_den c) + unat (per_message c) * unat (ratio_num c) * length ms) div unat (ratio_num c)"
    unfolding ratio_count_saturated [OF assms(1), of c] using Cons by (subst caps [OF assms(3)]) simp_all
  also have "\<dots> = (sizes json ms * unat (chars_den c) + (unat (per_message c) * length ms) * unat (ratio_num c)) div unat (ratio_num c)"
    by (simp add: algebra_simps)
  also have "\<dots> = unat (per_message c) * length ms + sizes json ms * unat (chars_den c) div unat (ratio_num c)"
    using num by simp
  finally show ?thesis .
qed

lemma provider_counters:
  "openai = \<lparr>per_message = 4, ratio_num = 43, chars_den = 10\<rparr>"
  "anthropic = \<lparr>per_message = 5, ratio_num = 36, chars_den = 10\<rparr>"
  "gemini = \<lparr>per_message = 4, ratio_num = 405, chars_den = 100\<rparr>"
  "local_default = \<lparr>per_message = 4, ratio_num = 38, chars_den = 10\<rparr>"
  by (simp_all add: openai_def anthropic_def gemini_def local_default_def validated_def decimal_ratio_def
      split_at_dot_def parse_unsigned_def is_ascii_digit_def parse_u64_def digits_value_def checked_pow_ten_def
      checked_mul_def checked_add_def)

theorem ratio_count_exact_witness: "unat (ratio_count (\<lambda>_ :: unit. []) anthropic [user_message ''hello world'']) = 8"
proof -
  have c: "anthropic = \<lparr>per_message = 5, ratio_num = 36, chars_den = 10\<rparr>"
    by (simp add: anthropic_def validated_def decimal_ratio_def split_at_dot_def parse_unsigned_def
        is_ascii_digit_def parse_u64_def digits_value_def checked_pow_ten_def checked_mul_def checked_add_def)
  have "sizes (\<lambda>_ :: unit. []) [user_message ''hello world''] = 11"
    by (simp add: msg_size_def user_message_def chars_len_def)
  then show ?thesis
    using ratio_count_exact [of "\<lambda>_ :: unit. []" "[user_message ''hello world'']" anthropic]
    by (simp add: c in_range_def)
qed

lemma digits_value_append: "digits_value (xs @ ys) = digits_value xs * 10 ^ length ys + digits_value ys"
proof -
  have "foldl (\<lambda>a c. a * 10 + (of_char c - 48)) a ys = a * 10 ^ length ys + digits_value ys" for a
  proof (induction ys arbitrary: a rule: rev_induct)
    case (snoc y ys)
    have "digits_value (ys @ [y]) = digits_value ys * 10 + (of_char y - 48)" by (simp add: digits_value_def)
    then show ?case using snoc by (simp add: algebra_simps)
  qed (simp add: digits_value_def)
  from this [of "digits_value xs"] show ?thesis by (metis digits_value_def foldl_append)
qed

lemma digits_value_less: "list_all is_ascii_digit ds \<Longrightarrow> digits_value ds < 10 ^ length ds"
proof (induction ds rule: rev_induct)
  case (snoc d ds)
  have "is_ascii_digit d" using snoc.prems by simp
  then have digit: "digits_value [d] \<le> 9" by (simp add: is_ascii_digit_def digits_value_def) linarith
  have "digits_value ds + 1 \<le> 10 ^ length ds" using snoc by simp
  then have "(digits_value ds + 1) * 10 \<le> 10 ^ length ds * 10" by (rule mult_le_mono1)
  then have "digits_value ds * 10 + 10 \<le> 10 ^ length ds * 10" by simp
  with digit have "digits_value ds * 10 + digits_value [d] < 10 ^ length ds * 10" by linarith
  then show ?case by (simp add: digits_value_append)
qed (simp add: digits_value_def)

lemma parse_unsigned_digits:
  assumes "ds \<noteq> []" and "list_all is_ascii_digit ds"
  shows "parse_unsigned ds = parse_u64 ds"
proof -
  have "hd ds \<noteq> CHR ''+''" using assms by (cases ds) (auto simp: is_ascii_digit_def)
  then have "(case ds of CHR ''+'' # ds' \<Rightarrow> ds' | _ \<Rightarrow> ds) = ds"
    by (cases ds) (auto split: char.splits bool.splits)
  then show ?thesis using assms by (simp add: parse_unsigned_def Let_def)
qed

lemma split_decimal: "list_all is_ascii_digit whole \<Longrightarrow> split_at_dot (whole @ CHR ''.'' # fraction) = (whole, fraction)"
proof -
  assume "list_all is_ascii_digit whole"
  then have "\<forall>c \<in> set whole. c \<noteq> CHR ''.''" by (auto simp: list_all_iff is_ascii_digit_def)
  then show ?thesis by (simp add: split_at_dot_def)
qed

lemma checked_pow_ten_Some: "10 ^ k < (2 :: nat) ^ 64 \<Longrightarrow> \<exists>den. checked_pow_ten k = Some den \<and> unat den = 10 ^ k"
proof -
  assume small: "10 ^ k < (2 :: nat) ^ 64"
  have "k < 20"
  proof (rule ccontr)
    assume "\<not> k < 20"
    then have "(10 :: nat) ^ 20 \<le> 10 ^ k" by (intro power_increasing) simp_all
    with small show False by simp
  qed
  moreover have "unat (of_nat (10 ^ k) :: u64) = 10 ^ k" using small by (simp add: unat_of_nat del: of_nat_power)
  ultimately show ?thesis using small by (auto simp: checked_pow_ten_def)
qed

text \<open>
  A ratio written as digits, a point and digits is taken exactly: numerator and denominator are
  the digits without the point over the power of ten of the places after it, and nothing is
  taken when one of the two does not fit 64 bits.
\<close>

theorem decimal_ratio_exact:
  assumes "whole \<noteq> []" and "list_all is_ascii_digit whole" and "fraction \<noteq> []" and "list_all is_ascii_digit fraction"
  shows "decimal_ratio (whole @ CHR ''.'' # fraction) = (
    if 10 ^ length fraction < (2 :: nat) ^ 64 \<and> digits_value (whole @ fraction) < 2 ^ 64
    then Some (of_nat (digits_value (whole @ fraction)), of_nat (10 ^ length fraction)) else None)"
proof (cases "10 ^ length fraction < (2 :: nat) ^ 64")
  case False
  then have "checked_pow_ten (length fraction) = None" by (simp add: checked_pow_ten_def)
  then show ?thesis using False assms
    by (simp add: decimal_ratio_def split_decimal split: option.split)
next
  case True
  then obtain den where den: "checked_pow_ten (length fraction) = Some den" "unat den = 10 ^ length fraction"
    using checked_pow_ten_Some by blast
  have total: "digits_value (whole @ fraction) = digits_value whole * unat den + digits_value fraction"
    by (simp add: digits_value_append den(2))
  have fits: "digits_value whole \<le> digits_value whole * unat den" by (simp add: den(2))
  have frac: "parse_unsigned fraction = Some (of_nat (digits_value fraction))"
    "digits_value fraction < 2 ^ 64"
    using parse_unsigned_digits [OF assms(3,4)] digits_value_less [OF assms(4)] True by (simp_all add: parse_u64_def)
  have den_of: "den = of_nat (10 ^ length fraction)" by (simp add: den(2) [symmetric] del: of_nat_power)
  show ?thesis
  proof (cases "digits_value whole < 2 ^ 64")
    case False
    then have "decimal_ratio (whole @ CHR ''.'' # fraction) = None"
      using assms parse_unsigned_digits [OF assms(1,2)] by (simp add: decimal_ratio_def split_decimal parse_u64_def)
    moreover have "\<not> digits_value (whole @ fraction) < 2 ^ 64" using False fits total by linarith
    ultimately show ?thesis by simp
  next
    case whole: True
    then have "parse_unsigned whole = Some (of_nat (digits_value whole))" "unat (of_nat (digits_value whole) :: u64) = digits_value whole"
      using parse_unsigned_digits [OF assms(1,2)] by (simp_all add: parse_u64_def unat_of_nat)
    then show ?thesis
      using assms frac den whole total True
      by (auto simp: decimal_ratio_def split_decimal checked_mul_def checked_add_def den_of unat_of_nat
          unat_word_ariths simp del: of_nat_power)
  qed
qed

theorem decimal_ratio_exact_witness: "decimal_ratio ''4.05'' = Some (405, 100)"
  using decimal_ratio_exact [of "''4''" "''05''"] by (simp add: is_ascii_digit_def digits_value_def)

subsection \<open>Counters that shrink with the conversation\<close>

text \<open>
  A conversation is thinned by dropping messages and parts of messages. What a compaction relies
  on beyond the interface of the counter is that thinning never raises the figure.
\<close>

definition thinned :: "'v message list \<Rightarrow> 'v message list \<Rightarrow> bool" where
  "thinned = list_emb (\<lambda>a b. msg_role a = msg_role b \<and> subseq (msg_parts a) (msg_parts b))"

locale monotone_counter =
  fixes counter :: "'v message list \<Rightarrow> u64" and bounded :: "'v message list \<Rightarrow> bool"
  assumes bounded_thinned: "thinned xs ys \<Longrightarrow> bounded ys \<Longrightarrow> bounded xs"
    and count_thinned: "thinned xs ys \<Longrightarrow> bounded ys \<Longrightarrow> counter xs \<le> counter ys"
begin

lemma count_subseq: "subseq xs ys \<Longrightarrow> bounded ys \<Longrightarrow> counter xs \<le> counter ys"
  by (rule count_thinned) (auto simp: thinned_def elim: list_emb_mono [rule_format, rotated])

end

lemma sum_subseq: "subseq ps qs \<Longrightarrow> sum_list (map f ps) \<le> sum_list (map f qs)" for f :: "'a \<Rightarrow> nat"
  by (induction rule: list_emb.induct) auto

lemma thinned_sizes:
  assumes "thinned xs ys"
  shows "sizes json xs \<le> sizes json ys" and "length xs \<le> length ys"
proof -
  show "sizes json xs \<le> sizes json ys"
    using assms unfolding thinned_def
    by (induction rule: list_emb.induct) (auto simp: msg_size_def intro: add_mono sum_subseq trans_le_add2)
  show "length xs \<le> length ys" using assms unfolding thinned_def by (rule list_emb_length)
qed

lemma thinned_in_range: "thinned xs ys \<Longrightarrow> in_range json ys \<Longrightarrow> in_range json xs"
  using thinned_sizes(1) [of xs ys json] thinned_sizes(2) [of xs ys] by (simp add: in_range_def)

interpretation heuristic: monotone_counter "heuristic_count json" "in_range json" for json :: "'v \<Rightarrow> string"
proof (unfold_locales, goal_cases)
  case 1
  then show ?case by (rule thinned_in_range)
next
  case (2 xs ys)
  then have "sizes json xs + 20 * length xs \<le> sizes json ys + 20 * length ys"
    using thinned_sizes(1) [of xs ys json] thinned_sizes(2) [of xs ys] by (intro add_mono mult_le_mono2)
  then show ?case using 2 thinned_in_range [OF 2]
    by (simp add: word_le_nat_alt heuristic_exact div_le_mono)
qed

interpretation by_ratio: monotone_counter "ratio_count json c" "in_range json"
  for json :: "'v \<Rightarrow> string" and c :: ratio_counter
proof (unfold_locales, goal_cases)
  case 1
  then show ?case by (rule thinned_in_range)
next
  case (2 xs ys)
  have mono: "min (min a b + min p b) b \<le> min (min a' b + min p' b) b" if "a \<le> a'" "p \<le> p'" for a a' p p' b :: nat
    using that by linarith
  show ?case
    unfolding word_le_nat_alt ratio_count_saturated [OF thinned_in_range [OF 2]] ratio_count_saturated [OF 2(2)]
    by (intro div_le_mono mono mult_le_mono1 mult_le_mono2 thinned_sizes [OF 2(1)])
qed

text \<open>Coalescing joins messages; each join adds at most a separator of two characters.\<close>

lemma join_size: "sum_list (map (part_size json) (join_parts ps qs)) \<le>
    sum_list (map (part_size json) ps) + sum_list (map (part_size json) qs) + 2"
  by (simp add: join_parts_def chars_len_def)

lemma coalesce_sizes:
  "\<exists>j. sizes json (coalesce_adjacent_assistants ms) \<le> sizes json ms + 2 * j \<and>
     length (coalesce_adjacent_assistants ms) + j = length ms"
proof (induction ms rule: rev_induct)
  case (snoc m ms)
  let ?out = "coalesce_adjacent_assistants ms"
  from snoc.IH obtain j where j: "sizes json ?out \<le> sizes json ms + 2 * j" "length ?out + j = length ms" by blast
  show ?case
  proof (cases "msg_role m = Assistant \<and> ?out \<noteq> [] \<and> msg_role (last ?out) = Assistant")
    case True
    then obtain init l where out: "?out = init @ [l]" by (metis append_butlast_last_id)
    have "coalesce_push ?out m = init @ [l\<lparr>msg_parts := join_parts (msg_parts l) (msg_parts m)\<rparr>]"
      using True by (simp add: coalesce_push_def out)
    then have "sizes json (coalesce_push ?out m) \<le> sizes json ?out + msg_size json m + 2"
      "length (coalesce_push ?out m) = length ?out"
      using join_size [of json "msg_parts l" "msg_parts m"] by (simp_all add: out msg_size_def)
    with j show ?thesis by (intro exI [of _ "Suc j"]) (simp add: coalesce_snoc)
  next
    case False
    then have "coalesce_push ?out m = ?out @ [m]" by (auto simp: coalesce_push_def)
    with j show ?thesis by (intro exI [of _ j]) (simp add: coalesce_snoc)
  qed
qed simp

subsection \<open>Counters that settle\<close>

text \<open>
  What the end of the drive loop rests on: rewriting a conversation in place without making it
  longer, or joining \<open>j\<close> messages onto their neighbours with a separator of two characters each,
  never raises the figure of a counter that charges enough per message.
\<close>

locale settling_counter =
  fixes json :: "'v \<Rightarrow> string" and counter :: "'v message list \<Rightarrow> u64"
  assumes settles: "in_range json ys \<Longrightarrow> xs \<noteq> [] \<Longrightarrow> sizes json xs \<le> sizes json ys + 2 * j \<Longrightarrow>
    length xs + j = length ys \<Longrightarrow> counter xs \<le> counter ys"
begin

lemma count_joined:
  assumes "in_range json ms"
  shows "counter (coalesce_adjacent_assistants ms) \<le> counter ms"
proof (cases "ms = []")
  case False
  obtain j where "sizes json (coalesce_adjacent_assistants ms) \<le> sizes json ms + 2 * j"
    and "length (coalesce_adjacent_assistants ms) + j = length ms"
    using coalesce_sizes [of json ms] by blast
  moreover have "coalesce_adjacent_assistants ms \<noteq> []" using False by (cases ms rule: rev_cases) (simp_all add: coalesce_snoc)
  ultimately show ?thesis using assms by (intro settles)
qed simp

lemma count_rewritten: "in_range json ys \<Longrightarrow> length xs = length ys \<Longrightarrow> sizes json xs \<le> sizes json ys \<Longrightarrow> counter xs \<le> counter ys"
  using settles [of ys xs 0] by (cases "xs = []") auto

lemma dearer_is_longer:
  assumes "counter [m] < counter [m']" and "in_range json [m]"
  shows "msg_size json m < msg_size json m'"
proof (rule ccontr)
  assume "\<not> msg_size json m < msg_size json m'"
  then have "counter [m'] \<le> counter [m]" using assms(2) by (intro count_rewritten) simp_all
  with assms(1) show False by simp
qed

end

interpretation settling_heuristic: settling_counter json "heuristic_count json" for json :: "'v \<Rightarrow> string"
proof (unfold_locales, goal_cases)
  case (1 ys xs j)
  then have le: "sizes json xs + 20 * length xs \<le> sizes json ys + 20 * length ys" by simp
  then have "in_range json xs" using 1(1) by (simp add: in_range_def)
  with le 1(1) show ?case by (simp add: word_le_nat_alt heuristic_exact div_le_mono)
qed

text \<open>
  A counter by a ratio settles when what it charges for a message covers the two characters of a
  separator; the counters of the providers do.
\<close>

definition covers_separator :: "ratio_counter \<Rightarrow> bool" where
  "covers_separator c \<longleftrightarrow> 2 * unat (chars_den c) \<le> unat (per_message c) * unat (ratio_num c)"

definition saturated :: "nat \<Rightarrow> nat" where
  "saturated n = min n (2 ^ 64 - 1)"

lemma saturated_add: "saturated (saturated a + saturated b) = saturated (a + b)"
  by (simp add: saturated_def)

lemma saturated_mult:
  assumes "0 < n"
  shows "saturated (saturated p * n) = saturated (p * n)"
proof (cases "p \<le> 2 ^ 64 - 1")
  case False
  have "1 \<le> n" using assms by simp
  then have "m * 1 \<le> m * n" for m :: nat by (rule mult_le_mono2)
  then have "2 ^ 64 - 1 \<le> (2 ^ 64 - 1) * n" "p \<le> p * n" by (simp_all only: mult_1_right)
  with False show ?thesis unfolding saturated_def by linarith
qed (simp add: saturated_def)

lemma ratio_count_eq:
  assumes "in_range json ms" and "ms \<noteq> []"
  shows "unat (ratio_count json c ms) =
    saturated (sizes json ms * unat (chars_den c) + unat (per_message c) * unat (ratio_num c) * length ms) div unat (ratio_num c)"
proof -
  have "0 < length ms" using assms(2) by simp
  from saturated_mult [OF this, of "unat (per_message c) * unat (ratio_num c)"] show ?thesis
    unfolding ratio_count_saturated [OF assms(1), of c] saturated_def [symmetric] by (simp add: saturated_add)
qed

lemma ratio_settles:
  assumes "covers_separator c" and "in_range json ys" and "xs \<noteq> []"
    and "sizes json xs \<le> sizes json ys + 2 * j" and "length xs + j = length ys"
  shows "ratio_count json c xs \<le> ratio_count json c ys"
proof -
  let ?d = "unat (chars_den c)" and ?q = "unat (per_message c) * unat (ratio_num c)"
  have ys: "ys \<noteq> []" using assms(3,5) by auto
  have xs: "in_range json xs" using assms(2,4,5) by (simp add: in_range_def)
  have "sizes json xs * ?d \<le> (sizes json ys + 2 * j) * ?d" using assms(4) by (rule mult_le_mono1)
  moreover have "2 * ?d * j \<le> ?q * j" using assms(1) unfolding covers_separator_def by (rule mult_le_mono1)
  moreover have "(sizes json ys + 2 * j) * ?d = sizes json ys * ?d + 2 * ?d * j" by (simp add: algebra_simps)
  ultimately have "sizes json xs * ?d + ?q * length xs \<le> sizes json ys * ?d + ?q * j + ?q * length xs"
    by linarith
  also have "\<dots> = sizes json ys * ?d + ?q * length ys" unfolding assms(5) [symmetric] by (simp add: algebra_simps)
  finally have "saturated (sizes json xs * ?d + ?q * length xs) \<le> saturated (sizes json ys * ?d + ?q * length ys)"
    unfolding saturated_def by (rule min.mono) simp
  then show ?thesis
    unfolding word_le_nat_alt ratio_count_eq [OF xs assms(3)] ratio_count_eq [OF assms(2) ys] by (rule div_le_mono)
qed

lemma ratio_settling: "covers_separator c \<Longrightarrow> settling_counter json (ratio_count json c)"
  by unfold_locales (rule ratio_settles)

lemma provider_covers:
  "covers_separator openai" "covers_separator anthropic" "covers_separator gemini" "covers_separator local_default"
  by (simp_all add: provider_counters covers_separator_def)

interpretation settling_openai: settling_counter json "ratio_count json openai" for json :: "'v \<Rightarrow> string"
  by (rule ratio_settling [OF provider_covers(1)])

interpretation settling_anthropic: settling_counter json "ratio_count json anthropic" for json :: "'v \<Rightarrow> string"
  by (rule ratio_settling [OF provider_covers(2)])

end
