(* ===== verification/Compact_Types.thy ===== *)
theory Compact_Types
  imports Token_Count
begin

section \<open>Compaction requests and outcomes\<close>

text \<open>
  src/src/compact/types.rs: why a pass runs, what a compactor is told, what it answers, and the
  overflow the manager reports. The token counter of the context is a function on messages.
\<close>

datatype compact_reason = PruneReason | ThresholdExceeded | Emergency | Manual

fun show_compact_reason :: "compact_reason \<Rightarrow> string" where
  "show_compact_reason ThresholdExceeded = ''threshold exceeded''"
| "show_compact_reason Emergency = ''emergency''"
| "show_compact_reason Manual = ''manual''"
| "show_compact_reason PruneReason = ''prune''"

record 'v compaction_context =
  cx_tokens_before :: u64
  cx_reason :: compact_reason
  cx_window :: u64
  cx_turn :: nat
  cx_counter :: "'v message list \<Rightarrow> u64"
  cx_instructions :: "string option"
  cx_additional :: "string list"
  cx_pinned :: "'v message list"

definition new_context :: "u64 \<Rightarrow> compact_reason \<Rightarrow> u64 \<Rightarrow> nat \<Rightarrow> ('v message list \<Rightarrow> u64) \<Rightarrow> 'v compaction_context" where
  "new_context before reason window turn counter =
     \<lparr>cx_tokens_before = before, cx_reason = reason, cx_window = window, cx_turn = turn, cx_counter = counter,
      cx_instructions = None, cx_additional = [], cx_pinned = []\<rparr>"

record 'v compaction_outcome =
  oc_messages :: "'v message list"
  oc_tokens_after :: u64
  oc_tokens_saved :: u64
  oc_success :: bool
  oc_error :: "string option"
  oc_evicted :: "'v message list"
  oc_stage :: "string option"

definition no_change :: "('v \<Rightarrow> string) \<Rightarrow> 'v message list \<Rightarrow> 'v compaction_outcome" where
  "no_change json ms =
     \<lparr>oc_messages = ms, oc_tokens_after = heuristic_count json ms, oc_tokens_saved = 0, oc_success = True,
      oc_error = None, oc_evicted = [], oc_stage = None\<rparr>"

definition compacted_outcome :: "'v message list \<Rightarrow> u64 \<Rightarrow> u64 \<Rightarrow> 'v compaction_outcome" where
  "compacted_outcome ms tokens_before tokens_after =
     \<lparr>oc_messages = ms, oc_tokens_after = tokens_after, oc_tokens_saved = sat_sub tokens_before tokens_after,
      oc_success = True, oc_error = None, oc_evicted = [], oc_stage = None\<rparr>"

definition failed_outcome :: "'v message list \<Rightarrow> u64 \<Rightarrow> string \<Rightarrow> 'v compaction_outcome" where
  "failed_outcome ms tokens_after e =
     \<lparr>oc_messages = ms, oc_tokens_after = tokens_after, oc_tokens_saved = 0, oc_success = False,
      oc_error = Some e, oc_evicted = [], oc_stage = None\<rparr>"

definition with_evicted :: "'v message list \<Rightarrow> 'v compaction_outcome \<Rightarrow> 'v compaction_outcome" where
  "with_evicted evicted oc = oc\<lparr>oc_evicted := evicted\<rparr>"

definition with_stage :: "string \<Rightarrow> 'v compaction_outcome \<Rightarrow> 'v compaction_outcome" where
  "with_stage stage oc = oc\<lparr>oc_stage := Some stage\<rparr>"

record context_overflow =
  ov_tokens_used :: u64
  ov_context_window :: u64
  ov_message_count :: nat
  ov_trigger :: compact_reason
  ov_compactor_error :: "string option"

definition overflow :: "context_overflow \<Rightarrow> u64" where
  "overflow ov = sat_sub (ov_tokens_used ov) (ov_context_window ov)"

definition show_overflow :: "context_overflow \<Rightarrow> string" where
  "show_overflow ov =
     ''context overflow: '' @ show_nat (unat (ov_tokens_used ov)) @ '' tokens used of '' @
     show_nat (unat (ov_context_window ov)) @ '' window ('' @ show_nat (ov_message_count ov) @ '' messages, '' @
     show_nat (unat (overflow ov)) @ '' overflow)''"

datatype 'v ensure_context_result = Compacted "'v compaction_outcome" | NoAction "'v message list"

fun into_messages :: "'v ensure_context_result \<Rightarrow> 'v message list" where
  "into_messages (Compacted oc) = oc_messages oc"
| "into_messages (NoAction ms) = ms"

text \<open>The pinned messages ride at the head of a compacted history, after a leading system message.\<close>

definition pin_position :: "'v message list \<Rightarrow> nat" where
  "pin_position out = (case out of [] \<Rightarrow> 0 | first # _ \<Rightarrow> if msg_role first = System then 1 else 0)"

definition prepend_pinned :: "'v message list \<Rightarrow> 'v message list \<Rightarrow> 'v message list" where
  "prepend_pinned out pinned =
     (if pinned = [] then out
      else (let at = pin_position out in take at out @ pinned @ drop at out))"

end
