(* ===== verification/Machine.thy ===== *)
theory Machine
  imports Compact_Types
begin

section \<open>The sans-IO loop machine\<close>

text \<open>
  src/src/engine/core/machine.rs: \<open>LoopMachine\<close> with every operation that changes it, the
  translation of its outcomes to errors (outcome.rs), and the tool call of lifecycle.rs. The
  state is the record \<open>loop_machine\<close>; an operation takes the state and returns it updated,
  paired with the value the Rust method returns. Committed history and pending buffer are lists
  of messages, counters are words at the width of the source. A vector length or index is a
  \<open>nat\<close>: it cannot reach the width of \<open>usize\<close>.
\<close>

subsection \<open>Data\<close>

datatype stop_reason = EndTurn | StopToolCall | MaxTokens | StopSequence

record 'v tool_call =
  tc_id :: string
  tc_tool :: string
  tc_input :: 'v

record 'v pending_tool_call =
  ptc_call :: "'v tool_call"
  preresolved_result :: "'v message option"

datatype machine_outcome =
    Completed string
  | MaxTurnsExceeded
  | Cancelled
  | Failed loop_error

datatype machine_state =
    Start
  | AwaitingModel usize
  | AwaitingTools usize
  | AwaitingCompaction compact_reason
  | Terminal machine_outcome

datatype 'v machine_step =
    CallLLM usize
  | CallTools usize "'v pending_tool_call list"
  | CompactStep compact_reason
  | Done machine_outcome

record 'v model_response =
  mr_message :: "'v message"
  mr_input_tokens :: u64
  mr_output_tokens :: u64
  mr_stop_reason :: stop_reason
  available_tools :: "string list"

record machine_policy =
  max_turns :: usize
  context_window :: u64
  compact_threshold :: u8
  auto_compact :: bool

record 'v loop_machine =
  history :: "'v message list"
  pending :: "'v message list"
  mstate :: machine_state
  turns_taken :: usize
  context_tokens :: u64
  cancelled :: bool
  pending_tools :: "'v pending_tool_call list"
  deferred_compaction :: bool

subsection \<open>Construction and the start of a run\<close>

definition from_history :: "'v message list \<Rightarrow> 'v loop_machine" where
  "from_history h =
     \<lparr>history = h, pending = [], mstate = Start, turns_taken = 0, context_tokens = 0,
      cancelled = False, pending_tools = [], deferred_compaction = False\<rparr>"

definition accept_input :: "string \<Rightarrow> 'v loop_machine \<Rightarrow> 'v loop_machine" where
  "accept_input input m =
     m\<lparr>pending := [user_message input], mstate := Start, turns_taken := 0, context_tokens := 0,
       cancelled := False, pending_tools := [], deferred_compaction := False\<rparr>"

text \<open>
  \<open>debug\<close> is the build's \<open>debug_assertions\<close>: with them, a machine that did not complete
  cleanly makes the \<open>debug_assert!\<close> panic, which is \<open>None\<close>.
\<close>

definition accept_followup :: "bool \<Rightarrow> string \<Rightarrow> 'v loop_machine \<Rightarrow> 'v loop_machine option" where
  "accept_followup debug prompt m =
     (if debug \<and> \<not> (case mstate m of Terminal (Completed _) \<Rightarrow> True | _ \<Rightarrow> False) then None
      else Some (m\<lparr>pending := pending m @ [user_message prompt], mstate := Start\<rparr>))"

definition is_terminal :: "'v loop_machine \<Rightarrow> bool" where
  "is_terminal m = (case mstate m of Terminal _ \<Rightarrow> True | _ \<Rightarrow> False)"

definition set_context_tokens :: "u64 \<Rightarrow> 'v loop_machine \<Rightarrow> 'v loop_machine" where
  "set_context_tokens tokens m = (if is_terminal m then m else m\<lparr>context_tokens := tokens\<rparr>)"

subsection \<open>The next step\<close>

definition should_compact :: "machine_policy \<Rightarrow> 'v loop_machine \<Rightarrow> bool" where
  "should_compact p m =
     (if context_window p = 0 \<or> compact_threshold p = 0 then False
      else context_tokens m > sat_mul (context_window p) (ucast (compact_threshold p)) div 100)"

definition is_emergency :: "machine_policy \<Rightarrow> 'v loop_machine \<Rightarrow> bool" where
  "is_emergency p m =
     (if context_window p = 0 then False
      else context_tokens m \<ge> sat_mul (context_window p) 95 div 100)"

definition request_model ::
  "usize \<Rightarrow> machine_policy \<Rightarrow> 'v loop_machine \<Rightarrow> 'v machine_step \<times> 'v loop_machine" where
  "request_model turn p m =
     (if turns_taken m \<ge> max_turns p
      then (Done MaxTurnsExceeded, m\<lparr>mstate := Terminal MaxTurnsExceeded\<rparr>)
      else if is_emergency p m
      then (CompactStep Emergency, m\<lparr>mstate := AwaitingCompaction Emergency\<rparr>)
      else if auto_compact p \<and> \<not> deferred_compaction m \<and> should_compact p m
      then (CompactStep ThresholdExceeded, m\<lparr>mstate := AwaitingCompaction ThresholdExceeded\<rparr>)
      else (CallLLM turn, m\<lparr>mstate := AwaitingModel turn\<rparr>))"

definition next_step ::
  "machine_policy \<Rightarrow> 'v loop_machine \<Rightarrow> 'v machine_step \<times> 'v loop_machine" where
  "next_step p m =
     (case mstate m of
        Terminal outcome \<Rightarrow> (Done outcome, m)
      | st \<Rightarrow>
          if cancelled m then (Done Cancelled, m\<lparr>mstate := Terminal Cancelled\<rparr>)
          else
            (let turn = (case st of AwaitingModel t \<Rightarrow> t | _ \<Rightarrow> turns_taken m) in
             case st of
               Start \<Rightarrow> request_model turn p m
             | AwaitingModel _ \<Rightarrow> request_model turn p m
             | AwaitingTools t \<Rightarrow> (CallTools t (pending_tools m), m)
             | AwaitingCompaction r \<Rightarrow> (CompactStep r, m)
             | Terminal outcome \<Rightarrow> (Done outcome, m)))"

subsection \<open>Feeding results back\<close>

definition unknown_tool_result :: "'v tool_call \<Rightarrow> 'v message" where
  "unknown_tool_result call =
     new_message User
       [tool_result (tc_id call) (tc_tool call)
          (TCText (''tool '' @ quoted (tc_tool call) @ '' is not available'')) True]"

definition classify :: "'v tool_call \<Rightarrow> string list \<Rightarrow> 'v pending_tool_call" where
  "classify call available =
     (if \<exists>name \<in> set available. name = tc_tool call
      then \<lparr>ptc_call = call, preresolved_result = None\<rparr>
      else \<lparr>ptc_call = call, preresolved_result = Some (unknown_tool_result call)\<rparr>)"

definition model_response ::
  "'v model_response \<Rightarrow> u64 \<Rightarrow> 'v loop_machine \<Rightarrow> 'v loop_machine" where
  "model_response response tokens m =
     (if is_terminal m then m
      else
        (let msg = mr_message response;
             tool_calls = map (\<lambda>(i, t, v). \<lparr>tc_id = i, tc_tool = t, tc_input = v\<rparr>)
                            (tool_call_parts msg);
             turn_number = turns_taken m;
             m1 = m\<lparr>deferred_compaction := False, pending := pending m @ [msg],
                    context_tokens := tokens, turns_taken := sat_add (turns_taken m) 1\<rparr>
         in if tool_calls = []
            then m1\<lparr>mstate := Terminal (Completed (text_content (last (pending m1))))\<rparr>
            else m1\<lparr>pending_tools := map (\<lambda>c. classify c (available_tools response)) tool_calls,
                    mstate := AwaitingTools turn_number\<rparr>))"

definition adopt_pruned :: "'v message list \<Rightarrow> nat \<Rightarrow> 'v loop_machine \<Rightarrow> 'v loop_machine" where
  "adopt_pruned messages history_len m =
     (if is_terminal m then m
      else
        (let split = min history_len (length messages) in
         m\<lparr>history := take split messages, pending := drop split messages\<rparr>))"

definition tool_results :: "'v message list \<Rightarrow> 'v loop_machine \<Rightarrow> 'v loop_machine" where
  "tool_results messages m =
     (if is_terminal m then m
      else m\<lparr>pending := pending m @ messages, pending_tools := [], mstate := Start\<rparr>)"

definition inject :: "'v message \<Rightarrow> 'v loop_machine \<Rightarrow> 'v loop_machine" where
  "inject message m =
     (if is_terminal m then m else m\<lparr>pending := pending m @ [message]\<rparr>)"

definition terminate_on_no_progress ::
  "u64 \<Rightarrow> u64 \<Rightarrow> 'v loop_machine \<Rightarrow> bool \<times> 'v loop_machine" where
  "terminate_on_no_progress before after m =
     (if after < before then (False, m)
      else (True, m\<lparr>mstate := Terminal (Failed (CompactionStalled after))\<rparr>))"

definition compaction_result ::
  "'v message list \<Rightarrow> u64 \<Rightarrow> u64 \<Rightarrow> 'v loop_machine \<Rightarrow> bool \<times> 'v loop_machine" where
  "compaction_result compacted before after m =
     (if is_terminal m then (False, m)
      else
        (case terminate_on_no_progress before after m of
           (True, m1) \<Rightarrow> (False, m1)
         | (False, m1) \<Rightarrow>
             (True, m1\<lparr>history := coalesce_adjacent_assistants compacted, pending := [],
                       context_tokens := after, mstate := Start\<rparr>)))"

definition compaction_noop :: "u64 \<Rightarrow> u64 \<Rightarrow> 'v loop_machine \<Rightarrow> bool \<times> 'v loop_machine" where
  "compaction_noop before after m =
     (if is_terminal m then (False, m)
      else
        (case terminate_on_no_progress before after m of
           (True, m1) \<Rightarrow> (False, m1)
         | (False, m1) \<Rightarrow> (True, m1\<lparr>context_tokens := after, mstate := Start\<rparr>)))"

definition compaction_deferred :: "u64 \<Rightarrow> 'v loop_machine \<Rightarrow> 'v loop_machine" where
  "compaction_deferred after m =
     (if is_terminal m then m
      else m\<lparr>context_tokens := after, deferred_compaction := True, mstate := Start\<rparr>)"

definition cancel :: "'v loop_machine \<Rightarrow> 'v loop_machine" where
  "cancel m = m\<lparr>cancelled := True\<rparr>"

definition fail :: "loop_error \<Rightarrow> 'v loop_machine \<Rightarrow> 'v loop_machine" where
  "fail err m = (if is_terminal m then m else m\<lparr>mstate := Terminal (Failed err)\<rparr>)"

subsection \<open>The two buffers\<close>

definition full_history :: "'v loop_machine \<Rightarrow> 'v message list" where
  "full_history m = history m @ pending m"

definition commit_pending :: "'v loop_machine \<Rightarrow> 'v loop_machine" where
  "commit_pending m = m\<lparr>history := history m @ pending m, pending := []\<rparr>"

definition discard_pending :: "'v loop_machine \<Rightarrow> 'v loop_machine" where
  "discard_pending m = m\<lparr>pending := []\<rparr>"

text \<open>
  The scan keeps the ids of the calls still open. \<open>cut_loop\<close> is the loop over the messages
  with its index and its boundary; \<open>take\<close> of the iterator is \<open>take\<close> of the list.
\<close>

fun scan_part :: "string set \<Rightarrow> 'v message_part \<Rightarrow> string set" where
  "scan_part open_ids (ToolCallPart i _ _) = insert i open_ids"
| "scan_part open_ids (ToolResultPart i _ _ _ _) = open_ids - {i}"
| "scan_part open_ids _ = open_ids"

fun cut_loop :: "string set \<Rightarrow> nat \<Rightarrow> nat \<Rightarrow> 'v message list \<Rightarrow> nat" where
  "cut_loop open_ids idx boundary [] = boundary"
| "cut_loop open_ids idx boundary (msg # rest) =
     (let open' = foldl scan_part open_ids (msg_parts msg) in
      cut_loop open' (idx + 1) (if open' = {} then idx + 1 else boundary) rest)"

definition coherent_cut :: "'v message list \<Rightarrow> nat \<Rightarrow> nat" where
  "coherent_cut messages limit = cut_loop {} 0 0 (take limit messages)"

definition last_coherent_len :: "'v message list \<Rightarrow> nat" where
  "last_coherent_len messages = coherent_cut messages (length messages)"

definition salvage_pending :: "'v loop_machine \<Rightarrow> 'v message list \<times> 'v loop_machine" where
  "salvage_pending m =
     (let keep = last_coherent_len (pending m) in
      (drop keep (pending m),
       m\<lparr>history := history m @ take keep (pending m), pending := []\<rparr>))"

subsection \<open>Operations of a host between runs\<close>

fun show_reason :: "compact_reason \<Rightarrow> string" where
  "show_reason PruneReason = ''Prune''"
| "show_reason ThresholdExceeded = ''ThresholdExceeded''"
| "show_reason Emergency = ''Emergency''"
| "show_reason Manual = ''Manual''"

text \<open>The \<open>Debug\<close> form of the states the two refusals below print.\<close>

fun show_in_flight :: "machine_state \<Rightarrow> string" where
  "show_in_flight (AwaitingModel t) = ''AwaitingModel { turn: '' @ show_nat (unat t) @ '' }''"
| "show_in_flight (AwaitingTools t) = ''AwaitingTools { turn: '' @ show_nat (unat t) @ '' }''"
| "show_in_flight (AwaitingCompaction r) = ''AwaitingCompaction { reason: '' @ show_reason r @ '' }''"
| "show_in_flight _ = ''''"

definition at_rest :: "machine_state \<Rightarrow> bool" where
  "at_rest st = (case st of Start \<Rightarrow> True | Terminal _ \<Rightarrow> True | _ \<Rightarrow> False)"

definition rewind_to :: "nat \<Rightarrow> 'v loop_machine \<Rightarrow> (nat \<times> 'v loop_machine) result" where
  "rewind_to len m =
     (if \<not> at_rest (mstate m)
      then Inl (InvalidInput (''cannot rewind committed history while a turn is in flight (state: '' @
             show_in_flight (mstate m) @ ''); cancel the run and let it resolve first''))
      else
        (let limit = min len (length (history m));
             cut = coherent_cut (history m) limit;
             removed = length (history m) - cut
         in if removed = 0 then Inr (0, m)
            else Inr (removed, m\<lparr>history := take cut (history m), deferred_compaction := False\<rparr>)))"

definition guard_manual_compaction :: "'v loop_machine \<Rightarrow> unit result" where
  "guard_manual_compaction m =
     (if at_rest (mstate m)
      then
        (if pending m \<noteq> []
         then Inl (InvalidInput (''cannot compact committed history while '' @
                show_nat (length (pending m)) @
                '' staged message(s) wait to run; run the staged turn first (it compacts on its own if the feed needs it) and compact after it''))
         else Inr ())
      else Inl (InvalidInput (''cannot compact committed history while a turn is in flight (state: '' @
             show_in_flight (mstate m) @ ''); cancel the run and let it resolve first'')))"

definition install_manual_compaction ::
  "'v message list \<Rightarrow> nat \<Rightarrow> u64 \<Rightarrow> 'v loop_machine \<Rightarrow> 'v loop_machine result" where
  "install_manual_compaction messages history_len tokens m =
     bind_result (guard_manual_compaction m)
       (\<lambda>_. let split = min history_len (length messages) in
            Inr (m\<lparr>history := coalesce_adjacent_assistants (take split messages),
                   pending := drop split messages, context_tokens := tokens,
                   deferred_compaction := False\<rparr>))"

subsection \<open>Outcomes as errors\<close>

fun to_loop_error :: "usize \<Rightarrow> machine_outcome \<Rightarrow> loop_error option" where
  "to_loop_error n (Completed _) = None"
| "to_loop_error n MaxTurnsExceeded = Some (ErrMaxTurnsExceeded n)"
| "to_loop_error n Cancelled = Some ErrCancelled"
| "to_loop_error n (Failed e) = Some e"

section \<open>Coherent prefixes\<close>

text \<open>
  The specification of the two history cuts: the greatest prefix length, up to the limit, whose
  messages leave no call unanswered. The scan computes it; \<open>open_after\<close> is what its set
  of open ids means.
\<close>

fun open_after :: "'v message_part list \<Rightarrow> string set" where
  "open_after [] = {}"
| "open_after (p # ps) =
     (case call_id_of p of
        None \<Rightarrow> {}
      | Some i \<Rightarrow> if \<exists>q \<in> set ps. result_id_of q = Some i then {} else {i}) \<union> open_after ps"

definition greatest_cut :: "'v message list \<Rightarrow> nat \<Rightarrow> bool" where
  "greatest_cut ms b \<longleftrightarrow>
     b \<le> length ms \<and> coherent (take b ms) \<and>
     (\<forall>k \<le> length ms. coherent (take k ms) \<longrightarrow> k \<le> b)"

lemma open_after_answered: "open_after ps = {} \<longleftrightarrow> answered ps"
  by (induction ps) (auto split: option.splits)

lemma foldl_scan_part:
  "foldl scan_part S ps = {i \<in> S. \<forall>q \<in> set ps. result_id_of q \<noteq> Some i} \<union> open_after ps"
proof (induction ps arbitrary: S)
  case (Cons p ps)
  then show ?case by (cases p) auto
qed simp

lemma open_after_append:
  "open_after (ps @ qs) = {i \<in> open_after ps. \<forall>q \<in> set qs. result_id_of q \<noteq> Some i} \<union> open_after qs"
proof -
  have "open_after (ps @ qs) = foldl scan_part {} (ps @ qs)" by (simp only: foldl_scan_part) simp
  also have "\<dots> = foldl scan_part (foldl scan_part {} ps) qs" by simp
  also have "\<dots> = foldl scan_part (open_after ps) qs"
    by (simp only: foldl_scan_part [of "{}" ps]) simp
  finally show ?thesis by (simp only: foldl_scan_part)
qed

lemma greatest_cut_snoc:
  assumes "greatest_cut pre b"
  shows "greatest_cut (pre @ [msg]) (if coherent (pre @ [msg]) then length pre + 1 else b)"
proof (cases "coherent (pre @ [msg])")
  case True
  then show ?thesis by (simp add: greatest_cut_def)
next
  case False
  have "k \<le> b" if "k \<le> length pre + 1" and "coherent (take k (pre @ [msg]))" for k
  proof -
    from that False have "k \<noteq> length pre + 1" by auto
    with that have "k \<le> length pre" by simp
    with that(2) assms show ?thesis by (simp add: greatest_cut_def)
  qed
  with False assms show ?thesis by (auto simp: greatest_cut_def)
qed

lemma cut_loop_greatest:
  "greatest_cut pre b \<Longrightarrow>
   greatest_cut (pre @ ms) (cut_loop (open_after (all_parts pre)) (length pre) b ms)"
proof (induction ms arbitrary: pre b)
  case (Cons msg ms)
  have scan: "foldl scan_part (open_after (all_parts pre)) (msg_parts msg)
      = open_after (all_parts (pre @ [msg]))"
    by (simp add: foldl_scan_part open_after_append)
  have empty: "open_after (all_parts (pre @ [msg])) = {} \<longleftrightarrow> coherent (pre @ [msg])"
    by (simp only: open_after_answered coherent_def)
  from Cons.IH [OF greatest_cut_snoc [OF Cons.prems, of msg]]
  show ?case by (simp only: cut_loop.simps scan Let_def empty length_append list.size append_assoc) simp
qed simp

lemma coherent_cut_greatest: "greatest_cut (take limit ms) (coherent_cut ms limit)"
  using cut_loop_greatest [of "[]" 0 "take limit ms"]
  by (simp add: coherent_cut_def greatest_cut_def del: take_take)

lemma coherent_cut_le: "coherent_cut ms limit \<le> min limit (length ms)"
  using coherent_cut_greatest [of limit ms] by (simp add: greatest_cut_def min.commute)

lemma coherent_cut_coherent: "coherent (take (coherent_cut ms limit) ms)"
proof -
  have "coherent (take (coherent_cut ms limit) (take limit ms))"
    using coherent_cut_greatest [of limit ms] by (simp add: greatest_cut_def del: take_take)
  moreover have "take (coherent_cut ms limit) (take limit ms) = take (coherent_cut ms limit) ms"
    using coherent_cut_le [of ms limit] by (simp add: min_absorb1)
  ultimately show ?thesis by simp
qed

lemma coherent_cut_max:
  assumes "k \<le> min limit (length ms)" and "coherent (take k ms)"
  shows "k \<le> coherent_cut ms limit"
proof -
  have "take k (take limit ms) = take k ms" using assms(1) by (simp add: min_absorb1)
  with assms coherent_cut_greatest [of limit ms] show ?thesis
    by (simp add: greatest_cut_def del: take_take)
qed

lemma coherent_cut_all: "coherent ms \<Longrightarrow> coherent_cut ms (length ms) = length ms"
  using coherent_cut_max [of "length ms" "length ms" ms] coherent_cut_le [of ms "length ms"] by simp

section \<open>Polling and feeding\<close>

text \<open>
  What a driver relies on: polling twice gives the same step, a finished machine stays as it
  is whatever is fed to it, and the step says whether the machine is finished. The locale
  states these laws of a pollable machine; the interpretation discharges them for
  \<open>next_step\<close> and the feed methods.
\<close>

locale pollable =
  fixes poll :: "'m \<Rightarrow> 'step \<times> 'm"
    and finished :: "'m \<Rightarrow> bool"
    and final_step :: "'step \<Rightarrow> bool"
    and feed :: "'e \<Rightarrow> 'm \<Rightarrow> 'm"
  assumes poll_twice: "poll (snd (poll m)) = poll m"
    and poll_final: "final_step (fst (poll m)) \<longleftrightarrow> finished (snd (poll m))"
    and feed_finished: "finished m \<Longrightarrow> finished (feed e m)"
    and feed_step: "finished m \<Longrightarrow> fst (poll (feed e m)) = fst (poll m)"
    and poll_finished: "finished m \<Longrightarrow> snd (poll m) = m"
begin

lemma polls: "poll (((\<lambda>m. snd (poll m)) ^^ n) m) = poll m"
  by (induction n) (simp_all add: poll_twice)

lemma feeds_finished: "finished m \<Longrightarrow> finished (fold feed es m)"
  by (induction es arbitrary: m) (simp_all add: feed_finished)

lemma feeds_step: "finished m \<Longrightarrow> fst (poll (fold feed es m)) = fst (poll m)"
  by (induction es arbitrary: m) (simp_all add: feed_finished feed_step)

lemma poll_final_stays: "final_step (fst (poll m)) \<Longrightarrow> fst (poll (fold feed es (snd (poll m)))) = fst (poll m)"
  by (simp add: poll_final feeds_step poll_twice)

end

datatype 'v feed =
    FeedTokens u64
  | FeedModel "'v model_response" u64
  | FeedTools "'v message list"
  | FeedInject "'v message"
  | FeedPruned "'v message list" nat
  | FeedCompacted "'v message list" u64 u64
  | FeedNoop u64 u64
  | FeedDeferred u64
  | FeedCancel
  | FeedFail loop_error

fun apply_feed :: "'v feed \<Rightarrow> 'v loop_machine \<Rightarrow> 'v loop_machine" where
  "apply_feed (FeedTokens n) m = set_context_tokens n m"
| "apply_feed (FeedModel r n) m = model_response r n m"
| "apply_feed (FeedTools ms) m = tool_results ms m"
| "apply_feed (FeedInject msg) m = inject msg m"
| "apply_feed (FeedPruned ms k) m = adopt_pruned ms k m"
| "apply_feed (FeedCompacted ms b a) m = snd (compaction_result ms b a m)"
| "apply_feed (FeedNoop b a) m = snd (compaction_noop b a m)"
| "apply_feed (FeedDeferred a) m = compaction_deferred a m"
| "apply_feed FeedCancel m = cancel m"
| "apply_feed (FeedFail e) m = fail e m"

fun final_step :: "'v machine_step \<Rightarrow> bool" where
  "final_step (Done _) = True"
| "final_step _ = False"

lemma is_terminal_iff: "is_terminal m \<longleftrightarrow> (\<exists>d. mstate m = Terminal d)"
  by (auto simp: is_terminal_def split: machine_state.splits)

lemma is_terminal_simps [step_simps]:
  "mstate m = Terminal d \<Longrightarrow> is_terminal m"
  "mstate m = Start \<Longrightarrow> \<not> is_terminal m"
  "mstate m = AwaitingModel t \<Longrightarrow> \<not> is_terminal m"
  "mstate m = AwaitingTools t \<Longrightarrow> \<not> is_terminal m"
  "mstate m = AwaitingCompaction r \<Longrightarrow> \<not> is_terminal m"
  by (simp_all add: is_terminal_def)

lemma next_step_simps [step_simps]:
  "mstate m = Terminal d \<Longrightarrow> next_step p m = (Done d, m)"
  "\<not> is_terminal m \<Longrightarrow> cancelled m \<Longrightarrow>
     next_step p m = (Done Cancelled, m\<lparr>mstate := Terminal Cancelled\<rparr>)"
  "mstate m = Start \<Longrightarrow> \<not> cancelled m \<Longrightarrow> next_step p m = request_model (turns_taken m) p m"
  "mstate m = AwaitingModel t \<Longrightarrow> \<not> cancelled m \<Longrightarrow> next_step p m = request_model t p m"
  "mstate m = AwaitingTools t \<Longrightarrow> \<not> cancelled m \<Longrightarrow> next_step p m = (CallTools t (pending_tools m), m)"
  "mstate m = AwaitingCompaction r \<Longrightarrow> \<not> cancelled m \<Longrightarrow> next_step p m = (CompactStep r, m)"
  by (auto simp: next_step_def is_terminal_def split: machine_state.splits)

lemma trigger_simps [simp]:
  "should_compact p (m\<lparr>mstate := s\<rparr>) = should_compact p m"
  "is_emergency p (m\<lparr>mstate := s\<rparr>) = is_emergency p m"
  by (simp_all add: should_compact_def is_emergency_def)

lemma request_model_twice:
  "cancelled m = False \<Longrightarrow> next_step p (snd (request_model t p m)) = request_model t p m"
  by (simp add: request_model_def step_simps)

lemma next_step_twice: "next_step p (snd (next_step p m)) = next_step p m"
proof (cases "is_terminal m \<or> cancelled m")
  case True
  then show ?thesis by (cases "is_terminal m") (auto simp: is_terminal_iff step_simps)
next
  case False
  then show ?thesis
    by (cases "mstate m") (simp_all add: step_simps request_model_twice is_terminal_iff)
qed

lemma next_step_final: "final_step (fst (next_step p m)) \<longleftrightarrow> is_terminal (snd (next_step p m))"
  by (cases "mstate m"; cases "cancelled m")
     (simp_all add: request_model_def is_terminal_def next_step_def Let_def)

lemma feed_terminal:
  assumes "is_terminal m"
  shows "apply_feed e m = m\<lparr>cancelled := cancelled m \<or> e = FeedCancel\<rparr>"
  using assms
  by (cases e) (simp_all add: set_context_tokens_def model_response_def tool_results_def inject_def
      adopt_pruned_def compaction_result_def compaction_noop_def compaction_deferred_def cancel_def
      fail_def)

lemma feeds_terminal:
  "is_terminal m \<Longrightarrow>
   fold apply_feed es m = m\<lparr>cancelled := cancelled m \<or> FeedCancel \<in> set es\<rparr>"
proof (induction es arbitrary: m)
  case (Cons e es)
  then have "is_terminal (m\<lparr>cancelled := cancelled m \<or> e = FeedCancel\<rparr>)"
    by (simp add: is_terminal_def)
  with Cons show ?case by (simp add: feed_terminal eq_commute [of FeedCancel])
qed simp

interpretation machine: pollable "next_step p" is_terminal final_step apply_feed
proof
  show "next_step p (snd (next_step p m)) = next_step p m" for m :: "'a loop_machine"
    by (rule next_step_twice)
  show "final_step (fst (next_step p m)) \<longleftrightarrow> is_terminal (snd (next_step p m))" for m :: "'a loop_machine"
    by (rule next_step_final)
qed (auto simp: feed_terminal is_terminal_iff step_simps)

section \<open>Runs\<close>

text \<open>
  A run as a driver performs it: from the state \<open>accept_input\<close> leaves, polls and feeds, each
  feed only in the state that awaits it, and follow-ups, which reopen a run that completed.
  \<open>run_from\<close> is the reachability of that protocol; its number counts the model responses the run
  has been fed. \<open>run_inv\<close> is the invariant every state of a run satisfies.
\<close>

inductive protocol :: "machine_policy \<Rightarrow> 'v loop_machine \<Rightarrow> 'v loop_machine \<Rightarrow> bool"
  for p :: machine_policy where
  prot_poll: "protocol p m (snd (next_step p m))"
| prot_tools: "mstate m = AwaitingTools t \<Longrightarrow> protocol p m (tool_results ms m)"
| prot_compacted: "mstate m = AwaitingCompaction c \<Longrightarrow> protocol p m (snd (compaction_result ms b a m))"
| prot_noop: "mstate m = AwaitingCompaction c \<Longrightarrow> protocol p m (snd (compaction_noop b a m))"
| prot_deferred: "mstate m = AwaitingCompaction c \<Longrightarrow> protocol p m (compaction_deferred a m)"
| prot_tokens: "protocol p m (set_context_tokens n m)"
| prot_inject: "protocol p m (inject msg m)"
| prot_pruned: "protocol p m (adopt_pruned ms k m)"
| prot_cancel: "protocol p m (cancel m)"
| prot_fail: "protocol p m (fail e m)"

inductive run_from :: "machine_policy \<Rightarrow> string \<Rightarrow> 'v loop_machine \<Rightarrow> nat \<Rightarrow> 'v loop_machine \<Rightarrow> bool"
  for p :: machine_policy and input :: string and m0 :: "'v loop_machine" where
  run_begin: "run_from p input m0 0 (accept_input input m0)"
| run_move: "run_from p input m0 n m \<Longrightarrow> protocol p m m' \<Longrightarrow> run_from p input m0 n m'"
| run_model: "run_from p input m0 n m \<Longrightarrow> mstate m = AwaitingModel t \<Longrightarrow>
    run_from p input m0 (Suc n) (model_response r k m)"
| run_followup: "run_from p input m0 n m \<Longrightarrow> mstate m = Terminal (Completed s) \<Longrightarrow>
    accept_followup debug prompt m = Some m' \<Longrightarrow> run_from p input m0 n m'"

definition run_inv :: "machine_policy \<Rightarrow> 'v loop_machine \<Rightarrow> bool" where
  "run_inv p m \<longleftrightarrow>
     turns_taken m \<le> max_turns p \<and>
     (case mstate m of
        Start \<Rightarrow> pending_tools m = []
      | AwaitingModel t \<Rightarrow> t = turns_taken m \<and> turns_taken m < max_turns p \<and> pending_tools m = []
      | AwaitingTools t \<Rightarrow> sat_add t 1 = turns_taken m \<and> t < turns_taken m \<and> pending_tools m \<noteq> []
      | AwaitingCompaction c \<Rightarrow> turns_taken m < max_turns p \<and> pending_tools m = []
      | Terminal (Completed s) \<Rightarrow> pending_tools m = []
      | Terminal _ \<Rightarrow> True)"

lemma poll_turns: "turns_taken (snd (next_step p m)) = turns_taken m"
  by (cases "mstate m") (simp_all add: next_step_def request_model_def Let_def)

lemma run_inv_start [inv_intros]: "run_inv p (accept_input input m)"
  by (simp add: run_inv_def accept_input_def)

lemma less_sat_add_one: "(a :: 'a::len word) < b \<Longrightarrow> a < sat_add a 1 \<and> sat_add a 1 \<le> b"
  by (simp add: word_less_nat_alt word_le_nat_alt sat_add_one)

lemma run_inv_request:
  assumes "turns_taken m \<le> max_turns p" and "t = turns_taken m" and "pending_tools m = []"
  shows "run_inv p (snd (request_model t p m))"
  using assms by (auto simp: run_inv_def request_model_def)

lemma run_inv_poll [inv_intros]:
  assumes "run_inv p m"
  shows "run_inv p (snd (next_step p m))"
proof (cases "is_terminal m \<or> cancelled m")
  case True
  with assms show ?thesis
    by (cases "is_terminal m") (auto simp: is_terminal_iff step_simps run_inv_def split: machine_outcome.splits)
next
  case False
  with assms show ?thesis
    by (cases "mstate m") (auto simp: step_simps run_inv_def [of p m] is_terminal_iff
        intro!: run_inv_request)
qed

lemma run_inv_model [inv_intros]:
  assumes "run_inv p m" and "mstate m = AwaitingModel t"
  shows "run_inv p (model_response r n m)"
  using assms less_sat_add_one [of "turns_taken m" "max_turns p"]
  by (auto simp: run_inv_def model_response_def step_simps Let_def)

lemma run_inv_others [inv_intros]:
  assumes "run_inv p m"
  shows "mstate m = AwaitingTools t \<Longrightarrow> run_inv p (tool_results ms m)"
    and "mstate m = AwaitingCompaction c \<Longrightarrow> run_inv p (snd (compaction_result ms b a m))"
    and "mstate m = AwaitingCompaction c \<Longrightarrow> run_inv p (snd (compaction_noop b a m))"
    and "mstate m = AwaitingCompaction c \<Longrightarrow> run_inv p (compaction_deferred a m)"
    and "run_inv p (set_context_tokens n m)" and "run_inv p (inject msg m)"
    and "run_inv p (adopt_pruned ms k m)" and "run_inv p (cancel m)" and "run_inv p (fail e m)"
  using assms
  by (auto simp: run_inv_def tool_results_def compaction_result_def compaction_noop_def
      compaction_deferred_def set_context_tokens_def inject_def adopt_pruned_def cancel_def fail_def
      terminate_on_no_progress_def step_simps Let_def split: machine_state.splits machine_outcome.splits)

lemma run_inv_protocol: "protocol p m m' \<Longrightarrow> run_inv p m \<Longrightarrow> run_inv p m'"
  by (induction rule: protocol.induct) (auto intro: inv_intros)

lemma run_inv_followup [inv_intros]:
  "run_inv p m \<Longrightarrow> mstate m = Terminal (Completed s) \<Longrightarrow> accept_followup debug prompt m = Some m' \<Longrightarrow> run_inv p m'"
  by (auto simp: run_inv_def accept_followup_def split: if_splits)

lemma run_from_inv: "run_from p input m0 n m \<Longrightarrow> run_inv p m"
  by (induction rule: run_from.induct) (auto intro: inv_intros run_inv_protocol)

text \<open>Only a response takes a turn.\<close>

lemma protocol_turns: "protocol p m m' \<Longrightarrow> turns_taken m' = turns_taken m"
  by (induction rule: protocol.induct)
    (simp_all add: poll_turns tool_results_def compaction_result_def compaction_noop_def compaction_deferred_def
      set_context_tokens_def inject_def adopt_pruned_def cancel_def fail_def terminate_on_no_progress_def Let_def)

lemma run_from_turns: "run_from p input m0 n m \<Longrightarrow> unat (turns_taken m) = n"
proof (induction rule: run_from.induct)
  case (run_model n m t r k)
  have "turns_taken m < max_turns p" using run_from_inv [OF run_model(1)] run_model(2) by (simp add: run_inv_def)
  with run_model show ?case
    by (simp add: model_response_def step_simps Let_def sat_add_one)
qed (auto simp: accept_input_def protocol_turns accept_followup_def split: if_splits)

subsection \<open>One round of the loop\<close>

text \<open>
  What one iteration of a drive loop may do to the machine, when the loop goes on. A model step
  prepares the request, which injects messages, feeds figures, installs a pruned conversation and
  polls again, and then feeds the response or, when the request was put off or refused, nothing. A
  tool step feeds the results and a figure. A compaction step feeds a result, a no-op or a deferral;
  \<open>before\<close> is the size its driver measured ahead of the pass.
\<close>

inductive prepares :: "machine_policy \<Rightarrow> 'v loop_machine \<Rightarrow> 'v loop_machine \<Rightarrow> bool"
  for p :: machine_policy where
  prep_none: "prepares p m m"
| prep_inject: "prepares p m m' \<Longrightarrow> prepares p m (inject msg m')"
| prep_tokens: "prepares p m m' \<Longrightarrow> prepares p m (set_context_tokens n m')"
| prep_pruned: "prepares p m m' \<Longrightarrow> prepares p m (adopt_pruned ms k m')"
| prep_poll: "prepares p m m' \<Longrightarrow> prepares p m (snd (next_step p m'))"

inductive drive_round :: "machine_policy \<Rightarrow> u64 \<Rightarrow> 'v loop_machine \<Rightarrow> 'v loop_machine \<Rightarrow> bool"
  for p :: machine_policy and before :: u64 where
  round_model: "next_step p m = (CallLLM t, m1) \<Longrightarrow> prepares p m1 m2 \<Longrightarrow>
    drive_round p before m (model_response r n m2)"
| round_unserved: "next_step p m = (CallLLM t, m1) \<Longrightarrow> prepares p m1 m2 \<Longrightarrow> drive_round p before m m2"
| round_tools: "next_step p m = (CallTools t cs, m1) \<Longrightarrow>
    drive_round p before m (set_context_tokens n (tool_results ms m1))"
| round_compacted: "next_step p m = (CompactStep c, m1) \<Longrightarrow>
    drive_round p before m (snd (compaction_result ms before a m1))"
| round_noop: "next_step p m = (CompactStep c, m1) \<Longrightarrow>
    drive_round p before m (snd (compaction_noop before a m1))"
| round_deferred: "next_step p m = (CompactStep ThresholdExceeded, m1) \<Longrightarrow>
    drive_round p before m (compaction_deferred a m1)"

text \<open>What the polls that ask for a service tell of the machine.\<close>

fun phase :: "machine_state \<Rightarrow> nat" where
  "phase (AwaitingTools _) = 1"
| "phase _ = 0"

lemma call_llm_poll:
  assumes "next_step p m = (CallLLM t, m')"
  shows "\<not> is_terminal m \<and> mstate m' = AwaitingModel t \<and> turns_taken m < max_turns p \<and>
    turns_taken m' = turns_taken m \<and> pending m' = pending m \<and> history m' = history m"
  using assms by (cases "mstate m"; cases "cancelled m")
    (auto simp: request_model_def is_terminal_iff next_step_def Let_def split: if_splits)

lemma call_tools_poll:
  assumes "next_step p m = (CallTools t cs, m')"
  shows "m' = m \<and> mstate m = AwaitingTools t \<and> cs = pending_tools m \<and> \<not> cancelled m"
  using assms by (cases "mstate m"; cases "cancelled m")
    (auto simp: request_model_def is_terminal_iff next_step_def Let_def split: if_splits)

lemma compact_poll:
  assumes "next_step p m = (CompactStep c, m')"
  shows "m' = m\<lparr>mstate := AwaitingCompaction c\<rparr> \<and> \<not> cancelled m \<and>
    (mstate m = AwaitingCompaction c \<or>
     (phase (mstate m) = 0 \<and> \<not> is_terminal m \<and> turns_taken m < max_turns p \<and>
      (c = ThresholdExceeded \<longrightarrow> \<not> deferred_compaction m)))"
  using assms by (cases m; cases "mstate m"; cases "cancelled m")
    (auto simp: request_model_def is_terminal_iff next_step_def Let_def split: if_splits)

section \<open>Properties of the machine\<close>

lemma greatest_cut_take_min: "greatest_cut (take (min len (length h)) h) = greatest_cut (take len h)"
  by (cases "len \<le> length h") (simp_all add: min_def)

lemma salvage_pending_eq:
  "salvage_pending m =
     (let k = coherent_cut (pending m) (length (pending m)) in
      (drop k (pending m), m\<lparr>history := history m @ take k (pending m), pending := []\<rparr>))"
  by (simp add: salvage_pending_def last_coherent_len_def)

text \<open>
  C2: when an interrupted run is salvaged, the committed history gains exactly the longest prefix
  of the run's messages that leaves no tool call unanswered, the rest of them is what the call
  returns as dropped, the buffer is empty, and a history whose calls were all answered stays so.
\<close>

theorem salvage_commits_longest_coherent_prefix:
  assumes "coherent (history m)"
  shows "coherent (history (snd (salvage_pending m))) \<and>
    (\<exists>k. greatest_cut (pending m) k \<and>
       salvage_pending m =
         (drop k (pending m), m\<lparr>history := history m @ take k (pending m), pending := []\<rparr>))"
  using assms coherent_cut_greatest [of "length (pending m)" "pending m"]
    coherent_append [OF assms coherent_cut_coherent [of "pending m" "length (pending m)"]]
  by (auto simp: salvage_pending_eq Let_def)

definition call_part :: "string \<Rightarrow> nat message_part" where
  "call_part i = ToolCallPart i ''read'' 0"

definition result_part :: "string \<Rightarrow> nat message_part" where
  "result_part i = tool_result i ''read'' (TCText ''ok'') False"

definition sample_turns :: "nat message list" where
  "sample_turns = [user_message ''hi'', new_message Assistant [call_part ''a''],
     new_message User [result_part ''a''], new_message Assistant [call_part ''b'']]"

lemmas sample_defs = sample_turns_def call_part_def result_part_def user_message_def new_message_def
  tool_result_def

lemma sample_coherent: "coherent (take 3 sample_turns)" "\<not> coherent sample_turns"
  by (simp_all add: sample_defs coherent_def)

lemma sample_cut: "coherent_cut sample_turns 4 = 3"
  by (simp add: sample_defs coherent_cut_def)

theorem salvage_commits_longest_coherent_prefix_witness:
  "coherent (history (snd (salvage_pending ((from_history (take 3 sample_turns))\<lparr>pending := sample_turns\<rparr>))))"
  using salvage_commits_longest_coherent_prefix
    [of "(from_history (take 3 sample_turns))\<lparr>pending := sample_turns\<rparr>"]
  by (simp add: from_history_def sample_coherent)

text \<open>
  rewinding the committed history of a machine at rest cuts at the longest coherent prefix
  within the requested length, reports how many messages went, touches nothing but the history
  and the deferral latch, and keeps both directions of the pairing: no call of the remaining
  history is unanswered, and no result of it has lost its call. In flight it refuses.
\<close>

theorem rewind_cuts_at_turn_boundary:
  assumes "solicited (all_parts (history m))"
  shows "case rewind_to len m of
      Inl e \<Rightarrow> \<not> at_rest (mstate m) \<and> (\<exists>s. e = InvalidInput s)
    | Inr (removed, m') \<Rightarrow>
        at_rest (mstate m) \<and>
        (\<exists>k. greatest_cut (take len (history m)) k \<and> history m' = take k (history m)) \<and>
        removed = length (history m) - length (history m') \<and>
        coherent (history m') \<and> solicited (all_parts (history m')) \<and>
        m' = m\<lparr>history := history m', deferred_compaction := deferred_compaction m'\<rparr> \<and>
        (deferred_compaction m' \<longleftrightarrow> deferred_compaction m \<and> removed = 0)"
proof -
  let ?limit = "min len (length (history m))"
  let ?k = "coherent_cut (history m) ?limit"
  have greatest: "greatest_cut (take len (history m)) ?k"
    using coherent_cut_greatest [of ?limit "history m"] by (simp only: greatest_cut_take_min)
  have le: "?k \<le> length (history m)" using coherent_cut_le [of "history m" ?limit] by simp
  have coh: "coherent (take ?k (history m))" by (rule coherent_cut_coherent)
  have sol: "solicited (all_parts (take ?k (history m)))" using assms by (rule solicited_take)
  show ?thesis
  proof (cases "at_rest (mstate m)")
    case False
    then show ?thesis by (simp add: rewind_to_def)
  next
    case True
    show ?thesis
    proof (cases "?k = length (history m)")
      case all: True
      with greatest coh sol True have "rewind_to len m = Inr (0, m)" by (simp add: rewind_to_def Let_def)
      with all greatest coh sol True show ?thesis by (auto intro!: exI [of _ ?k])
    next
      case cut: False
      with le have "rewind_to len m = Inr (length (history m) - ?k,
          m\<lparr>history := take ?k (history m), deferred_compaction := False\<rparr>)"
        using True by (simp add: rewind_to_def Let_def)
      with cut le greatest coh sol True show ?thesis by (auto simp: min_absorb2)
    qed
  qed
qed

theorem rewind_cuts_at_turn_boundary_witness:
  "case rewind_to 2 (from_history sample_turns) of
     Inl e \<Rightarrow> False
   | Inr (removed, m') \<Rightarrow> coherent (history m') \<and> removed = 4 - length (history m')"
proof -
  have "solicited (all_parts (history (from_history sample_turns)))"
    by (simp add: from_history_def sample_defs solicited_def less_Suc_eq nth_Cons') auto
  from rewind_cuts_at_turn_boundary [OF this, of 2] show ?thesis
    by (auto simp: from_history_def at_rest_def sample_turns_def split: sum.splits)
qed

text \<open>
  Once a poll answered \<open>Done\<close>, every later poll, under any policy and after any sequence
  of feeds, answers the same \<open>Done\<close>, and nothing of the machine moves but the cancellation
  flag.
\<close>

theorem outcome_is_final:
  assumes "fst (next_step p m) = Done d"
  shows "next_step p' (fold apply_feed es (snd (next_step p m))) =
    (Done d, (snd (next_step p m))\<lparr>cancelled := cancelled m \<or> FeedCancel \<in> set es\<rparr>)"
proof -
  let ?m = "snd (next_step p m)"
  have final: "is_terminal ?m" using assms machine.poll_final [of p m] by simp
  have "fst (next_step p ?m) = Done d" using assms machine.poll_twice [of p m] by simp
  with final have st: "mstate ?m = Terminal d" by (auto simp: is_terminal_iff step_simps)
  have "cancelled ?m = cancelled m"
    by (cases "mstate m") (simp_all add: next_step_def request_model_def Let_def)
  with st show ?thesis by (simp add: feeds_terminal [OF final] step_simps)
qed

definition sample_policy :: machine_policy where
  "sample_policy = \<lparr>max_turns = 2, context_window = 1000, compact_threshold = 80, auto_compact = True\<rparr>"

lemma sample_done:
  "fst (next_step sample_policy (cancel (from_history []) :: nat loop_machine)) = Done Cancelled"
  by (simp add: next_step_def cancel_def from_history_def)

theorem outcome_is_final_witness:
  "fst (next_step sample_policy
     (fold apply_feed [FeedTokens 7, FeedTools []]
       (snd (next_step sample_policy (cancel (from_history []) :: nat loop_machine))))) = Done Cancelled"
  using outcome_is_final [OF sample_done, of sample_policy "[FeedTokens 7, FeedTools []]"] by simp

text \<open>
  C3: a run, its follow-ups included, is fed at most as many model responses as the budget has turns,
  and each response takes exactly one turn; a model call is requested only below the budget, for the
  turn the run has reached; and a dispatch is requested only with calls to make, for the turn of the
  response that asked for them.
\<close>

theorem run_respects_turn_budget:
  assumes "run_from p input m0 n m"
  shows "n = unat (turns_taken m) \<and> n \<le> unat (max_turns p) \<and>
    (\<forall>t m'. next_step p m = (CallLLM t, m') \<longrightarrow> unat t = n \<and> n < unat (max_turns p)) \<and>
    (\<forall>t cs m'. next_step p m = (CallTools t cs, m') \<longrightarrow> cs \<noteq> [] \<and> n = Suc (unat t))"
proof -
  have inv: "run_inv p m" and n: "n = unat (turns_taken m)"
    using run_from_inv [OF assms] run_from_turns [OF assms] by simp_all
  have "t = turns_taken m \<and> t < max_turns p" if poll: "next_step p m = (CallLLM t, m')" for t m'
    using run_inv_poll [OF inv] call_llm_poll [OF poll] by (simp add: run_inv_def poll)
  moreover have "cs \<noteq> [] \<and> unat (turns_taken m) = Suc (unat t)"
    if poll: "next_step p m = (CallTools t cs, m')" for t cs m'
  proof -
    from call_tools_poll [OF poll] inv
    have "sat_add t 1 = turns_taken m" "t < turns_taken m" "cs \<noteq> []" by (auto simp: run_inv_def)
    then show ?thesis using sat_add_one [of t "turns_taken m"] by simp
  qed
  ultimately show ?thesis using inv n by (auto simp: run_inv_def word_le_nat_alt word_less_nat_alt)
qed

text \<open>The witness: a run of two turns, the second one a follow-up, leaves no third under a budget of two.\<close>

definition answered_run :: "nat loop_machine \<Rightarrow> nat loop_machine" where
  "answered_run m = model_response \<lparr>mr_message = assistant_message ''yes'', mr_input_tokens = 5, mr_output_tokens = 2,
     mr_stop_reason = EndTurn, available_tools = []\<rparr> 9 (snd (next_step sample_policy m))"

lemma answered_run_from:
  assumes "run_from sample_policy ''hi'' m0 n m" and "mstate m = Start" and "\<not> cancelled m" and "context_tokens m < 700"
    and "turns_taken m < 2"
  shows "run_from sample_policy ''hi'' m0 (Suc n) (answered_run m)"
    and "mstate (answered_run m) = Terminal (Completed ''yes'')" and "\<not> cancelled (answered_run m)"
    and "context_tokens (answered_run m) = 9"
proof -
  have le: "\<not> 2 \<le> turns_taken m" "\<not> 950 \<le> context_tokens m" "\<not> 800 < context_tokens m"
    using assms(4,5) by (auto simp: word_less_nat_alt word_le_nat_alt)
  have poll: "next_step sample_policy m = (CallLLM (turns_taken m), m\<lparr>mstate := AwaitingModel (turns_taken m)\<rparr>)"
    using assms(2,3) le
    by (simp add: step_simps request_model_def sample_policy_def is_emergency_def should_compact_def sat_mul_def)
  have "run_from sample_policy ''hi'' m0 n (snd (next_step sample_policy m))"
    by (rule run_move [OF assms(1) prot_poll])
  then show "run_from sample_policy ''hi'' m0 (Suc n) (answered_run m)"
    unfolding answered_run_def by (rule run_model) (simp add: poll)
  show "mstate (answered_run m) = Terminal (Completed ''yes'')" "\<not> cancelled (answered_run m)"
    "context_tokens (answered_run m) = 9"
    using assms(3) by (simp_all add: answered_run_def poll model_response_def is_terminal_def Let_def assistant_message_def
        tool_call_parts_def map_filter_simps text_content_def)
qed

theorem run_respects_turn_budget_witness:
  "\<exists>m' :: nat loop_machine. accept_followup True ''more'' (answered_run (accept_input ''hi'' (from_history []))) = Some m' \<and>
     turns_taken (answered_run m') = 2 \<and>
     (\<forall>t m''. next_step sample_policy (answered_run m') \<noteq> (CallLLM t, m''))"
proof -
  let ?m0 = "from_history [] :: nat loop_machine"
  let ?m1 = "answered_run (accept_input ''hi'' ?m0)"
  have first: "run_from sample_policy ''hi'' ?m0 1 ?m1" and done1: "mstate ?m1 = Terminal (Completed ''yes'')"
    and live: "\<not> cancelled ?m1" "context_tokens ?m1 = 9"
    using answered_run_from [OF run_begin [of sample_policy "''hi''" ?m0]]
    by (simp_all add: accept_input_def)
  obtain m' where again: "accept_followup True ''more'' ?m1 = Some m'" using done1 by (simp add: accept_followup_def)
  then have m': "mstate m' = Start" "cancelled m' = cancelled ?m1" "context_tokens m' = context_tokens ?m1"
    "turns_taken m' = turns_taken ?m1"
    by (auto simp: accept_followup_def done1)
  have run: "run_from sample_policy ''hi'' ?m0 1 m'" by (rule run_followup [OF first done1 again])
  have "unat (turns_taken m') = 1" using run_respects_turn_budget [OF run] by simp
  then have "turns_taken m' < 2" by (simp add: word_less_nat_alt)
  then have second: "run_from sample_policy ''hi'' ?m0 (Suc 1) (answered_run m')"
    using answered_run_from(1) [OF run] m' live by simp
  have "unat (turns_taken (answered_run m')) = unat (2 :: usize)"
    using run_respects_turn_budget [OF second] by simp
  then have "turns_taken (answered_run m') = 2" by (simp only: word_unat_eq_iff)
  then show ?thesis using again run_respects_turn_budget [OF second] by (auto simp: sample_policy_def)
qed

lemma word_div_100: "unat (x div (100 :: u64)) = unat x div 100"
  by (simp add: unat_div)

lemma line_exact:
  assumes "unat (w :: u64) * unat (k :: u64) < 2 ^ 64"
  shows "unat (sat_mul w k div 100) = unat w * unat k div 100"
  using assms by (simp add: word_div_100 unat_sat_mul)

text \<open>
  While a model call is due and the budget is not spent, the step is an emergency pass
  exactly from 95 percent of a known window on, a threshold pass exactly when automatic
  compaction is on, this turn has not deferred one and the figure is strictly above the
  configured percentage, and the model call otherwise; the products are those of unbounded
  integers as long as they fit 64 bits.
\<close>

theorem compaction_trigger_exact:
  assumes "mstate m = Start" and "\<not> cancelled m" and "turns_taken m < max_turns p"
    and "unat (context_window p) * 95 < 2 ^ 64"
    and "unat (context_window p) * unat (compact_threshold p) < 2 ^ 64"
  shows "fst (next_step p m) =
    (if context_window p \<noteq> 0 \<and> unat (context_window p) * 95 div 100 \<le> unat (context_tokens m)
     then CompactStep Emergency
     else if auto_compact p \<and> \<not> deferred_compaction m \<and> context_window p \<noteq> 0 \<and>
       compact_threshold p \<noteq> 0 \<and>
       unat (context_window p) * unat (compact_threshold p) div 100 < unat (context_tokens m)
     then CompactStep ThresholdExceeded
     else CallLLM (turns_taken m))"
proof -
  have emergency: "is_emergency p m \<longleftrightarrow>
      context_window p \<noteq> 0 \<and> unat (context_window p) * 95 div 100 \<le> unat (context_tokens m)"
    using line_exact [of "context_window p" 95] assms(4) by (simp add: is_emergency_def word_le_nat_alt)
  have "unat (ucast (compact_threshold p) :: u64) = unat (compact_threshold p)"
    by (simp add: unat_ucast_up)
  then have "should_compact p m \<longleftrightarrow> context_window p \<noteq> 0 \<and> compact_threshold p \<noteq> 0 \<and>
      unat (context_window p) * unat (compact_threshold p) div 100 < unat (context_tokens m)"
    using line_exact [of "context_window p" "ucast (compact_threshold p) :: u64"] assms(5)
    by (simp add: should_compact_def word_less_nat_alt)
  with emergency assms(1-3) show ?thesis by (auto simp: step_simps request_model_def)
qed

theorem compaction_trigger_exact_witness:
  "fst (next_step sample_policy ((from_history sample_turns)\<lparr>context_tokens := 801\<rparr>)) =
     CompactStep ThresholdExceeded"
  using compaction_trigger_exact [of "(from_history sample_turns)\<lparr>context_tokens := 801\<rparr>" sample_policy]
  by (simp add: from_history_def sample_policy_def)

definition call_triple :: "'v pending_tool_call \<Rightarrow> string \<times> string \<times> 'v" where
  "call_triple c = (tc_id (ptc_call c), tc_tool (ptc_call c), tc_input (ptc_call c))"

definition error_result_for :: "string \<Rightarrow> 'v message \<Rightarrow> bool" where
  "error_result_for i msg \<longleftrightarrow> msg_role msg = User \<and>
     (\<exists>t out. msg_parts msg = [ToolResultPart i t out (Some True) None])"

lemma classify_call [simp]: "ptc_call (classify c names) = c"
  by (simp add: classify_def)

lemma classify_result:
  "case preresolved_result (classify c names) of
     None \<Rightarrow> tc_tool c \<in> set names
   | Some msg \<Rightarrow> tc_tool c \<notin> set names \<and> error_result_for (tc_id c) msg"
  by (auto simp: classify_def error_result_for_def unknown_tool_result_def new_message_def
      tool_result_def)

lemma model_response_tools:
  assumes "\<not> is_terminal m" and "tool_call_parts (mr_message r) \<noteq> []"
  shows "model_response r n m = m\<lparr>pending := pending m @ [mr_message r],
      turns_taken := sat_add (turns_taken m) 1, context_tokens := n, deferred_compaction := False,
      pending_tools := map (\<lambda>(i, t, v). classify \<lparr>tc_id = i, tc_tool = t, tc_input = v\<rparr> (available_tools r))
        (tool_call_parts (mr_message r)),
      mstate := AwaitingTools (turns_taken m)\<rparr>"
  using assms by (simp add: model_response_def Let_def comp_def case_prod_beta)

text \<open>
  A response without tool calls completes the run with its text; one with calls asks for
  their dispatch, one pending call per call in the order the model made them, where a call has
  a ready-made result exactly when its tool was not advertised, and that result is an error that
  answers the call.
\<close>

theorem model_response_classifies_calls:
  assumes "\<not> is_terminal m" and "\<not> cancelled m"
  shows "if tool_call_parts (mr_message r) = []
    then fst (next_step p (model_response r n m)) = Done (Completed (text_content (mr_message r)))
    else \<exists>cs m'. next_step p (model_response r n m) = (CallTools (turns_taken m) cs, m') \<and>
      map call_triple cs = tool_call_parts (mr_message r) \<and>
      (\<forall>c \<in> set cs. case preresolved_result c of
         None \<Rightarrow> tc_tool (ptc_call c) \<in> set (available_tools r)
       | Some msg \<Rightarrow> tc_tool (ptc_call c) \<notin> set (available_tools r) \<and>
           error_result_for (tc_id (ptc_call c)) msg)"
proof (cases "tool_call_parts (mr_message r) = []")
  case True
  with assms(1) have "mstate (model_response r n m) = Terminal (Completed (text_content (mr_message r)))"
    by (simp add: model_response_def Let_def)
  with True show ?thesis by (simp add: step_simps)
next
  case False
  let ?f = "\<lambda>(i, t, v). classify \<lparr>tc_id = i, tc_tool = t, tc_input = v\<rparr> (available_tools r)"
  let ?cs = "map ?f (tool_call_parts (mr_message r))"
  have "next_step p (model_response r n m) =
      (CallTools (turns_taken m) ?cs, model_response r n m)"
    using model_response_tools [OF assms(1) False] assms(2) by (simp add: step_simps)
  moreover have "map call_triple ?cs = tool_call_parts (mr_message r)"
    by (simp add: call_triple_def case_prod_beta comp_def)
  moreover have "\<forall>c \<in> set ?cs. case preresolved_result c of
         None \<Rightarrow> tc_tool (ptc_call c) \<in> set (available_tools r)
       | Some msg \<Rightarrow> tc_tool (ptc_call c) \<notin> set (available_tools r) \<and>
           error_result_for (tc_id (ptc_call c)) msg"
  proof
    fix c assume "c \<in> set ?cs"
    then obtain x where c: "c = classify x (available_tools r)" by auto
    show "case preresolved_result c of
         None \<Rightarrow> tc_tool (ptc_call c) \<in> set (available_tools r)
       | Some msg \<Rightarrow> tc_tool (ptc_call c) \<notin> set (available_tools r) \<and>
           error_result_for (tc_id (ptc_call c)) msg"
      unfolding c classify_call by (rule classify_result)
  qed
  ultimately show ?thesis using False by auto
qed

definition sample_response :: "nat model_response" where
  "sample_response = \<lparr>mr_message = new_message Assistant [call_part ''a''], mr_input_tokens = 5,
     mr_output_tokens = 2, mr_stop_reason = StopToolCall, available_tools = [''write'']\<rparr>"

theorem model_response_classifies_calls_witness:
  "\<exists>cs m'. next_step sample_policy (model_response sample_response 9 (from_history [])) =
     (CallTools 0 cs, m') \<and> map call_triple cs = [(''a'', ''read'', 0)]"
  using model_response_classifies_calls [of "from_history []" sample_response sample_policy 9]
  by (auto simp: from_history_def sample_response_def sample_defs tool_call_parts_def
      map_filter_simps step_simps)

text \<open>
  C4: a compaction feed is adopted exactly when it shrank the conversation. An adopted feed
  leaves no two assistant messages side by side, keeps every non-text part in its order and so
  the pairing of calls and results, and empties the run's buffer; a stalled one keeps both
  buffers and ends the run with the stall error.
\<close>

theorem compaction_adopts_only_progress:
  assumes "\<not> is_terminal m"
  shows "case compaction_result ms before after m of (adopted, m') \<Rightarrow>
    (adopted \<longleftrightarrow> after < before) \<and>
    (if adopted
     then no_adjacent_assistants (history m') \<and>
       filter (\<lambda>q. \<not> is_text q) (all_parts (history m')) = filter (\<lambda>q. \<not> is_text q) (all_parts ms) \<and>
       (coherent (history m') \<longleftrightarrow> coherent ms) \<and>
       pending m' = [] \<and> context_tokens m' = after \<and> mstate m' = Start
     else m' = m\<lparr>mstate := Terminal (Failed (CompactionStalled after))\<rparr>)"
  using assms
  by (simp add: compaction_result_def terminate_on_no_progress_def no_adjacent_coalesce
      coalesce_tool_parts coalesce_coherent)

theorem compaction_adopts_only_progress_witness:
  "no_adjacent_assistants
     (history (snd (compaction_result [assistant_message ''x'', assistant_message ''y''] 9 4
        (from_history sample_turns))))"
  using compaction_adopts_only_progress
    [where m = "from_history sample_turns" and before = 9 and after = 4
      and ms = "[assistant_message ''x'', assistant_message ''y'']"]
  by (simp add: from_history_def step_simps compaction_result_def terminate_on_no_progress_def)

text \<open>
  A host-requested compaction installs exactly when the machine is at rest with no staged
  input; then the committed side is the coalesced front of the result, the rest is staged as it
  is, the figure is the recount, the deferral latch is down and the state, terminal or not,
  is the one it found. Otherwise it refuses.
\<close>

theorem manual_compaction_only_at_rest:
  "case install_manual_compaction ms k tokens m of
     Inl e \<Rightarrow> (\<not> at_rest (mstate m) \<or> pending m \<noteq> []) \<and> (\<exists>s. e = InvalidInput s)
   | Inr m' \<Rightarrow> at_rest (mstate m) \<and> pending m = [] \<and>
       history m' = coalesce_adjacent_assistants (take k ms) \<and> pending m' = drop k ms \<and>
       no_adjacent_assistants (history m') \<and>
       m' = m\<lparr>history := history m', pending := pending m', context_tokens := tokens,
              deferred_compaction := False\<rparr>"
  by (simp add: install_manual_compaction_def guard_manual_compaction_def bind_result_def Let_def
      no_adjacent_coalesce min_def)

theorem manual_compaction_only_at_rest_witness:
  "\<exists>m'. install_manual_compaction sample_turns 2 7 (from_history sample_turns) = Inr m' \<and>
     history m' = take 2 sample_turns \<and> pending m' = drop 2 sample_turns"
proof -
  have rest: "at_rest (mstate (from_history sample_turns))" "pending (from_history sample_turns) = []"
    by (simp_all add: from_history_def at_rest_def)
  have fronts: "coalesce_adjacent_assistants (take 2 sample_turns) = take 2 sample_turns"
    by (simp add: sample_defs coalesce_adjacent_assistants_def coalesce_push_def)
  from manual_compaction_only_at_rest [where ms = sample_turns and k = 2 and tokens = 7
      and m = "from_history sample_turns"] rest show ?thesis
    by (auto simp: fronts split: sum.splits)
qed

end
