(* ===== verification/Fallback.thy ===== *)
theory Fallback
  imports Errors
begin

section \<open>The fallback circuit breaker\<close>

text \<open>
  src/src/fallback.rs: the entries of the fallback chain, the breaker state behind the manager's
  one mutex, and every operation of \<open>FallbackManager\<close>. The manager is the record
  \<open>fallback_manager\<close>; \<open>poisoned\<close> is the flag of the standard library's mutex, and an
  operation on a poisoned manager is the error \<open>lock_state\<close> returns. An operation through
  \<open>&self\<close> that changes the state behind the mutex takes the manager and gives back its value
  with the updated manager, or the error. \<open>Instant::now()\<close> is an argument, in nanoseconds of a
  monotonic clock; log output is not modelled.
\<close>

subsection \<open>Data\<close>

datatype fallback_state = Primary | Fallback | Recovering

datatype failure_kind = Transient | RateLimitFailure

record fallback_entry =
  entry_name :: string
  available :: bool
  attempt_count :: usize
  entry_max_fail :: usize

record fallback_config =
  trip_threshold :: usize
  recovery_timeout :: duration
  recovery_successes_needed :: usize
  max_fail_count :: usize

record breaker_state =
  br_state :: fallback_state
  consecutive_failures :: usize
  primary_success_count :: usize
  fallback_activated :: bool
  original_model :: "string option"
  fallback_models :: "fallback_entry list"
  active_fallback :: "string option"
  fallback_switched_at :: "instant option"

record fallback_manager =
  fm_config :: fallback_config
  fm_state :: breaker_state
  poisoned :: bool

subsection \<open>Chain entries\<close>

definition new_entry :: "string \<Rightarrow> fallback_entry" where
  "new_entry name = \<lparr>entry_name = name, available = True, attempt_count = 0, entry_max_fail = 2\<rparr>"

definition failed :: "fallback_entry \<Rightarrow> bool" where
  "failed e \<longleftrightarrow> \<not> available e \<or> attempt_count e \<ge> entry_max_fail e"

definition with_max_fail_count :: "usize \<Rightarrow> fallback_entry \<Rightarrow> fallback_entry" where
  "with_max_fail_count n e =
     (let new_max = max n 1;
          e' = (if failed e \<and> attempt_count e < new_max then e\<lparr>attempt_count := new_max\<rparr> else e)
      in e'\<lparr>entry_max_fail := new_max\<rparr>)"

definition set_available :: "bool \<Rightarrow> fallback_entry \<Rightarrow> fallback_entry" where
  "set_available b e = e\<lparr>available := b\<rparr>"

definition record_attempt :: "fallback_entry \<Rightarrow> fallback_entry" where
  "record_attempt e = e\<lparr>attempt_count := sat_add (attempt_count e) 1\<rparr>"

definition clear_attempts :: "fallback_entry \<Rightarrow> fallback_entry" where
  "clear_attempts e = e\<lparr>attempt_count := 0\<rparr>"

subsection \<open>The state behind the lock\<close>

definition default_config :: fallback_config where
  "default_config =
     \<lparr>trip_threshold = 3, recovery_timeout = 60 * 10 ^ 9, recovery_successes_needed = 2,
      max_fail_count = 2\<rparr>"

definition default_breaker :: breaker_state where
  "default_breaker =
     \<lparr>br_state = Primary, consecutive_failures = 0, primary_success_count = 0,
      fallback_activated = False, original_model = None, fallback_models = [],
      active_fallback = None, fallback_switched_at = None\<rparr>"

definition recompute_active_fallback :: "breaker_state \<Rightarrow> breaker_state" where
  "recompute_active_fallback s =
     s\<lparr>active_fallback := map_option entry_name (find (\<lambda>e. \<not> failed e) (fallback_models s))\<rparr>"

definition transition_to_fallback_impl :: "instant \<Rightarrow> breaker_state \<Rightarrow> breaker_state" where
  "transition_to_fallback_impl now s =
     s\<lparr>br_state := Fallback, fallback_activated := True, fallback_switched_at := Some now,
       primary_success_count := 0, consecutive_failures := 0\<rparr>"

definition transition_to_recovering_impl :: "breaker_state \<Rightarrow> breaker_state" where
  "transition_to_recovering_impl s = s\<lparr>br_state := Recovering, primary_success_count := 0\<rparr>"

definition transition_to_primary_impl :: "breaker_state \<Rightarrow> breaker_state" where
  "transition_to_primary_impl s =
     recompute_active_fallback
       (s\<lparr>br_state := Primary, fallback_switched_at := None, primary_success_count := 0,
          consecutive_failures := 0, fallback_activated := False,
          fallback_models := map clear_attempts (fallback_models s)\<rparr>)"

definition should_try_resume_primary_impl :: "instant \<Rightarrow> duration \<Rightarrow> breaker_state \<Rightarrow> bool" where
  "should_try_resume_primary_impl now min_duration s =
     (if br_state s \<noteq> Fallback then False
      else (case fallback_switched_at s of
              Some at \<Rightarrow> now - at \<ge> min_duration
            | None \<Rightarrow> False))"

definition record_failure_impl ::
  "fallback_config \<Rightarrow> instant \<Rightarrow> failure_kind \<Rightarrow> breaker_state \<Rightarrow> bool \<times> breaker_state" where
  "record_failure_impl cfg now kind s =
     (case br_state s of
        Primary \<Rightarrow>
          (let s1 = s\<lparr>consecutive_failures := sat_add (consecutive_failures s) 1\<rparr>
           in if consecutive_failures s1 \<ge> trip_threshold cfg
              then (True, transition_to_fallback_impl now s1)
              else (False, s1))
      | Fallback \<Rightarrow> (False, s)
      | Recovering \<Rightarrow>
          (case kind of
             RateLimitFailure \<Rightarrow> (False, transition_to_fallback_impl now s)
           | Transient \<Rightarrow>
               (let s1 = s\<lparr>primary_success_count := 0,
                           consecutive_failures := sat_add (consecutive_failures s) 1\<rparr>
                in if consecutive_failures s1 \<ge> trip_threshold cfg
                   then (True, transition_to_fallback_impl now s1)
                   else (False, s1))))"

definition record_success_impl :: "fallback_config \<Rightarrow> breaker_state \<Rightarrow> breaker_state" where
  "record_success_impl cfg s =
     (case br_state s of
        Primary \<Rightarrow> s\<lparr>consecutive_failures := 0\<rparr>
      | Fallback \<Rightarrow> s
      | Recovering \<Rightarrow>
          (let s1 = s\<lparr>consecutive_failures := 0,
                      primary_success_count := sat_add (primary_success_count s) 1\<rparr>
           in if primary_success_count s1 \<ge> recovery_successes_needed cfg
              then transition_to_primary_impl s1 else s1))"

subsection \<open>Names\<close>

definition validated_model_name :: "string \<Rightarrow> string result" where
  "validated_model_name name =
     (let trimmed = trim name in
      if trimmed = [] then Inl (ConfigError ''model name cannot be empty or whitespace-only'')
      else Inr trimmed)"

subsection \<open>The manager\<close>

text \<open>
  \<open>locked\<close> is a method body run under the guard: it reads and updates the state behind the
  mutex, and the guard is released with the updated state in place.
\<close>

definition lock_state :: "fallback_manager \<Rightarrow> breaker_state result" where
  "lock_state mgr = (if poisoned mgr then Inl (from_poison ''fallback'') else Inr (fm_state mgr))"

definition locked ::
  "fallback_manager \<Rightarrow> (breaker_state \<Rightarrow> 'a \<times> breaker_state) \<Rightarrow> ('a \<times> fallback_manager) result" where
  "locked mgr body =
     bind_result (lock_state mgr)
       (\<lambda>s. case body s of (v, s') \<Rightarrow> Inr (v, mgr\<lparr>fm_state := s'\<rparr>))"

definition new_manager :: "usize \<Rightarrow> usize \<Rightarrow> fallback_manager" where
  "new_manager fallback_threshold primary_resume_threshold =
     \<lparr>fm_config = default_config\<lparr>trip_threshold := fallback_threshold,
                                 recovery_successes_needed := primary_resume_threshold\<rparr>,
      fm_state = default_breaker, poisoned = False\<rparr>"

definition with_config :: "fallback_config \<Rightarrow> fallback_manager \<Rightarrow> fallback_manager" where
  "with_config cfg mgr = mgr\<lparr>fm_config := cfg\<rparr>"

definition new_with_config :: "fallback_config \<Rightarrow> fallback_manager" where
  "new_with_config cfg = \<lparr>fm_config = cfg, fm_state = default_breaker, poisoned = False\<rparr>"

definition for_model :: "string \<Rightarrow> fallback_manager result" where
  "for_model primary_model =
     bind_result (validated_model_name primary_model)
       (\<lambda>name. let mgr = new_manager 3 2 in
          bind_result (lock_state mgr)
            (\<lambda>s. Inr (mgr\<lparr>fm_state := s\<lparr>original_model := Some name\<rparr>\<rparr>)))"

definition get_state :: "fallback_manager \<Rightarrow> fallback_state result" where
  "get_state mgr = bind_result (lock_state mgr) (\<lambda>s. Inr (br_state s))"

definition is_using_fallback :: "fallback_manager \<Rightarrow> bool result" where
  "is_using_fallback mgr = bind_result (get_state mgr) (\<lambda>st. Inr (st = Fallback))"

definition is_fallback_active :: "fallback_manager \<Rightarrow> bool result" where
  "is_fallback_active mgr = bind_result (lock_state mgr) (\<lambda>s. Inr (fallback_activated s))"

definition get_consecutive_failures :: "fallback_manager \<Rightarrow> usize result" where
  "get_consecutive_failures mgr = bind_result (lock_state mgr) (\<lambda>s. Inr (consecutive_failures s))"

definition get_original_model :: "fallback_manager \<Rightarrow> string option result" where
  "get_original_model mgr = bind_result (lock_state mgr) (\<lambda>s. Inr (original_model s))"

definition set_original_model :: "string \<Rightarrow> fallback_manager \<Rightarrow> (unit \<times> fallback_manager) result" where
  "set_original_model model mgr =
     bind_result (validated_model_name model)
       (\<lambda>name. locked mgr (\<lambda>s. ((), s\<lparr>original_model := Some name\<rparr>)))"

definition get_fallback_switched_at :: "fallback_manager \<Rightarrow> instant option result" where
  "get_fallback_switched_at mgr = bind_result (lock_state mgr) (\<lambda>s. Inr (fallback_switched_at s))"

definition active_model :: "fallback_manager \<Rightarrow> string option result" where
  "active_model mgr =
     bind_result (lock_state mgr)
       (\<lambda>s. Inr (case br_state s of
                   Primary \<Rightarrow> original_model s
                 | Recovering \<Rightarrow> original_model s
                 | Fallback \<Rightarrow> active_fallback s))"

subsection \<open>The chain\<close>

definition chain_entry :: "fallback_manager \<Rightarrow> string \<Rightarrow> fallback_entry" where
  "chain_entry mgr name = with_max_fail_count (max_fail_count (fm_config mgr)) (new_entry name)"

definition set_fallback_model :: "string \<Rightarrow> fallback_manager \<Rightarrow> (unit \<times> fallback_manager) result" where
  "set_fallback_model model mgr =
     bind_result (validated_model_name model)
       (\<lambda>name. locked mgr (\<lambda>s. ((), recompute_active_fallback
          (s\<lparr>fallback_models := [chain_entry mgr name]\<rparr>))))"

definition fallback_model :: "fallback_manager \<Rightarrow> string option result" where
  "fallback_model mgr = bind_result (lock_state mgr) (\<lambda>s. Inr (active_fallback s))"

definition get_fallback_models :: "fallback_manager \<Rightarrow> string list result" where
  "get_fallback_models mgr =
     bind_result (lock_state mgr) (\<lambda>s. Inr (map entry_name (fallback_models s)))"

definition add_fallback_model :: "string \<Rightarrow> fallback_manager \<Rightarrow> (unit \<times> fallback_manager) result" where
  "add_fallback_model model mgr =
     bind_result (validated_model_name model)
       (\<lambda>name. locked mgr (\<lambda>s. ((), recompute_active_fallback
          (s\<lparr>fallback_models := fallback_models s @ [chain_entry mgr name]\<rparr>))))"

definition insert_fallback_model ::
  "nat \<Rightarrow> string \<Rightarrow> fallback_manager \<Rightarrow> (unit \<times> fallback_manager) result" where
  "insert_fallback_model index model mgr =
     bind_result (validated_model_name model)
       (\<lambda>name. locked mgr (\<lambda>s.
          let e = chain_entry mgr name; ms = fallback_models s in
          ((), recompute_active_fallback
             (s\<lparr>fallback_models := (if index \<ge> length ms then ms @ [e]
                                    else take index ms @ e # drop index ms)\<rparr>))))"

definition remove_fallback_model :: "string \<Rightarrow> fallback_manager \<Rightarrow> (bool \<times> fallback_manager) result" where
  "remove_fallback_model model mgr =
     locked mgr (\<lambda>s.
       (case position (\<lambda>e. entry_name e = model) (fallback_models s) of
          Some pos \<Rightarrow>
            (True, recompute_active_fallback
              (s\<lparr>fallback_models := take pos (fallback_models s) @ drop (pos + 1) (fallback_models s)\<rparr>))
        | None \<Rightarrow> (False, s)))"

definition set_fallback_models ::
  "string list \<Rightarrow> fallback_manager \<Rightarrow> (unit \<times> fallback_manager) result" where
  "set_fallback_models models mgr =
     bind_result (collect_results (map validated_model_name models))
       (\<lambda>names. locked mgr (\<lambda>s. ((), recompute_active_fallback
          (s\<lparr>fallback_models := map (chain_entry mgr) names\<rparr>))))"

definition change_entry ::
  "string \<Rightarrow> (fallback_entry \<Rightarrow> fallback_entry) \<Rightarrow> breaker_state \<Rightarrow> bool \<times> breaker_state" where
  "change_entry model f s =
     (if \<exists>e \<in> set (fallback_models s). entry_name e = model
      then (True, recompute_active_fallback
              (s\<lparr>fallback_models := update_first (\<lambda>e. entry_name e = model) f (fallback_models s)\<rparr>))
      else (False, s))"

definition mark_fallback_failed :: "string \<Rightarrow> fallback_manager \<Rightarrow> (bool \<times> fallback_manager) result" where
  "mark_fallback_failed model mgr = locked mgr (change_entry model record_attempt)"

definition clear_fallback_failed :: "string \<Rightarrow> fallback_manager \<Rightarrow> (bool \<times> fallback_manager) result" where
  "clear_fallback_failed model mgr = locked mgr (change_entry model clear_attempts)"

definition clear_all_fallback_failed :: "fallback_manager \<Rightarrow> (unit \<times> fallback_manager) result" where
  "clear_all_fallback_failed mgr =
     locked mgr (\<lambda>s. ((), recompute_active_fallback
       (s\<lparr>fallback_models := map clear_attempts (fallback_models s)\<rparr>)))"

definition failed_fallbacks :: "fallback_manager \<Rightarrow> string list result" where
  "failed_fallbacks mgr =
     bind_result (lock_state mgr) (\<lambda>s. Inr (map entry_name (filter failed (fallback_models s))))"

definition available_fallbacks :: "fallback_manager \<Rightarrow> string list result" where
  "available_fallbacks mgr =
     bind_result (lock_state mgr)
       (\<lambda>s. Inr (map entry_name (filter (\<lambda>e. \<not> failed e) (fallback_models s))))"

definition set_fallback_available ::
  "string \<Rightarrow> bool \<Rightarrow> fallback_manager \<Rightarrow> (bool \<times> fallback_manager) result" where
  "set_fallback_available model b mgr = locked mgr (change_entry model (set_available b))"

subsection \<open>Failures, successes, transitions\<close>

definition record_failure ::
  "instant \<Rightarrow> failure_kind \<Rightarrow> fallback_manager \<Rightarrow> (bool \<times> fallback_manager) result" where
  "record_failure now kind mgr = locked mgr (record_failure_impl (fm_config mgr) now kind)"

definition reset_failure_counter :: "fallback_manager \<Rightarrow> (unit \<times> fallback_manager) result" where
  "reset_failure_counter mgr = locked mgr (\<lambda>s. ((), s\<lparr>consecutive_failures := 0\<rparr>))"

definition record_success :: "fallback_manager \<Rightarrow> (unit \<times> fallback_manager) result" where
  "record_success mgr = locked mgr (\<lambda>s. ((), record_success_impl (fm_config mgr) s))"

definition should_try_resume_primary :: "instant \<Rightarrow> duration \<Rightarrow> fallback_manager \<Rightarrow> bool result" where
  "should_try_resume_primary now min_duration mgr =
     bind_result (lock_state mgr) (\<lambda>s. Inr (should_try_resume_primary_impl now min_duration s))"

definition transition_to_fallback :: "instant \<Rightarrow> fallback_manager \<Rightarrow> (unit \<times> fallback_manager) result" where
  "transition_to_fallback now mgr = locked mgr (\<lambda>s. ((), transition_to_fallback_impl now s))"

definition transition_to_recovering :: "fallback_manager \<Rightarrow> (unit \<times> fallback_manager) result" where
  "transition_to_recovering mgr = locked mgr (\<lambda>s. ((), transition_to_recovering_impl s))"

definition transition_to_primary :: "fallback_manager \<Rightarrow> (unit \<times> fallback_manager) result" where
  "transition_to_primary mgr = locked mgr (\<lambda>s. ((), transition_to_primary_impl s))"

definition fallback_reset :: "fallback_manager \<Rightarrow> (unit \<times> fallback_manager) result" where
  "fallback_reset mgr = locked mgr (\<lambda>s. ((), transition_to_primary_impl s))"

subsection \<open>Routing a turn\<close>

text \<open>
  The opening of \<open>handle_call_llm\<close> in src/src/engine/bare.rs: probe the primary when the
  cooldown is over, and fail when the circuit is open with no model left.
\<close>

definition route_turn :: "instant \<Rightarrow> fallback_manager \<Rightarrow> (unit \<times> fallback_manager) result" where
  "route_turn now mgr =
     bind_result (should_try_resume_primary now (recovery_timeout (fm_config mgr)) mgr)
       (\<lambda>resume. bind_result (if resume then transition_to_recovering mgr else Inr ((), mgr))
         (\<lambda>(_, mgr1). bind_result (get_state mgr1)
           (\<lambda>st. bind_result (if st = Fallback then active_model mgr1 else Inr (Some []))
             (\<lambda>am. if st = Fallback \<and> am = None then Inl FallbackExhausted else Inr ((), mgr1)))))"

text \<open>
  The breaker's part of src/src/engine/bare/llm\_turn.rs and emission.rs: the model a request is
  routed to, and the bookkeeping of a served and of a failed turn. Observer events, the usage
  anchor and the calibration these functions also feed are left out here.
\<close>

definition routed_model :: "fallback_manager \<Rightarrow> string option result" where
  "routed_model mgr =
     bind_result (get_state mgr)
       (\<lambda>st. case st of Primary \<Rightarrow> get_original_model mgr | _ \<Rightarrow> active_model mgr)"

definition routed_or_client_model :: "string \<Rightarrow> fallback_manager \<Rightarrow> string result" where
  "routed_or_client_model client_model mgr =
     bind_result (routed_model mgr)
       (\<lambda>r. Inr (case r of Some model \<Rightarrow> model | None \<Rightarrow> client_model))"

definition record_turn_success :: "string \<Rightarrow> fallback_manager \<Rightarrow> (string \<times> fallback_manager) result" where
  "record_turn_success client_model mgr =
     bind_result (routed_or_client_model client_model mgr)
       (\<lambda>served. bind_result (record_success mgr) (\<lambda>(_, mgr1). Inr (served, mgr1)))"

definition record_turn_failure_inner ::
  "string \<Rightarrow> instant \<Rightarrow> loop_error \<Rightarrow> fallback_manager \<Rightarrow> (loop_error \<times> fallback_manager) result" where
  "record_turn_failure_inner client_model now e mgr =
     bind_result (routed_or_client_model client_model mgr) (\<lambda>served.
     bind_result (get_state mgr) (\<lambda>st.
     let was_in_fallback = (st = Fallback) in
     bind_result
       (case e of
          RateLimitEscalation _ _ \<Rightarrow> record_failure now RateLimitFailure mgr
        | _ \<Rightarrow> record_failure now Transient mgr) (\<lambda>(tripped, mgr1).
     bind_result (if tripped then fallback_model mgr1 else Inr None) (\<lambda>to.
     bind_result (if was_in_fallback then fallback_model mgr1 else Inr None) (\<lambda>active.
     bind_result
       (case active of
          Some a \<Rightarrow> mark_fallback_failed a mgr1
        | None \<Rightarrow> Inr (False, mgr1)) (\<lambda>(_, mgr2). Inr (e, mgr2)))))))"

definition record_turn_failure ::
  "string \<Rightarrow> instant \<Rightarrow> loop_error \<Rightarrow> fallback_manager \<Rightarrow> loop_error \<times> fallback_manager" where
  "record_turn_failure client_model now e mgr =
     (if e = ErrCancelled then (e, mgr)
      else (case record_turn_failure_inner client_model now e mgr of
              Inr r \<Rightarrow> r
            | Inl poison \<Rightarrow> (poison, mgr)))"

section \<open>The breaker's contract\<close>

text \<open>
  What a circuit breaker promises its client, stated over its phase and its two counters. The
  laws are those of one failure and one success; the lemmas count them.
\<close>

locale circuit_breaker =
  fixes phase :: "'s \<Rightarrow> fallback_state"
    and fails :: "'s \<Rightarrow> nat" and wins :: "'s \<Rightarrow> nat"
    and failure :: "'k \<Rightarrow> 's \<Rightarrow> 's" and success :: "'s \<Rightarrow> 's"
    and trip_at :: nat and close_at :: nat
  assumes failure_primary: "phase s = Primary \<Longrightarrow>
      (if Suc (fails s) < trip_at then phase (failure k s) = Primary \<and> fails (failure k s) = Suc (fails s)
       else phase (failure k s) = Fallback)"
    and failure_open: "phase s = Fallback \<Longrightarrow> phase (failure k s) = Fallback"
    and success_primary: "phase s = Primary \<Longrightarrow> phase (success s) = Primary \<and> fails (success s) = 0"
    and success_open: "phase s = Fallback \<Longrightarrow> success s = s"
    and success_probe: "phase s = Recovering \<Longrightarrow>
      (if Suc (wins s) < close_at then phase (success s) = Recovering \<and> wins (success s) = Suc (wins s)
       else phase (success s) = Primary)"
begin

lemma open_stays: "phase s = Fallback \<Longrightarrow> phase (fold failure ks s) = Fallback"
  by (induction ks arbitrary: s) (simp_all add: failure_open)

lemma trips_exactly:
  "phase s = Primary \<Longrightarrow> ks \<noteq> [] \<Longrightarrow>
   phase (fold failure ks s) = (if fails s + length ks < trip_at then Primary else Fallback)"
proof (induction ks arbitrary: s)
  case (Cons k ks)
  note step = failure_primary [OF Cons.prems(1), of k]
  show ?case
  proof (cases "Suc (fails s) < trip_at")
    case True
    with step Cons.IH [of "failure k s"] show ?thesis by (cases "ks = []") auto
  next
    case False
    with step open_stays show ?thesis by simp
  qed
qed simp

lemma primary_stays: "phase s = Primary \<Longrightarrow> phase ((success ^^ n) s) = Primary"
  by (induction n) (auto dest: success_primary)

lemma closes_exactly:
  "phase s = Recovering \<Longrightarrow> 0 < n \<Longrightarrow>
   phase ((success ^^ n) s) = (if wins s + n < close_at then Recovering else Primary)"
proof (induction n arbitrary: s)
  case (Suc n)
  note step = success_probe [OF Suc.prems(1)]
  have unfold: "(success ^^ Suc n) s = (success ^^ n) (success s)"
    by (simp add: funpow_swap1)
  show ?case
  proof (cases "Suc (wins s) < close_at")
    case True
    with step Suc.IH [of "success s"] show ?thesis unfolding unfold by (cases "n = 0") auto
  next
    case False
    with step primary_stays show ?thesis unfolding unfold by simp
  qed
qed simp

end

lemma sat_add_one_ge: "sat_add a 1 \<ge> (b :: usize) \<longleftrightarrow> unat b \<le> Suc (unat a)"
proof -
  have "unat b \<le> 2 ^ 64 - 1" using unat_less_pow [of b] by simp
  then show ?thesis by (auto simp: word_le_nat_alt unat_sat_add)
qed

lemma unat_sat_add_one_less: "Suc (unat a) < unat (b :: usize) \<Longrightarrow> unat (sat_add (a :: usize) 1) = Suc (unat a)"
  using unat_less_pow [of b] by (simp add: unat_sat_add)

lemma transition_simps [simp]:
  "br_state (transition_to_fallback_impl now s) = Fallback"
  "br_state (transition_to_recovering_impl s) = Recovering"
  "br_state (transition_to_primary_impl s) = Primary"
  "br_state (recompute_active_fallback s) = br_state s"
  by (simp_all add: transition_to_fallback_impl_def transition_to_recovering_impl_def
      transition_to_primary_impl_def recompute_active_fallback_def)

interpretation breaker: circuit_breaker br_state "\<lambda>s. unat (consecutive_failures s)"
    "\<lambda>s. unat (primary_success_count s)"
    "\<lambda>(now, kind) s. snd (record_failure_impl cfg now kind s)" "record_success_impl cfg"
    "unat (trip_threshold cfg)" "unat (recovery_successes_needed cfg)"
  by unfold_locales
     (auto simp: record_failure_impl_def record_success_impl_def Let_def sat_add_one_ge
        unat_sat_add_one_less)

section \<open>The breaker's invariant\<close>

text \<open>
  The cached active fallback is the first entry of the chain that has not failed, the phase
  agrees with the switch time and the sticky flag, both counters are below their thresholds in
  the phase that counts them and zero where they are idle, and every configured name is trimmed
  and not empty.
\<close>

definition valid_name :: "string \<Rightarrow> bool" where
  "valid_name n \<longleftrightarrow> n \<noteq> [] \<and> trim n = n"

definition breaker_inv :: "fallback_config \<Rightarrow> breaker_state \<Rightarrow> bool" where
  "breaker_inv cfg s \<longleftrightarrow>
     active_fallback s = map_option entry_name (find (\<lambda>e. \<not> failed e) (fallback_models s)) \<and>
     (br_state s = Primary \<longrightarrow>
        fallback_switched_at s = None \<and> primary_success_count s = 0 \<and> \<not> fallback_activated s) \<and>
     (br_state s = Fallback \<longrightarrow>
        fallback_switched_at s \<noteq> None \<and> primary_success_count s = 0 \<and> consecutive_failures s = 0 \<and>
        fallback_activated s) \<and>
     unat (consecutive_failures s) < max 1 (unat (trip_threshold cfg)) \<and>
     unat (primary_success_count s) < max 1 (unat (recovery_successes_needed cfg)) \<and>
     (\<forall>e \<in> set (fallback_models s). valid_name (entry_name e) \<and> 1 \<le> entry_max_fail e) \<and>
     (\<forall>n. original_model s = Some n \<longrightarrow> valid_name n)"

definition manager_inv :: "fallback_manager \<Rightarrow> bool" where
  "manager_inv mgr \<longleftrightarrow> breaker_inv (fm_config mgr) (fm_state mgr)"

lemma validated_valid: "validated_model_name name = Inr n \<Longrightarrow> valid_name n"
  by (auto simp: validated_model_name_def valid_name_def Let_def split: if_splits)

lemma inv_default: "breaker_inv cfg default_breaker"
  by (simp add: breaker_inv_def default_breaker_def less_max_iff_disj)

lemma inv_recompute:
  assumes "breaker_inv cfg s" and "\<forall>e \<in> set ms. valid_name (entry_name e) \<and> 1 \<le> entry_max_fail e"
  shows "breaker_inv cfg (recompute_active_fallback (s\<lparr>fallback_models := ms\<rparr>))"
  using assms by (simp add: breaker_inv_def recompute_active_fallback_def)

lemma inv_to_fallback: "breaker_inv cfg s \<Longrightarrow> breaker_inv cfg (transition_to_fallback_impl now s)"
  by (simp add: breaker_inv_def transition_to_fallback_impl_def)

lemma inv_to_recovering: "breaker_inv cfg s \<Longrightarrow> breaker_inv cfg (transition_to_recovering_impl s)"
  by (simp add: breaker_inv_def transition_to_recovering_impl_def)

lemma inv_to_primary: "breaker_inv cfg s \<Longrightarrow> breaker_inv cfg (transition_to_primary_impl s)"
  by (simp add: breaker_inv_def transition_to_primary_impl_def recompute_active_fallback_def
      clear_attempts_def)

lemma inv_failure_count:
  assumes "breaker_inv cfg s" and "br_state s \<noteq> Fallback"
    and "\<not> trip_threshold cfg \<le> sat_add (consecutive_failures s) 1"
  shows "breaker_inv cfg (s\<lparr>consecutive_failures := sat_add (consecutive_failures s) 1\<rparr>)"
  using assms
  by (auto simp: breaker_inv_def sat_add_one_ge unat_sat_add_one_less less_max_iff_disj not_le)

lemma inv_record_failure:
  assumes "breaker_inv cfg s"
  shows "breaker_inv cfg (snd (record_failure_impl cfg now kind s))"
proof -
  have trip: "breaker_inv cfg (transition_to_fallback_impl now (s\<lparr>consecutive_failures := c\<rparr>))"
    "breaker_inv cfg (transition_to_fallback_impl now
       (s\<lparr>primary_success_count := 0, consecutive_failures := c\<rparr>))" for c
    using assms by (simp_all add: breaker_inv_def transition_to_fallback_impl_def)
  have "breaker_inv cfg (s\<lparr>primary_success_count := 0\<rparr>)"
    using assms by (simp add: breaker_inv_def)
  from inv_failure_count [OF this] inv_failure_count [OF assms] assms trip inv_to_fallback [OF assms]
  show ?thesis
    by (auto simp: record_failure_impl_def Let_def split: fallback_state.splits failure_kind.splits)
qed

lemma inv_record_success:
  assumes "breaker_inv cfg s"
  shows "breaker_inv cfg (record_success_impl cfg s)"
proof (cases "br_state s")
  case Recovering
  let ?s = "s\<lparr>consecutive_failures := 0, primary_success_count := sat_add (primary_success_count s) 1\<rparr>"
  have "breaker_inv cfg (transition_to_primary_impl ?s)"
    using assms by (simp add: breaker_inv_def transition_to_primary_impl_def
        recompute_active_fallback_def clear_attempts_def)
  moreover have "breaker_inv cfg ?s"
    if "\<not> recovery_successes_needed cfg \<le> sat_add (primary_success_count s) 1"
    using assms that Recovering
    by (auto simp: breaker_inv_def sat_add_one_ge unat_sat_add_one_less less_max_iff_disj not_le)
  ultimately show ?thesis using Recovering by (auto simp: record_success_impl_def Let_def)
qed (use assms in \<open>auto simp: record_success_impl_def breaker_inv_def less_max_iff_disj\<close>)

subsection \<open>Every operation keeps it\<close>

datatype fallback_op =
    OpSetOriginal string
  | OpSetModel string
  | OpAddModel string
  | OpInsertModel nat string
  | OpRemoveModel string
  | OpSetModels "string list"
  | OpMarkFailed string
  | OpClearFailed string
  | OpClearAllFailed
  | OpSetAvailable string bool
  | OpFailure instant failure_kind
  | OpSuccess
  | OpResetCounter
  | OpToFallback instant
  | OpToRecovering
  | OpToPrimary
  | OpReset

definition then_state :: "('a \<times> fallback_manager) result \<Rightarrow> fallback_manager result" where
  "then_state r = bind_result r (\<lambda>(_, mgr). Inr mgr)"

fun apply_op :: "fallback_op \<Rightarrow> fallback_manager \<Rightarrow> fallback_manager result" where
  "apply_op (OpSetOriginal n) mgr = then_state (set_original_model n mgr)"
| "apply_op (OpSetModel n) mgr = then_state (set_fallback_model n mgr)"
| "apply_op (OpAddModel n) mgr = then_state (add_fallback_model n mgr)"
| "apply_op (OpInsertModel i n) mgr = then_state (insert_fallback_model i n mgr)"
| "apply_op (OpRemoveModel n) mgr = then_state (remove_fallback_model n mgr)"
| "apply_op (OpSetModels ns) mgr = then_state (set_fallback_models ns mgr)"
| "apply_op (OpMarkFailed n) mgr = then_state (mark_fallback_failed n mgr)"
| "apply_op (OpClearFailed n) mgr = then_state (clear_fallback_failed n mgr)"
| "apply_op OpClearAllFailed mgr = then_state (clear_all_fallback_failed mgr)"
| "apply_op (OpSetAvailable n b) mgr = then_state (set_fallback_available n b mgr)"
| "apply_op (OpFailure now kind) mgr = then_state (record_failure now kind mgr)"
| "apply_op OpSuccess mgr = then_state (record_success mgr)"
| "apply_op OpResetCounter mgr = then_state (reset_failure_counter mgr)"
| "apply_op (OpToFallback now) mgr = then_state (transition_to_fallback now mgr)"
| "apply_op OpToRecovering mgr = then_state (transition_to_recovering mgr)"
| "apply_op OpToPrimary mgr = then_state (transition_to_primary mgr)"
| "apply_op OpReset mgr = then_state (fallback_reset mgr)"

inductive fallback_reachable :: "fallback_manager \<Rightarrow> bool" where
  reach_config: "fallback_reachable (new_with_config cfg)"
| reach_model: "for_model name = Inr mgr \<Longrightarrow> fallback_reachable mgr"
| reach_op: "fallback_reachable mgr \<Longrightarrow> apply_op op mgr = Inr mgr' \<Longrightarrow> fallback_reachable mgr'"

lemma locked_Inr:
  "locked mgr body = Inr (v, mgr') \<longleftrightarrow>
     \<not> poisoned mgr \<and> v = fst (body (fm_state mgr)) \<and> mgr' = mgr\<lparr>fm_state := snd (body (fm_state mgr))\<rparr>"
  by (auto simp: locked_def lock_state_def split: prod.splits)

lemma then_locked:
  "then_state (locked mgr body) = Inr mgr' \<longleftrightarrow>
     \<not> poisoned mgr \<and> mgr' = mgr\<lparr>fm_state := snd (body (fm_state mgr))\<rparr>"
  by (auto simp: locked_def lock_state_def then_state_def split: prod.splits)

lemma then_validated:
  "then_state (bind_result r f) = Inr mgr' \<longleftrightarrow> (\<exists>n. r = Inr n \<and> then_state (f n) = Inr mgr')"
  by (auto simp: then_state_def bind_result_def split: sum.splits)

lemmas op_defs = set_original_model_def set_fallback_model_def add_fallback_model_def
  insert_fallback_model_def remove_fallback_model_def set_fallback_models_def mark_fallback_failed_def
  clear_fallback_failed_def clear_all_fallback_failed_def set_fallback_available_def record_failure_def
  record_success_def reset_failure_counter_def transition_to_fallback_def transition_to_recovering_def
  transition_to_primary_def fallback_reset_def

definition entry_ok :: "fallback_entry \<Rightarrow> bool" where
  "entry_ok e \<longleftrightarrow> valid_name (entry_name e) \<and> 1 \<le> entry_max_fail e"

lemma inv_entries: "breaker_inv cfg s \<Longrightarrow> e \<in> set (fallback_models s) \<Longrightarrow> entry_ok e"
  by (simp add: breaker_inv_def entry_ok_def)

lemma inv_new_chain:
  "breaker_inv cfg s \<Longrightarrow> (\<And>e. e \<in> set ms \<Longrightarrow> entry_ok e) \<Longrightarrow>
   breaker_inv cfg (recompute_active_fallback (s\<lparr>fallback_models := ms\<rparr>))"
  by (rule inv_recompute) (auto simp: entry_ok_def)

lemma entry_ok_ops [intro]:
  "entry_ok e \<Longrightarrow> entry_ok (record_attempt e)" "entry_ok e \<Longrightarrow> entry_ok (clear_attempts e)"
  "entry_ok e \<Longrightarrow> entry_ok (set_available b e)"
  by (simp_all add: entry_ok_def record_attempt_def clear_attempts_def set_available_def)

lemma entry_ok_chain: "valid_name n \<Longrightarrow> entry_ok (chain_entry mgr n)"
  by (simp add: entry_ok_def chain_entry_def with_max_fail_count_def new_entry_def Let_def)

lemma inv_change_entry:
  assumes "breaker_inv cfg s" and "\<And>e. entry_ok e \<Longrightarrow> entry_ok (f e)"
  shows "breaker_inv cfg (snd (change_entry model f s))"
proof -
  have "\<forall>e \<in> set (update_first (\<lambda>e. entry_name e = model) f (fallback_models s)). entry_ok e"
    by (rule update_first_Ball) (use assms inv_entries in auto)
  then show ?thesis
    using assms(1) by (auto simp: change_entry_def intro!: inv_new_chain)
qed

lemma collected_valid:
  assumes "collect_results (map validated_model_name ms) = Inr ns" and "n \<in> set ns"
  shows "valid_name n"
proof -
  have "map validated_model_name ms = map Inr ns" using assms(1) by (simp add: collect_results_Inr)
  then have "Inr n \<in> set (map validated_model_name ms)" using assms(2) by simp
  then show ?thesis by (auto intro: validated_valid)
qed

lemma inv_names:
  "breaker_inv cfg s \<Longrightarrow> valid_name n \<Longrightarrow> breaker_inv cfg (s\<lparr>original_model := Some n\<rparr>)"
  "breaker_inv cfg s \<Longrightarrow> breaker_inv cfg (s\<lparr>consecutive_failures := 0\<rparr>)"
  by (simp_all add: breaker_inv_def less_max_iff_disj)

lemma inv_insert_model:
  assumes "breaker_inv cfg s" and "entry_ok e"
  shows "breaker_inv cfg (recompute_active_fallback (s\<lparr>fallback_models := fallback_models s @ [e]\<rparr>))"
    and "breaker_inv cfg (recompute_active_fallback
           (s\<lparr>fallback_models := take i (fallback_models s) @ e # drop i (fallback_models s)\<rparr>))"
    and "breaker_inv cfg (recompute_active_fallback
           (s\<lparr>fallback_models := take i (fallback_models s) @ drop j (fallback_models s)\<rparr>))"
  by (rule inv_new_chain [OF assms(1)],
      use assms inv_entries in \<open>auto dest: in_set_takeD in_set_dropD\<close>)+

lemma inv_set_chain:
  assumes "breaker_inv cfg s"
  shows "valid_name n \<Longrightarrow> breaker_inv cfg (recompute_active_fallback (s\<lparr>fallback_models := [chain_entry mgr n]\<rparr>))"
    and "\<forall>n \<in> set ns. valid_name n \<Longrightarrow>
      breaker_inv cfg (recompute_active_fallback (s\<lparr>fallback_models := map (chain_entry mgr) ns\<rparr>))"
    and "breaker_inv cfg (recompute_active_fallback
      (s\<lparr>fallback_models := map clear_attempts (fallback_models s)\<rparr>))"
  by (rule inv_new_chain [OF assms], use assms inv_entries in \<open>auto simp: entry_ok_chain\<close>)+

lemma inv_remove_model:
  assumes "breaker_inv cfg s"
  shows "breaker_inv cfg (recompute_active_fallback
    (s\<lparr>fallback_models := take i (fallback_models s) @ drop j (fallback_models s)\<rparr>))"
  by (rule inv_new_chain [OF assms]) (use assms inv_entries in \<open>auto dest: in_set_takeD in_set_dropD\<close>)

lemma manager_inv_locked:
  assumes "then_state (locked mgr body) = Inr mgr'"
    and "\<not> poisoned mgr \<Longrightarrow> breaker_inv (fm_config mgr) (snd (body (fm_state mgr)))"
  shows "manager_inv mgr' \<and> fm_config mgr' = fm_config mgr"
  using assms by (auto simp: then_locked manager_inv_def)

lemma manager_inv_op:
  assumes inv: "manager_inv mgr" and op: "apply_op op mgr = Inr mgr'"
  shows "manager_inv mgr' \<and> fm_config mgr' = fm_config mgr"
proof -
  have s: "breaker_inv (fm_config mgr) (fm_state mgr)" using inv by (simp add: manager_inv_def)
  note rules = manager_inv_locked inv_names inv_set_chain inv_insert_model inv_remove_model
    inv_change_entry inv_to_fallback inv_to_recovering inv_to_primary
  show ?thesis
    using op s
    by (cases op)
       (auto simp: op_defs then_validated Let_def inv_record_failure inv_record_success
          entry_ok_chain entry_ok_ops
          dest!: validated_valid elim!: manager_inv_locked intro!: rules(2-)
          dest: collected_valid split: option.splits)
qed

lemma reachable_inv: "fallback_reachable mgr \<Longrightarrow> manager_inv mgr"
proof (induction rule: fallback_reachable.induct)
  case (reach_config cfg)
  show ?case by (simp add: new_with_config_def manager_inv_def inv_default)
next
  case (reach_model name mgr)
  then obtain n where "validated_model_name name = Inr n"
    and "mgr = (new_manager 3 2)\<lparr>fm_state := (fm_state (new_manager 3 2))\<lparr>original_model := Some n\<rparr>\<rparr>"
    by (auto simp: for_model_def bind_result_Inr Let_def lock_state_def new_manager_def)
  then show ?case
    by (auto simp: manager_inv_def new_manager_def inv_default intro!: inv_names dest!: validated_valid)
next
  case (reach_op mgr op mgr')
  then show ?case using manager_inv_op by blast
qed

section \<open>The chain under failing turns\<close>

text \<open>How many more failed turns a chain can take before every entry has failed.\<close>

definition attempts_left :: "fallback_entry \<Rightarrow> nat" where
  "attempts_left e = (if failed e then 0 else unat (entry_max_fail e) - unat (attempt_count e))"

definition remaining :: "fallback_entry list \<Rightarrow> nat" where
  "remaining es = sum_list (map attempts_left es)"

lemma attempts_left_record:
  assumes "\<not> failed e"
  shows "Suc (attempts_left (record_attempt e)) = attempts_left e"
proof -
  from assms have less: "attempt_count e < entry_max_fail e" and "available e"
    by (auto simp: failed_def)
  moreover from less have "unat (sat_add (attempt_count e) 1) = Suc (unat (attempt_count e))"
    by (rule sat_add_one)
  ultimately show ?thesis
    by (auto simp: attempts_left_def failed_def record_attempt_def word_less_nat_alt word_le_nat_alt)
qed

lemma remaining_mark:
  "find (\<lambda>e. \<not> failed e) es = Some e \<Longrightarrow> distinct (map entry_name es) \<Longrightarrow>
   Suc (remaining (update_first (\<lambda>x. entry_name x = entry_name e) record_attempt es)) = remaining es"
proof (induction es)
  case (Cons x es)
  show ?case
  proof (cases "failed x")
    case False
    with Cons.prems have "e = x" by simp
    with attempts_left_record [OF False] show ?thesis by (simp add: remaining_def)
  next
    case True
    with Cons.prems have e: "find (\<lambda>e. \<not> failed e) es = Some e" by simp
    then have "e \<in> set es" by (auto simp: find_Some_iff)
    with Cons.prems(2) have "entry_name x \<noteq> entry_name e" by (auto simp: image_iff)
    with Cons.IH [OF e] Cons.prems(2) show ?thesis by (simp add: remaining_def)
  qed
qed simp

lemma attempts_left_zero: "attempts_left e = 0 \<longleftrightarrow> failed e"
  by (auto simp: attempts_left_def failed_def word_le_nat_alt)

lemma remaining_zero: "remaining es = 0 \<longleftrightarrow> (\<forall>e \<in> set es. failed e)"
  by (simp add: remaining_def attempts_left_zero)

lemma entry_name_attempt [simp]: "entry_name (record_attempt e) = entry_name e"
  by (simp add: record_attempt_def)

definition turn_fails :: "string \<Rightarrow> instant \<times> loop_error \<Rightarrow> fallback_manager \<Rightarrow> fallback_manager" where
  "turn_fails client_model x mgr = snd (record_turn_failure client_model (fst x) (snd x) mgr)"

text \<open>A failed turn on an open circuit charges the active entry and nothing else.\<close>

lemma failure_on_open:
  assumes "br_state (fm_state mgr) = Fallback" and "\<not> poisoned mgr" and "e \<noteq> ErrCancelled"
  shows "record_turn_failure client_model now e mgr =
    (e, case active_fallback (fm_state mgr) of
          None \<Rightarrow> mgr
        | Some a \<Rightarrow> mgr\<lparr>fm_state := snd (change_entry a record_attempt (fm_state mgr))\<rparr>)"
proof -
  have kind: "(case e of RateLimitEscalation _ _ \<Rightarrow> record_failure now RateLimitFailure mgr
      | _ \<Rightarrow> record_failure now Transient mgr) = Inr (False, mgr)"
    using assms by (cases e) (simp_all add: record_failure_def locked_def lock_state_def
        record_failure_impl_def)
  have phase: "get_state mgr = Inr Fallback" "fallback_model mgr = Inr (active_fallback (fm_state mgr))"
    "active_model mgr = Inr (active_fallback (fm_state mgr))"
    using assms by (simp_all add: get_state_def fallback_model_def active_model_def lock_state_def)
  have mark: "mark_fallback_failed a mgr =
      Inr (fst (change_entry a record_attempt (fm_state mgr)),
        mgr\<lparr>fm_state := snd (change_entry a record_attempt (fm_state mgr))\<rparr>)" for a
    using assms by (simp add: mark_fallback_failed_def locked_Inr)
  show ?thesis
    using assms(3)
    by (simp add: record_turn_failure_def record_turn_failure_inner_def routed_or_client_model_def
        routed_model_def phase kind mark split: option.splits)
qed

lemma change_entry_simps [simp]:
  "br_state (snd (change_entry a f s)) = br_state s"
  "(\<And>e. entry_name (f e) = entry_name e) \<Longrightarrow>
     map entry_name (fallback_models (snd (change_entry a f s))) = map entry_name (fallback_models s)"
  by (simp_all add: change_entry_def recompute_active_fallback_def map_update_first)

definition open_chain :: "fallback_manager \<Rightarrow> bool" where
  "open_chain mgr \<longleftrightarrow> manager_inv mgr \<and> \<not> poisoned mgr \<and> br_state (fm_state mgr) = Fallback \<and>
     distinct (map entry_name (fallback_models (fm_state mgr)))"

lemma active_first:
  "manager_inv mgr \<Longrightarrow> active_fallback (fm_state mgr) =
     map_option entry_name (find (\<lambda>e. \<not> failed e) (fallback_models (fm_state mgr)))"
  by (simp add: manager_inv_def breaker_inv_def)

lemma active_None:
  "manager_inv mgr \<Longrightarrow> active_fallback (fm_state mgr) = None \<longleftrightarrow>
     remaining (fallback_models (fm_state mgr)) = 0"
  by (simp add: active_first remaining_zero find_None_iff Ball_def)

lemma open_failure_step:
  assumes "open_chain mgr" and "snd x \<noteq> ErrCancelled"
  shows "open_chain (turn_fails c x mgr) \<and>
    remaining (fallback_models (fm_state (turn_fails c x mgr))) =
      remaining (fallback_models (fm_state mgr)) - 1"
proof -
  from assms(1) have mgr: "manager_inv mgr" "\<not> poisoned mgr" "br_state (fm_state mgr) = Fallback"
    and dist: "distinct (map entry_name (fallback_models (fm_state mgr)))"
    by (auto simp: open_chain_def)
  note turn = failure_on_open [OF mgr(3) mgr(2) assms(2), of c "fst x"]
  show ?thesis
  proof (cases "find (\<lambda>e. \<not> failed e) (fallback_models (fm_state mgr))")
    case None
    with mgr(1) have none: "active_fallback (fm_state mgr) = None" by (simp add: active_first)
    then have "turn_fails c x mgr = mgr" using turn by (simp add: turn_fails_def)
    with none assms(1) mgr(1) show ?thesis by (simp add: active_None)
  next
    case (Some e)
    with mgr(1) have active: "active_fallback (fm_state mgr) = Some (entry_name e)"
      by (simp add: active_first)
    let ?s = "snd (change_entry (entry_name e) record_attempt (fm_state mgr))"
    have m': "turn_fails c x mgr = mgr\<lparr>fm_state := ?s\<rparr>"
      using turn active by (simp add: turn_fails_def)
    have "e \<in> set (fallback_models (fm_state mgr))" using Some by (auto simp: find_Some_iff)
    then have "fallback_models ?s =
        update_first (\<lambda>x. entry_name x = entry_name e) record_attempt (fallback_models (fm_state mgr))"
      by (auto simp: change_entry_def recompute_active_fallback_def)
    with remaining_mark [OF Some dist] have "Suc (remaining (fallback_models ?s)) =
        remaining (fallback_models (fm_state mgr))" by simp
    moreover have "breaker_inv (fm_config mgr) ?s"
      by (rule inv_change_entry) (use mgr(1) in \<open>auto simp: manager_inv_def\<close>)
    ultimately show ?thesis
      using mgr dist by (simp add: m' open_chain_def manager_inv_def)
  qed
qed

lemma open_failures:
  "open_chain mgr \<Longrightarrow> \<forall>x \<in> set xs. snd x \<noteq> ErrCancelled \<Longrightarrow>
   open_chain (fold (turn_fails c) xs mgr) \<and>
   remaining (fallback_models (fm_state (fold (turn_fails c) xs mgr))) =
     remaining (fallback_models (fm_state mgr)) - length xs"
proof (induction xs arbitrary: mgr)
  case (Cons x xs)
  with open_failure_step [of mgr x c] Cons.IH [of "turn_fails c x mgr"] show ?case by simp
qed simp

lemma active_model_eq:
  "\<not> poisoned mgr \<Longrightarrow> active_model mgr =
     Inr (if br_state (fm_state mgr) = Fallback then active_fallback (fm_state mgr)
          else original_model (fm_state mgr))"
  by (cases "br_state (fm_state mgr)") (simp_all add: active_model_def lock_state_def)

section \<open>Properties of the breaker\<close>


lemma trim_letter: "trim ''b'' = ''b''" "trim ''c'' = ''c''"
  by (simp_all add: trim_def utf8_whitespace_def strip_with.simps upt_rec char_of_eq_iff)

definition two_models :: fallback_manager where
  "two_models =
     (new_manager 1 1)\<lparr>fm_state := default_breaker\<lparr>br_state := Fallback, fallback_activated := True,
        fallback_switched_at := Some 5, active_fallback := Some ''b'',
        fallback_models := [chain_entry (new_manager 1 1) ''b'', chain_entry (new_manager 1 1) ''c'']\<rparr>\<rparr>"

lemma chain_entry_fresh: "\<not> failed (chain_entry mgr n)" "entry_name (chain_entry mgr n) = n"
  by (simp_all add: chain_entry_def with_max_fail_count_def new_entry_def failed_def Let_def
      max_def word_le_nat_alt word_less_nat_alt)

lemma two_models_reached:
  "apply_op (OpSetModels [''b'', ''c'']) (new_with_config (fm_config (new_manager 1 1))) =
     Inr ((new_manager 1 1)\<lparr>fm_state := default_breaker\<lparr>active_fallback := Some ''b'',
        fallback_models := [chain_entry (new_manager 1 1) ''b'', chain_entry (new_manager 1 1) ''c'']\<rparr>\<rparr>)"
  by (simp add: op_defs then_validated then_locked validated_model_name_def trim_letter
      new_with_config_def new_manager_def recompute_active_fallback_def chain_entry_fresh)

lemma two_models_reachable: "fallback_reachable two_models"
proof -
  note reach = reach_op [OF reach_config two_models_reached]
  show ?thesis
    by (rule reach_op [OF reach, of "OpToFallback 5"])
       (simp add: op_defs then_locked two_models_def transition_to_fallback_impl_def new_manager_def
          default_breaker_def chain_entry_def)
qed

lemma two_models_simps [simp]:
  "\<not> poisoned two_models" "br_state (fm_state two_models) = Fallback"
  "map entry_name (fallback_models (fm_state two_models)) = [''b'', ''c'']"
  by (simp_all add: two_models_def new_manager_def chain_entry_fresh)


definition record_failures ::
  "(instant \<times> failure_kind) list \<Rightarrow> fallback_manager \<Rightarrow> fallback_manager result" where
  "record_failures ks mgr =
     fold (\<lambda>(now, kind) r. bind_result r (\<lambda>m. then_state (record_failure now kind m))) ks (Inr mgr)"

definition record_successes :: "nat \<Rightarrow> fallback_manager \<Rightarrow> fallback_manager result" where
  "record_successes n mgr =
     ((\<lambda>r. bind_result r (\<lambda>m. then_state (record_success m))) ^^ n) (Inr mgr)"

lemma then_locked_Inr:
  "\<not> poisoned mgr \<Longrightarrow> then_state (locked mgr body) = Inr (mgr\<lparr>fm_state := snd (body (fm_state mgr))\<rparr>)"
  by (simp add: then_locked)

lemma record_failures_state:
  "\<not> poisoned mgr \<Longrightarrow> record_failures ks mgr =
     Inr (mgr\<lparr>fm_state := fold (\<lambda>(now, kind) s. snd (record_failure_impl (fm_config mgr) now kind s)) ks
            (fm_state mgr)\<rparr>)"
proof (induction ks arbitrary: mgr)
  case Nil
  show ?case by (simp add: record_failures_def)
next
  case (Cons k ks)
  let ?m = "mgr\<lparr>fm_state := snd (record_failure_impl (fm_config mgr) (fst k) (snd k) (fm_state mgr))\<rparr>"
  have "record_failures (k # ks) mgr = record_failures ks ?m"
    using Cons.prems
    by (simp add: record_failures_def record_failure_def then_locked_Inr case_prod_beta)
  also have "\<dots> = Inr (?m\<lparr>fm_state := fold (\<lambda>(now, kind) s. snd (record_failure_impl (fm_config ?m) now kind s))
      ks (fm_state ?m)\<rparr>)"
    by (rule Cons.IH) (simp add: Cons.prems)
  finally show ?case by (simp add: case_prod_beta [abs_def])
qed

lemma record_successes_state:
  "\<not> poisoned mgr \<Longrightarrow> record_successes n mgr =
     Inr (mgr\<lparr>fm_state := (record_success_impl (fm_config mgr) ^^ n) (fm_state mgr)\<rparr>)"
  by (induction n) (simp_all add: record_successes_def record_success_def then_locked_Inr)

text \<open>
  On a closed circuit, a sequence of failures of any kinds opens it exactly when the failures
  since the last success reach the trip threshold, a threshold of zero counting as one; an open
  circuit has a cleared counter, and the switch time is that of a failure of the sequence.
\<close>

theorem failures_trip_at_threshold:
  assumes "\<not> poisoned mgr" and "br_state (fm_state mgr) = Primary" and "ks \<noteq> []"
  shows "\<exists>mgr'. record_failures ks mgr = Inr mgr' \<and>
    br_state (fm_state mgr') =
      (if unat (consecutive_failures (fm_state mgr)) + length ks < unat (trip_threshold (fm_config mgr))
       then Primary else Fallback)"
  using breaker.trips_exactly [OF assms(2,3), of "fm_config mgr"] record_failures_state [OF assms(1), of ks]
  by (simp split: if_splits)

theorem failures_trip_at_threshold_witness:
  "\<exists>mgr'. record_failures [(1, Transient), (2, RateLimitFailure)] (new_manager 2 1) = Inr mgr' \<and>
     br_state (fm_state mgr') = Fallback"
  using failures_trip_at_threshold [of "new_manager 2 1" "[(1, Transient), (2, RateLimitFailure)]"]
  by (simp add: new_manager_def default_breaker_def)

text \<open>
  A half-open circuit closes after exactly as many successes as are still missing to the
  configured number, at least one; one success fewer leaves it half-open, and a closed circuit
  stays closed under further successes.
\<close>

theorem successes_close_at_threshold:
  assumes "\<not> poisoned mgr" and "br_state (fm_state mgr) = Recovering" and "0 < n"
  shows "\<exists>mgr'. record_successes n mgr = Inr mgr' \<and>
    br_state (fm_state mgr') =
      (if unat (primary_success_count (fm_state mgr)) + n < unat (recovery_successes_needed (fm_config mgr))
       then Recovering else Primary)"
  using breaker.closes_exactly [OF assms(2,3), of "fm_config mgr"] record_successes_state [OF assms(1), of n]
  by (simp split: if_splits)

theorem successes_close_at_threshold_witness:
  "\<exists>mgr'. record_successes 2 (two_models\<lparr>fm_state := transition_to_recovering_impl (fm_state two_models)\<rparr>)
     = Inr mgr' \<and> br_state (fm_state mgr') = Primary"
  using successes_close_at_threshold
    [of "two_models\<lparr>fm_state := transition_to_recovering_impl (fm_state two_models)\<rparr>" 2]
  by (simp add: transition_to_recovering_impl_def two_models_def new_manager_def default_breaker_def)

text \<open>
  In a reachable state a turn is refused exactly when the circuit is open, its cooldown is
  not over and no model of the chain is available; it probes the primary exactly when the
  cooldown of an open circuit is over; and it changes nothing otherwise.
\<close>

theorem turn_routing_refusal:
  assumes "fallback_reachable mgr" and "\<not> poisoned mgr"
  shows "\<exists>at. (br_state (fm_state mgr) = Fallback \<longrightarrow> fallback_switched_at (fm_state mgr) = Some at) \<and>
    route_turn now mgr =
      (if br_state (fm_state mgr) \<noteq> Fallback then Inr ((), mgr)
       else if recovery_timeout (fm_config mgr) \<le> now - at
       then Inr ((), mgr\<lparr>fm_state := transition_to_recovering_impl (fm_state mgr)\<rparr>)
       else if \<forall>e \<in> set (fallback_models (fm_state mgr)). failed e then Inl FallbackExhausted
       else Inr ((), mgr))"
proof -
  have inv: "manager_inv mgr" using assms(1) by (rule reachable_inv)
  show ?thesis
  proof (cases "br_state (fm_state mgr) = Fallback")
    case False
    then show ?thesis
      using assms(2) by (auto simp: route_turn_def should_try_resume_primary_def
          should_try_resume_primary_impl_def lock_state_def get_state_def)
  next
    case True
    with inv obtain at where at: "fallback_switched_at (fm_state mgr) = Some at"
      by (auto simp: manager_inv_def breaker_inv_def)
    have none: "active_fallback (fm_state mgr) = None \<longleftrightarrow>
        (\<forall>e \<in> set (fallback_models (fm_state mgr)). failed e)"
      using inv by (simp add: active_None remaining_zero)
    have resume: "should_try_resume_primary now (recovery_timeout (fm_config mgr)) mgr =
        Inr (recovery_timeout (fm_config mgr) \<le> now - at)"
      using True at assms(2) by (simp add: should_try_resume_primary_def
          should_try_resume_primary_impl_def lock_state_def)
    have probe: "transition_to_recovering mgr =
        Inr ((), mgr\<lparr>fm_state := transition_to_recovering_impl (fm_state mgr)\<rparr>)"
      using assms(2) by (simp add: transition_to_recovering_def locked_Inr)
    have state: "get_state m = Inr (br_state (fm_state m))" if "\<not> poisoned m" for m
      using that by (simp add: get_state_def lock_state_def)
    from True at none resume probe assms(2) show ?thesis
      by (auto simp: route_turn_def state active_model_eq)
  qed
qed

theorem turn_routing_refusal_witness:
  "route_turn 6 two_models = Inr ((), two_models)"
proof -
  have "fallback_switched_at (fm_state two_models) = Some 5"
    "recovery_timeout (fm_config two_models) = 60 * 10 ^ 9"
    "\<not> (\<forall>e \<in> set (fallback_models (fm_state two_models)). failed e)"
    by (simp_all add: two_models_def new_manager_def default_config_def chain_entry_fresh)
  with turn_routing_refusal [OF two_models_reachable, of 6] show ?thesis by auto
qed

text \<open>
  C22: on an open circuit with distinct chain names, every failed turn charges one attempt, so
  after as many failed turns as the chain has attempts left no model is active, and before that
  one is: the chain is always exhausted, and never early.
\<close>

theorem failing_turns_exhaust_chain:
  assumes "fallback_reachable mgr" and "\<not> poisoned mgr" and "br_state (fm_state mgr) = Fallback"
    and "distinct (map entry_name (fallback_models (fm_state mgr)))"
    and "\<forall>x \<in> set xs. snd x \<noteq> ErrCancelled"
  shows "active_model (fold (turn_fails client_model) xs mgr) = Inr None \<longleftrightarrow>
    remaining (fallback_models (fm_state mgr)) \<le> length xs"
proof -
  have "open_chain mgr" using assms reachable_inv by (auto simp: open_chain_def)
  from open_failures [OF this assms(5), of client_model] show ?thesis
    by (simp add: active_model_eq open_chain_def active_None)
qed

lemma two_models_remaining: "remaining (fallback_models (fm_state two_models)) = 4"
  by (simp add: two_models_def remaining_def attempts_left_def chain_entry_fresh)
     (simp add: chain_entry_def with_max_fail_count_def new_entry_def new_manager_def
        default_config_def failed_def Let_def max_def word_le_nat_alt)

theorem failing_turns_exhaust_chain_witness:
  "active_model (fold (turn_fails ''m'') (replicate 4 (9, Api ''down'')) two_models) = Inr None"
  using failing_turns_exhaust_chain [OF two_models_reachable, of "replicate 4 (9, Api ''down'')" "''m''"]
  by (simp add: two_models_remaining)

definition twice_b :: fallback_manager where
  "twice_b = two_models\<lparr>fm_state := (fm_state two_models)\<lparr>fallback_models :=
     [record_attempt (record_attempt (chain_entry (new_manager 1 1) ''b'')),
      chain_entry (new_manager 1 1) ''b'']\<rparr>\<rparr>"

text \<open>A manager whose chain names one model twice, its first entry already failed.\<close>

definition stuck :: "fallback_manager \<Rightarrow> bool" where
  "stuck mgr \<longleftrightarrow> \<not> poisoned mgr \<and> br_state (fm_state mgr) = Fallback \<and>
     active_fallback (fm_state mgr) = Some ''b'' \<and>
     (\<exists>e e'. fallback_models (fm_state mgr) = [e, e'] \<and> entry_name e = ''b'' \<and> entry_name e' = ''b'' \<and>
        failed e \<and> \<not> failed e')"

lemma failed_record_attempt: "failed e \<Longrightarrow> failed (record_attempt e)"
  using le_sat_add [of "attempt_count e" 1] by (auto simp: failed_def record_attempt_def)

lemma stuck_step: "stuck mgr \<Longrightarrow> snd x \<noteq> ErrCancelled \<Longrightarrow> stuck (turn_fails c x mgr)"
  using failure_on_open [of mgr "snd x" c "fst x"]
  by (auto simp: stuck_def turn_fails_def change_entry_def recompute_active_fallback_def
      failed_record_attempt)

lemma stuck_forever: "stuck mgr \<Longrightarrow> \<forall>x \<in> set xs. snd x \<noteq> ErrCancelled \<Longrightarrow> stuck (fold (turn_fails c) xs mgr)"
  by (induction xs arbitrary: mgr) (simp_all add: stuck_step)

text \<open>
  The distinct names above are needed. When a chain names a model twice and the first of the
  two entries has failed while the second is the active one, failed turns are charged to the
  first forever: however many turns fail, the same model stays active and the chain is never
  exhausted.
\<close>

theorem duplicate_name_never_exhausts:
  assumes "\<not> poisoned mgr" and "br_state (fm_state mgr) = Fallback"
    and "fallback_models (fm_state mgr) = [e, e']" and "entry_name e = ''b''" and "entry_name e' = ''b''"
    and "failed e" and "\<not> failed e'" and "active_fallback (fm_state mgr) = Some ''b''"
    and "\<forall>x \<in> set xs. snd x \<noteq> ErrCancelled"
  shows "active_model (fold (turn_fails client_model) xs mgr) = Inr (Some ''b'')"
proof -
  have "stuck mgr" using assms by (auto simp: stuck_def)
  from stuck_forever [OF this assms(9), of client_model] show ?thesis
    by (auto simp: stuck_def active_model_eq)
qed

lemma failed_twice: "failed (record_attempt (record_attempt (chain_entry (new_manager 1 1) n)))"
  by (simp add: chain_entry_def with_max_fail_count_def new_entry_def new_manager_def record_attempt_def
      default_config_def failed_def Let_def max_def word_le_nat_alt unat_sat_add)

theorem duplicate_name_never_exhausts_witness:
  "active_model (fold (turn_fails ''m'') (replicate 100 (9, Api ''down'')) twice_b) = Inr (Some ''b'')"
  by (rule duplicate_name_never_exhausts
        [where e = "record_attempt (record_attempt (chain_entry (new_manager 1 1) ''b''))"
           and e' = "chain_entry (new_manager 1 1) ''b''"])
     (simp_all add: twice_b_def failed_twice chain_entry_fresh, simp add: two_models_def)

lemma locked_poisoned: "poisoned mgr \<Longrightarrow> locked mgr body = Inl (LockPoisoned ''fallback'')"
  by (simp add: locked_def lock_state_def from_poison_def)

lemma lock_poisoned: "poisoned mgr \<Longrightarrow> lock_state mgr = Inl (LockPoisoned ''fallback'')"
  by (simp add: lock_state_def from_poison_def)

lemma validated_error: "validated_model_name n = Inl err \<Longrightarrow> \<exists>s. err = ConfigError s"
  by (auto simp: validated_model_name_def Let_def split: if_splits)

lemma collected_error: "collect_results (map validated_model_name ns) = Inl err \<Longrightarrow> \<exists>s. err = ConfigError s"
proof (induction ns)
  case (Cons n ns)
  then show ?case
    by (cases "validated_model_name n") (auto dest: validated_error split: sum.splits)
qed simp

lemma bind_poisoned:
  assumes "\<And>err. r = Inl err \<Longrightarrow> \<exists>s. err = ConfigError s"
  shows "\<exists>err. then_state (bind_result r (\<lambda>n. Inl (LockPoisoned ''fallback''))) = Inl err \<and>
    (err = LockPoisoned ''fallback'' \<or> (\<exists>s. err = ConfigError s))"
  using assms by (cases r) (auto simp: then_state_def)

lemma op_poisoned:
  assumes "poisoned mgr"
  shows "\<exists>err. apply_op op mgr = Inl err \<and> (err = LockPoisoned ''fallback'' \<or> (\<exists>s. err = ConfigError s))"
  using assms
  by (cases op)
     (auto simp: op_defs locked_poisoned then_state_def [of "Inl e" for e]
        intro!: bind_poisoned intro: validated_error collected_error)

text \<open>
  After a panic under the lock, no operation of the manager answers from its state: every
  one reports the poisoned lock, or the name it rejected first, a failed turn propagates the
  poisoning instead of the turn's own error, and no request is routed.
\<close>

theorem poisoned_manager_refuses:
  assumes "poisoned mgr" and "e \<noteq> ErrCancelled"
  shows "(\<exists>err. apply_op op mgr = Inl err \<and> (err = LockPoisoned ''fallback'' \<or> (\<exists>s. err = ConfigError s))) \<and>
    active_model mgr = Inl (LockPoisoned ''fallback'') \<and>
    route_turn now mgr = Inl (LockPoisoned ''fallback'') \<and>
    record_turn_failure client_model now e mgr = (LockPoisoned ''fallback'', mgr) \<and>
    record_turn_success client_model mgr = Inl (LockPoisoned ''fallback'')"
  using assms
  by (simp add: op_poisoned active_model_def route_turn_def should_try_resume_primary_def
      record_turn_failure_def record_turn_failure_inner_def record_turn_success_def
      routed_or_client_model_def routed_model_def get_state_def lock_poisoned)

theorem poisoned_manager_refuses_witness:
  "route_turn 3 (two_models\<lparr>poisoned := True\<rparr>) = Inl (LockPoisoned ''fallback'')"
  using poisoned_manager_refuses [of "two_models\<lparr>poisoned := True\<rparr>" "Api ''down''"] by simp

end
