(* ===== verification/Loop_Detector.thy ===== *)
theory Loop_Detector
  imports Prelude "HOL-Library.Multiset"
begin

section \<open>Repetition detection\<close>

text \<open>
  src/src/detection/loop\_detector.rs: operations, the tool signature a host supplies, and
  every operation of \<open>LoopDetector\<close>. The detector is a record; each of its three mutexes has a
  poison flag, and a method that finds one poisoned skips that part, as the code does. The JSON
  input of a tool comes from the serde\_json package and is the type parameter \<open>'v\<close>. A
  \<open>HashMap\<close> is iterated in an unspecified order: the iteration of the counts is the parameter
  \<open>iter\<close>, which only permutes them (\<open>iteration_order\<close>). The standard library's hasher is the
  parameter of \<open>hash_result\<close>.
\<close>

subsection \<open>Data\<close>

record operation =
  op_tool :: string
  primary_param :: string
  result_hash :: "u64 option"

record 'v tool_signature =
  extract_primary_param :: "string \<Rightarrow> 'v \<Rightarrow> string"
  is_recoverable_error :: "string \<Rightarrow> string \<Rightarrow> bool"
  get_suggestion :: "string \<Rightarrow> string option"
  file_path_for_reset :: "string \<Rightarrow> 'v \<Rightarrow> string option"
  is_file_read_tool :: "string \<Rightarrow> bool"
  is_file_edit_tool :: "string \<Rightarrow> bool"
  signature_thresholds :: "string \<rightharpoonup> usize"
  normalize_param_for_comparison :: "string \<Rightarrow> string \<Rightarrow> string"

text \<open>The trait's default methods, which \<open>NoOpToolSignature\<close> takes over unchanged.\<close>

definition no_op_tool_signature :: "'v tool_signature" where
  "no_op_tool_signature =
     \<lparr>extract_primary_param = (\<lambda>tool input. ''''), is_recoverable_error = (\<lambda>tool err. False),
      get_suggestion = (\<lambda>tool. None), file_path_for_reset = (\<lambda>tool input. None),
      is_file_read_tool = (\<lambda>tool. False), is_file_edit_tool = (\<lambda>tool. False),
      signature_thresholds = Map.empty, normalize_param_for_comparison = (\<lambda>tool param. param)\<rparr>"

record detector_config =
  window_size :: usize
  repetition_threshold :: usize
  max_tools_per_turn :: usize
  max_same_file_reads :: usize
  stop_threshold :: usize
  tool_thresholds :: "string \<rightharpoonup> usize"

definition default_detector_config :: detector_config where
  "default_detector_config =
     \<lparr>window_size = 50, repetition_threshold = 3, max_tools_per_turn = 9999,
      max_same_file_reads = 5, stop_threshold = 10, tool_thresholds = Map.empty\<rparr>"

definition threshold_for_tool :: "detector_config \<Rightarrow> string \<Rightarrow> usize" where
  "threshold_for_tool cfg tool =
     (case tool_thresholds cfg tool of Some t \<Rightarrow> t | None \<Rightarrow> repetition_threshold cfg)"

record loop_status =
  is_looping :: bool
  repeated_operations :: "operation list"
  repetition_count :: usize
  status_warning :: "string option"
  should_stop :: bool

definition default_status :: loop_status where
  "default_status = \<lparr>is_looping = False, repeated_operations = [], repetition_count = 0,
     status_warning = None, should_stop = False\<rparr>"

record 'v loop_detector =
  operations :: "operation list"
  ld_config :: detector_config
  turn_count :: usize
  warned_operations :: "operation set"
  ld_signature :: "'v tool_signature"
  operations_poisoned :: bool
  count_poisoned :: bool
  warned_poisoned :: bool

subsection \<open>Operations\<close>

definition new_operation :: "string \<Rightarrow> string \<Rightarrow> operation" where
  "new_operation tool param = \<lparr>op_tool = tool, primary_param = param, result_hash = None\<rparr>"

definition from_input_with_signature :: "string \<Rightarrow> 'v \<Rightarrow> 'v tool_signature \<Rightarrow> operation" where
  "from_input_with_signature tool input sig =
     new_operation tool (extract_primary_param sig tool input)"

definition from_input_with_result_and_signature ::
  "string \<Rightarrow> 'v \<Rightarrow> u64 option \<Rightarrow> 'v tool_signature \<Rightarrow> operation" where
  "from_input_with_result_and_signature tool input hash sig =
     \<lparr>op_tool = tool, primary_param = extract_primary_param sig tool input, result_hash = hash\<rparr>"

definition with_result_hash :: "u64 option \<Rightarrow> operation \<Rightarrow> operation" where
  "with_result_hash hash op = op\<lparr>result_hash := hash\<rparr>"

definition hash_result :: "(string \<Rightarrow> u64) \<Rightarrow> string \<Rightarrow> u64 option" where
  "hash_result hasher content = (if content = [] then None else Some (hasher content))"

subsection \<open>Construction and recording\<close>

definition new_detector :: "detector_config \<Rightarrow> 'v tool_signature \<Rightarrow> 'v loop_detector" where
  "new_detector cfg sig =
     \<lparr>operations = [],
      ld_config = (if window_size cfg = 0 then cfg\<lparr>window_size := 1\<rparr> else cfg),
      turn_count = 0, warned_operations = {}, ld_signature = sig,
      operations_poisoned = False, count_poisoned = False, warned_poisoned = False\<rparr>"

definition default_detector :: "'v loop_detector" where
  "default_detector = new_detector default_detector_config no_op_tool_signature"

definition new_with_signature :: "'v tool_signature \<Rightarrow> 'v loop_detector" where
  "new_with_signature sig = new_detector default_detector_config sig"

definition superseded_by :: "operation \<Rightarrow> operation \<Rightarrow> bool" where
  "superseded_by operation old \<longleftrightarrow>
     op_tool old = op_tool operation \<and> primary_param old = primary_param operation \<and>
     result_hash old \<noteq> result_hash operation"

definition record_operation :: "operation \<Rightarrow> 'v loop_detector \<Rightarrow> 'v loop_detector" where
  "record_operation operation d =
     (let should_clear_history =
            \<not> warned_poisoned d \<and> (\<exists>w \<in> warned_operations d. superseded_by operation w);
          d1 = (if warned_poisoned d then d
                else d\<lparr>warned_operations := {w \<in> warned_operations d. \<not> superseded_by operation w}\<rparr>);
          d2 = (if should_clear_history \<and> \<not> operations_poisoned d1
                then d1\<lparr>operations := filter (\<lambda>old. \<not> superseded_by operation old) (operations d1)\<rparr>
                else d1);
          d3 = (if operations_poisoned d2 then d2
                else d2\<lparr>operations := window_push (unat (window_size (ld_config d2))) (operations d2) operation\<rparr>)
      in if count_poisoned d3 then d3 else d3\<lparr>turn_count := sat_add (turn_count d3) 1\<rparr>)"

definition edits_file :: "'v tool_signature \<Rightarrow> string \<Rightarrow> operation \<Rightarrow> bool" where
  "edits_file sig file op \<longleftrightarrow>
     is_file_edit_tool sig (op_tool op) \<and>
     normalize_param_for_comparison sig (op_tool op) (primary_param op) = file"

definition clear_warnings_for_recoverable_edit ::
  "operation \<Rightarrow> 'v loop_detector \<Rightarrow> 'v loop_detector" where
  "clear_warnings_for_recoverable_edit operation d =
     (let sig = ld_signature d;
          current_file = normalize_param_for_comparison sig (op_tool operation) (primary_param operation);
          d1 = (if warned_poisoned d then d
                else d\<lparr>warned_operations :=
                  {w \<in> warned_operations d. \<not> edits_file sig current_file w}\<rparr>)
      in if operations_poisoned d1 then d1
         else d1\<lparr>operations := filter (\<lambda>old. \<not> edits_file sig current_file old) (operations d1)\<rparr>)"

definition record_from_input_with_error ::
  "string \<Rightarrow> 'v \<Rightarrow> u64 option \<Rightarrow> string option \<Rightarrow> 'v loop_detector \<Rightarrow> 'v loop_detector" where
  "record_from_input_with_error tool input hash err d =
     (let op = from_input_with_result_and_signature tool input hash (ld_signature d);
          recoverable = (case err of Some e \<Rightarrow> is_recoverable_error (ld_signature d) tool e | None \<Rightarrow> False)
      in record_operation op (if recoverable then clear_warnings_for_recoverable_edit op d else d))"

definition record_from_input :: "string \<Rightarrow> 'v \<Rightarrow> u64 option \<Rightarrow> 'v loop_detector \<Rightarrow> 'v loop_detector" where
  "record_from_input tool input hash d = record_from_input_with_error tool input hash None d"

subsection \<open>Queries\<close>

text \<open>
  The map of counts is an association list; \<open>count_into\<close> is its
  \<open>entry(..).and_modify(..).or_insert(1)\<close>.
\<close>

type_synonym counts = "(operation \<times> usize) list"

fun count_into :: "operation \<Rightarrow> counts \<Rightarrow> counts" where
  "count_into op [] = [(op, 1)]"
| "count_into op ((o', c) # cs) =
     (if o' = op then (o', sat_add c 1) # cs else (o', c) # count_into op cs)"

definition count_operations :: "operation list \<Rightarrow> counts" where
  "count_operations ops = foldl (\<lambda>cs op. count_into op cs) [] ops"

definition iteration_order :: "(counts \<Rightarrow> counts) \<Rightarrow> bool" where
  "iteration_order iter \<longleftrightarrow> (\<forall>cs. mset (iter cs) = mset cs)"

fun repeated_step ::
  "(string \<Rightarrow> usize) \<Rightarrow> operation list \<times> usize \<Rightarrow> operation \<times> usize \<Rightarrow> operation list \<times> usize" where
  "repeated_step threshold (repeated, mx) (op, cnt) =
     (if cnt \<ge> threshold (op_tool op)
      then if cnt > mx then ([op], cnt)
           else if cnt = mx then (repeated @ [op], mx)
           else (repeated, mx)
      else (repeated, mx))"

definition op_key :: "operation \<Rightarrow> string \<times> string" where
  "op_key op = (op_tool op, primary_param op)"

definition find_repeated ::
  "(counts \<Rightarrow> counts) \<Rightarrow> operation list \<Rightarrow> (string \<Rightarrow> usize) \<Rightarrow> operation list \<times> usize" where
  "find_repeated iter ops threshold =
     (case foldl (repeated_step threshold) ([], 0) (iter (count_operations ops)) of
        (repeated, mx) \<Rightarrow> (sort_key op_key repeated, mx))"

definition build_warning ::
  "'v loop_detector \<Rightarrow> operation list \<Rightarrow> usize \<Rightarrow> bool \<Rightarrow> bool \<Rightarrow> string option" where
  "build_warning d repeated max_repetitions looping stop =
     (if \<not> looping then None
      else (case repeated of
              [] \<Rightarrow> None
            | first_op # _ \<Rightarrow>
                (let already_warned = \<not> warned_poisoned d \<and> first_op \<in> warned_operations d in
                 if already_warned \<and> \<not> stop then None
                 else
                   (let stop_msg = (if stop then '' STOPPING to prevent infinite loop.'' else '''');
                        suggestion = (case get_suggestion (ld_signature d) (op_tool first_op) of
                            Some s \<Rightarrow> s
                          | None \<Rightarrow> ''Consider a different approach or tool.'')
                    in Some (''Loop detected: Operation '' @
                         quoted (op_tool first_op @ ''('' @ primary_param first_op @ '')'') @
                         '' repeated '' @ show_nat (unat max_repetitions) @
                         '' times with same result.'' @ stop_msg @ '' '' @ suggestion)))))"

definition check_loop :: "(counts \<Rightarrow> counts) \<Rightarrow> 'v loop_detector \<Rightarrow> loop_status" where
  "check_loop iter d =
     (if operations_poisoned d then default_status
      else
        (case find_repeated iter (operations d) (threshold_for_tool (ld_config d)) of
           (repeated, max_repetitions) \<Rightarrow>
             (let looping = repeated \<noteq> [];
                  stop = stop_threshold (ld_config d) > 0 \<and>
                         max_repetitions \<ge> stop_threshold (ld_config d)
              in \<lparr>is_looping = looping, repeated_operations = repeated,
                  repetition_count = max_repetitions,
                  status_warning = build_warning d repeated max_repetitions looping stop,
                  should_stop = stop\<rparr>)))"

definition mark_warned :: "operation list \<Rightarrow> 'v loop_detector \<Rightarrow> 'v loop_detector" where
  "mark_warned repeated d =
     (case repeated of
        [] \<Rightarrow> d
      | first_op # _ \<Rightarrow>
          if \<not> warned_poisoned d \<and> first_op \<notin> warned_operations d
          then d\<lparr>warned_operations := insert first_op (warned_operations d)\<rparr> else d)"

definition max_operation_count :: "'v loop_detector \<Rightarrow> usize" where
  "max_operation_count d =
     (if operations_poisoned d then 0
      else foldl max 0 (map snd (count_operations (operations d))))"

definition check_turn_limit :: "'v loop_detector \<Rightarrow> bool" where
  "check_turn_limit d \<longleftrightarrow> \<not> count_poisoned d \<and> turn_count d \<ge> max_tools_per_turn (ld_config d)"

definition get_turn_count :: "'v loop_detector \<Rightarrow> usize" where
  "get_turn_count d = (if count_poisoned d then 0 else turn_count d)"

definition reset_turn :: "'v loop_detector \<Rightarrow> 'v loop_detector" where
  "reset_turn d = (if count_poisoned d then d else d\<lparr>turn_count := 0\<rparr>)"

definition check_file_reads :: "string \<Rightarrow> 'v loop_detector \<Rightarrow> bool" where
  "check_file_reads file_path d =
     (if operations_poisoned d then False
      else
        (let sig = ld_signature d;
             reads = filter (\<lambda>op.
               if \<not> is_file_read_tool sig (op_tool op) then False
               else
                 (let normalized_op = normalize_param_for_comparison sig (op_tool op) (primary_param op);
                      normalized_query = normalize_param_for_comparison sig (op_tool op) file_path
                  in if normalized_op = [] \<or> normalized_query = [] then False
                     else sublist normalized_query normalized_op \<or> sublist normalized_op normalized_query))
               (operations d)
         in length reads \<ge> unat (max_same_file_reads (ld_config d))))"

definition clear_detector :: "'v loop_detector \<Rightarrow> 'v loop_detector" where
  "clear_detector d =
     (let d1 = (if operations_poisoned d then d else d\<lparr>operations := []\<rparr>)
      in if warned_poisoned d1 then d1 else d1\<lparr>warned_operations := {}\<rparr>)"

definition reset_detector :: "'v loop_detector \<Rightarrow> 'v loop_detector" where
  "reset_detector d =
     (let d1 = (if operations_poisoned d then d else d\<lparr>operations := []\<rparr>);
          d2 = (if count_poisoned d1 then d1 else d1\<lparr>turn_count := 0\<rparr>)
      in if warned_poisoned d2 then d2 else d2\<lparr>warned_operations := {}\<rparr>)"

section \<open>Counting\<close>

lemma count_into_keys: "set (map fst (count_into op cs)) = insert op (set (map fst cs))"
  by (induction op cs rule: count_into.induct) auto

lemma count_into_distinct: "distinct (map fst cs) \<Longrightarrow> distinct (map fst (count_into op cs))"
proof (induction op cs rule: count_into.induct)
  case (2 op o' c cs)
  then show ?case using count_into_keys [of op cs] by (auto simp: image_iff)
qed simp

lemma count_into_lookup:
  "map_of (count_into op cs) x =
     (if x = op then Some (case map_of cs op of Some c \<Rightarrow> sat_add c 1 | None \<Rightarrow> 1) else map_of cs x)"
  by (induction op cs rule: count_into.induct) auto

lemma count_operations_snoc: "count_operations (ops @ [op]) = count_into op (count_operations ops)"
  by (simp add: count_operations_def)

lemma count_operations_distinct: "distinct (map fst (count_operations ops))"
  by (induction ops rule: rev_induct)
     (simp_all add: count_operations_snoc count_into_distinct, simp add: count_operations_def)

lemma count_operations_keys: "set (map fst (count_operations ops)) = set ops"
proof (induction ops rule: rev_induct)
  case Nil
  show ?case by (simp add: count_operations_def)
next
  case (snoc op ops)
  then show ?case using count_into_keys [of op "count_operations ops"] by (simp add: count_operations_snoc)
qed

lemma count_operations_lookup:
  assumes "length ops < 2 ^ 64"
  shows "map_of (count_operations ops) op =
    (if op \<in> set ops then Some (of_nat (count_list ops op)) else None)"
  using assms
proof (induction ops rule: rev_induct)
  case Nil
  show ?case by (simp add: count_operations_def)
next
  case (snoc x ops)
  have "count_list ops x \<le> length ops" by (rule count_le_length)
  also have "\<dots> < 2 ^ 64 - 1" using snoc.prems by simp
  finally have step: "sat_add (of_nat (count_list ops x)) 1 = (of_nat (Suc (count_list ops x)) :: usize)"
    by (intro sat_add_of_nat) simp
  have IH: "map_of (count_operations ops) op = (if op \<in> set ops then Some (of_nat (count_list ops op)) else None)"
    using snoc by simp
  show ?case
  proof (cases "op = x")
    case True
    show ?thesis
    proof (cases "x \<in> set ops")
      case True
      with IH \<open>op = x\<close> step show ?thesis by (simp add: count_operations_snoc count_into_lookup)
    next
      case False
      then have "count_list ops x = 0" by (rule count_notin)
      with IH \<open>op = x\<close> False show ?thesis by (simp add: count_operations_snoc count_into_lookup)
    qed
  next
    case False
    with IH show ?thesis by (simp add: count_operations_snoc count_into_lookup)
  qed
qed

section \<open>The most repeated operations\<close>

text \<open>
  \<open>top_count\<close> is what the loop over the counts computes as its maximum, \<open>top_ops\<close> what it
  collects, both without an order.
\<close>

definition qualifies :: "(string \<Rightarrow> usize) \<Rightarrow> operation \<times> usize \<Rightarrow> bool" where
  "qualifies thr x \<longleftrightarrow> thr (op_tool (fst x)) \<le> snd x"

definition top_count :: "(string \<Rightarrow> usize) \<Rightarrow> counts \<Rightarrow> usize" where
  "top_count thr cs = Max (insert 0 (snd ` {x \<in> set cs. qualifies thr x}))"

definition top_ops :: "(string \<Rightarrow> usize) \<Rightarrow> counts \<Rightarrow> operation list" where
  "top_ops thr cs = map fst (filter (\<lambda>x. qualifies thr x \<and> snd x = top_count thr cs) cs)"

lemma top_count_ge: "x \<in> set cs \<Longrightarrow> qualifies thr x \<Longrightarrow> snd x \<le> top_count thr cs"
  by (simp add: top_count_def Max_ge_iff)

lemma top_count_snoc:
  "top_count thr (cs @ [x]) = (if qualifies thr x then max (snd x) (top_count thr cs) else top_count thr cs)"
proof (cases "qualifies thr x")
  case True
  then have "insert 0 (snd ` {y \<in> set (cs @ [x]). qualifies thr y}) =
      insert (snd x) (insert 0 (snd ` {y \<in> set cs. qualifies thr y}))" by auto
  with True show ?thesis by (simp add: top_count_def)
next
  case False
  then have "{y \<in> set (cs @ [x]). qualifies thr y} = {y \<in> set cs. qualifies thr y}" by auto
  with False show ?thesis by (simp add: top_count_def)
qed

lemma repeated_loop: "foldl (repeated_step thr) ([], 0) cs = (top_ops thr cs, top_count thr cs)"
proof (induction cs rule: rev_induct)
  case Nil
  show ?case by (simp add: top_ops_def top_count_def)
next
  case (snoc x cs)
  have below: "filter (\<lambda>y. qualifies thr y \<and> snd y = c) cs = []" if "top_count thr cs < c" for c
    using that top_count_ge [of _ cs thr] by (fastforce simp: filter_empty_conv)
  show ?case
    by (cases x)
       (use snoc below [of "snd x"] in \<open>auto simp: qualifies_def top_ops_def top_count_snoc max_def\<close>)
qed

lemma find_repeated_eq:
  "find_repeated iter ops thr =
     (sort_key op_key (top_ops thr (iter (count_operations ops))), top_count thr (iter (count_operations ops)))"
  by (simp add: find_repeated_def repeated_loop)

lemma top_permuted:
  assumes "mset cs = mset cs'"
  shows "top_count thr cs = top_count thr cs'" and "mset (top_ops thr cs) = mset (top_ops thr cs')"
proof -
  have set: "set cs = set cs'" using assms by (metis set_mset_mset)
  then show count: "top_count thr cs = top_count thr cs'" by (simp add: top_count_def)
  show "mset (top_ops thr cs) = mset (top_ops thr cs')"
    using assms by (simp add: top_ops_def count mset_filter [symmetric] del: mset_filter)
       (simp add: mset_filter assms)
qed

lemma top_ops_distinct: "distinct (map fst cs) \<Longrightarrow> distinct (top_ops thr cs)"
  by (simp add: top_ops_def distinct_map_filter)

lemma top_count_attained:
  assumes "top_count thr cs \<noteq> 0"
  shows "\<exists>x \<in> set cs. qualifies thr x \<and> snd x = top_count thr cs"
proof -
  have "top_count thr cs \<in> insert 0 (snd ` {x \<in> set cs. qualifies thr x})"
    unfolding top_count_def by (rule Max_in) simp_all
  with assms show ?thesis by auto
qed

lemma map_sort_key: "mset xs = mset ys \<Longrightarrow> map f (sort_key f xs) = sort (map f ys)"
  by (rule properties_for_sort [symmetric]) simp_all

lemma sort_key_unique:
  assumes "mset xs = mset ys" and "inj_on f (set xs)"
  shows "sort_key f xs = sort_key f ys"
proof (rule map_inj_on)
  show "map f (sort_key f xs) = map f (sort_key f ys)" by (simp only: map_sort_key assms(1))
  have "set ys = set xs" using assms(1) by (metis set_mset_mset)
  then show "inj_on f (set (sort_key f xs) \<union> set (sort_key f ys))" using assms(2) by simp
qed

section \<open>The window\<close>

text \<open>The window is never empty by configuration and never longer than configured.\<close>

definition detector_inv :: "'v loop_detector \<Rightarrow> bool" where
  "detector_inv d \<longleftrightarrow>
     0 < unat (window_size (ld_config d)) \<and>
     length (operations d) \<le> unat (window_size (ld_config d))"

lemma detector_inv_new [inv_intros]: "detector_inv (new_detector cfg sig)"
  by (auto simp: detector_inv_def new_detector_def unat_gt_0)

lemma detector_inv_record [inv_intros]:
  assumes "detector_inv d"
  shows "detector_inv (record_operation op d)"
proof -
  let ?cap = "unat (window_size (ld_config d))"
  have push: "length (window_push ?cap xs op) \<le> ?cap" if "length xs \<le> ?cap" for xs
    using deque.push_bound [of ?cap xs op] assms that by (simp add: detector_inv_def)
  have "length (filter P (operations d)) \<le> ?cap" for P
    using assms by (auto simp: detector_inv_def intro: le_trans [OF length_filter_le])
  with assms push show ?thesis by (simp add: record_operation_def detector_inv_def Let_def)
qed

lemma detector_inv_clear_edit [inv_intros]:
  "detector_inv d \<Longrightarrow> detector_inv (clear_warnings_for_recoverable_edit op d)"
  by (auto simp: clear_warnings_for_recoverable_edit_def detector_inv_def Let_def
      intro: le_trans [OF length_filter_le])

lemma detector_inv_others [inv_intros]:
  assumes "detector_inv d"
  shows "detector_inv (record_from_input_with_error tool input hash err d)"
    and "detector_inv (mark_warned ops d)" and "detector_inv (reset_turn d)"
    and "detector_inv (clear_detector d)" and "detector_inv (reset_detector d)"
  using assms
  by (auto simp: record_from_input_with_error_def Let_def intro!: detector_inv_record detector_inv_clear_edit)
     (auto simp: mark_warned_def reset_turn_def clear_detector_def reset_detector_def detector_inv_def
        Let_def split: list.splits)

inductive detector_reachable :: "'v loop_detector \<Rightarrow> bool" where
  det_new: "detector_reachable (new_detector cfg sig)"
| det_record: "detector_reachable d \<Longrightarrow> detector_reachable (record_operation op d)"
| det_input: "detector_reachable d \<Longrightarrow>
    detector_reachable (record_from_input_with_error tool input hash err d)"
| det_mark: "detector_reachable d \<Longrightarrow> detector_reachable (mark_warned ops d)"
| det_turn: "detector_reachable d \<Longrightarrow> detector_reachable (reset_turn d)"
| det_clear: "detector_reachable d \<Longrightarrow> detector_reachable (clear_detector d)"
| det_reset: "detector_reachable d \<Longrightarrow> detector_reachable (reset_detector d)"

lemma reachable_detector_inv: "detector_reachable d \<Longrightarrow> detector_inv d"
  by (induction rule: detector_reachable.induct) (auto intro: inv_intros)

lemma detector_length: "detector_inv d \<Longrightarrow> length (operations d) < 2 ^ 64"
  using unat_less_pow [of "window_size (ld_config d)"] by (simp add: detector_inv_def)

lemma record_unwarned:
  "warned_operations d = {} \<Longrightarrow> \<not> operations_poisoned d \<Longrightarrow> \<not> count_poisoned d \<Longrightarrow>
   record_operation op d = d\<lparr>operations := window_push (unat (window_size (ld_config d))) (operations d) op,
     turn_count := sat_add (turn_count d) 1\<rparr>"
  by (simp add: record_operation_def Let_def)

section \<open>What a check reports\<close>

text \<open>The count of an operation in the window, and the operations whose count reaches their threshold.\<close>

definition repeats :: "'v loop_detector \<Rightarrow> operation \<Rightarrow> nat" where
  "repeats d op = count_list (operations d) op"

definition flagged :: "'v loop_detector \<Rightarrow> operation \<Rightarrow> bool" where
  "flagged d op \<longleftrightarrow> op \<in> set (operations d) \<and>
     unat (threshold_for_tool (ld_config d) (op_tool op)) \<le> repeats d op"

lemma in_counts:
  assumes "detector_inv d"
  shows "(op, c) \<in> set (count_operations (operations d)) \<longleftrightarrow>
    op \<in> set (operations d) \<and> unat c = repeats d op"
proof -
  have "repeats d op \<le> length (operations d)" by (simp add: repeats_def count_le_length)
  also have "\<dots> < 2 ^ 64" using assms by (rule detector_length)
  finally have small: "unat (of_nat (repeats d op) :: usize) = repeats d op" by (simp only: unat_of_nat) simp
  have "(op, c) \<in> set (count_operations (operations d)) \<longleftrightarrow>
      map_of (count_operations (operations d)) op = Some c"
    by (simp add: count_operations_distinct map_of_eq_Some_iff)
  also have "\<dots> \<longleftrightarrow> op \<in> set (operations d) \<and> of_nat (repeats d op) = c"
    by (simp add: count_operations_lookup [OF detector_length [OF assms]] repeats_def)
  also have "\<dots> \<longleftrightarrow> op \<in> set (operations d) \<and> unat c = repeats d op"
    using small by (metis word_unat_eq_iff)
  finally show ?thesis .
qed

lemma counted_qualifies:
  "detector_inv d \<Longrightarrow> (op, c) \<in> set (count_operations (operations d)) \<Longrightarrow>
   qualifies (threshold_for_tool (ld_config d)) (op, c) \<longleftrightarrow> flagged d op"
  by (simp add: in_counts flagged_def qualifies_def word_le_nat_alt)

lemma check_loop_fields:
  assumes "\<not> operations_poisoned d"
  defines "thr \<equiv> threshold_for_tool (ld_config d)" and "cs \<equiv> \<lambda>iter. iter (count_operations (operations d))"
  shows "repeated_operations (check_loop iter d) = sort_key op_key (top_ops thr (cs iter))"
    and "repetition_count (check_loop iter d) = top_count thr (cs iter)"
    and "is_looping (check_loop iter d) \<longleftrightarrow> top_ops thr (cs iter) \<noteq> []"
    and "should_stop (check_loop iter d) \<longleftrightarrow>
      stop_threshold (ld_config d) > 0 \<and> stop_threshold (ld_config d) \<le> top_count thr (cs iter)"
    and "status_warning (check_loop iter d) =
      build_warning d (repeated_operations (check_loop iter d)) (repetition_count (check_loop iter d))
        (is_looping (check_loop iter d)) (should_stop (check_loop iter d))"
proof -
  have "sort_key op_key ops = [] \<longleftrightarrow> ops = []" for ops :: "operation list"
    by (metis length_0_conv length_sort)
  then show "repeated_operations (check_loop iter d) = sort_key op_key (top_ops thr (cs iter))"
    "repetition_count (check_loop iter d) = top_count thr (cs iter)"
    "is_looping (check_loop iter d) \<longleftrightarrow> top_ops thr (cs iter) \<noteq> []"
    "should_stop (check_loop iter d) \<longleftrightarrow>
      stop_threshold (ld_config d) > 0 \<and> stop_threshold (ld_config d) \<le> top_count thr (cs iter)"
    "status_warning (check_loop iter d) =
      build_warning d (repeated_operations (check_loop iter d)) (repetition_count (check_loop iter d))
        (is_looping (check_loop iter d)) (should_stop (check_loop iter d))"
    using assms(1) by (simp_all add: check_loop_def find_repeated_eq Let_def thr_def cs_def)
qed

lemma iterated_set: "iteration_order iter \<Longrightarrow> set (iter cs) = set cs"
  by (metis iteration_order_def set_mset_mset)

lemma top_count_bound:
  assumes "detector_inv d" and "iteration_order iter" and "flagged d op"
  shows "repeats d op \<le> unat (top_count (threshold_for_tool (ld_config d)) (iter (count_operations (operations d))))"
proof -
  have "map_of (count_operations (operations d)) op = Some (of_nat (repeats d op))"
    using assms(3) count_operations_lookup [OF detector_length [OF assms(1)]]
    by (simp add: flagged_def repeats_def)
  then have mem: "(op, of_nat (repeats d op)) \<in> set (count_operations (operations d))"
    by (rule map_of_SomeD)
  then have "unat (of_nat (repeats d op) :: usize) = repeats d op" using in_counts [OF assms(1)] by blast
  moreover have "(of_nat (repeats d op) :: usize) \<le>
      top_count (threshold_for_tool (ld_config d)) (iter (count_operations (operations d)))"
    using top_count_ge [of "(op, of_nat (repeats d op))"] mem counted_qualifies [OF assms(1) mem] assms(2,3)
    by (simp add: iterated_set)
  ultimately show ?thesis by (simp add: word_le_nat_alt)
qed

lemma repeats_pos: "op \<in> set (operations d) \<longleftrightarrow> 0 < repeats d op"
  by (simp add: repeats_def count_list_0_iff neq0_conv [symmetric] del: neq0_conv)

lemma reported_iff:
  assumes inv: "detector_inv d" and iter: "iteration_order iter"
  shows "op \<in> set (top_ops (threshold_for_tool (ld_config d)) (iter (count_operations (operations d)))) \<longleftrightarrow>
    flagged d op \<and> (\<forall>o'. flagged d o' \<longrightarrow> repeats d o' \<le> repeats d op)"
    (is "op \<in> set (top_ops ?thr ?cs) \<longleftrightarrow> ?R")
proof -
  let ?top = "top_count ?thr ?cs"
  have set: "set ?cs = set (count_operations (operations d))" by (rule iterated_set [OF iter])
  have "op \<in> set (top_ops ?thr ?cs) \<longleftrightarrow>
      (\<exists>c. (op, c) \<in> set (count_operations (operations d)) \<and> qualifies ?thr (op, c) \<and> c = ?top)"
    unfolding top_ops_def using set by force
  also have "\<dots> \<longleftrightarrow> (op, ?top) \<in> set (count_operations (operations d)) \<and> flagged d op"
    using counted_qualifies [OF inv] by blast
  also have "\<dots> \<longleftrightarrow> flagged d op \<and> repeats d op = unat ?top"
    using in_counts [OF inv, of op ?top] by (auto simp: flagged_def)
  also have "\<dots> \<longleftrightarrow> ?R"
  proof
    assume "flagged d op \<and> repeats d op = unat (top_count ?thr ?cs)"
    then show ?R using top_count_bound [OF inv iter] by simp
  next
    assume R: ?R
    then have "0 < repeats d op" by (simp add: flagged_def repeats_pos)
    with R top_count_bound [OF inv iter] have "top_count ?thr ?cs \<noteq> 0" by fastforce
    then obtain x where "x \<in> set ?cs" "qualifies ?thr x" "snd x = ?top"
      using top_count_attained by blast
    then obtain o' c where mem: "(o', c) \<in> set (count_operations (operations d))"
      and c: "qualifies ?thr (o', c)" "c = ?top"
      unfolding set by (metis prod.collapse)
    have "flagged d o'" "repeats d o' = unat ?top"
      using c counted_qualifies [OF inv mem] in_counts [OF inv, of o' c] mem by simp_all
    with R top_count_bound [OF inv iter] show "flagged d op \<and> repeats d op = unat (top_count ?thr ?cs)"
      by (metis le_antisym)
  qed
  finally show ?thesis .
qed

section \<open>Properties of the detector\<close>

lemma record_run:
  fixes ops :: "operation list"
  shows "fold record_operation ops (new_detector cfg sig) =
    (new_detector cfg sig)\<lparr>operations := foldl (window_push (max 1 (unat (window_size cfg)))) [] ops,
      turn_count := nat_to_word_sat (length ops)\<rparr>"
proof (induction ops rule: rev_induct)
  case Nil
  show ?case by (simp add: new_detector_def nat_to_word_sat_def)
next
  case (snoc op ops)
  have size: "unat (window_size (ld_config (new_detector cfg sig))) = max 1 (unat (window_size cfg))"
    by (simp add: new_detector_def max_def unat_gt_0 Suc_le_eq)
  have "sat_add (nat_to_word_sat (length ops)) 1 = (nat_to_word_sat (Suc (length ops)) :: usize)"
    by (simp only: word_unat_eq_iff unat_sat_add unat_nat_to_word_sat) simp
  with snoc size show ?case
    by (simp add: record_unwarned new_detector_def)
qed

text \<open>
  A detector that recorded any sequence of operations and warned of none keeps exactly the
  most recent ones, as many as its window, a window of zero counting as one, and its turn
  counter is their number up to the largest machine integer.
\<close>

theorem window_holds_recent_operations:
  "operations (fold record_operation ops (new_detector cfg sig)) =
     last_n (max 1 (unat (window_size cfg))) ops \<and>
   unat (get_turn_count (fold record_operation ops (new_detector cfg sig))) = min (length ops) (2 ^ 64 - 1)"
proof -
  have "foldl (window_push (max 1 (unat (window_size cfg)))) [] ops =
      last_n (max 1 (unat (window_size cfg))) ops"
    by (rule deque.pushes_last_n) simp
  moreover have "\<not> count_poisoned (new_detector cfg sig)" by (simp add: new_detector_def)
  ultimately show ?thesis
    by (simp add: record_run get_turn_count_def unat_nat_to_word_sat)
qed

lemma check_reports:
  assumes "detector_reachable d" and "\<not> operations_poisoned d" and "iteration_order iter"
  shows "set (repeated_operations (check_loop iter d)) =
      {op. flagged d op \<and> (\<forall>o'. flagged d o' \<longrightarrow> repeats d o' \<le> repeats d op)} \<and>
    distinct (repeated_operations (check_loop iter d)) \<and>
    sorted (map op_key (repeated_operations (check_loop iter d))) \<and>
    (is_looping (check_loop iter d) \<longleftrightarrow> (\<exists>op. flagged d op)) \<and>
    (\<forall>op \<in> set (repeated_operations (check_loop iter d)).
       unat (repetition_count (check_loop iter d)) = repeats d op) \<and>
    (should_stop (check_loop iter d) \<longleftrightarrow> stop_threshold (ld_config d) > 0 \<and>
       (\<exists>op. flagged d op \<and> unat (stop_threshold (ld_config d)) \<le> repeats d op))"
proof -
  let ?thr = "threshold_for_tool (ld_config d)" and ?cs = "iter (count_operations (operations d))"
  note inv = reachable_detector_inv [OF assms(1)] and fields = check_loop_fields [OF assms(2), of iter]
  note reported = reported_iff [OF inv assms(3)] and bound = top_count_bound [OF inv assms(3)]
  have set: "set (repeated_operations (check_loop iter d)) =
      {op. flagged d op \<and> (\<forall>o'. flagged d o' \<longrightarrow> repeats d o' \<le> repeats d op)}"
    by (auto simp: fields(1) reported)
  have "distinct (map fst (count_operations (operations d)))" by (rule count_operations_distinct)
  then have "distinct (map fst ?cs)"
    using assms(3) by (metis iteration_order_def mset_eq_imp_distinct_iff mset_map)
  then have dist: "distinct (repeated_operations (check_loop iter d))"
    by (simp add: fields(1) top_ops_distinct)
  have count: "unat (top_count ?thr ?cs) = repeats d op" if "op \<in> set (top_ops ?thr ?cs)" for op
  proof -
    from that obtain c where "(op, c) \<in> set (count_operations (operations d))" "c = top_count ?thr ?cs"
      by (auto simp: top_ops_def iterated_set [OF assms(3)])
    then show ?thesis using in_counts [OF inv] by blast
  qed
  have top: "\<exists>op. op \<in> set (top_ops ?thr ?cs)" if "flagged d op" for op
  proof -
    let ?F = "{op. flagged d op}"
    have fin: "finite ?F" by (rule finite_subset [of _ "set (operations d)"]) (auto simp: flagged_def)
    with that have "Max (repeats d ` ?F) \<in> repeats d ` ?F" by (intro Max_in) auto
    then obtain m where "flagged d m" and "repeats d m = Max (repeats d ` ?F)" by auto
    moreover have "repeats d o' \<le> Max (repeats d ` ?F)" if "flagged d o'" for o'
      using fin that by simp
    ultimately have "flagged d m \<and> (\<forall>o'. flagged d o' \<longrightarrow> repeats d o' \<le> repeats d m)" by simp
    then show ?thesis using reported by blast
  qed
  have looping: "is_looping (check_loop iter d) \<longleftrightarrow> (\<exists>op. flagged d op)"
    unfolding fields(3) using top reported by (metis all_not_in_conv set_empty)
  have stop: "should_stop (check_loop iter d) \<longleftrightarrow> stop_threshold (ld_config d) > 0 \<and>
       (\<exists>op. flagged d op \<and> unat (stop_threshold (ld_config d)) \<le> repeats d op)"
  proof -
    have "stop_threshold (ld_config d) \<le> top_count ?thr ?cs \<longleftrightarrow>
        (\<exists>op. flagged d op \<and> unat (stop_threshold (ld_config d)) \<le> repeats d op)"
      if pos: "stop_threshold (ld_config d) > 0"
    proof
      assume le: "stop_threshold (ld_config d) \<le> top_count ?thr ?cs"
      with pos have "top_count ?thr ?cs \<noteq> 0" by auto
      then obtain op where "op \<in> set (top_ops ?thr ?cs)"
        using top_count_attained [of ?thr ?cs] by (force simp: top_ops_def)
      with count [OF this] reported le show "\<exists>op. flagged d op \<and>
          unat (stop_threshold (ld_config d)) \<le> repeats d op"
        by (metis word_le_nat_alt)
    next
      assume "\<exists>op. flagged d op \<and> unat (stop_threshold (ld_config d)) \<le> repeats d op"
      with bound show "stop_threshold (ld_config d) \<le> top_count ?thr ?cs"
        by (meson le_trans word_le_nat_alt)
    qed
    with fields(4) show ?thesis by blast
  qed
  show ?thesis using set dist looping stop count by (simp add: fields(1,2))
qed

text \<open>
  C27: whatever order the map of counts is iterated in, a check reports exactly the operations
  whose count in the window reaches the threshold of their tool and is the largest such count,
  once each and sorted by tool and parameter; it finds a loop exactly when there is one; the
  reported count is theirs, and it asks to stop exactly when stopping is enabled and some
  flagged operation occurs at least as often as the stop threshold.
\<close>

theorem check_reports_most_repeated:
  assumes "detector_reachable d" and "\<not> operations_poisoned d" and "iteration_order iter"
  shows "set (repeated_operations (check_loop iter d)) =
      {op. flagged d op \<and> (\<forall>o'. flagged d o' \<longrightarrow> repeats d o' \<le> repeats d op)} \<and>
    distinct (repeated_operations (check_loop iter d)) \<and>
    sorted (map op_key (repeated_operations (check_loop iter d))) \<and>
    (is_looping (check_loop iter d) \<longleftrightarrow> (\<exists>op. flagged d op)) \<and>
    (\<forall>op \<in> set (repeated_operations (check_loop iter d)).
       unat (repetition_count (check_loop iter d)) = repeats d op) \<and>
    (should_stop (check_loop iter d) \<longleftrightarrow> stop_threshold (ld_config d) > 0 \<and>
       (\<exists>op. flagged d op \<and> unat (stop_threshold (ld_config d)) \<le> repeats d op))"
  by (rule check_reports [OF assms])

definition read_a :: operation where
  "read_a = new_operation ''read'' ''a''"

definition three_reads :: "nat loop_detector" where
  "three_reads = fold record_operation [read_a, read_a, read_a] (new_detector default_detector_config no_op_tool_signature)"

lemma three_reads_reachable: "detector_reachable three_reads"
  by (simp add: three_reads_def detector_reachable.intros)

lemma iteration_rev: "iteration_order rev"
  by (simp add: iteration_order_def)

lemma three_reads_window: "operations three_reads = [read_a, read_a, read_a]"
  using window_holds_recent_operations [of "[read_a, read_a, read_a]" default_detector_config
      "no_op_tool_signature :: nat tool_signature"]
  by (simp add: three_reads_def default_detector_config_def last_n_def)

lemma three_reads_fields: "\<not> operations_poisoned three_reads" "ld_config three_reads = default_detector_config"
  unfolding three_reads_def record_run by (simp_all add: new_detector_def default_detector_config_def)

theorem check_reports_most_repeated_witness: "is_looping (check_loop rev three_reads)"
proof -
  have "flagged three_reads read_a"
    by (simp add: flagged_def repeats_def three_reads_window three_reads_fields threshold_for_tool_def
        default_detector_config_def)
  with check_reports_most_repeated [OF three_reads_reachable _ iteration_rev] three_reads_fields
  show ?thesis by blast
qed

text \<open>
  Two checks of one detector that iterate the map of counts in different orders agree on
  everything but, at most, the order of operations that share tool and parameter and so differ
  only in the hash of their result; if no two operations of the window differ only there, the
  two statuses, warning included, are equal.
\<close>

theorem check_independent_of_map_order:
  assumes "iteration_order iter" and "iteration_order iter'"
  shows "is_looping (check_loop iter d) = is_looping (check_loop iter' d) \<and>
    repetition_count (check_loop iter d) = repetition_count (check_loop iter' d) \<and>
    should_stop (check_loop iter d) = should_stop (check_loop iter' d) \<and>
    mset (repeated_operations (check_loop iter d)) = mset (repeated_operations (check_loop iter' d)) \<and>
    map op_key (repeated_operations (check_loop iter d)) =
      map op_key (repeated_operations (check_loop iter' d)) \<and>
    (inj_on op_key (set (operations d)) \<longrightarrow> check_loop iter d = check_loop iter' d)"
proof (cases "operations_poisoned d")
  case True
  then show ?thesis by (simp add: check_loop_def)
next
  case False
  let ?thr = "threshold_for_tool (ld_config d)"
  let ?cs = "iter (count_operations (operations d))" and ?cs' = "iter' (count_operations (operations d))"
  have perm: "mset ?cs = mset ?cs'" using assms by (simp add: iteration_order_def)
  note top = top_permuted [OF perm, of ?thr]
  note f = check_loop_fields [OF False]
  have empty: "top_ops ?thr ?cs = [] \<longleftrightarrow> top_ops ?thr ?cs' = []" using top(2) by (metis mset_zero_iff)
  have sub: "set (top_ops ?thr ?cs) \<subseteq> set (operations d)"
  proof -
    have "set (map fst ?cs) = set (operations d)"
      using assms(1) by (metis count_operations_keys iterated_set set_map)
    then show ?thesis by (auto simp: top_ops_def)
  qed
  have "check_loop iter d = check_loop iter' d" if "inj_on op_key (set (operations d))"
  proof -
    have "sort_key op_key (top_ops ?thr ?cs) = sort_key op_key (top_ops ?thr ?cs')"
      by (rule sort_key_unique [OF top(2) inj_on_subset [OF that sub]])
    with top(1) show ?thesis by (simp add: check_loop_def find_repeated_eq)
  qed
  moreover have "map op_key (sort_key op_key (top_ops ?thr ?cs)) =
      map op_key (sort_key op_key (top_ops ?thr ?cs'))"
    by (simp only: map_sort_key top(2))
  ultimately show ?thesis using top empty by (simp add: f)
qed

theorem check_independent_of_map_order_witness:
  "check_loop rev three_reads = check_loop (\<lambda>cs. cs) three_reads"
proof -
  have "iteration_order (\<lambda>cs. cs)" by (simp add: iteration_order_def)
  from check_independent_of_map_order [OF iteration_rev this, of three_reads] show ?thesis
    by (simp add: three_reads_window)
qed

lemma mark_warned_fields [simp]:
  "operations (mark_warned ops d) = operations d" "ld_config (mark_warned ops d) = ld_config d"
  "ld_signature (mark_warned ops d) = ld_signature d"
  "operations_poisoned (mark_warned ops d) = operations_poisoned d"
  "warned_poisoned (mark_warned ops d) = warned_poisoned d"
  by (simp_all add: mark_warned_def split: list.splits)

lemma mark_warned_first:
  "\<not> warned_poisoned d \<Longrightarrow> ops \<noteq> [] \<Longrightarrow> hd ops \<in> warned_operations (mark_warned ops d)"
  by (cases ops) (auto simp: mark_warned_def)

text \<open>
  A loop that has not been acknowledged is described by a warning on every check; once its
  first operation is marked as warned, a check finds the same loop with the same count and no
  warning, unless the loop has reached the stop threshold, where the warning is always given.
\<close>

theorem warning_until_acknowledged:
  assumes "\<not> operations_poisoned d" and "\<not> warned_poisoned d" and "is_looping (check_loop iter d)"
  shows "(status_warning (check_loop iter d) = None \<longleftrightarrow>
      \<not> should_stop (check_loop iter d) \<and>
      hd (repeated_operations (check_loop iter d)) \<in> warned_operations d) \<and>
    check_loop iter (mark_warned (repeated_operations (check_loop iter d)) d) =
      (if should_stop (check_loop iter d) then check_loop iter d
       else (check_loop iter d)\<lparr>status_warning := None\<rparr>)"
proof -
  let ?ops = "sort_key op_key (top_ops (threshold_for_tool (ld_config d)) (iter (count_operations (operations d))))"
  have "?ops \<noteq> []"
    using assms(3) by (simp add: check_loop_fields [OF assms(1)]) (metis length_0_conv length_sort)
  then obtain first rest where ops: "?ops = first # rest" by (cases ?ops) auto
  have warned: "first \<in> warned_operations (mark_warned (first # rest) d)"
    using mark_warned_first [OF assms(2), of "first # rest"] by simp
  show ?thesis
    using assms(1,2) warned
    by (simp add: check_loop_def find_repeated_eq ops build_warning_def Let_def split: option.splits) blast
qed

theorem warning_until_acknowledged_witness:
  "status_warning (check_loop rev (mark_warned (repeated_operations (check_loop rev three_reads)) three_reads)) = None"
proof -
  have loop: "is_looping (check_loop rev three_reads)"
    and stop: "\<not> should_stop (check_loop rev three_reads)"
    by (simp_all add: check_loop_def find_repeated_def three_reads_window three_reads_fields
        count_operations_def threshold_for_tool_def default_detector_config_def sat_add_def)
  have "\<not> warned_poisoned three_reads" unfolding three_reads_def record_run by (simp add: new_detector_def)
  from warning_until_acknowledged [OF three_reads_fields(1) this loop] stop show ?thesis by simp
qed

text \<open>
  When an operation is recorded whose result differs from that of a warned operation with the
  same tool and parameter, the agent has made progress: neither the window nor the warnings keep
  an operation of that tool and parameter with another result, the new operation is the most
  recent, and operations of other tools or parameters are dropped only when the window is full.
\<close>

theorem progress_forgets_stale_results:
  assumes "detector_reachable d" and "\<not> operations_poisoned d" and "\<not> warned_poisoned d"
    and "w \<in> warned_operations d" and "superseded_by op w"
  shows "(\<forall>old \<in> set (operations (record_operation op d)) \<union> warned_operations (record_operation op d).
      \<not> superseded_by op old) \<and>
    last (operations (record_operation op d)) = op \<and>
    (length (operations d) < unat (window_size (ld_config d)) \<longrightarrow>
      filter (\<lambda>x. op_key x \<noteq> op_key op) (operations (record_operation op d)) =
      filter (\<lambda>x. op_key x \<noteq> op_key op) (operations d))"
proof -
  let ?cap = "unat (window_size (ld_config d))"
  let ?kept = "filter (\<lambda>old. \<not> superseded_by op old) (operations d)"
  have ops: "operations (record_operation op d) = window_push ?cap ?kept op"
    using assms(2-5) by (auto simp: record_operation_def Let_def)
  have warned: "warned_operations (record_operation op d) = {w \<in> warned_operations d. \<not> superseded_by op w}"
    using assms(3) by (simp add: record_operation_def Let_def)
  have self: "\<not> superseded_by op op" by (simp add: superseded_by_def)
  have stale: "\<forall>old \<in> set (operations (record_operation op d)). \<not> superseded_by op old"
    using self set_window_push [of ?cap ?kept op] by (auto simp: ops)
  have other: "filter (\<lambda>x. op_key x \<noteq> op_key op) ?kept = filter (\<lambda>x. op_key x \<noteq> op_key op) (operations d)"
    by (simp add: superseded_by_def op_key_def, rule filter_cong) auto
  have full: "filter (\<lambda>x. op_key x \<noteq> op_key op) (operations (record_operation op d)) =
      filter (\<lambda>x. op_key x \<noteq> op_key op) (operations d)" if "length (operations d) < ?cap"
  proof -
    have "length ?kept < ?cap" using that by (rule le_less_trans [OF length_filter_le])
    then have "operations (record_operation op d) = ?kept @ [op]" by (simp add: ops window_push_def)
    with other show ?thesis by simp
  qed
  have newest: "last (operations (record_operation op d)) = op" by (simp add: ops)
  have "\<forall>old \<in> set (operations (record_operation op d)) \<union> warned_operations (record_operation op d).
      \<not> superseded_by op old"
    using stale unfolding warned by blast
  with full newest show ?thesis by blast
qed

lemma warned_three: "read_a \<in> warned_operations (mark_warned [read_a] three_reads)"
  "\<not> warned_poisoned three_reads"
  unfolding three_reads_def record_run by (simp_all add: mark_warned_def new_detector_def)

theorem progress_forgets_stale_results_witness:
  "read_a \<notin> set (operations (record_operation (with_result_hash (Some 7) read_a)
     (mark_warned [read_a] three_reads)))"
proof -
  have stale: "superseded_by (with_result_hash (Some 7) read_a) read_a"
    by (simp add: superseded_by_def with_result_hash_def read_a_def new_operation_def)
  from progress_forgets_stale_results [OF det_mark [OF three_reads_reachable, of "[read_a]"] _ _ warned_three(1) this]
    stale warned_three(2) three_reads_fields(1)
  show ?thesis by auto
qed

lemma clear_edit_window:
  "\<not> operations_poisoned d \<Longrightarrow>
   operations (clear_warnings_for_recoverable_edit op d) =
     filter (\<lambda>old. \<not> edits_file (ld_signature d)
       (normalize_param_for_comparison (ld_signature d) (op_tool op) (primary_param op)) old) (operations d)"
  by (simp add: clear_warnings_for_recoverable_edit_def Let_def)

lemma clear_edit_fields [simp]:
  "operations_poisoned (clear_warnings_for_recoverable_edit op d) = operations_poisoned d"
  "ld_config (clear_warnings_for_recoverable_edit op d) = ld_config d"
  by (simp_all add: clear_warnings_for_recoverable_edit_def Let_def)

lemma record_operations_subset:
  "set (operations (record_operation op d)) \<subseteq> insert op (set (operations d))"
proof (cases "operations_poisoned d")
  case True
  then show ?thesis by (auto simp: record_operation_def Let_def)
next
  case False
  then show ?thesis
    by (auto simp: record_operation_def Let_def dest!: set_window_push [THEN subsetD] split: if_splits)
qed

text \<open>
  A tool error the host declares recoverable gives an edit a fresh start: after it is
  recorded, the window holds no edit of the same file except possibly the recorded call itself.
\<close>

theorem recoverable_error_clears_edits:
  assumes "\<not> operations_poisoned d" and "is_recoverable_error (ld_signature d) tool err"
  shows "let op = from_input_with_result_and_signature tool input hash (ld_signature d);
             file = normalize_param_for_comparison (ld_signature d) tool (primary_param op)
         in \<forall>old \<in> set (operations (record_from_input_with_error tool input hash (Some err) d)).
              edits_file (ld_signature d) file old \<longrightarrow> old = op"
proof -
  let ?op = "from_input_with_result_and_signature tool input hash (ld_signature d)"
  let ?d = "clear_warnings_for_recoverable_edit ?op d"
  have "record_from_input_with_error tool input hash (Some err) d = record_operation ?op ?d"
    using assms(2) by (simp add: record_from_input_with_error_def Let_def)
  moreover have "op_tool ?op = tool" by (simp add: from_input_with_result_and_signature_def)
  ultimately show ?thesis
    using record_operations_subset [of ?op ?d] clear_edit_window [OF assms(1), of ?op]
    by (auto simp: Let_def)
qed

definition edit_signature :: "nat tool_signature" where
  "edit_signature = no_op_tool_signature\<lparr>is_recoverable_error := (\<lambda>tool err. True),
     is_file_edit_tool := (\<lambda>tool. True)\<rparr>"

definition stale_edit :: operation where
  "stale_edit = \<lparr>op_tool = ''edit'', primary_param = '''', result_hash = Some 1\<rparr>"

theorem recoverable_error_clears_edits_witness:
  "stale_edit \<notin> set (operations (record_from_input_with_error ''edit'' (0 :: nat) None (Some ''no match'')
     (record_operation stale_edit (new_detector default_detector_config edit_signature))))"
proof -
  let ?d = "record_operation stale_edit (new_detector default_detector_config edit_signature)"
  let ?op = "\<lparr>op_tool = ''edit'', primary_param = '''', result_hash = None\<rparr> :: operation"
  have d: "ld_signature ?d = edit_signature" "\<not> operations_poisoned ?d"
    by (simp_all add: record_operation_def new_detector_def Let_def)
  have op: "from_input_with_result_and_signature ''edit'' 0 None edit_signature = ?op"
    "normalize_param_for_comparison edit_signature ''edit'' '''' = ''''"
    "is_recoverable_error edit_signature ''edit'' ''no match''"
    by (simp_all add: from_input_with_result_and_signature_def edit_signature_def no_op_tool_signature_def)
  have "\<forall>old \<in> set (operations (record_from_input_with_error ''edit'' 0 None (Some ''no match'') ?d)).
      edits_file edit_signature '''' old \<longrightarrow> old = ?op"
    using recoverable_error_clears_edits [OF d(2), unfolded d(1), OF op(3), of 0 None] op
    by (simp add: Let_def)
  moreover have "edits_file edit_signature '''' stale_edit" "stale_edit \<noteq> ?op"
    by (simp_all add: edits_file_def edit_signature_def no_op_tool_signature_def stale_edit_def)
  ultimately show ?thesis by blast
qed

end
