(* ===== verification/Numeric.thy ===== *)
theory Numeric
  imports Prelude Complex_Main
begin

section \<open>Ratios of counts\<close>

text \<open>
  src/src/numeric.rs: the ratio of two counts as a float. The generic code has two instances, 64-bit
  counts through 32-bit integers and counts through 16-bit integers; \<open>narrow\<close> is the width of
  the narrow integer. The operands it divides are naturals here (every integer operation of the
  code is checked or saturating and stays below the wide width), and the rounding of the one
  float division is the argument \<open>rnd\<close>.
\<close>

definition scale_operand :: "nat \<Rightarrow> nat \<Rightarrow> nat" where
  "scale_operand v scale =
     (let scaled = (if scale = 0 then v else v div scale) in if v > 0 \<and> scaled = 0 then 1 else scaled)"

definition narrowed :: "nat \<Rightarrow> nat \<Rightarrow> nat" where
  "narrowed narrow v = (if v < 2 ^ narrow then v else 2 ^ narrow - 1)"

definition ratio_scale :: "nat \<Rightarrow> nat \<Rightarrow> nat \<Rightarrow> nat" where
  "ratio_scale narrow n d = max d n div 2 ^ narrow + 1"

definition unit_ratio :: "(rat \<Rightarrow> rat) \<Rightarrow> nat \<Rightarrow> nat \<Rightarrow> nat \<Rightarrow> rat" where
  "unit_ratio rnd narrow n d =
     (if d = 0 then 0
      else
        (let scale = ratio_scale narrow n d
         in rnd (of_nat (narrowed narrow (scale_operand n scale)) /
                 of_nat (narrowed narrow (scale_operand d scale)))))"

lemma ratio_scale_pos [simp]: "0 < ratio_scale narrow n d"
  by (simp add: ratio_scale_def)

lemma scale_operand_eq: "0 < s \<Longrightarrow> scale_operand v s = (if v = 0 then 0 else max 1 (v div s))"
  by (cases "v = 0"; cases "v div s = 0") (simp_all add: scale_operand_def Let_def max_def Suc_le_eq)

lemma scale_operand_pos: "0 < s \<Longrightarrow> 0 < scale_operand v s \<longleftrightarrow> 0 < v"
  by (simp add: scale_operand_eq max_def)

lemma scale_operand_mono: "0 < s \<Longrightarrow> v \<le> w \<Longrightarrow> scale_operand v s \<le> scale_operand w s"
  using div_le_mono [of v w s] by (auto simp: scale_operand_eq max_def)

lemma scaled_fits:
  assumes "v \<le> max d n" and "0 < narrow"
  shows "scale_operand v (ratio_scale narrow n d) < 2 ^ narrow"
proof -
  have "max d n < 2 ^ narrow * ratio_scale narrow n d"
    unfolding ratio_scale_def using dividend_less_times_div [of "2 ^ narrow" "max d n"] by simp
  with assms(1) have "v < 2 ^ narrow * ratio_scale narrow n d" by (rule le_less_trans)
  then have "v div ratio_scale narrow n d < 2 ^ narrow"
    by (simp add: div_less_iff_less_mult)
  moreover have "(1 :: nat) < 2 ^ narrow" using assms(2) by (metis one_less_numeral_iff one_less_power semiring_norm(76))
  ultimately show ?thesis by (simp add: scale_operand_eq)
qed

lemma unit_ratio_operands:
  assumes "0 < d" and "0 < narrow"
  shows "unit_ratio rnd narrow n d =
    rnd (of_nat (scale_operand n (ratio_scale narrow n d)) / of_nat (scale_operand d (ratio_scale narrow n d)))"
  using assms scaled_fits [of n d n narrow] scaled_fits [of d d n narrow]
  by (simp add: unit_ratio_def Let_def narrowed_def)

lemma unit_ratio_exact:
  assumes "0 < narrow" and "n < 2 ^ narrow" and "d < 2 ^ narrow" and "0 < d"
  shows "unit_ratio rnd narrow n d = rnd (of_nat n / of_nat d)"
proof -
  have "ratio_scale narrow n d = 1" using assms by (simp add: ratio_scale_def)
  then show ?thesis using assms by (simp add: unit_ratio_operands scale_operand_eq max_def)
qed

text \<open>Scaling is not exact in general: the two counts differ, the scaled ones are equal.\<close>

lemma scaled_ratio_inexact: "unit_ratio id 32 (2 ^ 32 + 1) (2 ^ 32) = 1"
proof -
  have "ratio_scale 32 (2 ^ 32 + 1) (2 ^ 32) = 2" by (simp add: ratio_scale_def)
  moreover have "scale_operand (2 ^ 32 + 1) 2 = 2 ^ 31" "scale_operand (2 ^ 32) 2 = 2 ^ 31"
    by (simp_all add: scale_operand_def)
  ultimately show ?thesis by (simp add: unit_ratio_operands)
qed

lemma unit_ratio_le_one:
  assumes "n \<le> d" and "0 < narrow" and "mono rnd" and "rnd 1 = 1" and "rnd 0 = 0"
  shows "0 \<le> unit_ratio rnd narrow n d \<and> unit_ratio rnd narrow n d \<le> 1"
proof (cases "d = 0")
  case True
  then show ?thesis by (simp add: unit_ratio_def)
next
  case False
  define N D where ops: "N = scale_operand n (ratio_scale narrow n d)"
    "D = scale_operand d (ratio_scale narrow n d)"
  have "N \<le> D" "0 < D"
    using scale_operand_mono [OF ratio_scale_pos assms(1)] False by (simp_all add: ops scale_operand_pos)
  then have "0 \<le> (of_nat N / of_nat D :: rat)" and "(of_nat N / of_nat D :: rat) \<le> 1" by simp_all
  then have "rnd 0 \<le> rnd (of_nat N / of_nat D)" and "rnd (of_nat N / of_nat D) \<le> rnd 1"
    by (simp_all only: monoD [OF assms(3)])
  moreover have "unit_ratio rnd narrow n d = rnd (of_nat N / of_nat D)"
    using assms(2) False by (simp add: unit_ratio_operands ops)
  ultimately show ?thesis using assms(4,5) by simp
qed

text \<open>
  For a nonzero denominator both operands of the float division fit the narrow integer after
  scaling, so its saturating fallback is never taken; they are the counts themselves when those
  fit; and a count is scaled to zero only when it is zero, so the ratio is finite and vanishes
  exactly with the numerator.
\<close>

theorem ratio_operands_sound:
  assumes "0 < narrow" and "0 < d"
  shows "let N = scale_operand n (ratio_scale narrow n d); D = scale_operand d (ratio_scale narrow n d)
    in unit_ratio rnd narrow n d = rnd (of_nat N / of_nat D) \<and> N < 2 ^ narrow \<and> D < 2 ^ narrow \<and>
       0 < D \<and> (N = 0 \<longleftrightarrow> n = 0) \<and> (max d n < 2 ^ narrow \<longrightarrow> N = n \<and> D = d)"
proof -
  have "N = v" if "max d n < 2 ^ narrow" "N = scale_operand v (ratio_scale narrow n d)" for N v
    using that by (simp add: ratio_scale_def scale_operand_eq max_def)
  moreover have "scale_operand n (ratio_scale narrow n d) = 0 \<longleftrightarrow> n = 0"
    using scale_operand_pos [OF ratio_scale_pos, of n narrow n d] by (simp only: neq0_conv [symmetric]) blast
  moreover have "scale_operand n (ratio_scale narrow n d) < 2 ^ narrow"
    "scale_operand d (ratio_scale narrow n d) < 2 ^ narrow"
    using assms(1) by (intro scaled_fits; simp)+
  ultimately show ?thesis
    using assms scale_operand_pos [OF ratio_scale_pos, of d narrow n d]
    unfolding Let_def by (metis unit_ratio_operands)
qed

theorem ratio_operands_sound_witness: "unit_ratio id 16 1 70000 = 1 / 35000"
proof -
  have "ratio_scale 16 1 70000 = 2" by (simp add: ratio_scale_def)
  moreover have "scale_operand 1 2 = 1" "scale_operand 70000 2 = 35000"
    by (simp_all add: scale_operand_def)
  ultimately show ?thesis
    using ratio_operands_sound [where rnd = id and narrow = 16 and n = 1 and d = 70000]
    by (simp add: Let_def)
qed

subsection \<open>Floating point\<close>

datatype float64 = Finite rat | Infinity | NegInfinity | NaN

definition round_half_even :: "rat \<Rightarrow> int" where
  "round_half_even x =
     (let f = \<lfloor>x\<rfloor>; r = x - of_int f in
      if r < 1 / 2 then f else if r > 1 / 2 then f + 1 else if even f then f else f + 1)"

text \<open>
  Durations as floating-point seconds: the conversions of the standard library, each float operation
  rounded by \<open>rnd\<close>. Reading seconds back rounds to the nearest nanosecond, half to even; scaling by a
  factor panics (\<open>None\<close>) where the product is negative, not finite or too long for a duration.
\<close>

definition as_secs_f64 :: "(rat \<Rightarrow> rat) \<Rightarrow> duration \<Rightarrow> rat" where
  "as_secs_f64 rnd d = rnd (rnd (of_nat (d div 10 ^ 9)) + rnd (of_nat (d mod 10 ^ 9) / 10 ^ 9))"

definition from_secs_f64 :: "rat \<Rightarrow> duration" where
  "from_secs_f64 s = nat (round_half_even (s * 10 ^ 9))"

definition mul_f64 :: "(rat \<Rightarrow> rat) \<Rightarrow> duration \<Rightarrow> float64 \<Rightarrow> duration option" where
  "mul_f64 rnd d factor =
     (case factor of
        Finite x \<Rightarrow>
          (let s = rnd (x * as_secs_f64 rnd d)
           in if s < 0 \<or> from_secs_f64 s > duration_max then None else Some (from_secs_f64 s))
      | _ \<Rightarrow> None)"

lemma round_half_even_bounds: "\<bar>of_int (round_half_even x) - x\<bar> \<le> 1 / 2"
  using of_int_floor_le [of x] floor_correct [of x] by (auto simp: round_half_even_def Let_def abs_le_iff)

text \<open>Without the rounding of floats only the rounding to nanoseconds stays.\<close>

lemma as_secs_exact: "as_secs_f64 id d = of_nat d / 10 ^ 9"
proof -
  have "(of_nat d :: rat) = of_nat (d div 10 ^ 9 * 10 ^ 9 + d mod 10 ^ 9)" by (simp only: div_mult_mod_eq)
  then have d: "(of_nat d :: rat) = of_nat (d div 10 ^ 9) * 10 ^ 9 + of_nat (d mod 10 ^ 9)"
    by (simp only: of_nat_add of_nat_mult of_nat_power of_nat_numeral)
  show ?thesis unfolding as_secs_f64_def id_apply by (simp only: d add_divide_distrib) simp
qed

lemma from_secs_near: "0 \<le> s \<Longrightarrow> \<bar>of_nat (from_secs_f64 s) - s * 10 ^ 9\<bar> \<le> 1 / 2"
proof -
  assume "0 \<le> s"
  have near: "\<bar>of_int (round_half_even (s * 10 ^ 9)) - s * 10 ^ 9\<bar> \<le> 1 / 2" by (rule round_half_even_bounds)
  moreover have "0 \<le> s * 10 ^ 9" using \<open>0 \<le> s\<close> by simp
  ultimately have "- 1 < (of_int (round_half_even (s * 10 ^ 9)) :: rat)" by linarith
  then have "(of_int (- 1) :: rat) < of_int (round_half_even (s * 10 ^ 9))" by simp
  then have "0 \<le> round_half_even (s * 10 ^ 9)" by (simp only: of_int_less_iff)
  then show ?thesis using near by (simp add: from_secs_f64_def)
qed

lemma from_secs_nat_mono: "0 \<le> s \<Longrightarrow> s * 10 ^ 9 \<le> of_nat m \<Longrightarrow> from_secs_f64 s \<le> m"
proof -
  assume s: "0 \<le> s" "s * 10 ^ 9 \<le> of_nat m"
  have "(of_nat (from_secs_f64 s) :: rat) < of_nat (m + 1)"
    using from_secs_near [OF s(1)] s(2) unfolding of_nat_add by linarith
  then show ?thesis by (simp only: of_nat_less_iff)
qed

lemma from_secs_exact: "0 \<le> s \<Longrightarrow> s * 10 ^ 9 = of_nat m \<Longrightarrow> from_secs_f64 s = m"
proof -
  assume "0 \<le> s" "s * 10 ^ 9 = of_nat m"
  then have "round_half_even (s * 10 ^ 9) = int m"
    by (simp add: round_half_even_def)
  then show ?thesis by (simp add: from_secs_f64_def)
qed

end
