(* ===== verification/Budget.thy ===== *)
theory Budget
  imports Errors Numeric
begin

section \<open>The run budget\<close>

unbundle bit_operations_syntax

text \<open>
  src/src/budget.rs: the limits, the duration grammar, the soft line, the per-dimension warn
  latches and every operation of \<open>BudgetGate\<close>; and \<open>micro_usd\<close> of src/src/pricing.rs. A
  floating-point value is a rational, an infinity or NaN; \<open>rnd\<close> is the rounding of a product
  to the nearest representable value. Formatting to a fixed number of decimals rounds the exact
  value half to even. The price table is the function that prices a usage report in
  micro-dollars, a field of the gate. The flag \<open>gate_poisoned\<close> is the mutex's; every method of
  a poisoned gate is silent.
\<close>

definition micro_usd :: "(rat \<Rightarrow> rat) \<Rightarrow> float64 \<Rightarrow> u64" where
  "micro_usd rnd dollars =
     (case dollars of
        Infinity \<Rightarrow> - 1
      | NegInfinity \<Rightarrow> 0
      | NaN \<Rightarrow> 0
      | Finite d \<Rightarrow>
          if d \<le> 0 then 0
          else (let micro = rnd (d * 1000000) in
                if micro \<ge> 9 * 10 ^ 15 then - 1
                else nat_to_word_sat (nat (round_half_even micro))))"

subsection \<open>Data\<close>

record usage =
  usage_input :: u64
  usage_output :: u64

record budget_limits =
  limit_tokens :: "u64 option"
  limit_turns :: "u64 option"
  limit_duration :: "duration option"
  limit_usd :: "float64 option"

definition new_limits :: budget_limits where
  "new_limits = \<lparr>limit_tokens = None, limit_turns = None, limit_duration = None, limit_usd = None\<rparr>"

record budget_warn =
  warn_dimension :: budget_dimension
  warn_spent :: u64
  warn_limit :: u64

record hard_crossing =
  hard_dimension :: budget_dimension
  hard_spent :: u64
  hard_limit :: u64

record budget_config =
  limits :: budget_limits
  soft_fraction :: float64

record gate_state =
  spent_tokens :: u64
  turns :: u64
  warned_bits :: u8
  spent_usd_micro :: u64

record budget_gate =
  gate_config :: budget_config
  prices :: "(string \<Rightarrow> usage \<Rightarrow> u64 option) option"
  gate_state :: gate_state
  gate_poisoned :: bool

subsection \<open>Durations\<close>

definition unparseable_duration :: "string \<Rightarrow> string \<Rightarrow> loop_error" where
  "unparseable_duration original expected =
     InvalidInput (''budget duration '' @ quoted original @ '' is not parseable: expected '' @ expected)"

definition unit_multiplier :: "string \<Rightarrow> string \<Rightarrow> u64 result" where
  "unit_multiplier original u =
     (if u = ''s'' then Inr 1
      else if u = ''m'' then Inr 60
      else if u = ''h'' then Inr 3600
      else if u = '''' then Inl (unparseable_duration original ''a unit after the number'')
      else Inl (unparseable_duration original ''unit s, m, or h''))"

function parse_duration_loop :: "string \<Rightarrow> string \<Rightarrow> u64 \<Rightarrow> bool \<Rightarrow> duration result" where
  "parse_duration_loop original rest seconds saw_any =
     (let digits = takeWhile is_ascii_digit rest; tail = dropWhile is_ascii_digit rest in
      if tail = []
      then (if rest \<noteq> [] \<or> \<not> saw_any
            then Inl (unparseable_duration original ''number-unit pairs like 4h or 1h30m'')
            else Inr (unat seconds * 10 ^ 9))
      else if digits = [] then Inl (unparseable_duration original ''a number first'')
      else
        (let u = takeWhile (\<lambda>c. \<not> is_ascii_digit c) tail;
             following = dropWhile (\<lambda>c. \<not> is_ascii_digit c) tail
         in case unit_multiplier original u of
              Inl e \<Rightarrow> Inl e
            | Inr multiplier \<Rightarrow>
                (case parse_u64 digits of
                   None \<Rightarrow> Inl (unparseable_duration original ''a number u64 can hold'')
                 | Some cnt \<Rightarrow>
                     (case Option.bind (checked_mul cnt multiplier) (checked_add seconds) of
                        None \<Rightarrow> Inl (unparseable_duration original ''a duration u64 seconds can hold'')
                      | Some addend \<Rightarrow> parse_duration_loop original following addend True))))"
  by pat_completeness auto
termination
proof (relation "measure (\<lambda>(original, rest, seconds, saw_any). length rest)", goal_cases)
  case 1
  then show ?case by simp
next
  case (2 original rest seconds saw_any digits tail u following)
  have "length following \<le> length tail" using 2 by (simp add: length_dropWhile_le)
  moreover have "length tail < length rest"
    using 2 by (metis length_append takeWhile_dropWhile_id less_add_same_cancel2 length_greater_0_conv)
  ultimately show ?case by simp
qed

declare parse_duration_loop.simps [simp del]

definition parse_duration :: "string \<Rightarrow> duration result" where
  "parse_duration txt = parse_duration_loop txt txt 0 False"

subsection \<open>The soft line\<close>

definition rationalize :: "float64 \<Rightarrow> (u64 \<times> u64) option" where
  "rationalize fraction =
     (case fraction of
        Finite x \<Rightarrow>
          if x \<le> 0 \<or> x > 1 then None
          else
            (let scaled = nat (round_half_even (x * 10000));
                 whole = of_nat (scaled div 10000);
                 decimal = of_nat (scaled mod 10000);
                 numerator = sat_add (sat_mul whole 10000) decimal
             in if numerator = 0 then None else Some (numerator, 10000))
      | _ \<Rightarrow> None)"

definition soft_line :: "u64 \<Rightarrow> float64 \<Rightarrow> u64 option" where
  "soft_line budget fraction =
     (case rationalize fraction of
        None \<Rightarrow> None
      | Some (numerator, denominator) \<Rightarrow>
          (let product = sat_mul (ucast budget :: u128) (ucast numerator);
               scaled = (if denominator = 0 then ucast budget else product div ucast denominator)
           in Some (if unat scaled < 2 ^ 64 then ucast scaled else budget)))"

subsection \<open>The warn latches\<close>

fun mask :: "budget_dimension \<Rightarrow> u8" where
  "mask Tokens = 1"
| "mask Turns = 2"
| "mask WallClock = 4"
| "mask Usd = 8"

definition fired :: "budget_dimension \<Rightarrow> u8 \<Rightarrow> bool" where
  "fired d bits \<longleftrightarrow> bits AND mask d \<noteq> 0"

definition take_latch :: "budget_dimension \<Rightarrow> u8 \<Rightarrow> bool \<times> u8" where
  "take_latch d bits = (bits AND mask d = 0, bits OR mask d)"

definition latch_warn ::
  "budget_dimension \<Rightarrow> u64 \<Rightarrow> u64 \<Rightarrow> u8 \<times> budget_warn list \<Rightarrow> u8 \<times> budget_warn list" where
  "latch_warn d spent budget lw =
     (case lw of (bits, warns) \<Rightarrow>
        (case take_latch d bits of (first, bits') \<Rightarrow>
          (bits', if first
                  then warns @ [\<lparr>warn_dimension = d, warn_spent = spent, warn_limit = budget\<rparr>]
                  else warns)))"

subsection \<open>The gate\<close>

definition default_gate_state :: gate_state where
  "default_gate_state = \<lparr>spent_tokens = 0, turns = 0, warned_bits = 0, spent_usd_micro = 0\<rparr>"

definition new_gate :: "budget_limits \<Rightarrow> budget_gate" where
  "new_gate ls =
     \<lparr>gate_config = \<lparr>limits = ls, soft_fraction = Finite (3602879701896397 / 4503599627370496)\<rparr>, prices = None,
      gate_state = default_gate_state, gate_poisoned = False\<rparr>"

definition with_price_table :: "(string \<Rightarrow> usage \<Rightarrow> u64 option) \<Rightarrow> budget_gate \<Rightarrow> budget_gate" where
  "with_price_table table g = g\<lparr>prices := Some table\<rparr>"

text \<open>
  The literals 0.8 and 0.0001 are the double-precision values they denote. The message of the
  refusal prints the fraction; the printed form of a float is an argument here.
\<close>

definition em_dash :: string where
  "em_dash = map char_of [226, 128, 148 :: nat]"

definition bad_fraction :: "(float64 \<Rightarrow> string) \<Rightarrow> float64 \<Rightarrow> loop_error" where
  "bad_fraction show_float fraction =
     InvalidInput (''budget soft fraction must be in [0.0001, 1.0] '' @ em_dash @
       '' 0.0001 is the four-decimal rationalization floor below which no soft line could fire '' @
       em_dash @ '' got '' @ show_float fraction)"

definition with_soft_fraction :: "(float64 \<Rightarrow> string) \<Rightarrow> float64 \<Rightarrow> budget_gate \<Rightarrow> budget_gate result" where
  "with_soft_fraction show_float fraction g =
     (case fraction of
        Finite x \<Rightarrow>
          if x < 7378697629483821 / 73786976294838206464 \<or> x > 1 then Inl (bad_fraction show_float fraction)
          else Inr (g\<lparr>gate_config := (gate_config g)\<lparr>soft_fraction := fraction\<rparr>\<rparr>)
      | _ \<Rightarrow> Inl (bad_fraction show_float fraction))"

definition with_gate :: "(gate_state \<Rightarrow> gate_state) \<Rightarrow> budget_gate \<Rightarrow> budget_gate" where
  "with_gate f g = (if gate_poisoned g then g else g\<lparr>gate_state := f (gate_state g)\<rparr>)"

definition begin_run :: "budget_gate \<Rightarrow> budget_gate" where
  "begin_run g = with_gate (\<lambda>s. default_gate_state) g"

definition observe_usage :: "u64 \<Rightarrow> u64 \<Rightarrow> budget_gate \<Rightarrow> budget_gate" where
  "observe_usage input_tokens output_tokens g =
     with_gate (\<lambda>s. s\<lparr>spent_tokens := sat_add (sat_add (spent_tokens s) input_tokens) output_tokens\<rparr>) g"

definition observe_cost :: "string \<Rightarrow> usage option \<Rightarrow> budget_gate \<Rightarrow> budget_gate" where
  "observe_cost model u g =
     (case (prices g, u) of
        (Some table, Some report) \<Rightarrow>
          (case table model report of
             None \<Rightarrow> g
           | Some total_usd_micro \<Rightarrow>
               with_gate (\<lambda>s. s\<lparr>spent_usd_micro := sat_add (spent_usd_micro s) total_usd_micro\<rparr>) g)
      | _ \<Rightarrow> g)"

definition observe_turn_end :: "budget_gate \<Rightarrow> budget_gate" where
  "observe_turn_end g = with_gate (\<lambda>s. s\<lparr>turns := sat_add (turns s) 1\<rparr>) g"

text \<open>
  \<open>pre_request\<close> has the same block once per dimension; \<open>check_line\<close> is that block. The
  first block sets the refusal without looking at it, when it is still \<open>None\<close>.
\<close>

type_synonym check_state = "u8 \<times> budget_warn list \<times> hard_crossing option"

definition check_line ::
  "float64 \<Rightarrow> budget_dimension \<Rightarrow> u64 \<Rightarrow> u64 \<Rightarrow> check_state \<Rightarrow> check_state" where
  "check_line fraction d spent budget st =
     (case st of (bits, warns, hard) \<Rightarrow>
        if spent \<ge> budget
        then (case latch_warn d spent budget (bits, warns) of (bits', warns') \<Rightarrow>
               (bits', warns',
                if hard = None
                then Some \<lparr>hard_dimension = d, hard_spent = spent, hard_limit = budget\<rparr> else hard))
        else if \<not> fired d bits \<and>
                (case soft_line budget fraction of Some soft \<Rightarrow> spent \<ge> soft | None \<Rightarrow> False)
        then (snd (take_latch d bits),
              warns @ [\<lparr>warn_dimension = d, warn_spent = spent, warn_limit = budget\<rparr>], hard)
        else st)"

definition optional_line ::
  "float64 \<Rightarrow> budget_dimension \<Rightarrow> u64 \<Rightarrow> u64 option \<Rightarrow> check_state \<Rightarrow> check_state" where
  "optional_line fraction d spent budget st =
     (case budget of Some c \<Rightarrow> check_line fraction d spent c st | None \<Rightarrow> st)"

definition as_millis :: "duration \<Rightarrow> nat" where
  "as_millis t = t div 10 ^ 6"

definition pre_request ::
  "(rat \<Rightarrow> rat) \<Rightarrow> duration \<Rightarrow> budget_gate \<Rightarrow>
   (budget_warn list \<times> hard_crossing option) \<times> budget_gate" where
  "pre_request rnd elapsed g =
     (if gate_poisoned g then (([], None), g)
      else
        (let s = gate_state g; ls = limits (gate_config g); fr = soft_fraction (gate_config g);
             st1 = optional_line fr Tokens (spent_tokens s) (limit_tokens ls) (warned_bits s, [], None);
             st2 = optional_line fr Turns (turns s) (limit_turns ls) st1;
             st3 = optional_line fr WallClock (nat_to_word_sat (as_millis elapsed))
                     (map_option (\<lambda>t. nat_to_word_sat (as_millis t)) (limit_duration ls)) st2;
             st4 = optional_line fr Usd (spent_usd_micro s) (map_option (micro_usd rnd) (limit_usd ls)) st3
         in (case st4 of (bits, warns, hard) \<Rightarrow>
               ((warns, hard), g\<lparr>gate_state := s\<lparr>warned_bits := bits\<rparr>\<rparr>))))"

section \<open>One-shot latches\<close>

text \<open>
  The contract of the latches: a latch answers yes the first time it is taken and never again,
  and taking one leaves the others alone. \<open>answers\<close> is what a sequence of takes answers.
\<close>

locale one_shot =
  fixes is_set :: "'d \<Rightarrow> 's \<Rightarrow> bool" and take_it :: "'d \<Rightarrow> 's \<Rightarrow> bool \<times> 's"
  assumes take_answer: "fst (take_it d s) \<longleftrightarrow> \<not> is_set d s"
    and take_sets: "is_set e (snd (take_it d s)) \<longleftrightarrow> e = d \<or> is_set e s"
begin

fun answers :: "'s \<Rightarrow> 'd list \<Rightarrow> 'd list" where
  "answers s [] = []"
| "answers s (d # ds) = (if fst (take_it d s) then [d] else []) @ answers (snd (take_it d s)) ds"

lemma answers_fresh: "d \<in> set (answers s ds) \<longleftrightarrow> d \<in> set ds \<and> \<not> is_set d s"
  by (induction s ds rule: answers.induct) (auto simp: take_answer take_sets)

lemma answers_distinct: "distinct (answers s ds)"
  by (induction s ds rule: answers.induct) (auto simp: answers_fresh take_sets)

lemma retake: "\<not> fst (take_it d (snd (take_it d s)))"
  by (simp add: take_answer take_sets)

end

fun dimension_index :: "budget_dimension \<Rightarrow> nat" where
  "dimension_index Tokens = 0"
| "dimension_index Turns = 1"
| "dimension_index WallClock = 2"
| "dimension_index Usd = 3"

lemma dimension_index_inj: "dimension_index d = dimension_index e \<longleftrightarrow> d = e"
  by (cases d; cases e) simp_all

lemma dimension_index_less: "dimension_index d < 8"
  by (cases d) simp_all

lemma mask_exp: "mask d = 2 ^ dimension_index d"
  by (cases d) simp_all

lemma fired_bit: "fired d bits \<longleftrightarrow> bit bits (dimension_index d)"
  by (simp add: fired_def mask_exp and_exp_eq_0_iff_not_bit)

interpretation latch: one_shot fired take_latch
proof
  show "fst (take_latch d s) \<longleftrightarrow> \<not> fired d s" for d s
    by (simp add: take_latch_def fired_def)
  show "fired e (snd (take_latch d s)) \<longleftrightarrow> e = d \<or> fired e s" for e d s
    using dimension_index_less [of e]
    by (auto simp: take_latch_def fired_bit bit_or_iff mask_exp bit_exp_iff dimension_index_inj)
qed

definition crosses :: "float64 \<Rightarrow> u64 \<Rightarrow> u64 \<Rightarrow> bool" where
  "crosses fraction spent budget \<longleftrightarrow>
     spent \<ge> budget \<or> (case soft_line budget fraction of Some soft \<Rightarrow> spent \<ge> soft | None \<Rightarrow> False)"

lemma take_latch_simps:
  "fst (take_latch d bits) = (\<not> fired d bits)"
  "fired e (snd (take_latch d bits)) \<longleftrightarrow> e = d \<or> fired e bits"
  by (rule latch.take_answer, rule latch.take_sets)

text \<open>What one check has done so far: the warns of the dimensions it latched, each once.\<close>

definition check_inv :: "u8 \<Rightarrow> check_state \<Rightarrow> bool" where
  "check_inv bits0 st \<longleftrightarrow>
     (case st of (bits, warns, hard) \<Rightarrow>
        distinct (map warn_dimension warns) \<and>
        (\<forall>d. fired d bits \<longleftrightarrow> fired d bits0 \<or> d \<in> set (map warn_dimension warns)) \<and>
        (\<forall>d \<in> set (map warn_dimension warns). \<not> fired d bits0))"

lemma check_line_eq:
  "check_line fraction d spent budget (bits, warns, hard) =
     (if spent \<ge> budget \<or> crosses fraction spent budget \<and> \<not> fired d bits
      then snd (take_latch d bits) else bits,
      if crosses fraction spent budget \<and> \<not> fired d bits
      then warns @ [\<lparr>warn_dimension = d, warn_spent = spent, warn_limit = budget\<rparr>] else warns,
      if spent \<ge> budget \<and> hard = None
      then Some \<lparr>hard_dimension = d, hard_spent = spent, hard_limit = budget\<rparr> else hard)"
  using latch.take_answer [of d bits]
  by (auto simp: check_line_def latch_warn_def crosses_def split: prod.splits option.splits)

lemma check_inv_line:
  assumes "check_inv bits0 st"
  shows "check_inv bits0 (check_line fraction d spent budget st)"
proof (cases st)
  case (fields bits warns hard)
  with assms show ?thesis
    by (auto simp: check_inv_def check_line_eq latch.take_sets crosses_def split: option.splits)
qed

lemma check_inv_optional: "check_inv bits0 st \<Longrightarrow> check_inv bits0 (optional_line fraction d spent budget st)"
  by (cases budget) (simp_all add: optional_line_def check_inv_line)

section \<open>Runs against a gate\<close>

datatype gate_event = Usage u64 u64 | Cost string "usage option" | TurnEnd | Check duration

fun gate_step :: "(rat \<Rightarrow> rat) \<Rightarrow> gate_event \<Rightarrow> budget_gate \<Rightarrow> budget_warn list \<times> budget_gate" where
  "gate_step rnd (Usage i t) g = ([], observe_usage i t g)"
| "gate_step rnd (Cost m u) g = ([], observe_cost m u g)"
| "gate_step rnd TurnEnd g = ([], observe_turn_end g)"
| "gate_step rnd (Check t) g = (case pre_request rnd t g of ((warns, hard), g') \<Rightarrow> (warns, g'))"

fun gate_run :: "(rat \<Rightarrow> rat) \<Rightarrow> gate_event list \<Rightarrow> budget_gate \<Rightarrow> budget_warn list \<times> budget_gate" where
  "gate_run rnd [] g = ([], g)"
| "gate_run rnd (ev # evs) g =
     (case gate_step rnd ev g of (ws, g1) \<Rightarrow>
        (case gate_run rnd evs g1 of (ws', g2) \<Rightarrow> (ws @ ws', g2)))"

definition gate_fired :: "budget_gate \<Rightarrow> budget_dimension \<Rightarrow> bool" where
  "gate_fired g d \<longleftrightarrow> fired d (warned_bits (gate_state g))"

lemma pre_request_warns:
  assumes "pre_request rnd t g = ((warns, hard), g')"
  shows "distinct (map warn_dimension warns) \<and>
    (\<forall>d \<in> set (map warn_dimension warns). \<not> gate_fired g d) \<and>
    (\<forall>d. gate_fired g' d \<longleftrightarrow> gate_fired g d \<or> d \<in> set (map warn_dimension warns))"
proof (cases "gate_poisoned g")
  case True
  with assms show ?thesis by (simp add: pre_request_def)
next
  case False
  have "check_inv bits0 (bits0, [], None)" for bits0 by (simp add: check_inv_def)
  then have "check_inv bits0 (optional_line fr d4 s4 l4 (optional_line fr d3 s3 l3
      (optional_line fr d2 s2 l2 (optional_line fr d1 s1 l1 (bits0, [], None)))))"
    for bits0 fr d1 d2 d3 d4 s1 s2 s3 s4 l1 l2 l3 l4
    by (intro check_inv_optional)
  from this [unfolded check_inv_def] assms False show ?thesis
    by (fastforce simp: pre_request_def Let_def gate_fired_def split: prod.splits)
qed

lemma gate_step_warns:
  assumes "gate_step rnd ev g = (warns, g')"
  shows "distinct (map warn_dimension warns) \<and>
    (\<forall>d \<in> set (map warn_dimension warns). \<not> gate_fired g d) \<and>
    (\<forall>d. gate_fired g' d \<longleftrightarrow> gate_fired g d \<or> d \<in> set (map warn_dimension warns))"
  using assms
proof (cases ev)
  case (Check t)
  with assms pre_request_warns [of rnd t g] show ?thesis by (auto split: prod.splits)
qed (auto simp: observe_usage_def observe_cost_def observe_turn_end_def with_gate_def gate_fired_def
       split: option.splits if_splits)

lemma gate_run_warns:
  "gate_run rnd evs g = (warns, g') \<Longrightarrow>
   distinct (map warn_dimension warns) \<and>
   (\<forall>d \<in> set (map warn_dimension warns). \<not> gate_fired g d)"
proof (induction evs arbitrary: g g' warns)
  case (Cons ev evs)
  obtain ws g1 where step: "gate_step rnd ev g = (ws, g1)" by fastforce
  obtain ws' g2 where run: "gate_run rnd evs g1 = (ws', g2)" by fastforce
  have warns: "warns = ws @ ws'" using Cons.prems step run by simp
  note s = gate_step_warns [OF step] and r = Cons.IH [OF run]
  then show ?case by (auto simp: warns) (metis imageI)
qed simp

section \<open>Properties of the budget\<close>

text \<open>
  whatever usage, costs, turn ends and checks follow the start of a run, each dimension
  warns at most once in that run.
\<close>

theorem each_dimension_warns_once:
  "distinct (map warn_dimension (fst (gate_run rnd evs (begin_run g))))"
  using gate_run_warns [of rnd evs "begin_run g"] by (metis prod.collapse)

definition over :: "u64 \<Rightarrow> u64 option \<Rightarrow> bool" where
  "over spent budget \<longleftrightarrow> (case budget of Some c \<Rightarrow> c \<le> spent | None \<Rightarrow> False)"

lemma line_hard:
  "snd (snd (optional_line fr d spent budget (bits, warns, hard))) =
     (if hard = None \<and> over spent budget
      then Some \<lparr>hard_dimension = d, hard_spent = spent, hard_limit = the budget\<rparr> else hard)"
  by (auto simp: optional_line_def check_line_eq over_def split: option.splits)

lemma line_hard_state:
  "snd (snd (optional_line fr d spent budget st)) =
     (if snd (snd st) = None \<and> over spent budget
      then Some \<lparr>hard_dimension = d, hard_spent = spent, hard_limit = the budget\<rparr> else snd (snd st))"
  by (cases st) (simp add: line_hard)

text \<open>
  The events of a run change neither the limits, the prices nor the poison flag, and without a
  price table no dollar is ever counted.
\<close>

lemma gate_step_keeps:
  assumes "gate_step rnd ev g = (ws, g')"
  shows "gate_config g' = gate_config g" "prices g' = prices g" "gate_poisoned g' = gate_poisoned g"
    "prices g = None \<Longrightarrow> spent_usd_micro (gate_state g') = spent_usd_micro (gate_state g)"
  using assms
  by (cases ev; auto simp: observe_usage_def observe_cost_def observe_turn_end_def with_gate_def
      pre_request_def Let_def split: option.splits prod.splits if_splits)+

lemma gate_run_keeps:
  "gate_run rnd evs g = (ws, g') \<Longrightarrow>
   gate_config g' = gate_config g \<and> prices g' = prices g \<and> gate_poisoned g' = gate_poisoned g \<and>
   (prices g = None \<longrightarrow> spent_usd_micro (gate_state g') = spent_usd_micro (gate_state g))"
proof (induction evs arbitrary: g g' ws)
  case (Cons ev evs)
  obtain v g1 where step: "gate_step rnd ev g = (v, g1)" by fastforce
  obtain v' where run: "gate_run rnd evs g1 = (v', g')"
    using Cons.prems step by (auto split: prod.splits)
  from Cons.IH [OF run] gate_step_keeps [OF step] show ?case by simp
qed simp

lemma begin_run_keeps:
  "gate_config (begin_run g) = gate_config g" "prices (begin_run g) = prices g"
  "gate_poisoned (begin_run g) = gate_poisoned g"
  "\<not> gate_poisoned g \<Longrightarrow> spent_usd_micro (gate_state (begin_run g)) = 0"
  by (simp_all add: begin_run_def with_gate_def default_gate_state_def)

text \<open>
  C30: at any point of a run, a check refuses the request exactly when some enabled line has been
  reached, and it names the first reached one in the order tokens, turns, wall clock, dollars, with
  what was spent and the configured line; below every line it lets the request through. The dollar
  line of a gate without a price table refuses nothing. Assumed: no panic poisoned the gate, and a
  gate without a price table has no dollar limit that comes to zero micro-dollars (such a limit does
  refuse, see below).
\<close>

theorem refusal_names_first_reached_line:
  assumes "\<not> gate_poisoned g"
    and "\<And>l. prices g = None \<Longrightarrow> limit_usd (limits (gate_config g)) = Some l \<Longrightarrow> micro_usd rnd l \<noteq> 0"
    and "g' = snd (gate_run rnd evs (begin_run g))"
  shows "snd (fst (pre_request rnd elapsed g')) =
    (let s = gate_state g'; ls = limits (gate_config g);
         ms = nat_to_word_sat (as_millis elapsed);
         ms_line = map_option (\<lambda>t. nat_to_word_sat (as_millis t)) (limit_duration ls);
         usd_line = (if prices g = None then None else map_option (micro_usd rnd) (limit_usd ls))
     in if over (spent_tokens s) (limit_tokens ls)
        then Some \<lparr>hard_dimension = Tokens, hard_spent = spent_tokens s, hard_limit = the (limit_tokens ls)\<rparr>
        else if over (turns s) (limit_turns ls)
        then Some \<lparr>hard_dimension = Turns, hard_spent = turns s, hard_limit = the (limit_turns ls)\<rparr>
        else if over ms ms_line
        then Some \<lparr>hard_dimension = WallClock, hard_spent = ms, hard_limit = the ms_line\<rparr>
        else if over (spent_usd_micro s) usd_line
        then Some \<lparr>hard_dimension = Usd, hard_spent = spent_usd_micro s, hard_limit = the usd_line\<rparr>
        else None)"
proof -
  obtain ws where run: "gate_run rnd evs (begin_run g) = (ws, g')"
    using assms(3) by (metis prod.collapse)
  note keeps = gate_run_keeps [OF run, unfolded begin_run_keeps(1-3)] begin_run_keeps(4) [OF assms(1)]
  have inert: "\<not> over 0 (map_option (micro_usd rnd) (limit_usd (limits (gate_config g))))"
    if "prices g = None"
    using assms(2) [OF that] by (auto simp: over_def split: option.splits)
  have no_line: "\<not> over x None" for x by (simp add: over_def)
  show ?thesis
    using assms(1) keeps
    by (cases "prices g")
      (simp_all add: pre_request_def Let_def line_hard_state case_prod_beta inert no_line)
qed

definition small_gate :: budget_gate where
  "small_gate = new_gate (new_limits\<lparr>limit_tokens := Some 10, limit_usd := Some (Finite 0)\<rparr>)"

definition token_gate :: budget_gate where
  "token_gate = new_gate (new_limits\<lparr>limit_tokens := Some 10, limit_usd := Some Infinity\<rparr>)"

theorem refusal_names_first_reached_line_witness:
  "snd (fst (pre_request id 0 (snd (gate_run id [Usage 7 5] (begin_run token_gate))))) =
     Some \<lparr>hard_dimension = Tokens, hard_spent = 12, hard_limit = 10\<rparr>"
  using refusal_names_first_reached_line [of token_gate id "snd (gate_run id [Usage 7 5] (begin_run token_gate))"
      "[Usage 7 5]" 0]
  by (simp add: token_gate_def new_gate_def new_limits_def begin_run_def with_gate_def
      observe_usage_def default_gate_state_def over_def sat_add_def micro_usd_def)

lemma round_half_even_near: "\<bar>of_int (round_half_even x) - x\<bar> \<le> 1 / 2"
proof -
  have "of_int \<lfloor>x\<rfloor> \<le> x" "x < of_int \<lfloor>x\<rfloor> + 1" by linarith+
  then show ?thesis unfolding round_half_even_def Let_def abs_le_iff
    by (auto split: if_splits) (use of_int_floor_le [of x] in linarith)+
qed

lemma round_half_even_le: "x \<le> of_int k \<Longrightarrow> round_half_even x \<le> k"
proof -
  assume "x \<le> of_int k"
  moreover have "of_int (round_half_even x) \<le> x + 1 / 2" using round_half_even_near [of x] by linarith
  ultimately have "of_int (round_half_even x) < (of_int (k + 1) :: rat)" by simp
  then show ?thesis by linarith
qed

lemma round_half_even_nonneg: "0 \<le> x \<Longrightarrow> 0 \<le> round_half_even x"
proof -
  assume "0 \<le> x"
  moreover have "x - 1 / 2 \<le> of_int (round_half_even x)" using round_half_even_near [of x] by linarith
  ultimately have "of_int (- 1) < (of_int (round_half_even x) :: rat)" by simp
  then show ?thesis by linarith
qed

definition parts :: "rat \<Rightarrow> nat" where
  "parts x = nat (round_half_even (x * 10000))"

lemma parts_bounds:
  assumes "0 < x" and "x \<le> 1"
  shows "parts x \<le> 10000" and "\<bar>of_nat (parts x) - x * 10000\<bar> \<le> 1 / 2"
proof -
  have "round_half_even (x * 10000) \<le> 10000" using assms by (intro round_half_even_le) simp
  then show "parts x \<le> 10000" by (simp add: parts_def)
  have "0 \<le> round_half_even (x * 10000)" using assms by (intro round_half_even_nonneg) simp
  then have "(of_nat (parts x) :: rat) = of_int (round_half_even (x * 10000))" by (simp add: parts_def)
  then show "\<bar>of_nat (parts x) - x * 10000\<bar> \<le> 1 / 2" using round_half_even_near by simp
qed

lemma unat_small: "n < 2 ^ 64 \<Longrightarrow> unat (of_nat n :: u64) = n"
  by (simp add: unat_of_nat)

lemma numerator_value:
  assumes "n \<le> 10000"
  shows "unat (sat_add (sat_mul (of_nat (n div 10000)) 10000) (of_nat (n mod 10000)) :: u64) = n"
proof -
  have div: "unat (of_nat (n div 10000) :: u64) = n div 10000"
    and md: "unat (of_nat (n mod 10000) :: u64) = n mod 10000"
    using assms by (auto intro!: unat_small)
  have "unat (sat_mul (of_nat (n div 10000)) (10000 :: u64)) = n div 10000 * 10000"
    using assms by (simp add: unat_sat_mul div min_def)
  with assms show ?thesis by (simp add: unat_sat_add md min_def)
qed

lemma soft_line_parts:
  assumes "0 < x" and "x \<le> 1"
  shows "soft_line l (Finite x) =
    (if parts x = 0 then None else Some (of_nat (unat l * parts x div 10000)))"
proof -
  let ?num = "sat_add (sat_mul (of_nat (parts x div 10000)) 10000) (of_nat (parts x mod 10000)) :: u64"
  note bound = parts_bounds(1) [OF assms]
  have num: "unat ?num = parts x" by (rule numerator_value [OF bound])
  have "?num = 0 \<longleftrightarrow> parts x = 0" using num by (metis unat_eq_zero)
  then have rat: "rationalize (Finite x) = (if parts x = 0 then None else Some (?num, 10000))"
    using assms unfolding rationalize_def parts_def [symmetric] Let_def by simp
  have up: "unat (ucast y :: u128) = unat y" for y :: u64 by (rule unat_ucast_up) simp
  have less: "unat l < 2 ^ 64" using unat_less_pow [of l] by simp
  with bound have "unat l * parts x \<le> 2 ^ 64 * 10000" by (intro mult_le_mono) simp_all
  then have prod: "unat (sat_mul (ucast l :: u128) (ucast ?num)) = unat l * parts x"
    by (simp add: unat_sat_mul up num)
  let ?s = "sat_mul (ucast l :: u128) (ucast ?num) div ucast (10000 :: u64)"
  have s: "unat ?s = unat l * parts x div 10000" by (simp add: unat_div prod up)
  have "unat l * parts x div 10000 \<le> unat l * 10000 div 10000"
    using bound by (intro div_le_mono mult_le_mono) simp_all
  also have "\<dots> = unat l" by simp
  also note less
  finally have fits: "unat l * parts x div 10000 < 2 ^ 64" .
  have "ucast ?s = (of_nat (unat l * parts x div 10000) :: u64)"
    unfolding s [symmetric] by (simp add: of_nat_unat)
  with fits s rat show ?thesis by (simp add: soft_line_def Let_def)
qed

text \<open>
  For a fraction in (0, 1] the soft line is never above the hard one and within a
  twenty-thousandth of the exact product, rounded down; it is the hard line itself at fraction
  one, for every 64-bit limit; and it is missing only for a fraction that rounds to zero at four
  decimals.
\<close>

theorem soft_line_tracks_fraction:
  assumes "0 < x" and "x \<le> 1"
  shows "case soft_line l (Finite x) of
      None \<Rightarrow> x \<le> 1 / 20000
    | Some s \<Rightarrow> s \<le> l \<and>
        (of_nat (unat s) :: rat) \<le> of_nat (unat l) * (x + 1 / 20000) \<and>
        of_nat (unat l) * (x - 1 / 20000) < (of_nat (unat s) :: rat) + 1 \<and> (x = 1 \<longrightarrow> s = l)"
proof (cases "parts x = 0")
  case True
  with parts_bounds(2) [OF assms] soft_line_parts [OF assms] show ?thesis by simp
next
  case False
  let ?n = "unat l * parts x"
  note bounds = parts_bounds [OF assms]
  have "?n div 10000 \<le> unat l * 10000 div 10000"
    using bounds(1) by (intro div_le_mono mult_le_mono) simp_all
  then have le: "?n div 10000 \<le> unat l" by simp
  then have u: "unat (of_nat (?n div 10000) :: u64) = ?n div 10000"
    using unat_less_pow [of l] by (intro unat_small) simp
  have "of_nat (?n div 10000) * 10000 \<le> (of_nat ?n :: rat)"
    by (metis of_nat_le_iff of_nat_mult of_nat_numeral div_times_less_eq_dividend)
  moreover have "(of_nat ?n :: rat) < (of_nat (?n div 10000) + 1) * 10000"
  proof -
    have "?n < (?n div 10000 + 1) * 10000" using dividend_less_div_times [of 10000 ?n] by simp
    then have "(of_nat ?n :: rat) < of_nat ((?n div 10000 + 1) * 10000)" by (rule of_nat_less_iff [THEN iffD2])
    then show ?thesis by simp
  qed
  moreover have "(of_nat ?n :: rat) \<le> of_nat (unat l) * (x * 10000 + 1 / 2)"
    and "of_nat (unat l) * (x * 10000 - 1 / 2) \<le> (of_nat ?n :: rat)"
  proof -
    have h: "of_nat (parts x) \<le> x * 10000 + 1 / 2" "x * 10000 - 1 / 2 \<le> of_nat (parts x)"
      using bounds(2) unfolding abs_le_iff by linarith+
    show "(of_nat ?n :: rat) \<le> of_nat (unat l) * (x * 10000 + 1 / 2)"
      unfolding of_nat_mult by (rule mult_left_mono [OF h(1) of_nat_0_le_iff])
    show "of_nat (unat l) * (x * 10000 - 1 / 2) \<le> (of_nat ?n :: rat)"
      unfolding of_nat_mult by (rule mult_left_mono [OF h(2) of_nat_0_le_iff])
  qed
  ultimately have "(of_nat (?n div 10000) :: rat) \<le> of_nat (unat l) * (x + 1 / 20000)"
    "of_nat (unat l) * (x - 1 / 20000) < (of_nat (?n div 10000) :: rat) + 1"
    unfolding distrib_left right_diff_distrib distrib_right by linarith+
  moreover have "of_nat (?n div 10000) = l" if "x = 1"
    using that by (simp add: parts_def round_half_even_def)
  ultimately show ?thesis
    using False le by (simp add: soft_line_parts [OF assms] word_le_nat_alt u)
qed

theorem soft_line_tracks_fraction_witness:
  "case soft_line 1000 (Finite 1) of None \<Rightarrow> False | Some s \<Rightarrow> s = 1000"
  using soft_line_tracks_fraction [of 1 1000] by (simp split: option.splits)

text \<open>
  The rounding of the fraction can put the soft line above the exact product: at a fraction
  just below one, the soft line of a large limit is the limit itself.
\<close>

theorem soft_line_above_exact_product:
  "\<exists>l x s. 0 < x \<and> x < 1 \<and> soft_line l (Finite x) = Some s \<and>
     of_nat (unat l) * x < (of_nat (unat s) :: rat)"
proof -
  have "\<lfloor>40958125 / 4096 :: rat\<rfloor> = 9999" by (rule floor_unique) simp_all
  then have p: "parts (65533 / 65536) = 10000" by (simp add: parts_def round_half_even_def Let_def)
  have "soft_line 1000000 (Finite (65533 / 65536)) = Some 1000000"
    using soft_line_parts [of "65533 / 65536" 1000000] by (simp add: p)
  then show ?thesis
    by (intro exI [of _ 1000000] exI [of _ "65533 / 65536"] exI [of _ 1000000]) simp
qed

text \<open>
  A zero dollar limit is not inert without a price table: although nothing can accrue, the
  first check of a run refuses over the dollar line.
\<close>

theorem zero_usd_refuses_without_prices:
  "prices small_gate = None \<and>
   (case pre_request rnd elapsed (begin_run small_gate) of
      ((warns, hard), g) \<Rightarrow> hard = Some \<lparr>hard_dimension = Usd, hard_spent = 0, hard_limit = 0\<rparr>)"
proof -
  have "\<not> gate_poisoned (begin_run small_gate)"
    by (simp add: small_gate_def new_gate_def begin_run_def with_gate_def)
  then have "snd (fst (pre_request rnd elapsed (begin_run small_gate))) =
      Some \<lparr>hard_dimension = Usd, hard_spent = 0, hard_limit = 0\<rparr>"
    by (simp add: pre_request_def Let_def line_hard_state case_prod_beta small_gate_def new_gate_def
        new_limits_def begin_run_def with_gate_def default_gate_state_def over_def micro_usd_def)
  then show ?thesis by (simp add: case_prod_beta small_gate_def new_gate_def)
qed

section \<open>The duration grammar\<close>

text \<open>
  The grammar as a specification: a duration is written as pairs of a digit string and a unit
  letter, and means the sum of their values.
\<close>

definition unit_seconds :: "char \<Rightarrow> nat" where
  "unit_seconds c = (if c = CHR ''s'' then 1 else if c = CHR ''m'' then 60 else 3600)"

definition render :: "(string \<times> char) list \<Rightarrow> string" where
  "render ps = concat (map (\<lambda>(ds, c). ds @ [c]) ps)"

definition total_seconds :: "(string \<times> char) list \<Rightarrow> nat" where
  "total_seconds ps = sum_list (map (\<lambda>(ds, c). digits_value ds * unit_seconds c) ps)"

definition is_pair :: "string \<times> char \<Rightarrow> bool" where
  "is_pair p \<longleftrightarrow> fst p \<noteq> [] \<and> list_all is_ascii_digit (fst p) \<and> snd p \<in> set ''smh''"

lemma unit_not_digit: "c \<in> set ''smh'' \<Longrightarrow> \<not> is_ascii_digit c"
  by (auto simp: is_ascii_digit_def)

lemma unit_seconds_pos: "0 < unit_seconds c"
  by (simp add: unit_seconds_def)

lemma unit_multiplier_Inr:
  "unit_multiplier orig u = Inr k \<longleftrightarrow>
     (\<exists>c \<in> set ''smh''. u = [c] \<and> k = of_nat (unit_seconds c))"
  by (auto simp: unit_multiplier_def unit_seconds_def)

lemma unit_seconds_word: "unat (of_nat (unit_seconds c) :: u64) = unit_seconds c"
  by (simp add: unit_seconds_def)

lemma render_simps [simp]:
  "render [] = []" "render ((ds, c) # ps) = ds @ c # render ps"
  "total_seconds [] = 0" "total_seconds ((ds, c) # ps) = digits_value ds * unit_seconds c + total_seconds ps"
  by (simp_all add: render_def total_seconds_def)

lemma render_starts_digit:
  "list_all is_pair ps \<Longrightarrow> takeWhile (\<lambda>c. \<not> is_ascii_digit c) (render ps) = []"
  by (cases ps) (auto simp: is_pair_def neq_Nil_conv takeWhile_eq_Nil_iff)

lemma checked_sum:
  "Option.bind (checked_mul cnt k) (checked_add sec) = Some x \<longleftrightarrow>
     unat sec + unat cnt * unat k < 2 ^ 64 \<and> unat x = unat sec + unat cnt * unat k"
  for cnt k sec x :: u64
proof -
  have "unat cnt * unat k < 2 ^ 64" if "unat sec + unat cnt * unat k < 2 ^ 64" using that by simp
  moreover have "unat (cnt * k) = unat cnt * unat k" if "unat cnt * unat k < 2 ^ 64"
    using that by (simp add: unat_word_ariths)
  moreover have "sec + cnt * k = x \<longleftrightarrow> unat x = unat sec + unat cnt * unat k"
    if "unat sec + unat cnt * unat k < 2 ^ 64"
    using that by (auto simp: word_unat_eq_iff unat_word_ariths)
  ultimately show ?thesis
    by (auto simp: checked_mul_def checked_add_def)
qed

text \<open>One iteration that goes on, and the ways a loop can accept.\<close>

definition iterates :: "string \<Rightarrow> string \<Rightarrow> u64 \<Rightarrow> string \<Rightarrow> string \<Rightarrow> string \<Rightarrow> u64 \<Rightarrow> bool" where
  "iterates orig rest sec ds u following x \<longleftrightarrow>
     takeWhile is_ascii_digit rest = ds \<and> ds \<noteq> [] \<and> dropWhile is_ascii_digit rest \<noteq> [] \<and>
     takeWhile (\<lambda>c. \<not> is_ascii_digit c) (dropWhile is_ascii_digit rest) = u \<and>
     dropWhile (\<lambda>c. \<not> is_ascii_digit c) (dropWhile is_ascii_digit rest) = following \<and>
     (\<exists>k cnt. unit_multiplier orig u = Inr k \<and> parse_u64 ds = Some cnt \<and>
        Option.bind (checked_mul cnt k) (checked_add sec) = Some x)"

lemma loop_iterates:
  assumes "iterates orig rest sec ds u following x"
  shows "parse_duration_loop orig rest sec saw = parse_duration_loop orig following x True"
proof -
  obtain tail where tail: "dropWhile is_ascii_digit rest = tail" by blast
  show ?thesis
    using assms unfolding iterates_def tail
    by (subst parse_duration_loop.simps) (auto simp only: Let_def tail sum.case option.case if_False)
qed

lemma loop_Inr:
  assumes "parse_duration_loop orig rest sec saw = Inr d"
  shows "rest = [] \<and> saw \<and> d = unat sec * 10 ^ 9 \<or>
    (\<exists>ds u following x. iterates orig rest sec ds u following x \<and>
       parse_duration_loop orig following x True = Inr d)"
proof -
  obtain ds where ds: "takeWhile is_ascii_digit rest = ds" by blast
  obtain tail where tail: "dropWhile is_ascii_digit rest = tail" by blast
  obtain u where u: "takeWhile (\<lambda>c. \<not> is_ascii_digit c) tail = u" by blast
  obtain following where f: "dropWhile (\<lambda>c. \<not> is_ascii_digit c) tail = following" by blast
  from assms show ?thesis
    unfolding parse_duration_loop.simps [of orig rest] iterates_def Let_def ds tail u f
    by (auto simp: u f split: if_split_asm sum.split_asm option.split_asm)
qed

lemma loop_accepts:
  "list_all is_pair ps \<Longrightarrow> saw \<or> ps \<noteq> [] \<Longrightarrow> unat sec + total_seconds ps < 2 ^ 64 \<Longrightarrow>
   parse_duration_loop orig (render ps) sec saw = Inr ((unat sec + total_seconds ps) * 10 ^ 9)"
proof (induction ps arbitrary: sec saw)
  case Nil
  then show ?case by (simp add: parse_duration_loop.simps [of orig "[]"])
next
  case (Cons p ps)
  obtain ds c where p: "p = (ds, c)" by fastforce
  with Cons.prems have ds: "ds \<noteq> []" "\<forall>d \<in> set ds. is_ascii_digit d" and c: "c \<in> set ''smh''"
    by (auto simp: is_pair_def list_all_iff)
  have tail: "takeWhile is_ascii_digit (render (p # ps)) = ds"
    "dropWhile is_ascii_digit (render (p # ps)) = c # render ps"
    using ds unit_not_digit [OF c] by (simp_all add: p)
  have after_unit: "takeWhile (\<lambda>c. \<not> is_ascii_digit c) (c # render ps) = [c]"
    "dropWhile (\<lambda>c. \<not> is_ascii_digit c) (c # render ps) = render ps"
    using unit_not_digit [OF c] render_starts_digit [of ps] Cons.prems(1)
    by (auto simp: takeWhile_eq_Nil_iff) (metis dropWhile_eq_self_iff)
  have le: "digits_value ds \<le> digits_value ds * unit_seconds c"
    using unit_seconds_pos [of c] by (cases "unit_seconds c") simp_all
  have "digits_value ds * unit_seconds c < 2 ^ 64" using Cons.prems(3) by (simp add: p)
  with le have small: "digits_value ds < 2 ^ 64" by (rule le_less_trans)
  obtain x where x: "x = (of_nat (unat sec + digits_value ds * unit_seconds c) :: u64)" by blast
  have sum: "unat x = unat sec + digits_value ds * unit_seconds c"
    using Cons.prems(3) unfolding x by (intro unat_small) (simp add: p)
  have "Option.bind (checked_mul (of_nat (digits_value ds)) (of_nat (unit_seconds c))) (checked_add sec) = Some x"
    unfolding checked_sum unit_seconds_word unat_small [OF small] using sum Cons.prems(3) by (simp add: p)
  then have "iterates orig (render (p # ps)) sec ds [c] (render ps) x"
    unfolding iterates_def tail after_unit using ds(1) c small
    by (auto simp: unit_multiplier_Inr parse_u64_def)
  then have "parse_duration_loop orig (render (p # ps)) sec saw = parse_duration_loop orig (render ps) x True"
    by (rule loop_iterates)
  also have "\<dots> = Inr ((unat x + total_seconds ps) * 10 ^ 9)"
    using Cons.prems by (intro Cons.IH) (simp_all add: sum p)
  finally show ?case by (simp add: sum p add.assoc)
qed

lemma loop_accepted:
  "parse_duration_loop orig rest sec saw = Inr d \<Longrightarrow>
   \<exists>ps. list_all is_pair ps \<and> rest = render ps \<and> (saw \<or> ps \<noteq> []) \<and>
     unat sec + total_seconds ps < 2 ^ 64 \<and> d = (unat sec + total_seconds ps) * 10 ^ 9"
proof (induction "length rest" arbitrary: rest sec saw rule: less_induct)
  case less
  from loop_Inr [OF less.prems] show ?case
  proof
    assume "rest = [] \<and> saw \<and> d = unat sec * 10 ^ 9"
    then show ?thesis using unat_less_pow [of sec] by (intro exI [of _ "[]"]) simp
  next
    assume "\<exists>ds u following x. iterates orig rest sec ds u following x \<and>
       parse_duration_loop orig following x True = Inr d"
    then obtain ds u following x where it: "iterates orig rest sec ds u following x"
      and rec: "parse_duration_loop orig following x True = Inr d" by blast
    have split: "rest = ds @ u @ following" using it by (auto simp: iterates_def)
    from it obtain c cnt where c: "c \<in> set ''smh''" "u = [c]" and cnt: "parse_u64 ds = Some cnt"
      and x: "Option.bind (checked_mul cnt (of_nat (unit_seconds c))) (checked_add sec) = Some x"
      unfolding iterates_def unit_multiplier_Inr by blast
    have val: "unat x = unat sec + digits_value ds * unit_seconds c"
      using x cnt unfolding checked_sum parse_u64_Some unit_seconds_word by simp
    have "length following < length rest" using split c(2) by simp
    from less.hyps [OF this rec] obtain ps where
      ps: "list_all is_pair ps" "following = render ps" "unat x + total_seconds ps < 2 ^ 64"
        "d = (unat x + total_seconds ps) * 10 ^ 9" by auto
    have "ds = takeWhile is_ascii_digit rest" "ds \<noteq> []" using it by (auto simp: iterates_def)
    then have "is_pair (ds, c)"
      using c(1) by (auto simp: is_pair_def list_all_iff dest: set_takeWhileD)
    then show ?thesis
      using ps split c(2) by (intro exI [of _ "(ds, c) # ps"]) (simp add: val add.assoc)
  qed
qed

text \<open>
  C35: the duration parser accepts exactly the texts of the grammar, one or more pairs of a digit
  string and a unit letter whose total fits 64 bits of seconds, and its value is that total; every
  other text is an error.
\<close>

theorem parse_duration_grammar:
  "parse_duration txt = Inr d \<longleftrightarrow>
     (\<exists>ps. ps \<noteq> [] \<and> list_all is_pair ps \<and> txt = render ps \<and>
        total_seconds ps < 2 ^ 64 \<and> d = total_seconds ps * 10 ^ 9)"
proof
  assume "parse_duration txt = Inr d"
  then show "\<exists>ps. ps \<noteq> [] \<and> list_all is_pair ps \<and> txt = render ps \<and>
        total_seconds ps < 2 ^ 64 \<and> d = total_seconds ps * 10 ^ 9"
    using loop_accepted [of "txt" "txt" 0 False d] by (auto simp: parse_duration_def)
next
  assume "\<exists>ps. ps \<noteq> [] \<and> list_all is_pair ps \<and> txt = render ps \<and>
        total_seconds ps < 2 ^ 64 \<and> d = total_seconds ps * 10 ^ 9"
  then show "parse_duration txt = Inr d"
    using loop_accepts [of _ False 0 "txt"] by (auto simp: parse_duration_def)
qed

end
