(* ===== verification/Dispatch.thy ===== *)
theory Dispatch
  imports Machine "HOL-Library.Multiset"
begin

section \<open>Dispatch results, gate records and the plan of a batch\<close>

text \<open>
  From src/src/tool.rs the dispatch result and the precedence of the gate records it carries, from
  src/src/tool/permission.rs the gate records, and from src/src/engine/bare/dispatch.rs the
  dependency graph of a batch of calls, the waves planned from it and the sequential and parallel
  dispatch of the batch. What one call answers is a parameter (the loop behind it is in
  \<open>Recovery\<close>), as are the registry's tools and the polls of the cancel flag. The digest
  of a call's arguments is a parameter too: it canonicalises a \<open>serde_json\<close> value.
\<close>

subsection \<open>Gate records\<close>

datatype gate_verdict =
    Allow | AllowModified | Deny | Ask | AskAllowed | AskDenied | AskUnresolved | AskExpired
  | GateCancelled

datatype gate_rule_source = MiddlewareRule | ContextRule | AskResolverRule | EngineRule

record gate_decision =
  gate_tool :: string
  args_digest :: string
  verdict :: gate_verdict
  rule_id :: string
  rule_source :: gate_rule_source
  matched_pattern :: "string option"
  reason :: "string option"
  gate_ts :: u64

definition new_gate_decision ::
  "string \<Rightarrow> gate_verdict \<Rightarrow> string \<Rightarrow> gate_rule_source \<Rightarrow> gate_decision" where
  "new_gate_decision tool v rule source =
     \<lparr>gate_tool = tool, args_digest = '''', verdict = v, rule_id = rule, rule_source = source,
      matched_pattern = None, reason = None, gate_ts = 0\<rparr>"

definition for_args :: "('v \<Rightarrow> string) \<Rightarrow> 'v \<Rightarrow> gate_decision \<Rightarrow> gate_decision" where
  "for_args digest input g = g\<lparr>args_digest := digest input\<rparr>"

definition with_matched_pattern :: "string \<Rightarrow> gate_decision \<Rightarrow> gate_decision" where
  "with_matched_pattern pattern g = g\<lparr>matched_pattern := Some pattern\<rparr>"

definition with_reason :: "string \<Rightarrow> gate_decision \<Rightarrow> gate_decision" where
  "with_reason r g = g\<lparr>reason := Some r\<rparr>"

definition with_ts :: "u64 \<Rightarrow> gate_decision \<Rightarrow> gate_decision" where
  "with_ts ts g = g\<lparr>gate_ts := ts\<rparr>"

fun gate_precedence :: "gate_verdict \<Rightarrow> nat" where
  "gate_precedence Deny = 2"
| "gate_precedence AskDenied = 2"
| "gate_precedence AskUnresolved = 2"
| "gate_precedence AskExpired = 2"
| "gate_precedence GateCancelled = 2"
| "gate_precedence AllowModified = 1"
| "gate_precedence Allow = 0"
| "gate_precedence Ask = 0"
| "gate_precedence AskAllowed = 0"

subsection \<open>Dispatch results\<close>

datatype display_hint = HintText | HintDiff | HintJson | HintCode string

record tool_output =
  payload :: tool_content
  out_is_error :: bool
  out_display_hint :: "display_hint option"
  out_retention :: "retention option"

record dispatch_result =
  dr_call_id :: string
  dr_output :: tool_content
  dr_is_error :: bool
  dr_duration :: duration
  dr_tool_name :: string
  dr_display_hint :: "display_hint option"
  dr_retention :: "retention option"
  dr_gate :: "gate_decision option"

definition dispatch_ok :: "string \<Rightarrow> string \<Rightarrow> duration \<Rightarrow> dispatch_result" where
  "dispatch_ok tool out d =
     \<lparr>dr_call_id = '''', dr_output = TCText out, dr_is_error = False, dr_duration = d,
      dr_tool_name = tool, dr_display_hint = None, dr_retention = None, dr_gate = None\<rparr>"

definition dispatch_err :: "string \<Rightarrow> string \<Rightarrow> duration \<Rightarrow> dispatch_result" where
  "dispatch_err tool msg d =
     \<lparr>dr_call_id = '''', dr_output = TCText msg, dr_is_error = True, dr_duration = d,
      dr_tool_name = tool, dr_display_hint = None, dr_retention = None, dr_gate = None\<rparr>"

definition from_output :: "tool_output \<Rightarrow> dispatch_result" where
  "from_output out =
     \<lparr>dr_call_id = '''', dr_output = payload out, dr_is_error = out_is_error out, dr_duration = 0,
      dr_tool_name = '''', dr_display_hint = out_display_hint out,
      dr_retention = out_retention out, dr_gate = None\<rparr>"

definition with_call_id :: "string \<Rightarrow> dispatch_result \<Rightarrow> dispatch_result" where
  "with_call_id i r = r\<lparr>dr_call_id := i\<rparr>"

definition with_tool_name :: "string \<Rightarrow> dispatch_result \<Rightarrow> dispatch_result" where
  "with_tool_name n r = r\<lparr>dr_tool_name := n\<rparr>"

definition with_duration :: "duration \<Rightarrow> dispatch_result \<Rightarrow> dispatch_result" where
  "with_duration d r = r\<lparr>dr_duration := d\<rparr>"

definition from_tool_output :: "string \<Rightarrow> tool_output \<Rightarrow> duration \<Rightarrow> dispatch_result" where
  "from_tool_output tool out d = with_duration d (with_tool_name tool (from_output out))"

definition attach_gate :: "gate_decision \<Rightarrow> dispatch_result \<Rightarrow> dispatch_result" where
  "attach_gate g r =
     (let displaces = (case dr_gate r of None \<Rightarrow> True
        | Some existing \<Rightarrow> gate_precedence (verdict g) > gate_precedence (verdict existing))
      in if displaces then r\<lparr>dr_gate := Some g\<rparr> else r)"

definition result_for_call ::
  "'v tool_call \<Rightarrow> duration \<Rightarrow> tool_content \<Rightarrow> bool \<Rightarrow> display_hint option \<Rightarrow> retention option
   \<Rightarrow> dispatch_result" where
  "result_for_call tc d out err hint ret =
     \<lparr>dr_call_id = tc_id tc, dr_output = out, dr_is_error = err, dr_duration = d,
      dr_tool_name = tc_tool tc, dr_display_hint = hint, dr_retention = ret, dr_gate = None\<rparr>"

definition missing_result :: "'v tool_call option \<Rightarrow> dispatch_result" where
  "missing_result tc =
     \<lparr>dr_call_id = (case tc of Some c \<Rightarrow> tc_id c | None \<Rightarrow> ''''),
      dr_output = TCText ''dispatch produced no result'', dr_is_error = True, dr_duration = 0,
      dr_tool_name = (case tc of Some c \<Rightarrow> tc_tool c | None \<Rightarrow> ''''),
      dr_display_hint = None, dr_retention = None, dr_gate = None\<rparr>"

definition executed_tool_name :: "'v tool_call \<Rightarrow> dispatch_result \<Rightarrow> string" where
  "executed_tool_name tc r = (if dr_tool_name r = '''' then tc_tool tc else dr_tool_name r)"

subsection \<open>Planning the waves of a batch\<close>

text \<open>A registered tool, as far as the planner asks it.\<close>

record 'v planned_tool =
  safe_for_concurrent_execution :: "'v \<Rightarrow> bool"
  tool_resource_key :: "'v \<Rightarrow> string option"

record graph_node =
  idx :: nat
  parallelizable :: bool
  resource_key :: "string option"

definition graph_node_of ::
  "(string \<Rightarrow> 'v planned_tool option) \<Rightarrow> nat \<Rightarrow> 'v tool_call \<Rightarrow> graph_node" where
  "graph_node_of registry i call =
     (case registry (tc_tool call) of
        Some tool \<Rightarrow>
          (let safe = safe_for_concurrent_execution tool (tc_input call);
               key = (if safe then tool_resource_key tool (tc_input call) else None)
           in \<lparr>idx = i, parallelizable = safe, resource_key = key\<rparr>)
      | None \<Rightarrow> \<lparr>idx = i, parallelizable = False, resource_key = None\<rparr>)"

definition from_calls ::
  "'v tool_call list \<Rightarrow> (string \<Rightarrow> 'v planned_tool option) \<Rightarrow> graph_node list" where
  "from_calls calls registry = map (\<lambda>(i, call). graph_node_of registry i call) (enumerate 0 calls)"

text \<open>The planner's three vectors, one entry per wave in each.\<close>

record plan_state =
  waves :: "nat list list"
  wave_keys :: "string set list"
  wave_open :: "bool list"

definition target_wave :: "string option \<Rightarrow> plan_state \<Rightarrow> nat option" where
  "target_wave key p =
     (case key of
        None \<Rightarrow> position (\<lambda>opened. opened) (wave_open p)
      | Some k \<Rightarrow>
          position (\<lambda>(w, opened). opened \<and> \<not> (w < length (wave_keys p) \<and> k \<in> wave_keys p ! w))
            (enumerate 0 (wave_open p)))"

definition push_wave :: "nat list \<Rightarrow> bool \<Rightarrow> plan_state \<Rightarrow> plan_state" where
  "push_wave members opened p =
     \<lparr>waves = waves p @ [members], wave_keys = wave_keys p @ [{}], wave_open = wave_open p @ [opened]\<rparr>"

definition join_wave :: "graph_node \<Rightarrow> nat \<Rightarrow> plan_state \<Rightarrow> plan_state" where
  "join_wave node w p =
     p\<lparr>waves := (waves p)[w := waves p ! w @ [idx node]],
       wave_keys := (case resource_key node of
           None \<Rightarrow> wave_keys p
         | Some k \<Rightarrow> (wave_keys p)[w := insert k (wave_keys p ! w)])\<rparr>"

definition place_node :: "plan_state \<Rightarrow> graph_node \<Rightarrow> plan_state" where
  "place_node p node =
     (if \<not> parallelizable node then push_wave [idx node] False p
      else
        (case target_wave (resource_key node) p of
           Some w \<Rightarrow> join_wave node w p
         | None \<Rightarrow> join_wave node (length (waves p)) (push_wave [] True p)))"

definition empty_plan :: plan_state where
  "empty_plan = \<lparr>waves = [], wave_keys = [], wave_open = []\<rparr>"

definition plan :: "graph_node list \<Rightarrow> nat list list" where
  "plan nodes = waves (foldl place_node empty_plan nodes)"

subsection \<open>Dispatching the batch\<close>

text \<open>
  \<open>exec i tc\<close> is what executing the \<open>i\<close>-th call answers, \<open>polled k\<close> the \<open>k\<close>-th poll of
  the cancel flag. A wave's tasks run concurrently, at most \<open>dispatch_permits\<close> at once, but their
  outcomes are read in the wave's order after all of them have finished, so the schedule inside a
  wave is not visible here.
\<close>

fun sequential_from ::
  "(nat \<Rightarrow> bool) \<Rightarrow> (nat \<Rightarrow> 'v tool_call \<Rightarrow> dispatch_result result) \<Rightarrow> nat \<Rightarrow> 'v tool_call list
   \<Rightarrow> dispatch_result list result" where
  "sequential_from polled exec i [] = Inr []"
| "sequential_from polled exec i (call # calls) =
     (if polled i then Inl ErrCancelled
      else
        (case exec i call of
           Inl e \<Rightarrow> Inl e
         | Inr r \<Rightarrow>
             (case sequential_from polled exec (Suc i) calls of
                Inl e \<Rightarrow> Inl e
              | Inr rs \<Rightarrow> Inr (r # rs))))"

definition dispatch_tools_sequential ::
  "(nat \<Rightarrow> bool) \<Rightarrow> (nat \<Rightarrow> 'v tool_call \<Rightarrow> dispatch_result result) \<Rightarrow> 'v tool_call list
   \<Rightarrow> dispatch_result list result" where
  "dispatch_tools_sequential polled exec calls = sequential_from polled exec 0 calls"

definition dispatch_permits :: "nat \<Rightarrow> nat \<Rightarrow> nat" where
  "dispatch_permits max_concurrency n = min (max 1 max_concurrency) n"

definition wave_task ::
  "(nat \<Rightarrow> 'v tool_call \<Rightarrow> dispatch_result result) \<Rightarrow> 'v tool_call list \<Rightarrow> nat
   \<Rightarrow> dispatch_result result option" where
  "wave_task exec calls i = (if i < length calls then Some (exec i (calls ! i)) else None)"

fun collect_wave ::
  "(nat \<Rightarrow> dispatch_result result option) \<Rightarrow> nat list \<Rightarrow> dispatch_result option list
   \<Rightarrow> dispatch_result option list result" where
  "collect_wave task [] results = Inr results"
| "collect_wave task (i # rest) results =
     (case task i of
        None \<Rightarrow> Inl ErrCancelled
      | Some (Inr r) \<Rightarrow> collect_wave task rest (results[i := Some r])
      | Some (Inl e) \<Rightarrow> Inl e)"

fun run_waves ::
  "(nat \<Rightarrow> bool) \<Rightarrow> (nat \<Rightarrow> dispatch_result result option) \<Rightarrow> nat \<Rightarrow> nat list list
   \<Rightarrow> dispatch_result option list \<Rightarrow> dispatch_result option list result" where
  "run_waves polled task w [] results = Inr results"
| "run_waves polled task w (wave # rest) results =
     (if polled w then Inl ErrCancelled
      else
        (case collect_wave task wave results of
           Inl e \<Rightarrow> Inl e
         | Inr results' \<Rightarrow> run_waves polled task (Suc w) rest results'))"

definition dispatch_tools_parallel ::
  "(string \<Rightarrow> 'v planned_tool option) \<Rightarrow> (nat \<Rightarrow> bool)
   \<Rightarrow> (nat \<Rightarrow> 'v tool_call \<Rightarrow> dispatch_result result) \<Rightarrow> 'v tool_call list
   \<Rightarrow> dispatch_result list result" where
  "dispatch_tools_parallel registry polled exec calls =
     (if length calls < 2 then dispatch_tools_sequential polled exec calls
      else
        (case run_waves polled (wave_task exec calls) 0 (plan (from_calls calls registry))
               (replicate (length calls) None) of
           Inl e \<Rightarrow> Inl e
         | Inr results \<Rightarrow>
             Inr (map (\<lambda>(i, r). case r of Some res \<Rightarrow> res
                    | None \<Rightarrow> missing_result (if i < length calls then Some (calls ! i) else None))
                  (enumerate 0 results))))"

datatype parallel_mode = Sequential | Parallel

definition dispatch_tools ::
  "parallel_mode \<Rightarrow> (string \<Rightarrow> 'v planned_tool option) \<Rightarrow> (nat \<Rightarrow> bool)
   \<Rightarrow> (nat \<Rightarrow> 'v tool_call \<Rightarrow> dispatch_result result) \<Rightarrow> 'v tool_call list
   \<Rightarrow> dispatch_result list result" where
  "dispatch_tools mode registry polled exec calls =
     (case mode of
        Parallel \<Rightarrow> dispatch_tools_parallel registry polled exec calls
      | Sequential \<Rightarrow> dispatch_tools_sequential polled exec calls)"

section \<open>Properties of dispatch\<close>

subsection \<open>The planner\<close>

text \<open>
  Two calls conflict when they must not run in one wave and must keep their order: both serial, or
  both parallel on the same resource.
\<close>

definition conflict :: "(nat \<Rightarrow> bool) \<Rightarrow> (nat \<Rightarrow> string option) \<Rightarrow> nat \<Rightarrow> nat \<Rightarrow> bool" where
  "conflict par key i j =
     ((\<not> par i \<and> \<not> par j) \<or> (par i \<and> par j \<and> key i = key j \<and> key i \<noteq> None))"

definition wave_ok ::
  "(nat \<Rightarrow> bool) \<Rightarrow> (nat \<Rightarrow> string option) \<Rightarrow> nat list \<Rightarrow> string set \<Rightarrow> bool \<Rightarrow> bool" where
  "wave_ok par key members keys opened \<longleftrightarrow>
     (if opened
      then members \<noteq> [] \<and> (\<forall>i \<in> set members. par i) \<and>
        keys = {k. \<exists>i \<in> set members. key i = Some k} \<and>
        (\<forall>i \<in> set members. \<forall>j \<in> set members. i \<noteq> j \<longrightarrow> \<not> conflict par key i j)
      else \<exists>i. members = [i] \<and> \<not> par i)"

definition prefix_closed :: "plan_state \<Rightarrow> bool" where
  "prefix_closed p \<longleftrightarrow>
     (\<forall>w < length (waves p). \<forall>v < w. \<forall>k. wave_open p ! w \<and> wave_open p ! v \<and>
        k \<in> wave_keys p ! w \<longrightarrow> k \<in> wave_keys p ! v)"

definition conflicts_ordered :: "(nat \<Rightarrow> bool) \<Rightarrow> (nat \<Rightarrow> string option) \<Rightarrow> nat list list \<Rightarrow> bool" where
  "conflicts_ordered par key ws \<longleftrightarrow>
     (\<forall>w < length ws. \<forall>v < w. \<forall>i \<in> set (ws ! v). \<forall>j \<in> set (ws ! w).
        conflict par key i j \<longrightarrow> i < j)"

definition plan_inv :: "(nat \<Rightarrow> bool) \<Rightarrow> (nat \<Rightarrow> string option) \<Rightarrow> nat \<Rightarrow> plan_state \<Rightarrow> bool" where
  "plan_inv par key n p \<longleftrightarrow>
     length (wave_keys p) = length (waves p) \<and> length (wave_open p) = length (waves p) \<and>
     mset (concat (waves p)) = mset [0..<n] \<and>
     (\<forall>w < length (waves p). wave_ok par key (waves p ! w) (wave_keys p ! w) (wave_open p ! w)) \<and>
     prefix_closed p \<and> conflicts_ordered par key (waves p)"

lemma plan_inv_empty: "plan_inv par key 0 empty_plan"
  by (simp add: plan_inv_def empty_plan_def prefix_closed_def conflicts_ordered_def)

lemma mset_concat_update:
  "w < length xss \<Longrightarrow> mset (concat (xss[w := xss ! w @ [x]])) = add_mset x (mset (concat xss))"
proof (induction xss arbitrary: w)
  case (Cons xs xss)
  then show ?case by (cases w) simp_all
qed simp

lemma plan_inv_members:
  assumes "plan_inv par key n p" and "w < length (waves p)" and "i \<in> set (waves p ! w)"
  shows "i < n"
proof -
  have "set_mset (mset (concat (waves p))) = set_mset (mset [0..<n])"
    using assms(1) by (simp add: plan_inv_def)
  moreover have "i \<in> set (concat (waves p))" using assms(2,3) nth_mem by fastforce
  ultimately show ?thesis by auto
qed

lemma target_wave_Some:
  assumes "target_wave key p = Some w" and "length (wave_keys p) = length (wave_open p)"
  shows "w < length (wave_open p)" and "wave_open p ! w"
    and "key = Some k \<Longrightarrow> k \<notin> wave_keys p ! w"
    and "key = Some k \<Longrightarrow> v < w \<Longrightarrow> wave_open p ! v \<Longrightarrow> k \<in> wave_keys p ! v"
proof -
  have all: "w < length (wave_open p) \<and> wave_open p ! w \<and> (\<forall>k. key = Some k \<longrightarrow> k \<notin> wave_keys p ! w)"
    using assms by (cases key) (auto simp: target_wave_def nth_enumerate_eq dest!: position_Some)
  then show "w < length (wave_open p)" "wave_open p ! w" "key = Some k \<Longrightarrow> k \<notin> wave_keys p ! w"
    by simp_all
  assume k: "key = Some k" and v: "v < w" "wave_open p ! v"
  then have "position (\<lambda>(w, opened). opened \<and> \<not> (w < length (wave_keys p) \<and> k \<in> wave_keys p ! w))
      (enumerate 0 (wave_open p)) = Some w"
    using assms(1) by (simp add: target_wave_def)
  from position_first [OF this v(1)] show "k \<in> wave_keys p ! v"
    using v all by (simp add: nth_enumerate_eq)
qed

lemma target_wave_None:
  assumes "target_wave (Some k) p = None" and "w < length (wave_open p)" and "wave_open p ! w"
  shows "k \<in> wave_keys p ! w"
  using assms by (fastforce simp: target_wave_def position_None in_set_enumerate_eq)

lemma plan_invD:
  assumes "plan_inv par key n p"
  shows "length (wave_keys p) = length (waves p)" and "length (wave_open p) = length (waves p)"
    and "mset (concat (waves p)) = mset [0..<n]"
    and "w < length (waves p) \<Longrightarrow> wave_ok par key (waves p ! w) (wave_keys p ! w) (wave_open p ! w)"
    and "prefix_closed p" and "conflicts_ordered par key (waves p)"
  using assms by (simp_all add: plan_inv_def)

lemma prefix_closedD:
  "\<lbrakk>prefix_closed p; w < length (waves p); v < w; wave_open p ! w; wave_open p ! v;
    k \<in> wave_keys p ! w\<rbrakk> \<Longrightarrow> k \<in> wave_keys p ! v"
  by (simp add: prefix_closed_def)

lemma conflicts_orderedD:
  "\<lbrakk>conflicts_ordered par key ws; w < length ws; v < w; i \<in> set (ws ! v); j \<in> set (ws ! w);
    conflict par key i j\<rbrakk> \<Longrightarrow> i < j"
  unfolding conflicts_ordered_def by blast

lemma join_pushed:
  "length (wave_keys p) = length (waves p) \<Longrightarrow>
   join_wave node (length (waves p)) (push_wave [] True p) =
     \<lparr>waves = waves p @ [[idx node]], wave_keys = wave_keys p @ [set_option (resource_key node)],
      wave_open = wave_open p @ [True]\<rparr>"
  by (cases "resource_key node")
     (simp_all add: join_wave_def push_wave_def nth_append list_update_append)

text \<open>Appending a wave that holds the one call \<open>n\<close>, and joining \<open>n\<close> to an open wave.\<close>

lemma plan_inv_append:
  assumes inv: "plan_inv par key n p"
    and ok: "wave_ok par key [n] ks opened"
    and closed: "\<And>k v. opened \<Longrightarrow> k \<in> ks \<Longrightarrow> v < length (waves p) \<Longrightarrow> wave_open p ! v \<Longrightarrow>
      k \<in> wave_keys p ! v"
  shows "plan_inv par key (Suc n) \<lparr>waves = waves p @ [[n]], wave_keys = wave_keys p @ [ks],
    wave_open = wave_open p @ [opened]\<rparr>"
proof -
  let ?p = "\<lparr>waves = waves p @ [[n]], wave_keys = wave_keys p @ [ks], wave_open = wave_open p @ [opened]\<rparr>"
  note old = plan_invD [OF inv]
  have "wave_ok par key (waves ?p ! w) (wave_keys ?p ! w) (wave_open ?p ! w)"
    if "w < length (waves ?p)" for w
    using that ok old(1,2) old(4) [of w] by (cases "w = length (waves p)") (simp_all add: nth_append)
  moreover have "prefix_closed ?p"
    unfolding prefix_closed_def
  proof (intro allI impI; elim conjE)
    fix w v k
    assume "w < length (waves ?p)" "v < w" "wave_open ?p ! w" "wave_open ?p ! v" "k \<in> wave_keys ?p ! w"
    then show "k \<in> wave_keys ?p ! v"
      using old(1,2) closed [of k v] prefix_closedD [OF old(5), of w v k]
      by (cases "w = length (waves p)") (simp_all add: nth_append)
  qed
  moreover have "conflicts_ordered par key (waves ?p)"
    unfolding conflicts_ordered_def
  proof (intro allI impI ballI)
    fix w v i j
    assume "w < length (waves ?p)" "v < w" "i \<in> set (waves ?p ! v)" "j \<in> set (waves ?p ! w)"
      "conflict par key i j"
    then show "i < j"
      using plan_inv_members [OF inv, of v i] conflicts_orderedD [OF old(6), of w v i j]
      by (cases "w = length (waves p)") (simp_all add: nth_append)
  qed
  ultimately show ?thesis using old(1-3) by (simp add: plan_inv_def)
qed

lemma plan_inv_join:
  assumes inv: "plan_inv par key n p" and node: "idx node = n" "resource_key node = key n" "par n"
    and w: "target_wave (key n) p = Some w"
  shows "plan_inv par key (Suc n) (join_wave node w p)"
proof -
  let ?p = "join_wave node w p"
  note old = plan_invD [OF inv] and t = target_wave_Some [OF w]
  have lt: "w < length (waves p)" and op: "wave_open p ! w"
    using t(1,2) old(1,2) by simp_all
  have ok: "wave_ok par key (waves p ! w) (wave_keys p ! w) True"
    using old(4) [OF lt] op by simp
  have fresh: "key n \<noteq> Some k" if "k \<in> wave_keys p ! w" for k
    using t(3) [of k] that old(1,2) by auto
  have waves: "waves ?p = (waves p)[w := waves p ! w @ [n]]" and opens: "wave_open ?p = wave_open p"
    using node by (simp_all add: join_wave_def)
  have keys: "wave_keys ?p = (wave_keys p)[w := set_option (key n) \<union> wave_keys p ! w]"
    using node old(1) lt by (cases "key n") (simp_all add: join_wave_def)
  have apart: "\<not> conflict par key i n \<and> \<not> conflict par key n i" if "i \<in> set (waves p ! w)" for i
  proof -
    have "key i \<noteq> Some k" if "key n = Some k" for k
      using ok fresh [of k] that \<open>i \<in> set (waves p ! w)\<close> by (auto simp: wave_ok_def)
    then show ?thesis using node(3) by (cases "key n"; cases "key i") (simp_all add: conflict_def)
  qed
  have "wave_ok par key (waves p ! w @ [n]) (set_option (key n) \<union> wave_keys p ! w) True"
    unfolding wave_ok_def if_True
  proof (intro conjI)
    show "set_option (key n) \<union> wave_keys p ! w = {k. \<exists>i \<in> set (waves p ! w @ [n]). key i = Some k}"
      using ok by (cases "key n") (auto simp: wave_ok_def)
    show "\<forall>i \<in> set (waves p ! w @ [n]). par i" using ok node(3) by (simp add: wave_ok_def)
    show "\<forall>i \<in> set (waves p ! w @ [n]). \<forall>j \<in> set (waves p ! w @ [n]).
        i \<noteq> j \<longrightarrow> \<not> conflict par key i j"
      using ok apart unfolding wave_ok_def if_True by simp
  qed simp
  then have "wave_ok par key (waves ?p ! v) (wave_keys ?p ! v) (wave_open ?p ! v)"
    if "v < length (waves ?p)" for v
    using that old(1,2) old(4) [of v] op lt unfolding waves keys opens by (cases "v = w") simp_all
  moreover have "prefix_closed ?p"
    unfolding prefix_closed_def
  proof (intro allI impI; elim conjE)
    fix u v k
    assume *: "u < length (waves ?p)" "v < u" "wave_open ?p ! u" "wave_open ?p ! v" "k \<in> wave_keys ?p ! u"
    show "k \<in> wave_keys ?p ! v"
    proof (cases "u = w \<and> key n = Some k")
      case True
      with * show ?thesis using t(4) [of k v] old(1,2) lt by (simp add: keys opens)
    next
      case False
      with * have "k \<in> wave_keys p ! u" using old(1) by (cases "u = w") (auto simp: keys waves)
      with * have "k \<in> wave_keys p ! v" using prefix_closedD [OF old(5)] by (simp add: waves opens)
      then show ?thesis using old(1) lt by (cases "v = w") (simp_all add: keys)
    qed
  qed
  moreover have "conflicts_ordered par key (waves ?p)"
    unfolding conflicts_ordered_def
  proof (intro allI impI ballI)
    fix u v i j
    assume *: "u < length (waves ?p)" "v < u" "i \<in> set (waves ?p ! v)" "j \<in> set (waves ?p ! u)"
      "conflict par key i j"
    have "\<not> (v = w \<and> i = n \<and> j \<in> set (waves p ! u))"
    proof
      assume c: "v = w \<and> i = n \<and> j \<in> set (waves p ! u)"
      then obtain k where k: "key n = Some k" "key j = Some k" "par j"
        using *(5) node by (cases "key n") (auto simp: conflict_def)
      have u: "u < length (waves p)" using * by (simp add: waves)
      have "wave_open p ! u \<and> k \<in> wave_keys p ! u"
        using old(4) [OF u] c k by (auto simp: wave_ok_def split: if_splits)
      then have "k \<in> wave_keys p ! w" using prefix_closedD [OF old(5) u] *(2) c op by blast
      with fresh k show False by blast
    qed
    then show "i < j"
      using * plan_inv_members [OF inv, of v i] conflicts_orderedD [OF old(6), of u v i j] lt
      by (cases "u = w"; cases "v = w") (auto simp: waves)
  qed
  moreover have "mset (concat (waves ?p)) = mset [0..<Suc n]"
    using old(3) lt by (simp add: waves mset_concat_update)
  ultimately show ?thesis using old(1,2) by (simp add: plan_inv_def waves keys opens)
qed

lemma plan_inv_place:
  assumes inv: "plan_inv par key n p"
    and node: "idx node = n" "parallelizable node = par n" "resource_key node = key n"
  shows "plan_inv par key (Suc n) (place_node p node)"
proof (cases "par n")
  case False
  then have "wave_ok par key [n] {} False" by (simp add: wave_ok_def)
  from plan_inv_append [OF inv this] False node show ?thesis
    by (simp add: place_node_def push_wave_def)
next
  case True
  show ?thesis
  proof (cases "target_wave (key n) p")
    case None
    have "wave_ok par key [n] (set_option (key n)) True" using True by (auto simp: wave_ok_def)
    moreover have "k \<in> wave_keys p ! v"
      if "k \<in> set_option (key n)" "v < length (waves p)" "wave_open p ! v" for k v
      using target_wave_None [of k p v] None that plan_invD(2) [OF inv] by simp
    ultimately have "plan_inv par key (Suc n) \<lparr>waves = waves p @ [[n]],
        wave_keys = wave_keys p @ [set_option (key n)], wave_open = wave_open p @ [True]\<rparr>"
      by (rule plan_inv_append [OF inv])
    with None True node show ?thesis
      by (simp add: place_node_def join_pushed plan_invD(1) [OF inv])
  next
    case (Some w)
    with plan_inv_join [OF inv _ _ _ Some] True node show ?thesis by (simp add: place_node_def)
  qed
qed

lemma plan_inv_foldl:
  assumes "plan_inv par key n p"
    and "map idx nodes = [n..<n + length nodes]"
    and "\<And>node. node \<in> set nodes \<Longrightarrow>
      parallelizable node = par (idx node) \<and> resource_key node = key (idx node)"
  shows "plan_inv par key (n + length nodes) (foldl place_node p nodes)"
  using assms
proof (induction nodes arbitrary: n p)
  case (Cons node nodes)
  then have "idx node = n" and idxs: "map idx nodes = [Suc n..<Suc n + length nodes]"
    by (simp_all add: upt_conv_Cons del: upt_Suc)
  with Cons.prems have "plan_inv par key (Suc n) (place_node p node)"
    by (intro plan_inv_place) auto
  from Cons.IH [OF this idxs] Cons.prems(3) show ?case by simp
qed simp

text \<open>What the planner knows of the call with index \<open>i\<close>.\<close>

definition call_parallel :: "(string \<Rightarrow> 'v planned_tool option) \<Rightarrow> 'v tool_call list \<Rightarrow> nat \<Rightarrow> bool" where
  "call_parallel registry calls i =
     (case registry (tc_tool (calls ! i)) of
        None \<Rightarrow> False
      | Some tool \<Rightarrow> safe_for_concurrent_execution tool (tc_input (calls ! i)))"

definition call_resource ::
  "(string \<Rightarrow> 'v planned_tool option) \<Rightarrow> 'v tool_call list \<Rightarrow> nat \<Rightarrow> string option" where
  "call_resource registry calls i =
     (if call_parallel registry calls i
      then Option.bind (registry (tc_tool (calls ! i))) (\<lambda>tool. tool_resource_key tool (tc_input (calls ! i)))
      else None)"

lemma graph_node_fields:
  "idx (graph_node_of registry i call) = i"
  "parallelizable (graph_node_of registry i (calls ! i)) = call_parallel registry calls i"
  "resource_key (graph_node_of registry i (calls ! i)) = call_resource registry calls i"
  by (simp_all add: graph_node_of_def call_parallel_def call_resource_def Let_def split: option.splits)

lemma plan_inv_from_calls:
  "plan_inv (call_parallel registry calls) (call_resource registry calls) (length calls)
     (foldl place_node empty_plan (from_calls calls registry))"
proof -
  have "map idx (from_calls calls registry) = [0..<0 + length (from_calls calls registry)]"
    by (rule nth_equalityI) (simp_all add: from_calls_def nth_enumerate_eq graph_node_fields)
  moreover have "parallelizable node = call_parallel registry calls (idx node) \<and>
      resource_key node = call_resource registry calls (idx node)"
    if "node \<in> set (from_calls calls registry)" for node
    using that by (auto simp: from_calls_def in_set_enumerate_eq graph_node_fields)
  ultimately show ?thesis
    using plan_inv_foldl [OF plan_inv_empty, of "from_calls calls registry"]
    by (simp add: from_calls_def)
qed

text \<open>
  C23: the planned waves hold every call of the batch exactly once; no wave is empty, and two
  different calls share a wave only when both declared themselves safe to run concurrently and do
  not name the same resource.
\<close>

theorem waves_partition_batch:
  "mset (concat (plan (from_calls calls registry))) = mset [0..<length calls] \<and>
   (\<forall>wave \<in> set (plan (from_calls calls registry)). wave \<noteq> [] \<and>
      (\<forall>i \<in> set wave. \<forall>j \<in> set wave. i \<noteq> j \<longrightarrow>
         call_parallel registry calls i \<and> call_parallel registry calls j \<and>
         (call_resource registry calls i = call_resource registry calls j \<longrightarrow>
          call_resource registry calls i = None)))"
proof -
  let ?p = "foldl place_node empty_plan (from_calls calls registry)"
  note inv = plan_invD [OF plan_inv_from_calls [of registry calls]]
  have "wave \<noteq> [] \<and> (\<forall>i \<in> set wave. \<forall>j \<in> set wave. i \<noteq> j \<longrightarrow>
      call_parallel registry calls i \<and> call_parallel registry calls j \<and>
      (call_resource registry calls i = call_resource registry calls j \<longrightarrow>
       call_resource registry calls i = None))" if member: "wave \<in> set (waves ?p)" for wave
  proof -
    from member obtain w where "w < length (waves ?p)" "wave = waves ?p ! w" by (auto simp: in_set_conv_nth)
    with inv(4) [of w] show ?thesis by (auto simp: wave_ok_def conflict_def split: if_splits)
  qed
  with inv(3) show ?thesis by (simp add: plan_def)
qed

text \<open>
  calls that conflict keep their order: of two calls on the same resource, and of two calls
  that are not safe to run concurrently, the later call of the batch runs in a later wave.
\<close>

theorem conflicting_calls_keep_order:
  assumes "i < j" and "i \<in> set (plan (from_calls calls registry) ! v)"
    and "j \<in> set (plan (from_calls calls registry) ! w)"
    and "v < length (plan (from_calls calls registry))"
    and "w < length (plan (from_calls calls registry))"
    and "conflict (call_parallel registry calls) (call_resource registry calls) i j"
  shows "v < w"
proof (rule ccontr)
  let ?p = "foldl place_node empty_plan (from_calls calls registry)"
  note inv = plan_invD [OF plan_inv_from_calls [of registry calls]]
  assume "\<not> v < w"
  then consider "v = w" | "w < v" by linarith
  then show False
  proof cases
    case 1
    with assms inv(4) [of v] show False by (auto simp: plan_def wave_ok_def split: if_splits)
  next
    case 2
    have "conflict (call_parallel registry calls) (call_resource registry calls) j i"
      using assms(6) unfolding conflict_def by metis
    with conflicts_orderedD [OF inv(6) _ 2, of j i] assms show False by (simp add: plan_def)
  qed
qed

text \<open>The parallelizable calls of one tool on one file: two on \<open>a\<close>, one serial call between.\<close>

definition demo_registry :: "string \<Rightarrow> string planned_tool option" where
  "demo_registry name =
     (if name = ''read'' then Some \<lparr>safe_for_concurrent_execution = (\<lambda>_. True), tool_resource_key = Some\<rparr>
      else if name = ''write'' then Some \<lparr>safe_for_concurrent_execution = (\<lambda>_. False), tool_resource_key = Some\<rparr>
      else None)"

definition demo_call :: "string \<Rightarrow> string \<Rightarrow> string tool_call" where
  "demo_call tool path = \<lparr>tc_id = tool, tc_tool = tool, tc_input = path\<rparr>"

definition demo_batch :: "string tool_call list" where
  "demo_batch = [demo_call ''read'' ''a'', demo_call ''write'' ''b'', demo_call ''read'' ''a'',
     demo_call ''read'' ''b'']"

lemma demo_plan: "plan (from_calls demo_batch demo_registry) = [[0, 3], [1], [2]]"
  by code_simp

lemma demo_conflict:
  "conflict (call_parallel demo_registry demo_batch) (call_resource demo_registry demo_batch) 0 2"
  by code_simp

theorem conflicting_calls_keep_order_witness:
  "conflict (call_parallel demo_registry demo_batch) (call_resource demo_registry demo_batch) 0 2 \<and>
   (0::nat) < 2"
  using conflicting_calls_keep_order [of 0 2 demo_batch demo_registry 0 2] demo_conflict
  by (simp add: demo_plan)

text \<open>
  A call that is safe to run concurrently may run before an earlier call that is not: in a
  batch read a, write b, read a, read b the last read joins the first wave and runs before the
  write of the same file.
\<close>

theorem parallel_call_overtakes_serial:
  "plan (from_calls
      [demo_call ''read'' ''a'', demo_call ''write'' ''b'', demo_call ''read'' ''a'',
       demo_call ''read'' ''b''] demo_registry) = [[0, 3], [1], [2]]"
  using demo_plan by (simp add: demo_batch_def)

subsection \<open>The results of a batch\<close>

text \<open>The results vector once the calls \<open>ks\<close> have answered.\<close>

definition filled :: "(nat \<Rightarrow> dispatch_result) \<Rightarrow> nat list \<Rightarrow> dispatch_result option list
  \<Rightarrow> dispatch_result option list" where
  "filled res ks results = foldl (\<lambda>rs k. rs[k := Some (res k)]) results ks"

lemma length_filled [simp]: "length (filled res ks results) = length results"
  by (induction ks arbitrary: results) (simp_all add: filled_def)

lemma nth_filled:
  "k < length results \<Longrightarrow>
   filled res ks results ! k = (if k \<in> set ks then Some (res k) else results ! k)"
  by (induction ks arbitrary: results) (auto simp: filled_def nth_list_update)

lemma filled_append: "filled res (ks @ ls) results = filled res ls (filled res ks results)"
  by (simp add: filled_def)

lemma collect_wave_answers:
  "(\<And>k. k \<in> set ks \<Longrightarrow> task k = Some (Inr (res k))) \<Longrightarrow>
   collect_wave task ks results = Inr (filled res ks results)"
  by (induction ks arbitrary: results) (simp_all add: filled_def)

lemma run_waves_answers:
  "(\<And>k. k \<in> set (concat ws) \<Longrightarrow> task k = Some (Inr (res k))) \<Longrightarrow>
   run_waves (\<lambda>_. False) task n ws results = Inr (filled res (concat ws) results)"
proof (induction ws arbitrary: n results)
  case (Cons ks ws)
  then have "collect_wave task ks results = Inr (filled res ks results)"
    by (intro collect_wave_answers) simp
  with Cons show ?case by (simp add: filled_append)
qed (simp add: filled_def)

lemma collect_wave_fails:
  "collect_wave task ks results = Inl e \<Longrightarrow> (\<And>k. k \<in> set ks \<Longrightarrow> task k = Some (answer k)) \<Longrightarrow>
   \<exists>k \<in> set ks. answer k = Inl e"
  by (induction ks arbitrary: results) (auto split: sum.splits)

lemma run_waves_fails:
  "run_waves (\<lambda>_. False) task n ws results = Inl e \<Longrightarrow>
   (\<And>k. k \<in> set (concat ws) \<Longrightarrow> task k = Some (answer k)) \<Longrightarrow> \<exists>k \<in> set (concat ws). answer k = Inl e"
proof (induction ws arbitrary: n results)
  case (Cons ks ws)
  show ?case
  proof (cases "collect_wave task ks results")
    case (Inl e')
    with Cons.prems collect_wave_fails [OF Inl, of answer] show ?thesis by auto
  next
    case (Inr results')
    with Cons.prems Cons.IH [of "Suc n" results'] show ?thesis by auto
  qed
qed simp

lemma plan_members: "set (concat (plan (from_calls calls registry))) = {..<length calls}"
proof -
  have "set_mset (mset (concat (plan (from_calls calls registry)))) = set_mset (mset [0..<length calls])"
    using plan_invD(3) [OF plan_inv_from_calls [of registry calls]] by (simp only: plan_def)
  then show ?thesis by (simp add: atLeast0LessThan)
qed

lemma wave_task_planned:
  "k \<in> set (concat (plan (from_calls calls registry))) \<Longrightarrow>
   wave_task exec calls k = Some (exec k (calls ! k))"
  by (simp add: plan_members wave_task_def del: set_concat)

lemma parallel_answers:
  assumes answers: "\<And>k. k < length calls \<Longrightarrow> exec k (calls ! k) = Inr (res k)"
    and "2 \<le> length calls"
  shows "dispatch_tools_parallel registry (\<lambda>_. False) exec calls = Inr (map res [0..<length calls])"
proof -
  let ?ws = "plan (from_calls calls registry)"
  have "wave_task exec calls k = Some (Inr (res k))" if "k \<in> set (concat ?ws)" for k
    using that answers [of k] wave_task_planned [OF that] by (simp add: plan_members del: set_concat)
  then have "run_waves (\<lambda>_. False) (wave_task exec calls) 0 ?ws (replicate (length calls) None) =
      Inr (filled res (concat ?ws) (replicate (length calls) None))"
    by (rule run_waves_answers)
  moreover have "filled res (concat ?ws) (replicate (length calls) None) =
      map (Some \<circ> res) [0..<length calls]"
    by (rule nth_equalityI) (simp_all add: nth_filled plan_members del: set_concat)
  ultimately show ?thesis using assms(2)
    by (simp add: dispatch_tools_parallel_def) (rule nth_equalityI, simp_all add: nth_enumerate_eq)
qed

lemma collect_wave_all:
  "collect_wave task ks results = Inr results' \<Longrightarrow>
   (\<And>k. k \<in> set ks \<Longrightarrow> task k = Some (answer k)) \<Longrightarrow> k \<in> set ks \<Longrightarrow> \<not> isl (answer k)"
  by (induction ks arbitrary: results) (auto split: sum.splits)

lemma run_waves_all:
  "run_waves (\<lambda>_. False) task n ws results = Inr results' \<Longrightarrow>
   (\<And>k. k \<in> set (concat ws) \<Longrightarrow> task k = Some (answer k)) \<Longrightarrow> k \<in> set (concat ws) \<Longrightarrow>
   \<not> isl (answer k)"
proof (induction ws arbitrary: n results)
  case (Cons ks ws)
  show ?case
  proof (cases "collect_wave task ks results")
    case (Inr results'')
    with Cons.prems Cons.IH [of "Suc n" results''] collect_wave_all [OF Inr, of answer k] show ?thesis
      by auto
  next
    case (Inl e')
    with Cons.prems(1) show ?thesis by simp
  qed
qed simp

lemma parallel_all:
  assumes "dispatch_tools_parallel registry (\<lambda>_. False) exec calls = Inr rs" and "2 \<le> length calls"
    and "k < length calls"
  shows "\<not> isl (exec k (calls ! k))"
proof -
  let ?ws = "plan (from_calls calls registry)"
  obtain results where "run_waves (\<lambda>_. False) (wave_task exec calls) 0 ?ws
      (replicate (length calls) None) = Inr results"
    using assms by (auto simp: dispatch_tools_parallel_def split: sum.splits)
  from run_waves_all [OF this wave_task_planned] assms(3) show ?thesis
    by (simp add: plan_members del: set_concat)
qed

lemma parallel_fails:
  assumes "dispatch_tools_parallel registry (\<lambda>_. False) exec calls = Inl e" and "2 \<le> length calls"
  shows "\<exists>k < length calls. exec k (calls ! k) = Inl e"
proof -
  let ?ws = "plan (from_calls calls registry)"
  have "run_waves (\<lambda>_. False) (wave_task exec calls) 0 ?ws (replicate (length calls) None) = Inl e"
    using assms by (simp add: dispatch_tools_parallel_def split: sum.splits)
  from run_waves_fails [OF this wave_task_planned] show ?thesis
    by (auto simp: plan_members simp del: set_concat)
qed

lemma sequential_from_outcome:
  "case sequential_from (\<lambda>_. False) exec i calls of
     Inl e \<Rightarrow> \<exists>k < length calls. exec (i + k) (calls ! k) = Inl e \<and>
       (\<forall>l < k. \<not> isl (exec (i + l) (calls ! l)))
   | Inr rs \<Rightarrow> length rs = length calls \<and> (\<forall>k < length calls. exec (i + k) (calls ! k) = Inr (rs ! k))"
proof (induction calls arbitrary: i)
  case (Cons call calls)
  show ?case
  proof (cases "exec i call")
    case (Inl e)
    then show ?thesis by (auto intro!: exI [of _ 0])
  next
    case (Inr r)
    show ?thesis
    proof (cases "sequential_from (\<lambda>_. False) exec (Suc i) calls")
      case (Inl e)
      with Cons.IH [of "Suc i"] obtain k where "k < length calls" "exec (Suc i + k) (calls ! k) = Inl e"
        "\<forall>l < k. \<not> isl (exec (Suc i + l) (calls ! l))" by auto
      then have "Suc k < length (call # calls) \<and> exec (i + Suc k) ((call # calls) ! Suc k) = Inl e \<and>
          (\<forall>l < Suc k. \<not> isl (exec (i + l) ((call # calls) ! l)))"
        using \<open>exec i call = Inr r\<close> by (auto simp: less_Suc_eq_0_disj)
      then have "\<exists>k < length (call # calls). exec (i + k) ((call # calls) ! k) = Inl e \<and>
          (\<forall>l < k. \<not> isl (exec (i + l) ((call # calls) ! l)))" by blast
      with Inl \<open>exec i call = Inr r\<close> show ?thesis by simp
    next
      case (Inr rs)
      with Cons.IH [of "Suc i"] \<open>exec i call = Inr r\<close> show ?thesis
        by (auto simp: less_Suc_eq_0_disj)
    qed
  qed
qed simp

text \<open>
  C24: without cancellation a batch has one result per call, in the order of the calls, exactly
  what each call answered, whichever mode ran it and whatever waves were planned; it aborts only
  with an error that one of the calls answered, in the sequential mode the first.
\<close>

theorem batch_outcome:
  "case dispatch_tools mode registry (\<lambda>_. False) exec calls of
     Inl e \<Rightarrow> \<exists>k < length calls. exec k (calls ! k) = Inl e \<and>
       (mode = Sequential \<longrightarrow> (\<forall>l < k. \<not> isl (exec l (calls ! l))))
   | Inr rs \<Rightarrow> length rs = length calls \<and> (\<forall>k < length calls. exec k (calls ! k) = Inr (rs ! k))"
proof (cases "mode = Sequential \<or> length calls < 2")
  case True
  then have "dispatch_tools mode registry (\<lambda>_. False) exec calls =
      sequential_from (\<lambda>_. False) exec 0 calls"
    by (cases mode)
       (auto simp: dispatch_tools_def dispatch_tools_parallel_def dispatch_tools_sequential_def)
  with sequential_from_outcome [where exec = exec and i = 0 and calls = calls] show ?thesis by (auto split: sum.splits)
next
  case False
  then have mode: "mode = Parallel" and two: "2 \<le> length calls" by (cases mode; simp)+
  show ?thesis
  proof (cases "dispatch_tools_parallel registry (\<lambda>_. False) exec calls")
    case (Inl e)
    with parallel_fails [OF Inl two] mode show ?thesis by (simp add: dispatch_tools_def)
  next
    case (Inr rs)
    have answers: "exec k (calls ! k) = Inr (projr (exec k (calls ! k)))" if "k < length calls" for k
      using parallel_all [OF Inr two that] by (cases "exec k (calls ! k)") simp_all
    have "dispatch_tools_parallel registry (\<lambda>_. False) exec calls =
        Inr (map (\<lambda>k. projr (exec k (calls ! k))) [0..<length calls])"
      using answers two by (rule parallel_answers)
    with answers mode show ?thesis by (simp add: dispatch_tools_def)
  qed
qed

theorem batch_outcome_witness:
  "\<exists>rs. dispatch_tools Parallel demo_registry (\<lambda>_. False)
      (\<lambda>_ tc. Inr (dispatch_ok (tc_tool tc) (tc_input tc) 0)) demo_batch = Inr rs \<and>
    length rs = 4 \<and> rs ! 3 = dispatch_ok ''read'' ''b'' 0"
proof -
  have batch: "length demo_batch = 4" "demo_batch ! 3 = demo_call ''read'' ''b''"
    by (simp_all add: demo_batch_def)
  let ?run = "dispatch_tools Parallel demo_registry (\<lambda>_. False)
    (\<lambda>_ tc. Inr (dispatch_ok (tc_tool tc) (tc_input tc) 0)) demo_batch"
  obtain rs where "?run = Inr rs" "length rs = 4"
    "\<forall>k < 4. dispatch_ok (tc_tool (demo_batch ! k)) (tc_input (demo_batch ! k)) 0 = rs ! k"
    using batch_outcome [where mode = Parallel and registry = demo_registry and calls = demo_batch
        and exec = "\<lambda>_ tc. Inr (dispatch_ok (tc_tool tc) (tc_input tc) 0)"] batch(1)
    by (auto split: sum.splits)
  moreover from this(3) have "rs ! 3 = dispatch_ok ''read'' ''b'' 0"
    using batch(2) by (auto simp: demo_call_def dest: spec [of _ 3])
  ultimately show ?thesis by blast
qed

lemma demo_parallel: "call_parallel demo_registry demo_batch i \<longleftrightarrow> tc_tool (demo_batch ! i) = ''read''"
  by (simp add: call_parallel_def demo_registry_def)

theorem waves_partition_batch_witness:
  "plan (from_calls demo_batch demo_registry) = [[0, 3], [1], [2]] \<and>
   call_parallel demo_registry demo_batch 0 \<and> call_parallel demo_registry demo_batch 3"
  using waves_partition_batch [of demo_batch demo_registry] by (simp add: demo_plan)

subsection \<open>The gate records of a pipeline\<close>

definition gate_rank :: "gate_decision \<Rightarrow> nat" where
  "gate_rank g = gate_precedence (verdict g)"

lemma attach_gate_simps:
  "dr_gate r = None \<Longrightarrow> attach_gate g r = r\<lparr>dr_gate := Some g\<rparr>"
  "dr_gate r = Some h \<Longrightarrow> attach_gate g r = (if gate_rank h < gate_rank g then r\<lparr>dr_gate := Some g\<rparr> else r)"
  by (simp_all add: attach_gate_def gate_rank_def)

lemma fold_attach_gate:
  assumes "dr_gate r = None" and "gs \<noteq> []"
  shows "\<exists>i < length gs. fold attach_gate gs r = r\<lparr>dr_gate := Some (gs ! i)\<rparr> \<and>
    (\<forall>g \<in> set gs. gate_rank g \<le> gate_rank (gs ! i)) \<and>
    (\<forall>j < i. gate_rank (gs ! j) < gate_rank (gs ! i))"
  using assms(2)
proof (induction gs rule: rev_induct)
  case (snoc g gs)
  show ?case
  proof (cases "gs = []")
    case True
    with assms(1) show ?thesis by (simp add: attach_gate_simps)
  next
    case False
    then obtain i where i: "i < length gs" "fold attach_gate gs r = r\<lparr>dr_gate := Some (gs ! i)\<rparr>"
      "\<And>g. g \<in> set gs \<Longrightarrow> gate_rank g \<le> gate_rank (gs ! i)"
      "\<And>j. j < i \<Longrightarrow> gate_rank (gs ! j) < gate_rank (gs ! i)" using snoc.IH by blast
    show ?thesis
    proof (cases "gate_rank (gs ! i) < gate_rank g")
      case True
      have "gate_rank (gs ! j) < gate_rank g" if "j < length gs" for j
        using i(3) [of "gs ! j"] that True by simp
      moreover have "gate_rank h \<le> gate_rank g" if "h \<in> set gs" for h
        using i(3) [OF that] True by simp
      ultimately show ?thesis using True i(2)
        by (intro exI [of _ "length gs"]) (simp add: attach_gate_simps nth_append)
    next
      case small: False
      with i show ?thesis by (intro exI [of _ i]) (simp add: attach_gate_simps nth_append)
    qed
  qed
qed simp

text \<open>
  Of the gate records that a pipeline attaches to a result, one after another, exactly one
  survives: the first of those with the highest precedence. So a denial displaces every approval,
  no approval displaces a denial, and nothing else of the result changes.
\<close>

theorem gate_survivor:
  assumes "dr_gate r = None" and "gs \<noteq> []"
  shows "\<exists>i < length gs. fold attach_gate gs r = r\<lparr>dr_gate := Some (gs ! i)\<rparr> \<and>
    (\<forall>g \<in> set gs. gate_precedence (verdict g) \<le> gate_precedence (verdict (gs ! i))) \<and>
    (\<forall>j < i. gate_precedence (verdict (gs ! j)) < gate_precedence (verdict (gs ! i)))"
  using fold_attach_gate [OF assms] by (simp add: gate_rank_def)

theorem gate_survivor_witness:
  "dr_gate (fold attach_gate
      [new_gate_decision ''t'' AskAllowed ''ask'' AskResolverRule, new_gate_decision ''t'' Deny ''r'' MiddlewareRule]
      (dispatch_ok ''t'' ''out'' 0)) =
    Some (new_gate_decision ''t'' Deny ''r'' MiddlewareRule)"
  using gate_survivor [of "dispatch_ok ''t'' ''out'' 0"
      "[new_gate_decision ''t'' AskAllowed ''ask'' AskResolverRule, new_gate_decision ''t'' Deny ''r'' MiddlewareRule]"]
  by (auto simp: less_Suc_eq new_gate_decision_def dispatch_ok_def)

end
