(* ===== verification/Recovery.thy ===== *)
theory Recovery
  imports Dispatch
begin

section \<open>Recovery of failed tool calls\<close>

text \<open>
  src/src/reflection.rs: severities, corrections, analyses and recovery actions, and the no-op
  reflector; src/src/reflection/backoff.rs: the exponential backoff strategy; from
  src/src/engine/core/lifecycle.rs how a correction changes a call; and from
  src/src/engine/bare/dispatch.rs the retry loop of one call. A reflector and a strategy are
  trait objects, so they are parameters of the loop, as is what one dispatch answers
  (\<open>attempt_outcome\<close>) and whether the cancel signal fires during a backoff sleep. The loop's
  observer events, hooks and detection are part of what a dispatch answers.
\<close>

subsection \<open>Data\<close>

datatype failure_severity = Low | Medium | High | Critical

text \<open>The derived order of the enum is the order of its variants.\<close>

fun severity_rank :: "failure_severity \<Rightarrow> nat" where
  "severity_rank Low = 0"
| "severity_rank Medium = 1"
| "severity_rank High = 2"
| "severity_rank Critical = 3"

lemma severity_rank_inj: "severity_rank a = severity_rank b \<longleftrightarrow> a = b"
  by (cases a; cases b) simp_all

instantiation failure_severity :: linorder
begin

definition less_eq_failure_severity :: "failure_severity \<Rightarrow> failure_severity \<Rightarrow> bool" where
  "a \<le> b \<longleftrightarrow> severity_rank a \<le> severity_rank b"

definition less_failure_severity :: "failure_severity \<Rightarrow> failure_severity \<Rightarrow> bool" where
  "a < b \<longleftrightarrow> severity_rank a < severity_rank b"

instance
  by standard (auto simp: less_eq_failure_severity_def less_failure_severity_def severity_rank_inj)

end

fun show_severity :: "failure_severity \<Rightarrow> string" where
  "show_severity Low = ''low''"
| "show_severity Medium = ''medium''"
| "show_severity High = ''high''"
| "show_severity Critical = ''critical''"

datatype correction_type = InputFix | ToolChange | PrerequisiteFix | ApproachChange | Escalate

record 'v correction =
  correction_type :: correction_type
  description :: string
  modified_input :: "'v option"
  alternative_tool :: "string option"
  guidance :: "string option"

datatype correction_result = Applied | CorrectionFailed string | Skipped

record 'v failure_analysis =
  analysis_recoverable :: bool
  root_cause :: string
  severity :: failure_severity
  analysis_correction :: "'v correction option"
  analysis_context :: string

datatype recovery_action = Retry duration | Skip string | AskUser string | FailAction string

fun action_delay :: "recovery_action \<Rightarrow> duration option" where
  "action_delay (Retry d) = Some d"
| "action_delay _ = None"

definition is_retry :: "recovery_action \<Rightarrow> bool" where
  "is_retry a = (case a of Retry _ \<Rightarrow> True | _ \<Rightarrow> False)"

definition noop_analyze :: "string \<Rightarrow> 'v failure_analysis" where
  "noop_analyze err =
     \<lparr>analysis_recoverable = False, root_cause = err, severity = Medium,
      analysis_correction = None, analysis_context = ''''\<rparr>"

subsection \<open>Exponential backoff\<close>

record backoff =
  max_retries :: u32
  base_delay :: duration
  max_delay :: duration

definition new_backoff :: "u32 \<Rightarrow> backoff" where
  "new_backoff n = \<lparr>max_retries = n, base_delay = 100 * 10 ^ 6, max_delay = 30 * 10 ^ 9\<rparr>"

definition with_base_delay :: "duration \<Rightarrow> backoff \<Rightarrow> backoff" where
  "with_base_delay d b = b\<lparr>base_delay := d\<rparr>"

definition with_max_delay :: "duration \<Rightarrow> backoff \<Rightarrow> backoff" where
  "with_max_delay d b = b\<lparr>max_delay := d\<rparr>"

definition millis :: "duration \<Rightarrow> u128" where
  "millis d = nat_to_word_sat (d div 10 ^ 6)"

definition checked_shl_one :: "u32 \<Rightarrow> u128 option" where
  "checked_shl_one n = (if unat n < 128 then Some (push_bit (unat n) 1) else None)"

definition delay_for_attempt :: "u32 \<Rightarrow> backoff \<Rightarrow> duration" where
  "delay_for_attempt attempt b =
     (let factor = (case checked_shl_one attempt of Some k \<Rightarrow> k | None \<Rightarrow> - 1);
          delay_ms = sat_mul (millis (base_delay b)) factor;
          capped = min delay_ms (millis (max_delay b))
      in unat (nat_to_word_sat (unat capped) :: u64) * 10 ^ 6)"

definition backoff_decide :: "backoff \<Rightarrow> 'v failure_analysis \<Rightarrow> u32 \<Rightarrow> u32 \<Rightarrow> recovery_action" where
  "backoff_decide b analysis attempt max_attempts =
     (let limit = min (max_retries b) max_attempts in
      if \<not> analysis_recoverable analysis then FailAction (root_cause analysis)
      else if attempt \<ge> limit then FailAction (''max retries ('' @ show_nat (unat limit) @ '') exceeded'')
      else if severity analysis \<ge> High \<and> analysis_correction analysis \<noteq> None
      then AskUser (''high-severity failure with correction available: '' @ root_cause analysis)
      else Retry (delay_for_attempt attempt b))"

subsection \<open>Corrections\<close>

definition apply_correction ::
  "('v \<Rightarrow> bool) \<Rightarrow> 'v correction \<Rightarrow> 'v tool_call \<Rightarrow> correction_result \<times> 'v tool_call" where
  "apply_correction is_object c tc =
     (case correction_type c of
        InputFix \<Rightarrow>
          (case modified_input c of
             Some modified \<Rightarrow>
               if is_object modified then (Applied, tc\<lparr>tc_input := modified\<rparr>)
               else (CorrectionFailed ''InputFix correction modified_input must be a JSON object'', tc)
           | None \<Rightarrow> (CorrectionFailed ''InputFix correction missing modified_input'', tc))
      | ToolChange \<Rightarrow>
          (case alternative_tool c of
             Some alt \<Rightarrow> (Applied, tc\<lparr>tc_tool := alt\<rparr>)
           | None \<Rightarrow> (CorrectionFailed ''ToolChange correction missing alternative_tool'', tc))
      | PrerequisiteFix \<Rightarrow> (Skipped, tc)
      | ApproachChange \<Rightarrow> (Skipped, tc)
      | Escalate \<Rightarrow> (Skipped, tc))"

definition apply_correction_if_present ::
  "('v \<Rightarrow> bool) \<Rightarrow> 'v correction option \<Rightarrow> 'v tool_call \<Rightarrow> 'v tool_call" where
  "apply_correction_if_present is_object c tc =
     (case c of None \<Rightarrow> tc | Some corr \<Rightarrow> snd (apply_correction is_object corr tc))"

subsection \<open>One pass of a call\<close>

datatype hook_action = HookAllow | HookBlock string | HookAsk string

datatype hook_check = HookProceed | HookBlocked dispatch_result | HookAsked string

datatype ask_resolution = Approve | DenyAsk

datatype parked = Answered ask_resolution | Expired | ParkCancelled

datatype hook_ask_resolution = Approved gate_decision | Denied dispatch_result

text \<open>What observers and the detector see of a pass, in order.\<close>

datatype 'v tool_event =
    ToolPre "'v tool_call"
  | ToolPost "'v tool_call" dispatch_result
  | GateDecided string gate_decision
  | Recorded "'v tool_call" dispatch_result

text \<open>
  The seams of one call: hooks (\<open>None\<close> without an executor), the ask resolver's wait (\<open>None\<close>
  without a resolver), the detector's verdict, the health breaker, the dispatch itself (\<open>None\<close>
  when the cancel signal wins), the reflector, the strategy and the cancel signal during a
  backoff sleep. Each is a function of the attempt, so it may answer anew on each pass.
\<close>

record 'v retry_env =
  hook_action_of :: "u32 \<Rightarrow> 'v tool_call \<Rightarrow> hook_action option"
  ask_wait :: "u32 \<Rightarrow> 'v tool_call \<Rightarrow> string \<Rightarrow> parked option"
  detection_stop :: "u32 \<Rightarrow> loop_error option"
  health_allows :: "u32 \<Rightarrow> string \<Rightarrow> bool"
  dispatch_answer :: "u32 \<Rightarrow> 'v tool_call \<Rightarrow> dispatch_result option"
  tool_schema :: "string \<Rightarrow> 'v option"
  analyze :: "string \<Rightarrow> 'v tool_call \<Rightarrow> 'v option \<Rightarrow> u32 \<Rightarrow> (string + 'v failure_analysis)"
  decide :: "'v failure_analysis \<Rightarrow> u32 \<Rightarrow> u32 \<Rightarrow> recovery_action"
  cancelled_in_sleep :: "u32 \<Rightarrow> bool"
  json_is_object :: "'v \<Rightarrow> bool"
  digest_of :: "'v \<Rightarrow> string"
  show_duration :: "duration option \<Rightarrow> string"
  now_millis :: u64

definition soft_error :: "'v tool_call \<Rightarrow> string \<Rightarrow> dispatch_result" where
  "soft_error tc msg = result_for_call tc 0 (TCText msg) True None None"

definition check_pre_tool_use_hooks :: "'v retry_env \<Rightarrow> u32 \<Rightarrow> 'v tool_call \<Rightarrow> hook_check" where
  "check_pre_tool_use_hooks env attempt tc =
     (case hook_action_of env attempt tc of
        None \<Rightarrow> HookProceed
      | Some HookAllow \<Rightarrow> HookProceed
      | Some (HookBlock why) \<Rightarrow> HookBlocked (soft_error tc why)
      | Some (HookAsk msg) \<Rightarrow> HookAsked msg)"

definition ask_denied_result :: "'v tool_call \<Rightarrow> string \<Rightarrow> dispatch_result" where
  "ask_denied_result tc msg = soft_error tc msg"

definition notify_gate_decision :: "'v retry_env \<Rightarrow> string \<Rightarrow> gate_decision \<Rightarrow> 'v tool_event" where
  "notify_gate_decision env call_id g = GateDecided call_id (with_ts (now_millis env) g)"

definition single_quoted :: "string \<Rightarrow> string" where
  "single_quoted s = [CHR 0x27] @ s @ [CHR 0x27]"

definition ask_record ::
  "'v retry_env \<Rightarrow> 'v tool_call \<Rightarrow> gate_verdict \<Rightarrow> string \<Rightarrow> gate_rule_source \<Rightarrow> gate_decision" where
  "ask_record env tc v rule source =
     for_args (digest_of env) (tc_input tc) (new_gate_decision (tc_tool tc) v rule source)"

definition park_hook_ask ::
  "'v retry_env \<Rightarrow> u32 \<Rightarrow> 'v tool_call \<Rightarrow> string \<Rightarrow> hook_ask_resolution result \<times> 'v tool_event list" where
  "park_hook_ask env attempt tc prompt =
     (case ask_wait env attempt tc prompt of
        None \<Rightarrow>
          (Inr (Denied (ask_denied_result tc prompt)),
           [notify_gate_decision env (tc_id tc)
              (with_reason (''permission required: '' @ prompt)
                 (ask_record env tc AskUnresolved ''hook'' EngineRule))])
      | Some (Answered Approve) \<Rightarrow>
          (Inr (Approved (ask_record env tc AskAllowed ''ask'' AskResolverRule)), [])
      | Some (Answered DenyAsk) \<Rightarrow>
          (Inr (Denied (ask_denied_result tc (''Permission denied by approver for tool '' @ single_quoted (tc_tool tc)))),
           [notify_gate_decision env (tc_id tc)
              (with_reason ''denied by approver'' (ask_record env tc AskDenied ''ask'' AskResolverRule))])
      | Some Expired \<Rightarrow>
          (Inr (Denied (ask_denied_result tc (''Permission ask expired unanswered for tool '' @ single_quoted (tc_tool tc)))),
           [notify_gate_decision env (tc_id tc)
              (with_reason ''ask expired unanswered'' (ask_record env tc AskExpired ''hook'' EngineRule))])
      | Some ParkCancelled \<Rightarrow>
          (Inl ErrCancelled,
           [notify_gate_decision env (tc_id tc)
              (with_reason ''cancelled while awaiting approval''
                 (ask_record env tc GateCancelled ''hook'' EngineRule))]))"

text \<open>
  A pass ends with a refusal that is itself the call's result, with a hard error, or with a
  dispatched result that recovery judges.
\<close>

datatype attempt_outcome = Refused dispatch_result | Aborted loop_error | Dispatched dispatch_result

definition gate_events :: "'v retry_env \<Rightarrow> 'v tool_call \<Rightarrow> gate_decision option \<Rightarrow> 'v tool_event list" where
  "gate_events env tc g = (case g of None \<Rightarrow> [] | Some d \<Rightarrow> [notify_gate_decision env (tc_id tc) d])"

text \<open>The pass once the hooks let the call through; \<open>park\<close> is the approval of a parked ask.\<close>

definition dispatch_pass ::
  "'v retry_env \<Rightarrow> u32 \<Rightarrow> 'v tool_call \<Rightarrow> gate_decision option \<Rightarrow> attempt_outcome \<times> 'v tool_event list" where
  "dispatch_pass env attempt tc park =
     (case detection_stop env attempt of
        Some e \<Rightarrow>
          (Aborted e, gate_events env tc park @
             [ToolPost tc (soft_error tc (''dispatch refused before execution: '' @
                show_loop_error (show_duration env) e))])
      | None \<Rightarrow>
          if \<not> health_allows env attempt (tc_tool tc)
          then (let refused = soft_error tc ''tool temporarily unavailable: circuit breaker open''
                in (Refused refused, gate_events env tc park @ [Recorded tc refused, ToolPost tc refused]))
          else
            (case dispatch_answer env attempt tc of
               None \<Rightarrow> (Aborted ErrCancelled, gate_events env tc park)
             | Some dispatched \<Rightarrow>
                 (let r = (case park of Some g \<Rightarrow> attach_gate g dispatched | None \<Rightarrow> dispatched)
                  in (Dispatched r, gate_events env tc (dr_gate r) @ [Recorded tc r, ToolPost tc r]))))"

definition call_pass ::
  "'v retry_env \<Rightarrow> u32 \<Rightarrow> 'v tool_call \<Rightarrow> attempt_outcome \<times> 'v tool_event list" where
  "call_pass env attempt tc =
     (case check_pre_tool_use_hooks env attempt tc of
        HookBlocked blocked \<Rightarrow> (Refused blocked, [ToolPre tc, ToolPost tc blocked])
      | HookAsked prompt \<Rightarrow>
          (case park_hook_ask env attempt tc prompt of
             (Inl e, evs) \<Rightarrow> (Aborted e, ToolPre tc # evs)
           | (Inr (Denied denied), evs) \<Rightarrow> (Refused denied, ToolPre tc # evs @ [ToolPost tc denied])
           | (Inr (Approved g), evs) \<Rightarrow>
               (case dispatch_pass env attempt tc (Some g) of (out, later) \<Rightarrow> (out, ToolPre tc # evs @ later)))
      | HookProceed \<Rightarrow>
          (case dispatch_pass env attempt tc None of (out, evs) \<Rightarrow> (out, ToolPre tc # evs)))"

definition attempt_result :: "'v retry_env \<Rightarrow> u32 \<Rightarrow> 'v tool_call \<Rightarrow> attempt_outcome" where
  "attempt_result env attempt tc = fst (call_pass env attempt tc)"

subsection \<open>The retry loop of one call\<close>

datatype 'v recovery_decision =
    RetryDecision u32 "'v correction option"
  | Soft dispatch_result
  | CancelledDecision

definition max_recovery_attempts :: u32 where
  "max_recovery_attempts = 5"

definition recover_tool_error ::
  "'v retry_env \<Rightarrow> 'v tool_call \<Rightarrow> dispatch_result \<Rightarrow> u32 \<Rightarrow> recovery_action \<times> 'v correction option" where
  "recover_tool_error env tc res attempt =
     (let error_msg = (case dr_output res of TCText msg \<Rightarrow> msg | TCMultipart ps \<Rightarrow> show_tool_content (TCMultipart ps));
          resolved = executed_tool_name tc res;
          schema = (case tool_schema env resolved of None \<Rightarrow> tool_schema env (tc_tool tc) | Some s \<Rightarrow> Some s)
      in case analyze env error_msg tc schema attempt of
           Inl _ \<Rightarrow> (FailAction error_msg, None)
         | Inr analysis \<Rightarrow>
             (decide env analysis attempt max_recovery_attempts, analysis_correction analysis))"

definition recovery_wait_or_return ::
  "'v retry_env \<Rightarrow> 'v tool_call \<Rightarrow> dispatch_result \<Rightarrow> u32 \<Rightarrow> 'v recovery_decision" where
  "recovery_wait_or_return env tc res attempt =
     (case recover_tool_error env tc res attempt of
        (Retry delay, corr) \<Rightarrow>
          if cancelled_in_sleep env attempt then CancelledDecision
          else RetryDecision (sat_add attempt 1) corr
      | (Skip _, _) \<Rightarrow> Soft res
      | (AskUser _, _) \<Rightarrow> Soft res
      | (FailAction _, _) \<Rightarrow> Soft res)"

lemma retry_next:
  "recovery_wait_or_return env tc res attempt = RetryDecision n corr \<Longrightarrow> n = sat_add attempt 1"
  by (auto simp: recovery_wait_or_return_def split: prod.splits recovery_action.splits if_splits)

lemma attempt_grows:
  assumes "n = sat_add attempt 1" and "\<not> n > max_recovery_attempts"
  shows "unat n = Suc (unat attempt)"
proof -
  have "unat n \<le> 5" using assms(2) by (simp add: max_recovery_attempts_def word_less_nat_alt not_less)
  then show ?thesis using assms(1) by (simp add: unat_sat_add min_def split: if_splits)
qed

text \<open>
  The loop returns its result with the attempts it dispatched, in order. The attempt number only
  grows and stops at the ceiling, which is the measure.
\<close>

function retry_loop ::
  "'v retry_env \<Rightarrow> string \<Rightarrow> 'v tool_call \<Rightarrow> u32 \<Rightarrow> dispatch_result result \<times> (u32 \<times> 'v tool_call) list" where
  "retry_loop env original tc attempt =
     (case attempt_result env attempt tc of
        Refused res \<Rightarrow> (Inr res, [(attempt, tc)])
      | Aborted e \<Rightarrow> (Inl e, [(attempt, tc)])
      | Dispatched res \<Rightarrow>
          if \<not> dr_is_error res then (Inr res, [(attempt, tc)])
          else
            (case recovery_wait_or_return env tc res attempt of
               RetryDecision next_attempt corr \<Rightarrow>
                 if next_attempt > max_recovery_attempts
                 then (Inl (ToolRecoveryExhausted original next_attempt), [(attempt, tc)])
                 else
                   (case retry_loop env original
                           (apply_correction_if_present (json_is_object env) corr tc) next_attempt of
                      (r, trace) \<Rightarrow> (r, (attempt, tc) # trace))
             | Soft returned \<Rightarrow> (Inr returned, [(attempt, tc)])
             | CancelledDecision \<Rightarrow> (Inl ErrCancelled, [(attempt, tc)])))"
  by pat_completeness auto

termination
proof (relation "measure (\<lambda>(env, original, tc, attempt). 6 - unat attempt)", goal_cases)
  case 1
  then show ?case by simp
next
  case (2 env original tc attempt res n corr)
  then have n: "unat n = Suc (unat attempt)" using attempt_grows retry_next by blast
  moreover have "unat n \<le> 5" using 2 by (simp add: max_recovery_attempts_def word_less_nat_alt not_less)
  ultimately show ?case by simp
qed

declare retry_loop.simps [simp del]

definition execute_tool_call ::
  "'v retry_env \<Rightarrow> 'v tool_call \<Rightarrow> dispatch_result result \<times> (u32 \<times> 'v tool_call) list" where
  "execute_tool_call env tc = retry_loop env (tc_tool tc) tc 0"

text \<open>The events of a call: those of its passes, in order.\<close>

definition call_events :: "'v retry_env \<Rightarrow> 'v tool_call \<Rightarrow> 'v tool_event list" where
  "call_events env tc =
     concat (map (\<lambda>(attempt, c). snd (call_pass env attempt c)) (snd (execute_tool_call env tc)))"

section \<open>Properties of recovery\<close>

lemma shl_factor:
  "unat (case checked_shl_one n of Some k \<Rightarrow> k | None \<Rightarrow> - 1) = min (2 ^ unat n) (2 ^ 128 - 1)"
proof (cases "unat n < 128")
  case True
  then have "(2::nat) ^ unat n < 2 ^ 128" by (intro power_strict_increasing) simp_all
  moreover have "push_bit (unat n) (1 :: u128) = word_of_nat (2 ^ unat n)" by (simp add: push_bit_eq_mult)
  then have "unat (push_bit (unat n) (1 :: u128)) = 2 ^ unat n"
    using calculation by (simp only: unat_of_nat) (simp add: take_bit_eq_mod)
  ultimately show ?thesis using True by (simp add: checked_shl_one_def)
next
  case False
  then have "(2::nat) ^ 128 \<le> 2 ^ unat n" by (intro power_increasing) simp_all
  with False show ?thesis by (simp add: checked_shl_one_def min_def)
qed

lemma unat_min: "unat (min a b) = min (unat a) (unat b)"
  by (auto simp: min_def word_le_nat_alt)

text \<open>
  The delay before a retry is the base delay doubled once per attempt, in whole milliseconds
  and never above the cap, for every attempt number a machine integer holds: neither the shift
  nor the product overflows into a shorter delay.
\<close>

theorem backoff_delay_exact:
  assumes "max_delay b div 10 ^ 6 < 2 ^ 64" and "base_delay b div 10 ^ 6 < 2 ^ 128"
  shows "delay_for_attempt attempt b =
    min (base_delay b div 10 ^ 6 * 2 ^ unat attempt) (max_delay b div 10 ^ 6) * 10 ^ 6"
proof -
  let ?base = "base_delay b div 10 ^ 6" and ?cap = "max_delay b div 10 ^ 6"
  let ?f = "case checked_shl_one attempt of Some k \<Rightarrow> k | None \<Rightarrow> - 1"
  have base: "unat (millis (base_delay b)) = ?base" and cap: "unat (millis (max_delay b)) = ?cap"
    using assms by (simp_all add: millis_def unat_nat_to_word_sat)
  have capped: "unat (min (sat_mul (millis (base_delay b)) ?f) (millis (max_delay b))) =
      min (min (?base * min (2 ^ unat attempt) (2 ^ 128 - 1)) (2 ^ 128 - 1)) ?cap"
    by (simp only: unat_min unat_sat_mul shl_factor base cap) simp
  also have "\<dots> = min (?base * 2 ^ unat attempt) ?cap"
  proof (cases "?base = 0 \<or> (2::nat) ^ unat attempt \<le> 2 ^ 128 - 1")
    case True
    with assms(1) show ?thesis by (auto simp: min_def)
  next
    case False
    then have big: "?base * min (2 ^ unat attempt) (2 ^ 128 - 1) \<ge> 2 ^ 128 - 1"
      and "?base * 2 ^ unat attempt \<ge> 2 ^ 128 - 1"
      using mult_le_mono [of 1 ?base] by (fastforce simp: min_def)+
    with assms(1) show ?thesis by (simp add: min_absorb2)
  qed
  finally have "unat (min (sat_mul (millis (base_delay b)) ?f) (millis (max_delay b))) =
      min (?base * 2 ^ unat attempt) ?cap" .
  with assms(1) show ?thesis by (simp add: delay_for_attempt_def Let_def unat_nat_to_word_sat min_def)
qed

theorem backoff_delay_exact_witness:
  "delay_for_attempt 3 (new_backoff 5) = 800 * 10 ^ 6"
  using backoff_delay_exact [of "new_backoff 5" 3] by (simp add: new_backoff_def)

text \<open>
  The backoff strategy retries exactly the recoverable failures below both ceilings that are
  not severe with a correction at hand, with the delay of that attempt; past a ceiling and for an
  unrecoverable failure it fails, and it never skips.
\<close>

theorem backoff_retries_exactly:
  "(is_retry (backoff_decide b analysis attempt max_attempts) \<longleftrightarrow>
      analysis_recoverable analysis \<and> attempt < max_retries b \<and> attempt < max_attempts \<and>
      (severity analysis < High \<or> analysis_correction analysis = None)) \<and>
   action_delay (backoff_decide b analysis attempt max_attempts) =
     (if is_retry (backoff_decide b analysis attempt max_attempts)
      then Some (delay_for_attempt attempt b) else None)"
  unfolding backoff_decide_def is_retry_def Let_def
  by (cases "severity analysis < High"; cases "analysis_correction analysis")
     (auto simp: not_le min_le_iff_disj not_less dest: leD)

text \<open>
  One pass of the loop either continues, with the corrected call and the next attempt number, or
  is the last one.
\<close>

definition continues ::
  "'v retry_env \<Rightarrow> 'v tool_call \<Rightarrow> u32 \<Rightarrow> u32 \<Rightarrow> 'v correction option \<Rightarrow> bool" where
  "continues env tc attempt n corr =
     (\<exists>res. attempt_result env attempt tc = Dispatched res \<and> dr_is_error res \<and>
        recovery_wait_or_return env tc res attempt = RetryDecision n corr \<and>
        n \<le> max_recovery_attempts)"

lemma retry_loop_continues:
  assumes "continues env tc attempt n corr"
  shows "retry_loop env original tc attempt =
    (let later = retry_loop env original
           (apply_correction_if_present (json_is_object env) corr tc) n
     in (fst later, (attempt, tc) # snd later))"
  using assms
  by (subst retry_loop.simps) (auto simp: continues_def Let_def not_less case_prod_beta)

lemma retry_loop_last:
  assumes "\<And>n corr. \<not> continues env tc attempt n corr"
  shows "snd (retry_loop env original tc attempt) = [(attempt, tc)]"
    and "fst (retry_loop env original tc attempt) = Inl (ToolRecoveryExhausted t n) \<Longrightarrow>
      attempt_result env attempt tc = Aborted (ToolRecoveryExhausted t n) \<or>
      (t = original \<and> n > max_recovery_attempts \<and> n = sat_add attempt 1 \<and>
       (\<exists>res. attempt_result env attempt tc = Dispatched res \<and> dr_is_error res \<and>
          is_retry (fst (recover_tool_error env tc res attempt))))"
  subgoal
    using assms by (subst retry_loop.simps)
      (auto simp: continues_def not_less split: attempt_outcome.splits recovery_decision.splits)
  subgoal premises prems
    using assms prems unfolding retry_loop.simps [of env original tc attempt]
    by (auto simp: continues_def not_less is_retry_def recovery_wait_or_return_def
        split: attempt_outcome.splits recovery_decision.splits if_splits prod.splits recovery_action.splits)
  done

lemma continues_bound:
  assumes "continues env tc attempt n corr"
  shows "unat n = Suc (unat attempt)" and "unat n \<le> 5"
proof -
  from assms obtain res where r: "recovery_wait_or_return env tc res attempt = RetryDecision n corr"
    and le: "n \<le> max_recovery_attempts" by (auto simp: continues_def)
  then show "unat n = Suc (unat attempt)" using attempt_grows retry_next by (metis leD)
  show "unat n \<le> 5" using le by (simp add: max_recovery_attempts_def word_le_nat_alt)
qed

text \<open>
  The contract of the loop: the attempt numbers it dispatches count up by one from the first, the
  last is at most the ceiling, and the call of each later attempt is the corrected earlier one.
\<close>

lemma retry_induct [case_names pass]:
  assumes "\<And>tc attempt. (\<And>n corr. continues env tc attempt n corr \<Longrightarrow>
      P (apply_correction_if_present (json_is_object env) corr tc) n) \<Longrightarrow> P tc attempt"
  shows "P tc attempt"
proof (induction "6 - unat attempt" arbitrary: attempt tc rule: less_induct)
  case less
  show ?case
  proof (rule assms)
    fix n corr
    assume c: "continues env tc attempt n corr"
    show "P (apply_correction_if_present (json_is_object env) corr tc) n"
      using continues_bound [OF c] by (intro less) simp
  qed
qed

lemma retry_loop_pass_cases [case_names continue last]:
  assumes "\<And>n corr. continues env tc attempt n corr \<Longrightarrow> P"
    and "(\<And>n corr. \<not> continues env tc attempt n corr) \<Longrightarrow> P"
  shows P
  using assms by blast

lemma retry_loop_numbers:
  "map (\<lambda>x. unat (fst x)) (snd (retry_loop env original tc attempt)) =
   [unat attempt..<unat attempt + length (snd (retry_loop env original tc attempt))]"
proof (induction tc attempt rule: retry_induct [where env = env])
  case (pass tc attempt)
  show ?case
  proof (cases env tc attempt rule: retry_loop_pass_cases)
    case (continue n corr)
    with pass [OF continue] show ?thesis
      using continues_bound [OF continue] by (simp add: retry_loop_continues Let_def upt_conv_Cons del: upt_Suc)
  next
    case last
    then show ?thesis by (simp add: retry_loop_last(1))
  qed
qed

lemma retry_loop_length:
  "unat attempt \<le> 5 \<Longrightarrow>
   unat attempt + length (snd (retry_loop env original tc attempt)) \<le> 6"
proof (induction tc attempt rule: retry_induct [where env = env])
  case (pass tc attempt)
  show ?case
  proof (cases env tc attempt rule: retry_loop_pass_cases)
    case (continue n corr)
    with pass(1) [OF continue] show ?thesis
      using continues_bound [OF continue] by (simp add: retry_loop_continues Let_def)
  next
    case last
    with pass(2) show ?thesis by (simp add: retry_loop_last(1))
  qed
qed

lemma retry_loop_nonempty:
  "snd (retry_loop env original tc attempt) \<noteq> [] \<and>
   hd (snd (retry_loop env original tc attempt)) = (attempt, tc)"
  by (cases env tc attempt rule: retry_loop_pass_cases)
     (simp_all add: retry_loop_continues retry_loop_last(1) Let_def)

text \<open>
  However the reflector and the strategy answer, a call is dispatched at least once and at
  most six times: the first dispatch is the call itself with attempt 0, and the attempt numbers
  count up by one.
\<close>

theorem tool_call_dispatches:
  "case execute_tool_call env tc of (_, trace) \<Rightarrow>
     hd trace = (0, tc) \<and> 1 \<le> length trace \<and> length trace \<le> 6 \<and>
     map (\<lambda>x. unat (fst x)) trace = [0..<length trace]"
  using retry_loop_numbers [of env "tc_tool tc" tc 0] retry_loop_length [of 0 env "tc_tool tc" tc]
    retry_loop_nonempty [of env "tc_tool tc" tc 0]
  by (simp add: execute_tool_call_def case_prod_beta Suc_le_eq)

text \<open>A dispatch that came back with an error for which the strategy asked for another try.\<close>

definition failed_and_retried :: "'v retry_env \<Rightarrow> u32 \<times> 'v tool_call \<Rightarrow> bool" where
  "failed_and_retried env pass =
     (case attempt_result env (fst pass) (snd pass) of
        Dispatched res \<Rightarrow> dr_is_error res \<and> is_retry (fst (recover_tool_error env (snd pass) res (fst pass)))
      | _ \<Rightarrow> False)"

lemma failed_and_retriedD:
  "failed_and_retried env pass \<Longrightarrow>
   \<exists>res. attempt_result env (fst pass) (snd pass) = Dispatched res \<and> dr_is_error res \<and>
     is_retry (fst (recover_tool_error env (snd pass) res (fst pass)))"
  by (cases "attempt_result env (fst pass) (snd pass)") (simp_all add: failed_and_retried_def)

lemma continues_failed:
  assumes "continues env tc attempt n corr"
  shows "failed_and_retried env (attempt, tc)"
proof -
  from assms obtain res where "attempt_result env attempt tc = Dispatched res" "dr_is_error res"
      "recovery_wait_or_return env tc res attempt = RetryDecision n corr"
    unfolding continues_def by blast
  then show ?thesis
    by (auto simp: failed_and_retried_def recovery_wait_or_return_def is_retry_def
        split: prod.splits recovery_action.splits if_splits)
qed

lemma retry_loop_exhausted:
  assumes "fst (retry_loop env original tc attempt) = Inl (ToolRecoveryExhausted t n)"
    and "\<And>k c. attempt_result env k c \<noteq> Aborted (ToolRecoveryExhausted t n)"
    and "unat attempt \<le> 5"
  shows "t = original \<and> n = 6 \<and>
    unat attempt + length (snd (retry_loop env original tc attempt)) = 6 \<and>
    (\<forall>pass \<in> set (snd (retry_loop env original tc attempt)). failed_and_retried env pass)"
  using assms(1,3)
proof (induction tc attempt rule: retry_induct [where env = env])
  case (pass tc attempt)
  show ?case
  proof (cases env tc attempt rule: retry_loop_pass_cases)
    case (continue n' corr)
    with pass(1) [OF continue] pass(2) show ?thesis
      using continues_bound [OF continue] continues_failed [OF continue]
      by (simp add: retry_loop_continues Let_def)
  next
    case last
    with retry_loop_last(2) [OF last pass(2)] assms(2)
    have n: "t = original" "n > max_recovery_attempts" "n = sat_add attempt 1" "failed_and_retried env (attempt, tc)"
      by (auto simp: failed_and_retried_def)
    then have "unat n = Suc (unat attempt)" "unat n > 5"
      using pass(3) by (simp_all add: max_recovery_attempts_def word_less_nat_alt unat_sat_add)
    moreover then have "n = 6" using pass(3) by (simp add: word_unat_eq_iff)
    ultimately show ?thesis using n(1,4) pass(3) by (simp add: retry_loop_last(1) [OF last])
  qed
qed

text \<open>
  C32: a call ends with the exhausted-recovery error only under its original tool name, with the count
  six, and after six dispatches, numbered from 0 to 5, each of which came back with an error and for
  each of which the strategy asked for a retry, unless a dispatch itself aborted with that error.
\<close>

theorem exhaustion_takes_six_failures:
  assumes "execute_tool_call env tc = (Inl (ToolRecoveryExhausted t n), trace)"
    and "\<And>k c. attempt_result env k c \<noteq> Aborted (ToolRecoveryExhausted t n)"
  shows "t = tc_tool tc \<and> n = 6 \<and> map (\<lambda>pass. unat (fst pass)) trace = [0..<6] \<and>
    (\<forall>pass \<in> set trace. \<exists>res. attempt_result env (fst pass) (snd pass) = Dispatched res \<and> dr_is_error res \<and>
       is_retry (fst (recover_tool_error env (snd pass) res (fst pass))))"
proof -
  have trace: "trace = snd (retry_loop env (tc_tool tc) tc 0)"
    and "fst (retry_loop env (tc_tool tc) tc 0) = Inl (ToolRecoveryExhausted t n)"
    using assms(1) by (simp_all add: execute_tool_call_def)
  from retry_loop_exhausted [OF this(2) assms(2)]
  have "t = tc_tool tc \<and> n = 6 \<and> length trace = 6 \<and> (\<forall>pass \<in> set trace. failed_and_retried env pass)"
    by (simp add: trace)
  moreover have "map (\<lambda>pass. unat (fst pass)) trace = [0..<length trace]"
    using retry_loop_numbers [of env "tc_tool tc" tc 0] by (simp add: trace)
  ultimately show ?thesis by (auto dest!: bspec intro!: failed_and_retriedD simp del: split_paired_All)
qed

subsection \<open>The events of a pass\<close>

fun is_gate :: "'v tool_event \<Rightarrow> bool" where
  "is_gate (GateDecided _ _) = True"
| "is_gate _ = False"

fun is_post :: "'v tool_event \<Rightarrow> bool" where
  "is_post (ToolPost _ _) = True"
| "is_post _ = False"

fun is_pre :: "'v tool_event \<Rightarrow> bool" where
  "is_pre (ToolPre _) = True"
| "is_pre _ = False"

lemmas pass_defs = call_pass_def dispatch_pass_def park_hook_ask_def gate_events_def
  notify_gate_decision_def check_pre_tool_use_hooks_def Let_def

lemma dispatch_pass_events:
  "filter is_pre (snd (dispatch_pass env attempt tc park)) = []"
  "length (filter is_gate (snd (dispatch_pass env attempt tc park))) \<le> 1"
  "park \<noteq> None \<Longrightarrow> length (filter is_gate (snd (dispatch_pass env attempt tc park))) = 1"
  "fst (dispatch_pass env attempt tc park) \<noteq> Aborted ErrCancelled \<Longrightarrow>
   \<exists>before res. snd (dispatch_pass env attempt tc park) = before @ [ToolPost tc res] \<and>
     filter is_post before = []"
  by (auto simp: pass_defs attach_gate_def split: option.splits)

lemma park_events:
  "filter is_pre (snd (park_hook_ask env attempt tc prompt)) = []"
  "filter is_post (snd (park_hook_ask env attempt tc prompt)) = []"
  "length (filter is_gate (snd (park_hook_ask env attempt tc prompt))) =
     (case fst (park_hook_ask env attempt tc prompt) of Inr (Approved _) \<Rightarrow> 0 | _ \<Rightarrow> 1)"
  "fst (park_hook_ask env attempt tc prompt) = Inl e \<Longrightarrow> e = ErrCancelled"
  by (auto simp: pass_defs split: option.splits parked.splits ask_resolution.splits)

text \<open>
  C31: every pass of a call is announced to the observers once and first, and, unless the cancel
  signal ended it, answered by exactly one result event, its last; at most one gate record is
  emitted, and exactly one when a hook asked for approval, however the ask and the pass end.
\<close>

theorem pass_events_are_paired:
  "\<exists>later. snd (call_pass env attempt tc) = ToolPre tc # later \<and> filter is_pre later = [] \<and>
     length (filter is_gate later) \<le> 1 \<and>
     (fst (call_pass env attempt tc) \<noteq> Aborted ErrCancelled \<longrightarrow>
       (\<exists>before res. later = before @ [ToolPost tc res] \<and> filter is_post before = [])) \<and>
     (\<forall>prompt. hook_action_of env attempt tc = Some (HookAsk prompt) \<longrightarrow>
       length (filter is_gate later) = 1)"
proof (cases "check_pre_tool_use_hooks env attempt tc")
  case HookProceed
  moreover have "hook_action_of env attempt tc \<noteq> Some (HookAsk prompt)" for prompt
    using HookProceed by (auto simp: check_pre_tool_use_hooks_def)
  ultimately show ?thesis using dispatch_pass_events [where env = env and attempt = attempt and tc = tc and park = None]
    by (simp add: call_pass_def case_prod_beta)
next
  case (HookBlocked blocked)
  moreover have "hook_action_of env attempt tc \<noteq> Some (HookAsk prompt)" for prompt
    using HookBlocked by (auto simp: check_pre_tool_use_hooks_def)
  ultimately show ?thesis by (simp add: call_pass_def)
next
  case (HookAsked prompt)
  obtain answer evs where park: "park_hook_ask env attempt tc prompt = (answer, evs)" by fastforce
  note evs = park_events [where env = env and attempt = attempt and tc = tc and prompt = prompt, unfolded park fst_conv snd_conv]
  show ?thesis
  proof (cases "\<exists>g. answer = Inr (Approved g)")
    case True
    then obtain g where "answer = Inr (Approved g)" by blast
    then show ?thesis
      using HookAsked park evs dispatch_pass_events [where env = env and attempt = attempt and tc = tc and park = "Some g"]
      by (auto simp: call_pass_def case_prod_beta)
  next
    case False
    with HookAsked park evs show ?thesis
      by (auto simp: call_pass_def split: sum.splits hook_ask_resolution.splits)
  qed
qed

subsection \<open>The loop under the backoff strategy\<close>

text \<open>A call whose tool always fails, with a reflector that finds every failure recoverable.\<close>

definition demo_env ::
  "(string failure_analysis \<Rightarrow> u32 \<Rightarrow> u32 \<Rightarrow> recovery_action) \<Rightarrow> hook_action option \<Rightarrow> string retry_env" where
  "demo_env strategy hook =
     \<lparr>hook_action_of = (\<lambda>_ _. hook), ask_wait = (\<lambda>_ _ _. None), detection_stop = (\<lambda>_. None),
      health_allows = (\<lambda>_ _. True),
      dispatch_answer = (\<lambda>_ tc. Some (soft_error tc ''boom'')), tool_schema = (\<lambda>_. None),
      analyze = (\<lambda>e _ _ _. Inr \<lparr>analysis_recoverable = True, root_cause = e, severity = Low,
                   analysis_correction = None, analysis_context = ''''\<rparr>),
      decide = strategy, cancelled_in_sleep = (\<lambda>_. False), json_is_object = (\<lambda>_. True),
      digest_of = id, show_duration = (\<lambda>_. ''''), now_millis = 0\<rparr>"

definition demo_tool_call :: "string tool_call" where
  "demo_tool_call = \<lparr>tc_id = ''c1'', tc_tool = ''bash'', tc_input = ''{}''\<rparr>"

lemma demo_attempt:
  "attempt_result (demo_env strategy None) k tc = Dispatched (soft_error tc ''boom'')"
  by (simp add: attempt_result_def pass_defs demo_env_def soft_error_def)

theorem pass_events_are_paired_witness:
  "length (filter is_gate (snd (call_pass (demo_env (\<lambda>_ _ _. Retry 0) (Some (HookAsk ''ok?''))) 0 demo_tool_call))) = 1"
proof -
  have "hook_action_of (demo_env (\<lambda>_ _ _. Retry 0) (Some (HookAsk ''ok?''))) 0 demo_tool_call =
      Some (HookAsk ''ok?'')" by (simp add: demo_env_def)
  with pass_events_are_paired [of "demo_env (\<lambda>_ _ _. Retry 0) (Some (HookAsk ''ok?''))" 0 demo_tool_call]
  show ?thesis by auto
qed

lemma wait_retry:
  "recovery_wait_or_return env tc res attempt = RetryDecision n corr \<Longrightarrow>
   \<exists>d. recover_tool_error env tc res attempt = (Retry d, corr)"
  by (cases "recover_tool_error env tc res attempt"; cases "fst (recover_tool_error env tc res attempt)")
     (auto simp: recovery_wait_or_return_def split: if_splits)

lemma recover_retry:
  "recover_tool_error env tc res attempt = (Retry d, corr) \<Longrightarrow>
   \<exists>analysis. decide env analysis attempt max_recovery_attempts = Retry d \<and>
     corr = analysis_correction analysis"
  by (auto simp: recover_tool_error_def Let_def split: sum.splits)

lemma backoff_retry_below:
  "backoff_decide b analysis attempt max_attempts = Retry d \<Longrightarrow>
   attempt < max_retries b \<and> attempt < max_attempts"
  by (auto simp: backoff_decide_def Let_def not_le split: if_splits)

lemma backoff_continues:
  assumes c: "continues env tc attempt n corr" and b: "decide env = backoff_decide b"
  shows "unat attempt < min (unat (max_retries b)) 5"
proof -
  from c obtain res d where "recover_tool_error env tc res attempt = (Retry d, corr)"
    using wait_retry unfolding continues_def by blast
  from recover_retry [OF this] b have "attempt < max_retries b" "attempt < max_recovery_attempts"
    using backoff_retry_below by metis+
  then show ?thesis by (simp add: word_less_nat_alt max_recovery_attempts_def)
qed

lemma backoff_retry_length:
  "decide env = backoff_decide b \<Longrightarrow> unat attempt \<le> min (unat (max_retries b)) 5 \<Longrightarrow>
   unat attempt + length (snd (retry_loop env original tc attempt)) \<le> Suc (min (unat (max_retries b)) 5)"
proof (induction tc attempt rule: retry_induct [where env = env])
  case (pass tc attempt)
  show ?case
  proof (cases env tc attempt rule: retry_loop_pass_cases)
    case (continue n corr)
    with pass(1) [OF continue pass(2)] backoff_continues [OF continue pass(2)] show ?thesis
      using continues_bound [OF continue] by (simp add: retry_loop_continues Let_def)
  next
    case last
    with pass(3) show ?thesis by (simp add: retry_loop_last(1))
  qed
qed

lemma backoff_never_exhausts:
  assumes "decide env = backoff_decide b"
    and "\<And>k c t n. attempt_result env k c \<noteq> Aborted (ToolRecoveryExhausted t n)"
  shows "fst (retry_loop env original tc attempt) \<noteq> Inl (ToolRecoveryExhausted t n)"
proof (induction tc attempt rule: retry_induct [where env = env])
  case (pass tc attempt)
  show ?case
  proof (cases env tc attempt rule: retry_loop_pass_cases)
    case (continue n corr)
    with pass [OF continue] show ?thesis by (simp add: retry_loop_continues Let_def)
  next
    case last
    show ?thesis
    proof
      assume "fst (retry_loop env original tc attempt) = Inl (ToolRecoveryExhausted t n)"
      from retry_loop_last(2) [OF last this] assms(2)
      obtain res where over: "n > max_recovery_attempts" "n = sat_add attempt 1"
        and "is_retry (fst (recover_tool_error env tc res attempt))" by auto
      then obtain d corr where "recover_tool_error env tc res attempt = (Retry d, corr)"
        by (cases "recover_tool_error env tc res attempt")
           (auto simp: is_retry_def split: recovery_action.splits)
      from recover_retry [OF this] assms(1) have "attempt < max_recovery_attempts"
        using backoff_retry_below by metis
      with over show False by (simp add: word_less_nat_alt max_recovery_attempts_def unat_sat_add)
    qed
  qed
qed

text \<open>
  Under the backoff strategy a call is dispatched at most one more time than both its retries
  and the engine's ceiling of five allow, and it never ends in the exhausted-recovery error: when
  the retries run out the model sees the last error result.
\<close>

theorem backoff_bounds_dispatches:
  assumes "decide env = backoff_decide b"
    and "\<And>k c t n. attempt_result env k c \<noteq> Aborted (ToolRecoveryExhausted t n)"
  shows "length (snd (execute_tool_call env tc)) \<le> min (unat (max_retries b)) 5 + 1 \<and>
    fst (execute_tool_call env tc) \<noteq> Inl (ToolRecoveryExhausted t n)"
proof
  show "length (snd (execute_tool_call env tc)) \<le> min (unat (max_retries b)) 5 + 1"
    using backoff_retry_length [OF assms(1), of 0 "tc_tool tc" tc] by (simp add: execute_tool_call_def)
  show "fst (execute_tool_call env tc) \<noteq> Inl (ToolRecoveryExhausted t n)"
    using backoff_never_exhausts [OF assms] by (simp add: execute_tool_call_def)
qed

theorem backoff_bounds_dispatches_witness:
  "length (snd (execute_tool_call (demo_env (backoff_decide (new_backoff 2)) None) demo_tool_call)) \<le> 3"
  using backoff_bounds_dispatches [of "demo_env (backoff_decide (new_backoff 2)) None" "new_backoff 2"
      demo_tool_call]
  by (simp add: demo_attempt new_backoff_def) (simp add: demo_env_def)

text \<open>The seams of a call whose tool keeps failing, and the reflector finds every failure mild.\<close>

definition keeps_failing :: "'v retry_env \<Rightarrow> backoff \<Rightarrow> bool" where
  "keeps_failing env b \<longleftrightarrow> decide env = backoff_decide b \<and>
     (\<forall>k c. \<exists>res. attempt_result env k c = Dispatched res \<and> dr_is_error res) \<and>
     (\<forall>e c s k. \<exists>a. analyze env e c s k = Inr a \<and> analysis_recoverable a \<and> severity a < High) \<and>
     (\<forall>k. \<not> cancelled_in_sleep env k)"

lemma keeps_failing_pass:
  fixes env :: "'v retry_env"
  assumes "keeps_failing env b"
  obtains res where "attempt_result env attempt tc = Dispatched res" and "dr_is_error res"
    and "recovery_wait_or_return env tc res attempt =
      (if unat attempt < min (unat (max_retries b)) 5
       then RetryDecision (sat_add attempt 1) (snd (recover_tool_error env tc res attempt))
       else Soft res)"
proof -
  from assms obtain res where res: "attempt_result env attempt tc = Dispatched res" "dr_is_error res"
    unfolding keeps_failing_def by blast
  have "\<exists>(a :: 'v failure_analysis) corr. recover_tool_error env tc res attempt = (backoff_decide b a attempt max_recovery_attempts, corr) \<and>
      analysis_recoverable a \<and> severity a < High"
  proof -
    obtain e s where "recover_tool_error env tc res attempt =
        (case analyze env e tc s attempt of Inl _ \<Rightarrow> (FailAction e, None)
         | Inr a \<Rightarrow> (decide env a attempt max_recovery_attempts, analysis_correction a))"
      unfolding recover_tool_error_def Let_def by blast
    moreover from assms obtain a where "analyze env e tc s attempt = Inr a" "analysis_recoverable a"
      "severity a < High" unfolding keeps_failing_def by blast
    ultimately have "recover_tool_error env tc res attempt =
        (decide env a attempt max_recovery_attempts, analysis_correction a)" by simp
    moreover have "decide env = backoff_decide b" using assms by (simp add: keeps_failing_def)
    ultimately show ?thesis using \<open>analysis_recoverable a\<close> \<open>severity a < High\<close> by auto
  qed
  then obtain a :: "'v failure_analysis" and corr where r: "recover_tool_error env tc res attempt =
      (backoff_decide b a attempt max_recovery_attempts, corr)"
    and a: "analysis_recoverable a" "\<not> High \<le> severity a" by (auto simp: not_le)
  have "min (max_retries b) max_recovery_attempts \<le> attempt \<longleftrightarrow>
      \<not> unat attempt < min (unat (max_retries b)) 5"
    by (auto simp: word_le_nat_alt unat_min max_recovery_attempts_def not_less min_le_iff_disj)
  with r a assms have "recovery_wait_or_return env tc res attempt =
      (if unat attempt < min (unat (max_retries b)) 5
       then RetryDecision (sat_add attempt 1) (snd (recover_tool_error env tc res attempt)) else Soft res)"
    by (simp add: recovery_wait_or_return_def backoff_decide_def Let_def keeps_failing_def)
  with res that show ?thesis by blast
qed

lemma keeps_failing_retries:
  assumes "keeps_failing env b"
  shows "unat attempt \<le> min (unat (max_retries b)) 5 \<Longrightarrow>
    unat attempt + length (snd (retry_loop env original tc attempt)) = Suc (min (unat (max_retries b)) 5) \<and>
    (\<exists>res. fst (retry_loop env original tc attempt) = Inr res \<and> dr_is_error res)"
proof (induction tc attempt rule: retry_induct [where env = env])
  case (pass tc attempt)
  obtain res where res: "attempt_result env attempt tc = Dispatched res" "dr_is_error res"
    and wait: "recovery_wait_or_return env tc res attempt =
      (if unat attempt < min (unat (max_retries b)) 5
       then RetryDecision (sat_add attempt 1) (snd (recover_tool_error env tc res attempt)) else Soft res)"
    by (rule keeps_failing_pass [OF assms])
  show ?case
  proof (cases "unat attempt < min (unat (max_retries b)) 5")
    case True
    then have "continues env tc attempt (sat_add attempt 1) (snd (recover_tool_error env tc res attempt))"
      using res wait by (simp add: continues_def max_recovery_attempts_def word_le_nat_alt unat_sat_add)
    note c = this
    from pass(1) [OF c] continues_bound [OF c] True show ?thesis
      by (simp add: retry_loop_continues [OF c] Let_def)
  next
    case False
    with wait have "recovery_wait_or_return env tc res attempt = Soft res" by simp
    with res have "retry_loop env original tc attempt = (Inr res, [(attempt, tc)])"
      by (subst retry_loop.simps) simp
    moreover have "unat attempt = min (unat (max_retries b)) 5" using False pass(2) by linarith
    ultimately show ?thesis using res(2) by simp
  qed
qed

text \<open>
  A tool that keeps failing recoverably is really tried again: with no cancellation, no refusal
  and no severe failure with a correction, the backoff strategy dispatches it exactly one more
  time than the lower of its retries and five, and then returns an error result of the tool.
\<close>

theorem backoff_retries_to_the_end:
  assumes "decide env = backoff_decide b"
    and "\<And>k c. \<exists>res. attempt_result env k c = Dispatched res \<and> dr_is_error res"
    and "\<And>e c s k. \<exists>a. analyze env e c s k = Inr a \<and> analysis_recoverable a \<and> severity a < High"
    and "\<And>k. \<not> cancelled_in_sleep env k"
  shows "length (snd (execute_tool_call env tc)) = min (unat (max_retries b)) 5 + 1 \<and>
    (\<exists>res. fst (execute_tool_call env tc) = Inr res \<and> dr_is_error res)"
proof -
  have "keeps_failing env b" using assms unfolding keeps_failing_def by blast
  from keeps_failing_retries [OF this, of 0 "tc_tool tc" tc] show ?thesis
    by (simp add: execute_tool_call_def)
qed

theorem backoff_retries_to_the_end_witness:
  "length (snd (execute_tool_call (demo_env (backoff_decide (new_backoff 3)) None) demo_tool_call)) = 4"
proof -
  let ?env = "demo_env (backoff_decide (new_backoff 3)) None"
  have "decide ?env = backoff_decide (new_backoff 3)" "\<not> cancelled_in_sleep ?env k" for k
    by (simp_all add: demo_env_def)
  moreover have "\<exists>res. attempt_result ?env k c = Dispatched res \<and> dr_is_error res" for k c
    by (simp add: demo_attempt soft_error_def result_for_call_def)
  moreover have "\<exists>a. analyze ?env e c s k = Inr a \<and> analysis_recoverable a \<and> severity a < High" for e c s k
    by (simp add: demo_env_def less_failure_severity_def)
  ultimately show ?thesis
    using backoff_retries_to_the_end [of ?env "new_backoff 3" demo_tool_call] by (simp add: new_backoff_def)
qed

lemma demo_wait:
  "recovery_wait_or_return (demo_env (\<lambda>_ _ _. Retry 0) None) tc res k = RetryDecision (sat_add k 1) None"
  by (simp add: recovery_wait_or_return_def recover_tool_error_def demo_env_def Let_def)

lemma demo_error: "dr_is_error (soft_error tc msg)"
  by (simp add: soft_error_def result_for_call_def)

lemma demo_step:
  "retry_loop (demo_env (\<lambda>_ _ _. Retry 0) None) original tc k =
     (if sat_add k 1 > 5 then (Inl (ToolRecoveryExhausted original (sat_add k 1)), [(k, tc)])
      else (case retry_loop (demo_env (\<lambda>_ _ _. Retry 0) None) original tc (sat_add k 1) of
              (r, trace) \<Rightarrow> (r, (k, tc) # trace)))"
  by (subst retry_loop.simps)
     (simp add: demo_attempt demo_wait demo_error max_recovery_attempts_def
       apply_correction_if_present_def)

lemma demo_exhausted:
  "execute_tool_call (demo_env (\<lambda>_ _ _. Retry 0) None) demo_tool_call =
     (Inl (ToolRecoveryExhausted ''bash'' 6),
      [(0, demo_tool_call), (1, demo_tool_call), (2, demo_tool_call), (3, demo_tool_call),
       (4, demo_tool_call), (5, demo_tool_call)])"
proof -
  have "sat_add 0 1 = (1 :: u32)" "sat_add 1 1 = (2 :: u32)" "sat_add 2 1 = (3 :: u32)"
    "sat_add 3 1 = (4 :: u32)" "sat_add 4 1 = (5 :: u32)" "sat_add 5 1 = (6 :: u32)"
    by (simp_all add: word_unat_eq_iff unat_sat_add)
  note counts = this
  let ?run = "retry_loop (demo_env (\<lambda>_ _ _. Retry 0) None) ''bash'' demo_tool_call"
  have "?run 5 = (Inl (ToolRecoveryExhausted ''bash'' 6), [(5, demo_tool_call)])"
    by (subst demo_step) (simp add: counts)
  then have "?run 4 = (Inl (ToolRecoveryExhausted ''bash'' 6), [(4, demo_tool_call), (5, demo_tool_call)])"
    by (subst demo_step) (simp add: counts)
  then have "?run 3 = (Inl (ToolRecoveryExhausted ''bash'' 6),
      [(3, demo_tool_call), (4, demo_tool_call), (5, demo_tool_call)])"
    by (subst demo_step) (simp add: counts)
  then have "?run 2 = (Inl (ToolRecoveryExhausted ''bash'' 6),
      [(2, demo_tool_call), (3, demo_tool_call), (4, demo_tool_call), (5, demo_tool_call)])"
    by (subst demo_step) (simp add: counts)
  then have "?run 1 = (Inl (ToolRecoveryExhausted ''bash'' 6), [(1, demo_tool_call), (2, demo_tool_call),
      (3, demo_tool_call), (4, demo_tool_call), (5, demo_tool_call)])"
    by (subst demo_step) (simp add: counts)
  then have "?run 0 = (Inl (ToolRecoveryExhausted ''bash'' 6), [(0, demo_tool_call), (1, demo_tool_call),
      (2, demo_tool_call), (3, demo_tool_call), (4, demo_tool_call), (5, demo_tool_call)])"
    by (subst demo_step) (simp add: counts)
  then show ?thesis by (simp add: execute_tool_call_def) (simp add: demo_tool_call_def)
qed

theorem exhaustion_takes_six_failures_witness:
  "case execute_tool_call (demo_env (\<lambda>_ _ _. Retry 0) None) demo_tool_call of
     (answer, trace) \<Rightarrow> answer = Inl (ToolRecoveryExhausted ''bash'' 6) \<and>
       map (\<lambda>pass. unat (fst pass)) trace = [0..<6]"
  using exhaustion_takes_six_failures [OF demo_exhausted] demo_attempt by (simp add: demo_exhausted)

end
