(* ===== verification/Tool_Health.thy ===== *)
theory Tool_Health
  imports Numeric Budget
begin

section \<open>Tool health\<close>

text \<open>
  src/src/tool/health.rs: the per-tool statistics with their moving average, the circuit breaker
  with its probe lease, the registry of both and the router. The statistics are atomics and the
  breaker's state is behind one mutex whose poisoning is recovered from, so each method is one
  step here. The clock is the argument \<open>now\<close>; \<open>last_instant\<close> is the largest instant the platform
  represents, on which checked addition of an instant gives up.
\<close>

subsection \<open>Statistics\<close>

datatype health_status = Healthy | Degraded | Unhealthy

fun show_health_status :: "health_status \<Rightarrow> string" where
  "show_health_status Healthy = ''healthy''"
| "show_health_status Degraded = ''degraded''"
| "show_health_status Unhealthy = ''unhealthy''"

definition ewma_scale :: u64 where
  "ewma_scale = 1000000"

record tool_stats =
  total_calls :: u64
  success_count :: u64
  failure_count :: u64
  total_duration_ns :: u64
  max_duration_ns :: u64
  ewma_success :: u64

definition new_stats :: tool_stats where
  "new_stats = \<lparr>total_calls = 0, success_count = 0, failure_count = 0, total_duration_ns = 0,
     max_duration_ns = 0, ewma_success = ewma_scale\<rparr>"

definition update_ewma :: "u64 \<Rightarrow> bool \<Rightarrow> u64" where
  "update_ewma prev is_success =
     (let sample = sat_mul (of_bool is_success) ewma_scale;
          following = sat_add (sat_mul prev 7) (sat_mul sample 3) div 10
      in min following ewma_scale)"

definition saturating_add_cell :: "u64 \<Rightarrow> u64 \<Rightarrow> u64" where
  "saturating_add_cell prev v = (case checked_add prev v of Some s \<Rightarrow> s | None \<Rightarrow> - 1)"

definition stats_record_success :: "duration \<Rightarrow> tool_stats \<Rightarrow> tool_stats" where
  "stats_record_success d s =
     (let ns = nat_to_word_sat d in
      s\<lparr>total_calls := total_calls s + 1, success_count := success_count s + 1,
        total_duration_ns := saturating_add_cell (total_duration_ns s) ns,
        max_duration_ns := max (max_duration_ns s) ns,
        ewma_success := update_ewma (ewma_success s) True\<rparr>)"

definition stats_record_failure :: "duration \<Rightarrow> tool_stats \<Rightarrow> tool_stats" where
  "stats_record_failure d s =
     (let ns = nat_to_word_sat d in
      s\<lparr>total_calls := total_calls s + 1, failure_count := failure_count s + 1,
        total_duration_ns := saturating_add_cell (total_duration_ns s) ns,
        max_duration_ns := max (max_duration_ns s) ns,
        ewma_success := update_ewma (ewma_success s) False\<rparr>)"

definition success_rate :: "(rat \<Rightarrow> rat) \<Rightarrow> tool_stats \<Rightarrow> rat" where
  "success_rate rnd s =
     (if total_calls s = 0 then 1
      else unit_ratio rnd 32 (unat (sat_mul (success_count s) ewma_scale div total_calls s)) (unat ewma_scale))"

text \<open>The literals 0.3, 0.7 and 0.8 are the doubles they denote; 0.5 is exact.\<close>

definition health_score :: "(rat \<Rightarrow> rat) \<Rightarrow> tool_stats \<Rightarrow> rat" where
  "health_score rnd s =
     (let v = min (ewma_success s) ewma_scale;
          ewma = unit_ratio rnd 32 (unat v) (unat ewma_scale)
      in rnd (rnd (5404319552844595 / 18014398509481984 * success_rate rnd s) +
              rnd (3152519739159347 / 4503599627370496 * ewma)))"

definition avg_duration :: "tool_stats \<Rightarrow> duration" where
  "avg_duration s = (if total_calls s = 0 then 0 else unat (total_duration_ns s) div unat (total_calls s))"

definition max_duration :: "tool_stats \<Rightarrow> duration" where
  "max_duration s = unat (max_duration_ns s)"

subsection \<open>The circuit breaker\<close>

datatype circuit_state = CircuitClosed | CircuitOpen | CircuitHalfOpen

record circuit_config =
  cc_failure_threshold :: u64
  cc_recovery_duration :: duration
  cc_probe_timeout :: duration

definition default_circuit_config :: circuit_config where
  "default_circuit_config =
     \<lparr>cc_failure_threshold = 3, cc_recovery_duration = 30 * 10 ^ 9, cc_probe_timeout = 30 * 10 ^ 9\<rparr>"

record probe_state =
  circuit :: circuit_state
  circuit_failures :: u64
  probe_started_at :: "instant option"
  last_failure_time :: "instant option"

definition default_probe_state :: probe_state where
  "default_probe_state =
     \<lparr>circuit = CircuitClosed, circuit_failures = 0, probe_started_at = None, last_failure_time = None\<rparr>"

record tool_breaker =
  failure_threshold :: u64
  recovery_duration :: duration
  probe_timeout :: duration
  probe :: probe_state

definition new_breaker :: "duration \<Rightarrow> u64 \<Rightarrow> tool_breaker" where
  "new_breaker recovery threshold =
     \<lparr>failure_threshold = threshold, recovery_duration = recovery, probe_timeout = recovery,
      probe = default_probe_state\<rparr>"

definition with_probe_timeout :: "duration \<Rightarrow> tool_breaker \<Rightarrow> tool_breaker" where
  "with_probe_timeout d b = b\<lparr>probe_timeout := d\<rparr>"

definition breaker_from_config :: "circuit_config \<Rightarrow> tool_breaker" where
  "breaker_from_config c =
     \<lparr>failure_threshold = cc_failure_threshold c, recovery_duration = cc_recovery_duration c,
      probe_timeout = cc_probe_timeout c, probe = default_probe_state\<rparr>"

definition instant_checked_add :: "instant \<Rightarrow> instant \<Rightarrow> duration \<Rightarrow> instant option" where
  "instant_checked_add last_instant t d = (if t + d \<le> last_instant then Some (t + d) else None)"

definition elapsed_at_least :: "instant \<Rightarrow> duration \<Rightarrow> instant option \<Rightarrow> bool" where
  "elapsed_at_least now d t = (case t of None \<Rightarrow> False | Some s \<Rightarrow> now - s \<ge> d)"

definition probe_expired :: "instant \<Rightarrow> duration \<Rightarrow> probe_state \<Rightarrow> bool" where
  "probe_expired now timeout s =
     (if timeout = 0 then False else elapsed_at_least now timeout (probe_started_at s))"

definition probe_expires_at :: "instant \<Rightarrow> duration \<Rightarrow> probe_state \<Rightarrow> instant option" where
  "probe_expires_at last_instant timeout s =
     Option.bind (probe_started_at s) (\<lambda>started. instant_checked_add last_instant started timeout)"

definition grant_probe :: "instant \<Rightarrow> duration \<Rightarrow> probe_state \<Rightarrow> bool \<times> probe_state" where
  "grant_probe now recovery s =
     (if elapsed_at_least now recovery (last_failure_time s)
      then (True, s\<lparr>circuit := CircuitHalfOpen, probe_started_at := Some now\<rparr>)
      else (False, s))"

definition rearm :: "instant \<Rightarrow> instant \<Rightarrow> duration \<Rightarrow> probe_state \<Rightarrow> probe_state" where
  "rearm last_instant now timeout s =
     s\<lparr>circuit := CircuitOpen,
       last_failure_time := (case probe_expires_at last_instant timeout s of Some t \<Rightarrow> Some t | None \<Rightarrow> Some now),
       probe_started_at := None\<rparr>"

definition allow_request :: "instant \<Rightarrow> instant \<Rightarrow> tool_breaker \<Rightarrow> bool \<times> tool_breaker" where
  "allow_request last_instant now b =
     (let s = probe b in
      case circuit s of
        CircuitClosed \<Rightarrow> (True, b)
      | CircuitHalfOpen \<Rightarrow>
          if probe_expired now (probe_timeout b) s
          then (case grant_probe now (recovery_duration b) (rearm last_instant now (probe_timeout b) s) of
                  (granted, s') \<Rightarrow> (granted, b\<lparr>probe := s'\<rparr>))
          else (False, b)
      | CircuitOpen \<Rightarrow>
          (case grant_probe now (recovery_duration b) s of (granted, s') \<Rightarrow> (granted, b\<lparr>probe := s'\<rparr>)))"

definition expired_and_cooled :: "instant \<Rightarrow> instant \<Rightarrow> tool_breaker \<Rightarrow> bool" where
  "expired_and_cooled last_instant now b =
     (probe_expired now (probe_timeout b) (probe b) \<and>
      (case probe_expires_at last_instant (probe_timeout b) (probe b) of
         None \<Rightarrow> False
       | Some expired_at \<Rightarrow>
           (case instant_checked_add last_instant expired_at (recovery_duration b) of
              None \<Rightarrow> False
            | Some available_at \<Rightarrow> available_at \<le> now)))"

definition would_allow_request :: "instant \<Rightarrow> instant \<Rightarrow> tool_breaker \<Rightarrow> bool" where
  "would_allow_request last_instant now b =
     (case circuit (probe b) of
        CircuitClosed \<Rightarrow> True
      | CircuitHalfOpen \<Rightarrow> expired_and_cooled last_instant now b
      | CircuitOpen \<Rightarrow> elapsed_at_least now (recovery_duration b) (last_failure_time (probe b)))"

definition would_be_half_open :: "instant \<Rightarrow> instant \<Rightarrow> tool_breaker \<Rightarrow> bool" where
  "would_be_half_open last_instant now b =
     (case circuit (probe b) of
        CircuitOpen \<Rightarrow> elapsed_at_least now (recovery_duration b) (last_failure_time (probe b))
      | CircuitHalfOpen \<Rightarrow> expired_and_cooled last_instant now b
      | CircuitClosed \<Rightarrow> False)"

definition breaker_record_success :: "instant \<Rightarrow> instant \<Rightarrow> tool_breaker \<Rightarrow> tool_breaker" where
  "breaker_record_success last_instant now b =
     (let s = probe b in
      if circuit s = CircuitHalfOpen \<and> probe_expired now (probe_timeout b) s
      then b\<lparr>probe := rearm last_instant now (probe_timeout b) s\<rparr>
      else if circuit s = CircuitOpen then b
      else b\<lparr>probe := s\<lparr>circuit_failures := 0, probe_started_at := None, circuit := CircuitClosed\<rparr>\<rparr>)"

definition breaker_record_failure :: "instant \<Rightarrow> tool_breaker \<Rightarrow> tool_breaker" where
  "breaker_record_failure now b =
     (let s = (probe b)\<lparr>circuit_failures := sat_add (circuit_failures (probe b)) 1,
                        last_failure_time := Some now, probe_started_at := None\<rparr>
      in b\<lparr>probe :=
           (case circuit s of
              CircuitClosed \<Rightarrow>
                if failure_threshold b > 0 \<and> circuit_failures s \<ge> failure_threshold b
                then s\<lparr>circuit := CircuitOpen\<rparr> else s
            | CircuitHalfOpen \<Rightarrow> s\<lparr>circuit := CircuitOpen\<rparr>
            | CircuitOpen \<Rightarrow> s)\<rparr>)"

definition state_label :: "instant \<Rightarrow> tool_breaker \<Rightarrow> string" where
  "state_label now b =
     (case circuit (probe b) of
        CircuitClosed \<Rightarrow> ''closed''
      | CircuitOpen \<Rightarrow> ''open''
      | CircuitHalfOpen \<Rightarrow> if probe_expired now (probe_timeout b) (probe b) then ''open'' else ''half-open'')"

definition is_closed :: "tool_breaker \<Rightarrow> bool" where
  "is_closed b \<longleftrightarrow> circuit (probe b) = CircuitClosed"

definition is_open :: "instant \<Rightarrow> tool_breaker \<Rightarrow> bool" where
  "is_open now b \<longleftrightarrow> circuit (probe b) = CircuitOpen \<or>
     (circuit (probe b) = CircuitHalfOpen \<and> probe_expired now (probe_timeout b) (probe b))"

definition is_half_open :: "instant \<Rightarrow> tool_breaker \<Rightarrow> bool" where
  "is_half_open now b \<longleftrightarrow>
     circuit (probe b) = CircuitHalfOpen \<and> \<not> probe_expired now (probe_timeout b) (probe b)"

subsection \<open>The registry\<close>

record health_registry =
  registry_stats :: "string \<rightharpoonup> tool_stats"
  registry_breakers :: "string \<rightharpoonup> tool_breaker"
  breaker_config :: circuit_config

definition new_registry :: health_registry where
  "new_registry =
     \<lparr>registry_stats = Map.empty, registry_breakers = Map.empty, breaker_config = default_circuit_config\<rparr>"

definition with_breaker_config :: "circuit_config \<Rightarrow> health_registry \<Rightarrow> health_registry" where
  "with_breaker_config c r = r\<lparr>breaker_config := c\<rparr>"

text \<open>Both lookups register the tool on first sight.\<close>

definition get_stats :: "string \<Rightarrow> health_registry \<Rightarrow> tool_stats \<times> health_registry" where
  "get_stats tool r =
     (case registry_stats r tool of
        Some s \<Rightarrow> (s, r)
      | None \<Rightarrow> (new_stats, r\<lparr>registry_stats := (registry_stats r)(tool \<mapsto> new_stats)\<rparr>))"

definition get_circuit_breaker :: "string \<Rightarrow> health_registry \<Rightarrow> tool_breaker \<times> health_registry" where
  "get_circuit_breaker tool r =
     (case registry_breakers r tool of
        Some b \<Rightarrow> (b, r)
      | None \<Rightarrow>
          (let b = breaker_from_config (breaker_config r)
           in (b, r\<lparr>registry_breakers := (registry_breakers r)(tool \<mapsto> b)\<rparr>)))"

definition put_stats :: "string \<Rightarrow> tool_stats \<Rightarrow> health_registry \<Rightarrow> health_registry" where
  "put_stats tool s r = r\<lparr>registry_stats := (registry_stats r)(tool \<mapsto> s)\<rparr>"

definition put_breaker :: "string \<Rightarrow> tool_breaker \<Rightarrow> health_registry \<Rightarrow> health_registry" where
  "put_breaker tool b r = r\<lparr>registry_breakers := (registry_breakers r)(tool \<mapsto> b)\<rparr>"

definition registry_allow_request ::
  "instant \<Rightarrow> instant \<Rightarrow> string \<Rightarrow> health_registry \<Rightarrow> bool \<times> health_registry" where
  "registry_allow_request last_instant now tool r =
     (case get_circuit_breaker tool r of
        (b, r1) \<Rightarrow>
          (case allow_request last_instant now b of (granted, b') \<Rightarrow> (granted, put_breaker tool b' r1)))"

definition get_health_status ::
  "(rat \<Rightarrow> rat) \<Rightarrow> instant \<Rightarrow> string \<Rightarrow> health_registry \<Rightarrow> health_status \<times> health_registry" where
  "get_health_status rnd now tool r =
     (case get_circuit_breaker tool r of
        (b, r1) \<Rightarrow>
          if is_open now b then (Unhealthy, r1)
          else
            (case get_stats tool r1 of
               (s, r2) \<Rightarrow>
                 (let score = health_score rnd s in
                  (if score \<ge> 3602879701896397 / 4503599627370496 then Healthy
                   else if score \<ge> 1 / 2 then Degraded else Unhealthy, r2))))"

definition is_tool_available ::
  "(rat \<Rightarrow> rat) \<Rightarrow> instant \<Rightarrow> instant \<Rightarrow> string \<Rightarrow> health_registry \<Rightarrow> bool \<times> health_registry" where
  "is_tool_available rnd last_instant now tool r =
     (case get_circuit_breaker tool r of
        (b, r1) \<Rightarrow>
          if \<not> would_allow_request last_instant now b then (False, r1)
          else if would_be_half_open last_instant now b then (True, r1)
          else (case get_health_status rnd now tool r1 of (st, r2) \<Rightarrow> (st \<noteq> Unhealthy, r2)))"

definition health_record_success ::
  "instant \<Rightarrow> instant \<Rightarrow> string \<Rightarrow> duration \<Rightarrow> health_registry \<Rightarrow> health_registry" where
  "health_record_success last_instant now tool d r =
     (case get_stats tool r of
        (s, r1) \<Rightarrow>
          (case get_circuit_breaker tool (put_stats tool (stats_record_success d s) r1) of
             (b, r2) \<Rightarrow> put_breaker tool (breaker_record_success last_instant now b) r2))"

definition health_record_failure ::
  "instant \<Rightarrow> string \<Rightarrow> duration \<Rightarrow> health_registry \<Rightarrow> health_registry" where
  "health_record_failure now tool d r =
     (case get_stats tool r of
        (s, r1) \<Rightarrow>
          (case get_circuit_breaker tool (put_stats tool (stats_record_failure d s) r1) of
             (b, r2) \<Rightarrow> put_breaker tool (breaker_record_failure now b) r2))"

subsection \<open>The router\<close>

type_synonym health_router = "string \<rightharpoonup> string list"

definition add_fallback :: "string \<Rightarrow> string list \<Rightarrow> health_router \<Rightarrow> health_router" where
  "add_fallback primary alternatives router = router(primary \<mapsto> alternatives)"

definition fallbacks_for :: "health_router \<Rightarrow> string \<Rightarrow> string list" where
  "fallbacks_for router tool = (case router tool of Some names \<Rightarrow> names | None \<Rightarrow> [])"

fun first_available ::
  "(string \<Rightarrow> health_registry \<Rightarrow> bool \<times> health_registry) \<Rightarrow> string \<Rightarrow> string list \<Rightarrow> health_registry
   \<Rightarrow> string \<times> health_registry" where
  "first_available available tool [] r = (tool, r)"
| "first_available available tool (name # names) r =
     (case available name r of
        (True, r') \<Rightarrow> (name, r')
      | (False, r') \<Rightarrow> first_available available tool names r')"

definition resolve_tool ::
  "(rat \<Rightarrow> rat) \<Rightarrow> instant \<Rightarrow> instant \<Rightarrow> health_router \<Rightarrow> string \<Rightarrow> health_registry
   \<Rightarrow> string \<times> health_registry" where
  "resolve_tool rnd last_instant now router tool r =
     (case is_tool_available rnd last_instant now tool r of
        (True, r') \<Rightarrow> (tool, r')
      | (False, r') \<Rightarrow>
          first_available (is_tool_available rnd last_instant now) tool (fallbacks_for router tool) r')"

section \<open>Properties of tool health\<close>

subsection \<open>The breaker\<close>

lemmas allow_defs = allow_request_def grant_probe_def rearm_def probe_expired_def probe_expires_at_def
  instant_checked_add_def elapsed_at_least_def Let_def

text \<open>
  The pure availability reads agree at every instant with what a real request would be
  answered at that instant, and say exactly when that request would be a recovery probe, an expired
  probe lease included.
\<close>

theorem availability_oracle_agrees:
  assumes "now \<le> last_instant"
  shows "would_allow_request last_instant now b = fst (allow_request last_instant now b) \<and>
    would_be_half_open last_instant now b =
      (fst (allow_request last_instant now b) \<and> circuit (probe b) \<noteq> CircuitClosed)"
  using assms
  by (cases "circuit (probe b)"; cases "probe_started_at (probe b)")
     (auto simp: would_allow_request_def would_be_half_open_def expired_and_cooled_def allow_defs)

definition leased :: "tool_breaker" where
  "leased = (new_breaker 10 1)\<lparr>probe := \<lparr>circuit = CircuitHalfOpen, circuit_failures = 1,
     probe_started_at = Some 100, last_failure_time = Some 90\<rparr>\<rparr>"

theorem availability_oracle_agrees_witness:
  "would_allow_request 1000 119 leased = False \<and> would_allow_request 1000 120 leased = True"
  using availability_oracle_agrees [of 119 1000 leased] availability_oracle_agrees [of 120 1000 leased]
  by (simp add: leased_def new_breaker_def allow_defs)

text \<open>A run of requests, with the instants at which they ask.\<close>

fun requests :: "instant \<Rightarrow> instant list \<Rightarrow> tool_breaker \<Rightarrow> bool list \<times> tool_breaker" where
  "requests last_instant [] b = ([], b)"
| "requests last_instant (t # ts) b =
     (case allow_request last_instant t b of
        (granted, b') \<Rightarrow> (case requests last_instant ts b' of (gs, b'') \<Rightarrow> (granted # gs, b'')))"

text \<open>The breaker while a probe granted at \<open>t1\<close> is out and not replaced.\<close>

definition probing_since :: "instant \<Rightarrow> tool_breaker \<Rightarrow> tool_breaker \<Rightarrow> bool" where
  "probing_since t1 b0 b \<longleftrightarrow>
     recovery_duration b = recovery_duration b0 \<and> probe_timeout b = probe_timeout b0 \<and>
     ((circuit (probe b) = CircuitHalfOpen \<and> probe_started_at (probe b) = Some t1) \<or>
      (circuit (probe b) = CircuitOpen \<and> probe_timeout b > 0 \<and> recovery_duration b > 0 \<and>
       last_failure_time (probe b) = Some (t1 + probe_timeout b)))"

lemma probing_request:
  assumes "probing_since t1 b0 b" and "t \<le> last_instant"
    and "probe_timeout b0 = 0 \<or> t < t1 + probe_timeout b0 + recovery_duration b0"
  shows "\<not> fst (allow_request last_instant t b)"
    and "probing_since t1 b0 (snd (allow_request last_instant t b))"
proof -
  let ?s = "probe b"
  have same: "recovery_duration b = recovery_duration b0" "probe_timeout b = probe_timeout b0"
    using assms(1) by (simp_all add: probing_since_def)
  have "\<not> fst (allow_request last_instant t b) \<and> probing_since t1 b0 (snd (allow_request last_instant t b))"
  proof (cases "circuit ?s = CircuitHalfOpen")
    case True
    then have started: "probe_started_at ?s = Some t1" using assms(1) by (simp add: probing_since_def)
    show ?thesis
    proof (cases "0 < probe_timeout b0 \<and> t1 + probe_timeout b0 \<le> t \<and> t1 \<le> t")
      case expired: True
      then have "probe_expires_at last_instant (probe_timeout b0) ?s = Some (t1 + probe_timeout b0)"
        using started assms(2) by (simp add: probe_expires_at_def instant_checked_add_def)
      then have "rearm last_instant t (probe_timeout b0) ?s =
          ?s\<lparr>circuit := CircuitOpen, last_failure_time := Some (t1 + probe_timeout b0), probe_started_at := None\<rparr>"
        by (simp add: rearm_def)
      moreover have "probe_expired t (probe_timeout b0) ?s"
        using expired started by (auto simp: probe_expired_def elapsed_at_least_def)
      ultimately show ?thesis using True expired assms(3) same
        by (auto simp: allow_request_def Let_def grant_probe_def elapsed_at_least_def probing_since_def)
    next
      case False
      then have "\<not> probe_expired t (probe_timeout b0) ?s"
        using started by (auto simp: probe_expired_def elapsed_at_least_def)
      then show ?thesis using True assms(1) same by (simp add: allow_request_def Let_def)
    qed
  next
    case False
    with assms(1) have "circuit ?s = CircuitOpen" "0 < probe_timeout b" "0 < recovery_duration b"
      "last_failure_time ?s = Some (t1 + probe_timeout b)" by (auto simp: probing_since_def)
    then show ?thesis using assms(1,3) same
      by (auto simp: allow_request_def Let_def grant_probe_def elapsed_at_least_def)
  qed
  then show "\<not> fst (allow_request last_instant t b)"
    and "probing_since t1 b0 (snd (allow_request last_instant t b))" by simp_all
qed

lemma probing_requests:
  "probing_since t1 b0 b \<Longrightarrow> \<forall>t \<in> set ts. t \<le> last_instant \<Longrightarrow>
   probe_timeout b0 = 0 \<or> (\<forall>t \<in> set ts. t < t1 + probe_timeout b0 + recovery_duration b0) \<Longrightarrow>
   True \<notin> set (fst (requests last_instant ts b)) \<and> probing_since t1 b0 (snd (requests last_instant ts b))"
proof (induction ts arbitrary: b)
  case (Cons t ts)
  have t: "t \<le> last_instant" "probe_timeout b0 = 0 \<or> t < t1 + probe_timeout b0 + recovery_duration b0"
    using Cons.prems by auto
  note step = probing_request [OF Cons.prems(1) t]
  from Cons.IH [OF step(2)] Cons.prems(2,3) step(1) show ?case
    by (auto simp: case_prod_beta)
qed simp

lemma granted_probes:
  assumes "allow_request last_instant t1 b = (True, b1)" and "circuit (probe b) \<noteq> CircuitClosed"
  shows "probing_since t1 b b1"
  using assms by (cases "circuit (probe b)") (auto simp: allow_defs probing_since_def split: if_splits)

text \<open>
  C33: once a probe has been granted and no result arrives, no second request is granted before the
  probe's lease and the cooldown after it are over, however many ask; with the lease disabled none
  ever is. From then on the next request is granted, so a probe that never answers does not close
  the tool for good.
\<close>

theorem probe_is_single_flight:
  assumes "allow_request last_instant t1 b = (True, b1)" and "circuit (probe b) \<noteq> CircuitClosed"
    and "\<forall>t \<in> set ts. t \<le> last_instant"
    and "probe_timeout b = 0 \<or> (\<forall>t \<in> set ts. t < t1 + probe_timeout b + recovery_duration b)"
  shows "True \<notin> set (fst (requests last_instant ts b1)) \<and>
    (probe_timeout b > 0 \<longrightarrow> t1 + probe_timeout b + recovery_duration b \<le> t \<longrightarrow> t \<le> last_instant \<longrightarrow>
      fst (allow_request last_instant t (snd (requests last_instant ts b1))))"
proof -
  note out = probing_requests [OF granted_probes [OF assms(1,2)] assms(3,4)]
  then show ?thesis by (auto simp: probing_since_def allow_defs)
qed

theorem probe_is_single_flight_witness:
  "True \<notin> set (fst (requests 1000 [115, 119] leased)) \<and>
   fst (allow_request 1000 120 (snd (requests 1000 [115, 119] leased)))"
proof -
  define b where "b = (new_breaker 10 1)\<lparr>probe := \<lparr>circuit = CircuitOpen, circuit_failures = 1,
    probe_started_at = None, last_failure_time = Some 90\<rparr>\<rparr>"
  have "allow_request 1000 100 b = (True, leased)" "circuit (probe b) \<noteq> CircuitClosed"
    "probe_timeout b = 10" "recovery_duration b = 10"
    by (simp_all add: b_def leased_def new_breaker_def allow_defs)
  then show ?thesis using probe_is_single_flight [of 1000 100 b leased "[115, 119]" 120] by simp
qed

inductive breaker_reachable :: "instant \<Rightarrow> tool_breaker \<Rightarrow> bool" for last_instant :: instant where
  reach_new: "breaker_reachable last_instant (breaker_from_config c)"
| reach_request: "breaker_reachable last_instant b \<Longrightarrow>
    breaker_reachable last_instant (snd (allow_request last_instant now b))"
| reach_success: "breaker_reachable last_instant b \<Longrightarrow>
    breaker_reachable last_instant (breaker_record_success last_instant now b)"
| reach_failure: "breaker_reachable last_instant b \<Longrightarrow> breaker_reachable last_instant (breaker_record_failure now b)"

definition breaker_ok :: "tool_breaker \<Rightarrow> bool" where
  "breaker_ok b \<longleftrightarrow>
     (circuit (probe b) = CircuitHalfOpen \<longleftrightarrow> probe_started_at (probe b) \<noteq> None) \<and>
     (circuit (probe b) = CircuitOpen \<longrightarrow> last_failure_time (probe b) \<noteq> None) \<and>
     (circuit (probe b) = CircuitClosed \<longrightarrow> failure_threshold b > 0 \<longrightarrow>
        circuit_failures (probe b) < failure_threshold b) \<and>
     (failure_threshold b = 0 \<longrightarrow> circuit (probe b) = CircuitClosed)"

lemma ok_request: "breaker_ok b \<Longrightarrow> breaker_ok (snd (allow_request last_instant now b))"
  by (cases "circuit (probe b)") (auto simp: breaker_ok_def allow_defs split: option.splits)

lemma ok_success: "breaker_ok b \<Longrightarrow> breaker_ok (breaker_record_success last_instant now b)"
  by (cases "circuit (probe b)")
     (auto simp: breaker_ok_def breaker_record_success_def allow_defs split: option.splits)

lemma ok_failure: "breaker_ok b \<Longrightarrow> breaker_ok (breaker_record_failure now b)"
  by (cases "circuit (probe b)") (auto simp: breaker_ok_def breaker_record_failure_def Let_def not_le)

lemma reachable_ok: "breaker_reachable last_instant b \<Longrightarrow> breaker_ok b"
proof (induction rule: breaker_reachable.induct)
  case (reach_new c)
  then show ?case by (simp add: breaker_from_config_def breaker_ok_def default_probe_state_def word_gt_0)
qed (rule ok_request ok_success ok_failure, assumption)+

text \<open>
  In every state the breaker of a tool reaches by requests and results, it is half-open exactly
  while a probe is out, a closed one is below its threshold, a threshold of zero never opens it, and
  an open one remembers its last failure and grants a request at every instant from the end of
  its cooldown on: the tool is never lost for good.
\<close>

theorem breaker_states_sound:
  assumes "breaker_reachable last_instant b"
  shows "(circuit (probe b) = CircuitHalfOpen \<longleftrightarrow> probe_started_at (probe b) \<noteq> None) \<and>
    (circuit (probe b) = CircuitClosed \<longrightarrow> failure_threshold b > 0 \<longrightarrow>
      circuit_failures (probe b) < failure_threshold b) \<and>
    (failure_threshold b = 0 \<longrightarrow> circuit (probe b) = CircuitClosed) \<and>
    (circuit (probe b) = CircuitOpen \<longrightarrow>
      (\<exists>t. last_failure_time (probe b) = Some t \<and>
        (\<forall>now \<ge> t + recovery_duration b. fst (allow_request last_instant now b))))"
  using reachable_ok [OF assms] by (auto simp: breaker_ok_def allow_defs)

theorem breaker_states_sound_witness:
  "fst (allow_request 1000 60 (breaker_record_failure 50 (breaker_from_config
     \<lparr>cc_failure_threshold = 1, cc_recovery_duration = 10, cc_probe_timeout = 0\<rparr>)))"
proof -
  let ?b = "breaker_record_failure 50 (breaker_from_config
    \<lparr>cc_failure_threshold = 1, cc_recovery_duration = 10, cc_probe_timeout = 0\<rparr>)"
  have "breaker_reachable 1000 ?b" by (intro breaker_reachable.intros)
  moreover have "circuit (probe ?b) = CircuitOpen" "last_failure_time (probe ?b) = Some 50"
    "recovery_duration ?b = 10"
    by (simp_all add: breaker_record_failure_def breaker_from_config_def default_probe_state_def
        Let_def word_le_nat_alt unat_sat_add)
  ultimately show ?thesis using breaker_states_sound [of 1000 ?b] by auto
qed

subsection \<open>The registry as total functions\<close>

text \<open>
  What the registry stands for: the breaker and the statistics of every tool, registered or not.
  Registering a tool on first sight changes neither.
\<close>

definition breaker_of :: "health_registry \<Rightarrow> string \<Rightarrow> tool_breaker" where
  "breaker_of r tool =
     (case registry_breakers r tool of Some b \<Rightarrow> b | None \<Rightarrow> breaker_from_config (breaker_config r))"

definition stats_of :: "health_registry \<Rightarrow> string \<Rightarrow> tool_stats" where
  "stats_of r tool = (case registry_stats r tool of Some s \<Rightarrow> s | None \<Rightarrow> new_stats)"

definition same_view :: "health_registry \<Rightarrow> health_registry \<Rightarrow> bool" where
  "same_view r r' \<longleftrightarrow> breaker_of r' = breaker_of r \<and> stats_of r' = stats_of r \<and>
     breaker_config r' = breaker_config r"

lemma same_view_refl [simp]: "same_view r r"
  by (simp add: same_view_def)

lemma same_view_trans: "same_view r r' \<Longrightarrow> same_view r' r'' \<Longrightarrow> same_view r r''"
  by (simp add: same_view_def)

lemma get_circuit_breaker_view:
  "fst (get_circuit_breaker tool r) = breaker_of r tool"
  "same_view r (snd (get_circuit_breaker tool r))"
  by (auto simp: get_circuit_breaker_def breaker_of_def stats_of_def same_view_def Let_def fun_eq_iff
      split: option.splits)

lemma get_stats_view:
  "fst (get_stats tool r) = stats_of r tool" "same_view r (snd (get_stats tool r))"
  by (auto simp: get_stats_def breaker_of_def stats_of_def same_view_def fun_eq_iff split: option.splits)

definition status_of :: "(rat \<Rightarrow> rat) \<Rightarrow> instant \<Rightarrow> health_registry \<Rightarrow> string \<Rightarrow> health_status" where
  "status_of rnd now r tool =
     (if is_open now (breaker_of r tool) then Unhealthy
      else if health_score rnd (stats_of r tool) \<ge> 3602879701896397 / 4503599627370496 then Healthy
      else if health_score rnd (stats_of r tool) \<ge> 1 / 2 then Degraded else Unhealthy)"

definition available_in :: "(rat \<Rightarrow> rat) \<Rightarrow> instant \<Rightarrow> instant \<Rightarrow> health_registry \<Rightarrow> string \<Rightarrow> bool" where
  "available_in rnd last_instant now r tool \<longleftrightarrow>
     would_allow_request last_instant now (breaker_of r tool) \<and>
     (would_be_half_open last_instant now (breaker_of r tool) \<or> status_of rnd now r tool \<noteq> Unhealthy)"

lemma get_health_status_view:
  "fst (get_health_status rnd now tool r) = status_of rnd now r tool"
  "same_view r (snd (get_health_status rnd now tool r))"
proof -
  note b = get_circuit_breaker_view [where tool = tool and r = r]
  note s = get_stats_view [where tool = tool and r = "snd (get_circuit_breaker tool r)"]
  have "stats_of (snd (get_circuit_breaker tool r)) = stats_of r" using b(2) by (simp add: same_view_def)
  then show "fst (get_health_status rnd now tool r) = status_of rnd now r tool"
    using b(1) s(1) by (simp add: get_health_status_def status_of_def case_prod_beta Let_def)
  show "same_view r (snd (get_health_status rnd now tool r))"
    using b(2) same_view_trans [OF b(2) s(2)]
    by (simp add: get_health_status_def case_prod_beta Let_def)
qed

lemma is_tool_available_view:
  "fst (is_tool_available rnd last_instant now tool r) = available_in rnd last_instant now r tool"
  "same_view r (snd (is_tool_available rnd last_instant now tool r))"
proof -
  let ?r1 = "snd (get_circuit_breaker tool r)"
  note b = get_circuit_breaker_view [where tool = tool and r = r]
  note h = get_health_status_view [where rnd = rnd and now = now and tool = tool and r = ?r1]
  have "status_of rnd now ?r1 = status_of rnd now r"
    using b(2) by (simp add: same_view_def status_of_def fun_eq_iff)
  then show "fst (is_tool_available rnd last_instant now tool r) = available_in rnd last_instant now r tool"
    using b(1) h(1) by (simp add: is_tool_available_def available_in_def case_prod_beta)
  show "same_view r (snd (is_tool_available rnd last_instant now tool r))"
    using b(2) same_view_trans [OF b(2) h(2)]
    by (simp add: is_tool_available_def case_prod_beta)
qed

lemma available_same_view:
  "same_view r r' \<Longrightarrow> available_in rnd last_instant now r' = available_in rnd last_instant now r"
  by (simp add: same_view_def available_in_def status_of_def fun_eq_iff)

lemma first_available_view:
  "same_view r0 r \<Longrightarrow>
   fst (first_available (is_tool_available rnd last_instant now) tool names r) =
     (case find (available_in rnd last_instant now r0) names of Some n \<Rightarrow> n | None \<Rightarrow> tool) \<and>
   same_view r0 (snd (first_available (is_tool_available rnd last_instant now) tool names r))"
proof (induction names arbitrary: r)
  case (Cons name names)
  note av = is_tool_available_view [where rnd = rnd and last_instant = last_instant and now = now and tool = name and r = r]
  note next_view = same_view_trans [OF Cons.prems av(2)]
  show ?case
    using av(1) available_same_view [OF Cons.prems, of rnd last_instant now] next_view
      Cons.IH [OF next_view]
    by (cases "is_tool_available rnd last_instant now name r"; cases "fst (is_tool_available rnd last_instant now name r)")
       simp_all
qed simp

text \<open>
  The router answers the tool itself when it is available, else the first available of its
  fallbacks in their order, else the tool itself; and asking consumes nothing: no breaker and no
  statistic of any tool changes, so a routing hint never takes the probe of a real dispatch.
\<close>

theorem router_picks_first_available:
  "fst (resolve_tool rnd last_instant now router tool r) =
     (if available_in rnd last_instant now r tool then tool
      else case find (available_in rnd last_instant now r) (fallbacks_for router tool) of
             Some name \<Rightarrow> name | None \<Rightarrow> tool) \<and>
   same_view r (snd (resolve_tool rnd last_instant now router tool r))"
  using is_tool_available_view [where rnd = rnd and last_instant = last_instant and now = now and tool = tool and r = r]
    first_available_view [OF is_tool_available_view(2), of rnd last_instant now tool "fallbacks_for router tool"
      rnd last_instant now tool r]
  by (cases "is_tool_available rnd last_instant now tool r"; cases "fst (is_tool_available rnd last_instant now tool r)")
     (simp_all add: resolve_tool_def)

subsection \<open>The statistics\<close>

definition outcome_step :: "bool \<times> duration \<Rightarrow> tool_stats \<Rightarrow> tool_stats" where
  "outcome_step o' s = (if fst o' then stats_record_success (snd o') s else stats_record_failure (snd o') s)"

lemma update_ewma_bound: "update_ewma e b \<le> ewma_scale"
  by (simp add: update_ewma_def Let_def)

lemma unat_update_ewma:
  assumes "e \<le> ewma_scale"
  shows "unat (update_ewma e b) = (unat e * 7 + (if b then 3000000 else 0)) div 10"
proof -
  have e: "unat e \<le> 1000000" using assms by (simp add: word_le_nat_alt ewma_scale_def)
  then have prod: "unat (sat_mul e 7) = unat e * 7" by (simp add: unat_sat_mul min_def)
  have sample: "unat (sat_mul (sat_mul (of_bool b) ewma_scale) 3 :: u64) = (if b then 3000000 else 0)"
    by (cases b) (simp_all add: unat_sat_mul ewma_scale_def)
  have "unat (sat_add (sat_mul e 7) (sat_mul (sat_mul (of_bool b) ewma_scale) 3)) =
      unat e * 7 + (if b then 3000000 else 0)"
    using e by (simp add: unat_sat_add prod sample min_def)
  then have "unat (sat_add (sat_mul e 7) (sat_mul (sat_mul (of_bool b) ewma_scale) 3) div 10) =
      (unat e * 7 + (if b then 3000000 else 0)) div 10" by (simp add: unat_div)
  moreover have "(unat e * 7 + (if b then 3000000 else 0)) div 10 \<le> 1000000"
    using e by (auto simp: less_mult_imp_div_less div_le_mono [of _ _ 10, simplified])
  ultimately show ?thesis
    by (simp add: update_ewma_def Let_def min_def word_le_nat_alt ewma_scale_def)
qed

text \<open>
  After any sequence of recorded outcomes the total is the sum of successes and failures, and
  the moving average stays on its scale; one outcome moves it to seven tenths of itself plus three
  tenths of the outcome, rounded down, so it never rises on a failure and never falls on a
  success by more than the rounding.
\<close>

theorem stats_account:
  "let s = fold outcome_step os new_stats in
     total_calls s = success_count s + failure_count s \<and> ewma_success s \<le> ewma_scale \<and>
     unat (ewma_success (outcome_step (ok, d) s)) =
       (unat (ewma_success s) * 7 + (if ok then 3000000 else 0)) div 10"
proof -
  have "total_calls (fold outcome_step os s) = success_count (fold outcome_step os s) + failure_count (fold outcome_step os s) \<and>
      ewma_success (fold outcome_step os s) \<le> ewma_scale"
    if "total_calls s = success_count s + failure_count s \<and> ewma_success s \<le> ewma_scale" for s
    using that
    by (induction os arbitrary: s)
       (simp_all add: outcome_step_def stats_record_success_def stats_record_failure_def Let_def update_ewma_bound)
  from this [of new_stats] show ?thesis
    by (cases ok)
       (simp_all add: new_stats_def Let_def outcome_step_def stats_record_success_def
         stats_record_failure_def unat_update_ewma)
qed

end
