(* ===== verification/Pairing.thy ===== *)
theory Pairing
  imports Message "HOL-Library.AList"
begin

section \<open>Pairing tool calls with their results\<close>

text \<open>
  The first part of src/src/compact/truncating.rs: \<open>ToolPairing\<close>, which every compactor cuts
  a history by. A result is paired with the most recent preceding call of its id that no earlier
  result has claimed; a split of the history is slid back until no pair straddles it; the messages
  that carry durable results are pulled over a split. The counter of tokens is an argument, as
  the trait object is in the code.
\<close>

subsection \<open>The scan\<close>

datatype part_mate = Paired nat | LoneCall | LoneResult

text \<open>
  \<open>mates\<close> mirrors the shape of the message list. The stacks of unclaimed calls are an
  association list from call ids, the most recent call at the head of its stack.
\<close>

type_synonym tool_pairing = "part_mate option list list"
type_synonym occurrence = "nat \<times> nat"
type_synonym pending_calls = "(string \<times> occurrence list) list"

definition set_mate :: "occurrence \<Rightarrow> part_mate \<Rightarrow> tool_pairing \<Rightarrow> tool_pairing" where
  "set_mate pos s mates = mates[fst pos := (mates ! fst pos)[snd pos := Some s]]"

definition scan_part ::
  "nat \<Rightarrow> nat \<Rightarrow> 'v message_part \<Rightarrow> tool_pairing \<times> pending_calls \<Rightarrow> tool_pairing \<times> pending_calls" where
  "scan_part i p part st =
     (case st of (mates, pending) \<Rightarrow>
       (case part of
          ToolCallPart call_id _ _ \<Rightarrow>
            (mates, AList.map_default call_id [(i, p)] (\<lambda>calls. (i, p) # calls) pending)
        | ToolResultPart call_id _ _ _ _ \<Rightarrow>
            (case map_of pending call_id of
               Some (claimed # calls) \<Rightarrow>
                 (set_mate (i, p) (Paired (fst claimed)) (set_mate claimed (Paired i) mates),
                  AList.update call_id calls pending)
             | _ \<Rightarrow> (set_mate (i, p) LoneResult mates, pending))
        | _ \<Rightarrow> st))"

definition mark_lone_calls :: "pending_calls \<Rightarrow> tool_pairing \<Rightarrow> tool_pairing" where
  "mark_lone_calls pending mates =
     foldl (\<lambda>mates pos. set_mate pos LoneCall mates) mates (concat (map snd pending))"

definition scan :: "'v message list \<Rightarrow> tool_pairing" where
  "scan ms =
     (case foldl (\<lambda>st (i, m). foldl (\<lambda>st (p, part). scan_part i p part st) st (enumerate 0 (msg_parts m)))
             (map (\<lambda>m. map (\<lambda>_. None) (msg_parts m)) ms, []) (enumerate 0 ms) of
        (mates, pending) \<Rightarrow> mark_lone_calls pending mates)"

definition mate_at :: "tool_pairing \<Rightarrow> occurrence \<Rightarrow> part_mate option" where
  "mate_at mates pos =
     (if fst pos < length mates \<and> snd pos < length (mates ! fst pos)
      then mates ! fst pos ! snd pos else None)"

subsection \<open>Splits\<close>

definition adjusted_split :: "tool_pairing \<Rightarrow> nat \<Rightarrow> nat" where
  "adjusted_split mates split =
     foldl (foldl (\<lambda>new_split mate.
         case mate of
           Some (Paired m) \<Rightarrow> if m < split \<and> m < new_split then m else new_split
         | _ \<Rightarrow> new_split))
       split (drop split mates)"

lemma earlier_mate: "(n :: nat) \<le> split \<Longrightarrow> (if m < split \<and> m < n then m else n) = min m n"
  by auto

lemma fold_min_le: "fold min xs n \<le> (n :: nat)"
proof (induction xs arbitrary: n)
  case (Cons x xs)
  show ?case using Cons.IH [of "min x n"] by simp
qed simp

lemma fold_min_lower: "m \<in> set xs \<Longrightarrow> fold min xs n \<le> (m :: nat)"
proof (induction xs arbitrary: n)
  case (Cons x xs)
  then show ?case using fold_min_le [of xs "min x n"] by auto
qed simp

lemma fold_min_member: "fold min xs n = (n :: nat) \<or> fold min xs n \<in> set xs"
  by (induction xs arbitrary: n) (auto simp: min_def split: if_splits)

lemma adjusted_split_min:
  "adjusted_split mates split = fold min [m. row \<leftarrow> drop split mates, Some (Paired m) \<leftarrow> row] split"
proof -
  have row: "foldl (\<lambda>new_split mate. case mate of
        Some (Paired m) \<Rightarrow> if m < split \<and> m < new_split then m else new_split | _ \<Rightarrow> new_split) n row =
      fold min [m. Some (Paired m) \<leftarrow> row] n" if "n \<le> split" for n row
    using that
    by (induction row arbitrary: n)
       (auto split: option.splits part_mate.splits simp: earlier_mate simp del: if_split)
  have "foldl (foldl (\<lambda>new_split mate. case mate of
        Some (Paired m) \<Rightarrow> if m < split \<and> m < new_split then m else new_split | _ \<Rightarrow> new_split)) n rows =
      fold min [m. row \<leftarrow> rows, Some (Paired m) \<leftarrow> row] n" if "n \<le> split" for n rows
    using that by (induction rows arbitrary: n) (auto simp: row le_trans [OF fold_min_le])
  then show ?thesis by (simp add: adjusted_split_def)
qed

text \<open>A split is safe when no paired part at or after it has its counterpart before it.\<close>

definition pair_safe :: "tool_pairing \<Rightarrow> nat \<Rightarrow> bool" where
  "pair_safe mates split \<longleftrightarrow>
     (\<forall>row \<in> set (drop split mates). \<forall>mate \<in> set row. \<forall>m. mate = Some (Paired m) \<longrightarrow> split \<le> m)"

lemma later_mates:
  "m \<in> set [m. row \<leftarrow> rows, Some (Paired m) \<leftarrow> row] \<longleftrightarrow> (\<exists>row \<in> set rows. Some (Paired m) \<in> set row)"
  by (auto split: option.splits part_mate.splits)

lemma adjusted_split_le: "adjusted_split mates split \<le> split"
  by (simp add: adjusted_split_min fold_min_le)

lemma adjusted_split_fixed: "adjusted_split mates split = split \<longleftrightarrow> pair_safe mates split"
proof
  assume fixed: "adjusted_split mates split = split"
  show "pair_safe mates split"
    unfolding pair_safe_def using fold_min_lower [of _ _ split] fixed
    by (metis adjusted_split_min later_mates)
next
  assume safe: "pair_safe mates split"
  have "adjusted_split mates split = split \<or> (\<exists>row \<in> set (drop split mates). Some (Paired (adjusted_split mates split)) \<in> set row)"
    using fold_min_member later_mates by (metis adjusted_split_min)
  then show "adjusted_split mates split = split"
    using safe adjusted_split_le [of mates split] by (auto simp: pair_safe_def intro: le_antisym)
qed

function slide :: "tool_pairing \<Rightarrow> nat \<Rightarrow> nat" where
  "slide mates split =
     (let adjusted = adjusted_split mates split in if adjusted = split then split else slide mates adjusted)"
  by pat_completeness auto
termination
  by (relation "measure snd") (auto simp: le_neq_implies_less adjusted_split_le)

declare slide.simps [simp del]

lemma slide_le: "slide mates split \<le> split"
proof (induction mates split rule: slide.induct)
  case (1 mates split)
  then show ?case
    using adjusted_split_le [of mates split] by (subst slide.simps) (auto simp: Let_def intro: le_trans)
qed

lemma slide_safe: "pair_safe mates (slide mates split)"
proof (induction mates split rule: slide.induct)
  case (1 mates split)
  then show ?case
    by (subst slide.simps) (auto simp: Let_def adjusted_split_fixed)
qed

lemma adjusted_split_above_safe: "pair_safe mates s \<Longrightarrow> s \<le> split \<Longrightarrow> s \<le> adjusted_split mates split"
proof -
  assume safe: "pair_safe mates s" and le: "s \<le> split"
  have "set (drop split mates) \<subseteq> set (drop s mates)" by (rule set_drop_subset_set_drop [OF le])
  with safe have "\<forall>m \<in> set [m. row \<leftarrow> drop split mates, Some (Paired m) \<leftarrow> row]. s \<le> m"
    unfolding later_mates pair_safe_def by (auto simp: later_mates)
  with le show ?thesis using fold_min_member unfolding adjusted_split_min by metis
qed

lemma slide_above_safe: "pair_safe mates s \<Longrightarrow> s \<le> split \<Longrightarrow> s \<le> slide mates split"
proof (induction mates split rule: slide.induct)
  case (1 mates split)
  then show ?case
    by (subst slide.simps) (auto simp: Let_def adjusted_split_above_safe)
qed

lemma pair_safe_0 [simp]: "pair_safe mates 0"
  by (simp add: pair_safe_def)

text \<open>The slid split is the greatest safe one that is not after the split asked for.\<close>

lemma slide_greatest_safe: "slide mates split = Max {s. s \<le> split \<and> pair_safe mates s}"
  by (rule Max_eqI [symmetric]) (auto simp: slide_le slide_safe slide_above_safe)

lemma slide_fixed: "slide mates s = s \<longleftrightarrow> pair_safe mates s"
  using slide_safe [of mates s] slide_le [of mates s] slide_above_safe [of mates s s]
  by (auto intro: le_antisym)

lemma slide_mono: "s \<le> s' \<Longrightarrow> slide mates s \<le> slide mates s'"
  using slide_above_safe [OF slide_safe [of mates s], of s'] slide_le [of mates s] by simp

subsection \<open>Turn boundaries\<close>

definition at_role_transition :: "'v message list \<Rightarrow> nat \<Rightarrow> bool" where
  "at_role_transition ms i \<longleftrightarrow>
     0 < i \<and> i < length ms \<and> msg_role (ms ! (i - 1)) = Assistant \<and> msg_role (ms ! i) = User"

definition safe_boundaries :: "'v message list \<Rightarrow> nat list" where
  "safe_boundaries ms =
     (let mates = scan ms
      in filter (\<lambda>candidate. at_role_transition ms candidate \<and> slide mates candidate = candidate)
           [1..<length ms])"

subsection \<open>Pulled messages\<close>

definition first_message_dropped_result_indices :: "tool_pairing \<Rightarrow> nat \<Rightarrow> nat list" where
  "first_message_dropped_result_indices mates split =
     sort (case mates of
        [] \<Rightarrow> []
      | first_row # _ \<Rightarrow>
          foldl (\<lambda>indices mate. case mate of
              Some (Paired m) \<Rightarrow> if m > 0 \<and> m < split \<and> m \<notin> set indices then indices @ [m] else indices
            | _ \<Rightarrow> indices) [] first_row)"

definition all_parts_lone_results :: "tool_pairing \<Rightarrow> bool" where
  "all_parts_lone_results mates \<longleftrightarrow> list_all (list_all (\<lambda>s. s = Some LoneResult)) mates"

fun is_durable_result :: "'v message_part \<Rightarrow> bool" where
  "is_durable_result (ToolResultPart _ _ _ _ (Some Durable)) = True"
| "is_durable_result _ = False"

text \<open>The push of an index that is not in the list yet, which the code writes out each time.\<close>

definition push_new :: "'a list \<Rightarrow> 'a \<Rightarrow> 'a list" where
  "push_new xs x = (if x \<in> set xs then xs else xs @ [x])"

text \<open>The body of the loops that collect the counterparts of the result parts of a message.\<close>

fun push_mate ::
  "('v message_part \<Rightarrow> bool) \<Rightarrow> (nat \<Rightarrow> bool) \<Rightarrow> nat list \<Rightarrow> 'v message_part \<times> part_mate option \<Rightarrow> nat list" where
  "push_mate wanted within acc (part, Some (Paired m)) = (if wanted part \<and> within m then push_new acc m else acc)"
| "push_mate wanted within acc (part, _) = acc"

definition durable_mates :: "'v message \<Rightarrow> part_mate option list \<Rightarrow> nat list" where
  "durable_mates msg row = foldl (push_mate is_durable_result (\<lambda>_. True)) [] (zip (msg_parts msg) row)"

definition durable_pull_indices :: "'v message list \<Rightarrow> nat \<Rightarrow> nat list" where
  "durable_pull_indices ms split =
     remdups_adj (sort (foldl (\<lambda>indices (i, m, row).
         if \<exists>part \<in> set (msg_parts m). is_durable_result part
         then foldl (\<lambda>acc mate. if mate < split then push_new acc mate else acc)
                (indices @ [i]) (durable_mates m row)
         else indices)
       [] (take split (enumerate 0 (zip ms (scan ms))))))"

definition pulled_pair :: "'v message \<Rightarrow> part_mate option list \<Rightarrow> nat \<Rightarrow> nat \<Rightarrow> nat list" where
  "pulled_pair msg row split i =
     foldl (push_mate is_tool_result (\<lambda>m. m < split)) [i] (zip (msg_parts msg) row)"

definition pull_within ::
  "('v message list \<Rightarrow> u64) \<Rightarrow> 'v message list \<Rightarrow> tool_pairing \<Rightarrow> nat \<Rightarrow> nat \<Rightarrow>
     nat list \<times> u64 \<Rightarrow> nat list \<times> u64" where
  "pull_within counter ms mates split i st =
     (case st of (indices, remaining) \<Rightarrow>
       if i < length ms \<and> i < length mates \<and> (\<exists>part \<in> set (msg_parts (ms ! i)). is_durable_result part)
       then (let pair = pulled_pair (ms ! i) (mates ! i) split i;
                 cost = sum_list (map (\<lambda>j. counter [ms ! j]) (filter (\<lambda>j. j < length ms) pair))
             in if cost > remaining then st else (indices @ pair, sat_sub remaining cost))
       else st)"

definition durable_pull_indices_within_budget ::
  "'v message list \<Rightarrow> nat \<Rightarrow> u64 \<Rightarrow> ('v message list \<Rightarrow> u64) \<Rightarrow> nat list" where
  "durable_pull_indices_within_budget ms split budget counter =
     remdups_adj (sort (fst (foldl (\<lambda>st i. pull_within counter ms (scan ms) split i st)
       ([], budget) (rev [0..<split]))))"

subsection \<open>The pairing as a relation\<close>

text \<open>
  What the scan computes: going through the parts in order, a result claims the most recent call
  of its id that is still unclaimed. \<open>claims\<close> keeps the stacks of unclaimed calls and the pairs
  found, each a call and the result that claimed it.
\<close>

definition occurrences :: "'v message list \<Rightarrow> (occurrence \<times> 'v message_part) list" where
  "occurrences ms =
     concat (map (\<lambda>(i, m). map (\<lambda>(p, part). ((i, p), part)) (enumerate 0 (msg_parts m))) (enumerate 0 ms))"

type_synonym 'p claim_state = "(string \<Rightarrow> 'p list) \<times> ('p \<times> 'p) list"

definition claim_step :: "'p claim_state \<Rightarrow> 'p \<times> 'v message_part \<Rightarrow> 'p claim_state" where
  "claim_step st occ =
     (case st of (stacks, pairs) \<Rightarrow>
       (case call_id_of (snd occ) of
          Some i \<Rightarrow> (stacks(i := fst occ # stacks i), pairs)
        | None \<Rightarrow>
            (case result_id_of (snd occ) of
               None \<Rightarrow> st
             | Some i \<Rightarrow>
                 (case stacks i of
                    [] \<Rightarrow> st
                  | c # calls \<Rightarrow> (stacks(i := calls), (c, fst occ) # pairs)))))"

definition claims :: "('p \<times> 'v message_part) list \<Rightarrow> 'p claim_state" where
  "claims occs = foldl claim_step (\<lambda>_. [], []) occs"

definition pairs_of :: "'v message list \<Rightarrow> (occurrence \<times> occurrence) list" where
  "pairs_of ms = snd (claims (occurrences ms))"

lemma claims_simps:
  "claims [] = (\<lambda>_. [], [])" "claims (occs @ [occ]) = claim_step (claims occs) occ"
  by (simp_all add: claims_def)

lemma call_not_result [simp]: "call_id_of part = Some i \<Longrightarrow> result_id_of part = None"
  by (cases part) auto

lemma occurrences_set:
  "(pos, part) \<in> set (occurrences ms) \<longleftrightarrow>
     fst pos < length ms \<and> snd pos < length (msg_parts (ms ! fst pos)) \<and> part = msg_parts (ms ! fst pos) ! snd pos"
proof -
  have row: "((a, b), part) \<in> set (map (\<lambda>(p, part). ((i, p), part)) (enumerate 0 (msg_parts m))) \<longleftrightarrow>
      a = i \<and> (b, part) \<in> set (enumerate 0 (msg_parts m))" for a b i m
    by force
  have "((a, b), part) \<in> set (occurrences ms) \<longleftrightarrow>
      (\<exists>m. (a, m) \<in> set (enumerate 0 ms) \<and> (b, part) \<in> set (enumerate 0 (msg_parts m)))" for a b
    unfolding occurrences_def set_concat set_map [of _ "enumerate 0 ms"] using row by fastforce
  then show ?thesis by (cases pos) (auto simp: in_set_enumerate_eq)
qed

lemma sorted_occurrences_from:
  "sorted_wrt (<) (map fst (concat (map (\<lambda>(i, m).
     map (\<lambda>(p, part). ((i, p), part)) (enumerate 0 (msg_parts m))) (enumerate n ms))))"
proof (induction ms arbitrary: n)
  case (Cons m ms)
  have "sorted_wrt (<) (map (Pair n) [0..<k])" for k
    by (simp add: sorted_wrt_map)
  moreover have "map fst (map (\<lambda>(p, part). ((n, p), part)) (enumerate 0 (msg_parts m))) =
      map (Pair n) [0..<length (msg_parts m)]"
    by (rule nth_equalityI) (simp_all add: nth_enumerate_eq)
  ultimately show ?case using Cons.IH [of "Suc n"]
    by (auto simp: sorted_wrt_append in_set_enumerate_eq)
qed simp

lemma sorted_occurrences: "sorted_wrt (<) (map fst (occurrences ms))"
  unfolding occurrences_def by (rule sorted_occurrences_from)

text \<open>
  The laws of the pairs, for every prefix of the parts: pairs hold the call before the result and
  agree on the id; no call and no result is in two of them; the stacks hold the unclaimed calls,
  the most recent first; and a result takes the most recent call: each call of its id between
  the two, and each earlier one when it stays alone, has been claimed before it.
\<close>

definition call_in :: "('p \<times> 'v message_part) list \<Rightarrow> string \<Rightarrow> 'p \<Rightarrow> bool" where
  "call_in occs i c \<longleftrightarrow> (\<exists>part. (c, part) \<in> set occs \<and> call_id_of part = Some i)"

definition result_in :: "('p \<times> 'v message_part) list \<Rightarrow> string \<Rightarrow> 'p \<Rightarrow> bool" where
  "result_in occs i r \<longleftrightarrow> (\<exists>part. (r, part) \<in> set occs \<and> result_id_of part = Some i)"

definition claims_ok :: "('p::linorder \<times> 'v message_part) list \<Rightarrow> 'p claim_state \<Rightarrow> bool" where
  "claims_ok occs st \<longleftrightarrow>
     (\<forall>i. sorted_wrt (>) (fst st i)) \<and>
     (\<forall>i c. c \<in> set (fst st i) \<longleftrightarrow> call_in occs i c \<and> c \<notin> fst ` set (snd st)) \<and>
     (\<forall>c r. (c, r) \<in> set (snd st) \<longrightarrow> c < r \<and> (\<exists>i. call_in occs i c \<and> result_in occs i r)) \<and>
     distinct (map fst (snd st)) \<and> distinct (map snd (snd st)) \<and>
     (\<forall>i r c. result_in occs i r \<longrightarrow> call_in occs i c \<longrightarrow> c < r \<longrightarrow>
        (\<exists>r'. (c, r') \<in> set (snd st) \<and> r' \<le> r) \<or> (\<exists>c'. (c', r) \<in> set (snd st) \<and> c < c'))"

lemma call_in_snoc:
  "call_in (occs @ [(pos, part)]) i c \<longleftrightarrow> call_in occs i c \<or> c = pos \<and> call_id_of part = Some i"
  by (auto simp: call_in_def)

lemma result_in_snoc:
  "result_in (occs @ [(pos, part)]) i r \<longleftrightarrow> result_in occs i r \<or> r = pos \<and> result_id_of part = Some i"
  by (auto simp: result_in_def)

lemma claims_okD:
  assumes "claims_ok occs (stacks, pairs)"
  shows "sorted_wrt (>) (stacks i)"
    and "c \<in> set (stacks i) \<longleftrightarrow> call_in occs i c \<and> c \<notin> fst ` set pairs"
    and "(c, r) \<in> set pairs \<Longrightarrow> c < r"
    and "(c, r) \<in> set pairs \<Longrightarrow> \<exists>i. call_in occs i c \<and> result_in occs i r"
    and "distinct (map fst pairs)" and "distinct (map snd pairs)"
    and "result_in occs i r \<Longrightarrow> call_in occs i c \<Longrightarrow> c < r \<Longrightarrow>
        (\<exists>r'. (c, r') \<in> set pairs \<and> r' \<le> r) \<or> (\<exists>c'. (c', r) \<in> set pairs \<and> c < c')"
  using assms unfolding claims_ok_def fst_conv snd_conv by blast+

lemma claims_okI:
  assumes "\<And>i. sorted_wrt (>) (stacks i)"
    and "\<And>i c. c \<in> set (stacks i) \<longleftrightarrow> call_in occs i c \<and> c \<notin> fst ` set pairs"
    and "\<And>c r. (c, r) \<in> set pairs \<Longrightarrow> c < r \<and> (\<exists>i. call_in occs i c \<and> result_in occs i r)"
    and "distinct (map fst pairs)" and "distinct (map snd pairs)"
    and "\<And>i r c. result_in occs i r \<Longrightarrow> call_in occs i c \<Longrightarrow> c < r \<Longrightarrow>
        (\<exists>r'. (c, r') \<in> set pairs \<and> r' \<le> r) \<or> (\<exists>c'. (c', r) \<in> set pairs \<and> c < c')"
  shows "claims_ok occs (stacks, pairs)"
  using assms unfolding claims_ok_def fst_conv snd_conv by blast

lemma claims_ok_call:
  assumes ok: "claims_ok occs (stacks, pairs)" and call: "call_id_of part = Some i"
    and calls: "\<And>j c. call_in occs j c \<Longrightarrow> c < pos" and results: "\<And>j r. result_in occs j r \<Longrightarrow> r < pos"
  shows "claims_ok (occs @ [(pos, part)]) (stacks(i := pos # stacks i), pairs)"
proof (rule claims_okI, goal_cases)
  note ok = claims_okD [OF ok]
  have new: "pos \<notin> fst ` set pairs" using ok(4) calls by fastforce
  {
    case (1 j)
    then show ?case using ok(1) [of j] ok(2) [of _ i] calls by (cases "j = i") auto
  next
    case (2 j c)
    then show ?case using ok(2) [of c j] call new by (auto simp: call_in_snoc)
  next
    case (3 c r)
    then show ?case using ok(3,4) by (metis call_in_snoc result_in_snoc)
  next
    case (6 j r c)
    then have "result_in occs j r" using call by (simp add: result_in_snoc)
    moreover from results [OF this] 6 have "call_in occs j c" by (auto simp: call_in_snoc)
    ultimately show ?case using 6(3) ok(7) by blast
  }
qed (use claims_okD(5,6) [OF ok] in auto)

lemma claims_ok_result:
  assumes ok: "claims_ok occs (stacks, pairs)"
    and result: "result_id_of part = Some i" and top: "stacks i = recent # calls"
    and calls: "\<And>j c. call_in occs j c \<Longrightarrow> c < pos" and results: "\<And>j r. result_in occs j r \<Longrightarrow> r < pos"
    and one_id: "\<And>j c. call_in occs i c \<Longrightarrow> call_in occs j c \<Longrightarrow> j = i"
  shows "claims_ok (occs @ [(pos, part)]) (stacks(i := calls), (recent, pos) # pairs)"
proof -
  note ok = claims_okD [OF ok]
  have nocall: "call_id_of part = None" using result by (cases part) auto
  have top_call: "call_in occs i recent" "recent \<notin> fst ` set pairs" using ok(2) [of recent i] top by auto
  have below: "c < recent" if "c \<in> set calls" for c using ok(1) [of i] top that by auto
  have new: "pos \<notin> snd ` set pairs" using ok(4) results by fastforce
  show ?thesis
  proof (rule claims_okI, goal_cases)
    case (1 j)
    then show ?case using ok(1) [of j] ok(1) [of i] top by auto
  next
    case (2 j c)
    show ?case using ok(2) [of c j] ok(2) [of c i] top nocall below top_call one_id
      by (cases "j = i") (auto simp: call_in_snoc)
  next
    case (3 c r)
    then show ?case using ok(3) ok(4) [of c r] top_call calls result by (auto simp: call_in_snoc result_in_snoc)
  next
    case (6 j r c)
    then have c: "call_in occs j c" using nocall by (simp add: call_in_snoc)
    from 6(1) consider "result_in occs j r" | "r = pos" "j = i" using result by (auto simp: result_in_snoc)
    then show ?case
    proof cases
      case 1
      then show ?thesis using ok(7) [OF 1 c 6(3)] by auto
    next
      case 2
      have "c \<in> fst ` set pairs \<or> c \<in> set (stacks i)" using c 2 ok(2) by auto
      then show ?thesis
      proof
        assume "c \<in> fst ` set pairs"
        then obtain r' where "(c, r') \<in> set pairs" by auto
        moreover from this have "r' < pos" using ok(4) results by blast
        ultimately show ?thesis using 2 by auto
      next
        assume "c \<in> set (stacks i)"
        then show ?thesis using top below 2 by auto
      qed
    qed
  qed (use ok(5,6) top_call new in auto)
qed

lemma claims_ok_prefix:
  assumes "sorted_wrt (<) (map fst occs)"
  shows "claims_ok occs (claims occs)"
  using assms
proof (induction occs rule: rev_induct)
  case Nil
  show ?case by (simp add: claims_simps claims_ok_def call_in_def result_in_def)
next
  case (snoc occ occs)
  obtain stacks pairs where st: "claims occs = (stacks, pairs)" by fastforce
  obtain pos part where occ: "occ = (pos, part)" by fastforce
  from snoc.prems have sorted: "sorted_wrt (<) (map fst occs)" and "\<forall>q \<in> set (map fst occs). q < pos"
    by (simp_all add: sorted_wrt_append occ)
  then have before: "call_in occs j c \<Longrightarrow> c < pos" "result_in occs j c \<Longrightarrow> c < pos" for j c
    unfolding call_in_def result_in_def by fastforce+
  have "distinct (map fst occs)" using sorted strict_sorted_iff by blast
  then have one_id: "call_in occs i c \<Longrightarrow> call_in occs j c \<Longrightarrow> j = i" for i j c
    unfolding call_in_def by (metis eq_key_imp_eq_value option.inject)
  have ok: "claims_ok occs (stacks, pairs)" using snoc.IH [OF sorted] st by simp
  show ?case
  proof (cases "call_id_of part")
    case (Some i)
    then show ?thesis using claims_ok_call [OF ok Some before]
      by (simp add: claims_simps claim_step_def st occ)
  next
    case nocall: None
    show ?thesis
    proof (cases "result_id_of part")
      case None
      then show ?thesis using ok nocall
        by (simp add: claims_simps claim_step_def st occ claims_ok_def call_in_snoc result_in_snoc)
    next
      case result: (Some i)
      show ?thesis
      proof (cases "stacks i")
        case (Cons recent calls)
        then show ?thesis
          using claims_ok_result [OF ok result Cons before one_id] nocall result
          by (simp add: claims_simps claim_step_def st occ)
      next
        case Nil
        note ok' = claims_okD [OF ok]
        have "\<exists>r'. (c, r') \<in> set pairs \<and> r' \<le> pos" if "call_in occs i c" for c
        proof -
          have "c \<in> fst ` set pairs" using ok'(2) [of c i] Nil that by simp
          then obtain r' where "(c, r') \<in> set pairs" by auto
          moreover from this have "r' \<le> pos" using ok'(4) before(2) by (meson less_imp_le)
          ultimately show ?thesis by blast
        qed
        then have "claims_ok (occs @ [(pos, part)]) (stacks, pairs)"
          using ok nocall result
          by (auto simp: claims_ok_def call_in_snoc result_in_snoc) blast
        then show ?thesis using nocall result Nil
          by (simp add: claims_simps claim_step_def st occ)
      qed
    qed
  qed
qed

subsection \<open>The scan computes the pairs\<close>

definition in_shape :: "tool_pairing \<Rightarrow> occurrence \<Rightarrow> bool" where
  "in_shape mates pos \<longleftrightarrow> fst pos < length mates \<and> snd pos < length (mates ! fst pos)"

definition shape_of :: "tool_pairing \<Rightarrow> nat list" where
  "shape_of mates = map length mates"

lemma in_shape_shape: "shape_of mates = shape_of mates' \<Longrightarrow> in_shape mates pos = in_shape mates' pos"
  unfolding shape_of_def in_shape_def by (metis length_map nth_map)

lemma shape_set_mate [simp]: "shape_of (set_mate pos s mates) = shape_of mates"
  by (cases "fst pos < length mates")
     (simp_all add: shape_of_def set_mate_def map_update list_update_same_conv list_update_beyond)

lemma mate_at_set_mate:
  "mate_at (set_mate pos s mates) q = (if q = pos \<and> in_shape mates pos then Some s else mate_at mates q)"
proof (cases "fst q = fst pos")
  case True
  then show ?thesis
    by (cases pos; cases q) (auto simp: mate_at_def set_mate_def in_shape_def nth_list_update)
next
  case False
  then show ?thesis by (auto simp: mate_at_def set_mate_def)
qed

lemma mate_at_mark:
  "mate_at (foldl (\<lambda>mates pos. set_mate pos s mates) mates ps) q =
     (if q \<in> set ps \<and> in_shape mates q then Some s else mate_at mates q) \<and>
   shape_of (foldl (\<lambda>mates pos. set_mate pos s mates) mates ps) = shape_of mates"
  by (induction ps arbitrary: mates)
     (auto simp: mate_at_set_mate in_shape_shape [OF shape_set_mate])

text \<open>The mate of a part, read off the pairs found so far; calls in no pair are still open.\<close>

definition paired_mate :: "(occurrence \<times> occurrence) list \<Rightarrow> 'v message_part \<Rightarrow> occurrence \<Rightarrow> part_mate option" where
  "paired_mate pairs part pos =
     (case call_id_of part of
        Some _ \<Rightarrow> map_option (\<lambda>r. Paired (fst r)) (map_of pairs pos)
      | None \<Rightarrow>
          (case result_id_of part of
             Some _ \<Rightarrow> Some (case map_of (map prod.swap pairs) pos of Some c \<Rightarrow> Paired (fst c) | None \<Rightarrow> LoneResult)
           | None \<Rightarrow> None))"

definition stack_of :: "pending_calls \<Rightarrow> string \<Rightarrow> occurrence list" where
  "stack_of pending i = (case map_of pending i of Some s \<Rightarrow> s | None \<Rightarrow> [])"

definition scan_state_ok ::
  "nat list \<Rightarrow> (occurrence \<times> 'v message_part) list \<Rightarrow> tool_pairing \<times> pending_calls \<Rightarrow> bool" where
  "scan_state_ok shape occs st \<longleftrightarrow>
     shape_of (fst st) = shape \<and> distinct (map fst (snd st)) \<and> stack_of (snd st) = fst (claims occs) \<and>
     (\<forall>pos part. (pos, part) \<in> set occs \<longrightarrow> mate_at (fst st) pos = paired_mate (snd (claims occs)) part pos) \<and>
     (\<forall>pos. pos \<notin> fst ` set occs \<longrightarrow> mate_at (fst st) pos = None)"

lemma scan_state_okD:
  assumes "scan_state_ok shape occs (mates, pending)"
  shows "shape_of mates = shape" and "distinct (map fst pending)" and "stack_of pending = fst (claims occs)"
    and "(pos, part) \<in> set occs \<Longrightarrow> mate_at mates pos = paired_mate (snd (claims occs)) part pos"
    and "pos \<notin> fst ` set occs \<Longrightarrow> mate_at mates pos = None"
  using assms unfolding scan_state_ok_def fst_conv snd_conv by blast+

lemma stack_of_push: "stack_of (AList.map_default i [x] ((#) x) pending) = (stack_of pending)(i := x # stack_of pending i)"
proof
  fix j
  show "stack_of (AList.map_default i [x] ((#) x) pending) j = ((stack_of pending)(i := x # stack_of pending i)) j"
    by (induction pending) (auto simp: stack_of_def)
qed

lemma stack_of_update: "stack_of (AList.update i s pending) = (stack_of pending)(i := s)"
  by (auto simp: stack_of_def update_conv fun_eq_iff)

lemma distinct_push: "distinct (map fst pending) \<Longrightarrow> distinct (map fst (AList.map_default i x f pending))"
  by (rule distinct_map_default)

lemma map_of_swap_new: "r \<notin> snd ` set pairs \<Longrightarrow> map_of (map prod.swap pairs) r = None"
  by (force simp: map_of_eq_None_iff)

lemma paired_mate_other:
  "q \<noteq> c \<Longrightarrow> q \<noteq> r \<Longrightarrow> paired_mate ((c, r) # pairs) part q = paired_mate pairs part q"
  by (auto simp: paired_mate_def split: option.splits)

lemma scan_state_step:
  assumes state: "scan_state_ok shape occs (mates, pending)"
    and sorted: "sorted_wrt (<) (map fst (occs @ [(pos, part)]))"
    and shape: "in_shape mates pos" "\<forall>q \<in> fst ` set occs. in_shape mates q"
  shows "scan_state_ok shape (occs @ [(pos, part)]) (scan_part (fst pos) (snd pos) part (mates, pending))"
proof -
  obtain stacks pairs where cl: "claims occs = (stacks, pairs)" by fastforce
  have "claims_ok occs (stacks, pairs)" using claims_ok_prefix [of occs] sorted cl by (simp add: sorted_wrt_append)
  note ok = claims_okD [OF this]
  from state have inv: "shape_of mates = shape" "distinct (map fst pending)" "stack_of pending = stacks"
    "\<And>q x. (q, x) \<in> set occs \<Longrightarrow> mate_at mates q = paired_mate pairs x q"
    "\<And>q. q \<notin> fst ` set occs \<Longrightarrow> mate_at mates q = None"
    by (auto simp: scan_state_ok_def cl)
  have fresh: "pos \<notin> fst ` set occs" using sorted by (auto simp: sorted_wrt_append)
  have unpaired: "pos \<notin> fst ` set pairs" "pos \<notin> snd ` set pairs"
    using ok(4) fresh by (force simp: call_in_def result_in_def)+
  have pos: "(fst pos, snd pos) = pos" by simp
  show ?thesis
  proof (cases "call_id_of part")
    case (Some i)
    then have "scan_part (fst pos) (snd pos) part (mates, pending) =
        (mates, AList.map_default i [pos] ((#) pos) pending)"
      by (cases part) (auto simp: scan_part_def)
    moreover have "map_of pairs pos = None" using unpaired by (simp add: map_of_eq_None_iff)
    ultimately show ?thesis using inv Some fresh
      by (auto simp: scan_state_ok_def claims_simps claim_step_def cl stack_of_push distinct_push paired_mate_def)
  next
    case nocall: None
    show ?thesis
    proof (cases "result_id_of part")
      case None
      then have "scan_part (fst pos) (snd pos) part (mates, pending) = (mates, pending)"
        using nocall by (cases part) (auto simp: scan_part_def)
      then show ?thesis using inv nocall None fresh
        by (auto simp: scan_state_ok_def claims_simps claim_step_def cl paired_mate_def)
    next
      case (Some i)
      show ?thesis
      proof (cases "stacks i")
        case Nil
        then have "stack_of pending i = []" using inv(3) by simp
        then have "map_of pending i \<in> {None, Some []}"
          by (auto simp: stack_of_def split: option.splits)
        then have "scan_part (fst pos) (snd pos) part (mates, pending) = (set_mate pos LoneResult mates, pending)"
          using Some by (cases part) (auto simp: scan_part_def)
        moreover have "paired_mate pairs part pos = Some LoneResult"
          using nocall Some map_of_swap_new [OF unpaired(2)] by (simp add: paired_mate_def)
        ultimately show ?thesis using inv nocall Some Nil fresh shape(1)
          by (auto simp: scan_state_ok_def claims_simps claim_step_def cl mate_at_set_mate
              in_shape_shape [OF shape_set_mate] rev_image_eqI)
      next
        case (Cons c calls)
        then have "stack_of pending i = c # calls" using inv(3) by simp
        then have "map_of pending i = Some (c # calls)"
          by (auto simp: stack_of_def split: option.splits)
        then have scanned: "scan_part (fst pos) (snd pos) part (mates, pending) =
            (set_mate pos (Paired (fst c)) (set_mate c (Paired (fst pos)) mates), AList.update i calls pending)"
          using Some by (cases part) (auto simp: scan_part_def)
        have "call_in occs i c" using ok(2) [of c i] Cons by simp
        then obtain x where x: "(c, x) \<in> set occs" "call_id_of x = Some i" by (auto simp: call_in_def)
        then have "c \<noteq> pos" and c_shape: "in_shape mates c" using fresh shape(2) by force+
        have "distinct (map fst occs)" using sorted strict_sorted_iff by (auto simp: sorted_wrt_append)
        then have only: "y = x" if "(c, y) \<in> set occs" for y using x(1) that by (metis eq_key_imp_eq_value)
        have claims: "claims (occs @ [(pos, part)]) = (stacks(i := calls), (c, pos) # pairs)"
          using nocall Some Cons by (simp add: claims_simps claim_step_def cl)
        have mates: "mate_at (fst (scan_part (fst pos) (snd pos) part (mates, pending))) q =
            (if q = pos then Some (Paired (fst c)) else if q = c then Some (Paired (fst pos)) else mate_at mates q)" for q
          using scanned shape(1) c_shape by (simp add: mate_at_set_mate in_shape_shape [OF shape_set_mate])
        have "paired_mate ((c, pos) # pairs) part pos = Some (Paired (fst c))"
          using nocall Some by (simp add: paired_mate_def)
        moreover have "paired_mate ((c, pos) # pairs) x c = Some (Paired (fst pos))"
          using x(2) by (simp add: paired_mate_def)
        ultimately have "(q, y) \<in> set (occs @ [(pos, part)]) \<Longrightarrow>
            (if q = pos then Some (Paired (fst c)) else if q = c then Some (Paired (fst pos)) else mate_at mates q) =
            paired_mate ((c, pos) # pairs) y q" for q y
          using only inv(4) [of q y] fresh by (auto simp: paired_mate_other rev_image_eqI)
        moreover have "q \<notin> fst ` set (occs @ [(pos, part)]) \<Longrightarrow> q \<noteq> c \<and> mate_at mates q = None" for q
          using inv(5) [of q] x(1) by (auto simp: rev_image_eqI)
        ultimately show ?thesis
          unfolding scan_state_ok_def mates claims using inv(1-3) scanned
          by (auto simp: stack_of_update distinct_update)
      qed
    qed
  qed
qed

definition scan_occurrence ::
  "tool_pairing \<times> pending_calls \<Rightarrow> occurrence \<times> 'v message_part \<Rightarrow> tool_pairing \<times> pending_calls" where
  "scan_occurrence st occ = scan_part (fst (fst occ)) (snd (fst occ)) (snd occ) st"

lemma scan_as_fold:
  "foldl (\<lambda>st (i, m). foldl (\<lambda>st (p, part). scan_part i p part st) st (enumerate 0 (msg_parts m))) st (enumerate 0 ms) =
   foldl scan_occurrence st (occurrences ms)"
  for ms :: "'v message list"
proof -
  have nested: "foldl (\<lambda>st x. foldl g st (f x)) st xs = foldl g st (concat (map f xs))" for g f st and xs :: "'z list"
    by (induction xs arbitrary: st) simp_all
  have step: "(\<lambda>st (p, part). scan_part i p part st) = (\<lambda>st x. scan_occurrence st (case x of (p, part) \<Rightarrow> ((i, p), part)))"
    
    for i :: nat by (auto simp: fun_eq_iff scan_occurrence_def)
  have "(\<lambda>st (i, m :: 'v message). foldl (\<lambda>st (p, part). scan_part i p part st) st (enumerate 0 (msg_parts m))) =
      (\<lambda>st x. foldl scan_occurrence st ((\<lambda>(i, m). map (\<lambda>(p, part). ((i, p), part)) (enumerate 0 (msg_parts m))) x))"
    by (simp add: foldl_map fun_eq_iff) (simp only: step simp_thms)
  then show ?thesis by (simp only: occurrences_def nested [symmetric])
qed

lemma scan_states:
  assumes "sorted_wrt (<) (map fst occs)" and "\<forall>q \<in> fst ` set occs. in_shape mates q"
    and "\<forall>q. mate_at mates q = None"
  shows "scan_state_ok (shape_of mates) occs (foldl scan_occurrence (mates, []) occs)"
  using assms(1,2)
proof (induction occs rule: rev_induct)
  case Nil
  then show ?case using assms(3) by (simp add: scan_state_ok_def claims_simps stack_of_def fun_eq_iff)
next
  case (snoc occ occs)
  obtain mates' pending where st: "foldl scan_occurrence (mates, []) occs = (mates', pending)" by fastforce
  have "scan_state_ok (shape_of mates) occs (mates', pending)"
    using snoc st by (simp add: sorted_wrt_append)
  moreover from this have "in_shape mates' = in_shape mates"
    by (intro ext in_shape_shape) (simp add: scan_state_ok_def)
  ultimately show ?case
    using scan_state_step [of "shape_of mates" occs mates' pending "fst occ" "snd occ"] snoc.prems
    by (simp add: st) (simp add: scan_occurrence_def)
qed

text \<open>The mate of every part after the scan.\<close>

definition mate_of :: "(occurrence \<times> occurrence) list \<Rightarrow> 'v message_part \<Rightarrow> occurrence \<Rightarrow> part_mate option" where
  "mate_of pairs part pos =
     (case call_id_of part of
        Some _ \<Rightarrow> Some (case map_of pairs pos of Some r \<Rightarrow> Paired (fst r) | None \<Rightarrow> LoneCall)
      | None \<Rightarrow> paired_mate pairs part pos)"

lemma shape_scan_start: "shape_of (map (\<lambda>m. map (\<lambda>_. None) (msg_parts m)) ms) = map (\<lambda>m. length (msg_parts m)) ms"
  by (simp add: shape_of_def)

lemma scan_correct:
  "shape_of (scan ms) = map (\<lambda>m. length (msg_parts m)) ms"
  "(pos, part) \<in> set (occurrences ms) \<Longrightarrow> mate_at (scan ms) pos = mate_of (pairs_of ms) part pos"
proof -
  let ?occs = "occurrences ms" and ?start = "map (\<lambda>m. map (\<lambda>_. None) (msg_parts m)) ms :: tool_pairing"
  obtain mates pending where st: "foldl scan_occurrence (?start, []) ?occs = (mates, pending)" by fastforce
  obtain stacks pairs where cl: "claims ?occs = (stacks, pairs)" by fastforce
  have pos: "in_shape ?start q" if "q \<in> fst ` set ?occs" for q
    using that by (auto simp: in_shape_def occurrences_set)
  have "mate_at ?start q = None" for q by (auto simp: mate_at_def)
  then have state: "scan_state_ok (shape_of ?start) ?occs (mates, pending)"
    using scan_states [OF sorted_occurrences, of ms ?start] pos st by simp
  then have shape: "shape_of mates = shape_of ?start" by (simp add: scan_state_ok_def)
  have scan: "scan ms = mark_lone_calls pending mates" by (simp add: scan_def scan_as_fold st)
  show "shape_of (scan ms) = map (\<lambda>m. length (msg_parts m)) ms"
    using mate_at_mark [of LoneCall mates] shape by (simp add: scan mark_lone_calls_def shape_scan_start)
  assume occ: "(pos, part) \<in> set ?occs"
  have "claims_ok ?occs (stacks, pairs)" using claims_ok_prefix [OF sorted_occurrences] cl by metis
  note ok = claims_okD [OF this]
  have "pos \<in> fst ` set ?occs" using occ by (rule rev_image_eqI) simp
  then have "in_shape mates pos" using in_shape_shape [OF shape] pos by blast
  then have mate: "mate_at (scan ms) pos =
      (if pos \<in> set (concat (map snd pending)) then Some LoneCall else paired_mate pairs part pos)"
    using mate_at_mark [of LoneCall mates _ pos] scan_state_okD(4) [OF state occ] cl
    by (simp add: scan mark_lone_calls_def)
  have "pos \<in> set (concat (map snd pending)) \<longleftrightarrow> (\<exists>i. pos \<in> set (stack_of pending i))"
    using scan_state_okD(2) [OF state] by (force simp: stack_of_def split: option.splits)
  also have "\<dots> \<longleftrightarrow> (\<exists>i. call_in ?occs i pos) \<and> pos \<notin> fst ` set pairs"
    using scan_state_okD(3) [OF state] ok(2) [of pos] cl by simp
  also have "(\<exists>i. call_in ?occs i pos) \<longleftrightarrow> call_id_of part \<noteq> None"
    using occ by (auto simp: call_in_def occurrences_set)
  finally have lone: "pos \<in> set (concat (map snd pending)) \<longleftrightarrow> call_id_of part \<noteq> None \<and> map_of pairs pos = None"
    by (simp add: map_of_eq_None_iff)
  show "mate_at (scan ms) pos = mate_of (pairs_of ms) part pos"
    using mate cl unfolding lone by (auto simp: mate_of_def paired_mate_def pairs_of_def split: option.splits)
qed

lemma claims_of_history: "claims_ok (occurrences ms) (claims (occurrences ms))"
  by (rule claims_ok_prefix [OF sorted_occurrences])

lemma pairs_ofD:
  assumes "(c, r) \<in> set (pairs_of ms)"
  shows "c < r" and "\<exists>i. call_in (occurrences ms) i c \<and> result_in (occurrences ms) i r"
    and "map_of (pairs_of ms) c = Some r" and "map_of (map prod.swap (pairs_of ms)) r = Some c"
proof -
  have "claims_ok (occurrences ms) (fst (claims (occurrences ms)), pairs_of ms)"
    using claims_of_history [of ms] by (simp add: pairs_of_def)
  note ok = claims_okD [OF this]
  show "c < r" and "\<exists>i. call_in (occurrences ms) i c \<and> result_in (occurrences ms) i r"
    using ok(3,4) [OF assms] by auto
  show "map_of (pairs_of ms) c = Some r" using ok(5) assms by simp
  have "map fst (map prod.swap (pairs_of ms)) = map snd (pairs_of ms)" by simp
  then have "distinct (map fst (map prod.swap (pairs_of ms)))" using ok(6) by metis
  moreover have "(r, c) \<in> set (map prod.swap (pairs_of ms))" using assms by force
  ultimately show "map_of (map prod.swap (pairs_of ms)) r = Some c" by (rule map_of_is_SomeI)
qed

lemma occurrence_unique: "(pos, part) \<in> set (occurrences ms) \<Longrightarrow> (pos, part') \<in> set (occurrences ms) \<Longrightarrow> part = part'"
  by (simp add: occurrences_set)

lemma mate_of_pair:
  assumes "(c, r) \<in> set (pairs_of ms)"
  shows "\<exists>i x y. (c, x) \<in> set (occurrences ms) \<and> call_id_of x = Some i \<and> mate_at (scan ms) c = Some (Paired (fst r)) \<and>
    (r, y) \<in> set (occurrences ms) \<and> result_id_of y = Some i \<and> mate_at (scan ms) r = Some (Paired (fst c))"
proof -
  from pairs_ofD(2) [OF assms] obtain i x y where
    x: "(c, x) \<in> set (occurrences ms)" "call_id_of x = Some i" and
    y: "(r, y) \<in> set (occurrences ms)" "result_id_of y = Some i"
    unfolding call_in_def result_in_def by blast
  moreover have "call_id_of y = None" using y(2) by (cases y) auto
  ultimately show ?thesis
    using scan_correct(2) [OF x(1)] scan_correct(2) [OF y(1)] pairs_ofD(3,4) [OF assms]
    by (intro exI [of _ i] exI [of _ x] exI [of _ y]) (simp add: mate_of_def paired_mate_def)
qed

text \<open>
  Every part of the history gets the mate the scan promises. A result is paired with the most
  recent call of its id that no earlier result had claimed, that call with it, a call no result
  claims is a lone call, a result with no unclaimed call before it a lone result, other parts
  have none; a pair agrees on the id, holds the call before the result and shares no part with
  another pair, so an id used twice in a history makes two pairs.
\<close>

theorem scan_pairs_most_recent:
  "(\<forall>(pos, part) \<in> set (occurrences ms). mate_at (scan ms) pos = mate_of (pairs_of ms) part pos) \<and>
   claims_ok (occurrences ms) (claims (occurrences ms))"
  using scan_correct(2) claims_of_history by blast

theorem scan_pairs_most_recent_witness:
  "mate_at (scan [\<lparr>msg_role = Assistant, msg_parts = [ToolCallPart ''a'' ''f'' (), ToolCallPart ''a'' ''g'' ()]\<rparr>,
     \<lparr>msg_role = User, msg_parts = [ToolResultPart ''a'' ''g'' (TCText ''ok'') None None]\<rparr>]) (0, 0) = Some LoneCall"
proof -
  let ?ms = "[\<lparr>msg_role = Assistant, msg_parts = [ToolCallPart ''a'' ''f'' (), ToolCallPart ''a'' ''g'' ()]\<rparr>,
    \<lparr>msg_role = User, msg_parts = [ToolResultPart ''a'' ''g'' (TCText ''ok'') None None]\<rparr>]"
  have occs: "occurrences ?ms = [((0, 0), ToolCallPart ''a'' ''f'' ()), ((0, 1), ToolCallPart ''a'' ''g'' ()),
      ((1, 0), ToolResultPart ''a'' ''g'' (TCText ''ok'') None None)]"
    by (simp add: occurrences_def)
  have "pairs_of ?ms = [((0, 1), (1, 0))]"
    by (simp add: pairs_of_def occs claims_def claim_step_def)
  then have "mate_of (pairs_of ?ms) (ToolCallPart ''a'' ''f'' ()) (0, 0) = Some LoneCall"
    by (simp add: mate_of_def)
  moreover have "((0, 0), ToolCallPart ''a'' ''f'' ()) \<in> set (occurrences ?ms)" by (simp add: occs)
  ultimately show ?thesis using scan_pairs_most_recent [of ?ms] by fastforce
qed

subsection \<open>What the compactors rely on\<close>

text \<open>
  The interface of the pairing: its shape, and for each kind of part what its mate says. The
  lemmas on splits and pulled messages follow from these laws alone.
\<close>

locale pairing =
  fixes ms :: "'v message list" and mates :: tool_pairing
  assumes shape: "shape_of mates = map (\<lambda>m. length (msg_parts m)) ms"
    and result_mate: "(r, y) \<in> set (occurrences ms) \<Longrightarrow> result_id_of y = Some i \<Longrightarrow>
        mate_at mates r = Some LoneResult \<or>
        (\<exists>c x. (c, x) \<in> set (occurrences ms) \<and> call_id_of x = Some i \<and> c < r \<and>
           mate_at mates r = Some (Paired (fst c)) \<and> mate_at mates c = Some (Paired (fst r)))"
    and call_mate: "(c, x) \<in> set (occurrences ms) \<Longrightarrow> call_id_of x = Some i \<Longrightarrow>
        mate_at mates c = Some LoneCall \<or>
        (\<exists>r y. (r, y) \<in> set (occurrences ms) \<and> result_id_of y = Some i \<and> c < r \<and>
           mate_at mates c = Some (Paired (fst r)) \<and> mate_at mates r = Some (Paired (fst c)))"
    and other_mate: "(pos, part) \<in> set (occurrences ms) \<Longrightarrow> call_id_of part = None \<Longrightarrow>
        result_id_of part = None \<Longrightarrow> mate_at mates pos = None"
begin

lemma length_mates: "length mates = length ms"
  using arg_cong [OF shape, of length] by (simp add: shape_of_def)

lemma length_row: "i < length ms \<Longrightarrow> length (mates ! i) = length (msg_parts (ms ! i))"
  using arg_cong [OF shape, of "\<lambda>xs. xs ! i"] by (simp add: shape_of_def length_mates)

lemma mate_at_row:
  "i < length ms \<Longrightarrow> p < length (msg_parts (ms ! i)) \<Longrightarrow> mate_at mates (i, p) = mates ! i ! p"
  by (simp add: mate_at_def length_mates length_row)

lemma split_safe_iff:
  "pair_safe mates split \<longleftrightarrow> (\<forall>pos m. split \<le> fst pos \<longrightarrow> mate_at mates pos = Some (Paired m) \<longrightarrow> split \<le> m)"
proof
  assume safe: "pair_safe mates split"
  show "\<forall>pos m. split \<le> fst pos \<longrightarrow> mate_at mates pos = Some (Paired m) \<longrightarrow> split \<le> m"
  proof (intro allI impI)
    fix pos m assume pos: "split \<le> fst pos" "mate_at mates pos = Some (Paired m)"
    then have "mates ! fst pos \<in> set (drop split mates)" "Some (Paired m) \<in> set (mates ! fst pos)"
      by (auto simp: mate_at_def in_set_drop split: if_splits) (metis nth_mem)
    with safe show "split \<le> m" unfolding pair_safe_def by blast
  qed
next
  assume at: "\<forall>pos m. split \<le> fst pos \<longrightarrow> mate_at mates pos = Some (Paired m) \<longrightarrow> split \<le> m"
  show "pair_safe mates split"
    unfolding pair_safe_def
  proof (intro ballI allI impI)
    fix row mate m assume "row \<in> set (drop split mates)" "mate \<in> set row" "mate = Some (Paired m)"
    then obtain i p where "split \<le> i" "i < length mates" "p < length (mates ! i)" "mates ! i ! p = Some (Paired m)"
      unfolding in_set_drop by (auto simp: in_set_conv_nth)
    then show "split \<le> m" using at [rule_format, of "(i, p)" m] by (simp add: mate_at_def)
  qed
qed

end

interpretation scanned: pairing ms "scan ms" for ms :: "'v message list"
proof (unfold_locales, goal_cases)
  case 1
  show ?case by (rule scan_correct)
next
  case (2 r y i)
  then have nocall: "call_id_of y = None" by (cases y) auto
  show ?case
  proof (cases "map_of (map prod.swap (pairs_of ms)) r")
    case None
    then show ?thesis using scan_correct(2) [OF 2(1)] 2(2) nocall by (simp add: mate_of_def paired_mate_def)
  next
    case (Some c)
    then have pair: "(c, r) \<in> set (pairs_of ms)" by (auto dest: map_of_SomeD)
    from mate_of_pair [OF this] pairs_ofD(1) [OF this] show ?thesis
      using 2 by (metis occurrence_unique)
  qed
next
  case (3 c x i)
  show ?case
  proof (cases "map_of (pairs_of ms) c")
    case None
    then show ?thesis using scan_correct(2) [OF 3(1)] 3(2) by (simp add: mate_of_def)
  next
    case (Some r)
    then have pair: "(c, r) \<in> set (pairs_of ms)" by (rule map_of_SomeD)
    from mate_of_pair [OF this] pairs_ofD(1) [OF this] show ?thesis
      using 3 by (metis occurrence_unique)
  qed
next
  case (4 pos part)
  then show ?case using scan_correct(2) [OF 4(1)] by (simp add: mate_of_def paired_mate_def)
qed

subsection \<open>The pulled messages as sets\<close>

lemma set_push_new [simp]: "set (push_new xs x) = insert x (set xs)"
  by (auto simp: push_new_def)

lemma distinct_push_new [simp]: "distinct (push_new xs x) = distinct xs"
  by (auto simp: push_new_def)

lemma set_foldl_push_new: "set (foldl push_new xs ys) = set xs \<union> set ys"
  by (induction ys arbitrary: xs) auto

lemma set_first_message_dropped:
  "set (first_message_dropped_result_indices mates split) =
     (case mates of [] \<Rightarrow> {} | row # _ \<Rightarrow> {m. 0 < m \<and> m < split \<and> Some (Paired m) \<in> set row})"
proof -
  have "set (foldl (\<lambda>indices mate. case mate of
        Some (Paired m) \<Rightarrow> if m > 0 \<and> m < split \<and> m \<notin> set indices then indices @ [m] else indices
      | _ \<Rightarrow> indices) xs row) = set xs \<union> {m. 0 < m \<and> m < split \<and> Some (Paired m) \<in> set row}" for xs row
    by (induction row arbitrary: xs) (auto split: option.splits part_mate.splits)
  then show ?thesis by (auto simp: first_message_dropped_result_indices_def split: list.splits)
qed

lemma set_push_mate:
  "set (push_mate wanted within acc (part, state)) =
     set acc \<union> {m. state = Some (Paired m) \<and> wanted part \<and> within m}"
  by (cases "(wanted, within, acc, part, state)" rule: push_mate.cases) auto

lemma set_pulled_pair:
  "set (pulled_pair msg row split i) =
     insert i {m. m < split \<and> (\<exists>part. (part, Some (Paired m)) \<in> set (zip (msg_parts msg) row) \<and> is_tool_result part)}"
  for msg :: "'v message"
proof -
  have "set (foldl (push_mate is_tool_result (\<lambda>m. m < split)) xs ps) =
      set xs \<union> {m. m < split \<and> (\<exists>part. (part, Some (Paired m)) \<in> set ps \<and> is_tool_result part)}"
    for xs and ps :: "('v message_part \<times> part_mate option) list"
  proof (induction ps arbitrary: xs)
    case (Cons a ps)
    then show ?case by (cases a) (auto simp: set_push_mate)
  qed simp
  then show ?thesis by (simp add: pulled_pair_def)
qed

lemma pull_within_below:
  "\<forall>j \<in> set indices. j < split \<Longrightarrow> i < split \<Longrightarrow>
   \<forall>j \<in> set (fst (pull_within counter ms mates split i (indices, remaining))). j < split"
  by (auto simp: pull_within_def Let_def set_pulled_pair)

lemma durable_within_budget_below: "i \<in> set (durable_pull_indices_within_budget ms split budget counter) \<Longrightarrow> i < split"
proof -
  have "\<forall>j \<in> set (fst (foldl (\<lambda>st i. pull_within counter ms (scan ms) split i st) st is)). j < split"
    if "\<forall>i \<in> set is. i < split" "\<forall>j \<in> set (fst st). j < split" for st "is"
    using that
  proof (induction "is" arbitrary: st)
    case (Cons i "is")
    have "\<forall>j \<in> set (fst (pull_within counter ms (scan ms) split i st)). j < split"
      using pull_within_below [of "fst st" split i counter ms "scan ms" "snd st"] Cons.prems by simp
    then show ?case using Cons.IH Cons.prems(1) by simp
  qed simp
  from this [of "rev [0..<split]" "([], budget)"]
  show "i \<in> set (durable_pull_indices_within_budget ms split budget counter) \<Longrightarrow> i < split"
    by (simp add: durable_pull_indices_within_budget_def)
qed

end
