(* ===== verification/Truncating.thy ===== *)
theory Truncating
  imports Pairing Compact_Types
begin

section \<open>The truncating compactor and the splitter\<close>

text \<open>
  The second part of src/src/compact/truncating.rs: the compactor that keeps the first message
  and the largest recent tail that fits the target, and the splitter that cuts a conversation at
  a turn boundary. Both cut by the pairing of \<open>Pairing\<close>. A loop over candidate splits with an
  early return is a recursion over the list of candidates.
\<close>

subsection \<open>The compactor\<close>

record truncating_compactor =
  tr_preserve_recent :: nat
  tr_min_messages :: nat

definition new_truncating :: truncating_compactor where
  "new_truncating = \<lparr>tr_preserve_recent = 4, tr_min_messages = 6\<rparr>"

definition with_preserve_recent :: "nat \<Rightarrow> truncating_compactor \<Rightarrow> truncating_compactor" where
  "with_preserve_recent n c = c\<lparr>tr_preserve_recent := max n 1\<rparr>"

definition with_min_messages :: "nat \<Rightarrow> truncating_compactor \<Rightarrow> truncating_compactor" where
  "with_min_messages n c = c\<lparr>tr_min_messages := max n 2\<rparr>"

definition adjust_for_tool_pairs :: "tool_pairing \<Rightarrow> nat \<Rightarrow> nat" where
  "adjust_for_tool_pairs mates split = (if split = 0 then 0 else adjusted_split mates split)"

lemma adjust_le: "adjust_for_tool_pairs mates split \<le> split"
  by (simp add: adjust_for_tool_pairs_def adjusted_split_le)

function slide_pairs :: "tool_pairing \<Rightarrow> nat \<Rightarrow> nat" where
  "slide_pairs mates split =
     (let adjusted = adjust_for_tool_pairs mates split
      in if adjusted = split then split else slide_pairs mates adjusted)"
  by pat_completeness auto
termination
  by (relation "measure snd") (auto simp: le_neq_implies_less adjust_le)

declare slide_pairs.simps [simp del]

definition floor_split_at :: "tool_pairing \<Rightarrow> nat \<Rightarrow> nat option" where
  "floor_split_at mates floor_split =
     (let split = slide_pairs mates floor_split in if split = 0 then None else Some split)"

definition get_messages :: "'v message list \<Rightarrow> nat list \<Rightarrow> 'v message list" where
  "get_messages ms indices = map ((!) ms) (filter (\<lambda>i. i < length ms) indices)"

definition pulled_indices :: "tool_pairing \<Rightarrow> nat \<Rightarrow> nat list \<Rightarrow> nat list" where
  "pulled_indices mates split durable =
     foldl push_new (first_message_dropped_result_indices mates split) durable"

definition assemble_kept_within_budget ::
  "'v message list \<Rightarrow> tool_pairing \<Rightarrow> nat \<Rightarrow> u64 \<Rightarrow> ('v message list \<Rightarrow> u64) \<Rightarrow> 'v message list" where
  "assemble_kept_within_budget ms mates split budget counter =
     take 1 ms @
     get_messages ms (pulled_indices mates split (durable_pull_indices_within_budget ms split budget counter)) @
     drop split ms"

definition assemble_kept :: "'v message list \<Rightarrow> tool_pairing \<Rightarrow> nat \<Rightarrow> 'v message list" where
  "assemble_kept ms mates split =
     take 1 ms @ get_messages ms (pulled_indices mates split (durable_pull_indices ms split)) @ drop split ms"

definition first_tokens :: "('v message list \<Rightarrow> u64) \<Rightarrow> 'v message list \<Rightarrow> u64" where
  "first_tokens counter ms = (case ms of [] \<Rightarrow> 0 | first # _ \<Rightarrow> counter [first])"

definition tail_tokens :: "('v message list \<Rightarrow> u64) \<Rightarrow> 'v message list \<Rightarrow> nat \<Rightarrow> u64" where
  "tail_tokens counter ms split = (if split \<le> length ms then counter (drop split ms) else 0)"

definition tail_and_pulled_tokens ::
  "'v message list \<Rightarrow> tool_pairing \<Rightarrow> nat \<Rightarrow> ('v message list \<Rightarrow> u64) \<Rightarrow> u64 \<Rightarrow> u64 \<Rightarrow> u64" where
  "tail_and_pulled_tokens ms mates split counter target floor_tail_tokens =
     (let pull_budget = sat_sub (sat_sub target floor_tail_tokens) (first_tokens counter ms);
          pulled = pulled_indices mates split (durable_pull_indices_within_budget ms split pull_budget counter)
      in foldl (\<lambda>tokens m. sat_add tokens (counter [m])) (tail_tokens counter ms split) (get_messages ms pulled))"

definition split_lands ::
  "'v message list \<Rightarrow> tool_pairing \<Rightarrow> u64 \<Rightarrow> ('v message list \<Rightarrow> u64) \<Rightarrow> u64 \<Rightarrow> nat \<Rightarrow> bool" where
  "split_lands ms mates target counter floor_tail_tokens split =
     (let landing = sat_add (first_tokens counter ms)
                      (tail_and_pulled_tokens ms mates split counter target floor_tail_tokens)
      in if landing > target then False
         else
           (let kept = assemble_kept ms mates split;
                kept = (if counter kept > target
                        then (let budget = sat_sub (sat_sub target (tail_tokens counter ms split)) (first_tokens counter ms)
                              in assemble_kept_within_budget ms mates split budget counter)
                        else kept)
            in counter kept \<le> target))"

fun choose_from :: "(nat \<Rightarrow> bool) \<Rightarrow> tool_pairing \<Rightarrow> nat list \<Rightarrow> nat \<Rightarrow> nat option" where
  "choose_from lands mates [] last_seen = None"
| "choose_from lands mates (candidate # candidates) last_seen =
     (let split = slide_pairs mates candidate
      in if split < 2 \<or> split = last_seen then choose_from lands mates candidates last_seen
         else if lands split then Some split
         else choose_from lands mates candidates split)"

definition choose_split ::
  "'v message list \<Rightarrow> tool_pairing \<Rightarrow> nat \<Rightarrow> u64 \<Rightarrow> ('v message list \<Rightarrow> u64) \<Rightarrow> nat option" where
  "choose_split ms mates floor_split target counter =
     choose_from (split_lands ms mates target counter (tail_tokens counter ms floor_split)) mates
       [2..<Suc floor_split] 0"

subsection \<open>Assembling the output\<close>

definition keep_part :: "tool_pairing \<Rightarrow> nat set \<Rightarrow> bool \<Rightarrow> nat \<Rightarrow> nat \<Rightarrow> bool" where
  "keep_part mates live strict origin p =
     (case mate_at mates (origin, p) of
        Some (Paired m) \<Rightarrow> if strict then m \<in> live else True
      | Some LoneCall \<Rightarrow> \<not> strict
      | Some LoneResult \<Rightarrow> False
      | None \<Rightarrow> True)"

definition keep_parts :: "tool_pairing \<Rightarrow> nat set \<Rightarrow> bool \<Rightarrow> nat \<Rightarrow> 'v message \<Rightarrow> 'v message" where
  "keep_parts mates live strict origin m =
     m\<lparr>msg_parts := nths (msg_parts m) {p. keep_part mates live strict origin p}\<rparr>"

definition sanitize_tool_parts ::
  "'v message list \<Rightarrow> nat list \<Rightarrow> tool_pairing \<Rightarrow> nat \<Rightarrow> 'v message list \<times> nat list" where
  "sanitize_tool_parts out origins mates pulled_len =
     (let live = set origins;
          cleaned = map (\<lambda>(slot, m).
            if slot < length origins
            then keep_parts mates live (0 < slot \<and> slot < pulled_len + 1) (origins ! slot) m else m) (enumerate 0 out)
      in (filter (\<lambda>m. msg_parts m \<noteq> []) cleaned,
          map fst (filter snd (zip origins (map (\<lambda>m. msg_parts m \<noteq> []) cleaned)))))"

definition assemble_pulled ::
  "'v message list \<Rightarrow> tool_pairing \<Rightarrow> nat \<Rightarrow> 'v message list \<Rightarrow> nat list \<Rightarrow> 'v message list \<times> nat list" where
  "assemble_pulled ms mates split kept pull_indices =
     (let pulled = get_messages ms pull_indices
      in case kept of
           [] \<Rightarrow> sanitize_tool_parts pulled pull_indices mates 0
         | first # kept_rest \<Rightarrow>
             sanitize_tool_parts (first # pulled @ kept_rest) (0 # pull_indices @ [split..<length ms])
               mates (length pulled))"

definition reattach_dropped_results_within_budget ::
  "'v message list \<Rightarrow> tool_pairing \<Rightarrow> nat \<Rightarrow> 'v message list \<Rightarrow> u64 \<Rightarrow> ('v message list \<Rightarrow> u64) \<Rightarrow>
     'v message list \<times> nat list" where
  "reattach_dropped_results_within_budget ms mates split kept budget counter =
     assemble_pulled ms mates split kept
       (remdups_adj (sort (pulled_indices mates split (durable_pull_indices_within_budget ms split budget counter))))"

definition evicted_complement :: "'v message list \<Rightarrow> nat list \<Rightarrow> 'v message list" where
  "evicted_complement ms surviving = map snd (filter (\<lambda>(i, _). i \<notin> set surviving) (enumerate 0 ms))"

definition unchanged ::
  "('v \<Rightarrow> string) \<Rightarrow> 'v message list \<Rightarrow> tool_pairing \<Rightarrow> 'v compaction_context \<Rightarrow> 'v compaction_outcome" where
  "unchanged json ms mates context =
     (if all_parts_lone_results mates then no_change json ms
      else
        (case sanitize_tool_parts ms [0..<length ms] mates 0 of (out, surviving) \<Rightarrow>
           if length out = length ms \<and>
              sum_list (map (length \<circ> msg_parts) out) = sum_list (map (length \<circ> msg_parts) ms)
           then no_change json out
           else
             (let tokens_after = cx_counter context out
              in \<lparr>oc_messages = out, oc_tokens_after = tokens_after,
                  oc_tokens_saved = sat_sub (cx_tokens_before context) tokens_after, oc_success = True,
                  oc_error = None, oc_evicted = evicted_complement ms surviving, oc_stage = None\<rparr>)))"

definition chosen_split ::
  "truncating_compactor \<Rightarrow> 'v message list \<Rightarrow> u64 \<Rightarrow> 'v compaction_context \<Rightarrow> nat option" where
  "chosen_split c ms target_tokens context =
     (let mates = scan ms;
          floor_split = length ms - tr_preserve_recent c;
          effective_target = sat_sub target_tokens (cx_counter context (cx_pinned context))
      in if effective_target = 0 then floor_split_at mates floor_split
         else choose_split ms mates floor_split effective_target (cx_counter context))"

definition kept_side ::
  "'v message list \<Rightarrow> u64 \<Rightarrow> 'v compaction_context \<Rightarrow> nat \<Rightarrow> 'v message list \<times> nat list" where
  "kept_side ms target_tokens context split =
     (let effective_target = sat_sub target_tokens (cx_counter context (cx_pinned context));
          preserved = take 1 ms @ drop split ms;
          pull_budget = (if effective_target = 0 then - 1
                         else sat_sub effective_target (cx_counter context preserved))
      in reattach_dropped_results_within_budget ms (scan ms) split preserved pull_budget (cx_counter context))"

definition truncating_compact ::
  "('v \<Rightarrow> string) \<Rightarrow> truncating_compactor \<Rightarrow> 'v message list \<Rightarrow> u64 \<Rightarrow> 'v compaction_context \<Rightarrow>
     'v compaction_outcome" where
  "truncating_compact json c ms target_tokens context =
     (if length ms \<le> tr_min_messages c then unchanged json ms (scan ms) context
      else
        (case chosen_split c ms target_tokens context of
           None \<Rightarrow> unchanged json ms (scan ms) context
         | Some split \<Rightarrow>
             (case kept_side ms target_tokens context split of (preserved, surviving) \<Rightarrow>
                if preserved = [] then unchanged json ms (scan ms) context
                else
                  (let out = prepend_pinned preserved (cx_pinned context);
                       tokens_after = cx_counter context out
                   in \<lparr>oc_messages = out, oc_tokens_after = tokens_after,
                       oc_tokens_saved = sat_sub (cx_tokens_before context) tokens_after, oc_success = True,
                       oc_error = None, oc_evicted = evicted_complement ms surviving, oc_stage = None\<rparr>))))"

subsection \<open>The splitter\<close>

record token_splitter =
  sp_preserve_recent :: nat
  sp_min_messages :: nat

definition new_splitter :: token_splitter where
  "new_splitter = \<lparr>sp_preserve_recent = 4, sp_min_messages = 6\<rparr>"

definition splitter_preserve_recent :: "nat \<Rightarrow> token_splitter \<Rightarrow> token_splitter" where
  "splitter_preserve_recent n s = s\<lparr>sp_preserve_recent := max n 1\<rparr>"

definition splitter_min_messages :: "nat \<Rightarrow> token_splitter \<Rightarrow> token_splitter" where
  "splitter_min_messages n s = s\<lparr>sp_min_messages := max n 2\<rparr>"

record 'v split_result =
  to_compact :: "'v message list"
  preserved_tail :: "'v message list"
  compact_tokens :: u64
  preserved_tokens :: u64
  split_index :: nat

definition split_result_at :: "('v \<Rightarrow> string) \<Rightarrow> 'v message list \<Rightarrow> nat \<Rightarrow> 'v split_result" where
  "split_result_at json ms split =
     \<lparr>to_compact = take split ms, preserved_tail = drop split ms,
      compact_tokens = heuristic_count json (take split ms),
      preserved_tokens = heuristic_count json (drop split ms), split_index = split\<rparr>"

definition whole_preserved :: "('v \<Rightarrow> string) \<Rightarrow> 'v message list \<Rightarrow> 'v split_result" where
  "whole_preserved json ms =
     \<lparr>to_compact = [], preserved_tail = ms, compact_tokens = 0,
      preserved_tokens = heuristic_count json ms, split_index = 0\<rparr>"

fun boundary_from :: "'v message list \<Rightarrow> tool_pairing \<Rightarrow> nat list \<Rightarrow> nat \<Rightarrow> nat" where
  "boundary_from ms mates [] best_slide = best_slide"
| "boundary_from ms mates (i # candidates) best_slide =
     (if at_role_transition ms i
      then (let split = slide mates i
            in if split = i then split else boundary_from ms mates candidates (max best_slide split))
      else boundary_from ms mates candidates best_slide)"

definition find_turn_boundary :: "'v message list \<Rightarrow> nat \<Rightarrow> nat" where
  "find_turn_boundary ms target =
     (if target = 0 then 0 else boundary_from ms (scan ms) (rev [1..<Suc target]) 0)"

definition split_messages :: "('v \<Rightarrow> string) \<Rightarrow> token_splitter \<Rightarrow> 'v message list \<Rightarrow> 'v split_result" where
  "split_messages json s ms =
     (if length ms \<le> sp_min_messages s then whole_preserved json ms
      else split_result_at json ms (find_turn_boundary ms (length ms - sp_preserve_recent s)))"

definition suffix_estimate :: "('v message list \<Rightarrow> u64) \<Rightarrow> 'v message list \<Rightarrow> nat \<Rightarrow> u64" where
  "suffix_estimate counter ms index =
     (if index \<le> length ms then foldr (\<lambda>m after. sat_add after (counter [m])) (drop index ms) 0 else - 1)"

text \<open>The walk over the boundaries: the split that fits, if one does, and the last safe one before.\<close>

fun budget_from ::
  "'v message list \<Rightarrow> tool_pairing \<Rightarrow> u64 \<Rightarrow> ('v message list \<Rightarrow> u64) \<Rightarrow> nat list \<Rightarrow> nat \<Rightarrow> nat option \<Rightarrow> nat option" where
  "budget_from ms mates budget counter [] last_seen deepest_safe = deepest_safe"
| "budget_from ms mates budget counter (candidate # candidates) last_seen deepest_safe =
     (if at_role_transition ms candidate
      then (let split = slide mates candidate
            in if split = last_seen then budget_from ms mates budget counter candidates last_seen deepest_safe
               else if suffix_estimate counter ms split > budget
               then budget_from ms mates budget counter candidates split (Some split)
               else if counter (drop split ms) \<le> budget then Some split
               else budget_from ms mates budget counter candidates split (Some split))
      else budget_from ms mates budget counter candidates last_seen deepest_safe)"

definition split_within_budget ::
  "('v \<Rightarrow> string) \<Rightarrow> token_splitter \<Rightarrow> 'v message list \<Rightarrow> u64 \<Rightarrow> ('v message list \<Rightarrow> u64) \<Rightarrow> 'v split_result" where
  "split_within_budget json s ms budget counter =
     (if length ms \<le> sp_min_messages s then whole_preserved json ms
      else
        (let max_split = length ms - sp_preserve_recent s in
         if max_split = 0 then split_messages json s ms
         else
           (case budget_from ms (scan ms) budget counter [1..<Suc max_split] 0 None of
              Some split \<Rightarrow> split_result_at json ms split
            | None \<Rightarrow> split_messages json s ms)))"

subsection \<open>Choosing a split\<close>

lemma slide_pairs_eq: "slide_pairs mates split = slide mates split"
proof (induction mates split rule: slide_pairs.induct)
  case (1 mates split)
  have "adjust_for_tool_pairs mates split = adjusted_split mates split"
    using adjusted_split_le [of mates 0] by (cases "split = 0") (simp_all add: adjust_for_tool_pairs_def)
  then show ?case using 1 by (subst slide_pairs.simps, subst slide.simps) (auto simp: Let_def)
qed

text \<open>
  The walk skips a candidate that slides to the split it has just refused; since slides ascend with
  their candidates, that is the same as asking each distinct safe split once.
\<close>

lemma choose_from_find:
  assumes "sorted candidates" and "last_seen = 0 \<or> \<not> lands last_seen"
    and "\<forall>c \<in> set candidates. last_seen \<le> slide mates c"
  shows "choose_from lands mates candidates last_seen =
    find (\<lambda>s. 2 \<le> s \<and> lands s) (map (slide mates) candidates)"
  using assms
proof (induction candidates arbitrary: last_seen)
  case (Cons c cs)
  have later: "\<forall>c' \<in> set cs. slide mates c \<le> slide mates c'" using Cons.prems(1) by (auto intro: slide_mono)
  then have "\<forall>c' \<in> set cs. last_seen \<le> slide mates c'" using Cons.prems(3) by auto
  then show ?case
    using Cons.IH [of last_seen] Cons.IH [of "slide mates c"] Cons.prems later
    by (auto simp: slide_pairs_eq Let_def not_le)
qed simp

lemma choose_split_find:
  "choose_split ms mates floor_split target counter =
     find (\<lambda>s. 2 \<le> s \<and> split_lands ms mates target counter (tail_tokens counter ms floor_split) s)
       (map (slide mates) [2..<Suc floor_split])"
  unfolding choose_split_def by (rule choose_from_find) (auto simp del: upt_Suc)

subsection \<open>Pairs survive together\<close>

text \<open>
  An output as a list of blocks: the index of a message of the history and whether it is one of
  the pulled messages, whose parts are kept only with their counterparts. \<open>live\<close> are the
  indices that have a block.
\<close>

definition block_parts :: "'v message list \<Rightarrow> tool_pairing \<Rightarrow> (bool \<times> nat) list \<Rightarrow> bool \<times> nat \<Rightarrow> 'v message_part list" where
  "block_parts ms mates blocks b =
     nths (msg_parts (ms ! snd b)) {p. keep_part mates (snd ` set blocks) (fst b) (snd b) p}"

definition well_blocked :: "'v message list \<Rightarrow> (bool \<times> nat) list \<Rightarrow> bool" where
  "well_blocked ms blocks \<longleftrightarrow> sorted (map snd blocks) \<and> (\<forall>b \<in> set blocks. snd b < length ms)"

text \<open>The counterpart of a part of a kept message that is not a pulled one has a block too.\<close>

definition closed_under :: "'v message list \<Rightarrow> tool_pairing \<Rightarrow> (bool \<times> nat) list \<Rightarrow> ('v message_part \<Rightarrow> string option) \<Rightarrow> bool" where
  "closed_under ms mates blocks ident \<longleftrightarrow>
     (\<forall>k p m i. (False, k) \<in> set blocks \<longrightarrow> p < length (msg_parts (ms ! k)) \<longrightarrow>
        ident (msg_parts (ms ! k) ! p) = Some i \<longrightarrow> mate_at mates (k, p) = Some (Paired m) \<longrightarrow>
        m \<in> snd ` set blocks)"

lemma closed_underD:
  "closed_under ms mates blocks ident \<Longrightarrow> (False, k) \<in> set blocks \<Longrightarrow> p < length (msg_parts (ms ! k)) \<Longrightarrow>
   ident (msg_parts (ms ! k) ! p) = Some i \<Longrightarrow> mate_at mates (k, p) = Some (Paired m) \<Longrightarrow> m \<in> snd ` set blocks"
  unfolding closed_under_def by blast

lemma sorted_blocks_around:
  assumes "sorted (map snd (pre @ b # post))" and "k \<in> snd ` set (pre @ b # post)"
  shows "k < snd b \<Longrightarrow> \<exists>s. (s, k) \<in> set pre" and "snd b < k \<Longrightarrow> \<exists>s. (s, k) \<in> set post"
  using assms by (auto simp: sorted_append)

context pairing
begin

lemma kept_pair:
  assumes "well_blocked ms blocks" and "(s, k) \<in> set blocks" and "p < length (msg_parts (ms ! k))"
    and "keep_part mates (snd ` set blocks) s k p" and "mate_at mates (k, p) = Some (Paired m)"
    and "closed_under ms mates blocks ident" and "ident (msg_parts (ms ! k) ! p) = Some i"
  shows "m \<in> snd ` set blocks"
proof (cases s)
  case True
  then show ?thesis using assms(4,5) by (simp add: keep_part_def)
next
  case False
  then show ?thesis using assms closed_underD by (metis (full_types))
qed

lemma mate_kept:
  assumes "mate_at mates (m, q) = Some (Paired k)" and "k \<in> snd ` set blocks"
  shows "keep_part mates (snd ` set blocks) s m q"
  using assms by (simp add: keep_part_def)

lemma blocks_results_solicited:
  assumes blocked: "well_blocked ms blocks" and closed: "closed_under ms mates blocks result_id_of"
  shows "solicited (concat (map (block_parts ms mates blocks) blocks))"
  unfolding solicited_iff
proof (rule solicited_blocks)
  fix pre b post assume split: "blocks = pre @ b # post"
  obtain s k where b: "b = (s, k)" by fastforce
  let ?live = "snd ` set blocks"
  have k: "k < length ms" "(s, k) \<in> set blocks" "k \<in> ?live" using blocked split b by (auto simp: well_blocked_def)
  show "solicited_after (calls_in (concat (map (block_parts ms mates blocks) pre))) (block_parts ms mates blocks b)"
  proof (rule solicited_after_splitI)
    fix u y v i assume parts: "block_parts ms mates blocks b = u @ y # v" and y: "result_id_of y = Some i"
    let ?keep = "\<lambda>s k. {p. keep_part mates ?live s k p}"
    from nths_split [OF parts [unfolded block_parts_def b, simplified]] obtain p where
      p: "p < length (msg_parts (ms ! k))" "keep_part mates ?live s k p" "msg_parts (ms ! k) ! p = y"
      "u = nths (take p (msg_parts (ms ! k))) (?keep s k)" by auto
    have "((k, p), y) \<in> set (occurrences ms)" using k(1) p by (simp add: occurrences_set)
    from result_mate [OF this y] p(2) obtain c x where c: "(c, x) \<in> set (occurrences ms)" "call_id_of x = Some i"
      "c < (k, p)" "mate_at mates (k, p) = Some (Paired (fst c))" "mate_at mates c = Some (Paired k)"
      by (auto simp: keep_part_def)
    obtain m q where mq: "c = (m, q)" by fastforce
    have x: "m < length ms" "q < length (msg_parts (ms ! m))" "msg_parts (ms ! m) ! q = x"
      using c(1) by (simp_all add: occurrences_set mq)
    have kept: "keep_part mates ?live s' m q" for s' using c(5) k(3) by (simp add: mq mate_kept)
    show "i \<in> calls_in (concat (map (block_parts ms mates blocks) pre)) \<union> calls_in u"
    proof (cases "m = k")
      case True
      then have "q < p" using c(3) mq by auto
      then have "x \<in> set u" using nths_before [of q p "msg_parts (ms ! k)" "?keep s k"] True kept p(1,4) x(3) by auto
      then show ?thesis using c(2) by (auto simp: calls_in_def)
    next
      case False
      then have "m < k" using c(3) mq by auto
      moreover have "m \<in> ?live" using kept_pair [OF blocked k(2) p(1,2) _ closed] c(4) p(3) y mq by auto
      ultimately obtain s' where "(s', m) \<in> set pre"
        using sorted_blocks_around(1) [of pre b post m] blocked split b by (auto simp: well_blocked_def)
      moreover have "x \<in> set (block_parts ms mates blocks (s', m))"
        using nths_member [of q "msg_parts (ms ! m)" "?keep s' m"] kept x by (simp add: block_parts_def)
      ultimately show ?thesis using c(2) by (force simp: calls_in_def)
    qed
  qed
qed

lemma blocks_calls_answered:
  assumes blocked: "well_blocked ms blocks" and closed: "closed_under ms mates blocks call_id_of"
    and paired: "\<And>pos. mate_at mates pos \<noteq> Some LoneCall"
  shows "answered (concat (map (block_parts ms mates blocks) blocks))"
  unfolding answered_iff
proof (rule answered_blocks)
  fix pre b post assume split: "blocks = pre @ b # post"
  obtain s k where b: "b = (s, k)" by fastforce
  let ?live = "snd ` set blocks"
  have k: "k < length ms" "(s, k) \<in> set blocks" "k \<in> ?live" using blocked split b by (auto simp: well_blocked_def)
  show "answered_before (results_in (concat (map (block_parts ms mates blocks) post))) (block_parts ms mates blocks b)"
  proof (rule answered_before_splitI)
    fix u y v i assume parts: "block_parts ms mates blocks b = u @ y # v" and y: "call_id_of y = Some i"
    let ?keep = "\<lambda>s k. {p. keep_part mates ?live s k p}"
    from nths_split [OF parts [unfolded block_parts_def b, simplified]] obtain p where
      p: "p < length (msg_parts (ms ! k))" "keep_part mates ?live s k p" "msg_parts (ms ! k) ! p = y"
      "v = nths (drop (Suc p) (msg_parts (ms ! k))) {j. keep_part mates ?live s k (Suc (j + p))}" by auto
    have "((k, p), y) \<in> set (occurrences ms)" using k(1) p by (simp add: occurrences_set)
    from call_mate [OF this y] paired obtain r x where r: "(r, x) \<in> set (occurrences ms)" "result_id_of x = Some i"
      "(k, p) < r" "mate_at mates (k, p) = Some (Paired (fst r))" "mate_at mates r = Some (Paired k)"
      by auto
    obtain m q where mq: "r = (m, q)" by fastforce
    have x: "m < length ms" "q < length (msg_parts (ms ! m))" "msg_parts (ms ! m) ! q = x"
      using r(1) by (simp_all add: occurrences_set mq)
    have kept: "keep_part mates ?live s' m q" for s' using r(5) k(3) by (simp add: mq mate_kept)
    show "i \<in> results_in v \<union> results_in (concat (map (block_parts ms mates blocks) post))"
    proof (cases "m = k")
      case True
      then have "p < q" using r(3) mq by auto
      then have "x \<in> set v" using nths_after [of p q "msg_parts (ms ! k)" "?keep s k"] True kept p(4) x by auto
      then show ?thesis using r(2) by (auto simp: results_in_def)
    next
      case False
      then have "k < m" using r(3) mq by auto
      moreover have "m \<in> ?live" using kept_pair [OF blocked k(2) p(1,2) _ closed] r(4) p(3) y mq by auto
      ultimately obtain s' where "(s', m) \<in> set post"
        using sorted_blocks_around(2) [of pre b post m] blocked split b by (auto simp: well_blocked_def)
      moreover have "x \<in> set (block_parts ms mates blocks (s', m))"
        using nths_member [of q "msg_parts (ms ! m)" "?keep s' m"] kept x by (simp add: block_parts_def)
      ultimately show ?thesis using r(2) by (force simp: results_in_def)
    qed
  qed
qed

end

definition block_message :: "'v message list \<Rightarrow> tool_pairing \<Rightarrow> (bool \<times> nat) list \<Rightarrow> bool \<times> nat \<Rightarrow> 'v message" where
  "block_message ms mates blocks b = (ms ! snd b)\<lparr>msg_parts := block_parts ms mates blocks b\<rparr>"

definition output_of :: "'v message list \<Rightarrow> tool_pairing \<Rightarrow> (bool \<times> nat) list \<Rightarrow> 'v message list" where
  "output_of ms mates blocks = filter (\<lambda>m. msg_parts m \<noteq> []) (map (block_message ms mates blocks) blocks)"

definition survivors_of :: "'v message list \<Rightarrow> tool_pairing \<Rightarrow> (bool \<times> nat) list \<Rightarrow> nat list" where
  "survivors_of ms mates blocks = map snd (filter (\<lambda>b. block_parts ms mates blocks b \<noteq> []) blocks)"

definition blocks_of :: "nat list \<Rightarrow> nat \<Rightarrow> (bool \<times> nat) list" where
  "blocks_of origins pulled_len = map (\<lambda>(slot, i). (0 < slot \<and> slot < pulled_len + 1, i)) (enumerate 0 origins)"

lemma map_snd_blocks [simp]: "map snd (blocks_of origins k) = origins"
  by (simp add: blocks_of_def comp_def case_prod_beta)

lemma set_snd_blocks: "snd ` set (blocks_of origins k) = set origins"
  by (metis map_snd_blocks set_map)

lemma blocks_of_nth:
  "length (blocks_of origins k) = length origins"
  "slot < length origins \<Longrightarrow> blocks_of origins k ! slot = (0 < slot \<and> slot < k + 1, origins ! slot)"
  by (simp_all add: blocks_of_def nth_enumerate_eq)

lemma sanitize_blocks:
  "sanitize_tool_parts (map ((!) ms) origins) origins mates k =
     (output_of ms mates (blocks_of origins k), survivors_of ms mates (blocks_of origins k))"
proof -
  let ?bs = "blocks_of origins k"
  have cleaned: "map (\<lambda>(slot, m). if slot < length origins
        then keep_parts mates (set origins) (0 < slot \<and> slot < k + 1) (origins ! slot) m else m)
      (enumerate 0 (map ((!) ms) origins)) = map (block_message ms mates ?bs) ?bs"
    by (rule nth_equalityI)
       (simp_all add: blocks_of_nth nth_enumerate_eq block_message_def block_parts_def keep_parts_def set_snd_blocks)
  have "map fst (filter snd (zip (map snd bs) (map (\<lambda>b. P b) bs))) = map snd (filter P bs)"
    for P and bs :: "(bool \<times> nat) list" by (induction bs) simp_all
  from this [of ?bs "\<lambda>b. msg_parts (block_message ms mates ?bs b) \<noteq> []"]
  have "map fst (filter snd (zip origins (map (\<lambda>m. msg_parts m \<noteq> []) (map (block_message ms mates ?bs) ?bs)))) =
      survivors_of ms mates ?bs"
    by (simp add: survivors_of_def block_message_def comp_def)
  then show ?thesis unfolding sanitize_tool_parts_def Let_def cleaned by (simp add: output_of_def)
qed

lemma all_parts_output: "all_parts (output_of ms mates blocks) = concat (map (block_parts ms mates blocks) blocks)"
proof -
  have "all_parts (filter (\<lambda>m. msg_parts m \<noteq> []) xs) = all_parts xs" for xs :: "'a message list"
    by (induction xs) auto
  then show ?thesis by (simp add: output_of_def all_parts_def comp_def block_message_def)
qed

definition pull_list :: "'v message list \<Rightarrow> u64 \<Rightarrow> 'v compaction_context \<Rightarrow> nat \<Rightarrow> nat list" where
  "pull_list ms target_tokens context split =
     (let effective_target = sat_sub target_tokens (cx_counter context (cx_pinned context));
          pull_budget = (if effective_target = 0 then - 1
                         else sat_sub effective_target (cx_counter context (take 1 ms @ drop split ms)))
      in remdups_adj (sort (pulled_indices (scan ms) split
           (durable_pull_indices_within_budget ms split pull_budget (cx_counter context)))))"

definition kept_blocks :: "'v message list \<Rightarrow> nat list \<Rightarrow> nat \<Rightarrow> (bool \<times> nat) list" where
  "kept_blocks ms pulled split = (False, 0) # map (Pair True) pulled @ map (Pair False) [split..<length ms]"

lemma distinct_remdups_adj: "sorted xs \<Longrightarrow> distinct (remdups_adj xs)" for xs :: "'a::linorder list"
  by (induction xs rule: remdups_adj.induct) (auto dest: order_antisym)

lemma pull_list_facts:
  shows "sorted (pull_list ms t cx split)" and "distinct (pull_list ms t cx split)"
    and "i \<in> set (pull_list ms t cx split) \<Longrightarrow> i < split"
    and "set (first_message_dropped_result_indices (scan ms) split) \<subseteq> set (pull_list ms t cx split)"
  by (auto simp: pull_list_def Let_def pulled_indices_def set_foldl_push_new set_first_message_dropped
      distinct_remdups_adj durable_within_budget_below split: list.splits)

lemma kept_side_blocks:
  assumes "0 < split" and "split \<le> length ms" and "ms \<noteq> []"
  shows "kept_side ms t cx split =
    (output_of ms (scan ms) (kept_blocks ms (pull_list ms t cx split) split),
     survivors_of ms (scan ms) (kept_blocks ms (pull_list ms t cx split) split))"
proof -
  let ?pulled = "pull_list ms t cx split"
  let ?origins = "0 # ?pulled @ [split..<length ms]"
  have below: "\<forall>i \<in> set ?pulled. i < length ms" using pull_list_facts(3) assms(2) by fastforce
  then have pulled: "get_messages ms ?pulled = map ((!) ms) ?pulled" by (simp add: get_messages_def)
  have tail: "drop split ms = map ((!) ms) [split..<length ms]"
    by (rule nth_equalityI) simp_all
  have blocks: "blocks_of ?origins (length ?pulled) = kept_blocks ms ?pulled split"
    by (rule nth_equalityI) (auto simp: blocks_of_def kept_blocks_def nth_enumerate_eq nth_append nth_Cons split: nat.splits)
  have head: "take 1 ms @ drop split ms = ms ! 0 # map ((!) ms) [split..<length ms]"
    using assms(3) tail by (cases ms) simp_all
  have "kept_side ms t cx split = assemble_pulled ms (scan ms) split (take 1 ms @ drop split ms) ?pulled"
    by (simp add: kept_side_def reattach_dropped_results_within_budget_def Let_def pull_list_def)
  also have "\<dots> = sanitize_tool_parts (map ((!) ms) ?origins) ?origins (scan ms) (length ?pulled)"
    unfolding head by (simp add: assemble_pulled_def pulled)
  finally have "kept_side ms t cx split =
      sanitize_tool_parts (map ((!) ms) ?origins) ?origins (scan ms) (length ?pulled)" .
  then show ?thesis by (simp only: sanitize_blocks blocks)
qed

lemma kept_blocks_facts:
  assumes "sorted pulled" and "\<forall>i \<in> set pulled. i < split" and "split \<le> length ms" and "ms \<noteq> []"
  shows "well_blocked ms (kept_blocks ms pulled split)"
    and "snd ` set (kept_blocks ms pulled split) = insert 0 (set pulled) \<union> {split..<length ms}"
    and "(False, k) \<in> set (kept_blocks ms pulled split) \<longleftrightarrow> k = 0 \<or> split \<le> k \<and> k < length ms"
proof -
  show live: "snd ` set (kept_blocks ms pulled split) = insert 0 (set pulled) \<union> {split..<length ms}"
    by (simp add: kept_blocks_def image_Un image_image)
  have "map snd (kept_blocks ms pulled split) = 0 # pulled @ [split..<length ms]"
    by (simp add: kept_blocks_def comp_def)
  moreover have "sorted (0 # pulled @ [split..<length ms])" using assms by (auto simp: sorted_append)
  moreover have "\<forall>k \<in> insert 0 (set pulled) \<union> {split..<length ms}. k < length ms" using assms by auto
  then have "\<forall>b \<in> set (kept_blocks ms pulled split). snd b < length ms" using live by blast
  ultimately show "well_blocked ms (kept_blocks ms pulled split)"
    unfolding well_blocked_def by (simp only: simp_thms)
  show "(False, k) \<in> set (kept_blocks ms pulled split) \<longleftrightarrow> k = 0 \<or> split \<le> k \<and> k < length ms"
    by (auto simp: kept_blocks_def)
qed

context pairing
begin

lemma mate_below:
  assumes "k < length ms" and "p < length (msg_parts (ms ! k))" and "mate_at mates (k, p) = Some (Paired m)"
  shows "m < length ms \<and> (call_id_of (msg_parts (ms ! k) ! p) \<noteq> None \<longrightarrow> k \<le> m) \<and>
    (result_id_of (msg_parts (ms ! k) ! p) \<noteq> None \<longrightarrow> m \<le> k)"
proof -
  let ?part = "msg_parts (ms ! k) ! p"
  have occ: "((k, p), ?part) \<in> set (occurrences ms)" using assms by (simp add: occurrences_set)
  show ?thesis
  proof (cases "call_id_of ?part")
    case (Some i)
    from call_mate [OF occ Some] assms(3) obtain r y where "(r, y) \<in> set (occurrences ms)" "(k, p) < r" "m = fst r"
      by auto
    then show ?thesis using Some by (cases r) (auto simp: occurrences_set)
  next
    case None
    show ?thesis
    proof (cases "result_id_of ?part")
      case (Some i)
      from result_mate [OF occ Some] assms(3) obtain c y where "(c, y) \<in> set (occurrences ms)" "c < (k, p)" "m = fst c"
        by auto
      then show ?thesis using None by (cases c) (auto simp: occurrences_set)
    next
      case nores: None
      then show ?thesis using other_mate [OF occ None nores] assms(3) by simp
    qed
  qed
qed

lemma closed_kept:
  assumes pulled: "sorted pulled" "\<forall>i \<in> set pulled. i < split" "split \<le> length ms" "ms \<noteq> []"
    and safe: "pair_safe mates split"
    and first: "set (first_message_dropped_result_indices mates split) \<subseteq> set pulled"
  shows "closed_under ms mates (kept_blocks ms pulled split) call_id_of"
    and "closed_under ms mates (kept_blocks ms pulled split) result_id_of"
proof -
  note facts = kept_blocks_facts [OF pulled]
  have live: "m \<in> snd ` set (kept_blocks ms pulled split)"
    if block: "(False, k) \<in> set (kept_blocks ms pulled split)" and p: "p < length (msg_parts (ms ! k))"
      and mate: "mate_at mates (k, p) = Some (Paired m)"
      and tool: "call_id_of (msg_parts (ms ! k) ! p) \<noteq> None \<or> result_id_of (msg_parts (ms ! k) ! p) \<noteq> None"
    for k p m
  proof -
    have k: "k < length ms" using block facts(3) pulled(4) by auto
    note m = mate_below [OF k p mate]
    show ?thesis
    proof (cases "split \<le> m")
      case True
      then show ?thesis using m facts(2) by simp
    next
      case False
      then have "\<not> split \<le> k" using safe mate unfolding split_safe_iff by force
      then have "k = 0" using block facts(3) by simp
      then have "Some (Paired m) \<in> set (mates ! 0)"
        using mate p k by (metis length_row mate_at_row nth_mem)
      moreover have "mates \<noteq> []" using k length_mates by auto
      ultimately have "0 < m \<Longrightarrow> m \<in> set (first_message_dropped_result_indices mates split)"
        using False by (cases mates) (auto simp: set_first_message_dropped)
      then show ?thesis using first facts(2) by (cases "m = 0") auto
    qed
  qed
  show "closed_under ms mates (kept_blocks ms pulled split) call_id_of"
    "closed_under ms mates (kept_blocks ms pulled split) result_id_of"
    unfolding closed_under_def using live by blast+
qed

lemma kept_pairs:
  assumes "sorted pulled" "\<forall>i \<in> set pulled. i < split" "split \<le> length ms" "ms \<noteq> []" "pair_safe mates split"
    "set (first_message_dropped_result_indices mates split) \<subseteq> set pulled"
  shows "solicited (all_parts (output_of ms mates (kept_blocks ms pulled split)))"
    and "(\<And>pos. mate_at mates pos \<noteq> Some LoneCall) \<Longrightarrow> coherent (output_of ms mates (kept_blocks ms pulled split))"
  using blocks_results_solicited [OF kept_blocks_facts(1) [OF assms(1-4)] closed_kept(2) [OF assms]]
    blocks_calls_answered [OF kept_blocks_facts(1) [OF assms(1-4)] closed_kept(1) [OF assms]]
  by (simp_all add: all_parts_output coherent_def)

lemma whole_blocks:
  "set (blocks_of [0..<length ms] 0) = Pair False ` {0..<length ms}"
  "well_blocked ms (blocks_of [0..<length ms] 0)"
  "closed_under ms mates (blocks_of [0..<length ms] 0) ident"
proof -
  show blocks: "set (blocks_of [0..<length ms] 0) = Pair False ` {0..<length ms}"
    by (force simp: set_conv_nth blocks_of_nth image_def)
  then show "well_blocked ms (blocks_of [0..<length ms] 0)" by (auto simp: well_blocked_def)
  have "m < length ms" if "k < length ms" "p < length (msg_parts (ms ! k))" "mate_at mates (k, p) = Some (Paired m)" for k p m
    using mate_below [OF that] by simp
  then show "closed_under ms mates (blocks_of [0..<length ms] 0) ident"
    unfolding closed_under_def blocks by force
qed

lemma whole_pairs:
  shows "solicited (all_parts (output_of ms mates (blocks_of [0..<length ms] 0)))"
    and "(\<And>pos. mate_at mates pos \<noteq> Some LoneCall) \<Longrightarrow> coherent (output_of ms mates (blocks_of [0..<length ms] 0))"
  using blocks_results_solicited [OF whole_blocks(2,3)] blocks_calls_answered [OF whole_blocks(2,3)]
  by (simp_all add: all_parts_output coherent_def)

lemma whole_nonempty:
  assumes "\<not> all_parts_lone_results mates"
  shows "output_of ms mates (blocks_of [0..<length ms] 0) \<noteq> []"
proof -
  from assms obtain k p where kp: "k < length mates" "p < length (mates ! k)" "mates ! k ! p \<noteq> Some LoneResult"
    by (auto simp: all_parts_lone_results_def list_all_iff in_set_conv_nth)
  then have k: "k < length ms" "p < length (msg_parts (ms ! k))" by (simp_all add: length_mates length_row)
  let ?bs = "blocks_of [0..<length ms] 0"
  have "keep_part mates (snd ` set ?bs) False k p"
    using kp by (auto simp: keep_part_def mate_at_def split: option.splits part_mate.splits)
  then have "msg_parts (ms ! k) ! p \<in> set (block_parts ms mates ?bs (False, k))"
    unfolding block_parts_def fst_conv snd_conv using k(2) by (intro nths_member) simp_all
  then have "block_parts ms mates ?bs (False, k) \<noteq> []" by auto
  moreover have "(False, k) \<in> set ?bs" using whole_blocks(1) k(1) by auto
  ultimately show ?thesis unfolding output_of_def
    by (auto simp: filter_empty_conv block_message_def)
qed

end

subsection \<open>What the compactor guarantees\<close>

lemma choose_split_Some:
  assumes "choose_split ms mates floor_split target counter = Some s"
  shows "2 \<le> s" and "s \<le> floor_split" and "pair_safe mates s"
    and "split_lands ms mates target counter (tail_tokens counter ms floor_split) s"
proof -
  from assms have "find (\<lambda>s. 2 \<le> s \<and> split_lands ms mates target counter (tail_tokens counter ms floor_split) s)
      (map (slide mates) [2..<Suc floor_split]) = Some s" by (simp only: choose_split_find)
  then have "s \<in> slide mates ` {2..<Suc floor_split}" "2 \<le> s"
    "split_lands ms mates target counter (tail_tokens counter ms floor_split) s"
    using find_Some_member by (metis (no_types, lifting) set_map set_upt)+
  moreover from this obtain x where "s = slide mates x" "x \<le> floor_split" by auto
  ultimately show "2 \<le> s" "s \<le> floor_split" "pair_safe mates s"
    "split_lands ms mates target counter (tail_tokens counter ms floor_split) s"
    using slide_le [of mates x] slide_safe [of mates x] by auto
qed

lemma chosen_split_Some:
  assumes "chosen_split c ms t cx = Some s"
  shows "0 < s" and "s \<le> length ms - tr_preserve_recent c" and "pair_safe (scan ms) s"
proof -
  let ?floor = "length ms - tr_preserve_recent c"
  have "0 < s \<and> s \<le> ?floor \<and> pair_safe (scan ms) s"
  proof (cases "sat_sub t (cx_counter cx (cx_pinned cx)) = 0")
    case True
    then have "floor_split_at (scan ms) ?floor = Some s" using assms by (simp add: chosen_split_def Let_def)
    then show ?thesis
      using slide_le [of "scan ms" ?floor] slide_safe [of "scan ms" ?floor]
      by (auto simp: floor_split_at_def Let_def slide_pairs_eq split: if_splits)
  next
    case False
    then have "choose_split ms (scan ms) ?floor (sat_sub t (cx_counter cx (cx_pinned cx))) (cx_counter cx) = Some s"
      using assms by (simp add: chosen_split_def Let_def)
    from choose_split_Some [OF this] show ?thesis by simp
  qed
  then show "0 < s" "s \<le> ?floor" "pair_safe (scan ms) s" by simp_all
qed

lemma unchanged_messages:
  assumes "\<not> all_parts_lone_results (scan ms)"
  shows "oc_messages (unchanged json ms (scan ms) cx) = output_of ms (scan ms) (blocks_of [0..<length ms] 0)"
  using assms sanitize_blocks [of ms "[0..<length ms]" "scan ms" 0]
  by (simp add: unchanged_def map_nth no_change_def Let_def)

lemma truncating_cases:
  obtains (unchanged) "truncating_compact json c ms t cx = unchanged json ms (scan ms) cx"
  | (cut) split out where "chosen_split c ms t cx = Some split" and "tr_min_messages c < length ms"
      and "out = output_of ms (scan ms) (kept_blocks ms (pull_list ms t cx split) split)" and "out \<noteq> []"
      and "oc_messages (truncating_compact json c ms t cx) = prepend_pinned out (cx_pinned cx)"
      and "oc_evicted (truncating_compact json c ms t cx) =
        evicted_complement ms (survivors_of ms (scan ms) (kept_blocks ms (pull_list ms t cx split) split))"
proof (cases "length ms \<le> tr_min_messages c \<or> chosen_split c ms t cx = None")
  case True
  then have "truncating_compact json c ms t cx = unchanged json ms (scan ms) cx"
    by (auto simp: truncating_compact_def)
  then show ?thesis by (rule unchanged)
next
  case False
  then obtain split where split: "chosen_split c ms t cx = Some split" by auto
  have "ms \<noteq> []" using False by auto
  note side = kept_side_blocks [OF chosen_split_Some(1) [OF split] _ this, of t cx]
  have "split \<le> length ms" using chosen_split_Some(2) [OF split] by simp
  note side = side [OF this]
  show ?thesis
  proof (cases "output_of ms (scan ms) (kept_blocks ms (pull_list ms t cx split) split) = []")
    case True
    then have "truncating_compact json c ms t cx = unchanged json ms (scan ms) cx"
      using side split by (simp add: truncating_compact_def)
    then show ?thesis by (rule unchanged)
  next
    case nonempty: False
    then show ?thesis using cut [OF split _ refl nonempty] False side split
      by (simp add: truncating_compact_def Let_def)
  qed
qed

lemma prepend_pinned_pairs:
  assumes "tool_free pins"
  shows "solicited (all_parts (prepend_pinned out pins)) = solicited (all_parts out)"
    and "coherent (prepend_pinned out pins) = coherent out"
  using insert_tool_free [OF assms, of "take (pin_position out) out" "drop (pin_position out) out"]
  by (auto simp: prepend_pinned_def Let_def simp del: all_parts_simps)

lemma prepend_pinned_Nil [simp]: "prepend_pinned out pins = [] \<longleftrightarrow> out = [] \<and> pins = []"
  by (auto simp: prepend_pinned_def Let_def pin_position_def split: list.splits)

lemma truncating_pairs:
  assumes "\<not> all_parts_lone_results (scan ms)" and "tool_free (cx_pinned cx)"
  shows "solicited (all_parts (oc_messages (truncating_compact json c ms target cx)))"
    and "oc_messages (truncating_compact json c ms target cx) \<noteq> []"
    and "(\<And>pos. mate_at (scan ms) pos \<noteq> Some LoneCall) \<Longrightarrow>
      coherent (oc_messages (truncating_compact json c ms target cx))"
proof -
  have "solicited (all_parts (oc_messages (truncating_compact json c ms target cx))) \<and>
    oc_messages (truncating_compact json c ms target cx) \<noteq> [] \<and>
    ((\<forall>pos. mate_at (scan ms) pos \<noteq> Some LoneCall) \<longrightarrow>
      coherent (oc_messages (truncating_compact json c ms target cx)))"
  proof (cases rule: truncating_cases [where json = json and c = c and ms = ms and t = target and cx = cx])
    case unchanged
    then show ?thesis
      using unchanged_messages [OF assms(1)] scanned.whole_pairs scanned.whole_nonempty [OF assms(1)] by auto
  next
    case (cut split out)
    have bound: "split \<le> length ms" using chosen_split_Some(2) [OF cut(1)] by simp
    have "ms \<noteq> []" using cut(2) by auto
    note pairs = scanned.kept_pairs [OF pull_list_facts(1) _ bound this chosen_split_Some(3) [OF cut(1)] pull_list_facts(4)]
    have "\<forall>i \<in> set (pull_list ms target cx split). i < split" using pull_list_facts(3) by blast
    note pairs = pairs [OF this]
    show ?thesis unfolding cut(5) prepend_pinned_pairs [OF assms(2)] using pairs cut(3,4) by auto
  qed
  then show "solicited (all_parts (oc_messages (truncating_compact json c ms target cx)))"
    "oc_messages (truncating_compact json c ms target cx) \<noteq> []"
    "(\<And>pos. mate_at (scan ms) pos \<noteq> Some LoneCall) \<Longrightarrow>
      coherent (oc_messages (truncating_compact json c ms target cx))"
    by blast+
qed

text \<open>
  C6: whatever the history, the target and the counter, truncation keeps tool calls and their
  results together. In the history it hands back every result comes after a call of its id; if no
  call of the input was waiting for a result, every call is followed by a result of its id; and
  the history is not empty. Only a conversation of nothing but orphaned results is returned as it
  is, and pinned messages carry no tool parts.
\<close>

theorem truncation_keeps_pairs:
  assumes "\<not> all_parts_lone_results (scan ms)" and "tool_free (cx_pinned cx)"
  shows "solicited (all_parts (oc_messages (truncating_compact json c ms target cx))) \<and>
    oc_messages (truncating_compact json c ms target cx) \<noteq> [] \<and>
    ((\<forall>pos. mate_at (scan ms) pos \<noteq> Some LoneCall) \<longrightarrow>
      coherent (oc_messages (truncating_compact json c ms target cx)))"
  using truncating_pairs [OF assms] by blast

definition sample_history :: "unit message list" where
  "sample_history =
     [user_message ''task'',
      \<lparr>msg_role = Assistant, msg_parts = [ToolCallPart ''a'' ''read'' ()]\<rparr>,
      \<lparr>msg_role = User, msg_parts = [ToolResultPart ''a'' ''read'' (TCText ''x'') None None]\<rparr>,
      assistant_message ''done'', user_message ''next'']"

definition sample_context :: "unit compaction_context" where
  "sample_context = new_context 5 Manual 10 1 (\<lambda>ms. of_nat (length ms))"

lemmas scan_defs = scan_def scan_part_def mark_lone_calls_def set_mate_def enumerate_Suc_eq

lemma sample_scan: "scan sample_history = [[None], [Some (Paired 2)], [Some (Paired 1)], [None], [None]]"
  by (simp add: sample_history_def scan_defs user_message_def assistant_message_def)

theorem truncation_keeps_pairs_witness:
  "coherent (oc_messages (truncating_compact (\<lambda>_. []) (with_min_messages 2 new_truncating)
     sample_history 3 sample_context))"
proof -
  have "\<not> all_parts_lone_results (scan sample_history)"
    by (simp add: sample_scan all_parts_lone_results_def)
  moreover have "tool_free (cx_pinned sample_context)"
    by (simp add: sample_context_def new_context_def tool_free_def)
  moreover have "mate_at (scan sample_history) pos \<noteq> Some LoneCall" for pos
    by (auto simp: sample_scan mate_at_def nth_Cons less_Suc_eq split: nat.splits)
  ultimately show ?thesis using truncation_keeps_pairs by blast
qed

lemma find_sorted:
  fixes xs :: "'a::linorder list"
  assumes "sorted xs"
  shows "find P xs = Some x \<longleftrightarrow> x \<in> set xs \<and> P x \<and> (\<forall>y \<in> set xs. P y \<longrightarrow> x \<le> y)"
  using assms by (induction xs) (auto intro: order_antisym)

text \<open>
  the split chosen for a target is the smallest safe one, hence the one with the largest tail,
  among those that cut off at least two messages and spare the recent ones, whose landing fits
  the target; none is chosen exactly when none of these fits. Skipping the candidates that slide
  to the same split loses nothing.
\<close>

theorem choose_split_largest_tail:
  "(choose_split ms mates floor_split target counter = Some s \<longleftrightarrow>
     s \<in> {s. 2 \<le> s \<and> s \<le> floor_split \<and> pair_safe mates s} \<and>
     split_lands ms mates target counter (tail_tokens counter ms floor_split) s \<and>
     (\<forall>s'. 2 \<le> s' \<and> s' < s \<and> pair_safe mates s' \<longrightarrow>
        \<not> split_lands ms mates target counter (tail_tokens counter ms floor_split) s')) \<and>
   (choose_split ms mates floor_split target counter = None \<longleftrightarrow>
     (\<forall>s. 2 \<le> s \<and> s \<le> floor_split \<and> pair_safe mates s \<longrightarrow>
        \<not> split_lands ms mates target counter (tail_tokens counter ms floor_split) s))"
proof -
  let ?lands = "split_lands ms mates target counter (tail_tokens counter ms floor_split)"
  let ?slides = "map (slide mates) [2..<Suc floor_split]"
  have sorted: "sorted ?slides"
    unfolding sorted_map by (rule sorted_wrt_mono_rel [of _ "(\<le>)"]) (simp_all add: slide_mono del: upt_Suc)
  have slides: "2 \<le> s \<Longrightarrow> s \<in> set ?slides \<longleftrightarrow> s \<le> floor_split \<and> pair_safe mates s" for s
  proof
    assume "s \<in> set ?slides"
    then obtain x where "s = slide mates x" "x \<le> floor_split" by auto
    then show "s \<le> floor_split \<and> pair_safe mates s" using slide_le [of mates x] slide_safe [of mates x] by simp
  next
    assume s: "2 \<le> s" "s \<le> floor_split \<and> pair_safe mates s"
    then have "slide mates s = s" by (simp add: slide_fixed)
    with s show "s \<in> set ?slides" by (force simp del: upt_Suc)
  qed
  have some: "choose_split ms mates floor_split target counter = Some s \<longleftrightarrow>
      s \<in> set ?slides \<and> (2 \<le> s \<and> ?lands s) \<and> (\<forall>y \<in> set ?slides. 2 \<le> y \<and> ?lands y \<longrightarrow> s \<le> y)"
    unfolding choose_split_find by (rule find_sorted [OF sorted])
  have none: "choose_split ms mates floor_split target counter = None \<longleftrightarrow>
      (\<forall>y \<in> set ?slides. \<not> (2 \<le> y \<and> ?lands y))"
    unfolding choose_split_find find_None_iff by blast
  show ?thesis
    unfolding some none using slides by (auto simp: not_less simp del: set_map upt_Suc)
qed

theorem choose_split_largest_tail_witness:
  "choose_split sample_history (scan sample_history) 2 3 (\<lambda>ms. of_nat (length ms)) = None"
proof -
  have "\<not> pair_safe (scan sample_history) 2" by (simp add: pair_safe_def sample_scan)
  then have "\<forall>s. 2 \<le> s \<and> s \<le> 2 \<longrightarrow> \<not> pair_safe (scan sample_history) s" by (auto dest: order_antisym)
  then show ?thesis using choose_split_largest_tail [of sample_history "scan sample_history" 2 3] by blast
qed

text \<open>Where the messages of an output come from.\<close>

definition kept_from :: "'v message list \<Rightarrow> 'v message list \<Rightarrow> nat list \<Rightarrow> bool" where
  "kept_from ms out survivors \<longleftrightarrow> sorted survivors \<and>
     list_all2 (\<lambda>m i. i < length ms \<and> msg_role m = msg_role (ms ! i) \<and>
       subseq (msg_parts m) (msg_parts (ms ! i))) out survivors"

definition evicted_from :: "'v message list \<Rightarrow> nat list \<Rightarrow> 'v message list" where
  "evicted_from ms survivors = map ((!) ms) (filter (\<lambda>i. i \<notin> set survivors) [0..<length ms])"

lemma subseq_nths_self: "subseq (nths xs K) xs"
  by (auto simp: subseq_conv_nths)

lemma output_kept_from:
  assumes "well_blocked ms blocks"
  shows "kept_from ms (output_of ms mates blocks) (survivors_of ms mates blocks)"
proof -
  have "list_all2 (\<lambda>m i. i < length ms \<and> msg_role m = msg_role (ms ! i) \<and> subseq (msg_parts m) (msg_parts (ms ! i)))
      (filter (\<lambda>m. msg_parts m \<noteq> []) (map (block_message ms mates blocks) bs))
      (map snd (filter (\<lambda>b. block_parts ms mates blocks b \<noteq> []) bs))" if "\<forall>b \<in> set bs. snd b < length ms" for bs
    using that by (induction bs) (auto simp: block_message_def block_parts_def subseq_nths_self)
  moreover have "sorted (map snd (filter P bs))" if "sorted (map snd bs)" for P and bs :: "(bool \<times> nat) list"
    using that by (induction bs) auto
  ultimately show ?thesis using assms by (simp add: kept_from_def output_of_def survivors_of_def well_blocked_def)
qed

lemma evicted_eq: "evicted_complement ms surviving = evicted_from ms surviving"
proof -
  have "enumerate 0 ms = map (\<lambda>i. (i, ms ! i)) [0..<length ms]"
    by (rule nth_equalityI) (simp_all add: nth_enumerate_eq)
  then show ?thesis by (simp add: evicted_complement_def evicted_from_def filter_map comp_def)
qed

lemma kept_from_self: "kept_from ms ms [0..<length ms]" "evicted_from ms [0..<length ms] = []"
  by (simp_all add: kept_from_def evicted_from_def list_all2_conv_all_nth)

lemma unchanged_keeps_or_evicts:
  "\<exists>survivors. kept_from ms (oc_messages (unchanged json ms (scan ms) cx)) survivors \<and>
     oc_evicted (unchanged json ms (scan ms) cx) = evicted_from ms survivors"
proof (cases "all_parts_lone_results (scan ms)")
  case True
  then show ?thesis using kept_from_self [of ms]
    by (intro exI [of _ "[0..<length ms]"]) (simp add: unchanged_def no_change_def)
next
  case False
  let ?bs = "blocks_of [0..<length ms] 0"
  let ?out = "output_of ms (scan ms) ?bs" and ?sur = "survivors_of ms (scan ms) ?bs"
  have san: "sanitize_tool_parts ms [0..<length ms] (scan ms) 0 = (?out, ?sur)"
    using sanitize_blocks [of ms "[0..<length ms]" "scan ms" 0] by (simp add: map_nth)
  have kept: "kept_from ms ?out ?sur" by (rule output_kept_from [OF scanned.whole_blocks(2)])
  have all: "?sur = [0..<length ms]" if "length ?out = length ms"
  proof -
    have "length ?sur = length ?bs"
      using that kept by (auto simp: kept_from_def blocks_of_nth dest: list_all2_lengthD)
    then have "filter (\<lambda>b. block_parts ms (scan ms) ?bs b \<noteq> []) ?bs = ?bs"
      by (metis (no_types, lifting) filter_id_conv length_filter_less length_map less_irrefl survivors_of_def)
    then show ?thesis by (simp add: survivors_of_def)
  qed
  show ?thesis
  proof (intro exI [of _ ?sur] conjI)
    show "kept_from ms (oc_messages (unchanged json ms (scan ms) cx)) ?sur"
      using kept unchanged_messages [OF False] by metis
    show "oc_evicted (unchanged json ms (scan ms) cx) = evicted_from ms ?sur"
      using False san all kept_from_self(2) [of ms]
      by (auto simp: unchanged_def no_change_def Let_def evicted_eq)
  qed
qed

text \<open>
  C20: a pass loses nothing silently. There is an ascending list of indices such that the messages
  handed back, the pinned ones apart, are in order the messages of the history at these indices
  with at most some of their parts dropped, and the evicted messages are exactly those of the
  history at all other indices, whole and in order.
\<close>

theorem truncation_keeps_or_evicts:
  "\<exists>out survivors. kept_from ms out survivors \<and>
     oc_evicted (truncating_compact json c ms target cx) = evicted_from ms survivors \<and>
     oc_messages (truncating_compact json c ms target cx) \<in> {out, prepend_pinned out (cx_pinned cx)}"
proof (cases rule: truncating_cases [where json = json and c = c and ms = ms and t = target and cx = cx])
  case unchanged
  then show ?thesis using unchanged_keeps_or_evicts [of ms json cx] by (metis insertI1)
next
  case (cut split out)
  have "split \<le> length ms" "ms \<noteq> []" using chosen_split_Some(2) [OF cut(1)] cut(2) by auto
  then have "well_blocked ms (kept_blocks ms (pull_list ms target cx split) split)"
    using pull_list_facts(1,3) by (intro kept_blocks_facts(1)) blast+
  from output_kept_from [OF this] cut show ?thesis by (metis evicted_eq insertCI)
qed

subsection \<open>The size of the output\<close>

text \<open>
  A pass that does not pull the first message a second time only thins the history, so no
  monotone counter rises.
\<close>

lemma strictly_ascending_subseq:
  assumes "sorted is" and "distinct is" and "set is \<subseteq> {..<length ms}"
  shows "subseq (map ((!) ms) is) ms"
proof -
  have "set is = set (filter (\<lambda>i. i \<in> set is) [0..<length ms])" using assms(3) by auto
  then have "is = filter (\<lambda>i. i \<in> set is) [0..<length ms]"
    using assms(1,2) by (intro sorted_distinct_set_unique) (simp_all add: sorted_wrt_filter)
  then have "subseq is [0..<length ms]" by (metis subseq_filter_left)
  from subseq_map [OF this, of "(!) ms"] show ?thesis by (simp add: map_nth)
qed

lemma thinned_subseq:
  assumes "list_all2 (\<lambda>a b. msg_role a = msg_role b \<and> subseq (msg_parts a) (msg_parts b)) xs ys" and "subseq ys zs"
  shows "thinned xs zs"
proof -
  let ?thin = "\<lambda>a b :: 'a message. msg_role a = msg_role b \<and> subseq (msg_parts a) (msg_parts b)"
  have "list_emb ?thin xs ys" using assms(1) by (induction rule: list_all2_induct) auto
  moreover have "list_emb ?thin ys zs"
    using assms(2) by (rule list_emb_mono [rule_format, rotated]) auto
  ultimately show ?thesis unfolding thinned_def
    by (rule list_emb_trans [rotated]) (auto intro: subseq_order.trans)
qed

lemma kept_from_thinned:
  assumes "kept_from ms out survivors" and "distinct survivors"
  shows "thinned out ms"
proof (rule thinned_subseq)
  show "list_all2 (\<lambda>a b. msg_role a = msg_role b \<and> subseq (msg_parts a) (msg_parts b)) out (map ((!) ms) survivors)"
    using assms(1) unfolding kept_from_def list_all2_map2 by (auto elim: list_all2_mono)
  have "set survivors \<subseteq> {..<length ms}"
    using assms(1) by (auto simp: kept_from_def list_all2_conv_all_nth in_set_conv_nth)
  with assms show "subseq (map ((!) ms) survivors) ms"
    by (intro strictly_ascending_subseq) (simp_all add: kept_from_def)
qed

lemma distinct_survivors: "distinct (map snd blocks) \<Longrightarrow> distinct (survivors_of ms mates blocks)"
  unfolding survivors_of_def by (rule distinct_map_filter)

lemma mate_row:
  assumes "i < length ms" and "(part, Some (Paired m)) \<in> set (zip (msg_parts (ms ! i)) (scan ms ! i))" and "is_tool_result part"
  shows "\<exists>x q. ((m, q), x) \<in> set (occurrences ms) \<and> call_id_of x \<noteq> None"
proof -
  from assms(2) obtain p where p: "p < length (msg_parts (ms ! i))" "msg_parts (ms ! i) ! p = part"
    "scan ms ! i ! p = Some (Paired m)" by (auto simp: set_zip)
  then have occ: "((i, p), part) \<in> set (occurrences ms)" using assms(1) by (simp add: occurrences_set)
  obtain j where "result_id_of part = Some j" using assms(3) by (cases part) auto
  from scanned.result_mate [OF occ this] p scanned.mate_at_row [OF assms(1) p(1)]
  show ?thesis by (metis option.inject part_mate.distinct(3) part_mate.inject prod.collapse option.distinct(1))
qed

text \<open>A message without tool parts is never pulled over the cut.\<close>

lemma plain_not_pulled:
  assumes "j < length ms" and "tool_free [ms ! j]"
  shows "j \<notin> set (durable_pull_indices_within_budget ms split budget counter)"
proof -
  have free: "((j, q), x) \<in> set (occurrences ms) \<Longrightarrow> call_id_of x = None \<and> result_id_of x = None" for q x
    using assms by (auto simp: occurrences_set tool_free_def)
  have no_durable: "\<not> is_durable_result part" if "part \<in> set (msg_parts (ms ! j))" for part
  proof -
    have "result_id_of part = None" using that assms by (auto simp: tool_free_def)
    then show ?thesis by (cases part rule: is_durable_result.cases) auto
  qed
  have "j \<notin> set (fst (pull_within counter ms (scan ms) split i st))" if "j \<notin> set (fst st)" for i st
  proof -
    have "j \<notin> set (pulled_pair (ms ! i) (scan ms ! i) split i)"
      if "i < length ms" "\<exists>part \<in> set (msg_parts (ms ! i)). is_durable_result part"
    proof -
      have "i \<noteq> j" using that(2) no_durable by auto
      then show ?thesis using mate_row [OF that(1), of _ j] free unfolding set_pulled_pair by fastforce
    qed
    then show ?thesis using that by (cases st) (auto simp: pull_within_def Let_def)
  qed
  then have "j \<notin> set (fst (foldl (\<lambda>st i. pull_within counter ms (scan ms) split i st) st is))"
    if "j \<notin> set (fst st)" for st "is"
    using that by (induction "is" arbitrary: st) auto
  then show ?thesis by (simp add: durable_pull_indices_within_budget_def)
qed

lemma plain_row:
  assumes "j < length ms" and "tool_free [ms ! j]"
  shows "mate_at (scan ms) (j, p) = None"
proof (cases "p < length (msg_parts (ms ! j))")
  case True
  then have "((j, p), msg_parts (ms ! j) ! p) \<in> set (occurrences ms)" using assms(1) by (simp add: occurrences_set)
  moreover have "call_id_of (msg_parts (ms ! j) ! p) = None \<and> result_id_of (msg_parts (ms ! j) ! p) = None"
    using assms(2) True by (simp add: tool_free_def)
  ultimately show ?thesis by (blast intro: scanned.other_mate)
next
  case False
  then show ?thesis using assms(1) by (simp add: mate_at_def scanned.length_mates scanned.length_row)
qed

lemma pull_list_plain:
  assumes "ms \<noteq> []" and "tool_free [hd ms]" and "j < length ms" and "tool_free [ms ! j]"
  shows "j \<notin> set (pull_list ms t cx split)"
proof -
  have "m \<notin> set (first_message_dropped_result_indices (scan ms) split)" for m
  proof
    assume "m \<in> set (first_message_dropped_result_indices (scan ms) split)"
    then have "Some (Paired m) \<in> set (scan ms ! 0)" and "0 < length (scan ms)"
      by (auto simp: set_first_message_dropped split: list.splits)
    then obtain p where "p < length (scan ms ! 0)" "scan ms ! 0 ! p = Some (Paired m)"
      by (auto simp: in_set_conv_nth)
    then have "mate_at (scan ms) (0, p) = Some (Paired m)" using \<open>0 < length (scan ms)\<close> by (simp add: mate_at_def)
    then show False using plain_row [of 0 ms p] assms(1,2) by (simp add: hd_conv_nth)
  qed
  then show ?thesis using plain_not_pulled [OF assms(3,4)]
    by (simp add: pull_list_def Let_def pulled_indices_def set_foldl_push_new)
qed

lemma pull_list_no_first: "ms \<noteq> [] \<Longrightarrow> tool_free [hd ms] \<Longrightarrow> 0 \<notin> set (pull_list ms t cx split)"
  by (rule pull_list_plain) (simp_all add: hd_conv_nth)

lemma unchanged_thinned: "thinned (oc_messages (unchanged json ms (scan ms) cx)) ms"
proof (cases "all_parts_lone_results (scan ms)")
  case True
  have "thinned ms ms" unfolding thinned_def by (rule list_emb_refl) simp
  with True show ?thesis by (simp add: unchanged_def no_change_def)
next
  case False
  have "distinct (survivors_of ms (scan ms) (blocks_of [0..<length ms] 0))" by (rule distinct_survivors) simp
  from kept_from_thinned [OF output_kept_from [OF scanned.whole_blocks(2)] this]
  show ?thesis using unchanged_messages [OF False] by metis
qed

lemma truncation_thins:
  assumes "tool_free [hd ms]" and "cx_pinned cx = []"
  shows "thinned (oc_messages (truncating_compact json c ms target cx)) ms"
proof (cases rule: truncating_cases [where json = json and c = c and ms = ms and t = target and cx = cx])
  case unchanged
  then show ?thesis using unchanged_thinned by metis
next
  case (cut split out)
  let ?blocks = "kept_blocks ms (pull_list ms target cx split) split"
  have bound: "split \<le> length ms" "ms \<noteq> []" using chosen_split_Some(2) [OF cut(1)] cut(2) by auto
  have blocked: "well_blocked ms ?blocks"
    using pull_list_facts(1,3) bound by (intro kept_blocks_facts(1)) blast+
  have distinct: "distinct (map snd ?blocks)"
  proof -
    have "map snd ?blocks = 0 # pull_list ms target cx split @ [split..<length ms]"
      by (simp add: kept_blocks_def comp_def)
    moreover have "set (pull_list ms target cx split) \<inter> {split..<length ms} = {}"
      using pull_list_facts(3) by fastforce
    ultimately show ?thesis
      using pull_list_facts(2) pull_list_no_first [OF bound(2) assms(1)] chosen_split_Some(1) [OF cut(1)] by simp
  qed
  from kept_from_thinned [OF output_kept_from [OF blocked] distinct_survivors [OF distinct]] cut assms(2)
  show ?thesis by (simp add: prepend_pinned_def)
qed

context monotone_counter
begin

lemma truncation_shrinks:
  assumes "tool_free [hd ms]" and "cx_pinned cx = []" and "bounded ms"
  shows "counter (oc_messages (truncating_compact json c ms target cx)) \<le> counter ms"
  using count_thinned [OF truncation_thins [OF assms(1,2)] assms(3)] .

end

text \<open>
  Without pinned messages, a pass over a history whose first message carries no tool part never
  makes it larger for either counter of the crate: every message handed back is one of the history
  with at most some parts dropped, each at most once and in order. (The figures are compared
  where the characters of the history fit 64 bits.)
\<close>

theorem truncation_never_grows:
  assumes "tool_free [hd ms]" and "cx_pinned cx = []" and "in_range json ms"
  shows "thinned (oc_messages (truncating_compact json c ms target cx)) ms \<and>
    heuristic_count json (oc_messages (truncating_compact json c ms target cx)) \<le> heuristic_count json ms \<and>
    ratio_count json rc (oc_messages (truncating_compact json c ms target cx)) \<le> ratio_count json rc ms"
  using truncation_thins [OF assms(1,2)] heuristic.truncation_shrinks [OF assms] by_ratio.truncation_shrinks [OF assms]
  by simp

theorem truncation_never_grows_witness:
  "heuristic_count (\<lambda>_. []) (oc_messages (truncating_compact (\<lambda>_. []) (with_min_messages 2 new_truncating)
     sample_history 3 sample_context)) \<le> heuristic_count (\<lambda>_. []) sample_history"
proof -
  have "tool_free [hd sample_history]" by (simp add: sample_history_def tool_free_def user_message_def)
  moreover have "in_range (\<lambda>_. []) sample_history"
    by (simp add: in_range_def sample_history_def msg_size_def user_message_def assistant_message_def chars_len_def)
  ultimately show ?thesis
    using truncation_never_grows [of sample_history sample_context "\<lambda>_. []"]
    by (simp add: sample_context_def new_context_def)
qed

text \<open>
  The proviso on the first message is needed. When it carries a call whose result is durable and
  the result's message is cut off, the pair is pulled over the cut, the first message with it,
  although it is kept already: the history is handed back with its first message twice.
\<close>

definition receipts_history :: "unit message list" where
  "receipts_history =
     [\<lparr>msg_role = Assistant, msg_parts = [ToolCallPart ''a'' ''edit'' ()]\<rparr>,
      \<lparr>msg_role = User, msg_parts = [ToolResultPart ''a'' ''edit'' (TCText ''x'') None (Some Durable)]\<rparr>,
      assistant_message ''b'', user_message ''c'', assistant_message ''d'', user_message ''e'', assistant_message ''f'']"

lemma receipts_scan:
  "scan receipts_history = [[Some (Paired 1)], [Some (Paired 0)], [None], [None], [None], [None], [None]]"
  by (simp add: receipts_history_def scan_defs user_message_def assistant_message_def)

text \<open>
  A history that opens with a call whose durable result comes next, truncated to its last four
  messages at a target that leaves room, is handed back with its first message twice: the pair
  is pulled over the cut although the first message is kept already.
\<close>

theorem first_message_handed_back_twice:
  "oc_messages (truncating_compact (\<lambda>_. []) new_truncating receipts_history 7
     (new_context 7 Manual 10 1 (\<lambda>ms. of_nat (length ms)))) =
   [receipts_history ! 0, receipts_history ! 0, receipts_history ! 1] @ drop 3 receipts_history"
proof -
  let ?counter = "\<lambda>ms :: unit message list. (of_nat (length ms) :: u64)"
  let ?ms = receipts_history and ?mates = "[[Some (Paired (Suc 0))], [Some (Paired 0)], [None], [None], [None], [None], [None]]"
  note history = receipts_history_def assistant_message_def user_message_def
  note scan = receipts_scan [unfolded history]
  have len: "length ?ms = 7" by (simp add: history)
  have slide: "slide ?mates 2 = 2" "slide ?mates 3 = 3"
    by (simp_all add: slide_fixed pair_safe_def)
  have within: "durable_pull_indices_within_budget ?ms 2 2 ?counter = [0, 1]"
    "durable_pull_indices_within_budget ?ms 3 2 ?counter = [0, 1]"
    by (simp_all add: durable_pull_indices_within_budget_def scan pull_within_def history pulled_pair_def
        push_new_def sat_sub_def Let_def upt_rec)
  have first: "first_message_dropped_result_indices ?mates 2 = [1]" "first_message_dropped_result_indices ?mates 3 = [1]"
    by (simp_all add: first_message_dropped_result_indices_def)
  have all: "durable_pull_indices ?ms 3 = [0, 1]"
    by (simp add: durable_pull_indices_def scan history durable_mates_def push_new_def)
  have "tail_and_pulled_tokens ?ms ?mates 2 ?counter 7 4 = 7" "tail_and_pulled_tokens ?ms ?mates 3 ?counter 7 4 = 6"
    by (simp_all add: tail_and_pulled_tokens_def first_tokens_def tail_tokens_def history pulled_indices_def
        push_new_def get_messages_def sat_sub_def sat_add_def within [unfolded history] first)
  then have "split_lands ?ms ?mates 7 ?counter 4 2 = False" "split_lands ?ms ?mates 7 ?counter 4 3 = True"
    by (simp_all add: split_lands_def first_tokens_def history assemble_kept_def pulled_indices_def all [unfolded history]
        first push_new_def get_messages_def sat_add_def)
  then have "choose_split ?ms ?mates 3 7 ?counter = Some 3"
    by (simp add: choose_split_find slide tail_tokens_def history upt_rec)
  then have chosen: "chosen_split new_truncating ?ms 7 (new_context 7 Manual 10 1 ?counter) = Some 3"
    by (simp add: chosen_split_def receipts_scan new_truncating_def new_context_def sat_sub_def Let_def len)
  have pulled: "pull_list ?ms 7 (new_context 7 Manual 10 1 ?counter) 3 = [0, 1]"
    by (simp add: pull_list_def new_context_def sat_sub_def pulled_indices_def len first receipts_scan within push_new_def)
  have "kept_side ?ms 7 (new_context 7 Manual 10 1 ?counter) 3 =
      (output_of ?ms (scan ?ms) (kept_blocks ?ms [0, 1] 3), survivors_of ?ms (scan ?ms) (kept_blocks ?ms [0, 1] 3))"
    unfolding pulled [symmetric] by (rule kept_side_blocks) (simp_all add: len, simp add: history)
  moreover have "output_of ?ms (scan ?ms) (kept_blocks ?ms [0, 1] 3) =
      [?ms ! 0, ?ms ! 0, ?ms ! 1] @ drop 3 ?ms"
  proof -
    let ?blocks = "kept_blocks ?ms [0, 1] 3"
    have mate: "mate_at (scan ?ms) pos \<in> {None, Some (Paired 0), Some (Paired 1)}" for pos
      unfolding receipts_scan by (auto simp: mate_at_def nth_Cons less_Suc_eq split: nat.splits)
    have live: "0 \<in> snd ` set ?blocks" "1 \<in> snd ` set ?blocks" by (auto simp: kept_blocks_def)
    have "keep_part (scan ?ms) (snd ` set ?blocks) s k p" for s k p
      using mate [of "(k, p)"] unfolding insert_iff empty_iff keep_part_def
      by (elim disjE) (use live in \<open>simp_all only: option.case part_mate.case simp_thms if_cancel\<close>)
    then have "block_message ?ms (scan ?ms) ?blocks b = ?ms ! snd b" for b
      by (simp add: block_message_def block_parts_def nths_all)
    then have "output_of ?ms (scan ?ms) ?blocks = filter (\<lambda>m. msg_parts m \<noteq> []) (map (\<lambda>b. ?ms ! snd b) ?blocks)"
      by (simp add: output_of_def cong: map_cong)
    moreover have "map (\<lambda>b. ?ms ! snd b) ?blocks = [?ms ! 0, ?ms ! 0, ?ms ! 1] @ drop 3 ?ms"
      by (simp add: kept_blocks_def len upt_rec) (simp add: history)
    ultimately show ?thesis by (simp add: history)
  qed
  ultimately show ?thesis using chosen
    by (simp add: truncating_compact_def new_truncating_def new_context_def prepend_pinned_def len)
qed

subsection \<open>What the splitter guarantees\<close>

lemma boundary_from_spec:
  fixes t :: nat and ms :: "'v message list" and mates :: tool_pairing
  defines "walk \<equiv> \<lambda>t. boundary_from ms mates (rev [1..<Suc t])"
  shows "(at_role_transition ms (walk t best) \<and> pair_safe mates (walk t best) \<and> walk t best \<le> t \<and>
      (\<forall>i \<le> t. at_role_transition ms i \<and> pair_safe mates i \<longrightarrow> i \<le> walk t best)) \<or>
    ((\<forall>i \<le> t. at_role_transition ms i \<longrightarrow> \<not> pair_safe mates i) \<and> best \<le> walk t best \<and>
      (walk t best = best \<or> (\<exists>i \<le> t. at_role_transition ms i \<and> walk t best = slide mates i)) \<and>
      (\<forall>i \<le> t. at_role_transition ms i \<longrightarrow> slide mates i \<le> walk t best))"
proof (induction t arbitrary: best)
  case 0
  have "\<not> at_role_transition ms 0" by (simp add: at_role_transition_def)
  then show ?case by (simp add: walk_def)
next
  case (Suc t)
  have step: "walk (Suc t) best =
      (if at_role_transition ms (Suc t)
       then if pair_safe mates (Suc t) then Suc t else walk t (max best (slide mates (Suc t)))
       else walk t best)"
    by (simp add: walk_def Let_def slide_fixed)
  show ?case
    using Suc.IH [of best] Suc.IH [of "max best (slide mates (Suc t))"] unfolding step
    by (auto simp: le_Suc_eq max_def split: if_splits)
qed

lemma turn_boundary_safe:
  "pair_safe (scan ms) (find_turn_boundary ms target)" "find_turn_boundary ms target \<le> target"
proof -
  have "pair_safe (scan ms) (boundary_from ms (scan ms) (rev [1..<Suc target]) 0) \<and>
      boundary_from ms (scan ms) (rev [1..<Suc target]) 0 \<le> target"
    using boundary_from_spec [of ms "scan ms" target 0] slide_safe slide_le
    by (metis le_trans order_refl pair_safe_0 zero_le)
  then show "pair_safe (scan ms) (find_turn_boundary ms target)" "find_turn_boundary ms target \<le> target"
    by (simp_all add: find_turn_boundary_def del: upt_Suc)
qed

text \<open>
  The turn boundary found for a target is the latest one at or before it that no pair straddles;
  when every boundary there is straddled, it is the largest of the cuts these slide back to, and
  zero when there is no boundary at all. Either way no pair straddles it.
\<close>

theorem turn_boundary_latest_safe:
  "pair_safe (scan ms) (find_turn_boundary ms target) \<and> find_turn_boundary ms target \<le> target \<and>
   (if \<exists>i \<le> target. at_role_transition ms i \<and> pair_safe (scan ms) i
    then at_role_transition ms (find_turn_boundary ms target) \<and>
      (\<forall>i \<le> target. at_role_transition ms i \<and> pair_safe (scan ms) i \<longrightarrow> i \<le> find_turn_boundary ms target)
    else find_turn_boundary ms target = Max (insert 0 (slide (scan ms) ` {i. i \<le> target \<and> at_role_transition ms i})))"
proof (cases "target = 0")
  case True
  then have none: "slide (scan ms) ` {i. i \<le> target \<and> at_role_transition ms i} = {}"
    by (auto simp: at_role_transition_def)
  show ?thesis unfolding none using True by (auto simp: find_turn_boundary_def at_role_transition_def)
next
  case False
  let ?b = "find_turn_boundary ms target"
  let ?S = "slide (scan ms) ` {i. i \<le> target \<and> at_role_transition ms i}"
  have b: "?b = boundary_from ms (scan ms) (rev [1..<Suc target]) 0"
    using False by (simp add: find_turn_boundary_def del: upt_Suc)
  have safe: "pair_safe (scan ms) ?b \<and> ?b \<le> target" by (simp add: turn_boundary_safe)
  have "?b = Max (insert 0 ?S)" if "\<not> (\<exists>i \<le> target. at_role_transition ms i \<and> pair_safe (scan ms) i)"
    using boundary_from_spec [of ms "scan ms" target 0] that unfolding b [symmetric]
    by (intro Max_eqI [symmetric]) auto
  moreover have "at_role_transition ms ?b \<and> (\<forall>i \<le> target. at_role_transition ms i \<and> pair_safe (scan ms) i \<longrightarrow> i \<le> ?b)"
    if "\<exists>i \<le> target. at_role_transition ms i \<and> pair_safe (scan ms) i"
    using boundary_from_spec [of ms "scan ms" target 0] that unfolding b [symmetric] by blast
  ultimately show ?thesis using safe by simp
qed

theorem turn_boundary_latest_safe_witness: "find_turn_boundary sample_history 4 = 4"
proof -
  have "at_role_transition sample_history 4 \<and> pair_safe (scan sample_history) 4"
    unfolding sample_scan
    by (simp add: at_role_transition_def pair_safe_def sample_history_def user_message_def assistant_message_def)
  then show ?thesis using turn_boundary_latest_safe [of sample_history 4]
    by (metis (no_types, lifting) order_antisym order_refl)
qed

lemma splits_at_safe_points:
  "\<exists>split. pair_safe (scan ms) split \<and> split \<le> length ms - sp_preserve_recent s \<and>
     split_messages json s ms \<in> {split_result_at json ms split, (split_result_at json ms 0)\<lparr>compact_tokens := 0\<rparr>}"
proof (cases "length ms \<le> sp_min_messages s")
  case True
  then have "split_messages json s ms = (split_result_at json ms 0)\<lparr>compact_tokens := 0\<rparr>"
    by (simp add: split_messages_def whole_preserved_def split_result_at_def)
  then show ?thesis by (intro exI [of _ 0]) simp
next
  case False
  then show ?thesis
    using turn_boundary_safe [of ms "length ms - sp_preserve_recent s"]
    by (auto simp: split_messages_def)
qed

definition fits_budget :: "('v message list \<Rightarrow> u64) \<Rightarrow> u64 \<Rightarrow> 'v message list \<Rightarrow> nat \<Rightarrow> bool" where
  "fits_budget counter budget ms split \<longleftrightarrow>
     suffix_estimate counter ms split \<le> budget \<and> counter (drop split ms) \<le> budget"

definition cuts_from :: "'v message list \<Rightarrow> tool_pairing \<Rightarrow> nat list \<Rightarrow> nat list" where
  "cuts_from ms mates candidates =
     filter (\<lambda>s. s \<noteq> 0) (map (slide mates) (filter (at_role_transition ms) candidates))"

lemma budget_from_cuts:
  assumes "sorted candidates" and "\<forall>c \<in> set candidates. last_seen \<le> slide mates c"
    and "last_seen = 0 \<and> deepest = None \<or>
      deepest = Some last_seen \<and> last_seen \<noteq> 0 \<and> \<not> fits_budget counter budget ms last_seen"
  shows "budget_from ms mates budget counter candidates last_seen deepest =
    (case find (fits_budget counter budget ms) (cuts_from ms mates candidates) of
       Some s \<Rightarrow> Some s
     | None \<Rightarrow> if cuts_from ms mates candidates = [] then deepest else Some (last (cuts_from ms mates candidates)))"
  using assms
proof (induction candidates arbitrary: last_seen deepest)
  case (Cons c cs)
  show ?case
  proof (cases "at_role_transition ms c \<and> slide mates c \<noteq> last_seen")
    case True
    have later: "\<forall>c' \<in> set cs. slide mates c \<le> slide mates c'" using Cons.prems(1) by (auto intro: slide_mono)
    have "slide mates c \<noteq> 0" using True Cons.prems(2) by auto
    then show ?thesis
      using True Cons.IH [of "slide mates c" "Some (slide mates c)"] Cons.prems(1) later
      by (auto simp: cuts_from_def fits_budget_def Let_def split: option.splits)
  next
    case False
    then have "budget_from ms mates budget counter (c # cs) last_seen deepest =
        budget_from ms mates budget counter cs last_seen deepest" by (auto simp: Let_def)
    moreover have "cuts_from ms mates (c # cs) = cuts_from ms mates cs \<or>
        cuts_from ms mates (c # cs) = last_seen # cuts_from ms mates cs \<and> last_seen \<noteq> 0"
      using False by (auto simp: cuts_from_def)
    ultimately show ?thesis
      using Cons.IH [of last_seen deepest] Cons.prems by (auto split: option.splits)
  qed
qed (auto simp: cuts_from_def)

text \<open>The cuts within reach: what the boundaries at or before a target slide to, zero left out.\<close>

definition reachable_cuts :: "'v message list \<Rightarrow> nat \<Rightarrow> nat set" where
  "reachable_cuts ms target = slide (scan ms) ` {i. i \<le> target \<and> at_role_transition ms i} - {0}"

lemma cuts_from_set: "set (cuts_from ms (scan ms) [1..<Suc target]) = reachable_cuts ms target"
proof -
  have "set (filter (at_role_transition ms) [1..<Suc target]) = {i. i \<le> target \<and> at_role_transition ms i}"
    by (auto simp: at_role_transition_def simp del: upt_Suc)
  then show ?thesis
    by (simp add: cuts_from_def reachable_cuts_def set_diff_eq Collect_conj_eq [symmetric] del: upt_Suc)
qed

lemma cuts_from_sorted: "sorted (cuts_from ms mates [1..<Suc target])"
proof -
  have "sorted (filter P xs)" if "sorted xs" for P and xs :: "nat list" using that by (simp add: sorted_wrt_filter)
  moreover have "sorted (map (slide mates) xs)" if "sorted xs" for xs
    using that unfolding sorted_map by (rule sorted_wrt_mono_rel [rotated]) (simp add: slide_mono)
  ultimately show ?thesis unfolding cuts_from_def by (metis sorted_upt)
qed

lemma sorted_le_last: "sorted xs \<Longrightarrow> x \<in> set xs \<Longrightarrow> x \<le> last xs"
  for xs :: "nat list"
  by (induction xs) auto

lemma sorted_last_Max: "sorted xs \<Longrightarrow> xs \<noteq> [] \<Longrightarrow> Max (set xs) = last xs"
  for xs :: "nat list"
  by (rule Max_eqI) (simp_all add: sorted_le_last)

lemma budget_walk:
  "budget_from ms (scan ms) budget counter [1..<Suc target] 0 None =
     (if reachable_cuts ms target = {} then None
      else if \<exists>s \<in> reachable_cuts ms target. fits_budget counter budget ms s
      then Some (Min {s \<in> reachable_cuts ms target. fits_budget counter budget ms s})
      else Some (Max (reachable_cuts ms target)))"
proof -
  let ?cuts = "cuts_from ms (scan ms) [1..<Suc target]"
  note spec = budget_from_cuts [of "[1..<Suc target]" 0 "scan ms" None counter budget ms]
  have "budget_from ms (scan ms) budget counter [1..<Suc target] 0 None =
      (case find (fits_budget counter budget ms) ?cuts of Some s \<Rightarrow> Some s
       | None \<Rightarrow> if ?cuts = [] then None else Some (last ?cuts))"
    by (rule spec) (simp_all del: upt_Suc)
  note walk = this
  have finite: "finite (reachable_cuts ms target)"
    unfolding cuts_from_set [symmetric] by (rule List.finite_set)
  show ?thesis
  proof (cases "find (fits_budget counter budget ms) ?cuts")
    case None
    then have "\<not> (\<exists>s \<in> reachable_cuts ms target. fits_budget counter budget ms s)"
      unfolding find_None_iff cuts_from_set by blast
    moreover have "?cuts = [] \<longleftrightarrow> reachable_cuts ms target = {}"
      unfolding cuts_from_set [symmetric] by (rule set_empty [symmetric])
    moreover have "?cuts \<noteq> [] \<Longrightarrow> Max (reachable_cuts ms target) = last ?cuts"
      unfolding cuts_from_set [symmetric] by (rule sorted_last_Max [OF cuts_from_sorted])
    ultimately show ?thesis using walk None by (simp del: upt_Suc)
  next
    case (Some s)
    then have s: "s \<in> reachable_cuts ms target" "fits_budget counter budget ms s"
      "\<forall>y \<in> reachable_cuts ms target. fits_budget counter budget ms y \<longrightarrow> s \<le> y"
      unfolding find_sorted [OF cuts_from_sorted] cuts_from_set by blast+
    then have "Min {s \<in> reachable_cuts ms target. fits_budget counter budget ms s} = s"
      by (intro Min_eqI) (use finite in auto)
    moreover have "reachable_cuts ms target \<noteq> {}" "\<exists>s \<in> reachable_cuts ms target. fits_budget counter budget ms s"
      using s by blast+
    ultimately show ?thesis using walk Some by (simp del: upt_Suc)
  qed
qed

lemma reachable_cuts_safe: "s \<in> insert 0 (reachable_cuts ms target) \<Longrightarrow> pair_safe (scan ms) s \<and> s \<le> target"
  unfolding reachable_cuts_def by (elim insertE DiffE imageE) (auto simp: slide_safe intro: order_trans [OF slide_le])

lemma reachable_cuts_finite: "finite (reachable_cuts ms target)"
  unfolding cuts_from_set [symmetric] by (rule List.finite_set)

lemma no_reachable_cut:
  assumes "reachable_cuts ms target = {}"
  shows "find_turn_boundary ms target = 0"
proof -
  have "slide (scan ms) i = 0" if "i \<le> target" "at_role_transition ms i" for i
    using assms that by (auto simp: reachable_cuts_def)
  then have slides: "\<forall>i. i \<le> target \<and> at_role_transition ms i \<longrightarrow> slide (scan ms) i = 0" by blast
  have "boundary_from ms (scan ms) (rev [1..<Suc target]) 0 = 0"
    using boundary_from_spec [of ms "scan ms" target 0]
  proof (elim disjE conjE)
    assume "at_role_transition ms (boundary_from ms (scan ms) (rev [1..<Suc target]) 0)"
      "pair_safe (scan ms) (boundary_from ms (scan ms) (rev [1..<Suc target]) 0)"
      "boundary_from ms (scan ms) (rev [1..<Suc target]) 0 \<le> target"
    then show ?thesis using slides slide_fixed by metis
  next
    assume "\<exists>i \<le> target. at_role_transition ms i \<and>
        boundary_from ms (scan ms) (rev [1..<Suc target]) 0 = slide (scan ms) i"
    then show ?thesis using slides by metis
  qed
  then show ?thesis by (simp add: find_turn_boundary_def del: upt_Suc)
qed

text \<open>The cut to expect: the earliest within reach that fits, else the latest, else none at all.\<close>

definition budget_cut :: "('v message list \<Rightarrow> u64) \<Rightarrow> u64 \<Rightarrow> 'v message list \<Rightarrow> nat \<Rightarrow> nat" where
  "budget_cut counter budget ms target =
     (if \<exists>c \<in> reachable_cuts ms target. fits_budget counter budget ms c
      then Min {c \<in> reachable_cuts ms target. fits_budget counter budget ms c}
      else Max (insert 0 (reachable_cuts ms target)))"

lemma budget_cut_in: "budget_cut counter budget ms target \<in> insert 0 (reachable_cuts ms target)"
proof (cases "\<exists>c \<in> reachable_cuts ms target. fits_budget counter budget ms c")
  case True
  then have "Min {c \<in> reachable_cuts ms target. fits_budget counter budget ms c}
      \<in> {c \<in> reachable_cuts ms target. fits_budget counter budget ms c}"
    by (intro Min_in) (auto simp: reachable_cuts_finite)
  then show ?thesis using True by (simp add: budget_cut_def)
next
  case False
  have "Max (insert 0 (reachable_cuts ms target)) \<in> insert 0 (reachable_cuts ms target)"
    by (rule Max_in) (auto simp: reachable_cuts_finite)
  then show ?thesis using False by (simp add: budget_cut_def)
qed

text \<open>
  The splitter under a budget preserves the most that fits. Among the turn boundaries at or
  before the target, slid to points no pair straddles, it takes the earliest whose tail fits, by
  the sum of its messages and by the counter on the tail as a whole; where none fits it falls back
  to the latest, and where there is none it preserves the whole history. What it takes never
  straddles a pair and always leaves the messages to preserve.
\<close>

theorem budget_split_preserves_most:
  fixes counter :: "'v message list \<Rightarrow> u64"
  assumes "sp_min_messages s < length ms"
  defines "target \<equiv> length ms - sp_preserve_recent s"
  shows "split_within_budget json s ms budget counter = split_result_at json ms (budget_cut counter budget ms target) \<and>
    pair_safe (scan ms) (budget_cut counter budget ms target) \<and> budget_cut counter budget ms target \<le> target"
proof -
  have "target = 0 \<Longrightarrow> reachable_cuts ms target = {}" by (auto simp: reachable_cuts_def at_role_transition_def)
  moreover have "Max (insert 0 (reachable_cuts ms target)) =
      (if reachable_cuts ms target = {} then 0 else Max (reachable_cuts ms target))"
    by (simp add: reachable_cuts_finite)
  moreover note budget_walk [of ms budget counter target] no_reachable_cut [of ms target] assms(1)
  ultimately have "split_within_budget json s ms budget counter =
      split_result_at json ms (budget_cut counter budget ms target)"
    by (simp add: split_within_budget_def split_messages_def budget_cut_def Let_def target_def
        find_turn_boundary_def [of _ 0] del: upt_Suc)
  then show ?thesis using reachable_cuts_safe [OF budget_cut_in] by blast
qed

text \<open>The boundary inside a pair slides to the call, and the four messages from there on fit.\<close>

theorem budget_split_preserves_most_witness:
  "preserved_tail (split_within_budget (\<lambda>_. []) (splitter_min_messages 2 (splitter_preserve_recent 1 new_splitter))
     sample_history 4 (\<lambda>ms. of_nat (length ms))) = drop 1 sample_history"
proof -
  let ?counter = "\<lambda>ms :: unit message list. of_nat (length ms) :: u64"
  let ?s = "splitter_min_messages 2 (splitter_preserve_recent 1 new_splitter)"
  have transition: "at_role_transition sample_history i \<longleftrightarrow> i \<in> {2, 4}" for i
  proof (cases "i < 5")
    case True
    then have "i \<in> {0, 1, 2, 3, 4}" by auto
    then show ?thesis
      by (auto simp: at_role_transition_def sample_history_def user_message_def assistant_message_def)
  qed (auto simp: at_role_transition_def sample_history_def)
  have safe: "pair_safe (scan sample_history) i" if "i \<in> {1, 4}" for i
    using that unfolding sample_scan by (auto simp: pair_safe_def)
  have "adjusted_split (scan sample_history) 2 = 1" unfolding sample_scan by (simp add: adjusted_split_def)
  then have "slide (scan sample_history) 2 = 1"
    using safe [of 1] by (subst slide.simps) (simp add: slide_fixed)
  moreover have "slide (scan sample_history) 4 = 4" using safe [of 4] by (simp add: slide_fixed)
  moreover have "{i. i \<le> 4 \<and> i \<in> {2, 4}} = {2, 4 :: nat}" by auto
  ultimately have cuts: "reachable_cuts sample_history 4 = {1, 4}"
    unfolding reachable_cuts_def transition by simp
  have "fits_budget ?counter 4 sample_history 1"
    unfolding fits_budget_def suffix_estimate_def sample_history_def by (simp, simp add: sat_add_def)
  moreover have "fits_budget ?counter 4 sample_history 4"
    unfolding fits_budget_def suffix_estimate_def sample_history_def by (simp, simp add: sat_add_def)
  ultimately have "{c \<in> {1, 4}. fits_budget ?counter 4 sample_history c} = {1, 4}" by blast
  then have "budget_cut ?counter 4 sample_history 4 = 1" unfolding budget_cut_def cuts by auto
  moreover have "length sample_history - sp_preserve_recent ?s = 4" "sp_min_messages ?s < length sample_history"
    by (simp_all add: new_splitter_def splitter_preserve_recent_def splitter_min_messages_def sample_history_def)
  ultimately show ?thesis
    using budget_split_preserves_most [of ?s sample_history "\<lambda>_. []" 4 ?counter]
    by (simp add: split_result_at_def)
qed

end
