(* ===== verification/Context_Manager.thy ===== *)
theory Context_Manager
  imports Truncating Numeric "HOL-Library.AList" "HOL-Library.Multiset"
begin

section \<open>The context manager\<close>

text \<open>
  src/src/compact.rs, the manager that decides when a conversation is compacted and holds the
  result to the window: its thresholds, the pinned messages it keeps for the host, a pass on a
  threshold or on request, the backstop that puts lost pins back, and the figures it reports. The
  compactor and the token counter are the trait objects of the record; \<open>Truncating\<close> and
  \<open>Token_Count\<close> provide the ones modelled. The lock of the pins recovers from poisoning, so the pins
  are a plain list. Floats are rationals with the rounding of the divisions as an argument.
\<close>

datatype compact_base = ContextBase | ThresholdBase

record compact_sizing =
  reserved_tokens :: u64
  target_override :: "u64 option"

definition default_sizing :: compact_sizing where
  "default_sizing = \<lparr>reserved_tokens = 0, target_override = None\<rparr>"

definition reserving :: "u64 \<Rightarrow> compact_sizing" where
  "reserving reserved = \<lparr>reserved_tokens = reserved, target_override = None\<rparr>"

type_synonym 'v compactor = "'v message list \<Rightarrow> u64 \<Rightarrow> 'v compaction_context \<Rightarrow> 'v compaction_outcome"

record 'v context_manager =
  cm_compactor :: "'v compactor"
  cm_window :: u64
  cm_threshold :: u8
  cm_auto_compact :: bool
  cm_base :: compact_base
  cm_target :: u8
  cm_counter :: "'v message list \<Rightarrow> u64"
  cm_pins :: "(string \<times> 'v message) list"

definition new_manager :: "('v \<Rightarrow> string) \<Rightarrow> 'v compactor \<Rightarrow> 'v context_manager" where
  "new_manager json compactor =
     \<lparr>cm_compactor = compactor, cm_window = 200000, cm_threshold = 80, cm_auto_compact = True,
      cm_base = ThresholdBase, cm_target = 15, cm_counter = heuristic_count json, cm_pins = []\<rparr>"

subsection \<open>Configuration\<close>

definition clamp :: "'a::linorder \<Rightarrow> 'a \<Rightarrow> 'a \<Rightarrow> 'a" where
  "clamp lo hi x = (if x < lo then lo else if hi < x then hi else x)"

definition with_token_counter :: "('v message list \<Rightarrow> u64) \<Rightarrow> 'v context_manager \<Rightarrow> 'v context_manager" where
  "with_token_counter counter cm = cm\<lparr>cm_counter := counter\<rparr>"

definition with_context_window :: "u64 \<Rightarrow> 'v context_manager \<Rightarrow> 'v context_manager" where
  "with_context_window tokens cm = cm\<lparr>cm_window := tokens\<rparr>"

definition with_threshold :: "u8 \<Rightarrow> 'v context_manager \<Rightarrow> 'v context_manager" where
  "with_threshold threshold cm = cm\<lparr>cm_threshold := clamp 1 100 threshold\<rparr>"

definition with_auto_compact :: "bool \<Rightarrow> 'v context_manager \<Rightarrow> 'v context_manager" where
  "with_auto_compact enabled cm = cm\<lparr>cm_auto_compact := enabled\<rparr>"

definition with_compact_target :: "compact_base \<Rightarrow> 'v context_manager \<Rightarrow> 'v context_manager" where
  "with_compact_target base cm = cm\<lparr>cm_base := base\<rparr>"

definition with_compact_target_pct :: "u8 \<Rightarrow> 'v context_manager \<Rightarrow> 'v context_manager" where
  "with_compact_target_pct pct cm = cm\<lparr>cm_target := clamp 1 100 pct\<rparr>"

subsection \<open>Lines\<close>

definition compact_threshold_tokens :: "'v context_manager \<Rightarrow> u64" where
  "compact_threshold_tokens cm = sat_mul (cm_window cm) (ucast (cm_threshold cm)) div 100"

definition compact_target_tokens :: "'v context_manager \<Rightarrow> u64" where
  "compact_target_tokens cm =
     (let base = (case cm_base cm of ThresholdBase \<Rightarrow> compact_threshold_tokens cm | ContextBase \<Rightarrow> cm_window cm)
      in sat_mul base (ucast (cm_target cm)) div 100)"

definition estimate_tokens :: "'v context_manager \<Rightarrow> 'v message list \<Rightarrow> u64" where
  "estimate_tokens cm ms = cm_counter cm ms"

definition emergency_line :: "'v context_manager \<Rightarrow> u64" where
  "emergency_line cm = sat_mul (cm_window cm) 19 div 20"

definition cm_is_emergency :: "'v context_manager \<Rightarrow> u64 \<Rightarrow> bool" where
  "cm_is_emergency cm used \<longleftrightarrow> used \<ge> emergency_line cm"

definition cm_should_compact :: "'v context_manager \<Rightarrow> u64 \<Rightarrow> bool" where
  "cm_should_compact cm used =
     (if \<not> cm_auto_compact cm then False
      else used \<ge> compact_threshold_tokens cm \<or> cm_is_emergency cm used)"

definition cm_compact_reason :: "'v context_manager \<Rightarrow> u64 \<Rightarrow> compact_reason" where
  "cm_compact_reason cm used = (if cm_is_emergency cm used then Emergency else ThresholdExceeded)"

subsection \<open>Pins\<close>

text \<open>
  The debug form of a text: between double quotes, the quote, the backslash and the control
  characters of ASCII escaped.
\<close>

definition hex_digit :: "nat \<Rightarrow> char" where
  "hex_digit d = (if d < 10 then digit_char d else char_of (87 + d))"

definition debug_char :: "char \<Rightarrow> string" where
  "debug_char c =
     (let code = of_char c :: nat in
      if c = CHR 0x22 then [CHR 0x5C, CHR 0x22] else if c = CHR 0x5C then [CHR 0x5C, CHR 0x5C]
      else if code = 0 then [CHR 0x5C, CHR ''0''] else if code = 9 then [CHR 0x5C, CHR ''t'']
      else if code = 10 then [CHR 0x5C, CHR ''n''] else if code = 13 then [CHR 0x5C, CHR ''r'']
      else if code < 32 \<or> code = 127
      then [CHR 0x5C, CHR ''u'', CHR 0x7B] @ (if code < 16 then [] else [hex_digit (code div 16)]) @
           [hex_digit (code mod 16), CHR 0x7D]
      else [c])"

definition debug_text :: "string \<Rightarrow> string" where
  "debug_text s = [CHR 0x22] @ concat (map debug_char s) @ [CHR 0x22]"

definition em_dash :: string where
  "em_dash = [CHR 0x20, CHR 0xE2, CHR 0x80, CHR 0x94, CHR 0x20]"

definition sized_pins :: "string \<Rightarrow> 'v message \<Rightarrow> (string \<times> 'v message) list \<Rightarrow> 'v message list" where
  "sized_pins pin message pins = map snd (filter (\<lambda>(existing, _). existing \<noteq> pin) pins) @ [message]"

definition place_pin :: "string \<Rightarrow> 'v message \<Rightarrow> (string \<times> 'v message) list \<Rightarrow> (string \<times> 'v message) list" where
  "place_pin pin message pins =
     (case position (\<lambda>(existing, _). existing = pin) pins of
        Some index \<Rightarrow> pins[index := (pin, message)]
      | None \<Rightarrow> pins @ [(pin, message)])"

definition set_pin :: "string \<Rightarrow> string \<Rightarrow> 'v context_manager \<Rightarrow> loop_error + 'v context_manager" where
  "set_pin pin text cm =
     (if trim pin = [] then Inl (InvalidInput ''a pin id must be a non-empty label'')
      else if trim text = []
      then Inl (InvalidInput (''pin '' @ debug_text pin @ '' carries no content'' @ em_dash @
                              ''an empty pin cannot survive a pass''))
      else
        (let message = user_message text;
             total = cm_counter cm (sized_pins pin message (cm_pins cm));
             target = compact_target_tokens cm
         in if target \<noteq> 0 \<and> total > target
            then Inl (InvalidInput (''the pin set would count '' @ show_nat (unat total) @
                 '' tokens against the compaction target of '' @ show_nat (unat target) @ em_dash @
                 ''pin less content or raise the target''))
            else Inr (cm\<lparr>cm_pins := place_pin pin message (cm_pins cm)\<rparr>)))"

definition with_pin :: "string \<Rightarrow> string \<Rightarrow> 'v context_manager \<Rightarrow> loop_error + 'v context_manager" where
  "with_pin pin text cm = (case set_pin pin text cm of Inl e \<Rightarrow> Inl e | Inr cm' \<Rightarrow> Inr cm')"

definition remove_pin :: "string \<Rightarrow> 'v context_manager \<Rightarrow> 'v context_manager" where
  "remove_pin pin cm = cm\<lparr>cm_pins := filter (\<lambda>(existing, _). existing \<noteq> pin) (cm_pins cm)\<rparr>"

definition pinned_messages :: "'v context_manager \<Rightarrow> 'v message list" where
  "pinned_messages cm = map snd (cm_pins cm)"

subsection \<open>Passes\<close>

text \<open>Whether an outcome carries a pin: a message of its role with its exact text.\<close>

definition carries :: "'v message list \<Rightarrow> 'v message \<Rightarrow> bool" where
  "carries ms pin \<longleftrightarrow> (\<exists>m \<in> set ms. msg_role m = msg_role pin \<and> text_content m = text_content pin)"

definition insert_all :: "nat \<Rightarrow> 'v message list \<Rightarrow> 'v message list \<Rightarrow> 'v message list" where
  "insert_all pos missing ms = take pos ms @ missing @ drop pos ms"

definition backstop_pins :: "'v context_manager \<Rightarrow> 'v compaction_outcome \<Rightarrow> nat \<times> 'v compaction_outcome" where
  "backstop_pins cm oc =
     (if cm_pins cm = [] then (0, oc)
      else
        (let missing = filter (\<lambda>pin. \<not> carries (oc_messages oc) pin) (map snd (cm_pins cm)) in
         if missing = [] then (0, oc)
         else (length missing, oc\<lparr>oc_messages := insert_all (pin_position (oc_messages oc)) missing (oc_messages oc)\<rparr>)))"

definition settle_pass :: "nat \<Rightarrow> u64 \<Rightarrow> u64 \<Rightarrow> 'v compaction_outcome \<Rightarrow> 'v ensure_context_result" where
  "settle_pass message_count tokens_before tokens_after oc =
     (if length (oc_messages oc) = message_count \<and> tokens_after \<ge> tokens_before
      then NoAction (oc_messages oc)
      else Compacted (oc\<lparr>oc_tokens_after := tokens_after, oc_tokens_saved := sat_sub tokens_before tokens_after\<rparr>))"

definition ensure_context_fits ::
  "'v context_manager \<Rightarrow> 'v message list \<Rightarrow> nat \<Rightarrow> context_overflow + 'v ensure_context_result" where
  "ensure_context_fits cm ms turn =
     (let tokens_before = estimate_tokens cm ms in
      if \<not> cm_should_compact cm tokens_before then Inr (NoAction ms)
      else
        (let reason = cm_compact_reason cm tokens_before;
             context = \<lparr>cx_tokens_before = tokens_before, cx_reason = reason, cx_window = cm_window cm,
               cx_turn = turn, cx_counter = cm_counter cm, cx_instructions = None, cx_additional = [],
               cx_pinned = pinned_messages cm\<rparr>;
             oc = cm_compactor cm ms (compact_target_tokens cm) context
         in if \<not> oc_success oc
            then Inl \<lparr>ov_tokens_used = tokens_before, ov_context_window = cm_window cm,
                      ov_message_count = length ms, ov_trigger = reason, ov_compactor_error = oc_error oc\<rparr>
            else
              (let oc = snd (backstop_pins cm oc);
                   tokens_after = estimate_tokens cm (oc_messages oc)
               in if tokens_after > cm_window cm
                  then Inl \<lparr>ov_tokens_used = tokens_after, ov_context_window = cm_window cm,
                            ov_message_count = length (oc_messages oc), ov_trigger = Emergency,
                            ov_compactor_error = Some ''compactor failed to reduce context below window''\<rparr>
                  else Inr (settle_pass (length ms) tokens_before tokens_after oc))))"

definition compact_with_reason ::
  "'v context_manager \<Rightarrow> 'v message list \<Rightarrow> nat \<Rightarrow> compact_reason \<Rightarrow> string option \<Rightarrow> string list \<Rightarrow> compact_sizing \<Rightarrow>
     context_overflow + 'v ensure_context_result" where
  "compact_with_reason cm ms turn reason instructions additional sizing =
     (let tokens_before = estimate_tokens cm ms in
      if ms = [] then Inr (NoAction ms)
      else
        (let reserved = reserved_tokens sizing;
             target = (case target_override sizing of Some t \<Rightarrow> t | None \<Rightarrow> compact_target_tokens cm);
             context = \<lparr>cx_tokens_before = tokens_before, cx_reason = reason, cx_window = cm_window cm,
               cx_turn = turn, cx_counter = cm_counter cm, cx_instructions = instructions,
               cx_additional = additional, cx_pinned = pinned_messages cm\<rparr>;
             oc = cm_compactor cm ms target context
         in if \<not> oc_success oc
            then Inl \<lparr>ov_tokens_used = sat_add tokens_before reserved, ov_context_window = cm_window cm,
                      ov_message_count = length ms, ov_trigger = reason, ov_compactor_error = oc_error oc\<rparr>
            else
              (let oc = snd (backstop_pins cm oc);
                   tokens_after = estimate_tokens cm (oc_messages oc)
               in if tokens_after > sat_sub (cm_window cm) reserved
                  then Inl \<lparr>ov_tokens_used = sat_add tokens_after reserved, ov_context_window = cm_window cm,
                            ov_message_count = length ms, ov_trigger = reason, ov_compactor_error = None\<rparr>
                  else Inr (settle_pass (length ms) tokens_before tokens_after oc))))"

definition manager_compact_manual ::
  "'v context_manager \<Rightarrow> 'v message list \<Rightarrow> nat \<Rightarrow> context_overflow + 'v ensure_context_result" where
  "manager_compact_manual cm ms turn = compact_with_reason cm ms turn Manual None [] default_sizing"

subsection \<open>Figures\<close>

text \<open>
  What a pass reports. The two averages and ratios are quotients of counts, an infinite ratio is
  \<open>None\<close>; \<open>rnd\<close> is the rounding of a float operation.
\<close>

record pre_compact_stats =
  pre_total_messages :: nat
  pre_estimated_tokens :: u64
  pre_user_messages :: nat
  pre_assistant_messages :: nat
  pre_tool_messages :: nat
  pre_user_tokens :: u64
  pre_assistant_tokens :: u64
  pre_density :: rat

record post_compact_stats =
  post_total_messages :: nat
  post_estimated_tokens :: u64
  post_tokens_saved :: u64
  post_percent_saved :: u8
  post_user_messages :: nat
  post_assistant_messages :: nat
  post_tool_messages :: nat
  post_user_tokens :: u64
  post_assistant_tokens :: u64
  post_density :: rat

record compact_telemetry =
  ct_trigger :: compact_reason
  ct_pre :: pre_compact_stats
  ct_post :: post_compact_stats
  ct_duration :: duration
  ct_compression_ratio :: "rat option"
  ct_headroom :: rat
  ct_compactor_name :: "string option"

definition count_messages :: "('v message \<Rightarrow> bool) \<Rightarrow> 'v message list \<Rightarrow> nat" where
  "count_messages P ms = length (filter P ms)"

definition is_tool_message :: "'v message \<Rightarrow> bool" where
  "is_tool_message m \<longleftrightarrow> (\<exists>p \<in> set (msg_parts m). is_tool_call p \<or> is_tool_result p)"

definition estimate_role_tokens :: "('v \<Rightarrow> string) \<Rightarrow> 'v message list \<Rightarrow> role \<Rightarrow> u64" where
  "estimate_role_tokens json ms r = heuristic_count json (filter (\<lambda>m. msg_role m = r) ms)"

definition tokens_per_message :: "(rat \<Rightarrow> rat) \<Rightarrow> u64 \<Rightarrow> nat \<Rightarrow> rat" where
  "tokens_per_message rnd tokens messages = unit_ratio rnd 32 (unat tokens) messages"

definition percent_saved :: "u64 \<Rightarrow> u64 \<Rightarrow> u8" where
  "percent_saved saved before =
     (case checked_mul saved 100 of
        None \<Rightarrow> 0
      | Some scaled \<Rightarrow> if before = 0 then 0 else ucast (min (scaled div before) 100))"

definition build_telemetry_with_duration ::
  "(rat \<Rightarrow> rat) \<Rightarrow> ('v \<Rightarrow> string) \<Rightarrow> 'v context_manager \<Rightarrow> compact_reason \<Rightarrow> 'v message list \<Rightarrow> 'v message list \<Rightarrow>
     string option \<Rightarrow> duration \<Rightarrow> compact_telemetry" where
  "build_telemetry_with_duration rnd json cm trigger pre post name duration =
     (let pre_tokens = heuristic_count json pre;
          post_tokens = heuristic_count json post;
          saved = sat_sub pre_tokens post_tokens;
          pre_user = estimate_role_tokens json pre User;
          post_user = estimate_role_tokens json post User
      in \<lparr>ct_trigger = trigger,
          ct_pre = \<lparr>pre_total_messages = length pre, pre_estimated_tokens = pre_tokens,
            pre_user_messages = count_messages (\<lambda>m. msg_role m = User) pre,
            pre_assistant_messages = count_messages (\<lambda>m. msg_role m = Assistant) pre,
            pre_tool_messages = count_messages is_tool_message pre, pre_user_tokens = pre_user,
            pre_assistant_tokens = sat_sub pre_tokens pre_user,
            pre_density = tokens_per_message rnd pre_tokens (length pre)\<rparr>,
          ct_post = \<lparr>post_total_messages = length post, post_estimated_tokens = post_tokens,
            post_tokens_saved = saved, post_percent_saved = percent_saved saved pre_tokens,
            post_user_messages = count_messages (\<lambda>m. msg_role m = User) post,
            post_assistant_messages = count_messages (\<lambda>m. msg_role m = Assistant) post,
            post_tool_messages = count_messages is_tool_message post, post_user_tokens = post_user,
            post_assistant_tokens = sat_sub post_tokens post_user,
            post_density = tokens_per_message rnd post_tokens (length post)\<rparr>,
          ct_duration = duration,
          ct_compression_ratio =
            (if post_tokens = 0 then None else Some (unit_ratio rnd 32 (unat pre_tokens) (unat post_tokens))),
          ct_headroom =
            (if cm_window cm = 0 then 0
             else clamp 0 1 (rnd (1 - unit_ratio rnd 32 (unat post_tokens) (unat (cm_window cm))))),
          ct_compactor_name = name\<rparr>)"

subsection \<open>What configuration guarantees\<close>

text \<open>A manager as a host builds it: any sequence of its builders and of pins set and removed.\<close>

inductive configured :: "'v context_manager \<Rightarrow> bool" where
  fresh: "configured (new_manager json compactor)"
| counter: "configured cm \<Longrightarrow> configured (with_token_counter c cm)"
| window: "configured cm \<Longrightarrow> configured (with_context_window n cm)"
| threshold: "configured cm \<Longrightarrow> configured (with_threshold t cm)"
| auto: "configured cm \<Longrightarrow> configured (with_auto_compact b cm)"
| base: "configured cm \<Longrightarrow> configured (with_compact_target bs cm)"
| target: "configured cm \<Longrightarrow> configured (with_compact_target_pct t cm)"
| pin: "configured cm \<Longrightarrow> set_pin p text cm = Inr cm' \<Longrightarrow> configured cm'"
| unpin: "configured cm \<Longrightarrow> configured (remove_pin p cm)"

inductive_cases configured_pinE: "configured (remove_pin p cm)"

lemmas builder_defs = with_token_counter_def with_context_window_def with_threshold_def with_auto_compact_def
  with_compact_target_def with_compact_target_pct_def remove_pin_def

definition percent :: "u8 \<Rightarrow> bool" where
  "percent p \<longleftrightarrow> 1 \<le> p \<and> p \<le> 100"

lemma clamp_bounds: "lo \<le> hi \<Longrightarrow> lo \<le> clamp lo hi x \<and> clamp lo hi x \<le> hi"
  for x :: "'a::linorder"
  by (auto simp: clamp_def not_less)

lemma clamp_percent: "percent (clamp 1 100 p)"
  unfolding percent_def by (rule clamp_bounds) simp

lemma set_pin_Inr:
  assumes "set_pin p text cm = Inr cm'"
  shows "cm' = cm\<lparr>cm_pins := place_pin p (user_message text) (cm_pins cm)\<rparr>"
    and "trim p \<noteq> []" and "trim text \<noteq> []"
    and "compact_target_tokens cm = 0 \<or>
      cm_counter cm (sized_pins p (user_message text) (cm_pins cm)) \<le> compact_target_tokens cm"
  using assms by (auto simp: set_pin_def Let_def split: if_splits)

lemma configured_percent: "configured cm \<Longrightarrow> percent (cm_threshold cm) \<and> percent (cm_target cm)"
proof (induction rule: configured.induct)
  case (pin cm p content cm')
  then show ?case using set_pin_Inr(1) [OF pin.hyps(2)] by simp
qed (simp_all add: builder_defs clamp_percent, simp add: new_manager_def percent_def)

lemma percent_of:
  assumes "percent p"
  shows "unat (sat_mul base (ucast p) div 100 :: u64) = min (unat base * unat p) (2 ^ 64 - 1) div 100"
    and "sat_mul base (ucast p) div 100 \<le> base"
proof -
  have p: "unat (ucast p :: u64) = unat p" by (rule unat_ucast_up) simp
  show exact: "unat (sat_mul base (ucast p) div 100 :: u64) = min (unat base * unat p) (2 ^ 64 - 1) div 100"
    by (simp add: unat_div unat_sat_mul p)
  have "unat p \<le> 100" using assms by (simp add: percent_def word_le_nat_alt)
  then have "unat base * unat p \<le> unat base * 100" by (rule mult_le_mono2)
  then have "min (unat base * unat p) (2 ^ 64 - 1) div 100 \<le> unat base * 100 div 100"
    by (intro div_le_mono min.coboundedI1)
  then show "sat_mul base (ucast p) div 100 \<le> base" by (simp add: word_le_nat_alt exact)
qed

lemma unat_threshold:
  assumes "configured cm"
  shows "unat (compact_threshold_tokens cm) = min (unat (cm_window cm) * unat (cm_threshold cm)) (2 ^ 64 - 1) div 100"
    and "compact_threshold_tokens cm \<le> cm_window cm"
  using percent_of configured_percent [OF assms] by (simp_all add: compact_threshold_tokens_def)

lemma target_below_base:
  assumes "configured cm"
  shows "compact_target_tokens cm \<le>
    (case cm_base cm of ThresholdBase \<Rightarrow> compact_threshold_tokens cm | ContextBase \<Rightarrow> cm_window cm)"
  using percent_of(2) configured_percent [OF assms] by (simp add: compact_target_tokens_def Let_def)

lemma unat_emergency:
  "unat (emergency_line cm) = min (unat (cm_window cm) * 19) (2 ^ 64 - 1) div 20" "emergency_line cm \<le> cm_window cm"
proof -
  show exact: "unat (emergency_line cm) = min (unat (cm_window cm) * 19) (2 ^ 64 - 1) div 20"
    by (simp add: emergency_line_def unat_div unat_sat_mul)
  have "min (unat (cm_window cm) * 19) (2 ^ 64 - 1) div 20 \<le> unat (cm_window cm) * 20 div 20"
    by (intro div_le_mono min.coboundedI1) simp
  then show "emergency_line cm \<le> cm_window cm" by (simp add: word_le_nat_alt exact)
qed

text \<open>
  However a manager was configured, its lines are in order: it compacts down to at most the
  line it compacts at (or the window, when the host sizes by the window), and every line is within
  the window. A conversation is due for compaction exactly when automatic compaction is on and it
  reaches the lower of the threshold and the emergency line; where the window times a hundred fits
  64 bits both lines are the percentages they are documented to be.
\<close>

theorem manager_lines:
  assumes "configured cm"
  shows "compact_target_tokens cm \<le>
      (case cm_base cm of ThresholdBase \<Rightarrow> compact_threshold_tokens cm | ContextBase \<Rightarrow> cm_window cm) \<and>
    compact_threshold_tokens cm \<le> cm_window cm \<and> emergency_line cm \<le> cm_window cm \<and>
    (cm_should_compact cm used \<longleftrightarrow>
      cm_auto_compact cm \<and> min (compact_threshold_tokens cm) (emergency_line cm) \<le> used) \<and>
    (unat (cm_window cm) * 100 < 2 ^ 64 \<longrightarrow>
      unat (compact_threshold_tokens cm) = unat (cm_window cm) * unat (cm_threshold cm) div 100 \<and>
      unat (emergency_line cm) = unat (cm_window cm) * 19 div 20)"
proof -
  have "unat (cm_threshold cm) \<le> 100"
    using configured_percent [OF assms] by (simp add: percent_def word_le_nat_alt)
  then have "unat (cm_window cm) * unat (cm_threshold cm) \<le> unat (cm_window cm) * 100" by (rule mult_le_mono2)
  then have "unat (cm_window cm) * unat (cm_threshold cm) \<le> 2 ^ 64 - 1 \<and> unat (cm_window cm) * 19 \<le> 2 ^ 64 - 1"
    if "unat (cm_window cm) * 100 < 2 ^ 64" using that by linarith
  then have "unat (cm_window cm) * 100 < 2 ^ 64 \<longrightarrow>
      unat (compact_threshold_tokens cm) = unat (cm_window cm) * unat (cm_threshold cm) div 100 \<and>
      unat (emergency_line cm) = unat (cm_window cm) * 19 div 20"
    by (simp add: unat_threshold(1) [OF assms] unat_emergency(1) min.absorb1 del: mult_le_cancel1)
  moreover have "cm_should_compact cm used \<longleftrightarrow>
      cm_auto_compact cm \<and> min (compact_threshold_tokens cm) (emergency_line cm) \<le> used"
    by (simp add: cm_should_compact_def cm_is_emergency_def min_le_iff_disj)
  ultimately show ?thesis
    using target_below_base [OF assms] unat_threshold(2) [OF assms] unat_emergency(2) by blast
qed

theorem manager_lines_witness:
  "\<not> cm_should_compact (with_threshold 99 (new_manager (\<lambda>_ :: unit. []) (\<lambda>ms _ _. no_change (\<lambda>_. []) ms))) 189999 \<and>
   cm_should_compact (with_threshold 99 (new_manager (\<lambda>_ :: unit. []) (\<lambda>ms _ _. no_change (\<lambda>_. []) ms))) 190000"
proof -
  let ?cm = "with_threshold 99 (new_manager (\<lambda>_ :: unit. []) (\<lambda>ms _ _. no_change (\<lambda>_. []) ms))"
  have "configured ?cm" by (intro configured.intros)
  note lines = manager_lines [OF this]
  have fields: "cm_window ?cm = 200000" "cm_threshold ?cm = 99" "cm_auto_compact ?cm"
    by (simp_all add: with_threshold_def new_manager_def clamp_def)
  have "unat (cm_window ?cm) * 100 < 2 ^ 64 \<longrightarrow>
      unat (compact_threshold_tokens ?cm) = unat (cm_window ?cm) * unat (cm_threshold ?cm) div 100 \<and>
      unat (emergency_line ?cm) = unat (cm_window ?cm) * 19 div 20"
    using lines by blast
  then have figures: "unat (compact_threshold_tokens ?cm) = 198000" "unat (emergency_line ?cm) = 190000"
    unfolding fields by simp_all
  have "cm_should_compact ?cm used \<longleftrightarrow> min (compact_threshold_tokens ?cm) (emergency_line ?cm) \<le> used" for used
    using lines fields(3) by blast
  then show ?thesis by (simp add: word_le_nat_alt min_def figures)
qed

subsection \<open>What holds of the pins\<close>

definition pins_sound :: "(string \<times> 'v message) list \<Rightarrow> bool" where
  "pins_sound pins \<longleftrightarrow> distinct (map fst pins) \<and>
     (\<forall>(p, m) \<in> set pins. trim p \<noteq> [] \<and> (\<exists>content. trim content \<noteq> [] \<and> m = user_message content))"

lemma place_pin_update: "place_pin p m pins = AList.update p m pins"
proof (induction pins)
  case (Cons pin pins)
  then show ?case
    by (cases pin; cases "position (\<lambda>(existing, _). existing = p) pins") (auto simp: place_pin_def)
qed (simp add: place_pin_def)

lemma set_update_subset: "set (AList.update p m pins) \<subseteq> insert (p, m) (set pins)"
  by (induction pins) auto

lemma configured_pins: "configured cm \<Longrightarrow> pins_sound (cm_pins cm)"
proof (induction rule: configured.induct)
  case (fresh json compactor)
  show ?case by (simp add: new_manager_def pins_sound_def)
next
  case (pin cm p content cm')
  have "distinct (map fst (place_pin p (user_message content) (cm_pins cm)))"
    using pin.IH by (simp add: place_pin_update pins_sound_def distinct_update)
  moreover have "set (place_pin p (user_message content) (cm_pins cm)) \<subseteq> insert (p, user_message content) (set (cm_pins cm))"
    unfolding place_pin_update by (rule set_update_subset)
  ultimately show ?case
    using pin.IH set_pin_Inr [OF pin.hyps(2)] unfolding pins_sound_def by fastforce
next
  case (unpin cm p)
  then show ?case by (auto simp: pins_sound_def remove_pin_def intro: distinct_map_filter)
qed (simp_all add: builder_defs)

lemma configured_pins_tool_free:
  assumes "configured cm"
  shows "tool_free (pinned_messages cm)"
  using configured_pins [OF assms]
  by (fastforce simp: pins_sound_def pinned_messages_def tool_free_def user_message_def all_parts_def)

lemma configured_pins_user: "configured cm \<Longrightarrow> pin \<in> set (pinned_messages cm) \<Longrightarrow> \<exists>content. pin = user_message content"
  using configured_pins by (fastforce simp: pins_sound_def pinned_messages_def)

text \<open>
  C34: every manager a host can configure is well formed: both percentages are between one and a
  hundred, the pins have distinct, non-blank ids, and every pin is a user message of one text that
  is not blank, so pins carry no tool parts.
\<close>

theorem configured_manager_well_formed:
  assumes "configured cm"
  shows "percent (cm_threshold cm) \<and> percent (cm_target cm) \<and> distinct (map fst (cm_pins cm)) \<and>
    (\<forall>(p, m) \<in> set (cm_pins cm). trim p \<noteq> [] \<and> (\<exists>content. trim content \<noteq> [] \<and> m = user_message content)) \<and>
    tool_free (pinned_messages cm)"
  using configured_percent [OF assms] configured_pins [OF assms] configured_pins_tool_free [OF assms]
  unfolding pins_sound_def by blast

theorem configured_manager_well_formed_witness:
  "percent (cm_threshold (with_threshold 200 (new_manager (\<lambda>_ :: unit. []) (\<lambda>ms _ _. no_change (\<lambda>_. []) ms))))"
proof -
  have "configured (with_threshold 200 (new_manager (\<lambda>_ :: unit. []) (\<lambda>ms _ _. no_change (\<lambda>_. []) ms)))"
    by (intro configured.intros)
  from configured_manager_well_formed [OF this] show ?thesis by blast
qed

text \<open>The counters of the crate do not mind the order of the messages.\<close>

locale bag_counter =
  fixes counter :: "'v message list \<Rightarrow> u64"
  assumes count_bag: "mset xs = mset ys \<Longrightarrow> counter xs = counter ys"
begin

lemma count_append: "counter (xs @ ys) = counter (ys @ xs)"
  by (rule count_bag) simp

end

lemma sum_list_bag: "mset xs = mset ys \<Longrightarrow> sum_list (map f xs) = sum_list (map f ys)"
  for f :: "'a \<Rightarrow> 'b::comm_monoid_add"
  by (metis mset_map sum_mset_sum_list)

interpretation heuristic_bag: bag_counter "heuristic_count json" for json :: "'v \<Rightarrow> string"
proof
  fix xs ys :: "'v message list" assume "mset xs = mset ys"
  from sum_list_bag [OF this] show "heuristic_count json xs = heuristic_count json ys"
    unfolding heuristic_count_def by metis
qed

interpretation ratio_bag: bag_counter "ratio_count json rc" for json :: "'v \<Rightarrow> string" and rc :: ratio_counter
proof
  fix xs ys :: "'v message list" assume bag: "mset xs = mset ys"
  let ?f = "\<lambda>m. sat_mul (rendered_message_chars json m) (chars_den rc)"
  have "sum_list (map (\<lambda>m. unat (?f m)) xs) = sum_list (map (\<lambda>m. unat (?f m)) ys)" by (rule sum_list_bag [OF bag])
  then have "foldl (\<lambda>acc m. sat_add acc (?f m)) 0 xs = foldl (\<lambda>acc m. sat_add acc (?f m)) 0 ys"
    by (simp only: word_unat_eq_iff unat_foldl_sat_add)
  moreover have "length xs = length ys" using bag by (rule mset_eq_length)
  ultimately show "ratio_count json rc xs = ratio_count json rc ys" by (simp add: ratio_count_def Let_def)
qed

lemma update_bag:
  assumes "distinct (map fst pins)"
  shows "mset (map snd (AList.update p m pins)) = mset (sized_pins p m pins)"
  using assms
proof (induction pins)
  case (Cons pin pins)
  show ?case
  proof (cases "fst pin = p")
    case True
    then have "p \<notin> fst ` set pins" using Cons.prems by auto
    then have "filter (\<lambda>(existing, _). existing \<noteq> p) pins = pins"
      unfolding filter_id_conv by (auto simp: image_iff)
    then show ?thesis using True by (cases pin) (simp add: sized_pins_def)
  next
    case False
    then show ?thesis using Cons by (cases pin) (simp add: sized_pins_def)
  qed
qed (simp add: sized_pins_def)

lemma set_pin_bag:
  assumes "configured cm" and "set_pin p text cm = Inr cm'" and "bag_counter (cm_counter cm)"
  shows "compact_target_tokens cm = 0 \<or> cm_counter cm (pinned_messages cm') \<le> compact_target_tokens cm"
proof -
  have "distinct (map fst (cm_pins cm))" using configured_pins [OF assms(1)] by (simp add: pins_sound_def)
  from update_bag [OF this] have "mset (pinned_messages cm') = mset (sized_pins p (user_message text) (cm_pins cm))"
    using set_pin_Inr(1) [OF assms(2)] by (simp add: pinned_messages_def place_pin_update)
  from bag_counter.count_bag [OF assms(3) this] set_pin_Inr(4) [OF assms(2)] show ?thesis by simp
qed

text \<open>
  Setting a pin under an id of a configured manager either changes nothing and says why (an
  empty id, an empty text, or a pin set above the compaction target), or makes the message the one
  pin of that id, in the place of the old one if there was one and at the end otherwise, all other
  pins untouched. With a counter of the crate the whole set then counts at most the target, a target
  of zero apart.
\<close>

theorem set_pin_effect:
  assumes "configured cm"
  shows "(case set_pin p content cm of
      Inl e \<Rightarrow> (\<exists>msg. e = InvalidInput msg) \<and>
        (trim p = [] \<or> trim content = [] \<or> compact_target_tokens cm \<noteq> 0 \<and>
          compact_target_tokens cm < cm_counter cm (sized_pins p (user_message content) (cm_pins cm)))
    | Inr cm' \<Rightarrow> trim p \<noteq> [] \<and> trim content \<noteq> [] \<and>
        map_of (cm_pins cm') = (map_of (cm_pins cm))(p \<mapsto> user_message content) \<and>
        map fst (cm_pins cm') = (if p \<in> fst ` set (cm_pins cm) then map fst (cm_pins cm) else map fst (cm_pins cm) @ [p]) \<and>
        ((\<exists>json rc. cm_counter cm = heuristic_count json \<or> cm_counter cm = ratio_count json rc) \<longrightarrow>
          compact_target_tokens cm = 0 \<or> cm_counter cm (pinned_messages cm') \<le> compact_target_tokens cm))"
proof (cases "set_pin p content cm")
  case (Inl e)
  then show ?thesis by (auto simp: set_pin_def Let_def not_less split: if_splits)
next
  case (Inr cm')
  have "bag_counter (cm_counter cm)"
    if "\<exists>json rc. cm_counter cm = heuristic_count json \<or> cm_counter cm = ratio_count json rc"
    using that heuristic_bag.bag_counter_axioms ratio_bag.bag_counter_axioms by metis
  then show ?thesis
    using Inr set_pin_Inr [OF Inr] set_pin_bag [OF assms Inr]
    by (simp add: place_pin_update update_conv' update_keys)
qed

definition small_manager :: "unit context_manager" where
  "small_manager = with_context_window 100 (new_manager (\<lambda>_. []) (truncating_compact (\<lambda>_. []) new_truncating))"

lemma small_configured: "configured small_manager"
  unfolding small_manager_def by (intro configured.intros)

text \<open>A target of twelve tokens takes a pin of eight.\<close>

theorem set_pin_effect_witness:
  "\<exists>cm. set_pin ''rule'' ''keep it short'' small_manager = Inr cm \<and>
     map_of (cm_pins cm) = [''rule'' \<mapsto> user_message ''keep it short''] \<and>
     cm_counter cm (pinned_messages cm) \<le> compact_target_tokens small_manager"
proof -
  have target: "compact_target_tokens small_manager = 12"
    by (simp add: compact_target_tokens_def compact_threshold_tokens_def small_manager_def with_context_window_def
        new_manager_def sat_mul_def)
  have letter: "trim ''rule'' \<noteq> []" "trim ''keep it short'' \<noteq> []"
    by (simp_all add: trim_def utf8_whitespace_def strip_with.simps upt_rec char_of_eq_iff)
  have count: "heuristic_count (\<lambda>_ :: unit. []) [user_message ''keep it short''] = 8"
    by (simp add: heuristic_count_def rendered_message_chars_def user_message_def chars_count_def sat_add_def
        message_overhead_chars_def chars_per_token_def)
  have fields: "cm_counter small_manager = heuristic_count (\<lambda>_. [])" "cm_pins small_manager = []"
    by (simp_all add: small_manager_def with_context_window_def new_manager_def)
  obtain cm where cm: "set_pin ''rule'' ''keep it short'' small_manager = Inr cm"
    using letter by (simp add: set_pin_def Let_def target fields sized_pins_def count)
  moreover have "cm_counter cm = cm_counter small_manager" using set_pin_Inr(1) [OF cm] by simp
  moreover note set_pin_effect [OF small_configured, of "''rule''" "''keep it short''"]
  ultimately show ?thesis by (auto simp: target fields)
qed

subsection \<open>What holds of a pass\<close>

lemma carries_insert_all: "carries (insert_all pos missing ms) pin \<longleftrightarrow> carries missing pin \<or> carries ms pin"
proof -
  have "set (insert_all pos missing ms) = set missing \<union> set ms"
    by (metis Un_left_commute append_take_drop_id insert_all_def set_append)
  then show ?thesis by (auto simp: carries_def)
qed

lemma backstop_carries:
  assumes "pin \<in> set (pinned_messages cm)"
  shows "carries (oc_messages (snd (backstop_pins cm oc))) pin"
proof -
  let ?missing = "filter (\<lambda>pin. \<not> carries (oc_messages oc) pin) (map snd (cm_pins cm))"
  have "carries ?missing pin \<or> carries (oc_messages oc) pin"
    using assms by (force simp: carries_def pinned_messages_def)
  then show ?thesis
    using assms by (auto simp: backstop_pins_def Let_def carries_insert_all pinned_messages_def)
      (simp add: carries_def filter_empty_conv)
qed

lemma settle_messages: "into_messages (settle_pass n before after oc) = oc_messages oc"
  by (simp add: settle_pass_def)

lemma pass_promises:
  assumes "ms \<noteq> []" and "compact_with_reason cm ms turn reason instructions additional sizing = Inr r"
  shows "(\<forall>pin \<in> set (pinned_messages cm). carries (into_messages r) pin) \<and>
    cm_counter cm (into_messages r) \<le> sat_sub (cm_window cm) (reserved_tokens sizing) \<and>
    (case r of
       Compacted oc \<Rightarrow> oc_tokens_after oc = cm_counter cm (oc_messages oc) \<and>
         oc_tokens_saved oc = sat_sub (cm_counter cm ms) (cm_counter cm (oc_messages oc))
     | NoAction ms' \<Rightarrow> length ms' = length ms \<and> cm_counter cm ms \<le> cm_counter cm ms')"
  using assms backstop_carries [of _ cm]
  by (auto simp: compact_with_reason_def Let_def settle_messages estimate_tokens_def settle_pass_def not_less
      split: if_splits)

text \<open>
  C17: what a pass hands back keeps its promises, whatever the compactor did. If a non-empty
  conversation was compacted on request, the result carries every pin (a message of its role and
  exact text) and counts at most the window less the reserve; a result reported as compacted states
  its own count and the saving, and one reported as no action has as many messages as before and
  was not made smaller.
\<close>

theorem pass_keeps_promises:
  assumes "ms \<noteq> []" and "compact_with_reason cm ms turn reason instructions additional sizing = Inr r"
  shows "(\<forall>pin \<in> set (pinned_messages cm). carries (into_messages r) pin) \<and>
    cm_counter cm (into_messages r) \<le> sat_sub (cm_window cm) (reserved_tokens sizing) \<and>
    (case r of
       Compacted oc \<Rightarrow> oc_tokens_after oc = cm_counter cm (oc_messages oc) \<and>
         oc_tokens_saved oc = sat_sub (cm_counter cm ms) (cm_counter cm (oc_messages oc))
     | NoAction ms' \<Rightarrow> length ms' = length ms \<and> cm_counter cm ms \<le> cm_counter cm ms')"
  using pass_promises [OF assms] .

text \<open>The compactor is told to do nothing: the pin is put in front and the count is the manager's.\<close>

definition keep_all :: "unit compactor" where
  "keep_all ms target cx = no_change (\<lambda>_. []) ms"

theorem pass_keeps_promises_witness:
  "\<exists>(cm :: unit context_manager) r. compact_with_reason cm [user_message ''go''] 0 Manual None [] default_sizing = Inr r \<and>
     carries (into_messages r) (user_message ''rule'')"
proof -
  let ?cm = "(new_manager (\<lambda>_. []) keep_all)\<lparr>cm_pins := [(''a'', user_message ''rule'')]\<rparr>"
  let ?pass = "compact_with_reason ?cm [user_message ''go''] 0 Manual None [] default_sizing"
  have small: "heuristic_count (\<lambda>_ :: unit. []) ms \<le> 200000" if "ms \<in> {[user_message ''rule'', user_message ''go''], [user_message ''go'']}" for ms
    using that by (auto simp: heuristic_count_def rendered_message_chars_def user_message_def chars_count_def sat_add_def
        message_overhead_chars_def chars_per_token_def)
  have "backstop_pins ?cm (no_change (\<lambda>_. []) [user_message ''go'']) =
      (1, (no_change (\<lambda>_. []) [user_message ''go''])\<lparr>oc_messages := [user_message ''rule'', user_message ''go'']\<rparr>)"
    by (simp add: backstop_pins_def carries_def no_change_def insert_all_def pin_position_def user_message_def
        text_content_def)
  moreover have "oc_success (no_change (\<lambda>_ :: unit. []) ms)" for ms by (simp add: no_change_def)
  ultimately have "\<exists>r. ?pass = Inr r"
    using small by (simp add: compact_with_reason_def Let_def keep_all_def new_manager_def estimate_tokens_def
        default_sizing_def sat_sub_def not_less)
  then obtain r where r: "?pass = Inr r" by blast
  have "carries (into_messages r) (user_message ''rule'')"
    using pass_keeps_promises [OF _ r] by (simp add: pinned_messages_def)
  with r show ?thesis by blast
qed

text \<open>A compactor that never fails: what is left to go wrong is the size of its result.\<close>

locale steady_compactor =
  fixes compact :: "'v compactor"
  assumes succeeds: "oc_success (compact ms target cx)"
    and answers: "ms \<noteq> [] \<Longrightarrow> oc_messages (compact ms target cx) \<noteq> []"
begin

lemma pass_fails_by_size:
  assumes "cm_compactor cm = compact"
    and "compact_with_reason cm ms turn reason instructions additional sizing = Inl ov"
  shows "ov_compactor_error ov = None \<and> ov_trigger ov = reason \<and> ov_message_count ov = length ms \<and>
    (cm_window cm < - 1 \<longrightarrow> cm_window cm < ov_tokens_used ov)"
proof -
  let ?target = "case target_override sizing of Some t \<Rightarrow> t | None \<Rightarrow> compact_target_tokens cm"
  obtain after where ov: "ov = \<lparr>ov_tokens_used = sat_add after (reserved_tokens sizing),
      ov_context_window = cm_window cm, ov_message_count = length ms, ov_trigger = reason, ov_compactor_error = None\<rparr>"
    and large: "after > sat_sub (cm_window cm) (reserved_tokens sizing)"
    using assms succeeds by (auto simp: compact_with_reason_def Let_def split: if_splits)
  have "unat (cm_window cm) - unat (reserved_tokens sizing) < unat after"
    using large by (simp add: word_less_nat_alt unat_sat_sub)
  then have "cm_window cm < - 1 \<longrightarrow> cm_window cm < sat_add after (reserved_tokens sizing)"
    by (auto simp: word_less_nat_alt unat_sat_add)
  then show ?thesis unfolding ov by simp
qed

lemma pass_answers:
  assumes "cm_compactor cm = compact" and "ms \<noteq> []"
    and "compact_with_reason cm ms turn reason instructions additional sizing = Inr r"
  shows "into_messages r \<noteq> []"
proof -
  have "oc_messages oc \<noteq> [] \<Longrightarrow> oc_messages (snd (backstop_pins cm oc)) \<noteq> []" for oc
    by (auto simp: backstop_pins_def Let_def insert_all_def)
  then show ?thesis
    using assms(1,3) answers [OF assms(2)] assms(2)
    by (auto simp: compact_with_reason_def Let_def settle_messages split: if_splits)
qed

end

subsection \<open>The truncating compactor under the manager\<close>

lemma unchanged_answers: "ms \<noteq> [] \<Longrightarrow> oc_messages (unchanged json ms (scan ms) cx) \<noteq> []"
  using unchanged_messages [of ms json cx] scanned.whole_nonempty [of ms]
  by (cases "all_parts_lone_results (scan ms)") (auto simp: unchanged_def no_change_def)

interpretation truncating: steady_compactor "truncating_compact json c"
  for json :: "'v \<Rightarrow> string" and c :: truncating_compactor
proof
  fix ms target and cx :: "'v compaction_context"
  have "oc_success (unchanged json ms (scan ms) cx)" by (simp add: unchanged_def no_change_def Let_def split: prod.splits)
  then show "oc_success (truncating_compact json c ms target cx)"
    by (auto simp: truncating_compact_def Let_def split: option.splits prod.splits)
next
  fix ms :: "'v message list" and target and cx :: "'v compaction_context" assume "ms \<noteq> []"
  show "oc_messages (truncating_compact json c ms target cx) \<noteq> []"
  proof (cases rule: truncating_cases [where json = json and c = c and ms = ms and t = target and cx = cx])
    case unchanged
    then show ?thesis using unchanged_answers [OF \<open>ms \<noteq> []\<close>] by metis
  qed simp
qed

lemma backstop_pairs:
  assumes "tool_free (pinned_messages cm)"
  shows "solicited (all_parts (oc_messages (snd (backstop_pins cm oc)))) = solicited (all_parts (oc_messages oc))"
    and "coherent (oc_messages (snd (backstop_pins cm oc))) = coherent (oc_messages oc)"
proof -
  let ?missing = "filter (\<lambda>pin. \<not> carries (oc_messages oc) pin) (map snd (cm_pins cm))"
  have "tool_free ?missing" using assms by (auto simp: tool_free_def all_parts_def pinned_messages_def)
  note free = insert_tool_free [OF this, of "take (pin_position (oc_messages oc)) (oc_messages oc)"
      "drop (pin_position (oc_messages oc)) (oc_messages oc)"]
  then show "solicited (all_parts (oc_messages (snd (backstop_pins cm oc)))) = solicited (all_parts (oc_messages oc))"
    "coherent (oc_messages (snd (backstop_pins cm oc))) = coherent (oc_messages oc)"
    by (simp_all add: backstop_pins_def Let_def insert_all_def del: all_parts_simps)
qed

text \<open>A pass that succeeds runs the compactor once, with the pins, and puts back what is missing.\<close>

lemma pass_runs_compactor:
  assumes "ms \<noteq> []" and "compact_with_reason cm ms turn reason instructions additional sizing = Inr r"
  obtains target cx where "cx_pinned cx = pinned_messages cm"
    and "into_messages r = oc_messages (snd (backstop_pins cm (cm_compactor cm ms target cx)))"
proof (rule that)
  let ?cx = "\<lparr>cx_tokens_before = cm_counter cm ms, cx_reason = reason, cx_window = cm_window cm, cx_turn = turn,
    cx_counter = cm_counter cm, cx_instructions = instructions, cx_additional = additional,
    cx_pinned = pinned_messages cm\<rparr>"
  show "cx_pinned ?cx = pinned_messages cm" by simp
  show "into_messages r = oc_messages (snd (backstop_pins cm (cm_compactor cm ms
      (case target_override sizing of Some t \<Rightarrow> t | None \<Rightarrow> compact_target_tokens cm) ?cx)))"
    using assms by (auto simp: compact_with_reason_def Let_def settle_messages estimate_tokens_def split: if_splits)
qed

lemma managed_truncation:
  assumes "configured cm" and "cm_compactor cm = truncating_compact json c" and "cm_window cm < - 1"
    and "ms \<noteq> []" and "\<not> all_parts_lone_results (scan ms)"
  shows "case compact_with_reason cm ms turn reason instructions additional sizing of
      Inl ov \<Rightarrow> ov_compactor_error ov = None \<and> cm_window cm < ov_tokens_used ov
    | Inr r \<Rightarrow> into_messages r \<noteq> [] \<and> solicited (all_parts (into_messages r)) \<and>
        ((\<forall>pos. mate_at (scan ms) pos \<noteq> Some LoneCall) \<longrightarrow> coherent (into_messages r))"
proof (cases "compact_with_reason cm ms turn reason instructions additional sizing")
  case (Inl ov)
  from truncating.pass_fails_by_size [OF assms(2) Inl] assms(3) Inl show ?thesis by simp
next
  case (Inr r)
  from pass_runs_compactor [OF assms(4) Inr] obtain target cx where cx: "cx_pinned cx = pinned_messages cm"
    and r: "into_messages r = oc_messages (snd (backstop_pins cm (truncating_compact json c ms target cx)))"
    unfolding assms(2) by blast
  have free: "tool_free (pinned_messages cm)" by (rule configured_pins_tool_free [OF assms(1)])
  then have "tool_free (cx_pinned cx)" using cx by simp
  note pairs = truncating_pairs [OF assms(5) this, of json c target]
  show ?thesis
    using truncating.pass_answers [OF assms(2,4) Inr] pairs unfolding Inr sum.case r backstop_pairs [OF free] by blast
qed

text \<open>
  The manager with the truncating compactor never fails for a reason of the compactor: an
  error means that the result, pins included, did not fit, and it reports a size above the window.
  Otherwise the conversation handed back is not empty, no result in it precedes its call, and if
  every call of the input had its result, every call of the output has. (A conversation of nothing
  but orphaned results is excluded.)
\<close>

theorem managed_truncation_sound:
  assumes "configured cm" and "cm_compactor cm = truncating_compact json c" and "cm_window cm < - 1"
    and "ms \<noteq> []" and "\<not> all_parts_lone_results (scan ms)"
  shows "case compact_with_reason cm ms turn reason instructions additional sizing of
      Inl ov \<Rightarrow> ov_compactor_error ov = None \<and> cm_window cm < ov_tokens_used ov
    | Inr r \<Rightarrow> into_messages r \<noteq> [] \<and> solicited (all_parts (into_messages r)) \<and>
        ((\<forall>pos. mate_at (scan ms) pos \<noteq> Some LoneCall) \<longrightarrow> coherent (into_messages r))"
  by (rule managed_truncation [OF assms])

theorem managed_truncation_sound_witness:
  "case compact_with_reason small_manager sample_history 0 Manual None [] default_sizing of
     Inl ov \<Rightarrow> ov_compactor_error ov = None
   | Inr r \<Rightarrow> coherent (into_messages r)"
proof -
  have "cm_compactor small_manager = truncating_compact (\<lambda>_. []) new_truncating" "cm_window small_manager < - 1"
    by (simp_all add: small_manager_def with_context_window_def new_manager_def)
  moreover have "sample_history \<noteq> []" by (simp add: sample_history_def)
  moreover have "\<not> all_parts_lone_results (scan sample_history)"
    by (simp add: sample_scan all_parts_lone_results_def)
  moreover have "mate_at (scan sample_history) pos \<noteq> Some LoneCall" for pos
    by (auto simp: sample_scan mate_at_def nth_Cons less_Suc_eq split: nat.splits)
  ultimately show ?thesis
    using managed_truncation_sound [OF small_configured, of "\<lambda>_. []" new_truncating sample_history 0 Manual None "[]" default_sizing]
    by (auto split: sum.splits)
qed

text \<open>
  A pin takes the place of the first message. When a conversation opens with a pin, as every
  conversation does once a pass has put the pins in front, and the next message carries no tool part,
  the next pass of the truncating compactor that cuts at least two messages keeps the pin as the
  conversation's first message, puts the pins in front of it once more, and evicts the message
  that was the first before: the task.
\<close>

theorem pin_displaces_first_message:
  assumes "cx_pinned cx = pin # pins" and "ms = pin # task # rest"
    and "msg_role pin \<noteq> System" and "msg_parts pin \<noteq> []" and "tool_free [pin]" and "tool_free [task]"
    and "chosen_split c ms target cx = Some split" and "2 \<le> split" and "tr_min_messages c < length ms"
  shows "\<exists>out. oc_messages (truncating_compact json c ms target cx) = pin # pins @ pin # out \<and>
    task \<in> set (oc_evicted (truncating_compact json c ms target cx))"
proof -
  let ?pulled = "pull_list ms target cx split"
  let ?blocks = "kept_blocks ms ?pulled split"
  have first: "hd ms = pin" "ms ! 0 = pin" "ms ! 1 = task" "ms \<noteq> []" "1 < length ms" using assms(2) by simp_all
  have "block_parts ms (scan ms) ?blocks (False, 0) = msg_parts pin"
  proof -
    have "mate_at (scan ms) (0, p) = None" for p using plain_row [of 0 ms p] first assms(5) by simp
    then show ?thesis by (simp add: block_parts_def keep_part_def first nths_all)
  qed
  then have "block_message ms (scan ms) ?blocks (False, 0) = pin" by (simp add: block_message_def first)
  then have head: "output_of ms (scan ms) ?blocks =
      pin # filter (\<lambda>m. msg_parts m \<noteq> []) (map (block_message ms (scan ms) ?blocks) (tl ?blocks))"
    using assms(4) by (simp add: output_of_def kept_blocks_def)
  have "1 \<notin> set ?pulled" using pull_list_plain [OF first(4) _ first(5)] assms(5,6) first by simp
  then have "1 \<notin> snd ` set ?blocks" using assms(8) by (auto simp: kept_blocks_def)
  then have "1 \<notin> set (survivors_of ms (scan ms) ?blocks)" by (auto simp: survivors_of_def)
  then have gone: "task \<in> set (evicted_complement ms (survivors_of ms (scan ms) ?blocks))"
    using first unfolding evicted_eq evicted_from_def by force
  have "split \<le> length ms" "0 < split" using chosen_split_Some [OF assms(7)] by simp_all
  from kept_side_blocks [OF this(2,1) first(4), of target cx]
  have "oc_messages (truncating_compact json c ms target cx) = prepend_pinned (output_of ms (scan ms) ?blocks) (pin # pins) \<and>
      oc_evicted (truncating_compact json c ms target cx) = evicted_complement ms (survivors_of ms (scan ms) ?blocks)"
    using assms(1,7,9) head by (simp add: truncating_compact_def Let_def)
  then show ?thesis using gone head assms(3) by (simp add: prepend_pinned_def pin_position_def Let_def)
qed

definition pinned_history :: "unit message list" where
  "pinned_history = [user_message ''rule'', user_message ''task'', assistant_message ''a'', user_message ''b'',
     assistant_message ''c'', user_message ''d'', assistant_message ''e'', user_message ''f'']"

definition pinned_context :: "unit compaction_context" where
  "pinned_context = (new_context 8 Manual 10 1 (\<lambda>_. 0))\<lparr>cx_pinned := [user_message ''rule'']\<rparr>"

text \<open>A conversation of eight messages behind a pin, cut to its recent ones: the task is gone.\<close>

theorem pin_displaces_first_message_witness:
  "\<exists>out. oc_messages (truncating_compact (\<lambda>_. []) new_truncating pinned_history 0 pinned_context) =
      user_message ''rule'' # user_message ''rule'' # out \<and>
    user_message ''task'' \<in> set (oc_evicted (truncating_compact (\<lambda>_. []) new_truncating pinned_history 0 pinned_context))"
proof -
  have rows: "scan pinned_history = [[None], [None], [None], [None], [None], [None], [None], [None]]"
    by (simp add: pinned_history_def scan_defs user_message_def assistant_message_def)
  have "adjusted_split (scan pinned_history) s = s" for s
  proof -
    have "row = [None]" if "row \<in> set (drop s (scan pinned_history))" for row
      using in_set_dropD [OF that] by (simp add: rows)
    then show ?thesis unfolding adjusted_split_fixed pair_safe_def by fastforce
  qed
  then have "slide_pairs (scan pinned_history) s = s" for s
    by (simp add: slide_pairs_eq slide_fixed adjusted_split_fixed [symmetric])
  then have chosen: "chosen_split new_truncating pinned_history 0 pinned_context = Some 4"
    by (simp add: chosen_split_def floor_split_at_def new_truncating_def pinned_context_def new_context_def
        pinned_history_def sat_sub_def)
  have free: "tool_free [user_message content]" for content by (simp add: tool_free_def user_message_def)
  have history: "pinned_history = user_message ''rule'' # user_message ''task'' # drop 2 pinned_history"
    by (simp add: pinned_history_def)
  have pinned: "cx_pinned pinned_context = [user_message ''rule'']" by (simp add: pinned_context_def)
  have shape: "msg_role (user_message ''rule'') \<noteq> System" "msg_parts (user_message ''rule'') \<noteq> []"
    by (simp_all add: user_message_def)
  have "tr_min_messages new_truncating < length pinned_history"
    by (simp add: new_truncating_def pinned_history_def)
  from pin_displaces_first_message [OF pinned history shape free free chosen _ this, of "\<lambda>_. []"]
  show ?thesis by simp
qed

end
