(* ===== verification/Calibration.thy ===== *)
theory Calibration
  imports Context_Manager Machine
begin

section \<open>Calibrating estimates by reported usage\<close>

text \<open>
  src/src/engine/bare.rs, the correction of token estimates: the rolling ratio between what the
  counter predicted and what the provider reported, in thousandths, the conversion of a window to
  the units of the counter, and the anchor, the last report with the prediction it answered.
\<close>

definition calibration_identity :: u64 where
  "calibration_identity = 1000"

definition calibration_min :: u64 where
  "calibration_min = 250"

definition calibration_max :: u64 where
  "calibration_max = 4000"

record estimate_calibration =
  ratio_bp :: u64
  prediction :: "u64 option"
  calibrated :: bool

definition identity_calibration :: estimate_calibration where
  "identity_calibration = \<lparr>ratio_bp = calibration_identity, prediction = None, calibrated = False\<rparr>"

definition apply_ratio :: "estimate_calibration \<Rightarrow> u64 \<Rightarrow> u64" where
  "apply_ratio cal tokens = sat_mul tokens (ratio_bp cal) div calibration_identity"

definition raw_window :: "estimate_calibration \<Rightarrow> u64 \<Rightarrow> u64" where
  "raw_window cal provider_window =
     (let ratio = (if ratio_bp cal = 0 then 1 else ratio_bp cal)
      in sat_mul provider_window calibration_identity div ratio)"

definition note_prediction :: "u64 \<Rightarrow> estimate_calibration \<Rightarrow> estimate_calibration" where
  "note_prediction payload cal = cal\<lparr>prediction := Some payload\<rparr>"

definition usage_sample :: "u64 \<Rightarrow> u64 \<Rightarrow> u64" where
  "usage_sample input_tokens predicted =
     clamp calibration_min calibration_max (sat_mul input_tokens calibration_identity div predicted)"

definition observe_usage :: "u64 \<Rightarrow> estimate_calibration \<Rightarrow> estimate_calibration" where
  "observe_usage input_tokens cal =
     (let predicted = (case prediction cal of Some p \<Rightarrow> p | None \<Rightarrow> 0) in
      if predicted = 0 then cal
      else if input_tokens = 0 then cal
      else
        (let sample = usage_sample input_tokens predicted;
             half_gap = abs_diff sample (ratio_bp cal) div 2
         in if \<not> calibrated cal then cal\<lparr>ratio_bp := sample, calibrated := True\<rparr>
            else if sample > ratio_bp cal then cal\<lparr>ratio_bp := sat_add (ratio_bp cal) half_gap\<rparr>
            else cal\<lparr>ratio_bp := sat_sub (ratio_bp cal) half_gap\<rparr>))"

definition report :: "estimate_calibration \<Rightarrow> u64 option" where
  "report cal = (if calibrated cal then Some (ratio_bp cal) else None)"

record usage_anchor =
  ua_input_tokens :: u64
  ua_raw_payload :: u64
  ua_anchored_at_turn :: nat

definition context_figure :: "estimate_calibration \<Rightarrow> usage_anchor option \<Rightarrow> u64 \<Rightarrow> u64" where
  "context_figure cal anchor raw_payload =
     (case anchor of
        None \<Rightarrow> apply_ratio cal raw_payload
      | Some a \<Rightarrow> sat_add (ua_input_tokens a) (apply_ratio cal (sat_sub raw_payload (ua_raw_payload a))))"

text \<open>
  The part of \<open>record_turn_success\<close> that learns from a report: the anchor, set only where a
  prediction was armed, and the ratio.
\<close>

definition learn_from_usage ::
  "u64 \<Rightarrow> nat \<Rightarrow> estimate_calibration \<times> usage_anchor option \<Rightarrow> estimate_calibration \<times> usage_anchor option" where
  "learn_from_usage input_tokens total_turns st =
     (case st of (cal, anchor) \<Rightarrow>
       (observe_usage input_tokens cal,
        case prediction cal of
          Some raw_payload \<Rightarrow>
            if input_tokens > 0 \<and> raw_payload > 0
            then Some \<lparr>ua_input_tokens = input_tokens, ua_raw_payload = raw_payload,
                       ua_anchored_at_turn = total_turns + 1\<rparr>
            else anchor
        | None \<Rightarrow> anchor))"

subsection \<open>The ratio\<close>

text \<open>What the operations can reach from the identity.\<close>

inductive learned :: "estimate_calibration \<Rightarrow> bool" where
  start: "learned identity_calibration"
| predict: "learned cal \<Longrightarrow> learned (note_prediction payload cal)"
| observe: "learned cal \<Longrightarrow> learned (observe_usage input_tokens cal)"

lemmas bp_defs = calibration_identity_def calibration_min_def calibration_max_def

definition ratio_ok :: "u64 \<Rightarrow> bool" where
  "ratio_ok r \<longleftrightarrow> 250 \<le> unat r \<and> unat r \<le> 4000"

lemma sample_ok: "ratio_ok (usage_sample input predicted)"
proof -
  have "calibration_min \<le> usage_sample input predicted \<and> usage_sample input predicted \<le> calibration_max"
    unfolding usage_sample_def by (rule clamp_bounds) (simp add: bp_defs)
  then show ?thesis by (simp add: ratio_ok_def bp_defs word_le_nat_alt)
qed

text \<open>One observation with a usable report: the ratio moves half of the gap, rounded down.\<close>

lemma observe_usable:
  assumes "prediction cal = Some p" and "p \<noteq> 0" and "input_tokens \<noteq> 0" and "ratio_ok (ratio_bp cal)"
  defines "s \<equiv> unat (usage_sample input_tokens p)" and "r \<equiv> unat (ratio_bp cal)"
  shows "unat (ratio_bp (observe_usage input_tokens cal)) =
      (if \<not> calibrated cal then s else if r < s then r + (s - r) div 2 else r - (r - s) div 2)"
    and "calibrated (observe_usage input_tokens cal)" and "prediction (observe_usage input_tokens cal) = Some p"
proof -
  have bounds: "r \<le> 4000" "s \<le> 4000"
    using assms(4) sample_ok [of input_tokens p] by (simp_all add: ratio_ok_def s_def r_def)
  have gap: "unat (abs_diff (usage_sample input_tokens p) (ratio_bp cal) div 2) = (if s \<le> r then r - s else s - r) div 2"
    by (simp add: unat_div unat_abs_diff s_def r_def)
  then show "unat (ratio_bp (observe_usage input_tokens cal)) =
      (if \<not> calibrated cal then s else if r < s then r + (s - r) div 2 else r - (r - s) div 2)"
    using assms(1-3) bounds
    by (auto simp: observe_usage_def Let_def unat_sat_add unat_sat_sub word_less_nat_alt s_def [symmetric] r_def [symmetric])
  show "calibrated (observe_usage input_tokens cal)" "prediction (observe_usage input_tokens cal) = Some p"
    using assms(1-3) by (simp_all add: observe_usage_def Let_def)
qed

lemma observe_ignored:
  "(case prediction cal of Some p \<Rightarrow> p | None \<Rightarrow> 0) = 0 \<or> input_tokens = 0 \<Longrightarrow> observe_usage input_tokens cal = cal"
  by (auto simp: observe_usage_def Let_def)

lemma learned_ratio_ok: "learned cal \<Longrightarrow> ratio_ok (ratio_bp cal)"
proof (induction rule: learned.induct)
  case start
  show ?case by (simp add: identity_calibration_def bp_defs ratio_ok_def)
next
  case (predict cal payload)
  then show ?case by (simp add: note_prediction_def)
next
  case (observe cal input_tokens)
  show ?case
  proof (cases "(case prediction cal of Some p \<Rightarrow> p | None \<Rightarrow> 0) = 0 \<or> input_tokens = 0")
    case True
    then show ?thesis using observe.IH by (simp add: observe_ignored)
  next
    case False
    then obtain p where "prediction cal = Some p" "p \<noteq> 0" "input_tokens \<noteq> 0" by (cases "prediction cal") auto
    from observe_usable(1) [OF this observe.IH] observe.IH sample_ok [of input_tokens p]
    show ?thesis by (auto simp: ratio_ok_def)
  qed
qed

definition gap :: "nat \<Rightarrow> nat \<Rightarrow> nat" where
  "gap a b = (if a < b then b - a else a - b)"

lemma gap_step: "gap (if r < s then r + (s - r) div 2 else r - (r - s) div 2) s = (gap r s + 1) div 2"
proof (cases "r < s")
  case True
  then obtain d where "s = r + d" "0 < d" using less_imp_add_positive by blast
  then show ?thesis by (simp add: gap_def)
next
  case False
  then obtain d where "r = s + d" using le_Suc_ex not_less by blast
  then show ?thesis by (simp add: gap_def) presburger
qed

lemma gap_halved:
  assumes "prediction cal = Some p" and "p \<noteq> 0" and "input \<noteq> 0" and "ratio_ok (ratio_bp cal)" and "calibrated cal"
  shows "gap (unat (ratio_bp (observe_usage input cal))) (unat (usage_sample input p)) =
    (gap (unat (ratio_bp cal)) (unat (usage_sample input p)) + 1) div 2"
  using observe_usable(1) [OF assms(1-4)] assms(5)
    gap_step [of "unat (ratio_bp cal)" "unat (usage_sample input p)"] by simp

lemma halvings: "((d + 2 ^ n - 1) div 2 ^ n + 1) div 2 = (d + 2 ^ Suc n - 1) div 2 ^ Suc n" for d :: nat
proof -
  have "(d + 2 ^ n - 1) div 2 ^ n + 1 = (d + 2 ^ n - 1 + 2 ^ n) div 2 ^ n" by simp
  also have "d + 2 ^ n - 1 + 2 ^ n = d + 2 ^ Suc n - 1" by simp
  finally show ?thesis by (simp add: div_mult2_eq [of _ "2 ^ n" 2, symmetric] mult.commute)
qed

lemma iterated_observation:
  assumes "prediction cal = Some p" and "p \<noteq> 0" and "input \<noteq> 0" and "learned cal"
  shows "learned ((observe_usage input ^^ n) cal)" and "prediction ((observe_usage input ^^ n) cal) = Some p"
    and "calibrated cal \<Longrightarrow> calibrated ((observe_usage input ^^ n) cal)"
proof (induction n)
  case (Suc n)
  {
    case 1
    show ?case using Suc(1) by (simp add: learned.observe)
  next
    case 2
    show ?case using observe_usable(3) [OF Suc(2) assms(2,3) learned_ratio_ok [OF Suc(1)]] by simp
  next
    case 3
    show ?case using observe_usable(2) [OF Suc(2) assms(2,3) learned_ratio_ok [OF Suc(1)]] by simp
  }
qed (use assms in simp_all)

text \<open>
  the ratio converges to what the provider reports. While the same usable report answers the
  same prediction, every report halves the distance between the ratio and the clamped sample,
  rounded up, so that after twelve reports, from whatever the ratio has learned before, it is
  within one thousandth, the first report of all setting it exactly.
\<close>

theorem ratio_converges:
  assumes "learned cal" and "prediction cal = Some p" and "p \<noteq> 0" and "input \<noteq> 0"
  defines "s \<equiv> unat (usage_sample input p)"
  shows "(calibrated cal \<longrightarrow>
      gap (unat (ratio_bp ((observe_usage input ^^ n) cal))) s = (gap (unat (ratio_bp cal)) s + 2 ^ n - 1) div 2 ^ n) \<and>
    (12 \<le> n \<longrightarrow> gap (unat (ratio_bp ((observe_usage input ^^ n) cal))) s \<le> 1) \<and>
    (\<not> calibrated cal \<longrightarrow> unat (ratio_bp (observe_usage input cal)) = s)"
proof -
  have closed: "gap (unat (ratio_bp ((observe_usage input ^^ n) c))) s = (gap (unat (ratio_bp c)) s + 2 ^ n - 1) div 2 ^ n"
    if c: "learned c" "prediction c = Some p" "calibrated c" for c n
  proof (induction n)
    case (Suc n)
    note iter = iterated_observation [OF c(2) assms(3,4) c(1), of n]
    have "gap (unat (ratio_bp ((observe_usage input ^^ Suc n) c))) s =
        (gap (unat (ratio_bp ((observe_usage input ^^ n) c))) s + 1) div 2"
      using gap_halved [OF iter(2) assms(3,4) learned_ratio_ok [OF iter(1)] iter(3) [OF c(3)]] by (simp add: s_def)
    then show ?case unfolding Suc halvings .
  qed simp
  have first: "unat (ratio_bp (observe_usage input cal)) = s" if "\<not> calibrated cal"
    using observe_usable(1) [OF assms(2-4) learned_ratio_ok [OF assms(1)]] that by (simp add: s_def)
  have "gap (unat (ratio_bp ((observe_usage input ^^ n) cal))) s \<le> 1" if n: "12 \<le> n"
  proof (cases "calibrated cal")
    case True
    have "gap (unat (ratio_bp cal)) s \<le> 2 ^ n"
    proof -
      have "gap (unat (ratio_bp cal)) s \<le> 4000"
        using learned_ratio_ok [OF assms(1)] sample_ok [of input p] by (auto simp: gap_def ratio_ok_def s_def)
      also have "(4000 :: nat) \<le> 2 ^ 12" by simp
      also have "(2 :: nat) ^ 12 \<le> 2 ^ n" using n by (intro power_increasing) simp_all
      finally show ?thesis .
    qed
    moreover have "(0 :: nat) < 2 ^ n" by simp
    ultimately have "gap (unat (ratio_bp cal)) s + 2 ^ n - 1 < 2 * 2 ^ n" by linarith
    then have "(gap (unat (ratio_bp cal)) s + 2 ^ n - 1) div 2 ^ n < 2" by (simp add: div_less_iff_less_mult)
    then show ?thesis unfolding closed [OF assms(1,2) True] by simp
  next
    case False
    from n obtain k where k: "n = Suc k" by (cases n) auto
    let ?c = "observe_usage input cal"
    have "learned ?c" "prediction ?c = Some p" "calibrated ?c"
      using assms(1) observe_usable(2,3) [OF assms(2-4) learned_ratio_ok [OF assms(1)]] by (simp_all add: learned.observe)
    from closed [OF this, of k] show ?thesis
      using first [OF False] by (simp add: k funpow_swap1 gap_def)
  qed
  then show ?thesis using closed [OF assms(1,2)] first by blast
qed

theorem ratio_converges_witness:
  "gap (unat (ratio_bp ((observe_usage 3000 ^^ 12) (note_prediction 1000 (observe_usage 1000 (note_prediction 1000 identity_calibration)))))) 3000 \<le> 1"
proof -
  let ?cal = "note_prediction 1000 (observe_usage 1000 (note_prediction 1000 identity_calibration))"
  have "learned ?cal" by (intro learned.intros)
  moreover have "prediction ?cal = Some 1000" by (simp add: note_prediction_def)
  moreover have "unat (usage_sample 3000 1000) = 3000" by (simp add: usage_sample_def sat_mul_def clamp_def bp_defs)
  ultimately show ?thesis using ratio_converges [of ?cal 1000 3000 12] by simp
qed

subsection \<open>Figures and windows\<close>

lemma unat_apply_ratio: "unat (apply_ratio cal t) = min (unat t * unat (ratio_bp cal)) (2 ^ 64 - 1) div 1000"
  by (simp add: apply_ratio_def calibration_identity_def unat_div unat_sat_mul)

lemma unat_raw_window:
  assumes "ratio_ok (ratio_bp cal)"
  shows "unat (raw_window cal w) = min (unat w * 1000) (2 ^ 64 - 1) div unat (ratio_bp cal)"
proof -
  have "ratio_bp cal \<noteq> 0" using assms by (auto simp: ratio_ok_def)
  then show ?thesis by (simp add: raw_window_def Let_def calibration_identity_def unat_div unat_sat_mul)
qed

text \<open>
  The window in units of the counter is exactly the boundary of the window in tokens: for a
  window whose thousandfold fits 64 bits, an estimate within it has a calibrated figure within
  the provider's window, and an estimate above it has a figure that reaches the provider's window.
  Without a ratio learned, window and figure are what they were.
\<close>

theorem raw_window_is_boundary:
  assumes "learned cal" and "unat w * 1000 < 2 ^ 64"
  shows "(t \<le> raw_window cal w \<longrightarrow> apply_ratio cal t \<le> w) \<and> (raw_window cal w < t \<longrightarrow> w \<le> apply_ratio cal t) \<and>
    (ratio_bp cal = calibration_identity \<longrightarrow> raw_window cal w = w \<and> (t \<le> w \<longrightarrow> apply_ratio cal t = t))"
proof -
  let ?r = "unat (ratio_bp cal)" and ?W = "unat w * 1000"
  have r: "0 < ?r" using learned_ratio_ok [OF assms(1)] by (simp add: ratio_ok_def)
  have raw: "unat (raw_window cal w) = ?W div ?r"
    using unat_raw_window [OF learned_ratio_ok [OF assms(1)]] assms(2) by (simp add: min_def)
  have "apply_ratio cal t \<le> w" if "t \<le> raw_window cal w"
  proof -
    have "unat t \<le> ?W div ?r" using that by (simp add: word_le_nat_alt raw)
    then have "unat t * ?r \<le> ?W" using r by (metis div_times_less_eq_dividend le_trans mult_le_mono1)
    then have "min (unat t * ?r) (2 ^ 64 - 1) div 1000 \<le> ?W div 1000" by (intro div_le_mono) simp
    then show ?thesis by (simp add: word_le_nat_alt unat_apply_ratio)
  qed
  moreover have "w \<le> apply_ratio cal t" if "raw_window cal w < t"
  proof -
    have "?W div ?r < unat t" using that by (simp add: word_less_nat_alt raw)
    then have "?W \<le> unat t * ?r" using r by (simp add: div_less_iff_less_mult)
    then have "?W \<le> min (unat t * ?r) (2 ^ 64 - 1)" using assms(2) by simp
    then have "?W div 1000 \<le> min (unat t * ?r) (2 ^ 64 - 1) div 1000" by (rule div_le_mono)
    then show ?thesis by (simp add: word_le_nat_alt unat_apply_ratio)
  qed
  moreover have "raw_window cal w = w \<and> (t \<le> w \<longrightarrow> apply_ratio cal t = t)" if "ratio_bp cal = calibration_identity"
  proof -
    have "?r = 1000" using that by (simp add: calibration_identity_def)
    moreover have "unat t * 1000 \<le> 2 ^ 64 - 1" if "t \<le> w"
      using that assms(2) by (simp add: word_le_nat_alt)
    ultimately show ?thesis by (simp add: word_unat_eq_iff raw unat_apply_ratio min_def)
  qed
  ultimately show ?thesis by blast
qed

theorem raw_window_is_boundary_witness:
  "apply_ratio (observe_usage 1500 (note_prediction 1000 identity_calibration)) 133333 \<le> 200000"
proof -
  let ?cal = "observe_usage 1500 (note_prediction 1000 identity_calibration)"
  have "learned ?cal" by (intro learned.intros)
  moreover have "ratio_bp ?cal = 1500"
    by (simp add: observe_usage_def note_prediction_def identity_calibration_def usage_sample_def sat_mul_def clamp_def
        bp_defs Let_def)
  then have "unat (raw_window ?cal 200000) = 133333" by (simp add: unat_raw_window ratio_ok_def)
  then have "133333 \<le> raw_window ?cal 200000" by (simp add: word_le_nat_alt)
  ultimately show ?thesis using raw_window_is_boundary [of ?cal 200000 133333] by simp
qed

text \<open>
  A pass that lands clears the line that asked for it. Where the manager's window is the
  calibrated form of the machine's and both use the same threshold, a payload within the
  manager's compaction line has a calibrated figure at which the machine does not ask for
  compaction again; the two lines may be in different units, but rounding never separates them.
\<close>

theorem landing_clears_trigger:
  assumes "learned cal" and "unat w * 1000 < 2 ^ 64" and "configured cm" and "cm_window cm = raw_window cal w"
    and "context_window p = w" and "compact_threshold p = cm_threshold cm"
    and "landed \<le> compact_threshold_tokens cm" and "context_tokens m = context_figure cal None landed"
  shows "\<not> should_compact p m"
proof -
  let ?r = "unat (ratio_bp cal)" and ?t = "unat (cm_threshold cm)" and ?W = "unat w" and ?T = "unat landed"
  let ?R = "unat (raw_window cal w)"
  have t: "?t \<le> 100" using configured_percent [OF assms(3)] by (simp add: percent_def word_le_nat_alt)
  have "?R = ?W * 1000 div ?r"
    using unat_raw_window [OF learned_ratio_ok [OF assms(1)]] assms(2) by (simp add: min_def)
  then have window: "?R * ?r \<le> ?W * 1000" by simp
  have "?T \<le> min (?R * ?t) (2 ^ 64 - 1) div 100"
    using assms(7) by (simp add: word_le_nat_alt unat_threshold(1) [OF assms(3)] assms(4))
  also have "\<dots> \<le> ?R * ?t div 100" by (intro div_le_mono) simp
  finally have "?T * 100 \<le> ?R * ?t" by linarith
  then have "?T * 100 * ?r \<le> ?R * ?t * ?r" by (rule mult_le_mono1)
  also have "\<dots> = ?R * ?r * ?t" by (simp add: ac_simps)
  also have "\<dots> \<le> ?W * 1000 * ?t" by (rule mult_le_mono1 [OF window])
  finally have "?T * ?r \<le> ?W * ?t * 10" by linarith
  then have "?T * ?r div 1000 \<le> ?W * ?t * 10 div 1000" by (rule div_le_mono)
  also have "?W * ?t * 10 div 1000 = ?W * ?t div 100" by simp
  finally have "?T * ?r div 1000 \<le> ?W * ?t div 100" .
  moreover have "min (?T * ?r) (2 ^ 64 - 1) div 1000 \<le> ?T * ?r div 1000" by (intro div_le_mono) simp
  moreover have "?W * ?t \<le> ?W * 100" using t by (rule mult_le_mono2)
  then have "?W * ?t \<le> 2 ^ 64 - 1" using assms(2) by linarith
  then have "unat (sat_mul w (ucast (cm_threshold cm)) div 100 :: u64) = ?W * ?t div 100"
    using percent_of(1) configured_percent [OF assms(3)] by (simp only: min.absorb1)
  ultimately have "apply_ratio cal landed \<le> sat_mul w (ucast (cm_threshold cm)) div 100"
    by (simp add: word_le_nat_alt unat_apply_ratio)
  then show ?thesis using assms(5,6,8) by (simp add: should_compact_def context_figure_def not_less)
qed

theorem landing_clears_trigger_witness:
  "\<not> should_compact \<lparr>max_turns = 5, context_window = 100, compact_threshold = 80, auto_compact = True\<rparr>
     (set_context_tokens 80 (from_history [user_message ''x'' :: unit message]))"
proof -
  let ?p = "\<lparr>max_turns = 5, context_window = 100, compact_threshold = 80, auto_compact = True\<rparr>"
  let ?m = "set_context_tokens 80 (from_history [user_message ''x'' :: unit message])"
  have fields: "cm_threshold small_manager = 80" "cm_window small_manager = 100"
    by (simp_all add: small_manager_def with_context_window_def new_manager_def)
  have ratio: "ratio_bp identity_calibration = 1000" by (simp add: identity_calibration_def bp_defs)
  then have "raw_window identity_calibration 100 = 100"
    by (simp add: word_unat_eq_iff unat_raw_window ratio_ok_def)
  then have window: "cm_window small_manager = raw_window identity_calibration 100" using fields by simp
  have "80 \<le> compact_threshold_tokens small_manager"
    by (simp add: word_le_nat_alt unat_threshold(1) [OF small_configured] fields)
  moreover have "context_tokens ?m = context_figure identity_calibration None 80"
    by (simp add: set_context_tokens_def from_history_def is_terminal_def context_figure_def word_unat_eq_iff
        unat_apply_ratio ratio)
  ultimately show ?thesis
    by (intro landing_clears_trigger [OF learned.start _ small_configured window]) (simp_all add: fields)
qed

end
