(* ===== verification/Driver.thy ===== *)
theory Driver
  imports Calibration "HOL-Library.Sublist"
begin

section \<open>The driver's context accounting\<close>

text \<open>
  src/src/engine/bare.rs and src/src/engine/bare/compact.rs: how the driver sizes the conversation,
  runs a compaction pass through the context manager, feeds the machine what came of it, and salvages
  a turn the provider refused for its size. The record holds the fields of \<open>BareLoop\<close> these functions
  touch. The two overhead counts are what its caches answer; whether a prepared turn is stashed is a
  flag; the answer of the hook, the provider's disclosure and the moment a cancellation arrives are
  arguments; observer events and metrics are left out.
\<close>

record 'v driver =
  dr_machine :: "'v loop_machine"
  dr_manager :: "'v context_manager option"
  dr_counter :: "'v message list \<Rightarrow> u64"
  dr_calibration :: estimate_calibration
  dr_anchor :: "usage_anchor option"
  dr_system_overhead :: u64
  dr_tools_overhead :: u64
  dr_response_format :: bool
  dr_prepared_turn :: bool
  dr_deferred_transient_tokens :: u64
  dr_salvage_target :: "u64 option"
  dr_overflow_retry :: "usize option"
  dr_truncation_retry :: "usize option"
  dr_context_window :: "u64 option"
  dr_declared_window :: u64
  dr_synced_from_probe :: bool
  dr_max_turns :: usize
  dr_threshold :: u8
  dr_auto :: bool

subsection \<open>Sizes and windows\<close>

definition effective_context_window :: "'v driver \<Rightarrow> u64" where
  "effective_context_window d = (case dr_context_window d of Some w \<Rightarrow> w | None \<Rightarrow> dr_declared_window d)"

definition driver_policy :: "'v driver \<Rightarrow> machine_policy" where
  "driver_policy d =
     \<lparr>max_turns = dr_max_turns d, context_window = effective_context_window d, compact_threshold = dr_threshold d,
      auto_compact = dr_auto d\<rparr>"

definition count_context :: "'v driver \<Rightarrow> 'v message list \<Rightarrow> u64" where
  "count_context d ms = (case dr_manager d of Some cm \<Rightarrow> cm_counter cm ms | None \<Rightarrow> dr_counter d ms)"

definition overhead_tokens :: "'v driver \<Rightarrow> u64" where
  "overhead_tokens d = sat_add (dr_system_overhead d) (dr_tools_overhead d)"

definition request_overhead_tokens :: "'v driver \<Rightarrow> u64" where
  "request_overhead_tokens d =
     (if dr_response_format d then dr_system_overhead d else sat_add (dr_system_overhead d) (dr_tools_overhead d))"

definition driver_figure :: "'v driver \<Rightarrow> u64 \<Rightarrow> u64" where
  "driver_figure d raw = context_figure (dr_calibration d) (dr_anchor d) raw"

definition sync_manager_window :: "u64 \<Rightarrow> 'v driver \<Rightarrow> 'v driver" where
  "sync_manager_window window d =
     (let raw = raw_window (dr_calibration d) window in
      case dr_manager d of
        Some cm \<Rightarrow> if cm_window cm \<noteq> raw then d\<lparr>dr_manager := Some (with_context_window raw cm)\<rparr> else d
      | None \<Rightarrow> d)"

definition resolve_context_window :: "u64 option \<Rightarrow> 'v driver \<Rightarrow> 'v driver" where
  "resolve_context_window disclosure d =
     (if dr_declared_window d = 0 then d\<lparr>dr_context_window := Some 0\<rparr>
      else
        (let declared = dr_declared_window d;
             (window, probed) = (case disclosure of
                Some w \<Rightarrow> if w > 0 then (w, True) else (declared, False) | None \<Rightarrow> (declared, False));
             d1 = d\<lparr>dr_context_window := Some window\<rparr>
         in if probed then (sync_manager_window window d1)\<lparr>dr_synced_from_probe := True\<rparr>
            else if dr_synced_from_probe d1 then sync_manager_window declared (d1\<lparr>dr_synced_from_probe := False\<rparr>)
            else d1))"

text \<open>What the driver learns from the usage a served turn reports.\<close>

definition learn_turn_usage :: "u64 \<Rightarrow> nat \<Rightarrow> 'v driver \<Rightarrow> 'v driver" where
  "learn_turn_usage input_tokens total_turns d =
     (case learn_from_usage input_tokens total_turns (dr_calibration d, dr_anchor d) of
        (cal, anchor) \<Rightarrow>
          (let d1 = d\<lparr>dr_calibration := cal, dr_anchor := anchor\<rparr>
           in if ratio_bp cal \<noteq> ratio_bp (dr_calibration d) \<and> effective_context_window d1 > 0
              then sync_manager_window (effective_context_window d1) d1
              else d1))"

definition rewind_history_to :: "nat \<Rightarrow> 'v driver \<Rightarrow> (nat \<times> 'v driver) result" where
  "rewind_history_to len d =
     (case rewind_to len (dr_machine d) of
        Inl e \<Rightarrow> Inl e
      | Inr (removed, m) \<Rightarrow>
          Inr (removed, if removed > 0
            then d\<lparr>dr_machine := m, dr_anchor := None, dr_prepared_turn := False\<rparr> else d\<lparr>dr_machine := m\<rparr>))"

subsection \<open>A compaction pass\<close>

record pre_compact_answer =
  hook_abort :: bool
  hook_instructions :: "string option"
  hook_additional :: "string list"

datatype 'v compact_pass =
    PassCompacted "'v compaction_outcome" u64 u64
  | PassDeclined u64 u64
  | PassNoProgress u64 u64

record compact_step_failure =
  csf_error :: loop_error
  csf_tokens_before :: u64
  csf_tokens_after :: u64

record 'v compact_step_outcome =
  cso_tokens_before :: u64
  cso_tokens_after :: u64
  cso_compacted :: "'v message list option"
  cso_evicted_messages :: nat

definition overflow_failure :: "'v driver \<Rightarrow> u64 \<Rightarrow> context_overflow \<Rightarrow> compact_step_failure" where
  "overflow_failure d before ov =
     (case ov_compactor_error ov of
        Some cause \<Rightarrow> \<lparr>csf_error = CompactionFailed (ov_tokens_used ov) (ov_context_window ov) cause,
                       csf_tokens_before = before, csf_tokens_after = before\<rparr>
      | None \<Rightarrow> \<lparr>csf_error = ContextExceeded (ov_tokens_used ov) (ov_context_window ov),
                  csf_tokens_before = before, csf_tokens_after = driver_figure d (ov_tokens_used ov)\<rparr>)"

text \<open>The sizing a pass is given.\<close>

definition pass_sizing :: "'v driver \<Rightarrow> compact_sizing" where
  "pass_sizing d = \<lparr>reserved_tokens = sat_add (overhead_tokens d) (dr_deferred_transient_tokens d),
     target_override = dr_salvage_target d\<rparr>"

definition conclude_pass ::
  "'v driver \<Rightarrow> compact_reason \<Rightarrow> u64 \<Rightarrow> context_overflow + 'v ensure_context_result \<Rightarrow>
     compact_step_failure + 'v compact_pass" where
  "conclude_pass d reason before result =
     (case result of
        Inr (Compacted oc) \<Rightarrow>
          (let after = driver_figure d (sat_add (oc_tokens_after oc) (overhead_tokens d));
               outgrew = (reason = Manual \<and> length (oc_messages oc) > length (history (dr_machine d)))
           in Inr (if after \<ge> before \<or> outgrew then PassNoProgress before after else PassCompacted oc before after))
      | Inr (NoAction ms) \<Rightarrow>
          Inr (PassDeclined before (driver_figure d (sat_add (count_context d ms) (overhead_tokens d))))
      | Inl ov \<Rightarrow> Inl (overflow_failure d before ov))"

definition compaction_pass ::
  "pre_compact_answer \<Rightarrow> nat \<Rightarrow> compact_reason \<Rightarrow> 'v driver \<Rightarrow> (compact_step_failure + 'v compact_pass) \<times> 'v driver" where
  "compaction_pass hook turn reason d =
     (let hist = full_history (dr_machine d);
          before = driver_figure d (sat_add (count_context d hist) (overhead_tokens d))
      in case dr_manager d of
           None \<Rightarrow> (Inr (PassDeclined before before), d)
         | Some cm \<Rightarrow>
             if hook_abort hook then (Inr (PassDeclined before before), d)
             else
               (let sizing = pass_sizing d;
                    d1 = d\<lparr>dr_deferred_transient_tokens := 0, dr_salvage_target := None\<rparr>
                in (conclude_pass d1 reason before
                      (compact_with_reason cm hist turn reason (hook_instructions hook) (hook_additional hook) sizing),
                    d1)))"

definition run_compaction ::
  "pre_compact_answer \<Rightarrow> nat \<Rightarrow> compact_reason \<Rightarrow> 'v driver \<Rightarrow>
     (compact_step_failure + 'v compact_step_outcome) \<times> 'v driver" where
  "run_compaction hook turn reason d =
     (case compaction_pass hook turn reason d of
        (Inl failure, d1) \<Rightarrow> (Inl failure, d1)
      | (Inr (PassCompacted oc before after), d1) \<Rightarrow>
          (Inr \<lparr>cso_tokens_before = before, cso_tokens_after = after, cso_compacted = Some (oc_messages oc),
                cso_evicted_messages = length (oc_evicted oc)\<rparr>, d1)
      | (Inr (PassDeclined before after), d1) \<Rightarrow>
          (Inr \<lparr>cso_tokens_before = before, cso_tokens_after = after, cso_compacted = None,
                cso_evicted_messages = 0\<rparr>, d1)
      | (Inr (PassNoProgress before after), d1) \<Rightarrow>
          (Inl \<lparr>csf_error = CompactionStalled after, csf_tokens_before = before, csf_tokens_after = after\<rparr>, d1))"

text \<open>When a cancellation wins the race: before the pass is polled, or while it is under way.\<close>

datatype cancellation = Uncancelled | CancelledFirst | CancelledDuring

definition deferrable :: "compact_reason \<Rightarrow> loop_error \<Rightarrow> u64 option" where
  "deferrable reason e =
     (case e of
        CompactionFailed used limit _ \<Rightarrow> if reason = ThresholdExceeded \<and> used < limit then Some used else None
      | _ \<Rightarrow> None)"

definition handle_compact ::
  "cancellation \<Rightarrow> pre_compact_answer \<Rightarrow> compact_reason \<Rightarrow> 'v driver \<Rightarrow> unit result \<times> 'v driver" where
  "handle_compact cancellation hook reason d =
     (let d0 = d\<lparr>dr_anchor := None\<rparr>;
          turn = unat (turns_taken (dr_machine d0))
      in case cancellation of
           CancelledFirst \<Rightarrow> (Inl ErrCancelled, d0)
         | CancelledDuring \<Rightarrow> (Inl ErrCancelled, snd (run_compaction hook turn reason d0))
         | Uncancelled \<Rightarrow>
             (case run_compaction hook turn reason d0 of
                (Inl failure, d1) \<Rightarrow>
                  (case deferrable reason (csf_error failure) of
                     Some used \<Rightarrow>
                       (Inr (), d1\<lparr>dr_machine := compaction_deferred (driver_figure d1 used) (dr_machine d1)\<rparr>)
                   | None \<Rightarrow> (Inl (csf_error failure), d1))
              | (Inr outcome, d1) \<Rightarrow>
                  (Inr (),
                   d1\<lparr>dr_machine :=
                     (case cso_compacted outcome of
                        Some compacted \<Rightarrow>
                          snd (compaction_result compacted (cso_tokens_before outcome) (cso_tokens_after outcome) (dr_machine d1))
                      | None \<Rightarrow>
                          if reason = ThresholdExceeded \<and> cso_tokens_after outcome < effective_context_window d1 \<and>
                             cso_tokens_after outcome \<ge> cso_tokens_before outcome
                          then compaction_deferred (cso_tokens_after outcome) (dr_machine d1)
                          else snd (compaction_noop (cso_tokens_before outcome) (cso_tokens_after outcome) (dr_machine d1)))\<rparr>)))"

definition driver_compact_manual ::
  "pre_compact_answer \<Rightarrow> 'v driver \<Rightarrow> 'v ensure_context_result result \<times> 'v driver" where
  "driver_compact_manual hook d =
     (case guard_manual_compaction (dr_machine d) of
        Inl e \<Rightarrow> (Inl e, d)
      | Inr _ \<Rightarrow>
          (let history_len = length (history (dr_machine d)) in
           case compaction_pass hook (unat (turns_taken (dr_machine d))) Manual d of
             (Inr (PassCompacted oc before after), d1) \<Rightarrow>
               (case install_manual_compaction (oc_messages oc) history_len after (dr_machine d1) of
                  Inl e \<Rightarrow> (Inl e, d1)
                | Inr m \<Rightarrow> (Inr (Compacted oc), d1\<lparr>dr_machine := m, dr_anchor := None, dr_prepared_turn := False\<rparr>))
           | (Inr (PassDeclined before after), d1) \<Rightarrow> (Inr (NoAction (full_history (dr_machine d1))), d1)
           | (Inr (PassNoProgress before after), d1) \<Rightarrow> (Inl (CompactionStalled after), d1)
           | (Inl failure, d1) \<Rightarrow> (Inl (csf_error failure), d1)))"

subsection \<open>Errors and the end of a run\<close>

definition set_error_state :: "loop_error \<Rightarrow> 'v driver \<Rightarrow> 'v driver" where
  "set_error_state e d =
     (if e = ErrCancelled
      then d\<lparr>dr_machine := snd (next_step (driver_policy d) (cancel (dr_machine d)))\<rparr>
      else d\<lparr>dr_machine := fail e (dr_machine d)\<rparr>)"

text \<open>The arm of the drive loop that serves a compaction step.\<close>

definition serve_compaction ::
  "cancellation \<Rightarrow> pre_compact_answer \<Rightarrow> compact_reason \<Rightarrow> 'v driver \<Rightarrow> unit result \<times> 'v driver" where
  "serve_compaction cancellation hook reason d =
     (case handle_compact cancellation hook reason (d\<lparr>dr_prepared_turn := False\<rparr>) of
        (Inl e, d1) \<Rightarrow> (Inl e, set_error_state e d1)
      | (Inr _, d1) \<Rightarrow> (Inr (), d1))"

definition overflow_phrases :: "string list" where
  "overflow_phrases =
     [''context length'', ''context_length'', ''max_context'', ''too many tokens'', ''exceeds maximum'',
      ''max tokens'', ''prompt is too long'']"

definition message_reports_context_overflow :: "string \<Rightarrow> bool" where
  "message_reports_context_overflow message =
     (let message = lowercase message in \<exists>phrase \<in> set overflow_phrases. sublist phrase message)"

definition conversation_cannot_fit :: "loop_error \<Rightarrow> bool" where
  "conversation_cannot_fit e =
     (case e of
        ContextExceeded _ _ \<Rightarrow> True
      | CompactionStalled _ \<Rightarrow> True
      | Api message \<Rightarrow> message_reports_context_overflow message
      | _ \<Rightarrow> False)"

text \<open>What the end of a run does to the machine.\<close>

definition finalize_machine :: "loop_error option \<Rightarrow> 'v loop_machine \<Rightarrow> 'v loop_machine" where
  "finalize_machine err m =
     (case err of
        None \<Rightarrow> commit_pending m
      | Some e \<Rightarrow> if conversation_cannot_fit e then discard_pending m else snd (salvage_pending m))"

subsection \<open>Salvage\<close>

definition salvage_line :: "'v driver \<Rightarrow> u64" where
  "salvage_line d =
     (let payload = sat_add (count_context d (full_history (dr_machine d))) (request_overhead_tokens d);
          half = payload div 2
      in case dr_manager d of Some cm \<Rightarrow> min half (compact_target_tokens cm) | None \<Rightarrow> half)"

definition exhausted :: "'v driver \<Rightarrow> loop_error" where
  "exhausted d =
     (let limit = effective_context_window d
      in ContextExceeded (max (context_tokens (dr_machine d)) (sat_add limit 1)) limit)"

text \<open>Ask the machine for an emergency pass over a payload declared too large, and whether it agrees.\<close>

definition request_shrink :: "'v driver \<Rightarrow> bool \<times> 'v driver" where
  "request_shrink d =
     (if length (full_history (dr_machine d)) > 1
      then
        (let d1 = d\<lparr>dr_salvage_target := Some (salvage_line d),
                    dr_machine := set_context_tokens (sat_add (effective_context_window d) 1) (dr_machine d)\<rparr>;
             (step, m) = next_step (driver_policy d1) (dr_machine d1)
         in (case step of CompactStep _ \<Rightarrow> True | _ \<Rightarrow> False, d1\<lparr>dr_machine := m\<rparr>))
      else (False, d))"

definition truncation_salvage :: "usize \<Rightarrow> 'v driver \<Rightarrow> unit result \<times> 'v driver" where
  "truncation_salvage turn d =
     (if dr_truncation_retry d = Some turn then (Inl (exhausted d), d)
      else
        (case request_shrink (d\<lparr>dr_truncation_retry := Some turn\<rparr>) of
           (compacted, d1) \<Rightarrow>
             if compacted then (Inr (), d1\<lparr>dr_anchor := None\<rparr>) else (Inl (exhausted d1), d1)))"

definition overflow_salvage :: "usize \<Rightarrow> loop_error \<Rightarrow> 'v driver \<Rightarrow> unit result option \<times> 'v driver" where
  "overflow_salvage turn e d =
     (if \<not> (case e of Api message \<Rightarrow> message_reports_context_overflow message | _ \<Rightarrow> False) then (None, d)
      else if dr_overflow_retry d = Some turn then (Some (Inl (exhausted d)), d)
      else
        (let shrinkable = length (full_history (dr_machine d)) > 1 in
         case request_shrink (d\<lparr>dr_overflow_retry := Some turn\<rparr>) of
           (compacted, d1) \<Rightarrow>
             if \<not> compacted \<and> shrinkable then (None, d1)
             else
               (let d2 = (if shrinkable then d1
                          else d1\<lparr>dr_machine := set_context_tokens (driver_figure d1
                                 (sat_add (count_context d1 (full_history (dr_machine d1))) (request_overhead_tokens d1)))
                               (dr_machine d1)\<rparr>)
                in (Some (Inr ()), d2\<lparr>dr_anchor := None\<rparr>))))"

subsection \<open>Monotone figures\<close>

lemma apply_ratio_mono: "t \<le> t' \<Longrightarrow> apply_ratio cal t \<le> apply_ratio cal t'"
  unfolding word_le_nat_alt unat_apply_ratio by (intro div_le_mono min.mono mult_le_mono1) simp_all

lemma sat_add_mono_right: "b \<le> b' \<Longrightarrow> sat_add a b \<le> sat_add a b'"
  unfolding word_le_nat_alt unat_sat_add by (intro min.mono add_mono) simp_all

lemma figure_mono: "t \<le> t' \<Longrightarrow> context_figure cal anchor t \<le> context_figure cal anchor t'"
proof -
  assume le: "t \<le> t'"
  have "sat_sub t r \<le> sat_sub t' r" for r using le by (simp add: word_le_nat_alt unat_sat_sub diff_le_mono)
  then have "apply_ratio cal (sat_sub t r) \<le> apply_ratio cal (sat_sub t' r)" for r by (rule apply_ratio_mono)
  then have "sat_add i (apply_ratio cal (sat_sub t r)) \<le> sat_add i (apply_ratio cal (sat_sub t' r))" for i r
    by (rule sat_add_mono_right)
  then show ?thesis using apply_ratio_mono [OF le] by (simp add: context_figure_def split: option.split)
qed

lemma driver_figure_mono: "t \<le> t' \<Longrightarrow> driver_figure d t \<le> driver_figure d t'"
  by (simp add: driver_figure_def figure_mono)

subsection \<open>Serving a compaction step\<close>

text \<open>The figure a pass starts from, and the driver it leaves.\<close>

definition figure_before :: "'v driver \<Rightarrow> u64" where
  "figure_before d =
     driver_figure d (sat_add (count_context d (full_history (dr_machine d))) (overhead_tokens d))"

lemma pass_keeps_driver:
  "snd (compaction_pass hook turn reason d) \<in> {d, d\<lparr>dr_deferred_transient_tokens := 0, dr_salvage_target := None\<rparr>}"
  by (auto simp: compaction_pass_def Let_def split: option.splits)

lemma pass_leaves:
  fixes hook turn reason d
  defines "d1 \<equiv> snd (compaction_pass hook turn reason d)"
  shows "dr_machine d1 = dr_machine d" and "dr_anchor d1 = dr_anchor d" and "driver_figure d1 = driver_figure d"
    and "effective_context_window d1 = effective_context_window d"
  using pass_keeps_driver [of hook turn reason d] unfolding d1_def
  by (auto simp: driver_figure_def fun_eq_iff effective_context_window_def split: option.split)

text \<open>What a pass concludes: progress is strict, and a declined pass has nothing to give.\<close>

lemma declined_at_least_before:
  assumes "dr_manager d = Some cm"
    and "compact_with_reason cm (full_history (dr_machine d)) turn reason i a sizing = Inr (NoAction ms)"
  shows "figure_before d \<le> driver_figure d (sat_add (count_context d ms) (overhead_tokens d))"
proof -
  have "cm_counter cm (full_history (dr_machine d)) \<le> cm_counter cm ms"
  proof (cases "full_history (dr_machine d) = []")
    case True
    then show ?thesis using assms(2) by (simp add: compact_with_reason_def Let_def)
  next
    case False
    from pass_promises [OF this assms(2)] show ?thesis by simp
  qed
  then have "count_context d (full_history (dr_machine d)) \<le> count_context d ms" by (simp add: count_context_def assms(1))
  then show ?thesis unfolding figure_before_def by (intro driver_figure_mono sat_add_mono)
qed

lemma compaction_pass_cases:
  obtains (declined) after where "fst (compaction_pass hook turn reason d) = Inr (PassDeclined (figure_before d) after)"
      and "figure_before d \<le> after"
  | (stalled) after where "fst (compaction_pass hook turn reason d) = Inr (PassNoProgress (figure_before d) after)"
  | (compacted) oc after cm i a where "fst (compaction_pass hook turn reason d) = Inr (PassCompacted oc (figure_before d) after)"
      and "after < figure_before d" and "dr_manager d = Some cm"
      and "compact_with_reason cm (full_history (dr_machine d)) turn reason i a (pass_sizing d) = Inr (Compacted oc)"
      and "after = driver_figure d (sat_add (oc_tokens_after oc) (overhead_tokens d))"
  | (failed) failure cm i a ov where "fst (compaction_pass hook turn reason d) = Inl failure"
      and "dr_manager d = Some cm"
      and "compact_with_reason cm (full_history (dr_machine d)) turn reason i a (pass_sizing d) = Inl ov"
      and "csf_error failure = (case ov_compactor_error ov of
        Some cause \<Rightarrow> CompactionFailed (ov_tokens_used ov) (ov_context_window ov) cause
      | None \<Rightarrow> ContextExceeded (ov_tokens_used ov) (ov_context_window ov))"
proof -
  let ?pass = "fst (compaction_pass hook turn reason d)"
  show ?thesis
  proof (cases "dr_manager d")
    case None
    then have "?pass = Inr (PassDeclined (figure_before d) (figure_before d))"
      by (simp add: compaction_pass_def Let_def figure_before_def)
    then show ?thesis by (rule declined) simp
  next
    case (Some cm)
    let ?d1 = "d\<lparr>dr_deferred_transient_tokens := 0, dr_salvage_target := None\<rparr>"
    let ?result = "compact_with_reason cm (full_history (dr_machine d)) turn reason (hook_instructions hook)
      (hook_additional hook) (pass_sizing d)"
    have same: "driver_figure ?d1 = driver_figure d" "overhead_tokens ?d1 = overhead_tokens d"
      "count_context ?d1 = count_context d" "dr_machine ?d1 = dr_machine d"
      by (simp_all add: driver_figure_def overhead_tokens_def count_context_def fun_eq_iff split: option.split)
    show ?thesis
    proof (cases "hook_abort hook")
      case True
      then have "?pass = Inr (PassDeclined (figure_before d) (figure_before d))"
        using Some by (simp add: compaction_pass_def Let_def figure_before_def)
      then show ?thesis by (rule declined) simp
    next
      case False
      then have pass: "?pass = conclude_pass ?d1 reason (figure_before d) ?result"
        using Some by (simp add: compaction_pass_def Let_def figure_before_def)
      show ?thesis
      proof (cases ?result)
        case (Inl ov)
        then show ?thesis
          by (intro failed [OF _ Some Inl]) (auto simp: pass conclude_pass_def overflow_failure_def split: option.splits)
      next
        case (Inr r)
        show ?thesis
        proof (cases r)
          case (Compacted oc)
          let ?after = "driver_figure d (sat_add (oc_tokens_after oc) (overhead_tokens d))"
          show ?thesis
          proof (cases "?pass = Inr (PassNoProgress (figure_before d) ?after)")
            case False
            then have "?pass = Inr (PassCompacted oc (figure_before d) ?after)" "?after < figure_before d"
              using Inr Compacted by (auto simp: pass conclude_pass_def Let_def same split: if_splits)
            then show ?thesis using Inr Compacted by (intro compacted [OF _ _ Some]) simp_all
          qed (rule stalled)
        next
          case (NoAction ms)
          then have "?pass = Inr (PassDeclined (figure_before d) (driver_figure d (sat_add (count_context d ms) (overhead_tokens d))))"
            using Inr by (simp add: pass conclude_pass_def Let_def same)
          then show ?thesis
            using declined_at_least_before [OF Some] Inr NoAction by (intro declined) simp_all
        qed
      qed
    qed
  qed
qed

text \<open>
  When a threshold step is put off: the pass had nothing to give and what it measured fits the
  window, or the compactor failed and the size it failed at fits the window of the manager.
\<close>

definition compactor_failed :: "compact_reason \<Rightarrow> 'v driver \<Rightarrow> u64 \<Rightarrow> u64 \<Rightarrow> bool" where
  "compactor_failed reason d used limit \<longleftrightarrow>
     (\<exists>cm i a ov. dr_manager d = Some cm \<and>
        compact_with_reason cm (full_history (dr_machine d)) (unat (turns_taken (dr_machine d))) reason i a (pass_sizing d) = Inl ov \<and>
        ov_compactor_error ov \<noteq> None \<and> ov_tokens_used ov = used \<and> ov_context_window ov = limit)"

definition puts_off :: "'v driver \<Rightarrow> u64 \<Rightarrow> bool" where
  "puts_off d after \<longleftrightarrow>
     figure_before (d\<lparr>dr_anchor := None\<rparr>) \<le> after \<and> after < effective_context_window d \<or>
     (\<exists>used limit. compactor_failed ThresholdExceeded d used limit \<and> used < limit \<and>
        after = driver_figure (d\<lparr>dr_anchor := None\<rparr>) used)"

text \<open>How the machine stands after a compaction step was served without an error.\<close>

datatype 'v settled = Adopted "'v message list" u64 | Deferred u64 | Stalled u64

fun settled_machine :: "'v settled \<Rightarrow> 'v loop_machine \<Rightarrow> 'v loop_machine" where
  "settled_machine (Adopted ms after) m =
     m\<lparr>history := coalesce_adjacent_assistants ms, pending := [], context_tokens := after, mstate := Start\<rparr>"
| "settled_machine (Deferred after) m = m\<lparr>context_tokens := after, deferred_compaction := True, mstate := Start\<rparr>"
| "settled_machine (Stalled after) m = m\<lparr>mstate := Terminal (Failed (CompactionStalled after))\<rparr>"

lemma machine_unanchored: "dr_machine (d\<lparr>dr_anchor := None\<rparr>) = dr_machine d" by simp

lemma handle_compact_cases:
  assumes "\<not> is_terminal (dr_machine d)" and "handle_compact Uncancelled hook reason d = (r, d')"
  obtains (adopted) oc after cm i a sizing where "r = Inr ()" and "dr_manager d = Some cm"
      and "after < figure_before (d\<lparr>dr_anchor := None\<rparr>)"
      and "compact_with_reason cm (full_history (dr_machine d)) (unat (turns_taken (dr_machine d))) reason i a sizing =
        Inr (Compacted oc)"
      and "dr_machine d' = settled_machine (Adopted (oc_messages oc) after) (dr_machine d)"
      and "after = driver_figure (d\<lparr>dr_anchor := None\<rparr>) (sat_add (oc_tokens_after oc) (overhead_tokens d))"
  | (deferred) after where "r = Inr ()" and "reason = ThresholdExceeded" and "puts_off d after"
      and "dr_machine d' = settled_machine (Deferred after) (dr_machine d)"
  | (stalled) after where "r = Inr ()" and "figure_before (d\<lparr>dr_anchor := None\<rparr>) \<le> after"
      and "\<not> (reason = ThresholdExceeded \<and> after < effective_context_window d)"
      and "dr_machine d' = settled_machine (Stalled after) (dr_machine d)"
  | (no_progress) after where "r = Inl (CompactionStalled after)" and "dr_machine d' = dr_machine d"
  | (failed) cm i a sizing ov where "dr_manager d = Some cm"
      and "compact_with_reason cm (full_history (dr_machine d)) (unat (turns_taken (dr_machine d))) reason i a sizing = Inl ov"
      and "r = Inl (case ov_compactor_error ov of
        Some cause \<Rightarrow> CompactionFailed (ov_tokens_used ov) (ov_context_window ov) cause
      | None \<Rightarrow> ContextExceeded (ov_tokens_used ov) (ov_context_window ov))" and "dr_machine d' = dr_machine d"
proof -
  let ?d0 = "d\<lparr>dr_anchor := None\<rparr>" and ?turn = "unat (turns_taken (dr_machine d))"
  let ?d1 = "snd (compaction_pass hook ?turn reason ?d0)"
  have machine: "dr_machine ?d1 = dr_machine d" by (simp add: pass_leaves)
  have window: "effective_context_window ?d1 = effective_context_window d" and figure: "driver_figure ?d1 = driver_figure ?d0"
    using pass_leaves(3,4) [of hook ?turn reason ?d0]
    by (simp_all add: effective_context_window_def [of d] effective_context_window_def [of ?d0] split: option.split)
  have sizing: "pass_sizing ?d0 = pass_sizing d" by (simp add: pass_sizing_def overhead_tokens_def)
  have run: "handle_compact Uncancelled hook reason d =
      (case run_compaction hook ?turn reason ?d0 of
         (Inl failure, d1) \<Rightarrow>
           (case deferrable reason (csf_error failure) of
              Some used \<Rightarrow> (Inr (), d1\<lparr>dr_machine := compaction_deferred (driver_figure d1 used) (dr_machine d1)\<rparr>)
            | None \<Rightarrow> (Inl (csf_error failure), d1))
       | (Inr outcome, d1) \<Rightarrow>
           (Inr (), d1\<lparr>dr_machine :=
              (case cso_compacted outcome of
                 Some compacted \<Rightarrow>
                   snd (compaction_result compacted (cso_tokens_before outcome) (cso_tokens_after outcome) (dr_machine d1))
               | None \<Rightarrow>
                   if reason = ThresholdExceeded \<and> cso_tokens_after outcome < effective_context_window d1 \<and>
                      cso_tokens_after outcome \<ge> cso_tokens_before outcome
                   then compaction_deferred (cso_tokens_after outcome) (dr_machine d1)
                   else snd (compaction_noop (cso_tokens_before outcome) (cso_tokens_after outcome) (dr_machine d1)))\<rparr>))"
    by (simp add: handle_compact_def Let_def)
  show ?thesis
  proof (cases rule: compaction_pass_cases [where hook = hook and turn = ?turn and reason = reason and d = ?d0])
    case (declined after)
    then have "run_compaction hook ?turn reason ?d0 =
        (Inr \<lparr>cso_tokens_before = figure_before ?d0, cso_tokens_after = after, cso_compacted = None,
              cso_evicted_messages = 0\<rparr>, ?d1)"
      by (simp add: run_compaction_def split_beta)
    then have "r = Inr ()" and "dr_machine d' =
        (if reason = ThresholdExceeded \<and> after < effective_context_window d
         then settled_machine (Deferred after) (dr_machine d) else settled_machine (Stalled after) (dr_machine d))"
      using assms declined(2) machine window
      by (auto simp: run compaction_deferred_def compaction_noop_def terminate_on_no_progress_def not_less)
    then show ?thesis using declined(2) deferred [of after] stalled [of after]
      by (cases "reason = ThresholdExceeded \<and> after < effective_context_window d") (auto simp: puts_off_def)
  next
    case (stalled after)
    then have "run_compaction hook ?turn reason ?d0 =
        (Inl \<lparr>csf_error = CompactionStalled after, csf_tokens_before = figure_before ?d0, csf_tokens_after = after\<rparr>, ?d1)"
      by (simp add: run_compaction_def split_beta)
    then have "r = Inl (CompactionStalled after)" "dr_machine d' = dr_machine d"
      using assms(2) machine by (auto simp: run deferrable_def)
    then show ?thesis by (rule no_progress)
  next
    case (compacted oc after cm i a)
    then have "run_compaction hook ?turn reason ?d0 =
        (Inr \<lparr>cso_tokens_before = figure_before ?d0, cso_tokens_after = after, cso_compacted = Some (oc_messages oc),
              cso_evicted_messages = length (oc_evicted oc)\<rparr>, ?d1)"
      by (simp add: run_compaction_def split_beta)
    then have "r = Inr ()" "dr_machine d' = settled_machine (Adopted (oc_messages oc) after) (dr_machine d)"
      using assms compacted(2) machine by (auto simp: run compaction_result_def terminate_on_no_progress_def)
    moreover have "overhead_tokens ?d0 = overhead_tokens d" by (simp add: overhead_tokens_def)
    ultimately show ?thesis using compacted(2-5) by (intro adopted) simp_all
  next
    case (failed failure cm i a ov)
    then have go: "run_compaction hook ?turn reason ?d0 = (Inl failure, ?d1)"
      by (simp add: run_compaction_def split_beta)
    show ?thesis
    proof (cases "deferrable reason (csf_error failure)")
      case None
      then have "r = Inl (csf_error failure)" "dr_machine d' = dr_machine d" using assms(2) go machine by (auto simp: run)
      then show ?thesis using failed(2-4) by (intro that(5)) simp_all
    next
      case (Some used)
      then obtain limit cause where error: "csf_error failure = CompactionFailed used limit cause"
        and reason: "reason = ThresholdExceeded" "used < limit"
        by (auto simp: deferrable_def split: loop_error.splits if_splits)
      have "ov_compactor_error ov \<noteq> None" "ov_tokens_used ov = used" "ov_context_window ov = limit"
        using failed(4) error by (auto split: option.splits)
      then have "compactor_failed ThresholdExceeded d used limit"
        using failed(2,3) reason(1) sizing unfolding compactor_failed_def by auto
      then have "puts_off d (driver_figure ?d0 used)" using reason(2) unfolding puts_off_def by blast
      moreover have "r = Inr ()" "dr_machine d' = settled_machine (Deferred (driver_figure ?d0 used)) (dr_machine d)"
        using assms go machine Some figure by (auto simp: run compaction_deferred_def)
      ultimately show ?thesis using deferred reason(1) by blast
    qed
  qed
qed

definition settles :: "compact_reason \<Rightarrow> 'v driver \<Rightarrow> 'v settled \<Rightarrow> bool" where
  "settles reason d s =
     (case s of
        Adopted ms after \<Rightarrow> after < figure_before (d\<lparr>dr_anchor := None\<rparr>) \<and>
          (\<exists>cm. dr_manager d = Some cm \<and> (\<forall>pin \<in> set (pinned_messages cm). carries ms pin))
      | Deferred after \<Rightarrow> reason = ThresholdExceeded \<and> puts_off d after
      | Stalled after \<Rightarrow> figure_before (d\<lparr>dr_anchor := None\<rparr>) \<le> after \<and>
          \<not> (reason = ThresholdExceeded \<and> after < effective_context_window d))"

definition compaction_error :: "loop_error \<Rightarrow> bool" where
  "compaction_error e \<longleftrightarrow>
     (\<exists>used limit cause. e \<in> {ContextExceeded used limit, CompactionFailed used limit cause, CompactionStalled used})"

lemma handle_compact_settles:
  assumes "\<not> is_terminal (dr_machine d)" and "handle_compact Uncancelled hook reason d = (r, d')"
  shows "(\<exists>s. r = Inr () \<and> settles reason d s \<and> dr_machine d' = settled_machine s (dr_machine d)) \<or>
    (\<exists>e. r = Inl e \<and> compaction_error e \<and> dr_machine d' = dr_machine d)"
proof (cases rule: handle_compact_cases [OF assms])
  case (1 oc after cm i a sizing)
  have "full_history (dr_machine d) \<noteq> []" using 1(4) by (auto simp: compact_with_reason_def Let_def)
  from pass_promises [OF this 1(4)] have "settles reason d (Adopted (oc_messages oc) after)"
    using 1(2,3) by (simp add: settles_def)
  then show ?thesis using 1(1,5) by blast
next
  case (2 after)
  then have "settles reason d (Deferred after)" by (simp add: settles_def)
  then show ?thesis using 2 by blast
next
  case (3 after)
  then have "settles reason d (Stalled after)" by (simp add: settles_def)
  then show ?thesis using 3 by blast
next
  case (4 after)
  then show ?thesis by (auto simp: compaction_error_def)
next
  case (5 cm i a sizing ov)
  then show ?thesis by (auto simp: compaction_error_def split: option.split)
qed

lemma coalesce_nonempty: "coalesce_adjacent_assistants ms = [] \<longleftrightarrow> ms = []"
  by (cases ms rule: rev_cases) (simp_all add: coalesce_snoc)

lemma run_compaction_driver: "snd (run_compaction hook turn reason d) = snd (compaction_pass hook turn reason d)"
  by (auto simp: run_compaction_def split: prod.split sum.split compact_pass.split)

text \<open>A cancellation wins over whatever the pass would have done: the machine is as it was.\<close>

lemma handle_compact_cancelled:
  assumes "handle_compact cancellation hook reason d = (r, d')" and "cancellation \<noteq> Uncancelled"
  shows "r = Inl ErrCancelled \<and> dr_machine d' = dr_machine d"
  using assms by (cases cancellation) (auto simp: handle_compact_def Let_def run_compaction_driver pass_leaves)

text \<open>
  C7: serving a compaction step ends in one of five ways. The machine adopts a history that carries
  every pin, coalesced and strictly smaller in the figure the driver compares; or a threshold step
  is put off until the next response of the model, the history untouched, and then either the pass
  had nothing to give and what it measured is below the window, or the compactor failed at a size
  below the manager's window and the figure is that size; or the run ends as stalled, the history
  untouched, because the pass gave nothing back and putting it off was not open; or an error says that
  the context was exceeded, that the compactor failed or that a result was not smaller, and the
  machine is as it was; or the run was cancelled, before or during the pass, and the machine is as it
  was. Whatever the manager and its compactor do, nothing else happens to a machine that is not
  terminal.
\<close>

theorem compaction_step_outcomes:
  assumes "\<not> is_terminal (dr_machine d)"
  shows "case handle_compact cancellation hook reason d of (r, d') \<Rightarrow>
    (case r of
       Inr _ \<Rightarrow> cancellation = Uncancelled \<and>
         (\<exists>s. settles reason d s \<and> dr_machine d' = settled_machine s (dr_machine d))
     | Inl e \<Rightarrow> dr_machine d' = dr_machine d \<and>
         (if cancellation = Uncancelled then compaction_error e else e = ErrCancelled))"
proof -
  obtain r d' where served: "handle_compact cancellation hook reason d = (r, d')" by fastforce
  show ?thesis
  proof (cases "cancellation = Uncancelled")
    case True
    from handle_compact_settles [OF assms served [unfolded True]] True show ?thesis
      unfolding served prod.case by (cases r) auto
  next
    case False
    with handle_compact_cancelled [OF served] show ?thesis unfolding served by simp
  qed
qed

definition sample_driver :: "unit loop_machine \<Rightarrow> unit driver" where
  "sample_driver m =
     \<lparr>dr_machine = m, dr_manager = Some small_manager, dr_counter = heuristic_count (\<lambda>_. []),
      dr_calibration = identity_calibration, dr_anchor = None, dr_system_overhead = 0, dr_tools_overhead = 0,
      dr_response_format = False, dr_prepared_turn = False, dr_deferred_transient_tokens = 0,
      dr_salvage_target = None, dr_overflow_retry = None, dr_truncation_retry = None,
      dr_context_window = None, dr_declared_window = 100, dr_synced_from_probe = False, dr_max_turns = 5,
      dr_threshold = 80, dr_auto = True\<rparr>"

definition allow_hook :: pre_compact_answer where
  "allow_hook = \<lparr>hook_abort = False, hook_instructions = None, hook_additional = []\<rparr>"

theorem compaction_step_outcomes_witness:
  "\<exists>r d' s e. handle_compact Uncancelled allow_hook Emergency (sample_driver (from_history sample_history)) = (r, d') \<and>
     (r = Inr () \<and> settles Emergency (sample_driver (from_history sample_history)) s \<or> r = Inl e \<and> compaction_error e)"
proof -
  have "\<not> is_terminal (dr_machine (sample_driver (from_history sample_history)))"
    by (simp add: sample_driver_def from_history_def is_terminal_def)
  from compaction_step_outcomes [OF this, where hook = allow_hook and reason = Emergency and cancellation = Uncancelled]
  show ?thesis
    by (cases "handle_compact Uncancelled allow_hook Emergency (sample_driver (from_history sample_history))")
      (auto split: sum.splits)
qed

subsection \<open>The driver with the truncating compactor\<close>

text \<open>
  C8: with the truncating compactor a compaction step never fails for the compactor's sake, and the
  history the machine goes on with keeps calls and results together. A step that ends in an error, a
  cancellation included, leaves the machine exactly as it was, and the error is not a failure of the
  compactor. A step that is served either leaves both buffers of the conversation as they were, or
  installs one that is not empty, in which every call has its result, with a strictly smaller figure
  and nothing pending. Assumed of the conversation: it has no call without a result and is not made
  of orphaned results alone; of the manager: it was built by its configuration methods, with a window
  below the greatest 64-bit number (saturation would hide an overflow there).
\<close>

theorem truncating_step_sound:
  assumes "\<not> is_terminal (dr_machine d)" and "dr_manager d = Some cm" and "configured cm"
    and "cm_compactor cm = truncating_compact json c" and "cm_window cm < - 1"
    and "\<not> all_parts_lone_results (scan (full_history (dr_machine d)))"
    and "\<And>pos. mate_at (scan (full_history (dr_machine d))) pos \<noteq> Some LoneCall"
    and "handle_compact cancellation hook reason d = (r, d')"
  shows "case r of
      Inl e \<Rightarrow> dr_machine d' = dr_machine d \<and> (\<forall>used limit cause. e \<noteq> CompactionFailed used limit cause)
    | Inr _ \<Rightarrow>
        history (dr_machine d') = history (dr_machine d) \<and> pending (dr_machine d') = pending (dr_machine d) \<or>
        coherent (history (dr_machine d')) \<and> history (dr_machine d') \<noteq> [] \<and> pending (dr_machine d') = [] \<and>
        context_tokens (dr_machine d') < figure_before (d\<lparr>dr_anchor := None\<rparr>) \<and> mstate (dr_machine d') = Start"
proof (cases "cancellation = Uncancelled")
  case False
  with handle_compact_cancelled [OF assms(8)] show ?thesis by simp
next
  case True
  note served = assms(8) [unfolded True]
  have nonempty: "full_history (dr_machine d) \<noteq> []"
    using assms(6) by (auto simp: all_parts_lone_results_def scan_def mark_lone_calls_def)
  show ?thesis
  proof (cases rule: handle_compact_cases [OF assms(1) served])
    case (1 oc after cm' i a sizing)
    then have run: "compact_with_reason cm (full_history (dr_machine d)) (unat (turns_taken (dr_machine d))) reason i a sizing =
        Inr (Compacted oc)" using assms(2) by simp
    have "coherent (oc_messages oc)" "oc_messages oc \<noteq> []"
      using managed_truncation [OF assms(3-5) nonempty assms(6), of "unat (turns_taken (dr_machine d))" reason i a sizing]
        assms(7) by (simp_all add: run)
    then show ?thesis using 1(1,3,5) by (simp add: coalesce_coherent coalesce_nonempty)
  next
    case (5 cm' i a sizing ov)
    then have "compact_with_reason cm (full_history (dr_machine d)) (unat (turns_taken (dr_machine d))) reason i a sizing = Inl ov"
      using assms(2) by simp
    then have "ov_compactor_error ov = None"
      using managed_truncation [OF assms(3-5) nonempty assms(6), of "unat (turns_taken (dr_machine d))" reason i a sizing] by simp
    then show ?thesis using 5(3,4) by simp
  qed simp_all
qed

theorem truncating_step_sound_witness:
  "\<exists>r d'. handle_compact Uncancelled allow_hook Emergency (sample_driver (from_history sample_history)) = (r, d') \<and>
     (history (dr_machine d') = sample_history \<or> coherent (history (dr_machine d')))"
proof -
  let ?d = "sample_driver (from_history sample_history)"
  obtain r d' where served: "handle_compact Uncancelled allow_hook Emergency ?d = (r, d')" by fastforce
  have whole: "full_history (dr_machine ?d) = sample_history" "history (dr_machine ?d) = sample_history"
    by (simp_all add: sample_driver_def full_history_def from_history_def)
  have "\<not> is_terminal (dr_machine ?d)" by (simp add: sample_driver_def from_history_def is_terminal_def)
  moreover have "dr_manager ?d = Some small_manager" by (simp add: sample_driver_def)
  moreover have "cm_compactor small_manager = truncating_compact (\<lambda>_. []) new_truncating" "cm_window small_manager < - 1"
    by (simp_all add: small_manager_def with_context_window_def new_manager_def)
  moreover have "\<not> all_parts_lone_results (scan (full_history (dr_machine ?d)))"
    unfolding whole by (simp add: sample_scan all_parts_lone_results_def)
  moreover have "mate_at (scan (full_history (dr_machine ?d))) pos \<noteq> Some LoneCall" for pos
    unfolding whole by (auto simp: sample_scan mate_at_def nth_Cons less_Suc_eq split: nat.splits)
  ultimately have "case r of Inl e \<Rightarrow> dr_machine d' = dr_machine ?d \<and> (\<forall>used limit cause. e \<noteq> CompactionFailed used limit cause)
    | Inr _ \<Rightarrow>
        history (dr_machine d') = history (dr_machine ?d) \<and> pending (dr_machine d') = pending (dr_machine ?d) \<or>
        coherent (history (dr_machine d')) \<and> history (dr_machine d') \<noteq> [] \<and> pending (dr_machine d') = [] \<and>
        context_tokens (dr_machine d') < figure_before (?d\<lparr>dr_anchor := None\<rparr>) \<and> mstate (dr_machine d') = Start"
    using truncating_step_sound [OF _ _ small_configured _ _ _ _ served] by blast
  then show ?thesis using served whole by (auto split: sum.splits)
qed

subsection \<open>Refinement of the documented loop\<close>

lemma compact_poll_live: "next_step p m0 = (CompactStep reason, m) \<Longrightarrow> \<not> is_terminal m"
  by (auto simp: next_step_def request_model_def is_terminal_def Let_def split: machine_state.splits if_splits)

lemma served_round:
  assumes "next_step (driver_policy d0) (dr_machine d0) = (CompactStep reason, m)"
    and "d = d0\<lparr>dr_machine := m\<rparr>"
    and "handle_compact Uncancelled hook reason d = (Inr (), d')"
  shows "drive_round (driver_policy d0) (figure_before (d\<lparr>dr_anchor := None\<rparr>)) (dr_machine d0) (dr_machine d')"
proof -
  have m: "dr_machine d = m" using assms(2) by simp
  have live: "\<not> is_terminal m" using assms(1) by (rule compact_poll_live)
  then have "\<not> is_terminal (dr_machine d)" by (simp add: m)
  from handle_compact_settles [OF this assms(3)] obtain s where s: "settles reason d s"
    "dr_machine d' = settled_machine s m" by (auto simp: m)
  let ?b = "figure_before (d\<lparr>dr_anchor := None\<rparr>)"
  show ?thesis
  proof (cases s)
    case (Adopted ms after)
    then have "dr_machine d' = snd (compaction_result ms ?b after m)"
      using s live by (simp add: settles_def compaction_result_def terminate_on_no_progress_def)
    then show ?thesis using round_compacted [OF assms(1), of ?b ms after] by simp
  next
    case (Deferred after)
    then have "dr_machine d' = compaction_deferred after m" "reason = ThresholdExceeded"
      using s live by (simp_all add: settles_def compaction_deferred_def)
    then show ?thesis using round_deferred [of "driver_policy d0" "dr_machine d0" m ?b after] assms(1) by simp
  next
    case (Stalled after)
    then have "dr_machine d' = snd (compaction_noop ?b after m)"
      using s live by (simp add: settles_def compaction_noop_def terminate_on_no_progress_def not_less [symmetric])
    then show ?thesis using round_noop [OF assms(1), of ?b after] by simp
  qed
qed


subsection \<open>Salvage of a refused turn\<close>

lemma request_shrink_asks:
  assumes "mstate (dr_machine d) = AwaitingModel turn" and "\<not> cancelled (dr_machine d)"
    and "turns_taken (dr_machine d) < dr_max_turns d" and "effective_context_window d \<noteq> 0"
    and "1 < length (full_history (dr_machine d))"
  shows "request_shrink d = (True, d\<lparr>dr_salvage_target := Some (salvage_line d),
    dr_machine := (dr_machine d)\<lparr>context_tokens := sat_add (effective_context_window d) 1,
      mstate := AwaitingCompaction Emergency\<rparr>\<rparr>)"
proof -
  let ?d1 = "d\<lparr>dr_salvage_target := Some (salvage_line d),
    dr_machine := set_context_tokens (sat_add (effective_context_window d) 1) (dr_machine d)\<rparr>"
  let ?m1 = "dr_machine ?d1"
  have m1: "?m1 = (dr_machine d)\<lparr>context_tokens := sat_add (effective_context_window d) 1\<rparr>"
    using assms(1) by (simp add: set_context_tokens_def is_terminal_def)
  have policy: "context_window (driver_policy ?d1) = effective_context_window d" "max_turns (driver_policy ?d1) = dr_max_turns d"
    by (simp_all add: driver_policy_def effective_context_window_def split: option.split)
  let ?w = "effective_context_window d"
  have "min (unat ?w * 95) (2 ^ 64 - 1) div 100 \<le> unat ?w * 100 div 100" by (intro div_le_mono) simp
  then have "sat_mul ?w 95 div 100 \<le> sat_add ?w 1"
    using le_sat_add [of ?w 1] by (simp add: word_le_nat_alt unat_div unat_sat_mul)
  then have "is_emergency (driver_policy ?d1) ?m1"
    using assms(4) by (simp add: is_emergency_def policy m1)
  then have "next_step (driver_policy ?d1) ?m1 = (CompactStep Emergency, ?m1\<lparr>mstate := AwaitingCompaction Emergency\<rparr>)"
    using assms(1-3) by (simp add: next_step_def request_model_def m1 policy not_le)
  then show ?thesis using assms(5) by (simp add: request_shrink_def Let_def m1)
qed

definition size_refusal :: "loop_error \<Rightarrow> bool" where
  "size_refusal e \<longleftrightarrow> (\<exists>message. e = Api message \<and> message_reports_context_overflow message)"

text \<open>
  a turn refused for its size is salvaged once. The first refusal of a turn, with something to
  shrink, makes the machine ask for an emergency pass over the same conversation, aimed at no more
  than half of what was refused and no more than the manager's own target; a second refusal of the
  same turn ends it with an error that reports a size above the window.
\<close>

theorem refused_turn_salvaged_once:
  assumes "size_refusal e" and "dr_overflow_retry d \<noteq> Some turn"
    and "mstate (dr_machine d) = AwaitingModel turn" and "\<not> cancelled (dr_machine d)"
    and "turns_taken (dr_machine d) < dr_max_turns d" and "effective_context_window d \<noteq> 0"
    and "1 < length (full_history (dr_machine d))"
  shows "\<exists>d'. overflow_salvage turn e d = (Some (Inr ()), d') \<and>
    mstate (dr_machine d') = AwaitingCompaction Emergency \<and>
    full_history (dr_machine d') = full_history (dr_machine d) \<and> dr_anchor d' = None \<and>
    (\<exists>line. dr_salvage_target d' = Some line \<and>
      line \<le> sat_add (count_context d (full_history (dr_machine d))) (request_overhead_tokens d) div 2 \<and>
      (\<forall>cm. dr_manager d = Some cm \<longrightarrow> line \<le> compact_target_tokens cm)) \<and>
    (\<exists>used limit. overflow_salvage turn e d' = (Some (Inl (ContextExceeded used limit)), d') \<and>
      (limit < - 1 \<longrightarrow> limit < used))"
proof -
  obtain message where e: "e = Api message" "message_reports_context_overflow message"
    using assms(1) by (auto simp: size_refusal_def)
  let ?d0 = "d\<lparr>dr_overflow_retry := Some turn\<rparr>"
  have same: "count_context ?d0 = count_context d" "effective_context_window ?d0 = effective_context_window d"
    by (simp_all add: count_context_def effective_context_window_def fun_eq_iff split: option.split)
  let ?d' = "?d0\<lparr>dr_salvage_target := Some (salvage_line ?d0),
    dr_machine := (dr_machine d)\<lparr>context_tokens := sat_add (effective_context_window d) 1,
      mstate := AwaitingCompaction Emergency\<rparr>, dr_anchor := None\<rparr>"
  have "request_shrink ?d0 = (True, ?d0\<lparr>dr_salvage_target := Some (salvage_line ?d0),
      dr_machine := (dr_machine d)\<lparr>context_tokens := sat_add (effective_context_window d) 1,
        mstate := AwaitingCompaction Emergency\<rparr>\<rparr>)"
    using request_shrink_asks [of ?d0 turn] assms(3-7) by (simp add: same)
  then have first: "overflow_salvage turn e d = (Some (Inr ()), ?d')"
    using assms(2,7) e by (simp add: overflow_salvage_def Let_def)
  have line: "salvage_line ?d0 \<le> sat_add (count_context d (full_history (dr_machine d))) (request_overhead_tokens d) div 2"
    "\<forall>cm. dr_manager d = Some cm \<longrightarrow> salvage_line ?d0 \<le> compact_target_tokens cm"
    by (auto simp: salvage_line_def Let_def same request_overhead_tokens_def split: option.split)
  have "overflow_salvage turn e ?d' = (Some (Inl (exhausted ?d')), ?d')"
    using e by (simp add: overflow_salvage_def)
  moreover have "exhausted ?d' = ContextExceeded (max (sat_add (effective_context_window d) 1) (sat_add (effective_context_window d) 1))
      (effective_context_window d)"
    by (simp add: exhausted_def Let_def effective_context_window_def split: option.split)
  moreover have "effective_context_window d < - 1 \<longrightarrow> effective_context_window d < sat_add (effective_context_window d) 1"
    by (auto simp: word_less_nat_alt unat_sat_add)
  ultimately show ?thesis
    using first line by (intro exI [of _ ?d']) (auto simp: full_history_def)
qed

theorem refused_turn_salvaged_once_witness:
  "\<exists>d' used limit. overflow_salvage 0 (Api ''prompt is too long'')
      (sample_driver ((from_history sample_history)\<lparr>mstate := AwaitingModel 0\<rparr>)) = (Some (Inr ()), d') \<and>
     overflow_salvage 0 (Api ''prompt is too long'') d' = (Some (Inl (ContextExceeded used limit)), d')"
proof -
  let ?d = "sample_driver ((from_history sample_history)\<lparr>mstate := AwaitingModel 0\<rparr>)"
  have "lowercase ''prompt is too long'' = ''prompt is too long''" by code_simp
  then have "message_reports_context_overflow ''prompt is too long''"
    by (simp add: message_reports_context_overflow_def overflow_phrases_def)
  then have "size_refusal (Api ''prompt is too long'')" by (simp add: size_refusal_def)
  moreover have "dr_overflow_retry ?d \<noteq> Some 0" "mstate (dr_machine ?d) = AwaitingModel 0"
    "\<not> cancelled (dr_machine ?d)" "turns_taken (dr_machine ?d) < dr_max_turns ?d" "effective_context_window ?d \<noteq> 0"
    "1 < length (full_history (dr_machine ?d))"
    by (simp_all add: sample_driver_def from_history_def effective_context_window_def full_history_def sample_history_def)
  ultimately show ?thesis using refused_turn_salvaged_once by blast
qed

definition lone_driver :: "unit driver" where
  "lone_driver = (sample_driver ((from_history [user_message ''x''])\<lparr>context_tokens := 95\<rparr>))\<lparr>dr_manager := None\<rparr>"

text \<open>A driver with one message, no manager and a figure at the emergency line: its pass gives nothing back.\<close>

lemma lone_asked:
  "next_step (driver_policy lone_driver) (dr_machine lone_driver) =
     (CompactStep Emergency, (dr_machine lone_driver)\<lparr>mstate := AwaitingCompaction Emergency\<rparr>)"
  by (simp add: next_step_def request_model_def is_emergency_def lone_driver_def sample_driver_def from_history_def
      driver_policy_def effective_context_window_def sat_mul_def)

lemma lone_figure:
  "figure_before (lone_driver\<lparr>dr_machine := (dr_machine lone_driver)\<lparr>mstate := s\<rparr>, dr_anchor := None\<rparr>) = 5"
proof -
  have "heuristic_count (\<lambda>_ :: unit. []) [user_message ''x''] = 5"
    by (simp add: heuristic_count_def rendered_message_chars_def user_message_def chars_count_def sat_add_def
        message_overhead_chars_def chars_per_token_def)
  then show ?thesis
    by (simp add: figure_before_def driver_figure_def context_figure_def count_context_def overhead_tokens_def
        lone_driver_def sample_driver_def from_history_def full_history_def sat_add_def apply_ratio_def sat_mul_def
        identity_calibration_def bp_defs)
qed

definition stalled_driver :: "unit driver" where
  "stalled_driver = lone_driver\<lparr>dr_machine :=
     (dr_machine lone_driver)\<lparr>mstate := Terminal (Failed (CompactionStalled 5))\<rparr>, dr_anchor := None\<rparr>"

lemma lone_served:
  "handle_compact Uncancelled allow_hook Emergency
     (lone_driver\<lparr>dr_machine := (dr_machine lone_driver)\<lparr>mstate := AwaitingCompaction Emergency\<rparr>\<rparr>) = (Inr (), stalled_driver)"
proof -
  let ?m = "(dr_machine lone_driver)\<lparr>mstate := AwaitingCompaction Emergency\<rparr>"
  let ?d = "lone_driver\<lparr>dr_machine := ?m\<rparr>"
  have "run_compaction allow_hook (unat (turns_taken ?m)) Emergency (?d\<lparr>dr_anchor := None\<rparr>) =
      (Inr \<lparr>cso_tokens_before = 5, cso_tokens_after = 5, cso_compacted = None, cso_evicted_messages = 0\<rparr>,
       ?d\<lparr>dr_anchor := None\<rparr>)"
    using lone_figure by (simp add: run_compaction_def compaction_pass_def figure_before_def Let_def)
      (simp add: lone_driver_def)
  then show ?thesis
    unfolding handle_compact_def Let_def stalled_driver_def
    by (simp add: compaction_noop_def terminate_on_no_progress_def is_terminal_def)
qed


end
