(* ===== verification/Prune.thy ===== *)
theory Prune
  imports Driver "HOL-Library.Product_Lexorder"
begin

section \<open>Clearing finished tool results\<close>

text \<open>
  src/src/engine/bare/prune.rs and the configuration in src/src/compact.rs: before a model call, when
  the context figure has crossed a line below the compaction threshold, the outputs of tool results
  beyond a protected tail are replaced by a marker. Handing the originals to the demotion sink is an
  event and left out, but for the cancellation that may win against it.
\<close>

type_synonym u16 = "16 word"

record prune_config =
  prune_line_pct :: u16
  min_free_pct :: u16
  protected_tail_tokens :: u64

definition default_prune_config :: prune_config where
  "default_prune_config = \<lparr>prune_line_pct = 60, min_free_pct = 10, protected_tail_tokens = 2000\<rparr>"

definition with_prune_line_pct :: "u16 \<Rightarrow> prune_config \<Rightarrow> prune_config" where
  "with_prune_line_pct pct c = c\<lparr>prune_line_pct := pct\<rparr>"

definition with_min_free_pct :: "u16 \<Rightarrow> prune_config \<Rightarrow> prune_config" where
  "with_min_free_pct pct c = c\<lparr>min_free_pct := pct\<rparr>"

definition with_protected_tail_tokens :: "u64 \<Rightarrow> prune_config \<Rightarrow> prune_config" where
  "with_protected_tail_tokens tokens c = c\<lparr>protected_tail_tokens := tokens\<rparr>"

definition set_prune :: "prune_config \<Rightarrow> 'v driver \<Rightarrow> prune_config option result" where
  "set_prune c d =
     (if unat (prune_line_pct c) \<ge> unat (dr_threshold d)
      then Inl (InvalidInput (''the prune line ('' @ show_nat (unat (prune_line_pct c)) @
             ''% of the window) must sit strictly below the compaction threshold ('' @
             show_nat (unat (dr_threshold d)) @ ''%) so pruning runs before the summarizer''))
      else if unat (min_free_pct c) > 100
      then Inl (InvalidInput (''the minimum-free gate ('' @ show_nat (unat (min_free_pct c)) @
             ''% of the window) cannot exceed 100%'' @ em_dash @
             ''a gate at least the whole window is never satisfiable and would disable pruning silently''))
      else Inr (Some c))"

subsection \<open>Planning\<close>

definition cleared_marker :: string where
  "cleared_marker = ''[cleared: prior tool output]''"

definition tool_result_cost :: "('v message list \<Rightarrow> u64) \<Rightarrow> tool_content \<Rightarrow> u64" where
  "tool_result_cost counter output = counter [new_message User [ToolResultPart [] [] output (Some False) None]]"

definition marker_cost :: "('v message list \<Rightarrow> u64) \<Rightarrow> u64" where
  "marker_cost counter = tool_result_cost counter (TCText cleared_marker)"

record prune_candidate =
  pc_rank :: nat
  pc_position :: nat
  pc_part_index :: nat
  pc_reclaim :: u64

fun retention_rank :: "retention option \<Rightarrow> nat option" where
  "retention_rank (Some Requery) = Some 1"
| "retention_rank None = Some 0"
| "retention_rank (Some Durable) = None"

text \<open>What one part of a message offers: at most one candidate.\<close>

definition part_candidate :: "('v message list \<Rightarrow> u64) \<Rightarrow> nat \<Rightarrow> nat \<Rightarrow> 'v message_part \<Rightarrow> prune_candidate list" where
  "part_candidate counter pos part_index part =
     (case part of
        ToolResultPart _ _ output _ ret \<Rightarrow>
          (case retention_rank ret of
             None \<Rightarrow> []
           | Some rk \<Rightarrow>
               (let reclaim = sat_sub (tool_result_cost counter output) (marker_cost counter)
                in if reclaim > 0
                   then [\<lparr>pc_rank = rk, pc_position = pos, pc_part_index = part_index, pc_reclaim = reclaim\<rparr>]
                   else []))
      | _ \<Rightarrow> [])"

definition part_candidates :: "('v message list \<Rightarrow> u64) \<Rightarrow> nat \<Rightarrow> 'v message \<Rightarrow> prune_candidate list" where
  "part_candidates counter pos m =
     concat (map (\<lambda>(part_index, part). part_candidate counter pos part_index part) (enumerate 0 (msg_parts m)))"

text \<open>One message of the walk from the end: charge it to the protected tail, or look into it.\<close>

definition visit ::
  "('v message list \<Rightarrow> u64) \<Rightarrow> nat \<times> 'v message \<Rightarrow> u64 \<times> prune_candidate list \<Rightarrow> u64 \<times> prune_candidate list" where
  "visit counter pm st =
     (case st of (budget, candidates) \<Rightarrow>
       let cost = counter [snd pm] in
       if budget > 0 then (sat_sub budget cost, candidates)
       else (budget, candidates @ part_candidates counter (fst pm) (snd pm)))"

definition candidates_of :: "('v message list \<Rightarrow> u64) \<Rightarrow> u64 \<Rightarrow> 'v message list \<Rightarrow> prune_candidate list" where
  "candidates_of counter tail ms = snd (foldr (visit counter) (enumerate 0 ms) (tail, []))"

definition candidate_key :: "prune_candidate \<Rightarrow> nat \<times> nat \<times> nat" where
  "candidate_key c = (pc_rank c, pc_position c, pc_part_index c)"

fun admit :: "u64 \<Rightarrow> u64 \<Rightarrow> prune_candidate list \<Rightarrow> prune_candidate list \<times> u64" where
  "admit minimum_free projected [] = ([], projected)"
| "admit minimum_free projected (c # cs) =
     (if pc_rank c = 1 \<and> projected \<ge> minimum_free then ([], projected)
      else (case admit minimum_free (sat_add projected (pc_reclaim c)) cs of (admitted, reclaimed) \<Rightarrow> (c # admitted, reclaimed)))"

fun clear_part :: "'v message_part \<Rightarrow> 'v message_part" where
  "clear_part (ToolResultPart call_id name _ _ ret) =
     ToolResultPart call_id name (TCText cleared_marker) (Some False) ret"
| "clear_part p = p"

definition clear_candidate ::
  "prune_candidate \<Rightarrow> 'v message list \<times> 'v message list \<Rightarrow> 'v message list \<times> 'v message list" where
  "clear_candidate c st =
     (case st of (pruned, cleared) \<Rightarrow>
       if pc_position c < length pruned
       then
         (let m = pruned ! pc_position c in
          if pc_part_index c < length (msg_parts m) \<and> is_tool_result (msg_parts m ! pc_part_index c)
          then (pruned[pc_position c := m\<lparr>msg_parts :=
                  (msg_parts m)[pc_part_index c := clear_part (msg_parts m ! pc_part_index c)]\<rparr>],
                cleared @ [new_message (msg_role m) [msg_parts m ! pc_part_index c]])
          else st)
       else st)"

definition plan_prune ::
  "('v message list \<Rightarrow> u64) \<Rightarrow> 'v message list \<Rightarrow> prune_config \<Rightarrow> u64 \<Rightarrow> ('v message list \<times> 'v message list \<times> u64) option" where
  "plan_prune counter ms c minimum_free =
     (let candidates = candidates_of counter (protected_tail_tokens c) ms in
      if candidates = [] then None
      else
        (case admit minimum_free 0 (sort_key candidate_key candidates) of
           (admitted, projected) \<Rightarrow>
             if admitted = [] \<or> projected < minimum_free then None
             else
               (case foldl (\<lambda>st c. clear_candidate c st) (ms, []) admitted of
                  (pruned, cleared) \<Rightarrow> Some (pruned, cleared, projected))))"

text \<open>The pass of the driver; \<open>signalled\<close> says that a cancellation wins against the demotion.\<close>

definition maybe_prune :: "bool \<Rightarrow> prune_config option \<Rightarrow> 'v driver \<Rightarrow> bool result \<times> 'v driver" where
  "maybe_prune signalled config d =
     (case config of
        None \<Rightarrow> (Inr False, d)
      | Some c \<Rightarrow>
          (let window = effective_context_window d in
           if window = 0 then (Inr False, d)
           else
             (let line = sat_mul window (ucast (prune_line_pct c)) div 100 in
              if context_tokens (dr_machine d) < line then (Inr False, d)
              else
                (let minimum_free = raw_window (dr_calibration d) (sat_mul window (ucast (min_free_pct c)) div 100)
                 in case plan_prune (count_context d) (full_history (dr_machine d)) c minimum_free of
                      None \<Rightarrow> (Inr False, d)
                    | Some (pruned, cleared, reclaimed) \<Rightarrow>
                        if signalled then (Inl ErrCancelled, d)
                        else (Inr True, d\<lparr>dr_machine := adopt_pruned pruned (length (history (dr_machine d))) (dr_machine d),
                                        dr_anchor := None\<rparr>)))))"

subsection \<open>The candidates\<close>

text \<open>What is left of the protected tail in front of the messages walked.\<close>

definition tail_left :: "('v message list \<Rightarrow> u64) \<Rightarrow> u64 \<Rightarrow> 'v message list \<Rightarrow> u64" where
  "tail_left counter tail ms = foldr (\<lambda>m budget. if budget > 0 then sat_sub budget (counter [m]) else budget) ms tail"

lemma tail_left_simps [simp]:
  "tail_left counter tail [] = tail"
  "tail_left counter tail (m # ms) =
     (if tail_left counter tail ms > 0 then sat_sub (tail_left counter tail ms) (counter [m]) else tail_left counter tail ms)"
  by (simp_all add: tail_left_def)

lemma visit_simps [simp]:
  "fst (visit counter pm st) = (if fst st > 0 then sat_sub (fst st) (counter [snd pm]) else fst st)"
  "snd (visit counter pm st) = (if fst st > 0 then snd st else snd st @ part_candidates counter (fst pm) (snd pm))"
  by (simp_all add: visit_def Let_def split: prod.splits)

lemma walk_budget [simp]: "fst (foldr (visit counter) (enumerate n ms) (tail, cs)) = tail_left counter tail ms"
  by (induction ms arbitrary: n) simp_all

lemma walk_candidates:
  "set (snd (foldr (visit counter) (enumerate n ms) (tail, cs))) = set cs \<union>
     (\<Union>k \<in> {k. k < length ms \<and> tail_left counter tail (drop (Suc k) ms) = 0}. set (part_candidates counter (n + k) (ms ! k)))"
proof (induction ms arbitrary: n)
  case (Cons m ms)
  let ?rest = "foldr (visit counter) (enumerate (Suc n) ms) (tail, cs)"
  have split: "{k. k < length (m # ms) \<and> tail_left counter tail (drop (Suc k) (m # ms)) = 0} =
      (if tail_left counter tail ms = 0 then {0} else {}) \<union>
      Suc ` {k. k < length ms \<and> tail_left counter tail (drop (Suc k) ms) = 0}"
    by (auto simp: less_Suc_eq_0_disj)
  have "snd (foldr (visit counter) (enumerate n (m # ms)) (tail, cs)) =
      snd ?rest @ (if tail_left counter tail ms = 0 then part_candidates counter n m else [])"
    by (simp add: word_gt_0)
  then show ?case unfolding split by (auto simp: Cons.IH)
qed simp

lemma in_concat_enumerate: "x \<in> set (concat (map f (enumerate 0 xs))) \<longleftrightarrow> (\<exists>j < length xs. x \<in> set (f (j, xs ! j)))"
  by (force simp: enumerate_eq_zip set_zip)

lemma in_part_candidate:
  "c \<in> set (part_candidate counter pos j part) \<longleftrightarrow>
     pc_position c = pos \<and> pc_part_index c = j \<and>
     (\<exists>call_id name output err ret. part = ToolResultPart call_id name output err ret \<and>
        retention_rank ret = Some (pc_rank c) \<and> 0 < pc_reclaim c \<and>
        pc_reclaim c = sat_sub (tool_result_cost counter output) (marker_cost counter))"
  by (cases part; cases c) (auto simp: part_candidate_def Let_def split: option.split)

lemma part_candidate_iff:
  "c \<in> set (part_candidates counter pos m) \<longleftrightarrow>
     pc_position c = pos \<and> pc_part_index c < length (msg_parts m) \<and>
     (\<exists>call_id name output err ret. msg_parts m ! pc_part_index c = ToolResultPart call_id name output err ret \<and>
        retention_rank ret = Some (pc_rank c) \<and> 0 < pc_reclaim c \<and>
        pc_reclaim c = sat_sub (tool_result_cost counter output) (marker_cost counter))"
  unfolding part_candidates_def in_concat_enumerate prod.case in_part_candidate by blast

lemma candidates_in:
  "c \<in> set (candidates_of counter tail ms) \<longleftrightarrow>
     pc_position c < length ms \<and> tail_left counter tail (drop (Suc (pc_position c)) ms) = 0 \<and>
     c \<in> set (part_candidates counter (pc_position c) (ms ! pc_position c))"
  unfolding candidates_of_def walk_candidates by (auto simp: part_candidate_iff)

definition slot :: "prune_candidate \<Rightarrow> nat \<times> nat" where
  "slot c = (pc_position c, pc_part_index c)"

lemma distinct_part_candidates: "distinct (map slot (part_candidates counter pos m))"
proof -
  have "distinct (map slot (concat (map f (enumerate n ps))))"
    if "\<And>j p. length (f (j, p)) \<le> 1 \<and> (\<forall>c \<in> set (f (j, p)). slot c = (pos, j))"
    for f :: "nat \<times> 'a message_part \<Rightarrow> prune_candidate list" and n ps
  proof (induction ps arbitrary: n)
    case (Cons p ps)
    have "distinct (map slot (f (n, p)))"
      using that [of n p] by (cases "f (n, p)") auto
    moreover have "snd (slot c) > n" if "c \<in> set (concat (map f (enumerate (Suc n) ps)))" for c
      using that \<open>\<And>j p. length (f (j, p)) \<le> 1 \<and> (\<forall>c \<in> set (f (j, p)). slot c = (pos, j))\<close>
      by (fastforce simp: enumerate_eq_zip dest!: set_zip_leftD)
    then have "slot ` set (f (n, p)) \<inter> slot ` set (concat (map f (enumerate (Suc n) ps))) = {}"
      using that [of n p] by fastforce
    ultimately show ?case using Cons.IH [of "Suc n"] by simp
  qed simp
  then show ?thesis unfolding part_candidates_def
    by (auto simp: part_candidate_def Let_def slot_def split: message_part.split option.split)
qed

lemma distinct_candidates: "distinct (map slot (snd (foldr (visit counter) (enumerate n ms) (tail, []))))"
proof (induction ms arbitrary: n)
  case (Cons m ms)
  let ?rest = "foldr (visit counter) (enumerate (Suc n) ms) (tail, [])"
  have "pc_position c > n" if "c \<in> set (snd ?rest)" for c
    using that unfolding walk_candidates by (auto simp: part_candidate_iff)
  moreover have "pc_position c = n" if "c \<in> set (part_candidates counter n m)" for c
    using that by (simp add: part_candidate_iff)
  ultimately have "slot ` set (snd ?rest) \<inter> slot ` set (part_candidates counter n m) = {}"
    by (force simp: slot_def)
  then show ?case
    using Cons.IH [of "Suc n"] distinct_part_candidates [of counter n m] by simp
qed simp

subsection \<open>Admission\<close>

lemma admit_prefix:
  "admit minimum_free projected cs = (admitted, reclaimed) \<Longrightarrow>
     reclaimed = foldl sat_add projected (map pc_reclaim admitted) \<and>
     (\<exists>rest. cs = admitted @ rest \<and>
        (rest \<noteq> [] \<longrightarrow> pc_rank (hd rest) = 1 \<and> minimum_free \<le> reclaimed))"
proof (induction cs arbitrary: projected admitted)
  case (Cons c cs)
  show ?case
  proof (cases "pc_rank c = 1 \<and> projected \<ge> minimum_free")
    case False
    then obtain as where as: "admit minimum_free (sat_add projected (pc_reclaim c)) cs = (as, reclaimed)"
      and "admitted = c # as" using Cons.prems by (auto split: prod.splits)
    then show ?thesis using Cons.IH [OF as] by auto
  qed (use Cons.prems in auto)
qed simp

lemma admit_second_pool:
  "admit minimum_free projected cs = (as @ c # bs, reclaimed) \<Longrightarrow> pc_rank c = 1 \<Longrightarrow>
     foldl sat_add projected (map pc_reclaim as) < minimum_free"
proof (induction cs arbitrary: projected as)
  case (Cons d cs)
  show ?case
  proof (cases as)
    case Nil
    then show ?thesis using Cons.prems by (auto split: if_splits prod.splits)
  next
    case (Cons a as')
    then show ?thesis using Cons.prems Cons.IH [of "sat_add projected (pc_reclaim d)" as']
      by (auto split: if_splits prod.splits)
  qed
qed simp

subsection \<open>Clearing\<close>

text \<open>The specification of the rewrite: the tool results at the given slots are replaced, in place.\<close>

definition clear_slots :: "(nat \<times> nat) set \<Rightarrow> 'v message list \<Rightarrow> 'v message list" where
  "clear_slots K ms = map (\<lambda>(i, m). m\<lparr>msg_parts :=
     map (\<lambda>(j, part). if (i, j) \<in> K then clear_part part else part) (enumerate 0 (msg_parts m))\<rparr>) (enumerate 0 ms)"

lemma clear_slots_nth:
  "length (clear_slots K ms) = length ms"
  "i < length ms \<Longrightarrow> msg_role (clear_slots K ms ! i) = msg_role (ms ! i)"
  "i < length ms \<Longrightarrow> length (msg_parts (clear_slots K ms ! i)) = length (msg_parts (ms ! i))"
  "i < length ms \<Longrightarrow> j < length (msg_parts (ms ! i)) \<Longrightarrow>
     msg_parts (clear_slots K ms ! i) ! j =
       (if (i, j) \<in> K then clear_part (msg_parts (ms ! i) ! j) else msg_parts (ms ! i) ! j)"
  by (simp_all add: clear_slots_def nth_enumerate_eq)

lemma clear_slots_empty: "clear_slots {} ms = ms"
  by (rule nth_equalityI) (auto simp: clear_slots_nth intro!: message.equality nth_equalityI)

definition original :: "'v message list \<Rightarrow> prune_candidate \<Rightarrow> 'v message" where
  "original ms c = new_message (msg_role (ms ! pc_position c)) [msg_parts (ms ! pc_position c) ! pc_part_index c]"

definition slot_ok :: "'v message list \<Rightarrow> prune_candidate \<Rightarrow> bool" where
  "slot_ok ms c \<longleftrightarrow> pc_position c < length ms \<and> pc_part_index c < length (msg_parts (ms ! pc_position c)) \<and>
     is_tool_result (msg_parts (ms ! pc_position c) ! pc_part_index c)"

lemma clear_candidate_slots:
  assumes "slot_ok ms c" and "slot c \<notin> K"
  shows "clear_candidate c (clear_slots K ms, cleared) =
    (clear_slots (insert (slot c) K) ms, cleared @ [original ms c])"
proof -
  have "(clear_slots K ms)[pc_position c := (clear_slots K ms ! pc_position c)\<lparr>msg_parts :=
      (msg_parts (clear_slots K ms ! pc_position c))[pc_part_index c :=
         clear_part (msg_parts (clear_slots K ms ! pc_position c) ! pc_part_index c)]\<rparr>] =
      clear_slots (insert (slot c) K) ms"
    using assms
    by (intro nth_equalityI message.equality)
      (auto simp: clear_slots_nth slot_ok_def slot_def nth_list_update intro!: nth_equalityI)
  then show ?thesis using assms
    by (simp add: clear_candidate_def Let_def clear_slots_nth slot_ok_def slot_def original_def)
qed

lemma clear_all_slots:
  "(\<And>c. c \<in> set cs \<Longrightarrow> slot_ok ms c) \<Longrightarrow> distinct (map slot cs) \<Longrightarrow> slot ` set cs \<inter> K = {} \<Longrightarrow>
     foldl (\<lambda>st c. clear_candidate c st) (clear_slots K ms, cleared) cs =
       (clear_slots (slot ` set cs \<union> K) ms, cleared @ map (original ms) cs)"
proof (induction cs arbitrary: K cleared)
  case (Cons c cs)
  have "slot c \<notin> K" using Cons.prems by auto
  then show ?case
    using Cons.prems Cons.IH [of "insert (slot c) K"] by (auto simp: clear_candidate_slots)
qed simp

definition candidate :: "('v message list \<Rightarrow> u64) \<Rightarrow> u64 \<Rightarrow> 'v message list \<Rightarrow> prune_candidate \<Rightarrow> bool" where
  "candidate counter tail ms c \<longleftrightarrow> c \<in> set (candidates_of counter tail ms)"

lemma candidateD:
  assumes "candidate counter tail ms c"
  shows "slot_ok ms c" and "tail_left counter tail (drop (Suc (pc_position c)) ms) = 0"
    and "\<exists>call_id name output err ret.
      msg_parts (ms ! pc_position c) ! pc_part_index c = ToolResultPart call_id name output err ret \<and>
      ret \<noteq> Some Durable \<and> tool_result_cost counter output > marker_cost counter"
proof -
  obtain call_id name out err ret where part:
      "msg_parts (ms ! pc_position c) ! pc_part_index c = ToolResultPart call_id name out err ret"
      "retention_rank ret = Some (pc_rank c)" "0 < sat_sub (tool_result_cost counter out) (marker_cost counter)"
    using assms unfolding candidate_def candidates_in part_candidate_iff by auto
  then show "slot_ok ms c" and "tail_left counter tail (drop (Suc (pc_position c)) ms) = 0"
    using assms unfolding candidate_def candidates_in part_candidate_iff slot_ok_def by auto
  have "ret \<noteq> Some Durable" using part(2) by auto
  moreover have "tool_result_cost counter out > marker_cost counter"
    using part(3) by (auto simp: sat_sub_def order_le_less split: if_splits)
  ultimately show "\<exists>call_id name output err ret.
      msg_parts (ms ! pc_position c) ! pc_part_index c = ToolResultPart call_id name output err ret \<and>
      ret \<noteq> Some Durable \<and> tool_result_cost counter output > marker_cost counter"
    using part(1) by blast
qed

lemma plan_prune_spec:
  assumes "plan_prune counter ms c minimum_free = Some (pruned, cleared, reclaimed)"
  obtains admitted rest where
    "sort_key candidate_key (candidates_of counter (protected_tail_tokens c) ms) = admitted @ rest"
    and "admit minimum_free 0 (admitted @ rest) = (admitted, reclaimed)"
    and "admitted \<noteq> []" and "minimum_free \<le> reclaimed"
    and "\<forall>a \<in> set admitted. candidate counter (protected_tail_tokens c) ms a"
    and "distinct (map slot admitted)"
    and "pruned = clear_slots (slot ` set admitted) ms" and "cleared = map (original ms) admitted"
proof -
  let ?cs = "sort_key candidate_key (candidates_of counter (protected_tail_tokens c) ms)"
  obtain admitted where admit: "admit minimum_free 0 ?cs = (admitted, reclaimed)"
    and gate: "admitted \<noteq> []" "minimum_free \<le> reclaimed"
    and fold: "foldl (\<lambda>st c. clear_candidate c st) (ms, []) admitted = (pruned, cleared)"
    using assms by (auto simp: plan_prune_def Let_def split: if_splits prod.splits)
  obtain rest where rest: "?cs = admitted @ rest" using admit_prefix [OF admit] by blast
  have "set admitted \<subseteq> set ?cs" using rest by simp
  then have cands: "candidate counter (protected_tail_tokens c) ms a" if "a \<in> set admitted" for a
    using that by (auto simp: candidate_def)
  have "mset ?cs = mset (candidates_of counter (protected_tail_tokens c) ms)" by simp
  then have "distinct (map slot ?cs)"
    using distinct_candidates [of counter 0 ms] unfolding candidates_of_def
    by (metis mset_eq_imp_distinct_iff mset_map)
  then have distinct: "distinct (map slot admitted)" unfolding rest by simp
  have "(pruned, cleared) = (clear_slots (slot ` set admitted) ms, map (original ms) admitted)"
    using clear_all_slots [of admitted ms "{}" "[]"] cands distinct candidateD(1)
    by (simp add: clear_slots_empty fold) blast
  then show thesis using that rest admit gate cands distinct by auto
qed

subsection \<open>What a pass keeps\<close>

text \<open>The ids of a part, all that the pairing of calls and results looks at.\<close>

definition ids :: "'v message_part \<Rightarrow> string option \<times> string option" where
  "ids part = (call_id_of part, result_id_of part)"

lemma ids_clear_part [simp]: "ids (clear_part part) = ids part"
  by (cases part) (simp_all add: ids_def)

lemma answered_ids: "map ids ps = map ids qs \<Longrightarrow> answered ps = answered qs"
proof (induction ps arbitrary: qs)
  case (Cons p ps)
  then obtain q qs' where qs: "qs = q # qs'" "ids p = ids q" "map ids ps = map ids qs'" by (cases qs) auto
  have "(\<exists>r \<in> set ps. result_id_of r = Some i) = (\<exists>r \<in> set qs'. result_id_of r = Some i)" for i
  proof -
    have "snd ` ids ` set ps = snd ` ids ` set qs'" using qs(3) by (metis set_map)
    then have "result_id_of ` set ps = result_id_of ` set qs'" by (simp add: ids_def image_image)
    then show ?thesis by (metis (mono_tags, lifting) image_iff)
  qed
  then show ?case using Cons.IH [OF qs(3)] qs(1,2) by (auto simp: ids_def split: option.splits)
qed simp

definition tagged :: "'p \<times> 'v message_part \<Rightarrow> 'p \<times> string option \<times> string option" where
  "tagged occ = (fst occ, ids (snd occ))"

lemma claims_ids: "map tagged ps = map tagged qs \<Longrightarrow> claims ps = claims qs"
proof (induction ps arbitrary: qs rule: rev_induct)
  case (snoc p ps)
  then obtain q qs' where qs: "qs = qs' @ [q]" "tagged p = tagged q" "map tagged ps = map tagged qs'"
    by (cases qs rule: rev_cases) auto
  then show ?case using snoc.IH [OF qs(3)]
    by (auto simp: claims_simps claim_step_def tagged_def ids_def split: prod.split option.split list.split)
qed (simp add: claims_simps)

definition occurrences_row :: "nat \<Rightarrow> 'v message_part list \<Rightarrow> (occurrence \<times> 'v message_part) list" where
  "occurrences_row i ps = map (\<lambda>(p, part). ((i, p), part)) (enumerate 0 ps)"

definition occurrences_from :: "nat \<Rightarrow> 'v message list \<Rightarrow> (occurrence \<times> 'v message_part) list" where
  "occurrences_from n ms = concat (map (\<lambda>(i, m). occurrences_row i (msg_parts m)) (enumerate n ms))"

lemma occurrences_from_simps [simp]:
  "occurrences_from n [] = []"
  "occurrences_from n (m # ms) = occurrences_row n (msg_parts m) @ occurrences_from (Suc n) ms"
  by (simp_all add: occurrences_from_def)

lemma occurrences_from_0: "occurrences ms = occurrences_from 0 ms"
  by (simp add: occurrences_def occurrences_from_def occurrences_row_def)

definition clear_row :: "(nat \<times> nat) set \<Rightarrow> nat \<Rightarrow> 'v message_part list \<Rightarrow> 'v message_part list" where
  "clear_row K i ps = map (\<lambda>(j, part). if (i, j) \<in> K then clear_part part else part) (enumerate 0 ps)"

definition clear_from :: "(nat \<times> nat) set \<Rightarrow> nat \<Rightarrow> 'v message list \<Rightarrow> 'v message list" where
  "clear_from K n ms = map (\<lambda>(i, m). m\<lparr>msg_parts := clear_row K i (msg_parts m)\<rparr>) (enumerate n ms)"

lemma clear_from_simps [simp]:
  "clear_from K n [] = []"
  "clear_from K n (m # ms) = m\<lparr>msg_parts := clear_row K n (msg_parts m)\<rparr> # clear_from K (Suc n) ms"
  by (simp_all add: clear_from_def)

lemma clear_from_0: "clear_slots K ms = clear_from K 0 ms"
  by (simp add: clear_slots_def clear_from_def clear_row_def)

lemma row_ids: "map (tagged) (occurrences_row i (clear_row K i ps)) = map (tagged) (occurrences_row i ps)"
  by (rule nth_equalityI) (simp_all add: tagged_def occurrences_row_def clear_row_def nth_enumerate_eq if_distrib [of ids])

lemma row_parts [simp]: "map snd (occurrences_row i ps) = ps"
  by (rule nth_equalityI) (simp_all add: occurrences_row_def nth_enumerate_eq)

lemma occurrences_clear_slots:
  "map (tagged) (occurrences (clear_slots K ms)) = map (tagged) (occurrences ms)"
proof -
  have "map (tagged) (occurrences_from n (clear_from K n ms)) =
      map (tagged) (occurrences_from n ms)" for n
    by (induction ms arbitrary: n) (simp_all add: row_ids)
  then show ?thesis by (simp only: occurrences_from_0 clear_from_0)
qed

lemma all_parts_occurrences: "all_parts ms = map snd (occurrences ms)"
proof -
  have "map snd (occurrences_from n ms) = all_parts ms" for n
    by (induction ms arbitrary: n) simp_all
  then show ?thesis by (simp add: occurrences_from_0)
qed

lemma clear_slots_pairs:
  "pairs_of (clear_slots K ms) = pairs_of ms" "coherent (clear_slots K ms) = coherent ms"
proof -
  show "pairs_of (clear_slots K ms) = pairs_of ms"
    unfolding pairs_of_def by (rule arg_cong [OF claims_ids [OF occurrences_clear_slots]])
  have "map ids (map snd (occurrences (clear_slots K ms))) = map ids (map snd (occurrences ms))"
    using arg_cong [OF occurrences_clear_slots, of "map snd" K ms] by (simp add: tagged_def comp_def)
  then show "coherent (clear_slots K ms) = coherent ms"
    unfolding coherent_def all_parts_occurrences by (rule answered_ids)
qed

lemma clear_slots_outside:
  "i < length ms \<Longrightarrow> (\<And>j. (i, j) \<notin> K) \<Longrightarrow> clear_slots K ms ! i = ms ! i"
  by (intro message.equality nth_equalityI) (auto simp: clear_slots_nth)

text \<open>
  A planned pass rewrites exactly the tool results it admits. The result is the conversation with
  the outputs at the admitted slots replaced by the marker and everything else unchanged; each
  admitted slot is a tool result that is not durable, costs more than the marker and lies in front of
  the protected tail; none is admitted twice; the originals are handed out in admission order, pool by
  pool and oldest first; and what the pass reclaims reaches the gate.
\<close>

theorem prune_rewrites_admitted:
  assumes "plan_prune counter ms c minimum_free = Some (pruned, cleared, reclaimed)"
  shows "\<exists>admitted. pruned = clear_slots (slot ` set admitted) ms \<and> cleared = map (original ms) admitted \<and>
    admitted \<noteq> [] \<and> distinct (map slot admitted) \<and> sorted (map candidate_key admitted) \<and>
    (\<forall>a \<in> set admitted. slot_ok ms a \<and>
       tail_left counter (protected_tail_tokens c) (drop (Suc (pc_position a)) ms) = 0 \<and>
       (\<exists>call_id name output err ret.
          msg_parts (ms ! pc_position a) ! pc_part_index a = ToolResultPart call_id name output err ret \<and>
          ret \<noteq> Some Durable \<and> tool_result_cost counter output > marker_cost counter)) \<and>
    reclaimed = foldl sat_add 0 (map pc_reclaim admitted) \<and> minimum_free \<le> reclaimed"
proof -
  obtain admitted rest where plan:
      "sort_key candidate_key (candidates_of counter (protected_tail_tokens c) ms) = admitted @ rest"
      "admit minimum_free 0 (admitted @ rest) = (admitted, reclaimed)" "admitted \<noteq> []" "minimum_free \<le> reclaimed"
      "\<forall>a \<in> set admitted. candidate counter (protected_tail_tokens c) ms a" "distinct (map slot admitted)"
      "pruned = clear_slots (slot ` set admitted) ms" "cleared = map (original ms) admitted"
    using assms by (rule plan_prune_spec)
  have "sorted (map candidate_key (admitted @ rest))" unfolding plan(1) [symmetric] by (rule sorted_sort_key)
  then have "sorted (map candidate_key admitted)" by (simp add: sorted_append)
  moreover have "reclaimed = foldl sat_add 0 (map pc_reclaim admitted)" using admit_prefix [OF plan(2)] by blast
  moreover have "\<forall>a \<in> set admitted. slot_ok ms a \<and>
       tail_left counter (protected_tail_tokens c) (drop (Suc (pc_position a)) ms) = 0 \<and>
       (\<exists>call_id name output err ret.
          msg_parts (ms ! pc_position a) ! pc_part_index a = ToolResultPart call_id name output err ret \<and>
          ret \<noteq> Some Durable \<and> tool_result_cost counter output > marker_cost counter)"
    using plan(5) candidateD by (intro ballI conjI) blast+
  ultimately show ?thesis using plan(3,4,6-8) by (intro exI [of _ admitted] conjI)
qed

lemma prune_shape:
  assumes "plan_prune counter ms c minimum_free = Some (pruned, cleared, reclaimed)"
  shows "map msg_role pruned = map msg_role ms"
    and "map (length \<circ> msg_parts) pruned = map (length \<circ> msg_parts) ms"
    and "pairs_of pruned = pairs_of ms" and "coherent pruned = coherent ms"
    and "\<forall>i < length ms. tail_left counter (protected_tail_tokens c) (drop (Suc i) ms) > 0 \<longrightarrow> pruned ! i = ms ! i"
    and "\<forall>i < length ms. \<forall>j < length (msg_parts (ms ! i)).
      is_durable_result (msg_parts (ms ! i) ! j) \<longrightarrow> msg_parts (pruned ! i) ! j = msg_parts (ms ! i) ! j"
proof -
  obtain admitted rest where plan:
      "sort_key candidate_key (candidates_of counter (protected_tail_tokens c) ms) = admitted @ rest"
      "admit minimum_free 0 (admitted @ rest) = (admitted, reclaimed)" "admitted \<noteq> []" "minimum_free \<le> reclaimed"
      "\<forall>a \<in> set admitted. candidate counter (protected_tail_tokens c) ms a" "distinct (map slot admitted)"
      "pruned = clear_slots (slot ` set admitted) ms" "cleared = map (original ms) admitted"
    using assms by (rule plan_prune_spec)
  show "map msg_role pruned = map msg_role ms" "map (length \<circ> msg_parts) pruned = map (length \<circ> msg_parts) ms"
    unfolding plan(7) by (rule nth_equalityI; simp add: clear_slots_nth)+
  show "pairs_of pruned = pairs_of ms" "coherent pruned = coherent ms" unfolding plan(7) by (simp_all add: clear_slots_pairs)
  show "\<forall>i < length ms. tail_left counter (protected_tail_tokens c) (drop (Suc i) ms) > 0 \<longrightarrow> pruned ! i = ms ! i"
    proof (intro allI impI)
    fix i assume "i < length ms" "tail_left counter (protected_tail_tokens c) (drop (Suc i) ms) > 0"
    then show "pruned ! i = ms ! i"
      unfolding plan(7) using candidateD(2) [OF plan(5) [rule_format]] by (intro clear_slots_outside) (auto simp: slot_def)
  qed
  show "\<forall>i < length ms. \<forall>j < length (msg_parts (ms ! i)).
      is_durable_result (msg_parts (ms ! i) ! j) \<longrightarrow> msg_parts (pruned ! i) ! j = msg_parts (ms ! i) ! j"
  proof (intro allI impI)
    fix i j assume ij: "i < length ms" "j < length (msg_parts (ms ! i))" "is_durable_result (msg_parts (ms ! i) ! j)"
    have "(i, j) \<noteq> slot a" if "a \<in> set admitted" for a
      using candidateD(3) [OF plan(5) [rule_format, OF that]] ij(3) by (auto simp: slot_def elim!: is_durable_result.elims)
    then show "msg_parts (pruned ! i) ! j = msg_parts (ms ! i) ! j"
      unfolding plan(7) using ij by (auto simp: clear_slots_nth)
  qed
qed

text \<open>
  pruning leaves the shape of the conversation alone. The pruned conversation has the same
  messages with the same roles and part counts, every call still finds the result it had (and a
  coherent conversation stays coherent), messages inside the protected tail are kept verbatim, and so
  is every durable tool result.
\<close>

theorem prune_keeps_pairs:
  assumes "plan_prune counter ms c minimum_free = Some (pruned, cleared, reclaimed)"
  shows "map msg_role pruned = map msg_role ms \<and>
    map (length \<circ> msg_parts) pruned = map (length \<circ> msg_parts) ms \<and>
    pairs_of pruned = pairs_of ms \<and> coherent pruned = coherent ms \<and>
    (\<forall>i < length ms. tail_left counter (protected_tail_tokens c) (drop (Suc i) ms) > 0 \<longrightarrow> pruned ! i = ms ! i) \<and>
    (\<forall>i < length ms. \<forall>j < length (msg_parts (ms ! i)).
      is_durable_result (msg_parts (ms ! i) ! j) \<longrightarrow> msg_parts (pruned ! i) ! j = msg_parts (ms ! i) ! j)"
  by (intro conjI prune_shape [OF assms])

text \<open>
  The pools are spent in class order. A requery result is cleared only when every clearable
  untagged result is cleared with it, and together they do not reach the gate on their own.
\<close>

theorem requery_cleared_last:
  assumes "plan_prune counter ms c minimum_free = Some (pruned, cleared, reclaimed)"
    and "i < length ms" and "j < length (msg_parts (ms ! i))"
    and "msg_parts (ms ! i) ! j = ToolResultPart call_id name out err (Some Requery)"
    and "msg_parts (pruned ! i) ! j \<noteq> msg_parts (ms ! i) ! j"
  shows "\<exists>untagged. foldl sat_add 0 (map pc_reclaim untagged) < minimum_free \<and>
    set untagged = {a \<in> set (candidates_of counter (protected_tail_tokens c) ms). pc_rank a = 0} \<and>
    (\<forall>a \<in> set untagged. msg_parts (pruned ! pc_position a) ! pc_part_index a =
       clear_part (msg_parts (ms ! pc_position a) ! pc_part_index a))"
proof -
  obtain admitted rest where plan:
      "sort_key candidate_key (candidates_of counter (protected_tail_tokens c) ms) = admitted @ rest"
      "admit minimum_free 0 (admitted @ rest) = (admitted, reclaimed)" "admitted \<noteq> []" "minimum_free \<le> reclaimed"
      "\<forall>a \<in> set admitted. candidate counter (protected_tail_tokens c) ms a" "distinct (map slot admitted)"
      "pruned = clear_slots (slot ` set admitted) ms" "cleared = map (original ms) admitted"
    using assms(1) by (rule plan_prune_spec)
  have cands: "set (admitted @ rest) = set (candidates_of counter (protected_tail_tokens c) ms)"
    unfolding plan(1) [symmetric] by simp
  have "sorted (map candidate_key (admitted @ rest))" unfolding plan(1) [symmetric] by (rule sorted_sort_key)
  then have ranks: "sorted (map pc_rank (admitted @ rest))"
    unfolding sorted_map by (rule sorted_wrt_mono_rel [rotated]) (auto simp: candidate_key_def)
  obtain a where a: "a \<in> set admitted" "slot a = (i, j)"
    using assms(2,3,5) plan(7) by (auto simp: clear_slots_nth split: if_splits)
  have "pc_rank a = 1"
    using plan(5) [rule_format, OF a(1)] a(2) assms(4)
    unfolding candidate_def candidates_in part_candidate_iff slot_def by auto
  have "\<exists>b \<in> set admitted. pc_rank b \<noteq> 0" using a(1) \<open>pc_rank a = 1\<close> by (intro bexI [of _ a]) simp_all
  then obtain untagged b bs where split: "admitted = untagged @ b # bs" "pc_rank b \<noteq> 0" "\<forall>d \<in> set untagged. \<not> pc_rank d \<noteq> 0"
    by (rule split_list_first_propE) blast
  have later: "pc_rank b \<le> pc_rank d" if "d \<in> set (bs @ rest)" for d
    using ranks that unfolding split(1) by (auto simp: sorted_append)
  have "candidate counter (protected_tail_tokens c) ms b" using plan(5) split(1) by (metis in_set_conv_decomp)
  then have "pc_rank b = 1"
    using split(2) unfolding candidate_def candidates_in part_candidate_iff
    by (auto elim!: retention_rank.elims)
  then have "foldl sat_add 0 (map pc_reclaim untagged) < minimum_free"
    using admit_second_pool [of minimum_free 0 "admitted @ rest" untagged b bs reclaimed] plan(2) split(1) by simp
  moreover have "set untagged = {d \<in> set (candidates_of counter (protected_tail_tokens c) ms). pc_rank d = 0}"
  proof (intro set_eqI iffI)
    fix d assume "d \<in> set untagged"
    then show "d \<in> {d \<in> set (candidates_of counter (protected_tail_tokens c) ms). pc_rank d = 0}"
      unfolding cands [symmetric] using split(1,3) by auto
  next
    fix d assume d: "d \<in> {d \<in> set (candidates_of counter (protected_tail_tokens c) ms). pc_rank d = 0}"
    then have "d \<in> set untagged \<or> d = b \<or> d \<in> set (bs @ rest)"
      unfolding cands [symmetric] split(1) by auto
    then show "d \<in> set untagged" using d split(2) later by force
  qed
  moreover have "msg_parts (pruned ! pc_position d) ! pc_part_index d =
       clear_part (msg_parts (ms ! pc_position d) ! pc_part_index d)" if "d \<in> set untagged" for d
  proof -
    have "d \<in> set admitted" using that split(1) by simp
    then show ?thesis using candidateD(1) [OF plan(5) [rule_format]] plan(7) by (auto simp: clear_slots_nth slot_ok_def slot_def)
  qed
  ultimately show ?thesis by blast
qed

subsection \<open>The pass in the driver\<close>

lemma adopt_pruned_history:
  assumes "\<not> is_terminal m" and "length messages = length (full_history m)"
  shows "full_history (adopt_pruned messages (length (history m)) m) = messages"
    and "length (history (adopt_pruned messages (length (history m)) m)) = length (history m)"
  using assms by (simp_all add: adopt_pruned_def full_history_def Let_def)

lemma adopt_pruned_rest:
  "mstate (adopt_pruned messages k m) = mstate m" "context_tokens (adopt_pruned messages k m) = context_tokens m"
  "turns_taken (adopt_pruned messages k m) = turns_taken m" "cancelled (adopt_pruned messages k m) = cancelled m"
  "pending_tools (adopt_pruned messages k m) = pending_tools m"
  by (simp_all add: adopt_pruned_def Let_def)

lemma maybe_prune_cases:
  obtains (unchanged) "maybe_prune signalled config d = (Inr False, d)"
  | (stopped) "maybe_prune signalled config d = (Inl ErrCancelled, d)" and signalled
  | (pruned) c pruned cleared reclaimed where "config = Some c" and "\<not> signalled"
      and "plan_prune (count_context d) (full_history (dr_machine d)) c
        (raw_window (dr_calibration d) (sat_mul (effective_context_window d) (ucast (min_free_pct c)) div 100)) =
          Some (pruned, cleared, reclaimed)"
      and "sat_mul (effective_context_window d) (ucast (prune_line_pct c)) div 100 \<le> context_tokens (dr_machine d)"
      and "maybe_prune signalled config d = (Inr True,
        d\<lparr>dr_machine := adopt_pruned pruned (length (history (dr_machine d))) (dr_machine d), dr_anchor := None\<rparr>)"
proof (cases "fst (maybe_prune signalled config d) = Inr True")
  case True
  then have "\<exists>c pruned cleared reclaimed. config = Some c \<and> \<not> signalled \<and>
      plan_prune (count_context d) (full_history (dr_machine d)) c
        (raw_window (dr_calibration d) (sat_mul (effective_context_window d) (ucast (min_free_pct c)) div 100)) =
          Some (pruned, cleared, reclaimed) \<and>
      sat_mul (effective_context_window d) (ucast (prune_line_pct c)) div 100 \<le> context_tokens (dr_machine d) \<and>
      maybe_prune signalled config d = (Inr True,
        d\<lparr>dr_machine := adopt_pruned pruned (length (history (dr_machine d))) (dr_machine d), dr_anchor := None\<rparr>)"
    by (auto simp: maybe_prune_def Let_def not_less split: option.splits if_splits)
  then show ?thesis using that(3) by blast
next
  case False
  then show ?thesis
    by (cases "fst (maybe_prune signalled config d) = Inr False")
      (auto simp: maybe_prune_def Let_def intro: that(1,2) split: option.splits if_splits)
qed

text \<open>
  A pass of the driver is all or nothing. A cancelled pass and a pass that is not worth running
  leave the driver exactly as it was. A pass that runs is one whose line was crossed; it keeps the
  machine's state, figure and turn count and the split between committed and pending messages, drops
  the usage anchor, and the conversation it installs has the roles and the pairs of calls and results
  of the one before.
\<close>

theorem maybe_prune_all_or_nothing:
  assumes "maybe_prune signalled config d = (res, d')" and "\<not> is_terminal (dr_machine d)"
  shows "d' = d \<and> res = Inr False \<or> d' = d \<and> res = Inl ErrCancelled \<and> signalled \<or>
    res = Inr True \<and> \<not> signalled \<and> dr_anchor d' = None \<and>
      (\<exists>c. config = Some c \<and>
         sat_mul (effective_context_window d) (ucast (prune_line_pct c)) div 100 \<le> context_tokens (dr_machine d)) \<and>
      mstate (dr_machine d') = mstate (dr_machine d) \<and>
      context_tokens (dr_machine d') = context_tokens (dr_machine d) \<and>
      turns_taken (dr_machine d') = turns_taken (dr_machine d) \<and>
      length (history (dr_machine d')) = length (history (dr_machine d)) \<and>
      map msg_role (full_history (dr_machine d')) = map msg_role (full_history (dr_machine d)) \<and>
      pairs_of (full_history (dr_machine d')) = pairs_of (full_history (dr_machine d))"
  using assms(1)
proof (cases rule: maybe_prune_cases [of signalled config d])
  case (pruned c pruned cleared reclaimed)
  have "length pruned = length (full_history (dr_machine d))"
    using arg_cong [OF prune_shape(1) [OF pruned(3)], of length] by simp
  then show ?thesis
    using assms pruned prune_shape [OF pruned(3)] adopt_pruned_history [OF assms(2)] by (auto simp: adopt_pruned_rest)
qed auto

subsection \<open>The estimate before a request\<close>

text \<open>
  \<open>handle_call_llm\<close> of src/src/engine/bare.rs up to the decision to send: the raw size of the
  conversation, the advertised overhead and the transient messages of the turn, fed to the machine as
  a figure, the pass over finished tool results with the figure fed again when it ran, and the last
  question to the machine, which may ask for a compaction instead. The overhead depends on the
  rendered tool schemas and is an argument.
\<close>

definition request_payload :: "u64 \<Rightarrow> 'v message list \<Rightarrow> 'v driver \<Rightarrow> u64" where
  "request_payload advertised transient d =
     sat_add (sat_add (count_context d (full_history (dr_machine d))) advertised) (count_context d transient)"

definition feed_payload :: "u64 \<Rightarrow> 'v message list \<Rightarrow> 'v driver \<Rightarrow> 'v driver" where
  "feed_payload advertised transient d =
     d\<lparr>dr_machine := set_context_tokens (driver_figure d (request_payload advertised transient d)) (dr_machine d)\<rparr>"

definition pre_request ::
  "bool \<Rightarrow> prune_config option \<Rightarrow> u64 \<Rightarrow> 'v message list \<Rightarrow> 'v driver \<Rightarrow> bool result \<times> 'v driver" where
  "pre_request signalled config advertised transient d =
     (case maybe_prune signalled config (feed_payload advertised transient d) of
        (Inl e, d1) \<Rightarrow> (Inl e, d1)
      | (Inr changed, d1) \<Rightarrow>
          (let d2 = (if changed then feed_payload advertised transient d1 else d1);
               (step, m) = next_step (driver_policy d2) (dr_machine d2);
               d3 = d2\<lparr>dr_machine := m\<rparr>
           in if (case step of CompactStep _ \<Rightarrow> True | _ \<Rightarrow> False)
              then (Inr False, d3\<lparr>dr_deferred_transient_tokens := count_context d3 transient, dr_anchor := None\<rparr>)
              else (Inr True, d3\<lparr>dr_calibration :=
                      note_prediction (request_payload advertised transient d3) (dr_calibration d3)\<rparr>)))"

lemma adopt_pruned_terminal [simp]: "is_terminal (adopt_pruned messages k m) = is_terminal m"
  by (simp add: is_terminal_def adopt_pruned_rest)

lemma count_context_updates [simp]:
  "count_context (d\<lparr>dr_machine := m\<rparr>) = count_context d" "count_context (d\<lparr>dr_anchor := an\<rparr>) = count_context d"
  "count_context (d\<lparr>dr_calibration := cal\<rparr>) = count_context d"
  by (simp_all add: count_context_def fun_eq_iff split: option.split)

lemma maybe_prune_keeps:
  assumes "maybe_prune signalled config d = (Inr changed, d')" and "\<not> is_terminal (dr_machine d)"
  shows "map msg_role (full_history (dr_machine d')) = map msg_role (full_history (dr_machine d))"
    and "pairs_of (full_history (dr_machine d')) = pairs_of (full_history (dr_machine d))"
    and "dr_calibration d' = dr_calibration d" and "count_context d' = count_context d"
    and "\<not> is_terminal (dr_machine d')" and "\<not> changed \<Longrightarrow> d' = d"
proof -
  have "map msg_role (full_history (dr_machine d')) = map msg_role (full_history (dr_machine d)) \<and>
      pairs_of (full_history (dr_machine d')) = pairs_of (full_history (dr_machine d)) \<and>
      dr_calibration d' = dr_calibration d \<and> count_context d' = count_context d \<and>
      \<not> is_terminal (dr_machine d') \<and> (\<not> changed \<longrightarrow> d' = d)"
  proof (cases rule: maybe_prune_cases [of signalled config d])
    case (pruned c pruned cleared reclaimed)
    have "length pruned = length (full_history (dr_machine d))"
      using arg_cong [OF prune_shape(1) [OF pruned(3)], of length] by simp
    then show ?thesis
      using assms pruned(5) prune_shape [OF pruned(3)] adopt_pruned_history [OF assms(2), of pruned]
      by auto
  qed (use assms in auto)
  then show "map msg_role (full_history (dr_machine d')) = map msg_role (full_history (dr_machine d))"
    "pairs_of (full_history (dr_machine d')) = pairs_of (full_history (dr_machine d))"
    "dr_calibration d' = dr_calibration d" "count_context d' = count_context d"
    "\<not> is_terminal (dr_machine d')" "\<not> changed \<Longrightarrow> d' = d" by auto
qed

lemma next_step_changes_state: "snd (next_step p m) = m\<lparr>mstate := mstate (snd (next_step p m))\<rparr>"
  by (cases "mstate m") (auto simp: next_step_def request_model_def Let_def)

lemma next_step_keeps:
  "full_history (snd (next_step p m)) = full_history m" "context_tokens (snd (next_step p m)) = context_tokens m"
  by (subst next_step_changes_state; simp add: full_history_def)+

lemma next_step_compacting:
  "fst (next_step p m) = CompactStep r \<Longrightarrow> mstate (snd (next_step p m)) = AwaitingCompaction r"
  by (cases "mstate m"; cases "cancelled m") (auto simp: next_step_def request_model_def Let_def split: if_splits)

lemma set_context_tokens_keeps:
  "full_history (set_context_tokens t m) = full_history m" "is_terminal (set_context_tokens t m) = is_terminal m"
  by (simp_all add: set_context_tokens_def full_history_def is_terminal_def)

lemma feed_payload_keeps [simp]:
  "full_history (dr_machine (feed_payload advertised transient d)) = full_history (dr_machine d)"
  "is_terminal (dr_machine (feed_payload advertised transient d)) = is_terminal (dr_machine d)"
  "count_context (feed_payload advertised transient d) = count_context d"
  "dr_calibration (feed_payload advertised transient d) = dr_calibration d"
  "dr_anchor (feed_payload advertised transient d) = dr_anchor d"
  "request_payload advertised transient (feed_payload advertised transient d) = request_payload advertised transient d"
  by (simp_all add: feed_payload_def request_payload_def set_context_tokens_keeps)

lemma fed_figure:
  "\<not> is_terminal (dr_machine d) \<Longrightarrow> context_tokens (dr_machine (feed_payload advertised transient d)) =
     context_figure (dr_calibration d) (dr_anchor d) (request_payload advertised transient d)"
  by (simp add: feed_payload_def set_context_tokens_def driver_figure_def)

text \<open>The driver the estimate asks the machine with: measured, and when the pass ran, measured again.\<close>

lemma measured:
  assumes "\<not> is_terminal (dr_machine d)"
    and "maybe_prune signalled config (feed_payload advertised transient d) = (Inr changed, d1)"
  defines "d2 \<equiv> if changed then feed_payload advertised transient d1 else d1"
  shows "context_tokens (dr_machine d2) = context_figure (dr_calibration d) (dr_anchor d2) (request_payload advertised transient d2)"
    and "dr_calibration d2 = dr_calibration d" and "count_context d2 = count_context d"
    and "map msg_role (full_history (dr_machine d2)) = map msg_role (full_history (dr_machine d))"
    and "pairs_of (full_history (dr_machine d2)) = pairs_of (full_history (dr_machine d))"
proof -
  let ?d = "feed_payload advertised transient d"
  have live: "\<not> is_terminal (dr_machine ?d)" using assms(1) by simp
  have kept: "map msg_role (full_history (dr_machine d1)) = map msg_role (full_history (dr_machine d))"
      "pairs_of (full_history (dr_machine d1)) = pairs_of (full_history (dr_machine d))"
      "dr_calibration d1 = dr_calibration d" "count_context d1 = count_context d" "\<not> is_terminal (dr_machine d1)"
      "\<not> changed \<Longrightarrow> d1 = ?d"
    using maybe_prune_keeps [OF assms(2) live] by simp_all
  show "context_tokens (dr_machine d2) = context_figure (dr_calibration d) (dr_anchor d2) (request_payload advertised transient d2)"
    unfolding d2_def using fed_figure [OF assms(1), of advertised transient] fed_figure [OF kept(5)] kept(3,6) by auto
  show "dr_calibration d2 = dr_calibration d" "count_context d2 = count_context d"
    "map msg_role (full_history (dr_machine d2)) = map msg_role (full_history (dr_machine d))"
    "pairs_of (full_history (dr_machine d2)) = pairs_of (full_history (dr_machine d))"
    unfolding d2_def using kept by auto
qed

lemma request_measured:
  assumes "pre_request signalled config advertised transient d = (Inr sent, d')"
    and "\<not> is_terminal (dr_machine d)"
  shows "sent \<longrightarrow>
      context_tokens (dr_machine d') =
        context_figure (dr_calibration d) (dr_anchor d') (request_payload advertised transient d') \<and>
      prediction (dr_calibration d') = Some (request_payload advertised transient d')"
    and "\<not> sent \<longrightarrow> (\<exists>r. mstate (dr_machine d') = AwaitingCompaction r) \<and> dr_anchor d' = None \<and>
      dr_deferred_transient_tokens d' = count_context d transient"
    and "map msg_role (full_history (dr_machine d')) = map msg_role (full_history (dr_machine d))"
    and "pairs_of (full_history (dr_machine d')) = pairs_of (full_history (dr_machine d))"
proof -
  obtain changed d1 where pass: "maybe_prune signalled config (feed_payload advertised transient d) = (Inr changed, d1)"
    using assms(1) by (auto simp: pre_request_def split: prod.splits sum.splits)
  define d2 where "d2 = (if changed then feed_payload advertised transient d1 else d1)"
  note m = measured [OF assms(2) pass, folded d2_def]
  let ?m = "snd (next_step (driver_policy d2) (dr_machine d2))"
  have outcome: "(if \<exists>r. fst (next_step (driver_policy d2) (dr_machine d2)) = CompactStep r
      then (Inr False, d2\<lparr>dr_machine := ?m, dr_deferred_transient_tokens := count_context d2 transient, dr_anchor := None\<rparr>)
      else (Inr True, d2\<lparr>dr_machine := ?m, dr_calibration :=
         note_prediction (request_payload advertised transient (d2\<lparr>dr_machine := ?m\<rparr>)) (dr_calibration d2)\<rparr>)) = (Inr sent, d')"
    using assms(1) pass unfolding pre_request_def
    by (cases "fst (next_step (driver_policy d2) (dr_machine d2))")
      (auto simp: Let_def d2_def [symmetric] split: prod.splits)
  show "sent \<longrightarrow>
      context_tokens (dr_machine d') =
        context_figure (dr_calibration d) (dr_anchor d') (request_payload advertised transient d') \<and>
      prediction (dr_calibration d') = Some (request_payload advertised transient d')"
    using outcome m(1) by (auto simp: next_step_keeps request_payload_def note_prediction_def split: if_splits)
  show "\<not> sent \<longrightarrow> (\<exists>r. mstate (dr_machine d') = AwaitingCompaction r) \<and> dr_anchor d' = None \<and>
      dr_deferred_transient_tokens d' = count_context d transient"
    using outcome m(3) by (auto simp: next_step_compacting split: if_splits)
  show "map msg_role (full_history (dr_machine d')) = map msg_role (full_history (dr_machine d))"
    "pairs_of (full_history (dr_machine d')) = pairs_of (full_history (dr_machine d))"
    using outcome m(4,5) by (auto simp: next_step_keeps split: if_splits)
qed

text \<open>
  C16: a request is sent with a true figure. When the estimate lets the request go, the figure of the
  machine is the figure of exactly the conversation that is sent, also when finished tool results
  were cleared on the way, and the same raw size is what the calibration will be taught against. When
  it does not, the machine awaits a compaction and the transient part of the request is remembered.
  Either way roles and the pairs of calls and results are those of the conversation before.
\<close>

theorem pre_request_figure:
  assumes "pre_request signalled config advertised transient d = (Inr sent, d')"
    and "\<not> is_terminal (dr_machine d)"
  shows "(sent \<longrightarrow>
      context_tokens (dr_machine d') =
        context_figure (dr_calibration d) (dr_anchor d') (request_payload advertised transient d') \<and>
      prediction (dr_calibration d') = Some (request_payload advertised transient d')) \<and>
    (\<not> sent \<longrightarrow> (\<exists>r. mstate (dr_machine d') = AwaitingCompaction r) \<and> dr_anchor d' = None \<and>
      dr_deferred_transient_tokens d' = count_context d transient) \<and>
    map msg_role (full_history (dr_machine d')) = map msg_role (full_history (dr_machine d)) \<and>
    pairs_of (full_history (dr_machine d')) = pairs_of (full_history (dr_machine d))"
  by (intro conjI request_measured [OF assms])

text \<open>
  Pruning gets its chance before the summarizer. A configuration the driver accepts has its line
  below the threshold, so wherever the machine would ask for a compaction the pass is past its line.
\<close>

theorem prune_before_compaction:
  assumes "set_prune c d = Inr config" and "should_compact (driver_policy d) m"
  shows "config = Some c \<and> sat_mul (effective_context_window d) (ucast (prune_line_pct c)) div 100 \<le> context_tokens m"
proof -
  have config: "config = Some c" "unat (prune_line_pct c) < unat (dr_threshold d)"
    using assms(1) by (simp_all add: set_prune_def split: if_splits)
  have "unat (ucast (prune_line_pct c) :: u64) \<le> unat (ucast (dr_threshold d) :: u64)"
    using config(2) by (simp add: unat_ucast_up)
  then have "sat_mul (effective_context_window d) (ucast (prune_line_pct c)) div 100 \<le>
      sat_mul (effective_context_window d) (ucast (dr_threshold d)) div 100"
    unfolding word_le_nat_alt unat_div unat_sat_mul by (intro div_le_mono min.mono mult_le_mono2) simp_all
  also have "\<dots> \<le> context_tokens m"
    using assms(2) by (auto simp: should_compact_def driver_policy_def split: if_splits)
  finally show ?thesis using config(1) by simp
qed

subsection \<open>A pass on a small conversation\<close>

definition part_size :: "unit message_part \<Rightarrow> nat" where
  "part_size part = (case part of ToolResultPart _ _ (TCText s) _ _ \<Rightarrow> length s | _ \<Rightarrow> 1)"

definition size_counter :: "unit message list \<Rightarrow> u64" where
  "size_counter ms = of_nat (sum_list (map part_size (all_parts ms)))"

definition long_output :: tool_content where
  "long_output = TCText (replicate 60 CHR ''x'')"

definition finished_tools :: "unit message list" where
  "finished_tools =
     [user_message ''go'',
      new_message Assistant [ToolCallPart ''a'' ''read'' (), ToolCallPart ''b'' ''fetch'' ()],
      new_message User [ToolResultPart ''a'' ''read'' long_output None None,
        ToolResultPart ''b'' ''fetch'' long_output (Some True) (Some Requery)],
      user_message ''on'']"

definition small_tail :: prune_config where
  "small_tail = with_protected_tail_tokens 1 default_prune_config"

definition finished_plan :: "unit message list \<times> unit message list \<times> u64" where
  "finished_plan =
     ([user_message ''go'',
       new_message Assistant [ToolCallPart ''a'' ''read'' (), ToolCallPart ''b'' ''fetch'' ()],
       new_message User [ToolResultPart ''a'' ''read'' (TCText cleared_marker) (Some False) None,
         ToolResultPart ''b'' ''fetch'' (TCText cleared_marker) (Some False) (Some Requery)],
       user_message ''on''],
      [new_message User [ToolResultPart ''a'' ''read'' long_output None None],
       new_message User [ToolResultPart ''b'' ''fetch'' long_output (Some True) (Some Requery)]], 64)"

lemma finished_costs: "tool_result_cost size_counter long_output = 60" "marker_cost size_counter = 28"
  by (simp_all add: tool_result_cost_def marker_cost_def size_counter_def new_message_def part_size_def
      long_output_def cleared_marker_def)

lemma finished_candidates:
  "candidates_of size_counter 1 finished_tools =
     [\<lparr>pc_rank = 0, pc_position = 2, pc_part_index = 0, pc_reclaim = 32\<rparr>,
      \<lparr>pc_rank = 1, pc_position = 2, pc_part_index = 1, pc_reclaim = 32\<rparr>]"
proof -
  have "size_counter [user_message ''on''] = 1"
    by (simp add: size_counter_def user_message_def new_message_def part_size_def)
  moreover have "\<exists>s. msg_parts (user_message t) = [TextPart s]" for t by (simp add: user_message_def new_message_def)
  ultimately show ?thesis
    by (simp add: candidates_of_def finished_tools_def visit_def new_message_def part_candidates_def
        part_candidate_def finished_costs sat_sub_def enumerate_Suc_eq user_message_def)
qed

lemma plan_finished_tail:
  assumes "protected_tail_tokens c = 1"
  shows "plan_prune size_counter finished_tools c 40 = Some finished_plan"
proof -
  have "plan_prune size_counter finished_tools c 40 =
      (case foldl (\<lambda>st c. clear_candidate c st) (finished_tools, [])
         [\<lparr>pc_rank = 0, pc_position = 2, pc_part_index = 0, pc_reclaim = 32\<rparr>,
          \<lparr>pc_rank = 1, pc_position = 2, pc_part_index = 1, pc_reclaim = 32\<rparr>] of
        (pruned, cleared) \<Rightarrow> Some (pruned, cleared, 64))"
    by (simp add: plan_prune_def assms finished_candidates candidate_key_def sat_add_def)
  then show ?thesis
    by (simp add: clear_candidate_def finished_plan_def finished_tools_def new_message_def)
qed

lemma plan_finished: "plan_prune size_counter finished_tools small_tail 40 = Some finished_plan"
  by (rule plan_finished_tail) (simp add: small_tail_def with_protected_tail_tokens_def)

theorem prune_rewrites_admitted_witness:
  "\<exists>admitted. fst finished_plan = clear_slots (slot ` set admitted) finished_tools \<and>
    fst (snd finished_plan) = map (original finished_tools) admitted \<and> admitted \<noteq> []"
  using prune_rewrites_admitted [of size_counter finished_tools small_tail 40 "fst finished_plan" "fst (snd finished_plan)"
      "snd (snd finished_plan)"]
  by (auto simp: plan_finished)

theorem prune_keeps_pairs_witness:
  "pairs_of (fst finished_plan) = pairs_of finished_tools \<and> coherent (fst finished_plan) = coherent finished_tools"
  using prune_keeps_pairs [of size_counter finished_tools small_tail 40 "fst finished_plan" "fst (snd finished_plan)"
      "snd (snd finished_plan)"]
  by (simp add: plan_finished)

theorem requery_cleared_last_witness:
  "\<exists>untagged. foldl sat_add 0 (map pc_reclaim untagged) < (40 :: u64) \<and>
    set untagged = {a \<in> set (candidates_of size_counter 1 finished_tools). pc_rank a = 0}"
proof -
  have "plan_prune size_counter finished_tools small_tail 40 =
      Some (fst finished_plan, fst (snd finished_plan), snd (snd finished_plan))"
    by (simp add: plan_finished)
  from requery_cleared_last [OF this, of 2 1 "''b''" "''fetch''" long_output "Some True"]
  show ?thesis
    by (auto simp: finished_plan_def finished_tools_def new_message_def small_tail_def with_protected_tail_tokens_def)
qed

definition tool_driver :: "unit driver" where
  "tool_driver = (sample_driver (from_history finished_tools))\<lparr>dr_manager := None, dr_counter := size_counter\<rparr>"

definition tight_prune :: prune_config where
  "tight_prune = with_min_free_pct 40 small_tail"

definition fed_machine :: "u64 \<Rightarrow> unit loop_machine" where
  "fed_machine t = (from_history finished_tools)\<lparr>context_tokens := t\<rparr>"

lemma tool_driver_values:
  "effective_context_window (tool_driver\<lparr>dr_machine := m\<rparr>) = 100"
  "count_context tool_driver = size_counter"
  "tool_driver\<lparr>dr_machine := m, dr_anchor := None\<rparr> = tool_driver\<lparr>dr_machine := m\<rparr>"
  "dr_calibration tool_driver = identity_calibration" "dr_anchor tool_driver = None"
  "dr_machine tool_driver = from_history finished_tools"
  "driver_policy (tool_driver\<lparr>dr_machine := m\<rparr>) =
     \<lparr>max_turns = 5, context_window = 100, compact_threshold = 80, auto_compact = True\<rparr>"
  by (simp_all add: tool_driver_def sample_driver_def effective_context_window_def count_context_def fun_eq_iff driver_policy_def)

lemma tight_values:
  "prune_line_pct tight_prune = 60" "min_free_pct tight_prune = 40" "protected_tail_tokens tight_prune = 1"
  by (simp_all add: tight_prune_def with_min_free_pct_def small_tail_def with_protected_tail_tokens_def default_prune_config_def)

lemma finished_sizes:
  "length finished_tools = 4" "length (fst finished_plan) = 4"
  "size_counter finished_tools = 124" "size_counter (fst finished_plan) = 60" "size_counter [] = 0"
  by (simp_all add: finished_tools_def finished_plan_def size_counter_def part_size_def user_message_def new_message_def
      long_output_def cleared_marker_def)

lemma identity_window: "raw_window identity_calibration 40 = 40"
  by (simp add: raw_window_def identity_calibration_def calibration_identity_def sat_mul_def)

lemma tool_driver_pass:
  assumes "60 \<le> t"
  shows "maybe_prune False (Some tight_prune) (tool_driver\<lparr>dr_machine := fed_machine t\<rparr>) =
    (Inr True, tool_driver\<lparr>dr_machine := (from_history (fst finished_plan))\<lparr>context_tokens := t\<rparr>\<rparr>)"
proof -
  have "plan_prune size_counter finished_tools tight_prune 40 = Some finished_plan"
    by (rule plan_finished_tail) (rule tight_values)
  moreover have "full_history (fed_machine t) = finished_tools" "context_tokens (fed_machine t) = t"
    "length (history (fed_machine t)) = 4"
    by (simp_all add: fed_machine_def full_history_def from_history_def finished_sizes)
  moreover have "adopt_pruned (fst finished_plan) 4 (fed_machine t) = (from_history (fst finished_plan))\<lparr>context_tokens := t\<rparr>"
    by (simp add: adopt_pruned_def fed_machine_def from_history_def is_terminal_def finished_sizes)
  ultimately show ?thesis using assms
    by (simp add: maybe_prune_def tool_driver_values tight_values identity_window sat_mul_def Let_def case_prod_unfold not_less)
qed

theorem maybe_prune_all_or_nothing_witness:
  "\<exists>d'. maybe_prune False (Some tight_prune) (tool_driver\<lparr>dr_machine := fed_machine 90\<rparr>) = (Inr True, d') \<and>
    pairs_of (full_history (dr_machine d')) = pairs_of finished_tools"
proof -
  have "\<not> is_terminal (dr_machine (tool_driver\<lparr>dr_machine := fed_machine 90\<rparr>))"
    by (simp add: fed_machine_def from_history_def is_terminal_def)
  moreover have "full_history (fed_machine 90) = finished_tools" by (simp add: fed_machine_def full_history_def from_history_def)
  ultimately show ?thesis
    using maybe_prune_all_or_nothing [OF tool_driver_pass [of 90]] tool_driver_pass [of 90] by auto
qed

theorem prune_before_compaction_witness:
  "sat_mul (effective_context_window tool_driver) (ucast (prune_line_pct small_tail)) div 100 \<le> context_tokens (fed_machine 81)"
  using prune_before_compaction [of small_tail tool_driver "Some small_tail" "fed_machine 81"]
  by (simp add: set_prune_def small_tail_def with_protected_tail_tokens_def default_prune_config_def tool_driver_def
      sample_driver_def should_compact_def driver_policy_def effective_context_window_def fed_machine_def sat_mul_def)

theorem pre_request_figure_witness:
  "\<exists>d'. pre_request False (Some tight_prune) 0 [] tool_driver = (Inr True, d') \<and>
    context_tokens (dr_machine d') =
      context_figure (dr_calibration tool_driver) (dr_anchor d') (request_payload 0 [] d')"
proof -
  have live: "\<not> is_terminal (dr_machine tool_driver)"
    by (simp add: tool_driver_def sample_driver_def from_history_def is_terminal_def)
  have first: "feed_payload 0 [] tool_driver = tool_driver\<lparr>dr_machine := fed_machine 124\<rparr>"
    using live by (simp add: feed_payload_def request_payload_def set_context_tokens_def driver_figure_def
        context_figure_def apply_ratio_def identity_calibration_def calibration_identity_def tool_driver_values full_history_def from_history_def fed_machine_def
        finished_sizes sat_add_def sat_mul_def)
  have second: "feed_payload 0 [] (tool_driver\<lparr>dr_machine := (from_history (fst finished_plan))\<lparr>context_tokens := 124\<rparr>\<rparr>) =
      tool_driver\<lparr>dr_machine := (from_history (fst finished_plan))\<lparr>context_tokens := 60\<rparr>\<rparr>"
    by (simp add: feed_payload_def request_payload_def set_context_tokens_def driver_figure_def
        context_figure_def apply_ratio_def identity_calibration_def calibration_identity_def tool_driver_values
        full_history_def from_history_def finished_sizes sat_add_def sat_mul_def is_terminal_def)
  have step: "next_step (driver_policy (tool_driver\<lparr>dr_machine := m\<rparr>)) ((from_history ms)\<lparr>context_tokens := 60\<rparr>) =
      (CallLLM 0, (from_history ms)\<lparr>context_tokens := 60, mstate := AwaitingModel 0\<rparr>)" for m and ms :: "unit message list"
    by (simp add: next_step_def request_model_def tool_driver_values from_history_def is_emergency_def
        should_compact_def sat_mul_def)
  obtain d' where sent: "pre_request False (Some tight_prune) 0 [] tool_driver = (Inr True, d')"
    using tool_driver_pass [of 124] by (simp add: pre_request_def first second step Let_def)
  show ?thesis using pre_request_figure [OF sent live] sent by blast
qed

end
