(* ===== verification/Stream.thy ===== *)
theory Stream
  imports Message "HOL-Library.Multiset"
begin

section \<open>Events of a streamed response\<close>

text \<open>
  src/src/stream.rs: the events a provider sends, and the accumulator that collects them into a
  message. A JSON value is a type parameter; what the code uses of the JSON library is the record
  \<open>json_lib\<close>: parsing (\<open>Inl\<close> with the rendered error), the string of a string value, the empty object.
\<close>

record 'v json_lib =
  jl_parse :: "string \<Rightarrow> string + 'v"
  jl_as_str :: "'v \<Rightarrow> string option"
  jl_empty_object :: 'v

datatype stream_error = InvalidToolInputJson string string

definition show_stream_error :: "stream_error \<Rightarrow> string" where
  "show_stream_error e =
     (case e of InvalidToolInputJson err raw \<Rightarrow>
        ''invalid tool input JSON: '' @ err @ '' (raw_len='' @ show_nat (length raw) @ '')'')"

subsection \<open>Usage and stop reasons\<close>

record usage =
  us_input :: u32
  us_output :: u32
  us_cached_input :: u32
  us_cache_write :: u32
  us_reasoning :: u32

definition new_usage :: "u32 \<Rightarrow> u32 \<Rightarrow> usage" where
  "new_usage input_tokens output_tokens =
     \<lparr>us_input = input_tokens, us_output = output_tokens, us_cached_input = 0, us_cache_write = 0, us_reasoning = 0\<rparr>"

definition with_cached_input :: "u32 \<Rightarrow> usage \<Rightarrow> usage" where
  "with_cached_input n u = u\<lparr>us_cached_input := n\<rparr>"

definition with_cache_write :: "u32 \<Rightarrow> usage \<Rightarrow> usage" where
  "with_cache_write n u = u\<lparr>us_cache_write := n\<rparr>"

definition with_reasoning :: "u32 \<Rightarrow> usage \<Rightarrow> usage" where
  "with_reasoning n u = u\<lparr>us_reasoning := n\<rparr>"

definition total_tokens :: "usage \<Rightarrow> u32" where
  "total_tokens u = sat_add (us_input u) (us_output u)"

datatype stream_stop_reason = StopToolCall | StopMaxTokens | StopSequence | StopEndTurn

definition from_api_str :: "string \<Rightarrow> stream_stop_reason option" where
  "from_api_str s =
     (if s = ''tool_call'' \<or> s = ''tool_use'' then Some StopToolCall
      else if s = ''max_tokens'' then Some StopMaxTokens
      else if s = ''stop_sequence'' then Some StopSequence
      else if s = ''end_turn'' then Some StopEndTurn
      else None)"

fun to_api_str :: "stream_stop_reason \<Rightarrow> string" where
  "to_api_str StopToolCall = ''tool_call''"
| "to_api_str StopMaxTokens = ''max_tokens''"
| "to_api_str StopSequence = ''stop_sequence''"
| "to_api_str StopEndTurn = ''end_turn''"

definition should_continue_tool_loop :: "stream_stop_reason \<Rightarrow> bool" where
  "should_continue_tool_loop r \<longleftrightarrow> r = StopToolCall"

definition default_stop_reason :: stream_stop_reason where
  "default_stop_reason = StopEndTurn"

lemma api_str_inverse: "from_api_str (to_api_str r) = Some r"
  by (cases r) (simp_all add: from_api_str_def)

subsection \<open>Events\<close>

record message_metadata =
  meta_id :: string
  meta_role :: string
  meta_model :: string

datatype 'v delta_part =
    DeltaText string
  | DeltaToolCall 'v
  | DeltaInputJson string
  | DeltaThinking string "string option" "string option"

datatype 'v stream_event =
    MessageStart message_metadata
  | PartStart nat "'v message_part option"
  | IndexedDelta nat "'v delta_part"
  | PartStop "nat option"
  | MessageDelta "string option" "usage option"
  | MessageStop
  | Ping

subsection \<open>The accumulator\<close>

datatype lane_kind = TextLane | ToolLane | ThinkingLane

record open_part =
  lane_index :: nat
  lane_kind :: lane_kind
  lane_text :: string
  lane_thinking :: string
  lane_signature :: "string option"
  lane_redacted :: "string option"
  lane_tool_id :: string
  lane_tool_name :: string
  lane_tool_input :: string

definition empty_lane :: "nat \<Rightarrow> lane_kind \<Rightarrow> open_part" where
  "empty_lane i k =
     \<lparr>lane_index = i, lane_kind = k, lane_text = [], lane_thinking = [], lane_signature = None,
      lane_redacted = None, lane_tool_id = [], lane_tool_name = [], lane_tool_input = []\<rparr>"

record 'v stream_accumulator =
  sa_completed :: "'v message_part list"
  sa_open :: "open_part list"
  sa_model :: "string option"
  sa_usage :: "usage option"

definition new_accumulator :: "'v stream_accumulator" where
  "new_accumulator = \<lparr>sa_completed = [], sa_open = [], sa_model = None, sa_usage = None\<rparr>"

definition opened_lane :: "nat \<Rightarrow> 'v message_part option \<Rightarrow> open_part" where
  "opened_lane i part =
     (case part of
        None \<Rightarrow> empty_lane i ThinkingLane
      | Some (ToolCallPart call_id name _) \<Rightarrow>
          (empty_lane i ToolLane)\<lparr>lane_tool_id := call_id, lane_tool_name := name\<rparr>
      | Some _ \<Rightarrow> empty_lane i TextLane)"

fun delta_lane :: "'v delta_part \<Rightarrow> lane_kind" where
  "delta_lane (DeltaText _) = TextLane"
| "delta_lane (DeltaToolCall _) = ToolLane"
| "delta_lane (DeltaInputJson _) = ToolLane"
| "delta_lane (DeltaThinking _ _ _) = ThinkingLane"

fun apply_delta :: "'v json_lib \<Rightarrow> 'v delta_part \<Rightarrow> open_part \<Rightarrow> open_part" where
  "apply_delta jl (DeltaText t) slot = slot\<lparr>lane_text := lane_text slot @ t\<rparr>"
| "apply_delta jl (DeltaInputJson s) slot = slot\<lparr>lane_tool_input := lane_tool_input slot @ s\<rparr>"
| "apply_delta jl (DeltaToolCall v) slot =
     (case jl_as_str jl v of Some s \<Rightarrow> slot\<lparr>lane_tool_input := lane_tool_input slot @ s\<rparr> | None \<Rightarrow> slot)"
| "apply_delta jl (DeltaThinking t sig red) slot =
     slot\<lparr>lane_thinking := lane_thinking slot @ t,
          lane_signature := (if sig \<noteq> None then sig else lane_signature slot),
          lane_redacted := (if red \<noteq> None then red else lane_redacted slot)\<rparr>"

definition stopped_position :: "nat option \<Rightarrow> open_part list \<Rightarrow> nat option" where
  "stopped_position index slots =
     (case index of
        Some i \<Rightarrow> position (\<lambda>s. lane_index s = i) slots
      | None \<Rightarrow> if slots \<noteq> [] then Some 0 else None)"

definition flush_lane :: "'v json_lib \<Rightarrow> open_part \<Rightarrow> stream_error + 'v message_part option" where
  "flush_lane jl slot =
     (case lane_kind slot of
        TextLane \<Rightarrow> Inr (if lane_text slot \<noteq> [] then Some (TextPart (lane_text slot)) else None)
      | ThinkingLane \<Rightarrow>
          Inr (if lane_thinking slot \<noteq> [] \<or> lane_signature slot \<noteq> None \<or> lane_redacted slot \<noteq> None
               then Some (ThinkingPart (lane_thinking slot) (lane_signature slot) (lane_redacted slot)) else None)
      | ToolLane \<Rightarrow>
          if lane_tool_name slot = [] then Inr None
          else if lane_tool_input slot = []
          then Inr (Some (ToolCallPart (lane_tool_id slot) (lane_tool_name slot) (jl_empty_object jl)))
          else
            (case jl_parse jl (lane_tool_input slot) of
               Inl e \<Rightarrow> Inl (InvalidToolInputJson e (lane_tool_input slot))
             | Inr v \<Rightarrow> Inr (Some (ToolCallPart (lane_tool_id slot) (lane_tool_name slot) v))))"

definition remove_at :: "nat \<Rightarrow> 'a list \<Rightarrow> 'a list" where
  "remove_at n xs = take n xs @ drop (Suc n) xs"

definition addressed :: "nat \<Rightarrow> lane_kind \<Rightarrow> open_part \<Rightarrow> bool" where
  "addressed i k s \<longleftrightarrow> lane_kind s = k \<and> lane_index s = i"

definition process :: "'v json_lib \<Rightarrow> 'v stream_event \<Rightarrow> 'v stream_accumulator \<Rightarrow> (stream_error + unit) \<times> 'v stream_accumulator" where
  "process jl event acc =
     (case event of
        MessageStart meta \<Rightarrow> (Inr (), acc\<lparr>sa_model := Some (meta_model meta)\<rparr>)
      | PartStart i part \<Rightarrow> (Inr (), acc\<lparr>sa_open := sa_open acc @ [opened_lane i part]\<rparr>)
      | IndexedDelta i d \<Rightarrow>
          (Inr (), acc\<lparr>sa_open := update_first (addressed i (delta_lane d)) (apply_delta jl d) (sa_open acc)\<rparr>)
      | PartStop index \<Rightarrow>
          (case stopped_position index (sa_open acc) of
             None \<Rightarrow> (Inr (), acc)
           | Some pos \<Rightarrow>
               (let acc1 = acc\<lparr>sa_open := remove_at pos (sa_open acc)\<rparr>
                in case flush_lane jl (sa_open acc ! pos) of
                     Inl e \<Rightarrow> (Inl e, acc1)
                   | Inr None \<Rightarrow> (Inr (), acc1)
                   | Inr (Some part) \<Rightarrow> (Inr (), acc1\<lparr>sa_completed := sa_completed acc1 @ [part]\<rparr>)))
      | MessageDelta _ us \<Rightarrow> (Inr (), acc\<lparr>sa_usage := us\<rparr>)
      | MessageStop \<Rightarrow> (Inr (), acc)
      | Ping \<Rightarrow> (Inr (), acc))"

definition build :: "'v stream_accumulator \<Rightarrow> 'v message" where
  "build acc = new_message Assistant (sa_completed acc)"

text \<open>A whole stream, up to the first error.\<close>

fun process_all :: "'v json_lib \<Rightarrow> 'v stream_event list \<Rightarrow> 'v stream_accumulator \<Rightarrow> (stream_error + unit) \<times> 'v stream_accumulator" where
  "process_all jl [] acc = (Inr (), acc)"
| "process_all jl (e # es) acc =
     (case process jl e acc of
        (Inl err, acc1) \<Rightarrow> (Inl err, acc1)
      | (Inr _, acc1) \<Rightarrow> process_all jl es acc1)"

subsection \<open>Lanes\<close>

text \<open>A lane is named by its kind and its index. The deltas of a lane, out of a sequence of deltas.\<close>

definition lane_of :: "open_part \<Rightarrow> lane_kind \<times> nat" where
  "lane_of s = (lane_kind s, lane_index s)"

definition deltas_for :: "lane_kind \<times> nat \<Rightarrow> (nat \<times> 'v delta_part) list \<Rightarrow> 'v delta_part list" where
  "deltas_for lane ds = map snd (filter (\<lambda>(i, d). (delta_lane d, i) = lane) ds)"

definition deliver :: "'v json_lib \<Rightarrow> 'v delta_part list \<Rightarrow> open_part \<Rightarrow> open_part" where
  "deliver jl ds slot = fold (apply_delta jl) ds slot"

lemma process_all_append:
  "process_all jl (es @ fs) acc =
     (case process_all jl es acc of (Inl err, acc1) \<Rightarrow> (Inl err, acc1) | (Inr _, acc1) \<Rightarrow> process_all jl fs acc1)"
  by (induction es arbitrary: acc) (auto split: prod.split sum.split)

lemma lane_of_apply [simp]: "lane_of (apply_delta jl d s) = lane_of s"
  by (cases d) (auto simp: lane_of_def split: option.split)

lemma lane_of_deliver [simp]: "lane_of (deliver jl ds s) = lane_of s"
  by (induction ds arbitrary: s) (simp_all add: deliver_def)

lemma addressed_lane: "addressed i k s \<longleftrightarrow> lane_of s = (k, i)"
  by (auto simp: addressed_def lane_of_def)

lemma update_distinct:
  assumes "distinct (map lane_of slots)"
  shows "update_first (addressed i k) f slots = map (\<lambda>s. if lane_of s = (k, i) then f s else s) slots"
  using assms
proof (induction slots)
  case (Cons s slots)
  have "map (\<lambda>s. if lane_of s = (k, i) then f s else s) slots = slots" if "lane_of s = (k, i)"
    using Cons.prems that by (intro map_idI) (metis distinct.simps(2) image_eqI list.simps(9) set_map)
  then show ?case using Cons by (simp add: addressed_lane)
qed simp

lemma lanes_independent:
  assumes "distinct (map lane_of (sa_open acc))"
  shows "process_all jl (map (\<lambda>(i, d). IndexedDelta i d) ds) acc =
    (Inr (), acc\<lparr>sa_open := map (\<lambda>s. deliver jl (deltas_for (lane_of s) ds) s) (sa_open acc)\<rparr>)"
  using assms
proof (induction ds arbitrary: acc)
  case Nil
  then show ?case by (simp add: deltas_for_def deliver_def)
next
  case (Cons e ds)
  obtain i d where e: "e = (i, d)" by (cases e)
  let ?slots = "map (\<lambda>s. if lane_of s = (delta_lane d, i) then apply_delta jl d s else s) (sa_open acc)"
  have same: "map lane_of ?slots = map lane_of (sa_open acc)" by simp
  have "distinct (map lane_of ?slots)" unfolding same by (rule Cons.prems)
  then have lanes: "distinct (map lane_of (sa_open (acc\<lparr>sa_open := ?slots\<rparr>)))" by (simp del: map_map)
  have "process_all jl (map (\<lambda>(i, d). IndexedDelta i d) (e # ds)) acc =
      process_all jl (map (\<lambda>(i, d). IndexedDelta i d) ds) (acc\<lparr>sa_open := ?slots\<rparr>)"
    by (simp add: e process_def update_distinct [OF Cons.prems])
  also have "\<dots> = (Inr (), acc\<lparr>sa_open := map (\<lambda>s. deliver jl (deltas_for (lane_of s) ds) s) ?slots\<rparr>)"
    unfolding Cons.IH [OF lanes] by simp
  also have "map (\<lambda>s. deliver jl (deltas_for (lane_of s) ds) s) ?slots =
      map (\<lambda>s. deliver jl (deltas_for (lane_of s) (e # ds)) s) (sa_open acc)"
    by (auto simp: e deltas_for_def deliver_def)
  finally show ?case .
qed

text \<open>
  What a stream spells, read off its events without an accumulator: the fragments of one lane, put
  together in the order in which they were sent. A signature and a redacted payload are the last that
  were sent.
\<close>

definition lane_for :: "nat \<times> 'v message_part option \<Rightarrow> open_part" where
  "lane_for start = opened_lane (fst start) (snd start)"

definition fragments :: "('v delta_part \<Rightarrow> string option) \<Rightarrow> nat \<Rightarrow> (nat \<times> 'v delta_part) list \<Rightarrow> string list" where
  "fragments piece i ds = List.map_filter (\<lambda>(j, d). if j = i then piece d else None) ds"

definition last_sent :: "('v delta_part \<Rightarrow> string option) \<Rightarrow> nat \<Rightarrow> (nat \<times> 'v delta_part) list \<Rightarrow> string option" where
  "last_sent piece i ds = (let sent = fragments piece i ds in if sent = [] then None else Some (last sent))"

fun text_piece :: "'v delta_part \<Rightarrow> string option" where
  "text_piece (DeltaText t) = Some t"
| "text_piece _ = None"

fun thought_piece :: "'v delta_part \<Rightarrow> string option" where
  "thought_piece (DeltaThinking t _ _) = Some t"
| "thought_piece _ = None"

fun signature_piece :: "'v delta_part \<Rightarrow> string option" where
  "signature_piece (DeltaThinking _ signature _) = signature"
| "signature_piece _ = None"

fun redacted_piece :: "'v delta_part \<Rightarrow> string option" where
  "redacted_piece (DeltaThinking _ _ redacted) = redacted"
| "redacted_piece _ = None"

fun argument_piece :: "'v json_lib \<Rightarrow> 'v delta_part \<Rightarrow> string option" where
  "argument_piece jl (DeltaInputJson s) = Some s"
| "argument_piece jl (DeltaToolCall v) = jl_as_str jl v"
| "argument_piece jl _ = None"

text \<open>
  The part a lane stands for. A text without a character and a line of thought without anything are
  no part, and neither is a call without a name; a call with a name is one, also without arguments.
\<close>

definition spelled_call ::
  "'v json_lib \<Rightarrow> string \<Rightarrow> string \<Rightarrow> string \<Rightarrow> stream_error + 'v message_part option" where
  "spelled_call jl call_id name arguments =
     (if name = [] then Inr None
      else if arguments = [] then Inr (Some (ToolCallPart call_id name (jl_empty_object jl)))
      else (case jl_parse jl arguments of
              Inl e \<Rightarrow> Inl (InvalidToolInputJson e arguments)
            | Inr v \<Rightarrow> Inr (Some (ToolCallPart call_id name v))))"

definition spelled_part ::
  "'v json_lib \<Rightarrow> (nat \<times> 'v delta_part) list \<Rightarrow> nat \<times> 'v message_part option \<Rightarrow> stream_error + 'v message_part option" where
  "spelled_part jl ds start =
     (case start of
        (i, Some (ToolCallPart call_id name _)) \<Rightarrow>
          spelled_call jl call_id name (concat (fragments (argument_piece jl) i ds))
      | (i, Some _) \<Rightarrow>
          (let t = concat (fragments text_piece i ds) in Inr (if t = [] then None else Some (TextPart t)))
      | (i, None) \<Rightarrow>
          (let t = concat (fragments thought_piece i ds); signature = last_sent signature_piece i ds;
               redacted = last_sent redacted_piece i ds
           in Inr (if t = [] \<and> signature = None \<and> redacted = None then None
                   else Some (ThinkingPart t signature redacted))))"

definition list_of :: "'a option list \<Rightarrow> 'a list" where
  "list_of xs = concat (map (\<lambda>x. case x of None \<Rightarrow> [] | Some y \<Rightarrow> [y]) xs)"

text \<open>What has arrived at a lane, field by field; a fragment of another kind finds another lane.\<close>

lemma fragments_simps [simp]:
  "fragments piece i [] = []"
  "fragments piece i ((j, d) # ds) =
     (if j = i then (case piece d of None \<Rightarrow> [] | Some t \<Rightarrow> [t]) else []) @ fragments piece i ds"
  by (simp_all add: fragments_def List.map_filter_simps split: option.split)

lemma last_sent_simps [simp]:
  "last_sent piece i [] = None"
  "last_sent piece i ((j, d) # ds) =
     (case last_sent piece i ds of Some t \<Rightarrow> Some t | None \<Rightarrow> if j = i then piece d else None)"
  by (auto simp: last_sent_def Let_def split: option.split)

lemma deltas_for_simps [simp]:
  "deltas_for lane [] = []"
  "deltas_for lane ((j, d) # ds) = (if (delta_lane d, j) = lane then [d] else []) @ deltas_for lane ds"
  by (simp_all add: deltas_for_def)

lemma deliver_simps [simp]:
  "deliver jl [] slot = slot" "deliver jl (d # ds) slot = deliver jl ds (apply_delta jl d slot)"
  by (simp_all add: deliver_def)

lemma delivered_name [simp]:
  "lane_kind (deliver jl ds slot) = lane_kind slot" "lane_index (deliver jl ds slot) = lane_index slot"
  "lane_tool_id (deliver jl ds slot) = lane_tool_id slot" "lane_tool_name (deliver jl ds slot) = lane_tool_name slot"
proof -
  have one: "lane_kind (apply_delta jl d slot) = lane_kind slot \<and> lane_index (apply_delta jl d slot) = lane_index slot \<and>
      lane_tool_id (apply_delta jl d slot) = lane_tool_id slot \<and>
      lane_tool_name (apply_delta jl d slot) = lane_tool_name slot" for d slot
    by (cases d) (simp_all split: option.split)
  show "lane_kind (deliver jl ds slot) = lane_kind slot" "lane_index (deliver jl ds slot) = lane_index slot"
    "lane_tool_id (deliver jl ds slot) = lane_tool_id slot" "lane_tool_name (deliver jl ds slot) = lane_tool_name slot"
    by (induction ds arbitrary: slot) (simp_all add: one)
qed

lemma text_arrived:
  "lane_text (deliver jl (deltas_for (TextLane, i) ds) slot) = lane_text slot @ concat (fragments text_piece i ds)"
proof (induction ds arbitrary: slot)
  case (Cons e ds)
  obtain j d where e: "e = (j, d)" by (cases e)
  show ?case unfolding e by (cases "j = i"; cases d) (simp_all add: Cons.IH)
qed simp

lemma arguments_arrived:
  "lane_tool_input (deliver jl (deltas_for (ToolLane, i) ds) slot) =
     lane_tool_input slot @ concat (fragments (argument_piece jl) i ds)"
proof (induction ds arbitrary: slot)
  case (Cons e ds)
  obtain j d where e: "e = (j, d)" by (cases e)
  show ?case unfolding e by (cases "j = i"; cases d) (simp_all add: Cons.IH split: option.split)
qed simp

lemma thought_arrived:
  "lane_thinking (deliver jl (deltas_for (ThinkingLane, i) ds) slot) =
     lane_thinking slot @ concat (fragments thought_piece i ds)"
  "lane_signature (deliver jl (deltas_for (ThinkingLane, i) ds) slot) =
     (case last_sent signature_piece i ds of Some t \<Rightarrow> Some t | None \<Rightarrow> lane_signature slot)"
  "lane_redacted (deliver jl (deltas_for (ThinkingLane, i) ds) slot) =
     (case last_sent redacted_piece i ds of Some t \<Rightarrow> Some t | None \<Rightarrow> lane_redacted slot)"
proof (induction ds arbitrary: slot)
  case (Cons e ds)
  obtain j d where e: "e = (j, d)" by (cases e)
  { case 1 show ?case unfolding e by (cases "j = i"; cases d) (simp_all add: Cons.IH) }
  { case 2 show ?case unfolding e by (cases "j = i"; cases d) (auto simp: Cons.IH split: option.split) }
  { case 3 show ?case unfolding e by (cases "j = i"; cases d) (auto simp: Cons.IH split: option.split) }
qed simp_all

lemma flush_spelled:
  "flush_lane jl (deliver jl (deltas_for (lane_of (lane_for start)) ds) (lane_for start)) = spelled_part jl ds start"
proof (cases start)
  case (Pair i part)
  note lane = lane_for_def opened_lane_def empty_lane_def lane_of_def flush_lane_def spelled_part_def
  show ?thesis
  proof (cases part)
    case None
    then show ?thesis by (auto simp: Pair lane thought_arrived Let_def split: option.split)
  next
    case (Some p)
    then show ?thesis
      by (cases p) (simp_all add: Pair lane text_arrived arguments_arrived spelled_call_def Let_def split: sum.split)
  qed
qed

lemma starts_open:
  "process_all jl (map (\<lambda>(i, part). PartStart i part) starts) acc =
     (Inr (), acc\<lparr>sa_open := sa_open acc @ map lane_for starts\<rparr>)"
  by (induction starts arbitrary: acc) (auto simp: process_def lane_for_def)

text \<open>A stop without an index closes the oldest lane, one with an index the lane of that index.\<close>

lemma stop_at:
  assumes "stopped_position index (sa_open acc) = Some pos" and "flush_lane jl (sa_open acc ! pos) = Inr part"
  shows "process jl (PartStop index) acc =
    (Inr (), acc\<lparr>sa_open := remove_at pos (sa_open acc), sa_completed := sa_completed acc @ list_of [part]\<rparr>)"
  using assms by (cases part) (simp_all add: process_def list_of_def)

lemma remove_at_split: "length xs = n \<Longrightarrow> remove_at n (xs @ y # ys) = xs @ ys"
  by (auto simp: remove_at_def)

lemma position_middle: "(\<And>x. x \<in> set xs \<Longrightarrow> \<not> P x) \<Longrightarrow> P y \<Longrightarrow> position P (xs @ y # ys) = Some (length xs)"
  by (induction xs) simp_all

lemma stops_flush:
  "list_all2 (\<lambda>s part. flush_lane jl s = Inr part) (sa_open acc) parts \<Longrightarrow>
     process_all jl (replicate (length parts) (PartStop None)) acc =
       (Inr (), acc\<lparr>sa_open := [], sa_completed := sa_completed acc @ list_of parts\<rparr>)"
proof (induction parts arbitrary: acc)
  case Nil
  then have "sa_open acc = []" by simp
  then show ?case by (cases acc) (simp add: list_of_def)
next
  case (Cons part parts)
  then obtain s slots where slots: "sa_open acc = s # slots" "flush_lane jl s = Inr part"
      "list_all2 (\<lambda>s part. flush_lane jl s = Inr part) slots parts"
    by (auto simp: list_all2_Cons2)
  let ?acc = "acc\<lparr>sa_open := slots, sa_completed := sa_completed acc @ list_of [part]\<rparr>"
  have "process jl (PartStop None) acc = (Inr (), ?acc)"
    using stop_at [of None acc 0 jl part] slots(1,2) by (simp add: stopped_position_def remove_at_def)
  moreover have "process_all jl (replicate (length parts) (PartStop None)) ?acc =
      (Inr (), ?acc\<lparr>sa_open := [], sa_completed := sa_completed ?acc @ list_of parts\<rparr>)"
    using slots(3) by (intro Cons.IH) simp
  ultimately show ?case by (simp add: list_of_def)
qed

lemma indexed_stops_flush:
  "distinct (map lane_index (sa_open acc)) \<Longrightarrow> mset slots = mset (sa_open acc) \<Longrightarrow>
   list_all2 (\<lambda>s part. flush_lane jl s = Inr part) slots parts \<Longrightarrow>
     process_all jl (map (\<lambda>s. PartStop (Some (lane_index s))) slots) acc =
       (Inr (), acc\<lparr>sa_open := [], sa_completed := sa_completed acc @ list_of parts\<rparr>)"
proof (induction slots arbitrary: acc parts)
  case Nil
  then have "sa_open acc = []" by simp
  with Nil show ?case by (cases acc) (simp add: list_of_def)
next
  case (Cons s slots)
  from Cons.prems(3) obtain part rest where parts: "parts = part # rest" "flush_lane jl s = Inr part"
      "list_all2 (\<lambda>s part. flush_lane jl s = Inr part) slots rest"
    by (auto simp: list_all2_Cons1)
  have "s \<in> set (sa_open acc)" using Cons.prems(2) by (metis list.set_intros(1) mset_eq_setD)
  then obtain before after where sides: "sa_open acc = before @ s # after" by (auto dest: split_list)
  have "lane_index s \<notin> lane_index ` set before" using Cons.prems(1) by (simp add: sides)
  then have first: "lane_index x \<noteq> lane_index s" if "x \<in> set before" for x using that by (metis image_eqI)
  let ?acc = "acc\<lparr>sa_open := before @ after, sa_completed := sa_completed acc @ list_of [part]\<rparr>"
  have "stopped_position (Some (lane_index s)) (sa_open acc) = Some (length before)"
    using first by (simp add: stopped_position_def sides position_middle)
  then have "process jl (PartStop (Some (lane_index s))) acc = (Inr (), ?acc)"
    using stop_at [of "Some (lane_index s)" acc "length before" jl part] parts(2)
    by (simp add: sides remove_at_split)
  moreover have "process_all jl (map (\<lambda>s. PartStop (Some (lane_index s))) slots) ?acc =
      (Inr (), ?acc\<lparr>sa_open := [], sa_completed := sa_completed ?acc @ list_of rest\<rparr>)"
    using Cons.prems(1,2) parts(3) by (intro Cons.IH) (simp_all add: sides)
  ultimately show ?case by (simp add: parts(1) list_of_def)
qed


text \<open>
  A stop closes one lane and loses no other. It fails exactly when it closes a tool lane with a name
  whose arguments do not parse, and then reports the arguments it saw; failing or not, the lane it
  names is gone, every other lane and every completed part is as before, and at most one part is added.
\<close>

theorem stop_closes_one_lane:
  "case process jl (PartStop index) acc of (res, acc') \<Rightarrow>
     (case stopped_position index (sa_open acc) of
        None \<Rightarrow> res = Inr () \<and> acc' = acc
      | Some pos \<Rightarrow>
          pos < length (sa_open acc) \<and> sa_open acc' = remove_at pos (sa_open acc) \<and>
          sa_model acc' = sa_model acc \<and> sa_usage acc' = sa_usage acc \<and>
          (let slot = sa_open acc ! pos;
               unparsable = lane_kind slot = ToolLane \<and> lane_tool_name slot \<noteq> [] \<and> lane_tool_input slot \<noteq> [] \<and>
                 (\<exists>e. jl_parse jl (lane_tool_input slot) = Inl e)
           in (case res of
                 Inl (InvalidToolInputJson e raw) \<Rightarrow>
                   unparsable \<and> raw = lane_tool_input slot \<and> jl_parse jl raw = Inl e \<and> sa_completed acc' = sa_completed acc
               | Inr _ \<Rightarrow>
                   \<not> unparsable \<and> (\<exists>part. flush_lane jl slot = Inr part \<and> sa_completed acc' = sa_completed acc @ list_of [part]))))"
proof (cases "stopped_position index (sa_open acc)")
  case None
  then show ?thesis by (simp add: process_def)
next
  case (Some pos)
  then have "pos < length (sa_open acc)"
    by (auto simp: stopped_position_def split: option.splits if_splits dest: position_Some)
  then show ?thesis using Some
    by (cases "lane_kind (sa_open acc ! pos)")
      (auto simp: process_def Let_def flush_lane_def list_of_def split: sum.split)
qed

text \<open>Two calls whose arguments come in turns, on a library that reads any text as its length.\<close>

definition length_json :: "nat json_lib" where
  "length_json = \<lparr>jl_parse = (\<lambda>s. Inr (length s)), jl_as_str = (\<lambda>_. None), jl_empty_object = 0\<rparr>"


end
