(* ===== verification/Api_Error.thy ===== *)
theory Api_Error
  imports Errors
begin

section \<open>Errors of providers\<close>

text \<open>
  src/src/api/error.rs: the error a provider call ends with, its code, its retryability, the metadata of
  the response, and the reading of statuses and of Retry-After. An error of the JSON library is its
  rendering, an I/O error its kind and its rendering. The parser of HTTP dates is a third-party
  package and an argument: an instant of the calendar in nanoseconds.
\<close>

datatype error_code =
    CodeApiRequestFailed | CodeApiResponseInvalid | CodeApiRateLimited | CodeApiTimeout | CodeApiStreamError
  | CodeApiContextOverflow | CodeAuthInvalidKey | CodeAuthFailed | CodeHttpConnectionError | CodeHttpRequestError
  | CodeHttpResponseError | CodeToolNotFound | CodeToolExecutionFailed | CodeToolPermissionDenied
  | CodeToolInputInvalid | CodeToolTimeout | CodeConfigFileNotFound | CodeConfigParseError
  | CodeConfigValidationError | CodeConfigMissing | CodeIoFileNotFound | CodeIoReadError | CodeIoWriteError
  | CodeJsonParseError | CodeInternalError | CodeInterrupted

fun code_number :: "error_code \<Rightarrow> nat" where
  "code_number CodeApiRequestFailed = 1000"
| "code_number CodeApiResponseInvalid = 1001"
| "code_number CodeApiRateLimited = 1002"
| "code_number CodeApiTimeout = 1003"
| "code_number CodeApiStreamError = 1004"
| "code_number CodeApiContextOverflow = 1005"
| "code_number CodeAuthInvalidKey = 1100"
| "code_number CodeAuthFailed = 1101"
| "code_number CodeHttpConnectionError = 1200"
| "code_number CodeHttpRequestError = 1201"
| "code_number CodeHttpResponseError = 1202"
| "code_number CodeToolNotFound = 1300"
| "code_number CodeToolExecutionFailed = 1301"
| "code_number CodeToolPermissionDenied = 1302"
| "code_number CodeToolInputInvalid = 1303"
| "code_number CodeToolTimeout = 1304"
| "code_number CodeConfigFileNotFound = 1400"
| "code_number CodeConfigParseError = 1401"
| "code_number CodeConfigValidationError = 1402"
| "code_number CodeConfigMissing = 1403"
| "code_number CodeIoFileNotFound = 1500"
| "code_number CodeIoReadError = 1501"
| "code_number CodeIoWriteError = 1502"
| "code_number CodeJsonParseError = 1600"
| "code_number CodeInternalError = 1700"
| "code_number CodeInterrupted = 1999"

subsection \<open>Metadata of a response\<close>

record rate_limit_snapshot =
  rs_limit :: "string option"
  rs_remaining :: "string option"
  rs_reset :: "string option"

record provider_meta =
  pm_request_id :: "string option"
  pm_rate_limit :: "rate_limit_snapshot option"

definition max_request_id_chars :: nat where
  "max_request_id_chars = 256"

definition max_rate_limit_value_chars :: nat where
  "max_rate_limit_value_chars = 128"

definition bounded_header_value :: "string \<Rightarrow> nat \<Rightarrow> string option" where
  "bounded_header_value v bound =
     (let trimmed = trim v
      in if trimmed = [] then None else Some (concat (take bound (utf8_chars trimmed))))"

definition new_meta :: provider_meta where
  "new_meta = \<lparr>pm_request_id = None, pm_rate_limit = None\<rparr>"

definition with_request_id :: "string \<Rightarrow> provider_meta" where
  "with_request_id v = \<lparr>pm_request_id = bounded_header_value v max_request_id_chars, pm_rate_limit = None\<rparr>"

definition with_rate_limit :: "rate_limit_snapshot \<Rightarrow> provider_meta" where
  "with_rate_limit s = \<lparr>pm_request_id = None, pm_rate_limit = Some s\<rparr>"

definition new_snapshot :: "string option \<Rightarrow> string option \<Rightarrow> string option \<Rightarrow> rate_limit_snapshot" where
  "new_snapshot limit remaining reset =
     (let bound = (\<lambda>v. Option.bind v (\<lambda>s. bounded_header_value s max_rate_limit_value_chars))
      in \<lparr>rs_limit = bound limit, rs_remaining = bound remaining, rs_reset = bound reset\<rparr>)"

definition snapshot_is_empty :: "rate_limit_snapshot \<Rightarrow> bool" where
  "snapshot_is_empty s \<longleftrightarrow> rs_limit s = None \<and> rs_remaining s = None \<and> rs_reset s = None"

definition meta_is_empty :: "provider_meta \<Rightarrow> bool" where
  "meta_is_empty m \<longleftrightarrow> pm_request_id m = None \<and> (case pm_rate_limit m of None \<Rightarrow> True | Some s \<Rightarrow> snapshot_is_empty s)"

subsection \<open>The error\<close>

datatype io_error_kind = IoNotFound | IoPermissionDenied | IoWriteZero | IoOtherKind

datatype api_error =
    ApiFailure string "provider_meta option"
  | ApiRateLimit "duration option" string "provider_meta option"
  | ApiAuth string "provider_meta option"
  | ApiHttp string "provider_meta option"
  | ApiJson string
  | ApiIo io_error_kind string
  | ApiTool string
  | ApiConfig string
  | ApiInterrupted
  | ApiOther string

text \<open>\<open>str::parse\<close> for an unsigned integer of the given width: an optional plus sign and digits that fit.\<close>

definition parse_unsigned :: "nat \<Rightarrow> string \<Rightarrow> nat option" where
  "parse_unsigned width s =
     (let ds = (case s of c # cs \<Rightarrow> if c = CHR ''+'' then cs else s | [] \<Rightarrow> [])
      in if ds \<noteq> [] \<and> list_all is_ascii_digit ds \<and> digits_value ds < 2 ^ width then Some (digits_value ds) else None)"

definition http_status_from_message :: "string \<Rightarrow> nat option" where
  "http_status_from_message msg =
     (if prefix ''HTTP '' msg then
        (let rest = drop 5 msg
         in if CHR '':'' \<in> set rest then parse_unsigned 16 (takeWhile (\<lambda>c. c \<noteq> CHR '':'') rest) else None)
      else None)"

definition http_status_is_overload :: "string \<Rightarrow> bool" where
  "http_status_is_overload msg \<longleftrightarrow>
     (case http_status_from_message msg of Some status \<Rightarrow> status = 429 \<or> status = 503 \<or> status = 529 | None \<Rightarrow> False)"

definition http_status_is_retryable :: "string \<Rightarrow> bool" where
  "http_status_is_retryable msg \<longleftrightarrow>
     (case http_status_from_message msg of None \<Rightarrow> True | Some status \<Rightarrow> status \<ge> 500 \<or> status = 408 \<or> status = 429)"

definition is_context_overflow_internal :: "string \<Rightarrow> bool" where
  "is_context_overflow_internal msg \<longleftrightarrow>
     (let lower = lowercase msg
      in sublist ''context'' lower \<or> sublist ''too many tokens'' lower \<or>
         sublist ''exceeds maximum'' lower \<or> sublist ''max tokens'' lower)"

definition mentions_rate_limit :: "string \<Rightarrow> bool" where
  "mentions_rate_limit msg \<longleftrightarrow> (let lower = lowercase msg in sublist ''rate limit'' lower \<or> sublist ''429'' lower)"

fun code :: "api_error \<Rightarrow> error_code" where
  "code (ApiFailure msg _) =
     (let lower = lowercase msg
      in if sublist ''timeout'' lower then CodeApiTimeout
         else if mentions_rate_limit msg then CodeApiRateLimited
         else if sublist ''stream'' lower then CodeApiStreamError
         else if is_context_overflow_internal msg then CodeApiContextOverflow
         else CodeApiRequestFailed)"
| "code (ApiAuth msg _) = (if sublist ''invalid'' (lowercase msg) then CodeAuthInvalidKey else CodeAuthFailed)"
| "code (ApiRateLimit _ _ _) = CodeApiRateLimited"
| "code (ApiHttp msg _) =
     (case http_status_from_message msg of
        Some status \<Rightarrow> if status \<ge> 500 then CodeHttpResponseError else CodeHttpRequestError
      | None \<Rightarrow> CodeHttpConnectionError)"
| "code (ApiJson _) = CodeJsonParseError"
| "code (ApiIo kind _) =
     (case kind of
        IoNotFound \<Rightarrow> CodeIoFileNotFound
      | IoPermissionDenied \<Rightarrow> CodeIoWriteError
      | IoWriteZero \<Rightarrow> CodeIoWriteError
      | IoOtherKind \<Rightarrow> CodeIoReadError)"
| "code (ApiTool msg) =
     (let lower = lowercase msg
      in if sublist ''not found'' lower then CodeToolNotFound
         else if sublist ''permission'' lower \<or> sublist ''denied'' lower then CodeToolPermissionDenied
         else if sublist ''timeout'' lower then CodeToolTimeout
         else if sublist ''invalid'' lower then CodeToolInputInvalid
         else CodeToolExecutionFailed)"
| "code (ApiConfig msg) =
     (let lower = lowercase msg
      in if sublist ''not found'' lower then CodeConfigFileNotFound
         else if sublist ''validation'' lower then CodeConfigValidationError
         else if sublist ''missing'' lower then CodeConfigMissing
         else CodeConfigParseError)"
| "code ApiInterrupted = CodeInterrupted"
| "code (ApiOther _) = CodeInternalError"

subsection \<open>Classification\<close>

fun is_context_overflow :: "api_error \<Rightarrow> bool" where
  "is_context_overflow (ApiFailure msg _) = is_context_overflow_internal msg"
| "is_context_overflow (ApiOther msg) = is_context_overflow_internal msg"
| "is_context_overflow _ = False"

definition retryable_codes :: "error_code list" where
  "retryable_codes =
     [CodeApiRequestFailed, CodeApiRateLimited, CodeApiTimeout, CodeApiStreamError, CodeHttpConnectionError,
      CodeHttpResponseError]"

definition is_retryable :: "api_error \<Rightarrow> bool" where
  "is_retryable e \<longleftrightarrow>
     (case e of ApiHttp msg _ \<Rightarrow> http_status_is_retryable msg | _ \<Rightarrow> code e \<in> set retryable_codes)"

fun is_rate_limited :: "api_error \<Rightarrow> bool" where
  "is_rate_limited (ApiRateLimit _ _ _) = True"
| "is_rate_limited (ApiFailure msg _) = mentions_rate_limit msg"
| "is_rate_limited (ApiHttp msg _) = http_status_is_overload msg"
| "is_rate_limited _ = False"

definition is_auth_error :: "api_error \<Rightarrow> bool" where
  "is_auth_error e \<longleftrightarrow> (case e of ApiAuth _ _ \<Rightarrow> True | _ \<Rightarrow> False)"

definition is_config_error :: "api_error \<Rightarrow> bool" where
  "is_config_error e \<longleftrightarrow> (case e of ApiConfig _ \<Rightarrow> True | _ \<Rightarrow> False)"

definition is_io_error :: "api_error \<Rightarrow> bool" where
  "is_io_error e \<longleftrightarrow> (case e of ApiIo _ _ \<Rightarrow> True | _ \<Rightarrow> False)"

definition is_tool_error :: "api_error \<Rightarrow> bool" where
  "is_tool_error e \<longleftrightarrow> (case e of ApiTool _ \<Rightarrow> True | _ \<Rightarrow> False)"

definition http_status :: "api_error \<Rightarrow> nat option" where
  "http_status e = (case e of ApiHttp msg _ \<Rightarrow> http_status_from_message msg | _ \<Rightarrow> None)"

subsection \<open>Constructors\<close>

definition api_auth_invalid_key :: "string \<Rightarrow> api_error" where
  "api_auth_invalid_key msg = ApiAuth (''Invalid API key: '' @ msg) None"

definition http_with_status :: "16 word \<Rightarrow> string \<Rightarrow> api_error" where
  "http_with_status status msg = ApiHttp (''HTTP '' @ show_nat (unat status) @ '': '' @ msg) None"

definition tool_with_name :: "string \<Rightarrow> string \<Rightarrow> api_error" where
  "tool_with_name tool msg = ApiTool (tool @ '': '' @ msg)"

definition api_tool_not_found :: "string \<Rightarrow> api_error" where
  "api_tool_not_found tool = ApiTool (''Tool not found: '' @ tool)"

definition tool_permission :: "string \<Rightarrow> string \<Rightarrow> api_error" where
  "tool_permission tool msg = ApiTool (tool @ '' permission denied: '' @ msg)"

definition tool_input_invalid :: "string \<Rightarrow> string \<Rightarrow> api_error" where
  "tool_input_invalid tool msg = ApiTool (tool @ '' invalid input: '' @ msg)"

definition config_not_found :: "string \<Rightarrow> api_error" where
  "config_not_found path = ApiConfig (''Configuration file not found: '' @ path)"

definition config_validation :: "string \<Rightarrow> api_error" where
  "config_validation msg = ApiConfig (''Configuration validation failed: '' @ msg)"

definition api_timeout :: "string \<Rightarrow> api_error" where
  "api_timeout msg = ApiFailure (''Request timeout: '' @ msg) None"

definition api_rate_limited :: api_error where
  "api_rate_limited = ApiFailure ''Rate limit exceeded, please retry after a moment'' None"

definition rate_limited :: "string \<Rightarrow> duration option \<Rightarrow> api_error" where
  "rate_limited message retry_after = ApiRateLimit retry_after message None"

definition api_stream :: "string \<Rightarrow> api_error" where
  "api_stream msg = ApiFailure (''Stream error: '' @ msg) None"

subsection \<open>Metadata and rendering\<close>

fun attached_meta :: "api_error \<Rightarrow> provider_meta option" where
  "attached_meta (ApiFailure _ meta) = meta"
| "attached_meta (ApiAuth _ meta) = meta"
| "attached_meta (ApiHttp _ meta) = meta"
| "attached_meta (ApiRateLimit _ _ meta) = meta"
| "attached_meta _ = None"

definition provider_meta_of :: "api_error \<Rightarrow> provider_meta" where
  "provider_meta_of e = (case attached_meta e of Some m \<Rightarrow> m | None \<Rightarrow> new_meta)"

definition with_provider_meta :: "provider_meta \<Rightarrow> api_error \<Rightarrow> api_error" where
  "with_provider_meta m e =
     (let meta = (if meta_is_empty m then None else Some m)
      in case e of
           ApiFailure msg _ \<Rightarrow> ApiFailure msg meta
         | ApiAuth msg _ \<Rightarrow> ApiAuth msg meta
         | ApiHttp msg _ \<Rightarrow> ApiHttp msg meta
         | ApiRateLimit retry_after message _ \<Rightarrow> ApiRateLimit retry_after message meta
         | other \<Rightarrow> other)"

fun wire_message :: "api_error \<Rightarrow> string option" where
  "wire_message (ApiFailure msg _) = Some msg"
| "wire_message (ApiAuth msg _) = Some msg"
| "wire_message (ApiHttp msg _) = Some msg"
| "wire_message (ApiRateLimit _ message _) = Some message"
| "wire_message _ = None"

definition fmt_request_id :: "provider_meta option \<Rightarrow> string" where
  "fmt_request_id meta =
     (case Option.bind meta pm_request_id of Some i \<Rightarrow> '' [req '' @ i @ '']'' | None \<Rightarrow> [])"

text \<open>How an optional duration is printed for debugging is the argument \<open>d\<close>.\<close>

fun show_api_error :: "(duration option \<Rightarrow> string) \<Rightarrow> api_error \<Rightarrow> string" where
  "show_api_error d (ApiFailure msg meta) = ''API error: '' @ msg @ fmt_request_id meta"
| "show_api_error d (ApiRateLimit retry_after message meta) =
     ''Rate limit exceeded (retry after '' @ d retry_after @ ''): '' @ message @ fmt_request_id meta"
| "show_api_error d (ApiAuth msg meta) = ''Authentication error: '' @ msg @ fmt_request_id meta"
| "show_api_error d (ApiHttp msg meta) = ''HTTP error: '' @ msg @ fmt_request_id meta"
| "show_api_error d (ApiJson err) = ''JSON error: '' @ err"
| "show_api_error d (ApiIo _ err) = ''IO error: '' @ err"
| "show_api_error d (ApiTool msg) = ''Tool error: '' @ msg"
| "show_api_error d (ApiConfig msg) = ''Configuration error: '' @ msg"
| "show_api_error d ApiInterrupted = ''Interrupted''"
| "show_api_error d (ApiOther msg) = ''Other: '' @ msg"

subsection \<open>Retry-After\<close>

text \<open>The parser of HTTP dates, absent where the feature that brings it is off, and the calendar's clock.\<close>

record calendar =
  cal_parse :: "string \<Rightarrow> nat option"
  cal_now :: nat

definition parse_retry_after :: "calendar \<Rightarrow> string \<Rightarrow> duration option" where
  "parse_retry_after cal v =
     (let trimmed = trim v
      in if trimmed = [] then None
         else
           (case parse_unsigned 64 trimmed of
              Some secs \<Rightarrow> Some (secs * 10 ^ 9)
            | None \<Rightarrow>
                (case cal_parse cal trimmed of
                   Some target \<Rightarrow> Some (if target \<le> cal_now cal then 0 else target - cal_now cal)
                 | None \<Rightarrow> None)))"

subsection \<open>What the classification promises\<close>

text \<open>Metadata is carried for diagnosis only: no predicate and no code depends on it.\<close>

lemma meta_unseen:
  "code (with_provider_meta m e) = code e" "is_retryable (with_provider_meta m e) = is_retryable e"
  "is_rate_limited (with_provider_meta m e) = is_rate_limited e"
  "is_context_overflow (with_provider_meta m e) = is_context_overflow e"
  "wire_message (with_provider_meta m e) = wire_message e"
  by (cases e; simp add: with_provider_meta_def Let_def is_retryable_def)+

lemma meta_read_back:
  "wire_message e \<noteq> None \<Longrightarrow> provider_meta_of (with_provider_meta m e) = (if meta_is_empty m then new_meta else m)"
  by (cases e) (simp_all add: with_provider_meta_def provider_meta_of_def Let_def)

lemma overload_retryable: "http_status_is_overload msg \<Longrightarrow> http_status_is_retryable msg"
  by (cases "http_status_from_message msg")
    (auto simp add: http_status_is_overload_def http_status_is_retryable_def)

text \<open>An error that reports a rate limit is always worth a retry.\<close>

lemma rate_limited_is_retryable: "is_rate_limited e \<Longrightarrow> is_retryable e"
  by (cases e) (auto simp: is_retryable_def retryable_codes_def Let_def overload_retryable)

text \<open>Decimal digits read back.\<close>

lemma digit_char_value: "d < 10 \<Longrightarrow> (of_char (digit_char d) :: nat) = 48 + d"
  by (simp add: digit_char_def)

lemma digits_value_snoc: "digits_value (ds @ [c]) = digits_value ds * 10 + (of_char c - 48)"
  by (simp add: digits_value_def)

lemma digits_value_show: "digits_value (show_nat n) = n"
proof (induction n rule: show_nat.induct)
  case (1 n)
  show ?case
  proof (cases "n < 10")
    case True
    then show ?thesis by (subst show_nat.simps) (simp add: digits_value_def digit_char_value)
  next
    case False
    then show ?thesis
      using 1 by (subst show_nat.simps) (simp add: digits_value_snoc digit_char_value)
  qed
qed

lemma is_ascii_digit_char: "d < 10 \<Longrightarrow> is_ascii_digit (digit_char d)"
  by (simp add: is_ascii_digit_def digit_char_value)

lemma show_nat_digits: "list_all is_ascii_digit (show_nat n) \<and> show_nat n \<noteq> []"
proof (induction n rule: show_nat.induct)
  case (1 n)
  show ?case
  proof (cases "n < 10")
    case True
    then show ?thesis by (subst (1 2) show_nat.simps) (simp add: is_ascii_digit_char)
  next
    case False
    then show ?thesis using 1 by (subst (1 2) show_nat.simps) (simp add: is_ascii_digit_char)
  qed
qed

lemma digits_no_sign: "list_all is_ascii_digit ds \<Longrightarrow> CHR ''+'' \<notin> set ds \<and> CHR '':'' \<notin> set ds"
  by (auto simp: list_all_iff is_ascii_digit_def)

lemma parse_unsigned_show:
  assumes "n < 2 ^ width"
  shows "parse_unsigned width (show_nat n) = Some n"
proof -
  have digits: "list_all is_ascii_digit (show_nat n)" "show_nat n \<noteq> []" using show_nat_digits by blast+
  then obtain c cs where "show_nat n = c # cs" by (cases "show_nat n") auto
  moreover have "CHR ''+'' \<notin> set (show_nat n)" using digits_no_sign digits(1) by blast
  ultimately have "(case show_nat n of c # cs \<Rightarrow> if c = CHR ''+'' then cs else show_nat n | [] \<Rightarrow> []) = show_nat n"
    by auto
  then show ?thesis using assms digits by (simp add: parse_unsigned_def digits_value_show Let_def)
qed

lemma status_read_back: "http_status_from_message (''HTTP '' @ show_nat (unat (status :: 16 word)) @ '': '' @ msg) = Some (unat status)"
proof -
  let ?ds = "show_nat (unat status)"
  have ds: "\<forall>c \<in> set ?ds. c \<noteq> CHR '':''" using show_nat_digits [of "unat status"] digits_no_sign by metis
  have "takeWhile (\<lambda>c. c \<noteq> CHR '':'') (?ds @ CHR '':'' # rest) = ?ds" for rest
    using ds by (simp add: takeWhile_append2)
  moreover have "parse_unsigned 16 ?ds = Some (unat status)"
    using unat_less_pow [of status] by (intro parse_unsigned_show) simp
  ultimately show ?thesis by (simp add: http_status_from_message_def)
qed

text \<open>
  A status written into an error is the status read from it, whatever the message and whatever
  metadata is attached, and it decides the code and the retry.
\<close>

theorem http_status_round_trip:
  "http_status (with_provider_meta m (http_with_status status msg)) = Some (unat status) \<and>
   (is_retryable (with_provider_meta m (http_with_status status msg)) =
      (unat status \<ge> 500 \<or> unat status = 408 \<or> unat status = 429)) \<and>
   code (with_provider_meta m (http_with_status status msg)) =
      (if unat status \<ge> 500 then CodeHttpResponseError else CodeHttpRequestError)"
  using status_read_back [of status msg]
  by (simp add: http_status_def is_retryable_def http_status_is_retryable_def http_with_status_def
      with_provider_meta_def Let_def)

text \<open>A captured header value starts the trimmed one.\<close>

lemma bounded_prefix:
  assumes "bounded_header_value v n = Some s"
  shows "prefix s (trim v)"
proof -
  have s: "s = concat (take n (utf8_chars (trim v)))"
    using assms by (simp add: bounded_header_value_def Let_def split: if_splits)
  have "concat (utf8_chars (trim v)) = s @ concat (drop n (utf8_chars (trim v)))"
    unfolding s by (simp only: concat_append [symmetric] append_take_drop_id)
  then show ?thesis unfolding concat_utf8_chars by (rule prefixI)
qed

end
