(* ===== verification/Stream_Config.thy ===== *)
theory Stream_Config
  imports Stream Api_Error Numeric
begin

section \<open>Configuration of the stream handler, failures and backoff\<close>

text \<open>
  src/src/stream/handler.rs, first part: the three configurations with their validation and repair, the
  detection of rate limits in provider errors, the outcomes and errors of a turn, and the delays. A
  float is a rational, an infinity or NaN, and \<open>rnd\<close> rounds each float operation.
\<close>

subsection \<open>Timeouts\<close>

record stream_timeout_config =
  st_initial_event_timeout :: duration
  st_per_event_timeout :: duration
  st_total_stream_timeout :: duration
  st_max_consecutive_timeouts :: u32
  st_fallback_to_non_streaming :: bool

definition default_timeout_config :: stream_timeout_config where
  "default_timeout_config =
     \<lparr>st_initial_event_timeout = 120 * 10 ^ 9, st_per_event_timeout = 180 * 10 ^ 9,
      st_total_stream_timeout = 300 * 10 ^ 9, st_max_consecutive_timeouts = 10, st_fallback_to_non_streaming = True\<rparr>"

text \<open>Why a configuration is refused; the texts of the code, with the values it prints.\<close>

datatype timeout_config_error =
    InitialZero | PerEventZero | TotalZero | TotalInfinite | TotalBelowInitial duration duration | NoConsecutiveTimeouts

definition validate_timeouts :: "stream_timeout_config \<Rightarrow> timeout_config_error + unit" where
  "validate_timeouts c =
     (if st_initial_event_timeout c = 0 then Inl InitialZero
      else if st_per_event_timeout c = 0 then Inl PerEventZero
      else if st_total_stream_timeout c = 0 then Inl TotalZero
      else if st_total_stream_timeout c = duration_max then Inl TotalInfinite
      else if st_total_stream_timeout c < st_initial_event_timeout c
      then Inl (TotalBelowInitial (st_total_stream_timeout c) (st_initial_event_timeout c))
      else if st_max_consecutive_timeouts c = 0 then Inl NoConsecutiveTimeouts
      else Inr ())"

definition finite_timeout :: "duration \<Rightarrow> bool" where
  "finite_timeout d \<longleftrightarrow> d \<noteq> 0 \<and> d \<noteq> duration_max"

definition sanitized_timeout_config :: "stream_timeout_config \<Rightarrow> stream_timeout_config" where
  "sanitized_timeout_config timeout =
     (let default = default_timeout_config;
          s1 = (if finite_timeout (st_initial_event_timeout timeout) then timeout
                else timeout\<lparr>st_initial_event_timeout := st_initial_event_timeout default\<rparr>);
          s2 = (if finite_timeout (st_per_event_timeout s1) then s1
                else s1\<lparr>st_per_event_timeout := st_per_event_timeout default\<rparr>);
          s3 = (if finite_timeout (st_total_stream_timeout s2) then s2
                else s2\<lparr>st_total_stream_timeout := st_total_stream_timeout default\<rparr>);
          s4 = (if st_total_stream_timeout s3 < st_initial_event_timeout s3
                then s3\<lparr>st_total_stream_timeout := st_initial_event_timeout s3\<rparr> else s3)
      in if st_max_consecutive_timeouts s4 = 0
         then s4\<lparr>st_max_consecutive_timeouts := st_max_consecutive_timeouts default\<rparr> else s4)"

subsection \<open>Transport retries\<close>

record stream_retry_config =
  sr_max_retries :: u32
  sr_base_delay_ms :: u64
  sr_max_delay_ms :: u64
  sr_jitter_factor :: float64

text \<open>The default jitter is the float nearest to 0.1.\<close>

definition default_retry_config :: stream_retry_config where
  "default_retry_config =
     \<lparr>sr_max_retries = 3, sr_base_delay_ms = 100, sr_max_delay_ms = 10000,
      sr_jitter_factor = Finite (3602879701896397 / 36028797018963968)\<rparr>"

definition power_factor :: "u32 \<Rightarrow> u64" where
  "power_factor attempt = (if unat attempt < 64 then 2 ^ unat attempt else - 1)"

definition base_delay :: "stream_retry_config \<Rightarrow> u32 \<Rightarrow> duration" where
  "base_delay c attempt =
     unat (min (sat_mul (sr_base_delay_ms c) (power_factor attempt)) (sr_max_delay_ms c)) * 10 ^ 6"

definition signed_fraction :: "(rat \<Rightarrow> rat) \<Rightarrow> rat \<Rightarrow> rat" where
  "signed_fraction rnd draw = rnd (rnd (draw - 1 / 2) * 2)"

text \<open>
  The delay with jitter, for a draw of the generator; \<open>None\<close> is the panic of the scaling. A factor that
  is not finite makes the product infinite or NaN, whatever is drawn.
\<close>

definition jittered_base_delay_with :: "(rat \<Rightarrow> rat) \<Rightarrow> stream_retry_config \<Rightarrow> u32 \<Rightarrow> rat \<Rightarrow> duration option" where
  "jittered_base_delay_with rnd c attempt draw =
     (let base = base_delay c attempt
      in case sr_jitter_factor c of
           Finite j \<Rightarrow>
             if j = 0 then Some base
             else mul_f64 rnd base (Finite (rnd (1 + rnd (signed_fraction rnd draw * j))))
         | _ \<Rightarrow> None)"

datatype retry_config_error =
    BaseDelayZero | MaxDelayZero | MaxBelowBase u64 u64 | JitterNotFinite float64 | JitterOutOfRange float64

definition validate_retry :: "stream_retry_config \<Rightarrow> retry_config_error + unit" where
  "validate_retry c =
     (if sr_base_delay_ms c = 0 then Inl BaseDelayZero
      else if sr_max_delay_ms c = 0 then Inl MaxDelayZero
      else if sr_max_delay_ms c < sr_base_delay_ms c then Inl (MaxBelowBase (sr_max_delay_ms c) (sr_base_delay_ms c))
      else
        (case sr_jitter_factor c of
           Finite j \<Rightarrow> if 0 \<le> j \<and> j \<le> 1 then Inr () else Inl (JitterOutOfRange (Finite j))
         | j \<Rightarrow> Inl (JitterNotFinite j)))"

subsection \<open>Rate limits\<close>

record rate_limit_config =
  rl_respect_retry_after :: bool
  rl_default_delay :: duration
  rl_max_delay :: duration
  rl_advised_per_minute :: u32
  rl_fallback_after_retries :: u32
  rl_max_retries :: u32

definition default_rate_limit_config :: rate_limit_config where
  "default_rate_limit_config =
     \<lparr>rl_respect_retry_after = True, rl_default_delay = 5 * 10 ^ 9, rl_max_delay = 60 * 10 ^ 9,
      rl_advised_per_minute = 0, rl_fallback_after_retries = 3, rl_max_retries = 5\<rparr>"

datatype rate_limit_config_error = DefaultDelayZero | MaxDelayBelowDefault | NoRetries | FallbackAboveMax u32 u32

definition validate_rate_limit :: "rate_limit_config \<Rightarrow> rate_limit_config_error + unit" where
  "validate_rate_limit c =
     (if rl_default_delay c = 0 then Inl DefaultDelayZero
      else if rl_max_delay c < rl_default_delay c then Inl MaxDelayBelowDefault
      else if rl_max_retries c = 0 then Inl NoRetries
      else if rl_fallback_after_retries c > rl_max_retries c
      then Inl (FallbackAboveMax (rl_fallback_after_retries c) (rl_max_retries c))
      else Inr ())"

definition backoff :: "rate_limit_config \<Rightarrow> duration option \<Rightarrow> duration" where
  "backoff c server_hint =
     (case server_hint of
        Some d \<Rightarrow> if rl_respect_retry_after c then min d (rl_max_delay c) else min (rl_default_delay c) (rl_max_delay c)
      | None \<Rightarrow> min (rl_default_delay c) (rl_max_delay c))"

datatype rate_limit_kind = RateLimited | Overloaded

record detected_rate_limit =
  dl_kind :: rate_limit_kind
  dl_retry_after :: "duration option"
  dl_message :: string

definition detect :: "calendar \<Rightarrow> api_error \<Rightarrow> detected_rate_limit option" where
  "detect cal err =
     (case err of
        ApiRateLimit retry_after message _ \<Rightarrow>
          Some \<lparr>dl_kind = (case http_status_from_message message of
                             Some status \<Rightarrow> if status = 503 \<or> status = 529 then Overloaded else RateLimited
                           | None \<Rightarrow> RateLimited),
                dl_retry_after = retry_after, dl_message = message\<rparr>
      | ApiFailure msg _ \<Rightarrow>
          (let lower = lowercase msg
           in if sublist ''rate limit'' lower \<or> sublist ''429'' lower
              then Some \<lparr>dl_kind = RateLimited, dl_retry_after = parse_retry_after cal msg, dl_message = msg\<rparr>
              else None)
      | ApiHttp msg _ \<Rightarrow>
          (case http_status_from_message msg of
             Some status \<Rightarrow>
               if status = 429
               then Some \<lparr>dl_kind = RateLimited, dl_retry_after = parse_retry_after cal msg, dl_message = msg\<rparr>
               else if status = 503 \<or> status = 529
               then Some \<lparr>dl_kind = Overloaded, dl_retry_after = parse_retry_after cal msg, dl_message = msg\<rparr>
               else None
           | None \<Rightarrow> None)
      | _ \<Rightarrow> None)"

subsection \<open>Outcomes and errors of a turn\<close>

datatype stream_outcome =
    Completed u64 duration
  | TotalTimeout bool u64 duration
  | EventTimeout bool u32
  | OutcomeRateLimited detected_rate_limit bool u64
  | OutcomeInitFailed string u32
  | FallbackToNonStreaming
  | OutcomeCancelled

datatype stream_handler_error =
    HandlerInitFailed stream_outcome
  | HandlerStreamFailed stream_outcome
  | FallbackFailed stream_outcome string
  | HandlerCancelled
  | HandlerPoisoned string
  | HandlerRateLimitEscalation u32 "duration option"

text \<open>How durations are printed: as seconds with one decimal, for debugging, and an optional one for debugging.\<close>

record duration_format =
  df_seconds :: "duration \<Rightarrow> string"
  df_debug :: "duration \<Rightarrow> string"
  df_option :: "duration option \<Rightarrow> string"

definition partial_suffix :: "bool \<Rightarrow> string" where
  "partial_suffix has_partial_data = (if has_partial_data then '' (partial data)'' else [])"

fun show_outcome :: "duration_format \<Rightarrow> stream_outcome \<Rightarrow> string" where
  "show_outcome f (Completed events duration) =
     ''stream completed ('' @ show_nat (unat events) @ '' events in '' @ df_seconds f duration @ ''s)''"
| "show_outcome f (TotalTimeout partial events duration) =
     ''total timeout after '' @ df_seconds f duration @ ''s, '' @ show_nat (unat events) @ '' events'' @
       partial_suffix partial"
| "show_outcome f (EventTimeout partial timeouts) =
     ''event timeout after '' @ show_nat (unat timeouts) @ '' consecutive timeouts'' @ partial_suffix partial"
| "show_outcome f (OutcomeRateLimited detail partial events) =
     (case dl_kind detail of RateLimited \<Rightarrow> ''rate limit'' | Overloaded \<Rightarrow> ''overloaded'') @
       (case dl_retry_after detail of Some d \<Rightarrow> '' (retry after '' @ df_debug f d @ '')'' | None \<Rightarrow> []) @
       partial_suffix partial @ '', '' @ show_nat (unat events) @ '' events processed''"
| "show_outcome f (OutcomeInitFailed last_error attempts) =
     ''stream failed before completing after '' @ show_nat (unat attempts) @ '' attempts: '' @ last_error"
| "show_outcome f FallbackToNonStreaming = ''fell back to non-streaming request''"
| "show_outcome f OutcomeCancelled = ''cancelled''"

fun show_handler_error :: "duration_format \<Rightarrow> stream_handler_error \<Rightarrow> string" where
  "show_handler_error f (HandlerInitFailed outcome) = ''stream failed before completing: '' @ show_outcome f outcome"
| "show_handler_error f (HandlerStreamFailed outcome) = ''stream failed: '' @ show_outcome f outcome"
| "show_handler_error f (FallbackFailed outcome fallback_error) =
     ''stream failed ('' @ show_outcome f outcome @ '') and fallback also failed: '' @ fallback_error"
| "show_handler_error f HandlerCancelled = ''cancelled''"
| "show_handler_error f (HandlerPoisoned what) = ''lock poisoned: '' @ what"
| "show_handler_error f (HandlerRateLimitEscalation attempts retry_after) =
     ''rate-limit escalation after '' @ show_nat (unat attempts) @ '' retries (retry-after '' @
       df_option f retry_after @ '')''"

fun carried_outcome :: "stream_handler_error \<Rightarrow> stream_outcome option" where
  "carried_outcome (HandlerInitFailed outcome) = Some outcome"
| "carried_outcome (HandlerStreamFailed outcome) = Some outcome"
| "carried_outcome _ = None"

record stream_failure =
  sf_error :: stream_handler_error
  sf_retryable :: bool

definition transient :: "stream_handler_error \<Rightarrow> stream_failure" where
  "transient e = \<lparr>sf_error = e, sf_retryable = True\<rparr>"

subsection \<open>The handler and its decisions\<close>

record stream_handler =
  sh_timeout :: stream_timeout_config
  sh_retry :: stream_retry_config
  sh_rate_limit :: rate_limit_config
  sh_limited :: bool
  sh_rate_limit_max_wait :: duration

definition passthrough :: stream_handler where
  "passthrough =
     \<lparr>sh_timeout = \<lparr>st_initial_event_timeout = duration_max, st_per_event_timeout = duration_max,
        st_total_stream_timeout = duration_max, st_max_consecutive_timeouts = 1,
        st_fallback_to_non_streaming = False\<rparr>,
      sh_retry = default_retry_config\<lparr>sr_max_retries := 0\<rparr>,
      sh_rate_limit = default_rate_limit_config\<lparr>rl_max_retries := 0, rl_fallback_after_retries := 0\<rparr>,
      sh_limited = False, sh_rate_limit_max_wait = 30 * 10 ^ 9\<rparr>"

definition new_handler :: stream_handler where
  "new_handler =
     \<lparr>sh_timeout = default_timeout_config, sh_retry = default_retry_config,
      sh_rate_limit = default_rate_limit_config, sh_limited = False, sh_rate_limit_max_wait = 30 * 10 ^ 9\<rparr>"

definition with_timeout_config :: "stream_timeout_config \<Rightarrow> stream_handler \<Rightarrow> stream_handler" where
  "with_timeout_config timeout h = h\<lparr>sh_timeout := sanitized_timeout_config timeout\<rparr>"

definition with_retry_config :: "stream_retry_config \<Rightarrow> stream_handler \<Rightarrow> stream_handler" where
  "with_retry_config retry h = (case validate_retry retry of Inl _ \<Rightarrow> h | Inr _ \<Rightarrow> h\<lparr>sh_retry := retry\<rparr>)"

definition with_rate_limit_config :: "rate_limit_config \<Rightarrow> stream_handler \<Rightarrow> stream_handler" where
  "with_rate_limit_config rl h = (case validate_rate_limit rl of Inl _ \<Rightarrow> h | Inr _ \<Rightarrow> h\<lparr>sh_rate_limit := rl\<rparr>)"

definition with_rate_limiter :: "stream_handler \<Rightarrow> stream_handler" where
  "with_rate_limiter h = h\<lparr>sh_limited := True\<rparr>"

definition with_rate_limit_max_wait :: "duration \<Rightarrow> stream_handler \<Rightarrow> stream_handler" where
  "with_rate_limit_max_wait max_wait h = h\<lparr>sh_rate_limit_max_wait := max_wait\<rparr>"

datatype rate_limit_answer = Escalate u32 "duration option" | HardStop | RlRetry duration

datatype error_action = FailWith stream_handler_error | TryFallback "stream_outcome option" | RetryAfter duration

text \<open>The retries spent in a turn, on rate limits and on the transport.\<close>

record retry_counts =
  rc_rate_limit :: u32
  rc_transport :: u32

definition clamp_delay_to_deadline :: "instant \<Rightarrow> duration \<Rightarrow> instant option \<Rightarrow> duration" where
  "clamp_delay_to_deadline now delay deadline =
     (case deadline of
        None \<Rightarrow> delay
      | Some dl \<Rightarrow> if dl < now then 0 else min delay (dl - now))"

definition rate_limit_retry ::
  "stream_handler \<Rightarrow> instant \<Rightarrow> detected_rate_limit \<Rightarrow> u32 \<Rightarrow> instant option \<Rightarrow> rate_limit_answer \<times> u32" where
  "rate_limit_retry h now detail cnt deadline =
     (let n = sat_add cnt 1
      in (if n > rl_max_retries (sh_rate_limit h) then HardStop
          else if n > rl_fallback_after_retries (sh_rate_limit h) then Escalate n (dl_retry_after detail)
          else RlRetry (clamp_delay_to_deadline now (backoff (sh_rate_limit h) (dl_retry_after detail)) deadline), n))"

definition decide_rate_limit_error ::
  "stream_handler \<Rightarrow> instant \<Rightarrow> stream_handler_error \<Rightarrow> detected_rate_limit \<Rightarrow> u32 \<Rightarrow> instant option \<Rightarrow>
   stream_outcome option \<Rightarrow> error_action \<times> u32" where
  "decide_rate_limit_error h now err detail cnt deadline last_outcome =
     (let (answer, n) = rate_limit_retry h now detail cnt deadline
      in (case answer of
            Escalate attempts retry_after \<Rightarrow> FailWith (HandlerRateLimitEscalation attempts retry_after)
          | HardStop \<Rightarrow>
              if st_fallback_to_non_streaming (sh_timeout h) then TryFallback last_outcome else FailWith err
          | RlRetry delay \<Rightarrow> RetryAfter delay, n))"

definition is_total_timeout :: "stream_outcome option \<Rightarrow> bool" where
  "is_total_timeout outcome \<longleftrightarrow> (case outcome of Some (TotalTimeout _ _ _) \<Rightarrow> True | _ \<Rightarrow> False)"

text \<open>
  A failure of the transport. The draw is what the generator answers when a delay is computed. The
  result is \<open>None\<close> where computing the delay panics.
\<close>

definition decide_transport_error ::
  "(rat \<Rightarrow> rat) \<Rightarrow> stream_handler \<Rightarrow> instant \<Rightarrow> rat \<Rightarrow> stream_handler_error \<Rightarrow> bool \<Rightarrow> u32 \<Rightarrow> u32 \<Rightarrow>
   stream_outcome option \<Rightarrow> instant option \<Rightarrow> (error_action \<times> u32) option" where
  "decide_transport_error rnd h now draw err retryable attempts max_attempts last_outcome deadline =
     (let last_chance = (if st_fallback_to_non_streaming (sh_timeout h) then TryFallback last_outcome else FailWith err)
      in if \<not> retryable then Some (FailWith err, attempts)
         else if is_total_timeout last_outcome then Some (last_chance, attempts)
         else if attempts \<ge> sat_sub max_attempts 1 then Some (last_chance, attempts)
         else
           (case jittered_base_delay_with rnd (sh_retry h) attempts draw of
              None \<Rightarrow> None
            | Some delay \<Rightarrow> Some (RetryAfter (clamp_delay_to_deadline now delay deadline), sat_add attempts 1)))"

definition decide_failure_action ::
  "(rat \<Rightarrow> rat) \<Rightarrow> stream_handler \<Rightarrow> instant \<Rightarrow> rat \<Rightarrow> stream_failure \<Rightarrow> retry_counts \<Rightarrow> instant option \<Rightarrow>
   (error_action \<times> retry_counts) option" where
  "decide_failure_action rnd h now draw failure counts deadline =
     (let last_outcome = carried_outcome (sf_error failure);
          max_attempts = sat_add (sr_max_retries (sh_retry h)) 1
      in case last_outcome of
           Some (OutcomeRateLimited detail _ _) \<Rightarrow>
             (let (action, n) = decide_rate_limit_error h now (sf_error failure) detail (rc_rate_limit counts) deadline
                                  last_outcome
              in Some (action, counts\<lparr>rc_rate_limit := n\<rparr>))
         | _ \<Rightarrow>
             (case decide_transport_error rnd h now draw (sf_error failure) (sf_retryable failure)
                     (rc_transport counts) max_attempts last_outcome deadline of
                None \<Rightarrow> None
              | Some (action, n) \<Rightarrow> Some (action, counts\<lparr>rc_transport := n\<rparr>)))"

subsection \<open>What the configuration promises\<close>

lemma default_timeouts_finite:
  "finite_timeout (st_initial_event_timeout default_timeout_config)"
  "finite_timeout (st_per_event_timeout default_timeout_config)"
  "finite_timeout (st_total_stream_timeout default_timeout_config)"
  by (simp_all add: finite_timeout_def default_timeout_config_def duration_max_def)

lemma sanitized_fields:
  "st_initial_event_timeout (sanitized_timeout_config c) =
     (if finite_timeout (st_initial_event_timeout c) then st_initial_event_timeout c
      else st_initial_event_timeout default_timeout_config)"
  "st_per_event_timeout (sanitized_timeout_config c) =
     (if finite_timeout (st_per_event_timeout c) then st_per_event_timeout c
      else st_per_event_timeout default_timeout_config)"
  "st_total_stream_timeout (sanitized_timeout_config c) =
     max (st_initial_event_timeout (sanitized_timeout_config c))
       (if finite_timeout (st_total_stream_timeout c) then st_total_stream_timeout c
        else st_total_stream_timeout default_timeout_config)"
  "st_max_consecutive_timeouts (sanitized_timeout_config c) =
     (if st_max_consecutive_timeouts c = 0 then st_max_consecutive_timeouts default_timeout_config
      else st_max_consecutive_timeouts c)"
  "st_fallback_to_non_streaming (sanitized_timeout_config c) = st_fallback_to_non_streaming c"
  by (simp_all add: sanitized_timeout_config_def Let_def max_def)

lemma valid_timeouts:
  "validate_timeouts c = Inr () \<longleftrightarrow>
     st_initial_event_timeout c \<noteq> 0 \<and> st_per_event_timeout c \<noteq> 0 \<and> finite_timeout (st_total_stream_timeout c) \<and>
     st_initial_event_timeout c \<le> st_total_stream_timeout c \<and> st_max_consecutive_timeouts c \<noteq> 0"
  by (auto simp: validate_timeouts_def finite_timeout_def)

lemma sanitized_valid_iff:
  "validate_timeouts (sanitized_timeout_config c) = Inr () \<and>
   finite_timeout (st_initial_event_timeout (sanitized_timeout_config c)) \<and>
   finite_timeout (st_per_event_timeout (sanitized_timeout_config c)) \<and>
   (sanitized_timeout_config c = c) =
     (validate_timeouts c = Inr () \<and> finite_timeout (st_initial_event_timeout c) \<and>
      finite_timeout (st_per_event_timeout c))"
proof -
  note fields = sanitized_fields [of c] and finite = default_timeouts_finite
  have init: "finite_timeout (st_initial_event_timeout (sanitized_timeout_config c))"
    using finite(1) by (simp add: fields(1))
  have per: "finite_timeout (st_per_event_timeout (sanitized_timeout_config c))"
    using finite(2) by (simp add: fields(2))
  have total: "finite_timeout (st_total_stream_timeout (sanitized_timeout_config c))"
    using init finite(3) by (simp add: fields(3) max_def)
  have timeouts: "st_max_consecutive_timeouts (sanitized_timeout_config c) \<noteq> 0"
    by (simp add: fields(4) default_timeout_config_def)
  have valid: "validate_timeouts (sanitized_timeout_config c) = Inr ()"
    using init per total timeouts by (simp add: valid_timeouts finite_timeout_def fields(3))
  have "sanitized_timeout_config c = c"
    if "validate_timeouts c = Inr ()" "finite_timeout (st_initial_event_timeout c)" "finite_timeout (st_per_event_timeout c)"
    using that by (simp add: valid_timeouts stream_timeout_config.equality fields max_def)
  moreover have "validate_timeouts c = Inr () \<and> finite_timeout (st_initial_event_timeout c) \<and>
      finite_timeout (st_per_event_timeout c)" if "sanitized_timeout_config c = c"
    using valid init per unfolding that by blast
  ultimately show ?thesis using valid init per by blast
qed

text \<open>
  The repair of a timeout configuration ends in a valid one, whose event timeouts are finite too,
  and it changes nothing exactly when there is nothing to repair. (A configuration that only has an
  infinite event timeout passes the validation, but is repaired.)
\<close>

theorem sanitized_is_valid:
  "validate_timeouts (sanitized_timeout_config c) = Inr () \<and>
   finite_timeout (st_initial_event_timeout (sanitized_timeout_config c)) \<and>
   finite_timeout (st_per_event_timeout (sanitized_timeout_config c)) \<and>
   (sanitized_timeout_config c = c) =
     (validate_timeouts c = Inr () \<and> finite_timeout (st_initial_event_timeout c) \<and>
      finite_timeout (st_per_event_timeout c))"
  by (rule sanitized_valid_iff)

text \<open>The builders keep a handler valid; the pass-through handler is not built by them.\<close>

definition handler_ok :: "stream_handler \<Rightarrow> bool" where
  "handler_ok h \<longleftrightarrow> validate_timeouts (sh_timeout h) = Inr () \<and> validate_retry (sh_retry h) = Inr () \<and>
     validate_rate_limit (sh_rate_limit h) = Inr ()"

lemma new_handler_ok: "handler_ok new_handler"
  by (simp add: handler_ok_def new_handler_def validate_timeouts_def validate_retry_def validate_rate_limit_def
      default_timeout_config_def default_retry_config_def default_rate_limit_config_def duration_max_def)

lemma builders_ok:
  assumes "handler_ok h"
  shows "handler_ok (with_timeout_config timeout h)" "handler_ok (with_retry_config retry h)"
    "handler_ok (with_rate_limit_config rl h)" "handler_ok (with_rate_limiter h)"
    "handler_ok (with_rate_limit_max_wait w h)"
  using assms sanitized_valid_iff [of timeout]
  by (auto simp: handler_ok_def with_timeout_config_def with_retry_config_def with_rate_limit_config_def
      with_rate_limiter_def with_rate_limit_max_wait_def split: sum.split)

lemma unat_power_factor: "unat (power_factor attempt) = (if unat attempt < 64 then 2 ^ unat attempt else 2 ^ 64 - 1)"
proof -
  have "unat (2 ^ n :: u64) = 2 ^ n" if "n < 64" for n
  proof -
    have "(2 :: nat) ^ n < 2 ^ 64" using that by (intro power_strict_increasing) simp_all
    then have "unat (of_nat (2 ^ n) :: u64) = 2 ^ n" by (simp only: unat_of_nat) simp
    then show ?thesis by simp
  qed
  then show ?thesis by (simp add: power_factor_def)
qed

text \<open>
  The delay before a retry of the transport is the base doubled for each retry spent, cut at the
  maximum, in milliseconds: the saturating product and the shift of the code never show.
\<close>

theorem base_delay_doubles:
  "base_delay c attempt = min (unat (sr_base_delay_ms c) * 2 ^ unat attempt) (unat (sr_max_delay_ms c)) * 10 ^ 6"
proof -
  let ?b = "unat (sr_base_delay_ms c)" and ?m = "unat (sr_max_delay_ms c)" and ?n = "unat attempt"
  have m: "?m \<le> 2 ^ 64 - 1" using unat_less_pow [of "sr_max_delay_ms c"] by simp
  have "unat (min (sat_mul (sr_base_delay_ms c) (power_factor attempt)) (sr_max_delay_ms c)) =
      min (min (?b * unat (power_factor attempt)) (2 ^ 64 - 1)) ?m"
    by (simp add: min_def word_le_nat_alt unat_sat_mul)
  also have "\<dots> = min (?b * unat (power_factor attempt)) ?m" using m by simp
  also have "\<dots> = min (?b * 2 ^ ?n) ?m"
  proof (cases "?n < 64 \<or> ?b = 0")
    case False
    then have "(2 :: nat) ^ 64 \<le> 2 ^ ?n" by (intro power_increasing) simp_all
    moreover have "2 ^ 64 - 1 \<le> ?b * (2 ^ 64 - 1)" "2 ^ ?n \<le> ?b * 2 ^ ?n" using False by simp_all
    ultimately have "?m \<le> ?b * 2 ^ ?n" "?m \<le> ?b * (2 ^ 64 - 1)" using m by linarith+
    then show ?thesis using False by (simp add: unat_power_factor)
  qed (auto simp: unat_power_factor)
  finally show ?thesis by (simp add: base_delay_def)
qed

text \<open>The jitter without the rounding of floats: a delay near the base, and never a panic.\<close>

lemma mul_f64_near:
  assumes "0 \<le> x" and "x \<le> 2" and "base \<le> 2 ^ 64 * 10 ^ 6"
  shows "\<exists>d. mul_f64 id base (Finite x) = Some d \<and> \<bar>of_nat d - x * of_nat base\<bar> \<le> (1 / 2 :: rat)"
proof -
  let ?s = "x * (of_nat base / 10 ^ 9) :: rat"
  have s: "0 \<le> ?s" "?s * 10 ^ 9 = x * of_nat base" using assms(1) by simp_all
  have near: "\<bar>of_nat (from_secs_f64 ?s) - x * of_nat base\<bar> \<le> 1 / 2"
    using from_secs_near [OF s(1)] unfolding s(2) .
  have "x * of_nat base \<le> 2 * of_nat base" using assms(2) by (intro mult_right_mono) simp_all
  also have "\<dots> = of_nat (2 * base)" by simp
  finally have "from_secs_f64 ?s \<le> 2 * base" by (intro from_secs_nat_mono s(1)) (simp only: s(2))
  then have "from_secs_f64 ?s \<le> duration_max" using assms(3) by (simp add: duration_max_def)
  then have "mul_f64 id base (Finite x) = Some (from_secs_f64 ?s)"
    using s(1) by (simp add: mul_f64_def as_secs_exact Let_def)
  with near show ?thesis by blast
qed

lemma base_delay_bound: "base_delay c attempt \<le> 2 ^ 64 * 10 ^ 6"
proof -
  have "unat (min (sat_mul (sr_base_delay_ms c) (power_factor attempt)) (sr_max_delay_ms c)) \<le> 2 ^ 64"
    using unat_less_pow [of "min (sat_mul (sr_base_delay_ms c) (power_factor attempt)) (sr_max_delay_ms c)"] by simp
  then show ?thesis unfolding base_delay_def by (rule mult_le_mono1)
qed

lemma valid_jitter: "validate_retry c = Inr () \<Longrightarrow> \<exists>j. sr_jitter_factor c = Finite j \<and> 0 \<le> j \<and> j \<le> 1"
  by (auto simp: validate_retry_def split: if_splits float64.splits)

lemma jittered_near:
  assumes "sr_jitter_factor c = Finite j" and "0 \<le> j" and "j \<le> 1" and "0 \<le> draw" and "draw < 1"
  shows "\<exists>d. jittered_base_delay_with id c attempt draw = Some d \<and>
    \<bar>of_nat d - of_nat (base_delay c attempt)\<bar> \<le> j * of_nat (base_delay c attempt) + (1 / 2 :: rat)"
proof (cases "j = 0")
  case True
  with assms(1) show ?thesis by (simp add: jittered_base_delay_with_def)
next
  case False
  let ?b = "base_delay c attempt" and ?f = "(draw - 1 / 2) * 2 * j"
  have f: "\<bar>?f\<bar> \<le> j"
  proof -
    have "\<bar>(draw - 1 / 2) * 2\<bar> \<le> 1" using assms(4,5) by (simp add: abs_le_iff)
    then have "\<bar>(draw - 1 / 2) * 2\<bar> * j \<le> 1 * j" using assms(2) by (rule mult_right_mono)
    then show ?thesis using assms(2) by (simp add: abs_mult)
  qed
  then have "0 \<le> 1 + ?f" "1 + ?f \<le> 2" using assms(3) by linarith+
  from mul_f64_near [OF this base_delay_bound] obtain d where d: "mul_f64 id ?b (Finite (1 + ?f)) = Some d"
      "\<bar>of_nat d - (1 + ?f) * of_nat ?b\<bar> \<le> (1 / 2 :: rat)" by blast
  have "\<bar>?f * of_nat ?b\<bar> \<le> j * of_nat ?b" using mult_right_mono [OF f, of "of_nat ?b"] by (simp add: abs_mult)
  moreover have "(1 + ?f) * of_nat ?b = of_nat ?b + ?f * of_nat ?b" by (simp add: algebra_simps)
  ultimately have "\<bar>of_nat d - of_nat ?b\<bar> \<le> j * of_nat ?b + (1 / 2 :: rat)" using d(2) by linarith
  moreover have "jittered_base_delay_with id c attempt draw = Some d"
    using assms(1) False d(1) by (simp add: jittered_base_delay_with_def signed_fraction_def)
  ultimately show ?thesis by blast
qed

text \<open>
  A validated retry configuration never panics when a delay is drawn, and the delay is the base
  delay plus or minus the jitter's share of it (and half a nanosecond of rounding).
\<close>

theorem jitter_stays_in_band:
  assumes "validate_retry c = Inr ()" and "0 \<le> draw" and "draw < 1"
  shows "\<exists>d j. jittered_base_delay_with id c attempt draw = Some d \<and> sr_jitter_factor c = Finite j \<and> j \<le> 1 \<and>
    \<bar>of_nat d - of_nat (base_delay c attempt)\<bar> \<le> j * of_nat (base_delay c attempt) + (1 / 2 :: rat)"
  using valid_jitter [OF assms(1)] jittered_near [OF _ _ _ assms(2,3)] by blast

theorem jitter_stays_in_band_witness:
  "\<exists>d j. jittered_base_delay_with id default_retry_config 2 (3 / 4) = Some d \<and>
     sr_jitter_factor default_retry_config = Finite j \<and> j \<le> 1 \<and>
     \<bar>of_nat d - of_nat (base_delay default_retry_config 2)\<bar> \<le>
       j * of_nat (base_delay default_retry_config 2) + (1 / 2 :: rat)"
  by (rule jitter_stays_in_band) (simp_all add: default_retry_config_def validate_retry_def)

lemma detect_retryable:
  "(detect cal e \<noteq> None) = is_rate_limited e \<and>
   (\<forall>d. detect cal e = Some d \<longrightarrow> is_retryable e \<and> wire_message e = Some (dl_message d) \<and>
      (dl_kind d = Overloaded \<longrightarrow> http_status_from_message (dl_message d) \<in> {Some 503, Some 529}))"
proof (cases e)
  case (ApiHttp msg meta)
  then show ?thesis
    by (cases "http_status_from_message msg")
      (auto simp: detect_def http_status_is_overload_def is_retryable_def http_status_is_retryable_def)
next
  case (ApiFailure msg meta)
  then show ?thesis
    using rate_limited_is_retryable [of e]
    by (auto simp: detect_def mentions_rate_limit_def Let_def)
next
  case (ApiRateLimit hint msg meta)
  then show ?thesis
    using rate_limited_is_retryable [of e]
    by (auto simp: detect_def split: option.splits)
qed (simp_all add: detect_def)

text \<open>
  The handler backs off for exactly the errors that say they are rate limits, and all of them are
  worth a retry; it calls the provider overloaded only for the statuses 503 and 529 of a message.
\<close>

theorem detection_is_rate_limited:
  "(detect cal e \<noteq> None) = is_rate_limited e \<and>
   (\<forall>d. detect cal e = Some d \<longrightarrow> is_retryable e \<and> wire_message e = Some (dl_message d) \<and>
      (dl_kind d = Overloaded \<longrightarrow> http_status_from_message (dl_message d) \<in> {Some 503, Some 529}))"
  by (rule detect_retryable)

theorem detection_is_rate_limited_witness:
  "is_retryable (http_with_status 529 ''busy'') \<and> \<not> is_rate_limited (http_with_status 500 ''down'')"
proof -
  have read: "http_status_from_message (''HTTP '' @ show_nat (unat (529 :: 16 word)) @ '': '' @ msg) = Some 529"
    "http_status_from_message (''HTTP '' @ show_nat (unat (500 :: 16 word)) @ '': '' @ msg) = Some 500" for msg
    by (subst status_read_back, simp)+
  let ?cal = "\<lparr>cal_parse = (\<lambda>_. None), cal_now = 0\<rparr>"
  have "detect ?cal (http_with_status 529 ''busy'') \<noteq> None" "detect ?cal (http_with_status 500 ''down'') = None"
    unfolding detect_def http_with_status_def api_error.case read by simp_all
  then show ?thesis
    using detection_is_rate_limited [of ?cal "http_with_status 529 ''busy''"]
      detection_is_rate_limited [of ?cal "http_with_status 500 ''down''"] by auto
qed

subsection \<open>The ladder of rate limits\<close>

lemma unat_succ_below: "(a :: 'a :: len word) < - 1 \<Longrightarrow> unat (a + 1) = Suc (unat a)"
proof -
  assume "a < - 1"
  then have "unat a < 2 ^ LENGTH('a) - 1" by (simp only: word_less_nat_alt unat_minus_one)
  then have "unat a + unat (1 :: 'a word) < 2 ^ LENGTH('a)" by simp
  then show ?thesis by (simp add: unat_add_lem [THEN iffD1])
qed

lemma sat_add_one_below: "(a :: 'a :: len word) < - 1 \<Longrightarrow> sat_add a 1 = a + 1"
  by (rule word_unat_eq_iff [THEN iffD2]) (use unat_less_pow [of "a + 1"] in \<open>simp add: unat_sat_add unat_succ_below\<close>)

text \<open>What one answer of the ladder leaves the turn to do.\<close>

datatype rung = Rung_Retry duration | Rung_Escalate | Rung_HardStop

fun rung_of :: "rate_limit_answer \<Rightarrow> rung" where
  "rung_of (RlRetry delay) = Rung_Retry delay"
| "rung_of (Escalate _ _) = Rung_Escalate"
| "rung_of HardStop = Rung_HardStop"

lemma ladder_answer:
  assumes "validate_rate_limit (sh_rate_limit h) = Inr ()" and "cnt \<le> rl_fallback_after_retries (sh_rate_limit h)"
    and "rl_fallback_after_retries (sh_rate_limit h) < - 1"
  shows "rate_limit_retry h now detail cnt deadline =
    (if cnt < rl_fallback_after_retries (sh_rate_limit h)
     then RlRetry (clamp_delay_to_deadline now (backoff (sh_rate_limit h) (dl_retry_after detail)) deadline)
     else if rl_fallback_after_retries (sh_rate_limit h) < rl_max_retries (sh_rate_limit h)
     then Escalate (cnt + 1) (dl_retry_after detail)
     else HardStop, cnt + 1)"
    and "unat (cnt + 1) = Suc (unat cnt)"
proof -
  let ?c = "sh_rate_limit h"
  have valid: "rl_fallback_after_retries ?c \<le> rl_max_retries ?c"
    using assms(1) by (auto simp: validate_rate_limit_def split: if_splits)
  have "cnt < - 1" using assms(2,3) by (rule le_less_trans)
  then have n: "sat_add cnt 1 = cnt + 1" "unat (cnt + 1) = Suc (unat cnt)"
    by (auto simp: sat_add_one_below unat_succ_below)
  then show "unat (cnt + 1) = Suc (unat cnt)" by simp
  have le: "cnt + 1 \<le> rl_fallback_after_retries ?c \<longleftrightarrow> cnt < rl_fallback_after_retries ?c"
    by (simp add: word_le_nat_alt word_less_nat_alt n(2) Suc_le_eq)
  then show "rate_limit_retry h now detail cnt deadline =
    (if cnt < rl_fallback_after_retries (sh_rate_limit h)
     then RlRetry (clamp_delay_to_deadline now (backoff (sh_rate_limit h) (dl_retry_after detail)) deadline)
     else if rl_fallback_after_retries (sh_rate_limit h) < rl_max_retries (sh_rate_limit h)
     then Escalate (cnt + 1) (dl_retry_after detail)
     else HardStop, cnt + 1)"
    using assms(2) valid n(2)
    by (auto simp: rate_limit_retry_def n(1) Let_def word_le_nat_alt word_less_nat_alt not_less)
qed

text \<open>The answers to the rate limits of one turn, one after the other, each with its detail and instant.\<close>

fun climb :: "stream_handler \<Rightarrow> instant option \<Rightarrow> (detected_rate_limit \<times> instant) list \<Rightarrow> u32 \<Rightarrow> rung list" where
  "climb h deadline [] cnt = []"
| "climb h deadline ((detail, now) # rest) cnt =
     (let (answer, n) = rate_limit_retry h now detail cnt deadline in rung_of answer # climb h deadline rest n)"

text \<open>
  The delay of a retry: the provider's hint when the configuration respects it, else the default delay,
  at most the maximum delay, and cut at the deadline of the turn.
\<close>

definition retry_delay :: "rate_limit_config \<Rightarrow> instant option \<Rightarrow> detected_rate_limit \<times> instant \<Rightarrow> duration" where
  "retry_delay c deadline hit =
     (let hint = (if rl_respect_retry_after c then dl_retry_after (fst hit) else None);
          wanted = min (case hint of Some d \<Rightarrow> d | None \<Rightarrow> rl_default_delay c) (rl_max_delay c)
      in case deadline of Some dl \<Rightarrow> min wanted (dl - snd hit) | None \<Rightarrow> wanted)"

lemma retry_delay_eq:
  "clamp_delay_to_deadline now (backoff c (dl_retry_after detail)) deadline = retry_delay c deadline (detail, now)"
  by (auto simp: clamp_delay_to_deadline_def backoff_def retry_delay_def Let_def split: option.split)

lemma climb_from:
  assumes "validate_rate_limit (sh_rate_limit h) = Inr ()" and "rl_fallback_after_retries (sh_rate_limit h) < - 1"
    and "cnt \<le> rl_fallback_after_retries (sh_rate_limit h)"
    and "unat cnt + length hits \<le> Suc (unat (rl_fallback_after_retries (sh_rate_limit h)))"
  shows "climb h deadline hits cnt =
    map (Rung_Retry \<circ> retry_delay (sh_rate_limit h) deadline)
      (take (unat (rl_fallback_after_retries (sh_rate_limit h)) - unat cnt) hits) @
    (if unat cnt + length hits \<le> unat (rl_fallback_after_retries (sh_rate_limit h)) then []
     else [if rl_fallback_after_retries (sh_rate_limit h) < rl_max_retries (sh_rate_limit h)
           then Rung_Escalate else Rung_HardStop])"
  using assms(3,4)
proof (induction hits arbitrary: cnt)
  case Nil
  then show ?case by (simp add: word_le_nat_alt)
next
  case (Cons hit hits)
  let ?line = "rl_fallback_after_retries (sh_rate_limit h)"
  obtain detail now where hit: "hit = (detail, now)" by (cases hit)
  note answer = ladder_answer(1) [OF assms(1) Cons.prems(1) assms(2)]
  have up: "unat (cnt + 1) = Suc (unat cnt)" by (rule ladder_answer(2) [OF assms(1) Cons.prems(1) assms(2)])
  show ?case
  proof (cases "cnt < ?line")
    case True
    then have less: "unat cnt < unat ?line" by (simp add: word_less_nat_alt)
    then have "cnt + 1 \<le> ?line" using up by (simp add: word_le_nat_alt)
    moreover have "unat (cnt + 1) + length hits \<le> Suc (unat ?line)" using Cons.prems(2) up by simp
    ultimately have "climb h deadline hits (cnt + 1) =
        map (Rung_Retry \<circ> retry_delay (sh_rate_limit h) deadline) (take (unat ?line - unat (cnt + 1)) hits) @
        (if unat (cnt + 1) + length hits \<le> unat ?line then []
         else [if ?line < rl_max_retries (sh_rate_limit h) then Rung_Escalate else Rung_HardStop])"
      by (rule Cons.IH)
    moreover have "unat ?line - unat cnt = Suc (unat ?line - unat (cnt + 1))" using less up by simp
    ultimately show ?thesis using True up
      by (simp add: hit answer retry_delay_eq)
  next
    case False
    then have "unat ?line = unat cnt" using Cons.prems(1) by (simp add: word_le_nat_alt word_less_nat_alt)
    then have "hits = []" using Cons.prems(2) by simp
    with False \<open>unat ?line = unat cnt\<close> show ?thesis by (simp add: hit answer)
  qed
qed

text \<open>
  C18: the ladder of a whole turn. Under a valid configuration whose fallback line is below the greatest
  32-bit number (there the saturating count would never pass it), the rate limits a turn meets are
  answered by retries as many times as the line says, each after the hint or the default delay, at most
  the maximum and not past the deadline of the turn; the next one ends the climb, with the escalation
  exactly when the hard cap is above the line and with the hard stop exactly when they are equal.
\<close>

theorem rate_limit_ladder:
  assumes "validate_rate_limit (sh_rate_limit h) = Inr ()" and "rl_fallback_after_retries (sh_rate_limit h) < - 1"
    and "length hits \<le> Suc (unat (rl_fallback_after_retries (sh_rate_limit h)))"
  shows "climb h deadline hits 0 =
    map (\<lambda>hit. Rung_Retry (retry_delay (sh_rate_limit h) deadline hit))
      (take (unat (rl_fallback_after_retries (sh_rate_limit h))) hits) @
    (if length hits \<le> unat (rl_fallback_after_retries (sh_rate_limit h)) then []
     else [if rl_fallback_after_retries (sh_rate_limit h) < rl_max_retries (sh_rate_limit h)
           then Rung_Escalate else Rung_HardStop])"
  using climb_from [OF assms(1,2), of 0 hits deadline] assms(3) by (simp add: comp_def)

theorem rate_limit_ladder_witness:
  "climb new_handler (Some 9) (replicate 4 (\<lparr>dl_kind = RateLimited, dl_retry_after = Some 5, dl_message = []\<rparr>, 7)) 0 =
     [Rung_Retry 2, Rung_Retry 2, Rung_Retry 2, Rung_Escalate]"
proof -
  let ?hits = "replicate 4 (\<lparr>dl_kind = RateLimited, dl_retry_after = Some 5, dl_message = []\<rparr>, 7 :: instant)"
  have "rl_fallback_after_retries (sh_rate_limit new_handler) = 3" "rl_max_retries (sh_rate_limit new_handler) = 5"
    "validate_rate_limit (sh_rate_limit new_handler) = Inr ()" "rl_respect_retry_after (sh_rate_limit new_handler)"
    "5 \<le> rl_max_delay (sh_rate_limit new_handler)"
    by (simp_all add: new_handler_def default_rate_limit_config_def validate_rate_limit_def)
  note config = this
  have "retry_delay (sh_rate_limit new_handler) (Some 9) (\<lparr>dl_kind = RateLimited, dl_retry_after = Some 5, dl_message = []\<rparr>, 7) = 2"
    using config by (simp add: retry_delay_def)
  moreover have "take 3 (replicate 4 x) = [x, x, x]" for x :: "detected_rate_limit \<times> instant"
    by (simp add: numeral_eq_Suc)
  ultimately show ?thesis
    using rate_limit_ladder [of new_handler ?hits "Some 9"] config by simp
qed

text \<open>
  What an escalation reports: one more than the retries that were made, since it counts the response
  that was not retried, and the hint of the provider as it came, above the maximum delay or not.
\<close>

theorem escalation_reports_refused_response:
  assumes "validate_rate_limit (sh_rate_limit h) = Inr ()" and "rl_fallback_after_retries (sh_rate_limit h) < - 1"
    and "rl_fallback_after_retries (sh_rate_limit h) < rl_max_retries (sh_rate_limit h)"
  shows "fst (rate_limit_retry h now detail (rl_fallback_after_retries (sh_rate_limit h)) deadline) =
    Escalate (rl_fallback_after_retries (sh_rate_limit h) + 1) (dl_retry_after detail)"
  using ladder_answer(1) [OF assms(1) order_refl assms(2)] assms(3) by simp

theorem escalation_reports_refused_response_witness:
  "fst (rate_limit_retry new_handler 7 \<lparr>dl_kind = RateLimited, dl_retry_after = None, dl_message = []\<rparr> 3 (Some 9)) =
     Escalate 4 None"
  using escalation_reports_refused_response [of new_handler 7 "\<lparr>dl_kind = RateLimited, dl_retry_after = None, dl_message = []\<rparr>" "Some 9"]
  by (simp add: new_handler_def default_rate_limit_config_def validate_rate_limit_def)

end
