(* ===== verification/Rate_Limit.thy ===== *)
theory Rate_Limit
  imports Numeric Errors
begin

section \<open>The client-side rate limiter\<close>

text \<open>
  src/src/stream/rate\_limit.rs: a token bucket per provider. The fields of \<open>TokenBucket\<close> and of the
  state behind its mutex are records, the flag \<open>tb_poisoned\<close> is the mutex's; a float is a rational,
  \<open>rnd\<close> rounds the result of each float operation, and \<open>latest\<close> is the last instant of the platform's
  clock. The map of buckets recovers from poisoning and has no flag.
\<close>

datatype rate_limit_error = RlWait duration | RlPoisoned

record bucket_state =
  bs_tokens :: rat
  bs_last_refill :: instant

record token_bucket =
  tb_capacity :: rat
  tb_refill_per_sec :: rat
  tb_state :: bucket_state
  tb_poisoned :: bool

definition new_bucket :: "(rat \<Rightarrow> rat) \<Rightarrow> u32 \<Rightarrow> instant \<Rightarrow> token_bucket" where
  "new_bucket rnd capacity now =
     (let cap = of_nat (unat capacity)
      in \<lparr>tb_capacity = cap, tb_refill_per_sec = rnd (cap / 60),
          tb_state = \<lparr>bs_tokens = cap, bs_last_refill = now\<rparr>, tb_poisoned = False\<rparr>)"

definition elapsed_refill ::
  "(rat \<Rightarrow> rat) \<Rightarrow> instant \<Rightarrow> bucket_state \<Rightarrow> instant \<Rightarrow> rat \<Rightarrow> rat \<Rightarrow> rat \<times> bucket_state" where
  "elapsed_refill rnd latest st now capacity refill_per_sec =
     (let elapsed = now - bs_last_refill st
      in if elapsed = 0 then (bs_tokens st, st)
         else if refill_per_sec \<le> 0 then (bs_tokens st, st)
         else
           (let added = rnd (as_secs_f64 rnd elapsed * refill_per_sec);
                raw = rnd (bs_tokens st + added)
            in if raw \<ge> capacity then
                 (let needed = rnd (capacity - bs_tokens st);
                      secs_to_fill = rnd (needed / refill_per_sec);
                      filled = bs_last_refill st + from_secs_f64 secs_to_fill
                  in (capacity, \<lparr>bs_tokens = capacity, bs_last_refill = if filled \<le> latest then filled else now\<rparr>))
               else (raw, \<lparr>bs_tokens = raw, bs_last_refill = now\<rparr>)))"

definition take_at :: "(rat \<Rightarrow> rat) \<Rightarrow> instant \<Rightarrow> instant \<Rightarrow> token_bucket \<Rightarrow> (rate_limit_error + unit) \<times> token_bucket" where
  "take_at rnd latest now b =
     (if tb_poisoned b then (Inl RlPoisoned, b)
      else
        (let (refill, st) = elapsed_refill rnd latest (tb_state b) now (tb_capacity b) (tb_refill_per_sec b)
         in if refill \<ge> 1 then (Inr (), b\<lparr>tb_state := st\<lparr>bs_tokens := rnd (refill - 1)\<rparr>\<rparr>)
            else if tb_refill_per_sec b \<le> 0 then (Inl (RlWait duration_max), b\<lparr>tb_state := st\<rparr>)
            else
              (let wait_secs = rnd (rnd (1 - refill) / tb_refill_per_sec b)
               in (Inl (RlWait (from_secs_f64 wait_secs)), b\<lparr>tb_state := st\<rparr>))))"

definition available_at :: "(rat \<Rightarrow> rat) \<Rightarrow> instant \<Rightarrow> instant \<Rightarrow> token_bucket \<Rightarrow> rat result \<times> token_bucket" where
  "available_at rnd latest now b =
     (if tb_poisoned b then (Inl (from_poison ''rate_limit_bucket''), b)
      else
        (let (tokens, st) = elapsed_refill rnd latest (tb_state b) now (tb_capacity b) (tb_refill_per_sec b)
         in (Inr tokens, b\<lparr>tb_state := st\<rparr>)))"

text \<open>A limiter, one bucket per base URL. A bucket is created when its URL is first seen.\<close>

record rate_limiter =
  rl_buckets :: "string \<rightharpoonup> token_bucket"
  rl_requests_per_minute :: u32

definition new_limiter :: "u32 \<Rightarrow> rate_limiter" where
  "new_limiter requests_per_minute = \<lparr>rl_buckets = Map.empty, rl_requests_per_minute = requests_per_minute\<rparr>"

definition acquire ::
  "(rat \<Rightarrow> rat) \<Rightarrow> instant \<Rightarrow> instant \<Rightarrow> instant \<Rightarrow> string \<Rightarrow> rate_limiter \<Rightarrow> (rate_limit_error + unit) \<times> rate_limiter" where
  "acquire rnd latest created now base_url l =
     (if rl_requests_per_minute l = 0 then (Inr (), l)
      else
        (let b = (case rl_buckets l base_url of
                    Some b \<Rightarrow> b | None \<Rightarrow> new_bucket rnd (rl_requests_per_minute l) created);
             (answer, b1) = take_at rnd latest now b
         in (answer, l\<lparr>rl_buckets := (rl_buckets l)(base_url \<mapsto> b1)\<rparr>)))"

definition is_enabled :: "rate_limiter \<Rightarrow> bool" where
  "is_enabled l \<longleftrightarrow> rl_requests_per_minute l > 0"

text \<open>A sequence of attempts to take a token: how many were granted, and the bucket after them.\<close>

fun granted :: "(rat \<Rightarrow> rat) \<Rightarrow> instant \<Rightarrow> instant list \<Rightarrow> token_bucket \<Rightarrow> nat \<times> token_bucket" where
  "granted rnd latest [] b = (0, b)"
| "granted rnd latest (now # nows) b =
     (case take_at rnd latest now b of
        (Inl _, b1) \<Rightarrow> granted rnd latest nows b1
      | (Inr _, b1) \<Rightarrow> (let (n, b2) = granted rnd latest nows b1 in (Suc n, b2)))"

subsection \<open>Tokens and credit\<close>

text \<open>
  The arithmetic of the bucket without the rounding of floats (the rounding of durations to
  nanoseconds stays). The credit of a bucket at an instant is its tokens and what has been refilled
  since they were last reconciled, without the cap.
\<close>

definition bucket_ok :: "nat \<Rightarrow> token_bucket \<Rightarrow> bool" where
  "bucket_ok n b \<longleftrightarrow> 0 < n \<and> tb_capacity b = of_nat n \<and> tb_refill_per_sec b = of_nat n / 60 \<and> \<not> tb_poisoned b \<and>
     0 \<le> bs_tokens (tb_state b) \<and> bs_tokens (tb_state b) \<le> of_nat n"

definition credit :: "nat \<Rightarrow> instant \<Rightarrow> bucket_state \<Rightarrow> rat" where
  "credit n now st = bs_tokens st + of_nat n * (of_nat now - of_nat (bs_last_refill st)) / (60 * 10 ^ 9)"

text \<open>What a refill does: nothing when no time has passed, else it adds the credit up to the capacity.\<close>

abbreviation refill :: "nat \<Rightarrow> instant \<Rightarrow> instant \<Rightarrow> bucket_state \<Rightarrow> rat \<times> bucket_state" where
  "refill n latest now st \<equiv> elapsed_refill id latest st now (of_nat n) (of_nat n / 60)"

definition fill_time :: "nat \<Rightarrow> bucket_state \<Rightarrow> duration" where
  "fill_time n st = from_secs_f64 ((of_nat n - bs_tokens st) / (of_nat n / 60))"

lemma refill_cases:
  assumes "0 < n"
  obtains (still) "now \<le> bs_last_refill st" "refill n latest now st = (bs_tokens st, st)"
  | (part) "bs_last_refill st < now" "credit n now st < of_nat n"
      "refill n latest now st = (credit n now st, \<lparr>bs_tokens = credit n now st, bs_last_refill = now\<rparr>)"
  | (full) "bs_last_refill st < now" "of_nat n \<le> credit n now st"
      "refill n latest now st =
        (of_nat n, \<lparr>bs_tokens = of_nat n,
           bs_last_refill = if bs_last_refill st + fill_time n st \<le> latest then bs_last_refill st + fill_time n st else now\<rparr>)"
proof (cases "now \<le> bs_last_refill st")
  case True
  then show thesis by (intro still) (simp_all add: elapsed_refill_def)
next
  case False
  then have "bs_tokens st + as_secs_f64 id (now - bs_last_refill st) * (of_nat n / 60) = credit n now st"
    unfolding as_secs_exact credit_def by (simp add: of_nat_diff)
  then have eq: "refill n latest now st =
      (if of_nat n \<le> credit n now st then
        (of_nat n, \<lparr>bs_tokens = of_nat n,
           bs_last_refill = if bs_last_refill st + fill_time n st \<le> latest then bs_last_refill st + fill_time n st else now\<rparr>)
       else (credit n now st, \<lparr>bs_tokens = credit n now st, bs_last_refill = now\<rparr>))"
    using False assms unfolding elapsed_refill_def fill_time_def Let_def by (simp del: divide_divide_eq_right times_divide_eq_right)
  show thesis
    using False eq by (cases "of_nat n \<le> credit n now st") (auto intro: part full)
qed

lemma fill_time_near:
  assumes "0 < n" and "bs_tokens st \<le> of_nat n"
  shows "\<bar>of_nat n * of_nat (fill_time n st) / (60 * 10 ^ 9) - (of_nat n - bs_tokens st)\<bar> \<le> of_nat n / (120 * 10 ^ 9)"
proof -
  let ?s = "(of_nat n - bs_tokens st) / (of_nat n / 60) :: rat"
  have "0 \<le> ?s" using assms by simp
  then have near: "\<bar>of_nat (fill_time n st) - ?s * 10 ^ 9\<bar> \<le> 1 / 2" unfolding fill_time_def by (rule from_secs_near)
  have "of_nat n * of_nat (fill_time n st) / (60 * 10 ^ 9) - (of_nat n - bs_tokens st) =
      of_nat n / (60 * 10 ^ 9) * (of_nat (fill_time n st) - ?s * 10 ^ 9)"
    using assms(1) by (simp add: field_simps)
  also have "\<bar>\<dots>\<bar> = of_nat n / (60 * 10 ^ 9) * \<bar>of_nat (fill_time n st) - ?s * 10 ^ 9\<bar>"
    by (simp add: abs_mult)
  also have "\<dots> \<le> of_nat n / (60 * 10 ^ 9) * (1 / 2)"
    using near by (intro mult_left_mono) simp_all
  finally show ?thesis by simp
qed

lemma fill_time_le:
  assumes "0 < n" and "bs_tokens st \<le> of_nat n" and "bs_last_refill st \<le> now" and "of_nat n \<le> credit n now st"
  shows "bs_last_refill st + fill_time n st \<le> now"
proof -
  let ?s = "(of_nat n - bs_tokens st) / (of_nat n / 60) :: rat"
  have "of_nat n - bs_tokens st \<le> of_nat n * of_nat (now - bs_last_refill st) / (60 * 10 ^ 9)"
    using assms(3,4) by (simp add: credit_def of_nat_diff)
  then have "?s * 10 ^ 9 \<le> of_nat (now - bs_last_refill st)"
    using assms(1) by (simp add: field_simps)
  then have "fill_time n st \<le> now - bs_last_refill st"
    unfolding fill_time_def using assms(1,2) by (intro from_secs_nat_mono) simp_all
  then show ?thesis using assms(3) by simp
qed

lemma bucket_rate: "bucket_ok n b \<Longrightarrow> tb_refill_per_sec b = of_nat n / 60"
  unfolding bucket_ok_def by blast

lemma bucket_simps:
  assumes "bucket_ok n b"
  shows "tb_capacity b = of_nat n" "\<not> tb_poisoned b" "0 < (of_nat n / 60 :: rat)" "0 < n"
  using assms by (simp_all add: bucket_ok_def)

lemma take_cases:
  assumes "bucket_ok n b"
  obtains (taken) r st where "refill n latest now (tb_state b) = (r, st)" "1 \<le> r"
      "take_at id latest now b = (Inr (), b\<lparr>tb_state := st\<lparr>bs_tokens := r - 1\<rparr>\<rparr>)"
  | (wait) r st where "refill n latest now (tb_state b) = (r, st)" "r < 1"
      "take_at id latest now b = (Inl (RlWait (from_secs_f64 ((1 - r) / (of_nat n / 60)))), b\<lparr>tb_state := st\<rparr>)"
proof -
  obtain r st where eq: "refill n latest now (tb_state b) = (r, st)" by (rule prod.exhaust)
  note unfolded = take_at_def bucket_rate [OF assms] bucket_simps(1) [OF assms] eq prod.case Let_def id_apply
  show thesis
  proof (cases "1 \<le> r")
    case True
    then have "take_at id latest now b = (Inr (), b\<lparr>tb_state := st\<lparr>bs_tokens := r - 1\<rparr>\<rparr>)"
      unfolding unfolded using bucket_simps [OF assms] by simp
    with eq True show thesis by (rule taken)
  next
    case False
    then have "take_at id latest now b = (Inl (RlWait (from_secs_f64 ((1 - r) / (of_nat n / 60)))), b\<lparr>tb_state := st\<rparr>)"
      unfolding unfolded using bucket_simps [OF assms] by simp
    with eq False show thesis by (intro wait) auto
  qed
qed

lemma refill_ok:
  assumes "bucket_ok n b" and "refill n latest now (tb_state b) = (r, st)"
  shows "bs_tokens st = r \<and> 0 \<le> r \<and> r \<le> of_nat n"
proof -
  have "0 < n" "0 \<le> bs_tokens (tb_state b)" "bs_tokens (tb_state b) \<le> of_nat n"
    using assms(1) by (simp_all add: bucket_ok_def)
  moreover have "0 \<le> credit n now (tb_state b)" if "bs_last_refill (tb_state b) < now"
    using that calculation(2) by (simp add: credit_def)
  ultimately show ?thesis
    using assms(2) by (cases rule: refill_cases [of n now "tb_state b" latest]) auto
qed

lemma bucket_ok_update:
  "bucket_ok n b \<Longrightarrow> 0 \<le> bs_tokens st \<Longrightarrow> bs_tokens st \<le> of_nat n \<Longrightarrow> bucket_ok n (b\<lparr>tb_state := st\<rparr>)"
  by (simp add: bucket_ok_def)

lemma take_ok: "bucket_ok n b \<Longrightarrow> bucket_ok n (snd (take_at id latest now b))"
proof -
  assume ok: "bucket_ok n b"
  then show ?thesis
  proof (cases rule: take_cases [of n b latest now])
    case (taken r st)
    with refill_ok [OF ok taken(1)] show ?thesis by (simp add: bucket_ok_update [OF ok])
  next
    case (wait r st)
    with refill_ok [OF ok wait(1)] show ?thesis by (simp add: bucket_ok_update [OF ok])
  qed
qed

lemma available_ok: "bucket_ok n b \<Longrightarrow> bucket_ok n (snd (available_at id latest now b))"
proof -
  assume ok: "bucket_ok n b"
  obtain r st where eq: "refill n latest now (tb_state b) = (r, st)" by (rule prod.exhaust)
  have "available_at id latest now b = (Inr r, b\<lparr>tb_state := st\<rparr>)"
    unfolding available_at_def bucket_rate [OF ok] bucket_simps(1) [OF ok] eq using bucket_simps [OF ok] by simp
  with refill_ok [OF ok eq] show ?thesis by (simp add: bucket_ok_update [OF ok])
qed

text \<open>A refill keeps the credit, up to the rounding of the instant at which the bucket was full.\<close>

lemma refill_credit:
  assumes "bucket_ok n b" and "refill n latest now (tb_state b) = (r, st)"
    and "bs_last_refill (tb_state b) \<le> until" and "now \<le> until" and "until \<le> latest"
  shows "bs_last_refill st \<le> until \<and>
    (if r < of_nat n then credit n until st = credit n until (tb_state b)
     else credit n until st \<le> credit n until (tb_state b) + of_nat n / (120 * 10 ^ 9))"
proof -
  have n: "0 < n" "bs_tokens (tb_state b) \<le> of_nat n" using assms(1) by (simp_all add: bucket_ok_def)
  from n(1) show ?thesis
  proof (cases rule: refill_cases [of n now "tb_state b" latest])
    case still
    with assms show ?thesis by simp
  next
    case part
    with assms(2,4) show ?thesis by (auto simp: credit_def field_simps)
  next
    case full
    have le: "bs_last_refill (tb_state b) + fill_time n (tb_state b) \<le> now"
      using full by (intro fill_time_le n) simp_all
    then have st: "r = of_nat n" "st = \<lparr>bs_tokens = of_nat n,
        bs_last_refill = bs_last_refill (tb_state b) + fill_time n (tb_state b)\<rparr>"
      using full assms(2,4,5) by simp_all
    have diff: "credit n until st - credit n until (tb_state b) =
        - (of_nat n * of_nat (fill_time n (tb_state b)) / (60 * 10 ^ 9) - (of_nat n - bs_tokens (tb_state b)))"
      by (simp add: st credit_def field_simps)
    have "credit n until st \<le> credit n until (tb_state b) + of_nat n / (120 * 10 ^ 9)"
      using fill_time_near [OF n] diff by linarith
    then show ?thesis using le assms(4) by (simp add: st(1)) (simp add: st(2))
  qed
qed


lemma take_credit:
  assumes "bucket_ok n b" and "bs_last_refill (tb_state b) \<le> until" and "now \<le> until" and "until \<le> latest"
    and "take_at id latest now b = (answer, b')"
  shows "bucket_ok n b' \<and> bs_last_refill (tb_state b') \<le> until \<and>
    credit n until (tb_state b') \<le>
      credit n until (tb_state b) - (if answer = Inr () then 1 - of_nat n / (120 * 10 ^ 9) else 0)"
proof -
  have ok: "bucket_ok n b'" using take_ok [OF assms(1), of latest now] assms(5) by simp
  from assms(1) show ?thesis
  proof (cases rule: take_cases [of n b latest now])
    case (taken r st)
    have b': "answer = Inr ()" "tb_state b' = st\<lparr>bs_tokens := r - 1\<rparr>" using taken assms(5) by auto
    have "bs_tokens st = r" using refill_ok [OF assms(1) taken(1)] by blast
    then have "credit n until (tb_state b') = credit n until st - 1" by (simp add: b' credit_def)
    moreover have "credit n until st \<le> credit n until (tb_state b) + of_nat n / (120 * 10 ^ 9)"
      using refill_credit [OF assms(1) taken(1) assms(2,3,4)] by (simp split: if_splits)
    moreover have "bs_last_refill st \<le> until" using refill_credit [OF assms(1) taken(1) assms(2,3,4)] by blast
    ultimately show ?thesis using ok by (simp add: b')
  next
    case (wait r st)
    have b': "answer \<noteq> Inr ()" "tb_state b' = st" using wait assms(5) by auto
    have "1 \<le> (of_nat n :: rat)" using assms(1) by (simp add: bucket_ok_def)
    with wait(2) have "r < of_nat n" by (rule less_le_trans)
    with refill_credit [OF assms(1) wait(1) assms(2,3,4)] ok show ?thesis by (simp add: b')
  qed
qed

lemma granted_credit:
  assumes "bucket_ok n b" and "bs_last_refill (tb_state b) \<le> until" and "\<forall>now \<in> set nows. now \<le> until"
    and "until \<le> latest"
  shows "of_nat (fst (granted id latest nows b)) * (1 - of_nat n / (120 * 10 ^ 9)) \<le> credit n until (tb_state b)"
  using assms
proof (induction nows arbitrary: b)
  case Nil
  then show ?case by (simp add: credit_def bucket_ok_def)
next
  case (Cons now nows)
  obtain answer b1 where eq: "take_at id latest now b = (answer, b1)" by (rule prod.exhaust)
  have step: "bucket_ok n b1 \<and> bs_last_refill (tb_state b1) \<le> until \<and> credit n until (tb_state b1) \<le>
      credit n until (tb_state b) - (if answer = Inr () then 1 - of_nat n / (120 * 10 ^ 9) else 0)"
    using Cons.prems by (intro take_credit [OF _ _ _ _ eq]) simp_all
  have rest: "of_nat (fst (granted id latest nows b1)) * (1 - of_nat n / (120 * 10 ^ 9)) \<le> credit n until (tb_state b1)"
    using Cons.prems step by (intro Cons.IH) simp_all
  show ?case
  proof (cases answer)
    case (Inl e)
    then have same: "granted id latest (now # nows) b = granted id latest nows b1" unfolding granted.simps eq by simp
    show ?thesis unfolding same using rest step Inl by simp
  next
    case (Inr u)
    then have more: "fst (granted id latest (now # nows) b) = Suc (fst (granted id latest nows b1))"
      unfolding granted.simps eq by (simp split: prod.split)
    show ?thesis unfolding more using rest step Inr by (simp add: algebra_simps add_divide_distrib)
  qed
qed

lemma new_bucket_ok: "0 < unat capacity \<Longrightarrow> bucket_ok (unat capacity) (new_bucket id capacity now)"
  unfolding bucket_ok_def using of_nat_0_le_iff [of "unat capacity", where 'a = rat]
  by (simp add: new_bucket_def Let_def)

text \<open>
  with exact arithmetic (a float operation that never rounds), over a whole run a bucket grants no more tokens than its capacity and what is refilled at one
  capacity a minute. For any attempts, in any order, up to an instant, the number of granted tokens is
  at most the capacity times one plus the minutes since the bucket was made, where each grant may be
  off by the share of a token that half a nanosecond refills (a duration is rounded to nanoseconds).
\<close>

theorem grants_bounded_by_refill:
  assumes "0 < capacity" and "made \<le> until" and "until \<le> latest" and "\<forall>now \<in> set nows. now \<le> until"
  shows "of_nat (fst (granted id latest nows (new_bucket id capacity made))) *
      (1 - of_nat (unat capacity) / (120 * 10 ^ 9)) \<le>
    of_nat (unat capacity) * (1 + of_nat (until - made) / (60 * 10 ^ 9) :: rat)"
proof -
  have cap: "0 < unat capacity" using assms(1) by (simp add: word_less_nat_alt)
  let ?b = "new_bucket id capacity made"
  have "credit (unat capacity) until (tb_state ?b) =
      of_nat (unat capacity) * (1 + of_nat (until - made) / (60 * 10 ^ 9))"
    using assms(2) by (simp add: credit_def new_bucket_def Let_def of_nat_diff algebra_simps add_divide_distrib diff_divide_distrib)
  moreover have "bs_last_refill (tb_state ?b) \<le> until" using assms(2) by (simp add: new_bucket_def Let_def)
  ultimately show ?thesis
    using granted_credit [OF new_bucket_ok [OF cap] _ assms(4,3)] by metis
qed

theorem grants_bounded_by_refill_witness:
  "of_nat (fst (granted id 100 [5, 5, 7] (new_bucket id 2 5))) * (1 - 2 / (120 * 10 ^ 9)) \<le>
     2 * (1 + of_nat (9 - 5) / (60 * 10 ^ 9) :: rat)"
  using grants_bounded_by_refill [of 2 5 9 100 "[5, 5, 7]"] by simp


text \<open>
  When the nanoseconds of a minute are a multiple of the capacity and the bucket holds whole tokens,
  nothing is rounded, and a bucket whose credit is at least one grants a token and loses exactly one
  token of credit, however much of the credit is above the capacity.
\<close>

lemma exact_take:
  assumes "bucket_ok n b" and "n dvd 60 * 10 ^ 9" and "bs_tokens (tb_state b) = of_nat k"
    and "bs_last_refill (tb_state b) \<le> now" and "now \<le> latest"
    and "credit n now (tb_state b) = of_nat (Suc m)"
  shows "\<exists>b' k'. take_at id latest now b = (Inr (), b') \<and> bucket_ok n b' \<and> bs_tokens (tb_state b') = of_nat k' \<and>
    bs_last_refill (tb_state b') \<le> now \<and> credit n now (tb_state b') = of_nat m"
proof -
  let ?st = "tb_state b"
  have n: "0 < n" "k \<le> n" using assms(1,3) by (simp_all add: bucket_ok_def)
  obtain r st k' where r: "refill n latest now ?st = (r, st)" "r = of_nat (Suc k')" "credit n now st = of_nat (Suc m)"
      "bs_tokens st = r" "bs_last_refill st \<le> now"
  proof -
    from n(1) show thesis
    proof (cases rule: refill_cases [of n now ?st latest])
      case still
      then have "credit n now ?st = of_nat k" using assms(3,4) by (simp add: credit_def)
      then have "k = Suc m" using assms(6) by (simp only: of_nat_eq_iff)
      with still assms(3,4,6) show thesis by (intro that [of _ ?st m]) simp_all
    next
      case part
      with assms(6) show thesis
        by (intro that [of "of_nat (Suc m)" "\<lparr>bs_tokens = of_nat (Suc m), bs_last_refill = now\<rparr>" m])
          (simp_all add: credit_def)
    next
      case full
      obtain c where c: "60 * 10 ^ 9 = n * c" using assms(2) by (elim dvdE)
      then have "c \<noteq> 0" by (intro notI) simp
      have "(of_nat (n * c) :: rat) = 60 * 10 ^ 9" unfolding c [symmetric] by simp
      then have nc: "of_nat n * of_nat c = (60 * 10 ^ 9 :: rat)" by simp
      have "fill_time n ?st = (n - k) * c"
        unfolding fill_time_def assms(3)
      proof (rule from_secs_exact)
        have "(of_nat n - of_nat k) / (of_nat n / 60) * 10 ^ 9 = (of_nat n - of_nat k) * (60 * 10 ^ 9) / (of_nat n :: rat)"
          by simp
        also have "\<dots> = of_nat ((n - k) * c)" unfolding nc [symmetric] using n by (simp add: of_nat_diff)
        finally show "(of_nat n - of_nat k) / (of_nat n / 60) * 10 ^ 9 = (of_nat ((n - k) * c) :: rat)" .
      qed (use n in simp)
      then have fill: "of_nat n * of_nat (fill_time n ?st) / (60 * 10 ^ 9 :: rat) = of_nat n - of_nat k"
        unfolding nc [symmetric] using n \<open>c \<noteq> 0\<close> by (simp add: of_nat_diff)
      have le: "bs_last_refill ?st + fill_time n ?st \<le> now"
        using full assms(3) n by (intro fill_time_le) simp_all
      have "credit n now (\<lparr>bs_tokens = of_nat n, bs_last_refill = bs_last_refill ?st + fill_time n ?st\<rparr>) =
          credit n now ?st"
        using fill by (simp add: credit_def assms(3) algebra_simps add_divide_distrib diff_divide_distrib)
      with full le assms(5,6) n show thesis
        by (intro that [of "of_nat n" "\<lparr>bs_tokens = of_nat n, bs_last_refill = bs_last_refill ?st + fill_time n ?st\<rparr>" "n - 1"])
          (simp_all add: Suc_le_eq)
    qed
  qed
  have "1 \<le> r" by (simp add: r(2))
  with assms(1) have "take_at id latest now b = (Inr (), b\<lparr>tb_state := st\<lparr>bs_tokens := r - 1\<rparr>\<rparr>)"
    by (cases rule: take_cases [of n b latest now]) (auto simp: r(1))
  moreover have "bucket_ok n (b\<lparr>tb_state := st\<lparr>bs_tokens := r - 1\<rparr>\<rparr>)"
    using refill_ok [OF assms(1) r(1)] by (intro bucket_ok_update [OF assms(1)]) (simp_all add: r(2))
  ultimately show ?thesis
    using r by (intro exI [of _ "b\<lparr>tb_state := st\<lparr>bs_tokens := r - 1\<rparr>\<rparr>"] exI [of _ k']) (simp add: credit_def)
qed

lemma exact_grants:
  "bucket_ok n b \<Longrightarrow> n dvd 60 * 10 ^ 9 \<Longrightarrow> bs_tokens (tb_state b) = of_nat k \<Longrightarrow>
   bs_last_refill (tb_state b) \<le> now \<Longrightarrow> now \<le> latest \<Longrightarrow> credit n now (tb_state b) = of_nat m \<Longrightarrow>
     fst (granted id latest (replicate m now) b) = m"
proof (induction m arbitrary: b k)
  case (Suc m)
  from exact_take [OF Suc.prems] obtain b' k' where b': "take_at id latest now b = (Inr (), b')"
      "bucket_ok n b'" "bs_tokens (tb_state b') = of_nat k'" "bs_last_refill (tb_state b') \<le> now"
      "credit n now (tb_state b') = of_nat m" by blast
  have "fst (granted id latest (replicate m now) b') = m"
    by (rule Suc.IH [OF b'(2) Suc.prems(2) b'(3,4) Suc.prems(5) b'(5)])
  moreover have "fst (granted id latest (replicate (Suc m) now) b) = Suc (fst (granted id latest (replicate m now) b'))"
    unfolding replicate_Suc granted.simps b'(1) by (simp split: prod.split)
  ultimately show ?case by (simp only:)
qed simp

text \<open>
  the capacity does not bound a burst. A bucket left alone for some minutes grants, at one and the
  same instant, its capacity once more for each of these minutes: the instant of the last refill
  advances to the point where the bucket was full only, so that the idle time above the capacity is
  counted again at every token taken.
\<close>

theorem idle_minutes_are_banked:
  assumes "0 < capacity" and "unat capacity dvd 60 * 10 ^ 9" and "made + minutes * (60 * 10 ^ 9) \<le> latest"
  shows "fst (granted id latest
      (replicate (unat capacity * (minutes + 1)) (made + minutes * (60 * 10 ^ 9))) (new_bucket id capacity made)) =
    unat capacity * (minutes + 1)"
proof -
  have cap: "0 < unat capacity" using assms(1) by (simp add: word_less_nat_alt)
  have "credit (unat capacity) (made + minutes * (60 * 10 ^ 9)) (tb_state (new_bucket id capacity made)) =
      of_nat (unat capacity * (minutes + 1))"
    by (simp add: credit_def new_bucket_def Let_def algebra_simps)
  then show ?thesis
    using assms(3) by (intro exact_grants [OF new_bucket_ok [OF cap] assms(2), where k = "unat capacity"])
      (simp_all add: new_bucket_def Let_def)
qed

theorem idle_minutes_are_banked_witness:
  "fst (granted id (10 ^ 15) (replicate (3 * (60 + 1)) (7 + 60 * (60 * 10 ^ 9))) (new_bucket id 3 7)) = 3 * (60 + 1)"
  using idle_minutes_are_banked [of 3 7 60 "10 ^ 15"] by simp


text \<open>
  waiting as long as the bucket says is enough. When a take is told to wait and nobody else takes a
  token, the next take succeeds at any instant more than the given duration later (one nanosecond more,
  for the rounding of the duration).
\<close>

theorem wait_is_enough:
  assumes "bucket_ok n b" and "bs_last_refill (tb_state b) \<le> now"
    and "take_at id latest now b = (Inl (RlWait d), b')" and "now + d < later"
  shows "fst (take_at id latest later b') = Inr ()"
proof -
  from assms(1) obtain r st where r: "refill n latest now (tb_state b) = (r, st)" "r < 1" "b' = b\<lparr>tb_state := st\<rparr>"
      "d = from_secs_f64 ((1 - r) / (of_nat n / 60))"
    using assms(3) by (cases rule: take_cases [of n b latest now]) auto
  have ok: "bucket_ok n b'" using take_ok [OF assms(1), of latest now] assms(3) by simp
  have n: "0 < n" "1 \<le> (of_nat n :: rat)" using assms(1) by (simp_all add: bucket_ok_def)
  have st: "bs_tokens st = r" "bs_last_refill st = now"
  proof -
    show "bs_tokens st = r" using refill_ok [OF assms(1) r(1)] by simp
    from n(1) show "bs_last_refill st = now"
      using r(1,2) n(2) assms(2) by (cases rule: refill_cases [of n now "tb_state b" latest]) auto
  qed
  have "0 \<le> (1 - r) / (of_nat n / 60)" using r(2) by simp
  then have "\<bar>of_nat d - (1 - r) / (of_nat n / 60) * 10 ^ 9\<bar> \<le> 1 / 2" unfolding r(4) by (rule from_secs_near)
  moreover have "of_nat (now + d + 1) \<le> (of_nat later :: rat)"
    using assms(4) by (simp only: of_nat_le_iff)
  ultimately have "(1 - r) / (of_nat n / 60) * 10 ^ 9 \<le> of_nat later - of_nat now"
    unfolding of_nat_add by linarith
  then have "1 - r \<le> of_nat n * (of_nat later - of_nat now) / (60 * 10 ^ 9)"
    using n(1) by (simp add: field_simps)
  then have credit: "1 \<le> credit n later st" by (simp add: credit_def st)
  have "now < later" using assms(4) by simp
  from n(1) have enough: "1 \<le> fst (refill n latest later st)"
    using credit n(2) \<open>now < later\<close> st(2) by (cases rule: refill_cases [of n later st latest]) simp_all
  from ok show ?thesis
    using enough by (cases rule: take_cases [of n b' latest later]) (auto simp: r(3))
qed

theorem wait_is_enough_witness:
  "fst (take_at id 99000000000 15000000004
     (snd (take_at id 99000000000 3 \<lparr>tb_capacity = 4, tb_refill_per_sec = 4 / 60,
        tb_state = \<lparr>bs_tokens = 0, bs_last_refill = 3\<rparr>, tb_poisoned = False\<rparr>))) = Inr ()"
proof -
  let ?b = "\<lparr>tb_capacity = 4, tb_refill_per_sec = 4 / 60,
    tb_state = \<lparr>bs_tokens = 0, bs_last_refill = 3\<rparr>, tb_poisoned = False\<rparr> :: token_bucket"
  have ok: "bucket_ok 4 ?b" by (simp add: bucket_ok_def)
  have take: "take_at id 99000000000 3 ?b = (Inl (RlWait 15000000000), ?b)"
    by (simp add: take_at_def elapsed_refill_def from_secs_f64_def round_half_even_def)
  have since: "bs_last_refill (tb_state ?b) \<le> 3" by simp
  have later: "(3 :: nat) + 15000000000 < 15000000004" by simp
  show ?thesis unfolding take snd_conv by (rule wait_is_enough [OF ok since take later])
qed

subsection \<open>Any rounding of floats\<close>

text \<open>
  What a rounding to the nearest double gives and these proofs use: it keeps the order, and an
  integer below 2 to the 53 is itself a double.
\<close>

definition float_rounding :: "(rat \<Rightarrow> rat) \<Rightarrow> bool" where
  "float_rounding rnd \<longleftrightarrow> mono rnd \<and> (\<forall>k < 2 ^ 53. rnd (of_nat k) = of_nat k)"

lemma float_roundingD:
  assumes "float_rounding rnd"
  shows "x \<le> y \<Longrightarrow> rnd x \<le> rnd y" "0 \<le> x \<Longrightarrow> 0 \<le> rnd x" "k < 2 ^ 53 \<Longrightarrow> rnd (of_nat k) = of_nat k"
    "k < 2 ^ 53 \<Longrightarrow> x \<le> of_nat k \<Longrightarrow> rnd x \<le> of_nat k"
proof -
  show le: "rnd x \<le> rnd y" if "x \<le> y" for x y using assms that by (auto simp: float_rounding_def dest: monoD)
  show int: "rnd (of_nat k) = of_nat k" if "k < 2 ^ 53" for k using assms that by (simp add: float_rounding_def)
  show "0 \<le> rnd x" if "0 \<le> x" using le [OF that] int [of 0] by simp
  show "rnd x \<le> of_nat k" if "k < 2 ^ 53" "x \<le> of_nat k" using le [OF that(2)] int [OF that(1)] by simp
qed

definition bucket_bounded :: "nat \<Rightarrow> token_bucket \<Rightarrow> bool" where
  "bucket_bounded n b \<longleftrightarrow> tb_capacity b = of_nat n \<and> \<not> tb_poisoned b \<and>
     0 \<le> bs_tokens (tb_state b) \<and> bs_tokens (tb_state b) \<le> of_nat n"

lemma refill_bounded:
  assumes "float_rounding rnd" and "0 \<le> bs_tokens st" and "bs_tokens st \<le> of_nat n"
    and "elapsed_refill rnd latest st now (of_nat n) rate = (r, st')"
  shows "bs_tokens st' = r \<and> 0 \<le> r \<and> r \<le> of_nat n"
proof (cases "now - bs_last_refill st = 0 \<or> rate \<le> 0")
  case True
  then have "elapsed_refill rnd latest st now (of_nat n) rate = (bs_tokens st, st)"
    by (auto simp: elapsed_refill_def Let_def)
  then have "r = bs_tokens st" "st' = st" using assms(4) by simp_all
  then show ?thesis using assms(2,3) by simp
next
  case False
  note nonneg = float_roundingD(2) [OF assms(1)]
  have "0 \<le> as_secs_f64 rnd (now - bs_last_refill st)"
    by (simp add: as_secs_f64_def nonneg)
  moreover have "0 \<le> rate" using False by simp
  ultimately have "0 \<le> as_secs_f64 rnd (now - bs_last_refill st) * rate"
    by (rule mult_nonneg_nonneg)
  then have "0 \<le> rnd (as_secs_f64 rnd (now - bs_last_refill st) * rate)" by (rule nonneg)
  with assms(2) have "0 \<le> rnd (bs_tokens st + rnd (as_secs_f64 rnd (now - bs_last_refill st) * rate))"
    by (intro nonneg [OF add_nonneg_nonneg])
  with False assms show ?thesis by (auto simp: elapsed_refill_def Let_def split: if_splits)
qed

text \<open>One take: it grants exactly when a whole token is there, and consumes that token.\<close>

lemma take_bounded:
  assumes "float_rounding rnd" and "n < 2 ^ 53" and "bucket_bounded n b"
  obtains r st where
    "elapsed_refill rnd latest (tb_state b) now (of_nat n) (tb_refill_per_sec b) = (r, st)"
    "fst (take_at rnd latest now b) = Inr () \<longleftrightarrow> 1 \<le> r"
    "tb_state (snd (take_at rnd latest now b)) = (if 1 \<le> r then st\<lparr>bs_tokens := rnd (r - 1)\<rparr> else st)"
    "bucket_bounded n (snd (take_at rnd latest now b))"
proof -
  obtain r st where eq: "elapsed_refill rnd latest (tb_state b) now (of_nat n) (tb_refill_per_sec b) = (r, st)"
    by (rule prod.exhaust)
  have b: "tb_capacity b = of_nat n" "\<not> tb_poisoned b" using assms(3) by (simp_all add: bucket_bounded_def)
  have r: "bs_tokens st = r \<and> 0 \<le> r \<and> r \<le> of_nat n"
    using refill_bounded [OF assms(1) _ _ eq] assms(3) by (simp add: bucket_bounded_def)
  have taken: "0 \<le> rnd (r - 1) \<and> rnd (r - 1) \<le> of_nat n" if "1 \<le> r"
    using that r float_roundingD(2) [OF assms(1), of "r - 1"] float_roundingD(4) [OF assms(1,2), of "r - 1"]
    by simp
  have split: "take_at rnd latest now b =
      (if 1 \<le> r then (Inr (), b\<lparr>tb_state := st\<lparr>bs_tokens := rnd (r - 1)\<rparr>\<rparr>)
       else if tb_refill_per_sec b \<le> 0 then (Inl (RlWait duration_max), b\<lparr>tb_state := st\<rparr>)
       else (Inl (RlWait (from_secs_f64 (rnd (rnd (1 - r) / tb_refill_per_sec b)))), b\<lparr>tb_state := st\<rparr>))"
    using b by (simp add: take_at_def eq Let_def)
  show thesis
    by (rule that [OF eq]) (use b r taken in \<open>auto simp: split bucket_bounded_def\<close>)
qed

lemma granted_Cons:
  "fst (granted rnd latest (now # nows) b) =
     (if fst (take_at rnd latest now b) = Inr () then 1 else 0) +
     fst (granted rnd latest nows (snd (take_at rnd latest now b)))"
  "snd (granted rnd latest (now # nows) b) = snd (granted rnd latest nows (snd (take_at rnd latest now b)))"
  by (auto split: prod.split sum.split)

lemma granted_bounded:
  assumes "float_rounding rnd" and "n < 2 ^ 53"
  shows "bucket_bounded n b \<Longrightarrow> bucket_bounded n (snd (granted rnd latest nows b))"
proof (induction nows arbitrary: b)
  case (Cons now nows)
  from assms Cons.prems obtain "bucket_bounded n (snd (take_at rnd latest now b))"
    by (rule take_bounded [of rnd n b latest now])
  from Cons.IH [OF this] show ?case by (simp only: granted_Cons)
qed simp

lemma granted_burst:
  assumes "float_rounding rnd" and "n < 2 ^ 53"
  shows "bucket_bounded n b \<Longrightarrow> bs_tokens (tb_state b) = of_nat k \<Longrightarrow>
    \<forall>now \<in> set nows. now \<le> bs_last_refill (tb_state b) \<Longrightarrow>
    fst (granted rnd latest nows b) = min (length nows) k"
proof (induction nows arbitrary: b k)
  case (Cons now nows)
  have still: "elapsed_refill rnd latest (tb_state b) now (of_nat n) (tb_refill_per_sec b) = (of_nat k, tb_state b)"
    using Cons.prems by (simp add: elapsed_refill_def)
  from assms Cons.prems(1) obtain taken: "fst (take_at rnd latest now b) = Inr () \<longleftrightarrow> 1 \<le> k"
    and state: "tb_state (snd (take_at rnd latest now b)) =
      (if 1 \<le> k then (tb_state b)\<lparr>bs_tokens := rnd (of_nat k - 1)\<rparr> else tb_state b)"
    and ok: "bucket_bounded n (snd (take_at rnd latest now b))"
    by (rule take_bounded [of rnd n b latest now]) (auto simp: still)
  have k: "k \<le> n" using Cons.prems(1,2) by (simp add: bucket_bounded_def)
  have left: "bs_tokens (tb_state (snd (take_at rnd latest now b))) = of_nat (k - 1)"
  proof (cases k)
    case (Suc j)
    then show ?thesis using float_roundingD(3) [OF assms(1), of j] k assms(2) by (simp add: state)
  qed (use Cons.prems(2) in \<open>simp add: state\<close>)
  have "bs_last_refill (tb_state (snd (take_at rnd latest now b))) = bs_last_refill (tb_state b)"
    by (simp add: state)
  with Cons.IH [OF ok left] Cons.prems(3) have
    "fst (granted rnd latest nows (snd (take_at rnd latest now b))) = min (length nows) (k - 1)"
    by simp
  then show ?case by (cases k) (simp_all add: granted_Cons(1) taken del: granted.simps)
qed simp

text \<open>
  C25: a fresh bucket allows a burst of exactly its capacity: of the attempts made before any refill
  (at instants no later than its creation, in any order) it grants the first ones up to its capacity
  and no more, each grant consuming one token; and whatever attempts follow, at whatever instants of
  a clock that may jump, the number of tokens it holds stays between zero and its capacity. This
  holds for every rounding of the float operations that keeps the order and is exact on integers
  below 2 to the 53, as rounding to doubles does.
\<close>

theorem fresh_burst_is_capacity:
  assumes "float_rounding rnd" and "\<forall>now \<in> set early. now \<le> made"
  shows "fst (granted rnd latest early (new_bucket rnd capacity made)) = min (length early) (unat capacity) \<and>
    (let b = snd (granted rnd latest nows (new_bucket rnd capacity made))
     in 0 \<le> bs_tokens (tb_state b) \<and> bs_tokens (tb_state b) \<le> of_nat (unat capacity) \<and> \<not> tb_poisoned b)"
proof -
  have n: "unat capacity < 2 ^ 53" using unat_less_pow [of capacity] by simp
  have ok: "bucket_bounded (unat capacity) (new_bucket rnd capacity made)"
    using of_nat_0_le_iff [of "unat capacity", where 'a = rat]
    by (simp add: bucket_bounded_def new_bucket_def Let_def)
  have "bs_tokens (tb_state (new_bucket rnd capacity made)) = of_nat (unat capacity)"
    "bs_last_refill (tb_state (new_bucket rnd capacity made)) = made"
    by (simp_all add: new_bucket_def Let_def)
  with granted_burst [OF assms(1) n ok] assms(2) granted_bounded [OF assms(1) n ok, of latest nows] show ?thesis
    by (simp add: bucket_bounded_def Let_def)
qed

text \<open>The witness rounds to whole numbers, far coarser than doubles.\<close>

theorem fresh_burst_is_capacity_witness:
  "fst (granted (\<lambda>x. of_int \<lfloor>x\<rfloor>) 100 [5, 3, 5, 4] (new_bucket (\<lambda>x. of_int \<lfloor>x\<rfloor>) 3 5)) = 3"
proof -
  have "float_rounding (\<lambda>x. of_int \<lfloor>x\<rfloor>)"
    by (auto simp: float_rounding_def mono_def intro: floor_mono)
  from fresh_burst_is_capacity [OF this, of "[5, 3, 5, 4]" 5 100 3] show ?thesis by simp
qed

lemma acquire_others: "url \<noteq> base_url \<Longrightarrow> rl_buckets (snd (acquire rnd latest created now base_url l)) url = rl_buckets l url"
  by (simp add: acquire_def Let_def split: prod.split)

lemma disabled_limiter: "rl_requests_per_minute l = 0 \<Longrightarrow> acquire rnd latest created now base_url l = (Inr (), l)"
  by (simp add: acquire_def)

end
