(* ===== verification/Stream_Turn.thy ===== *)
theory Stream_Turn
  imports Stream_Config Rate_Limit
begin

section \<open>A streamed turn\<close>

text \<open>
  src/src/stream/handler.rs, second part: the generator \<open>stream_turn\<close> and what it awaits, as a machine
  over phases that is stepped by observations; and \<open>stream_turn\<close> of src/src/engine/bare/llm\_turn.rs,
  which consumes what the generator yields. One observation carries what one step of the generator
  reads: the clock before and after it waits, the cancel signal, the limiter's answer, what won the
  race of the poll, what the generator of random numbers draws, the answer of the fallback request.
\<close>

subsection \<open>What a step observes\<close>

datatype 'v event_poll =
    PollNext "(api_error + 'v stream_event) option"
  | PollTimedOut
  | PollCancelled
  | PollDeadline

datatype 'v fallback_answer =
    FallbackCancelled
  | FallbackResponse "'v message" stream_stop_reason "usage option"
  | FallbackError api_error
  | FallbackDeadline

record 'v observation =
  ob_now :: instant
  ob_after :: instant
  ob_cancelled :: bool
  ob_interrupted :: bool
  ob_acquired :: "rate_limit_error + unit"
  ob_poll :: "'v event_poll"
  ob_draw :: rat
  ob_calendar :: calendar
  ob_fallback :: "'v fallback_answer"

record 'v turn_env =
  te_json :: "'v json_lib"
  te_round :: "rat \<Rightarrow> rat"
  te_format :: duration_format
  te_latest :: instant

subsection \<open>Diagnostics and polls\<close>

record event_diagnostics =
  ed_events :: u64
  ed_stream_start :: instant
  ed_has_partial :: bool
  ed_attempts :: u32

definition new_diagnostics :: "u64 \<Rightarrow> instant \<Rightarrow> 'v stream_accumulator \<Rightarrow> u32 \<Rightarrow> event_diagnostics" where
  "new_diagnostics events_processed stream_start shadow attempts =
     \<lparr>ed_events = events_processed, ed_stream_start = stream_start, ed_has_partial = (sa_completed shadow \<noteq> []),
      ed_attempts = attempts\<rparr>"

definition total_timeout :: "instant \<Rightarrow> event_diagnostics \<Rightarrow> stream_outcome" where
  "total_timeout now g = TotalTimeout (ed_has_partial g) (ed_events g) (now - ed_stream_start g)"

definition event_timeout :: "u32 \<Rightarrow> event_diagnostics \<Rightarrow> stream_outcome" where
  "event_timeout timeouts g = EventTimeout (ed_has_partial g) timeouts"

definition api_error_failure :: "calendar \<Rightarrow> duration_format \<Rightarrow> event_diagnostics \<Rightarrow> api_error \<Rightarrow> stream_failure" where
  "api_error_failure cal f g error =
     (case detect cal error of
        Some detail \<Rightarrow>
          \<lparr>sf_error = HandlerStreamFailed (OutcomeRateLimited detail (ed_has_partial g) (ed_events g)),
           sf_retryable = is_retryable error\<rparr>
      | None \<Rightarrow>
          \<lparr>sf_error = HandlerStreamFailed (OutcomeInitFailed (show_api_error (df_option f) error) (ed_attempts g)),
           sf_retryable = is_retryable error\<rparr>)"

definition checked_instant :: "instant \<Rightarrow> instant \<Rightarrow> duration \<Rightarrow> instant option" where
  "checked_instant latest now d = (if now + d \<le> latest then Some (now + d) else None)"

definition event_deadline :: "instant \<Rightarrow> stream_handler \<Rightarrow> instant \<Rightarrow> u64 \<Rightarrow> instant option" where
  "event_deadline latest h now events_processed =
     checked_instant latest now
       (if events_processed = 0 then st_initial_event_timeout (sh_timeout h) else st_per_event_timeout (sh_timeout h))"

definition deadline_exceeded :: "instant \<Rightarrow> instant option \<Rightarrow> bool" where
  "deadline_exceeded now deadline \<longleftrightarrow> (case deadline of Some d \<Rightarrow> now \<ge> d | None \<Rightarrow> False)"

definition timeout_limit :: "stream_handler \<Rightarrow> u64 \<Rightarrow> usize" where
  "timeout_limit h events_processed =
     (if events_processed = 0 then ucast (min (st_max_consecutive_timeouts (sh_timeout h)) 2)
      else ucast (st_max_consecutive_timeouts (sh_timeout h)))"

definition cancelled_failure :: stream_failure where
  "cancelled_failure = \<lparr>sf_error = HandlerCancelled, sf_retryable = False\<rparr>"

text \<open>One round of \<open>next_event\<close>; \<open>PollAgain\<close> is another round of its loop.\<close>

datatype 'v polled = NextEvent "'v stream_event option" | PollFailure stream_failure | PollAgain

definition next_event ::
  "'v turn_env \<Rightarrow> stream_handler \<Rightarrow> 'v observation \<Rightarrow> usize \<Rightarrow> instant option \<Rightarrow> event_diagnostics \<Rightarrow> 'v polled \<times> usize" where
  "next_event env h ob timeouts deadline g =
     (if deadline_exceeded (ob_now ob) deadline
      then (PollFailure (transient (HandlerStreamFailed (total_timeout (ob_now ob) g))), timeouts)
      else if ob_cancelled ob then (PollFailure cancelled_failure, timeouts)
      else
        (case ob_poll ob of
           PollCancelled \<Rightarrow> (PollFailure cancelled_failure, timeouts)
         | PollDeadline \<Rightarrow> (PollFailure (transient (HandlerStreamFailed (total_timeout (ob_after ob) g))), timeouts)
         | PollTimedOut \<Rightarrow>
             (let n = sat_add timeouts 1
              in (if n \<ge> timeout_limit h (ed_events g)
                  then PollFailure (transient (HandlerStreamFailed (event_timeout (nat_to_word_sat (unat n)) g)))
                  else PollAgain, n))
         | PollNext (Some (Inr event)) \<Rightarrow> (NextEvent (Some event), timeouts)
         | PollNext (Some (Inl error)) \<Rightarrow>
             (PollFailure (api_error_failure (ob_calendar ob) (te_format env) g error), timeouts)
         | PollNext None \<Rightarrow> (NextEvent None, timeouts)))"

definition accumulate_event ::
  "'v json_lib \<Rightarrow> event_diagnostics \<Rightarrow> 'v stream_event \<Rightarrow> 'v stream_accumulator \<Rightarrow> (stream_failure + unit) \<times> 'v stream_accumulator" where
  "accumulate_event jl g event shadow =
     (case process jl event shadow of
        (Inl e, s) \<Rightarrow>
          (Inl (transient (HandlerStreamFailed (OutcomeInitFailed (show_stream_error e) (ed_attempts g)))), s)
      | (Inr _, s) \<Rightarrow> (Inr (), s))"

subsection \<open>The turn\<close>

datatype 'v handler_event =
    HandlerStream "'v stream_event"
  | AttemptReset
  | HandlerFallback "'v message" stream_stop_reason "usage option"

type_synonym 'v item = "stream_handler_error + 'v handler_event"

text \<open>
  Where the generator waits: at the limiter (with the time waited so far), in its sleep, for an event,
  in the sleep before a retry, for the fallback. \<open>Panicked\<close> is the panic of a delay's computation.
\<close>

datatype turn_phase =
    Gating duration
  | GateSleeping duration duration
  | Polling
  | RetrySleeping duration
  | FallingBack "stream_outcome option"
  | Ended
  | Panicked

record 'v turn =
  tn_phase :: turn_phase
  tn_deadline :: "instant option"
  tn_start :: instant
  tn_counts :: retry_counts
  tn_shadow :: "'v stream_accumulator"
  tn_timeouts :: usize
  tn_events :: u64
  tn_terminal :: bool

definition start_turn :: "instant \<Rightarrow> stream_handler \<Rightarrow> instant \<Rightarrow> instant \<Rightarrow> 'v turn" where
  "start_turn latest h now started =
     \<lparr>tn_phase = Gating 0, tn_deadline = checked_instant latest now (st_total_stream_timeout (sh_timeout h)),
      tn_start = started, tn_counts = \<lparr>rc_rate_limit = 0, rc_transport = 0\<rparr>, tn_shadow = new_accumulator,
      tn_timeouts = 0, tn_events = 0, tn_terminal = False\<rparr>"

definition open_stream :: "'v turn \<Rightarrow> 'v turn" where
  "open_stream t = t\<lparr>tn_phase := Polling, tn_timeouts := 0, tn_events := 0, tn_terminal := False\<rparr>"

definition end_turn :: "'v item list \<Rightarrow> 'v turn \<Rightarrow> 'v turn \<times> 'v item list" where
  "end_turn items t = (t\<lparr>tn_phase := Ended\<rparr>, items)"

definition gate_wait :: "stream_handler \<Rightarrow> instant \<Rightarrow> duration \<Rightarrow> duration \<Rightarrow> instant option \<Rightarrow> duration" where
  "gate_wait h now wait waited deadline =
     (let remaining = sh_rate_limit_max_wait h - waited;
          before_deadline = (case deadline of None \<Rightarrow> remaining | Some d \<Rightarrow> d - now)
      in min (min wait remaining) before_deadline)"

definition gate_on_rate_limit ::
  "stream_handler \<Rightarrow> 'v observation \<Rightarrow> duration \<Rightarrow> 'v turn \<Rightarrow> 'v turn \<times> 'v item list" where
  "gate_on_rate_limit h ob waited t =
     (if \<not> sh_limited h then (open_stream t, [])
      else
        (case ob_acquired ob of
           Inr _ \<Rightarrow> (open_stream t, [])
         | Inl RlPoisoned \<Rightarrow> end_turn [Inl (HandlerPoisoned ''rate_limit'')] t
         | Inl (RlWait wait) \<Rightarrow>
             if waited \<ge> sh_rate_limit_max_wait h then (open_stream t, [])
             else
               (let capped = gate_wait h (ob_now ob) wait waited (tn_deadline t)
                in if capped = 0 then (open_stream t, []) else (t\<lparr>tn_phase := GateSleeping waited capped\<rparr>, []))))"

definition act_on_failure ::
  "'v turn_env \<Rightarrow> stream_handler \<Rightarrow> 'v observation \<Rightarrow> stream_failure \<Rightarrow> 'v turn \<Rightarrow> 'v turn \<times> 'v item list" where
  "act_on_failure env h ob failure t =
     (case decide_failure_action (te_round env) h (ob_after ob) (ob_draw ob) failure (tn_counts t) (tn_deadline t) of
        None \<Rightarrow> (t\<lparr>tn_phase := Panicked\<rparr>, [])
      | Some (action, counts) \<Rightarrow>
          (let t1 = t\<lparr>tn_counts := counts\<rparr>
           in case action of
                FailWith e \<Rightarrow> end_turn [Inl e] t1
              | TryFallback outcome \<Rightarrow> (t1\<lparr>tn_phase := FallingBack outcome\<rparr>, [])
              | RetryAfter delay \<Rightarrow> (t1\<lparr>tn_phase := RetrySleeping delay\<rparr>, [])))"

definition truncated_failure :: "u64 \<Rightarrow> event_diagnostics \<Rightarrow> stream_failure" where
  "truncated_failure events_processed g =
     transient (HandlerStreamFailed (OutcomeInitFailed
       (''stream ended without a terminal event after '' @ show_nat (unat events_processed) @ '' events (truncated?)'')
       (ed_attempts g)))"

definition turn_diagnostics :: "'v turn \<Rightarrow> event_diagnostics" where
  "turn_diagnostics t =
     new_diagnostics (tn_events t) (tn_start t) (tn_shadow t)
       (sat_add (sat_add (rc_transport (tn_counts t)) (rc_rate_limit (tn_counts t))) 1)"

definition poll_events :: "'v turn_env \<Rightarrow> stream_handler \<Rightarrow> 'v observation \<Rightarrow> 'v turn \<Rightarrow> 'v turn \<times> 'v item list" where
  "poll_events env h ob t =
     (let g = turn_diagnostics t; (polled, n) = next_event env h ob (tn_timeouts t) (tn_deadline t) g
      in case polled of
           PollAgain \<Rightarrow> (t\<lparr>tn_timeouts := n\<rparr>, [])
         | NextEvent (Some event) \<Rightarrow>
             (let t1 = t\<lparr>tn_events := sat_add (tn_events t) 1, tn_timeouts := 0,
                         tn_terminal := (event = MessageStop \<or> tn_terminal t)\<rparr>;
                  (verdict, s) = accumulate_event (te_json env) g event (tn_shadow t);
                  t2 = t1\<lparr>tn_shadow := s\<rparr>
              in case verdict of
                   Inl failure \<Rightarrow> act_on_failure env h ob failure t2
                 | Inr _ \<Rightarrow> (t2, [Inr (HandlerStream event)]))
         | NextEvent None \<Rightarrow>
             if tn_terminal t then end_turn [] t
             else act_on_failure env h ob (truncated_failure (tn_events t) g) (t\<lparr>tn_timeouts := n\<rparr>)
         | PollFailure failure \<Rightarrow> act_on_failure env h ob failure (t\<lparr>tn_timeouts := n\<rparr>))"

definition fallback_deadline :: "instant \<Rightarrow> stream_handler \<Rightarrow> instant \<Rightarrow> instant option \<Rightarrow> instant option" where
  "fallback_deadline latest h now deadline =
     (case deadline of
        Some d \<Rightarrow> if d > now then Some d else checked_instant latest now (st_initial_event_timeout (sh_timeout h))
      | None \<Rightarrow> None)"

definition failed_outcome :: "stream_outcome option \<Rightarrow> stream_outcome" where
  "failed_outcome outcome = (case outcome of Some o' \<Rightarrow> o' | None \<Rightarrow> OutcomeInitFailed ''unknown'' 0)"

definition fallback_non_streaming ::
  "'v turn_env \<Rightarrow> 'v observation \<Rightarrow> stream_outcome option \<Rightarrow> stream_handler_error + 'v message \<times> stream_stop_reason \<times> usage option" where
  "fallback_non_streaming env ob outcome =
     (if ob_cancelled ob then Inl HandlerCancelled
      else
        (case ob_fallback ob of
           FallbackCancelled \<Rightarrow> Inl HandlerCancelled
         | FallbackDeadline \<Rightarrow> Inl (FallbackFailed (failed_outcome outcome) ''fallback request exceeded its deadline'')
         | FallbackResponse message stop_reason us \<Rightarrow> Inr (message, stop_reason, us)
         | FallbackError e \<Rightarrow> Inl (FallbackFailed (failed_outcome outcome) (show_api_error (df_option (te_format env)) e))))"

text \<open>One step of the generator. A turn that has ended, or panicked, stays as it is.\<close>

definition turn_step :: "'v turn_env \<Rightarrow> stream_handler \<Rightarrow> 'v observation \<Rightarrow> 'v turn \<Rightarrow> 'v turn \<times> 'v item list" where
  "turn_step env h ob t =
     (case tn_phase t of
        Gating waited \<Rightarrow> gate_on_rate_limit h ob waited t
      | GateSleeping waited capped \<Rightarrow>
          if ob_interrupted ob then end_turn [Inl HandlerCancelled] t
          else (t\<lparr>tn_phase := Gating (min (waited + capped) duration_max)\<rparr>, [])
      | Polling \<Rightarrow> poll_events env h ob t
      | RetrySleeping delay \<Rightarrow>
          if ob_interrupted ob then end_turn [Inl HandlerCancelled] t
          else (t\<lparr>tn_phase := Gating 0, tn_shadow := new_accumulator\<rparr>, [Inr AttemptReset])
      | FallingBack outcome \<Rightarrow>
          (case fallback_non_streaming env ob outcome of
             Inl e \<Rightarrow> end_turn [Inl e] t
           | Inr (message, stop_reason, us) \<Rightarrow> end_turn [Inr (HandlerFallback message stop_reason us)] t)
      | Ended \<Rightarrow> (t, [])
      | Panicked \<Rightarrow> (t, []))"

fun run_turn :: "'v turn_env \<Rightarrow> stream_handler \<Rightarrow> 'v observation list \<Rightarrow> 'v turn \<Rightarrow> 'v turn \<times> 'v item list" where
  "run_turn env h [] t = (t, [])"
| "run_turn env h (ob # obs) t =
     (let (t1, items) = turn_step env h ob t; (t2, rest) = run_turn env h obs t1 in (t2, items @ rest))"

subsection \<open>The consumer in the driver\<close>

record 'v turn_serving =
  sv_message :: "'v message"
  sv_usage :: "usage option"
  sv_stop_reason :: stream_stop_reason
  sv_transport_fallback :: bool

record 'v turn_consumer =
  co_accumulator :: "'v stream_accumulator"
  co_stop_reason :: stream_stop_reason
  co_attempt :: usize

definition new_consumer :: "'v turn_consumer" where
  "new_consumer = \<lparr>co_accumulator = new_accumulator, co_stop_reason = StopEndTurn, co_attempt = 1\<rparr>"

fun map_handler_error :: "duration_format \<Rightarrow> stream_handler_error \<Rightarrow> loop_error" where
  "map_handler_error f HandlerCancelled = ErrCancelled"
| "map_handler_error f (HandlerPoisoned what) = LockPoisoned what"
| "map_handler_error f (HandlerInitFailed outcome) =
     Api (''stream failed before completing: '' @ show_outcome f outcome)"
| "map_handler_error f (HandlerStreamFailed outcome) = Api (''stream failed: '' @ show_outcome f outcome)"
| "map_handler_error f (FallbackFailed outcome fallback_error) =
     Api (''stream ('' @ show_outcome f outcome @ '') and fallback failed: '' @ fallback_error)"
| "map_handler_error f (HandlerRateLimitEscalation attempts retry_after) = RateLimitEscalation attempts retry_after"

definition event_stop_reason :: "'v stream_event \<Rightarrow> stream_stop_reason \<Rightarrow> stream_stop_reason" where
  "event_stop_reason event stop =
     (case event of
        MessageDelta (Some reason) _ \<Rightarrow> (case from_api_str reason of Some r \<Rightarrow> r | None \<Rightarrow> stop)
      | _ \<Rightarrow> stop)"

definition dispatch_stream_event ::
  "'v json_lib \<Rightarrow> 'v stream_event \<Rightarrow> 'v turn_consumer \<Rightarrow> unit result \<times> 'v turn_consumer" where
  "dispatch_stream_event jl event c =
     (let c1 = c\<lparr>co_stop_reason := event_stop_reason event (co_stop_reason c)\<rparr>
      in case process jl event (co_accumulator c1) of
           (Inl e, acc) \<Rightarrow>
             (Inl (Api (''stream accumulation error: '' @ show_stream_error e)), c1\<lparr>co_accumulator := acc\<rparr>)
         | (Inr _, acc) \<Rightarrow> (Inr (), c1\<lparr>co_accumulator := acc\<rparr>))"

definition reset_consumer :: "'v turn_consumer \<Rightarrow> 'v turn_consumer" where
  "reset_consumer c =
     \<lparr>co_accumulator = new_accumulator, co_stop_reason = StopEndTurn, co_attempt = sat_add (co_attempt c) 1\<rparr>"

text \<open>The loop over everything the generator yields until it ends.\<close>

fun serve_turn :: "'v turn_env \<Rightarrow> 'v item list \<Rightarrow> 'v turn_consumer \<Rightarrow> 'v turn_serving result" where
  "serve_turn env [] c =
     Inr \<lparr>sv_message = build (co_accumulator c), sv_usage = sa_usage (co_accumulator c),
          sv_stop_reason = co_stop_reason c, sv_transport_fallback = False\<rparr>"
| "serve_turn env (Inl e # items) c = Inl (map_handler_error (te_format env) e)"
| "serve_turn env (Inr (HandlerStream event) # items) c =
     (case dispatch_stream_event (te_json env) event c of
        (Inl e, _) \<Rightarrow> Inl e
      | (Inr _, c1) \<Rightarrow> serve_turn env items c1)"
| "serve_turn env (Inr AttemptReset # items) c = serve_turn env items (reset_consumer c)"
| "serve_turn env (Inr (HandlerFallback message stop_reason us) # items) c =
     Inr \<lparr>sv_message = message, sv_usage = us, sv_stop_reason = stop_reason, sv_transport_fallback = True\<rparr>"

subsection \<open>The steps of a turn\<close>

text \<open>
  The phases in which an attempt runs, and all kinds of steps there are: a step inside an attempt, an
  event handed on, a reset, a failed attempt, an error, a fallback answer, and the end.
\<close>

fun attempting :: "turn_phase \<Rightarrow> bool" where
  "attempting (Gating _) = True"
| "attempting (GateSleeping _ _) = True"
| "attempting Polling = True"
| "attempting _ = False"

fun decided :: "turn_phase \<Rightarrow> bool" where
  "decided (RetrySleeping _) = True"
| "decided (FallingBack _) = True"
| "decided Panicked = True"
| "decided _ = False"

fun finished :: "turn_phase \<Rightarrow> bool" where
  "finished Ended = True"
| "finished Panicked = True"
| "finished _ = False"

lemma act_cases:
  obtains (error) e c where "act_on_failure env h ob f t = (t\<lparr>tn_counts := c, tn_phase := Ended\<rparr>, [Inl e])"
  | (panic) "act_on_failure env h ob f t = (t\<lparr>tn_phase := Panicked\<rparr>, [])"
  | (fall) o1 c where "act_on_failure env h ob f t = (t\<lparr>tn_counts := c, tn_phase := FallingBack o1\<rparr>, [])"
  | (retry) d c where "act_on_failure env h ob f t = (t\<lparr>tn_counts := c, tn_phase := RetrySleeping d\<rparr>, [])"
      "decide_failure_action (te_round env) h (ob_after ob) (ob_draw ob) f (tn_counts t) (tn_deadline t) = Some (RetryAfter d, c)"
proof (cases "decide_failure_action (te_round env) h (ob_after ob) (ob_draw ob) f (tn_counts t) (tn_deadline t)")
  case None
  then show thesis by (intro panic) (simp add: act_on_failure_def)
next
  case (Some answer)
  obtain action c where answer: "answer = (action, c)" by (rule prod.exhaust)
  note eq = Some [unfolded answer]
  show thesis
  proof (cases action)
    case (FailWith e)
    then show thesis using eq by (intro error [of c e]) (simp add: act_on_failure_def end_turn_def)
  next
    case (TryFallback o1)
    then show thesis using eq by (intro fall [of o1 c]) (simp add: act_on_failure_def)
  next
    case (RetryAfter d)
    then show thesis using eq by (intro retry [of d c]) (simp_all add: act_on_failure_def)
  qed
qed

lemma gate_cases:
  obtains (opened) "gate_on_rate_limit h ob waited t = (open_stream t, [])"
  | (sleeps) wait where
      "gate_on_rate_limit h ob waited t =
        (t\<lparr>tn_phase := GateSleeping waited (gate_wait h (ob_now ob) wait waited (tn_deadline t))\<rparr>, [])"
      "0 < gate_wait h (ob_now ob) wait waited (tn_deadline t)" "waited < sh_rate_limit_max_wait h"
  | (poisoned) "gate_on_rate_limit h ob waited t = (t\<lparr>tn_phase := Ended\<rparr>, [Inl (HandlerPoisoned ''rate_limit'')])"
proof (cases "sh_limited h")
  case False
  then show thesis by (intro opened) (simp add: gate_on_rate_limit_def)
next
  case limited: True
  show thesis
  proof (cases "ob_acquired ob")
    case (Inr u)
    then show thesis by (intro opened) (simp add: gate_on_rate_limit_def)
  next
    case (Inl answer)
    show thesis
    proof (cases answer)
      case RlPoisoned
      with Inl limited show thesis by (intro poisoned) (simp add: gate_on_rate_limit_def end_turn_def)
    next
      case (RlWait wait)
      let ?capped = "gate_wait h (ob_now ob) wait waited (tn_deadline t)"
      show thesis
      proof (cases "waited < sh_rate_limit_max_wait h \<and> 0 < ?capped")
        case True
        with Inl limited RlWait show thesis by (intro sleeps [of wait]) (simp_all add: gate_on_rate_limit_def Let_def)
      next
        case False
        with Inl limited RlWait show thesis by (intro opened) (auto simp: gate_on_rate_limit_def Let_def)
      qed
    qed
  qed
qed

lemma poll_cases:
  obtains (again) n where "poll_events env h ob t = (t\<lparr>tn_timeouts := n\<rparr>, [])"
  | (event) ev u s where
      "poll_events env h ob t =
        (t\<lparr>tn_events := sat_add (tn_events t) 1, tn_timeouts := 0, tn_terminal := (ev = MessageStop \<or> tn_terminal t),
           tn_shadow := s\<rparr>, [Inr (HandlerStream ev)])"
      "process (te_json env) ev (tn_shadow t) = (Inr u, s)"
  | (ended) "tn_terminal t" "poll_events env h ob t = (t\<lparr>tn_phase := Ended\<rparr>, [])"
  | (failed) f t1 where "poll_events env h ob t = act_on_failure env h ob f t1"
      "tn_phase t1 = tn_phase t" "tn_counts t1 = tn_counts t" "tn_deadline t1 = tn_deadline t"
proof -
  let ?g = "turn_diagnostics t"
  obtain polled n where p: "next_event env h ob (tn_timeouts t) (tn_deadline t) ?g = (polled, n)" by (rule prod.exhaust)
  show thesis
  proof (cases polled)
    case PollAgain
    then show thesis using p by (intro again [of n]) (simp add: poll_events_def)
  next
    case (PollFailure f)
    then show thesis using p by (intro failed [of f "t\<lparr>tn_timeouts := n\<rparr>"]) (simp_all add: poll_events_def)
  next
    case (NextEvent upcoming)
    show thesis
    proof (cases upcoming)
      case None
      then show thesis
      proof (cases "tn_terminal t")
        case True
        then show thesis using p NextEvent None by (intro ended) (simp_all add: poll_events_def end_turn_def)
      next
        case False
        then show thesis
          using p NextEvent None
          by (intro failed [of "truncated_failure (tn_events t) ?g" "t\<lparr>tn_timeouts := n\<rparr>"]) (simp_all add: poll_events_def)
      qed
    next
      case (Some ev)
      let ?t1 = "t\<lparr>tn_events := sat_add (tn_events t) 1, tn_timeouts := 0, tn_terminal := (ev = MessageStop \<or> tn_terminal t)\<rparr>"
      obtain verdict s where v: "process (te_json env) ev (tn_shadow t) = (verdict, s)" by (rule prod.exhaust)
      show thesis
      proof (cases verdict)
        case (Inl e)
        let ?f = "transient (HandlerStreamFailed (OutcomeInitFailed (show_stream_error e) (ed_attempts ?g)))"
        show thesis
          using p NextEvent Some v Inl
          by (intro failed [of ?f "?t1\<lparr>tn_shadow := s\<rparr>"]) (simp_all add: poll_events_def accumulate_event_def Let_def)
      next
        case (Inr u)
        show thesis
          using p NextEvent Some v Inr
          by (intro event [of s ev u]) (simp_all add: poll_events_def accumulate_event_def Let_def)
      qed
    qed
  qed
qed

subsection \<open>A turn makes boundedly many attempts\<close>

definition rate_limit_budget :: "stream_handler \<Rightarrow> u32" where
  "rate_limit_budget h = min (rl_fallback_after_retries (sh_rate_limit h)) (rl_max_retries (sh_rate_limit h))"

definition resets :: "'v item list \<Rightarrow> nat" where
  "resets items = length (filter (\<lambda>item. item = Inr AttemptReset) items)"

lemma resets_simps [simp]:
  "resets [] = 0" "resets (items @ rest) = resets items + resets rest" "resets [Inr AttemptReset] = 1"
  "resets [Inl e] = 0" "resets [Inr (HandlerStream ev)] = 0" "resets [Inr (HandlerFallback m r us)] = 0"
  by (simp_all add: resets_def)

lemma retry_spends:
  assumes "rate_limit_budget h < - 1"
    and "decide_failure_action rnd h now draw f c deadline = Some (RetryAfter d, c')"
  shows "(unat (rc_rate_limit c') = Suc (unat (rc_rate_limit c)) \<and> unat (rc_rate_limit c') \<le> unat (rate_limit_budget h) \<and>
      rc_transport c' = rc_transport c) \<or>
    (unat (rc_transport c') = Suc (unat (rc_transport c)) \<and> unat (rc_transport c') \<le> unat (sr_max_retries (sh_retry h)) \<and>
      rc_rate_limit c' = rc_rate_limit c)"
proof (cases "\<exists>detail partial events. carried_outcome (sf_error f) = Some (OutcomeRateLimited detail partial events)")
  case True
  then obtain detail partial events where
    carried: "carried_outcome (sf_error f) = Some (OutcomeRateLimited detail partial events)" by blast
  let ?n = "sat_add (rc_rate_limit c) 1"
  have c': "c' = c\<lparr>rc_rate_limit := ?n\<rparr>" and le: "?n \<le> rate_limit_budget h"
    using assms(2) carried
    by (auto simp: decide_failure_action_def decide_rate_limit_error_def rate_limit_retry_def rate_limit_budget_def Let_def
        split: if_splits)
  have "rc_rate_limit c < - 1"
  proof (rule ccontr)
    assume "\<not> rc_rate_limit c < - 1"
    then have "unat (rc_rate_limit c) = 2 ^ 32 - 1"
      using unat_less_pow [of "rc_rate_limit c"] by (simp add: word_less_nat_alt)
    then have "unat ?n = 2 ^ 32 - 1" by (simp add: unat_sat_add)
    with le assms(1) show False by (simp add: word_le_nat_alt word_less_nat_alt)
  qed
  then have "unat ?n = Suc (unat (rc_rate_limit c))" by (rule sat_add_one)
  with c' le show ?thesis by (simp add: word_le_nat_alt)
next
  case False
  let ?m = "sr_max_retries (sh_retry h)" and ?n = "sat_add (rc_transport c) 1"
  have c': "c' = c\<lparr>rc_transport := ?n\<rparr>" and less: "rc_transport c < sat_sub (sat_add ?m 1) 1"
    using assms(2) False
    by (auto simp: decide_failure_action_def decide_transport_error_def Let_def not_le
        split: if_splits option.splits stream_outcome.splits)
  from less have "unat (rc_transport c) < unat ?m" by (simp add: word_less_nat_alt unat_sat_sub unat_sat_add)
  moreover have "unat ?n = Suc (unat (rc_transport c))" by (rule sat_add_one [OF less])
  ultimately show ?thesis using c' by simp
qed

definition spent_within :: "stream_handler \<Rightarrow> nat \<Rightarrow> 'v turn \<Rightarrow> bool" where
  "spent_within h n t \<longleftrightarrow>
     (let c = tn_counts t; m = unat (rate_limit_budget h); k = unat (sr_max_retries (sh_retry h));
          allowed = (unat (rc_rate_limit c) \<le> m \<and> unat (rc_transport c) \<le> k)
      in n \<le> m + k \<and>
         (attempting (tn_phase t) \<longrightarrow> allowed \<and> n = unat (rc_rate_limit c) + unat (rc_transport c)) \<and>
         (\<forall>d. tn_phase t = RetrySleeping d \<longrightarrow> allowed \<and> Suc n = unat (rc_rate_limit c) + unat (rc_transport c)))"

lemma spent_not_running:
  "spent_within h n t \<Longrightarrow> \<not> attempting (tn_phase t') \<Longrightarrow> \<forall>d. tn_phase t' \<noteq> RetrySleeping d \<Longrightarrow> spent_within h n t'"
  by (simp add: spent_within_def Let_def)

lemma spent_same:
  "spent_within h n t \<Longrightarrow> attempting (tn_phase t) \<Longrightarrow> attempting (tn_phase t') \<Longrightarrow> tn_counts t' = tn_counts t \<Longrightarrow>
     spent_within h n t'"
  by (auto simp: spent_within_def Let_def)

lemma act_spends:
  assumes "rate_limit_budget h < - 1" and "spent_within h n t" and "attempting (tn_phase t)"
    and "act_on_failure env h ob f t = (t', items)"
  shows "spent_within h n t' \<and> resets items = 0"
proof (cases rule: act_cases [of env h ob f t])
  case (retry d c)
  let ?c = "tn_counts t" and ?m = "unat (rate_limit_budget h)" and ?k = "unat (sr_max_retries (sh_retry h))"
  have t': "t' = t\<lparr>tn_counts := c, tn_phase := RetrySleeping d\<rparr>" "items = []" using retry(1) assms(4) by simp_all
  have now: "n = unat (rc_rate_limit ?c) + unat (rc_transport ?c)" "n \<le> ?m + ?k"
      "unat (rc_rate_limit ?c) \<le> ?m" "unat (rc_transport ?c) \<le> ?k"
    using assms(2,3) by (simp_all add: spent_within_def Let_def)
  from retry_spends [OF assms(1) retry(2)] show ?thesis
    using now by (auto simp: t' spent_within_def Let_def)
qed (use assms in \<open>auto elim!: spent_not_running\<close>)

lemma step_spends:
  assumes "rate_limit_budget h < - 1" and "spent_within h n t" and "turn_step env h ob t = (t', items)"
  shows "spent_within h (n + resets items) t'"
proof (cases "tn_phase t")
  case (Gating waited)
  have att: "attempting (tn_phase t)" by (simp add: Gating)
  have step: "gate_on_rate_limit h ob waited t = (t', items)" using assms(3) by (simp add: turn_step_def Gating)
  show ?thesis
  proof (cases rule: gate_cases [of h ob waited t])
    case opened
    then show ?thesis using step by (auto intro!: spent_same [OF assms(2) att] simp: open_stream_def)
  next
    case (sleeps wait)
    then show ?thesis using step by (auto intro!: spent_same [OF assms(2) att])
  next
    case poisoned
    then show ?thesis using step by (auto intro!: spent_not_running [OF assms(2)])
  qed
next
  case (GateSleeping waited capped)
  have att: "attempting (tn_phase t)" by (simp add: GateSleeping)
  show ?thesis
  proof (cases "ob_interrupted ob")
    case True
    then show ?thesis
      using assms(3) by (auto simp: turn_step_def GateSleeping end_turn_def intro!: spent_not_running [OF assms(2)])
  next
    case False
    then show ?thesis
      using assms(3) by (auto simp: turn_step_def GateSleeping intro!: spent_same [OF assms(2) att])
  qed
next
  case Polling
  have att: "attempting (tn_phase t)" by (simp add: Polling)
  have step: "poll_events env h ob t = (t', items)" using assms(3) by (simp add: turn_step_def Polling)
  show ?thesis
  proof (cases rule: poll_cases [of env h ob t])
    case (again k)
    then show ?thesis using step by (auto intro!: spent_same [OF assms(2) att] simp: Polling)
  next
    case (event ev u s)
    then show ?thesis using step by (auto intro!: spent_same [OF assms(2) att] simp: Polling)
  next
    case ended
    then show ?thesis using step by (auto intro!: spent_not_running [OF assms(2)])
  next
    case (failed f t1)
    have "spent_within h n t1" using failed by (intro spent_same [OF assms(2) att]) (simp_all add: Polling)
    from act_spends [OF assms(1) this, of env ob f t' items] show ?thesis
      using failed step by (simp add: Polling)
  qed
next
  case (RetrySleeping delay)
  show ?thesis
  proof (cases "ob_interrupted ob")
    case True
    then show ?thesis
      using assms(3) by (auto simp: turn_step_def RetrySleeping end_turn_def intro!: spent_not_running [OF assms(2)])
  next
    case False
    then show ?thesis
      using assms(2,3) by (auto simp: turn_step_def RetrySleeping spent_within_def Let_def)
  qed
next
  case (FallingBack o1)
  then show ?thesis
    using assms(3)
    by (auto simp: turn_step_def end_turn_def split: sum.splits prod.splits intro!: spent_not_running [OF assms(2)])
next
  case Ended
  then show ?thesis using assms(2,3) by (auto simp: turn_step_def)
next
  case Panicked
  then show ?thesis using assms(2,3) by (auto simp: turn_step_def)
qed

lemma run_spends:
  "rate_limit_budget h < - 1 \<Longrightarrow> spent_within h n t \<Longrightarrow>
     spent_within h (n + resets (snd (run_turn env h obs t))) (fst (run_turn env h obs t))"
proof (induction obs arbitrary: n t)
  case (Cons ob obs)
  obtain t1 items where step: "turn_step env h ob t = (t1, items)" by (rule prod.exhaust)
  have "spent_within h (n + resets items + resets (snd (run_turn env h obs t1))) (fst (run_turn env h obs t1))"
    using Cons.prems by (intro Cons.IH step_spends [OF _ _ step])
  then show ?case by (simp add: step add.assoc case_prod_beta)
qed simp

lemma start_spends: "spent_within h 0 (start_turn latest h now started)"
  by (simp add: spent_within_def start_turn_def Let_def)

text \<open>
  The streams a run opens: the steps that leave the gate for the first poll of an attempt. Each takes
  the one admission a turn starts with, or the one a retry gives.
\<close>

definition gated :: "turn_phase \<Rightarrow> bool" where
  "gated p \<longleftrightarrow> (\<exists>waited. p = Gating waited) \<or> (\<exists>waited capped. p = GateSleeping waited capped)"

definition opens_stream :: "'v turn \<Rightarrow> 'v turn \<Rightarrow> bool" where
  "opens_stream t t' \<longleftrightarrow> gated (tn_phase t) \<and> tn_phase t' = Polling"

fun stream_opens :: "'v turn_env \<Rightarrow> stream_handler \<Rightarrow> 'v observation list \<Rightarrow> 'v turn \<Rightarrow> nat" where
  "stream_opens env h [] t = 0"
| "stream_opens env h (ob # obs) t =
     (let t1 = fst (turn_step env h ob t) in of_bool (opens_stream t t1) + stream_opens env h obs t1)"

lemma act_not_gated: "\<not> gated (tn_phase (fst (act_on_failure env h ob f t)))"
  by (cases rule: act_cases [of env h ob f t]) (simp_all add: gated_def)

lemma step_admits:
  assumes "turn_step env h ob t = (t', items)"
  shows "of_bool (opens_stream t t') + of_bool (gated (tn_phase t')) \<le> resets items + of_bool (gated (tn_phase t))"
proof (cases "tn_phase t")
  case (Gating waited)
  then have "gated (tn_phase t)" "tn_phase t' = Polling \<Longrightarrow> \<not> gated (tn_phase t')" by (simp_all add: gated_def)
  then show ?thesis by (cases "tn_phase t' = Polling") (simp_all add: opens_stream_def)
next
  case (GateSleeping waited capped)
  then have "gated (tn_phase t)" "tn_phase t' = Polling \<Longrightarrow> \<not> gated (tn_phase t')" by (simp_all add: gated_def)
  then show ?thesis by (cases "tn_phase t' = Polling") (simp_all add: opens_stream_def)
next
  case Polling
  have step: "poll_events env h ob t = (t', items)" using assms by (simp add: turn_step_def Polling)
  have "\<not> gated (tn_phase t')"
  proof (cases rule: poll_cases [of env h ob t])
    case (failed f t1)
    then show ?thesis using step act_not_gated [of env h ob f t1] by (metis fst_conv)
  qed (use step in \<open>auto simp: gated_def Polling\<close>)
  then show ?thesis by (simp add: opens_stream_def gated_def Polling)
next
  case (RetrySleeping delay)
  then show ?thesis
    using assms by (auto simp: turn_step_def end_turn_def gated_def opens_stream_def split: if_splits)
next
  case (FallingBack o1)
  then show ?thesis
    using assms by (auto simp: turn_step_def end_turn_def gated_def opens_stream_def split: sum.splits prod.splits)
qed (use assms in \<open>auto simp: turn_step_def gated_def opens_stream_def\<close>)

lemma opens_admitted:
  "stream_opens env h obs t \<le> resets (snd (run_turn env h obs t)) + of_bool (gated (tn_phase t))"
proof (induction obs arbitrary: t)
  case (Cons ob obs)
  obtain t1 items where step: "turn_step env h ob t = (t1, items)" by (rule prod.exhaust)
  show ?case using step_admits [OF step] Cons.IH [of t1] by (simp add: step case_prod_beta)
qed simp

text \<open>
  C15: whatever the provider, the limiter and the clock do, a turn opens the stream at most once and
  then once for each transport retry and each rate-limit retry the configuration allows (the rate-limit
  retries being the lower of the fallback line and the hard cap). The allowed number of rate-limit
  retries must be below the greatest 32-bit number, where the saturating count would never pass it.
\<close>

theorem attempts_are_bounded:
  fixes env :: "'v turn_env"
  assumes "rate_limit_budget h < - 1"
  shows "stream_opens env h obs (start_turn latest h now started) \<le>
    Suc (unat (sr_max_retries (sh_retry h)) + unat (rate_limit_budget h))"
proof -
  let ?t = "start_turn latest h now started :: 'v turn"
  have "resets (snd (run_turn env h obs ?t)) \<le> unat (rate_limit_budget h) + unat (sr_max_retries (sh_retry h))"
    using run_spends [OF assms start_spends, of env obs latest now started] by (simp add: spent_within_def Let_def)
  moreover have "gated (tn_phase ?t)" by (simp add: start_turn_def gated_def)
  ultimately show ?thesis using opens_admitted [of env h obs ?t] by simp
qed

text \<open>An environment and observations for concrete runs: a quiet one, an event, the end of the stream, a failure.\<close>

definition plain_env :: "nat turn_env" where
  "plain_env =
     \<lparr>te_json = \<lparr>jl_parse = (\<lambda>s. Inr (length s)), jl_as_str = (\<lambda>_. None), jl_empty_object = 0\<rparr>, te_round = id,
      te_format = \<lparr>df_seconds = (\<lambda>_. []), df_debug = (\<lambda>_. []), df_option = (\<lambda>_. [])\<rparr>, te_latest = 10 ^ 20\<rparr>"

definition observe :: "instant \<Rightarrow> nat event_poll \<Rightarrow> nat observation" where
  "observe now poll =
     \<lparr>ob_now = now, ob_after = now, ob_cancelled = False, ob_interrupted = False, ob_acquired = Inr (), ob_poll = poll,
      ob_draw = 1 / 2, ob_calendar = \<lparr>cal_parse = (\<lambda>_. None), cal_now = 0\<rparr>, ob_fallback = FallbackCancelled\<rparr>"

theorem attempts_are_bounded_witness:
  "stream_opens plain_env new_handler (replicate 100 (observe 3 (PollNext None))) (start_turn 10 new_handler 1 2) \<le> 7"
  using attempts_are_bounded [of new_handler plain_env "replicate 100 (observe 3 (PollNext None))" 10 1 2]
  by (simp add: rate_limit_budget_def new_handler_def default_rate_limit_config_def default_retry_config_def)

subsection \<open>What the driver serves\<close>

definition collect :: "'v stream_event list \<Rightarrow> 'v item \<Rightarrow> 'v stream_event list" where
  "collect events item =
     (case item of
        Inr (HandlerStream ev) \<Rightarrow> events @ [ev]
      | Inr AttemptReset \<Rightarrow> []
      | _ \<Rightarrow> events)"

text \<open>The events of the last attempt, and the stop reason they report.\<close>

definition last_attempt :: "'v item list \<Rightarrow> 'v stream_event list" where
  "last_attempt items = foldl collect [] items"

definition stop_of :: "'v stream_event list \<Rightarrow> stream_stop_reason" where
  "stop_of events = foldl (\<lambda>stop ev. event_stop_reason ev stop) StopEndTurn events"

text \<open>What the driver makes of a turn that has ended, given the events of the last attempt.\<close>

definition settled :: "'v turn_env \<Rightarrow> 'v item list \<Rightarrow> 'v stream_event list \<Rightarrow> 'v turn_serving result \<Rightarrow> bool" where
  "settled env items events result \<longleftrightarrow>
     (\<exists>e. items \<noteq> [] \<and> last items = Inl e \<and> result = Inl (map_handler_error (te_format env) e)) \<or>
     (\<exists>message stop_reason us. items \<noteq> [] \<and> last items = Inr (HandlerFallback message stop_reason us) \<and>
        result = Inr \<lparr>sv_message = message, sv_usage = us, sv_stop_reason = stop_reason, sv_transport_fallback = True\<rparr>) \<or>
     (\<exists>acc. process_all (te_json env) events new_accumulator = (Inr (), acc) \<and> MessageStop \<in> set events \<and>
        result = Inr \<lparr>sv_message = build acc, sv_usage = sa_usage acc, sv_stop_reason = stop_of events,
                      sv_transport_fallback = False\<rparr>)"

text \<open>The consumer mirrors the handler's shadow while an attempt runs.\<close>

definition mirrored :: "'v turn_env \<Rightarrow> 'v turn \<Rightarrow> 'v stream_event list \<Rightarrow> 'v turn_consumer \<Rightarrow> bool" where
  "mirrored env t events c \<longleftrightarrow>
     (attempting (tn_phase t) \<longrightarrow>
        process_all (te_json env) events new_accumulator = (Inr (), tn_shadow t) \<and> co_accumulator c = tn_shadow t \<and>
        co_stop_reason c = stop_of events \<and> (tn_phase t = Polling \<and> tn_terminal t \<longrightarrow> MessageStop \<in> set events))"

lemma mirrored_start: "mirrored env (start_turn latest h now started) [] new_consumer"
  by (simp add: mirrored_def start_turn_def new_consumer_def stop_of_def)

lemma mirrored_idle: "\<not> attempting (tn_phase t) \<Longrightarrow> mirrored env t events c"
  by (simp add: mirrored_def)

lemma serve_event:
  assumes "mirrored env t events c" and "tn_phase t = Polling"
    and "process (te_json env) ev (tn_shadow t) = (Inr u, s)"
  shows "\<exists>c1. (\<forall>rest. serve_turn env (Inr (HandlerStream ev) # rest) c = serve_turn env rest c1) \<and>
    co_accumulator c1 = s \<and> co_stop_reason c1 = stop_of (events @ [ev]) \<and>
    process_all (te_json env) (events @ [ev]) new_accumulator = (Inr (), s)"
proof -
  let ?c1 = "c\<lparr>co_stop_reason := event_stop_reason ev (co_stop_reason c), co_accumulator := s\<rparr>"
  have c: "process_all (te_json env) events new_accumulator = (Inr (), tn_shadow t)" "co_accumulator c = tn_shadow t"
      "co_stop_reason c = stop_of events"
    using assms(1,2) by (simp_all add: mirrored_def)
  have "dispatch_stream_event (te_json env) ev c = (Inr (), ?c1)"
    using assms(3) by (simp add: dispatch_stream_event_def c(2))
  then have "\<forall>rest. serve_turn env (Inr (HandlerStream ev) # rest) c = serve_turn env rest ?c1" by simp
  moreover have "process_all (te_json env) (events @ [ev]) new_accumulator = (Inr (), s)"
    using assms(3) by (simp add: process_all_append c(1))
  ultimately show ?thesis by (intro exI [of _ ?c1]) (simp add: c(3) stop_of_def)
qed

text \<open>One step, as the consumer sees it: it goes on with a consumer that mirrors again, or it is done.\<close>

definition goes_on :: "'v turn_env \<Rightarrow> 'v turn \<Rightarrow> 'v item list \<Rightarrow> 'v stream_event list \<Rightarrow> 'v turn_consumer \<Rightarrow> bool" where
  "goes_on env t items events c \<longleftrightarrow> tn_phase t \<noteq> Ended \<and>
     (\<exists>c1. (\<forall>rest. serve_turn env (items @ rest) c = serve_turn env rest c1) \<and>
        mirrored env t (foldl collect events items) c1)"

definition is_done :: "'v turn_env \<Rightarrow> 'v turn \<Rightarrow> 'v item list \<Rightarrow> 'v stream_event list \<Rightarrow> 'v turn_consumer \<Rightarrow> bool" where
  "is_done env t items events c \<longleftrightarrow> tn_phase t = Ended \<and>
     settled env items (foldl collect events items) (serve_turn env items c)"

lemma goes_on_quiet: "tn_phase t \<noteq> Ended \<Longrightarrow> mirrored env t events c \<Longrightarrow> goes_on env t [] events c"
  by (auto simp: goes_on_def)

lemma is_done_error: "tn_phase t = Ended \<Longrightarrow> is_done env t [Inl e] events c"
  by (simp add: is_done_def settled_def)

lemma act_served:
  assumes "act_on_failure env h ob f t = (t', items)"
  shows "goes_on env t' items events c \<or> is_done env t' items events c"
  using assms
  by (cases rule: act_cases [of env h ob f t]) (auto intro!: goes_on_quiet mirrored_idle is_done_error)

lemma step_served:
  assumes "mirrored env t events c" and "turn_step env h ob t = (t', items)" and "\<not> finished (tn_phase t)"
  shows "goes_on env t' items events c \<or> is_done env t' items events c"
proof (cases "tn_phase t")
  case (Gating waited)
  have step: "gate_on_rate_limit h ob waited t = (t', items)" using assms(2) by (simp add: turn_step_def Gating)
  show ?thesis
  proof (cases rule: gate_cases [of h ob waited t])
    case opened
    then show ?thesis
      using step assms(1) by (auto simp: mirrored_def open_stream_def Gating intro!: goes_on_quiet)
  next
    case (sleeps wait)
    then show ?thesis using step assms(1) by (auto simp: mirrored_def Gating intro!: goes_on_quiet)
  next
    case poisoned
    then show ?thesis using step by (auto intro: is_done_error)
  qed
next
  case (GateSleeping waited capped)
  then show ?thesis
    using assms(1,2)
    by (auto simp: turn_step_def end_turn_def mirrored_def intro!: goes_on_quiet is_done_error split: if_splits)
next
  case Polling
  have step: "poll_events env h ob t = (t', items)" using assms(2) by (simp add: turn_step_def Polling)
  show ?thesis
  proof (cases rule: poll_cases [of env h ob t])
    case (again n)
    then show ?thesis using step assms(1) by (auto simp: mirrored_def Polling intro!: goes_on_quiet)
  next
    case (event ev u s)
    have t': "items = [Inr (HandlerStream ev)]" "tn_phase t' = Polling" "tn_shadow t' = s"
        "tn_terminal t' = (ev = MessageStop \<or> tn_terminal t)"
      using event(1) step by (auto simp: Polling)
    have seen: "tn_terminal t \<longrightarrow> MessageStop \<in> set events" using assms(1) by (simp add: mirrored_def Polling)
    show ?thesis
      using serve_event [OF assms(1) Polling event(2)] t' seen by (intro disjI1) (auto simp: goes_on_def mirrored_def collect_def)
  next
    case ended
    have "process_all (te_json env) events new_accumulator = (Inr (), tn_shadow t)" "co_accumulator c = tn_shadow t"
        "co_stop_reason c = stop_of events" "MessageStop \<in> set events"
      using assms(1) ended(1) by (simp_all add: mirrored_def Polling)
    then show ?thesis using ended(2) step by (intro disjI2) (auto simp: is_done_def settled_def)
  next
    case (failed f t1)
    then show ?thesis using step by (intro act_served [of env h ob f t1]) simp
  qed
next
  case (RetrySleeping delay)
  show ?thesis
  proof (cases "ob_interrupted ob")
    case True
    then show ?thesis using assms(2) by (auto simp: turn_step_def RetrySleeping end_turn_def intro: is_done_error)
  next
    case False
    then have "items = [Inr AttemptReset]" "tn_phase t' = Gating 0" "tn_shadow t' = new_accumulator"
      using assms(2) by (auto simp: turn_step_def RetrySleeping)
    then show ?thesis
      unfolding goes_on_def
      by (intro disjI1 conjI exI [of _ "reset_consumer c"])
        (simp_all add: mirrored_def collect_def stop_of_def reset_consumer_def)
  qed
next
  case (FallingBack o1)
  then show ?thesis
    using assms(2)
    by (auto simp: turn_step_def end_turn_def is_done_def settled_def split: sum.splits prod.splits)
qed (use assms(3) in simp_all)

lemma settled_append: "settled env items events r \<Longrightarrow> settled env (pre @ items) events r"
  by (auto simp: settled_def)

lemma run_finished: "finished (tn_phase t) \<Longrightarrow> run_turn env h obs t = (t, [])"
  by (induction obs) (auto simp: turn_step_def elim: finished.elims)

lemma run_served:
  "mirrored env t events c \<Longrightarrow> \<not> finished (tn_phase t) \<Longrightarrow> run_turn env h obs t = (t', items) \<Longrightarrow>
   tn_phase t' = Ended \<Longrightarrow> settled env items (foldl collect events items) (serve_turn env items c)"
proof (induction obs arbitrary: t events c items)
  case (Cons ob obs)
  obtain t1 items1 where step: "turn_step env h ob t = (t1, items1)" by (rule prod.exhaust)
  obtain rest where run: "run_turn env h obs t1 = (t', rest)" "items = items1 @ rest"
    using Cons.prems(3) step by (auto split: prod.splits)
  from step_served [OF Cons.prems(1) step Cons.prems(2)] show ?case
  proof
    assume "goes_on env t1 items1 events c"
    then obtain c1 where c1: "\<forall>rest. serve_turn env (items1 @ rest) c = serve_turn env rest c1"
        "mirrored env t1 (foldl collect events items1) c1" "tn_phase t1 \<noteq> Ended" by (auto simp: goes_on_def)
    have "\<not> finished (tn_phase t1)"
      using run_finished [of t1 env h obs] run(1) Cons.prems(4) c1(3) by auto
    then have "settled env rest (foldl collect (foldl collect events items1) rest) (serve_turn env rest c1)"
      by (rule Cons.IH [OF c1(2) _ run(1) Cons.prems(4)])
    then show ?case using c1(1) by (simp add: run(2) settled_append)
  next
    assume over: "is_done env t1 items1 events c"
    then have "rest = []" using run_finished [of t1 env h obs] run(1) by (simp add: is_done_def)
    then show ?case using over by (simp add: run(2) is_done_def)
  qed
qed simp

text \<open>
  C5: what the driver serves for a turn that has ended. Either the generator's last item is an error, and
  the driver returns that error; or it is the answer of the fallback, and the driver serves it; or
  the driver serves the message of the last attempt alone: its events, folded from an empty accumulator
  without an error, with the stop reason they report, and a terminal event among them. Nothing that an
  earlier attempt streamed is in it.
\<close>

theorem last_attempt_is_served:
  assumes "run_turn env h obs (start_turn latest h now started) = (t, items)" and "tn_phase t = Ended"
  shows "(\<exists>e. items \<noteq> [] \<and> last items = Inl e \<and>
        serve_turn env items new_consumer = Inl (map_handler_error (te_format env) e)) \<or>
    (\<exists>message stop_reason us. items \<noteq> [] \<and> last items = Inr (HandlerFallback message stop_reason us) \<and>
        serve_turn env items new_consumer =
          Inr \<lparr>sv_message = message, sv_usage = us, sv_stop_reason = stop_reason, sv_transport_fallback = True\<rparr>) \<or>
    (\<exists>acc. process_all (te_json env) (last_attempt items) new_accumulator = (Inr (), acc) \<and>
        MessageStop \<in> set (last_attempt items) \<and>
        serve_turn env items new_consumer =
          Inr \<lparr>sv_message = build acc, sv_usage = sa_usage acc, sv_stop_reason = stop_of (last_attempt items),
               sv_transport_fallback = False\<rparr>)"
  using run_served [OF mirrored_start _ assms] unfolding settled_def last_attempt_def by (simp add: start_turn_def)

text \<open>A turn whose first attempt is cut off after half a word and whose second one is complete.\<close>

definition one_retry :: stream_handler where
  "one_retry = passthrough\<lparr>sh_retry := default_retry_config\<lparr>sr_max_retries := 1, sr_jitter_factor := Finite 0\<rparr>\<rparr>"

definition cut_then_whole :: "nat observation list" where
  "cut_then_whole =
     map (\<lambda>poll. observe 3 poll)
       [PollCancelled, PollNext (Some (Inr (PartStart 0 (Some (TextPart []))))),
        PollNext (Some (Inr (IndexedDelta 0 (DeltaText ''he'')))), PollNext None, PollCancelled, PollCancelled,
        PollNext (Some (Inr (PartStart 0 (Some (TextPart []))))), PollNext (Some (Inr (IndexedDelta 0 (DeltaText ''hi'')))),
        PollNext (Some (Inr (PartStop (Some 0)))), PollNext (Some (Inr MessageStop)), PollNext None]"

definition second_attempt :: "nat stream_event list" where
  "second_attempt =
     [PartStart 0 (Some (TextPart [])), IndexedDelta 0 (DeltaText ''hi''), PartStop (Some 0), MessageStop]"

lemma cut_then_whole_run:
  "let (t, items) = run_turn plain_env one_retry cut_then_whole (start_turn 10 one_retry 1 2)
   in tn_phase t = Ended \<and> last_attempt items = second_attempt \<and> last items = Inr (HandlerStream MessageStop)"
  by (simp add: cut_then_whole_def one_retry_def passthrough_def default_retry_config_def default_rate_limit_config_def
      plain_env_def observe_def start_turn_def turn_step_def gate_on_rate_limit_def open_stream_def poll_events_def
      next_event_def turn_diagnostics_def new_diagnostics_def accumulate_event_def process_def act_on_failure_def
      decide_failure_action_def decide_transport_error_def transient_def truncated_failure_def is_total_timeout_def
      jittered_base_delay_with_def base_delay_def power_factor_def sat_mul_def sat_add_def sat_sub_def
      clamp_delay_to_deadline_def checked_instant_def deadline_exceeded_def duration_max_def end_turn_def
      opened_lane_def empty_lane_def stopped_position_def flush_lane_def remove_at_def addressed_def
      last_attempt_def second_attempt_def collect_def new_accumulator_def Let_def)

lemma second_attempt_parts:
  "process_all (te_json plain_env) second_attempt new_accumulator =
     (Inr (), \<lparr>sa_completed = [TextPart ''hi''], sa_open = [], sa_model = None, sa_usage = None\<rparr>)"
  by (simp add: second_attempt_def plain_env_def process_def opened_lane_def empty_lane_def addressed_def
      stopped_position_def flush_lane_def remove_at_def new_accumulator_def Let_def)

theorem last_attempt_is_served_witness:
  "serve_turn plain_env (snd (run_turn plain_env one_retry cut_then_whole (start_turn 10 one_retry 1 2))) new_consumer =
     Inr \<lparr>sv_message = new_message Assistant [TextPart ''hi''], sv_usage = None, sv_stop_reason = StopEndTurn,
          sv_transport_fallback = False\<rparr>"
proof -
  obtain t items where run: "run_turn plain_env one_retry cut_then_whole (start_turn 10 one_retry 1 2) = (t, items)"
    by (rule prod.exhaust)
  then have t: "tn_phase t = Ended" "last_attempt items = second_attempt" "last items = Inr (HandlerStream MessageStop)"
    using cut_then_whole_run by simp_all
  have stop: "stop_of second_attempt = StopEndTurn"
    by (simp add: stop_of_def second_attempt_def event_stop_reason_def)
  show ?thesis
    using last_attempt_is_served [OF run t(1)] unfolding run snd_conv t second_attempt_parts stop by (auto simp: build_def)
qed

subsection \<open>A turn past its deadline\<close>

text \<open>How many steps a phase is away from the end once the deadline has passed.\<close>

fun steps_left :: "turn_phase \<Rightarrow> nat" where
  "steps_left (RetrySleeping _) = 4"
| "steps_left (GateSleeping _ _) = 4"
| "steps_left (Gating _) = 3"
| "steps_left Polling = 2"
| "steps_left (FallingBack _) = 1"
| "steps_left Ended = 0"
| "steps_left Panicked = 0"

lemma late_poll:
  assumes "tn_deadline t = Some dl" and "dl \<le> ob_now ob"
  shows "fst (poll_events env h ob t) \<in> {t1. tn_phase t1 = Ended \<or> (\<exists>o1. tn_phase t1 = FallingBack o1)} \<and>
    tn_deadline (fst (poll_events env h ob t)) = Some dl"
  using assms
  by (auto simp: poll_events_def next_event_def deadline_exceeded_def act_on_failure_def decide_failure_action_def
      decide_transport_error_def transient_def total_timeout_def is_total_timeout_def end_turn_def Let_def)

lemma late_step:
  assumes "tn_deadline t = Some dl" and "dl \<le> ob_now ob" and "tn_phase t \<noteq> Panicked"
  shows "tn_deadline (fst (turn_step env h ob t)) = Some dl \<and> tn_phase (fst (turn_step env h ob t)) \<noteq> Panicked \<and>
    steps_left (tn_phase (fst (turn_step env h ob t))) \<le> steps_left (tn_phase t) - 1"
proof (cases "tn_phase t")
  case (Gating waited)
  have "\<not> 0 < gate_wait h (ob_now ob) wait waited (tn_deadline t)" for wait
    using assms(1,2) by (simp add: gate_wait_def)
  then show ?thesis
    using assms(1) by (cases rule: gate_cases [of h ob waited t]) (auto simp: turn_step_def Gating open_stream_def)
next
  case Polling
  from late_poll [OF assms(1,2), of env h] show ?thesis by (auto simp: turn_step_def Polling)
next
  case (FallingBack o1)
  then show ?thesis
    using assms(1) by (auto simp: turn_step_def end_turn_def split: sum.split)
qed (use assms in \<open>auto simp: turn_step_def end_turn_def\<close>)

lemma late_run:
  "tn_deadline t = Some dl \<Longrightarrow> \<forall>ob \<in> set obs. dl \<le> ob_now ob \<Longrightarrow> tn_phase t \<noteq> Panicked \<Longrightarrow>
     steps_left (tn_phase (fst (run_turn env h obs t))) \<le> steps_left (tn_phase t) - length obs \<and>
     tn_phase (fst (run_turn env h obs t)) \<noteq> Panicked"
proof (induction obs arbitrary: t)
  case (Cons ob obs)
  let ?t1 = "fst (turn_step env h ob t)"
  have step: "tn_deadline ?t1 = Some dl \<and> tn_phase ?t1 \<noteq> Panicked \<and> steps_left (tn_phase ?t1) \<le> steps_left (tn_phase t) - 1"
    using Cons.prems by (intro late_step) simp_all
  then have rest: "steps_left (tn_phase (fst (run_turn env h obs ?t1))) \<le> steps_left (tn_phase ?t1) - length obs \<and>
      tn_phase (fst (run_turn env h obs ?t1)) \<noteq> Panicked"
    using Cons.prems by (intro Cons.IH) simp_all
  have same: "fst (run_turn env h (ob # obs) t) = fst (run_turn env h obs ?t1)" by (simp add: case_prod_beta)
  have "steps_left (tn_phase (fst (run_turn env h obs ?t1))) \<le> steps_left (tn_phase t) - length (ob # obs)"
    using rest step by (simp only: list.size(4)) linarith
  with rest show ?case unfolding same by blast
qed simp

text \<open>
  C14: a turn with a deadline ends. Wherever it is (at the limiter, in a sleep, in the middle of a
  stream that never stops), once its deadline has passed it needs at most four more steps, whatever
  the provider, the limiter and the cancel signal do in them.
\<close>

theorem past_deadline_turn_ends:
  assumes "tn_deadline t = Some dl" and "\<forall>ob \<in> set obs. dl \<le> ob_now ob" and "4 \<le> length obs"
    and "tn_phase t \<noteq> Panicked"
  shows "tn_phase (fst (run_turn env h obs t)) = Ended"
proof -
  have "steps_left (tn_phase t) \<le> 4" by (cases "tn_phase t") simp_all
  then have "steps_left (tn_phase (fst (run_turn env h obs t))) = 0"
    using late_run [OF assms(1,2,4), of env h] assms(3) by linarith
  then show ?thesis
    using late_run [OF assms(1,2,4), of env h] by (cases "tn_phase (fst (run_turn env h obs t))") simp_all
qed

theorem past_deadline_turn_ends_witness:
  "tn_phase (fst (run_turn plain_env new_handler (replicate 4 (observe (10 ^ 15) (PollNext (Some (Inr Ping)))))
     (start_turn (10 ^ 20) new_handler 1 2))) = Ended"
proof (rule past_deadline_turn_ends)
  show "tn_deadline (start_turn (10 ^ 20) new_handler 1 2 :: nat turn) = Some (300 * 10 ^ 9 + 1)"
    by (simp add: start_turn_def new_handler_def default_timeout_config_def checked_instant_def)
  show "\<forall>ob \<in> set (replicate 4 (observe (10 ^ 15) (PollNext (Some (Inr Ping))))). 300 * 10 ^ 9 + 1 \<le> ob_now ob"
    by (simp add: observe_def)
  show "tn_phase (start_turn (10 ^ 20) new_handler 1 2 :: nat turn) \<noteq> Panicked" by (simp add: start_turn_def)
qed simp

subsection \<open>Single failures\<close>

lemma permanent_failure:
  assumes "\<not> is_retryable e"
  shows "api_error_failure cal f g e =
      \<lparr>sf_error = HandlerStreamFailed (OutcomeInitFailed (show_api_error (df_option f) e) (ed_attempts g)), sf_retryable = False\<rparr>"
proof -
  have "detect cal e = None"
    using detect_retryable [of cal e] assms by (cases "detect cal e") auto
  then show ?thesis using assms by (simp add: api_error_failure_def)
qed

text \<open>
  C19: an error of the provider that is not worth a retry ends the turn at once: no sleep, no further
  attempt and no fallback request, however many retries are left; the driver reports its text.
\<close>

theorem permanent_error_ends_turn:
  assumes "tn_phase t = Polling" and "\<not> deadline_exceeded (ob_now ob) (tn_deadline t)" and "\<not> ob_cancelled ob"
    and "ob_poll ob = PollNext (Some (Inl e))" and "\<not> is_retryable e"
  shows "\<exists>t' err. turn_step env h ob t = (t', [Inl err]) \<and> tn_phase t' = Ended \<and>
    map_handler_error (te_format env) err =
      Api (''stream failed: stream failed before completing after '' @ show_nat (unat (ed_attempts (turn_diagnostics t))) @
        '' attempts: '' @ show_api_error (df_option (te_format env)) e)"
  using assms
  by (simp add: turn_step_def poll_events_def next_event_def permanent_failure act_on_failure_def
      decide_failure_action_def decide_transport_error_def end_turn_def Let_def)

theorem permanent_error_ends_turn_witness:
  "\<exists>t' err. turn_step plain_env new_handler (observe 3 (PollNext (Some (Inl (ApiAuth ''no'' None)))))
      (open_stream (start_turn 10 new_handler 1 2)) = (t', [Inl err]) \<and> tn_phase t' = Ended"
proof -
  have "lowercase ''no'' = ''no''" by (simp add: ascii_to_lower_def)
  then have permanent: "\<not> is_retryable (ApiAuth ''no'' None)" by (simp add: is_retryable_def retryable_codes_def)
  show ?thesis
    using permanent_error_ends_turn [of "open_stream (start_turn 10 new_handler 1 2)"
        "observe 3 (PollNext (Some (Inl (ApiAuth ''no'' None))))" "ApiAuth ''no'' None" plain_env new_handler] permanent
    by (auto simp: open_stream_def start_turn_def observe_def checked_instant_def deadline_exceeded_def
        new_handler_def default_timeout_config_def)
qed

lemma process_keeps_completed:
  "\<forall>i. ev \<noteq> PartStop i \<Longrightarrow> sa_completed (snd (process jl ev acc)) = sa_completed acc"
  by (cases ev) (simp_all add: process_def)

lemma process_all_keeps_completed:
  "\<forall>i. PartStop i \<notin> set events \<Longrightarrow> sa_completed (snd (process_all jl events acc)) = sa_completed acc"
proof (induction events arbitrary: acc)
  case (Cons ev events)
  obtain verdict acc1 where p: "process jl ev acc = (verdict, acc1)" by (rule prod.exhaust)
  have "sa_completed acc1 = sa_completed acc"
    using process_keeps_completed [of ev jl acc] Cons.prems p by auto
  then show ?case using Cons p by (auto split: sum.split)
qed simp

text \<open>
  A turn that fails reports partial data only when a part of the response was finished. Whatever
  text, reasoning or tool input has been received in parts that are still open, the outcome of a
  timeout says that there was none.
\<close>

theorem open_parts_are_not_partial_data:
  assumes "tn_shadow t = snd (process_all jl events new_accumulator)" and "\<forall>i. PartStop i \<notin> set events"
  shows "total_timeout now (turn_diagnostics t) = TotalTimeout False (tn_events t) (now - tn_start t) \<and>
    event_timeout n (turn_diagnostics t) = EventTimeout False n"
proof -
  have "sa_completed (tn_shadow t) = []"
    unfolding assms(1) process_all_keeps_completed [OF assms(2)] by (simp add: new_accumulator_def)
  then show ?thesis by (simp add: total_timeout_def event_timeout_def turn_diagnostics_def new_diagnostics_def)
qed

theorem open_parts_are_not_partial_data_witness:
  "total_timeout 9 (turn_diagnostics ((start_turn 10 new_handler 1 2 :: nat turn)\<lparr>tn_shadow :=
      snd (process_all (te_json plain_env) [PartStart 0 (Some (TextPart [])), IndexedDelta 0 (DeltaText ''half a story'')]
        new_accumulator)\<rparr>)) = TotalTimeout False 0 7"
  using open_parts_are_not_partial_data [of "(start_turn 10 new_handler 1 2 :: nat turn)\<lparr>tn_shadow :=
      snd (process_all (te_json plain_env) [PartStart 0 (Some (TextPart [])), IndexedDelta 0 (DeltaText ''half a story'')]
        new_accumulator)\<rparr>" "te_json plain_env"
      "[PartStart 0 (Some (TextPart [])), IndexedDelta 0 (DeltaText ''half a story'')]" 9 0]
  by (simp add: start_turn_def del: process_all.simps)

subsection \<open>The wait at the limiter\<close>

text \<open>What has been waited, with the sleep under way, stays within the limiter's maximum wait.\<close>

definition waits_within :: "stream_handler \<Rightarrow> 'v turn \<Rightarrow> bool" where
  "waits_within h t \<longleftrightarrow>
     (case tn_phase t of
        Gating waited \<Rightarrow> waited \<le> sh_rate_limit_max_wait h
      | GateSleeping waited capped \<Rightarrow> waited + capped \<le> sh_rate_limit_max_wait h
      | _ \<Rightarrow> True)"

lemma gate_wait_within: "waited < sh_rate_limit_max_wait h \<Longrightarrow> waited + gate_wait h now wait waited deadline \<le> sh_rate_limit_max_wait h"
  by (auto simp: gate_wait_def Let_def min_def split: option.split)

lemma waits_within_step [inv_intros]:
  assumes "waits_within h t"
  shows "waits_within h (fst (turn_step env h ob t))"
proof (cases "tn_phase t")
  case (Gating waited)
  show ?thesis
    using gate_wait_within [of waited h]
    by (cases rule: gate_cases [of h ob waited t]) (auto simp: turn_step_def Gating waits_within_def open_stream_def)
next
  case (GateSleeping waited capped)
  then show ?thesis using assms by (auto simp: turn_step_def waits_within_def end_turn_def)
next
  case Polling
  have act: "waits_within h (fst (act_on_failure env h ob f t1))" for f t1
    by (cases rule: act_cases [of env h ob f t1]) (auto simp: waits_within_def)
  show ?thesis
  proof (cases rule: poll_cases [of env h ob t])
    case (failed f t1)
    with act [of f t1] show ?thesis by (simp add: turn_step_def Polling)
  qed (auto simp: turn_step_def Polling waits_within_def)
qed (use assms in \<open>auto simp: turn_step_def waits_within_def end_turn_def split: sum.split\<close>)

lemma waits_within_run: "waits_within h t \<Longrightarrow> waits_within h (fst (run_turn env h obs t))"
proof (induction obs arbitrary: t)
  case (Cons ob obs)
  have "fst (run_turn env h (ob # obs) t) = fst (run_turn env h obs (fst (turn_step env h ob t)))"
    by (simp add: case_prod_beta)
  then show ?case using Cons.IH [OF waits_within_step [OF Cons.prems]] by simp
qed simp

subsection \<open>The race of the timers\<close>

text \<open>
  What a clock allows: time does not go back over a step, and a timer wins a race only where its deadline
  exists and has come. A timeout that leaves the range of the clock has no deadline and never fires.
\<close>

definition admissible :: "'v turn_env \<Rightarrow> stream_handler \<Rightarrow> 'v turn \<Rightarrow> 'v observation \<Rightarrow> bool" where
  "admissible env h t ob \<longleftrightarrow>
     ob_now ob \<le> ob_after ob \<and>
     (ob_poll ob = PollTimedOut \<longrightarrow>
        (case event_deadline (te_latest env) h (ob_now ob) (tn_events t) of Some d \<Rightarrow> d \<le> ob_after ob | None \<Rightarrow> False)) \<and>
     (ob_poll ob = PollDeadline \<longrightarrow> (case tn_deadline t of Some d \<Rightarrow> d \<le> ob_after ob | None \<Rightarrow> False)) \<and>
     (ob_fallback ob = FallbackDeadline \<longrightarrow>
        (case fallback_deadline (te_latest env) h (ob_now ob) (tn_deadline t) of Some d \<Rightarrow> d \<le> ob_after ob | None \<Rightarrow> False))"

lemma timed_out_waited:
  "admissible env h t ob \<Longrightarrow> ob_poll ob = PollTimedOut \<Longrightarrow>
     ob_now ob + (if tn_events t = 0 then st_initial_event_timeout (sh_timeout h) else st_per_event_timeout (sh_timeout h))
       \<le> ob_after ob"
  by (auto simp: admissible_def event_deadline_def checked_instant_def split: if_splits)

text \<open>The pass-through handler of the driver: no timer ever fires, and there is one attempt.\<close>

lemma passthrough_never_times_out:
  assumes "te_latest env < duration_max" and "admissible env passthrough t ob"
    and "tn_deadline t = tn_deadline (start_turn (te_latest env) passthrough now started)"
  shows "ob_poll ob \<noteq> PollTimedOut \<and> ob_poll ob \<noteq> PollDeadline"
  using assms
  by (auto simp: admissible_def event_deadline_def checked_instant_def start_turn_def passthrough_def split: if_splits)

lemma passthrough_single_attempt:
  "resets (snd (run_turn env passthrough obs (start_turn latest passthrough now started))) = 0"
proof -
  have zero: "rate_limit_budget passthrough = 0" "sr_max_retries (sh_retry passthrough) = 0"
    by (simp_all add: rate_limit_budget_def passthrough_def)
  then have "rate_limit_budget passthrough < - 1" by (simp add: word_less_nat_alt)
  from run_spends [OF this start_spends, of env obs latest now started] show ?thesis
    by (simp add: spent_within_def Let_def zero)
qed

end
