(* ===== verification/Drive_Loop.thy ===== *)
theory Drive_Loop
  imports Prune Stream_Turn
begin

section \<open>The drive loop\<close>

text \<open>
  src/src/engine/bare.rs, \<open>drive_steps\<close> and the two handlers it calls besides the compaction of
  \<open>Driver\<close>: \<open>handle_call_llm\<close> and \<open>handle_call_tools\<close>. What the handlers get from outside
  the driver is a record: the answer of the fallback manager, the steering messages drained, the
  transient messages and advertised overhead of the prepared turn, the served turn or the error, the
  verdict of the detector, the results of the dispatched calls. The turn numbers of the stash of a
  prepared turn are not modelled: whether assembling a turn met a changed tool surface, and so
  dropped the usage anchor, is an input, and it is false when the stash was served. Observer events,
  spans, the audit record of the turn and the budget's and breaker's own bookkeeping are left out.
\<close>

subsection \<open>The model call\<close>

record 'v call_inputs =
  ci_routing :: "unit result"
  ci_steered :: "'v message list"
  ci_transient :: "'v message list"
  ci_advertised :: u64
  ci_surface_changed :: bool
  ci_signalled :: bool
  ci_prune :: "prune_config option"
  ci_switched :: "bool result"
  ci_outcome :: "'v turn_serving result"
  ci_total_turns :: nat
  ci_detected :: "loop_error option"
  ci_tools :: "string list"

fun engine_stop_reason :: "stream_stop_reason \<Rightarrow> bool \<Rightarrow> stop_reason" where
  "engine_stop_reason stream_stop_reason.StopToolCall without_calls = stop_reason.StopToolCall"
| "engine_stop_reason StopMaxTokens without_calls = MaxTokens"
| "engine_stop_reason stream_stop_reason.StopSequence without_calls = stop_reason.StopSequence"
| "engine_stop_reason StopEndTurn without_calls = (if without_calls then EndTurn else stop_reason.StopToolCall)"

definition reported :: "(Stream.usage \<Rightarrow> u32) \<Rightarrow> Stream.usage option \<Rightarrow> u64" where
  "reported field us = (case us of Some u \<Rightarrow> ucast (field u) | None \<Rightarrow> 0)"

text \<open>The drain of the steering queue: an assembled turn no longer matches the history.\<close>

definition steer :: "'v message list \<Rightarrow> 'v driver \<Rightarrow> 'v driver" where
  "steer steered d =
     (if steered = [] then d
      else d\<lparr>dr_machine := foldl (\<lambda>m msg. inject msg m) (dr_machine d) steered, dr_prepared_turn := False,
             dr_anchor := None\<rparr>)"

definition take_prepared_turn :: "bool \<Rightarrow> 'v driver \<Rightarrow> 'v driver" where
  "take_prepared_turn surface_changed d =
     d\<lparr>dr_prepared_turn := False, dr_anchor := if surface_changed then None else dr_anchor d\<rparr>"

text \<open>
  What becomes of a served turn: an empty one cut off at the output limit is salvaged, one the
  detector stops ends the run, any other is fed to the machine with the figure of the conversation it
  extends.
\<close>

definition serve_response :: "usize \<Rightarrow> 'v call_inputs \<Rightarrow> 'v turn_serving \<Rightarrow> 'v driver \<Rightarrow> unit result \<times> 'v driver" where
  "serve_response turn ci sv d =
     (let msg = sv_message sv; no_calls = tool_call_parts msg = [] in
      if no_calls \<and> trim (text_content msg) = [] \<and> sv_stop_reason sv = StopMaxTokens
      then truncation_salvage turn d
      else
        (case ci_detected ci of
           Some e \<Rightarrow> (Inl e, d)
         | None \<Rightarrow>
             (let response = \<lparr>mr_message = msg, mr_input_tokens = reported us_input (sv_usage sv),
                    mr_output_tokens = reported us_output (sv_usage sv),
                    mr_stop_reason = engine_stop_reason (sv_stop_reason sv) no_calls, available_tools = ci_tools ci\<rparr>;
                  figure = driver_figure d
                    (sat_add (sat_add (count_context d (full_history (dr_machine d) @ [msg])) (ci_advertised ci))
                       (count_context d (ci_transient ci)))
              in (Inr (), d\<lparr>dr_machine := model_response response figure (dr_machine d)\<rparr>))))"

definition handle_call_llm :: "usize \<Rightarrow> 'v call_inputs \<Rightarrow> 'v driver \<Rightarrow> unit result \<times> 'v driver" where
  "handle_call_llm turn ci d =
     (case ci_routing ci of
        Inl e \<Rightarrow> (Inl e, d)
      | Inr _ \<Rightarrow>
          (case pre_request (ci_signalled ci) (ci_prune ci) (ci_advertised ci) (ci_transient ci)
                  (take_prepared_turn (ci_surface_changed ci) (steer (ci_steered ci) d)) of
             (Inl e, d1) \<Rightarrow> (Inl e, d1)
           | (Inr False, d1) \<Rightarrow> (Inr (), d1)
           | (Inr True, d1) \<Rightarrow>
               (case ci_switched ci of
                  Inl e \<Rightarrow> (Inl e, d1)
                | Inr switched \<Rightarrow>
                    (let d2 = (if switched then d1\<lparr>dr_anchor := None\<rparr> else d1)
                     in case ci_outcome ci of
                          Inl e \<Rightarrow>
                            (case overflow_salvage turn e d2 of
                               (Some salvage, d3) \<Rightarrow> (salvage, d3)
                             | (None, d3) \<Rightarrow> (Inl e, d3))
                        | Inr sv \<Rightarrow>
                            serve_response turn ci sv
                              (learn_turn_usage (reported us_input (sv_usage sv)) (ci_total_turns ci) d2)))))"

subsection \<open>The tool phase\<close>

record 'v tool_inputs =
  ti_dispatched :: "'v message_part list result"
  ti_transient :: "'v message list"
  ti_advertised :: u64
  ti_surface_changed :: bool

text \<open>
  The slots of the results, in the order of the calls: a call the machine answered itself keeps its
  first part, the others take what the dispatch returned, in turn.
\<close>

definition ready_part :: "'v pending_tool_call \<Rightarrow> 'v message_part option" where
  "ready_part c =
     (case preresolved_result c of
        Some msg \<Rightarrow> (case msg_parts msg of part # _ \<Rightarrow> Some part | [] \<Rightarrow> None)
      | None \<Rightarrow> None)"

fun fill_slots :: "'v pending_tool_call list \<Rightarrow> 'v message_part list \<Rightarrow> 'v message_part list" where
  "fill_slots [] dispatched = []"
| "fill_slots (c # cs) dispatched =
     (case ready_part c of
        Some part \<Rightarrow> part # fill_slots cs dispatched
      | None \<Rightarrow>
          (case dispatched of
             [] \<Rightarrow> fill_slots cs []
           | part # rest \<Rightarrow> part # fill_slots cs rest))"

definition handle_call_tools ::
  "'v pending_tool_call list \<Rightarrow> 'v tool_inputs \<Rightarrow> 'v driver \<Rightarrow> unit result \<times> 'v driver" where
  "handle_call_tools calls ti d =
     (case ti_dispatched ti of
        Inl e \<Rightarrow> (Inl e, d)
      | Inr parts \<Rightarrow>
          (let d1 = d\<lparr>dr_machine := tool_results [new_message User (fill_slots calls parts)] (dr_machine d),
                      dr_anchor := if ti_surface_changed ti then None else dr_anchor d\<rparr>
           in (Inr (), (feed_payload (ti_advertised ti) (ti_transient ti) d1)\<lparr>dr_prepared_turn := True\<rparr>)))"

subsection \<open>One pass of the loop\<close>

record 'v pass_inputs =
  pi_call :: "'v call_inputs"
  pi_tools :: "'v tool_inputs"
  pi_cancellation :: cancellation
  pi_hook :: pre_compact_answer

text \<open>
  What the end of the steps answers: the text of the run, or the error. \<open>None\<close>: the loop goes on. The
  message of an outcome that no error stands for leaves out the debug form of the outcome; the machine
  never ends with one.
\<close>

definition settle_arm :: "unit result \<times> 'v driver \<Rightarrow> string result option \<times> 'v driver" where
  "settle_arm served =
     (case served of
        (Inl e, d) \<Rightarrow> (Some (Inl e), set_error_state e d)
      | (Inr _, d) \<Rightarrow> (None, d))"

definition end_of_steps :: "usize \<Rightarrow> machine_outcome \<Rightarrow> string result" where
  "end_of_steps n outcome =
     (case outcome of
        machine_outcome.Completed final_text \<Rightarrow> Inr final_text
      | other \<Rightarrow> Inl (case to_loop_error n other of Some e \<Rightarrow> e | None \<Rightarrow> InternalError ''unmapped terminal outcome''))"

definition drive_step :: "'v pass_inputs \<Rightarrow> 'v driver \<Rightarrow> string result option \<times> 'v driver" where
  "drive_step inputs d =
     (case next_step (driver_policy d) (dr_machine d) of
        (CallLLM turn, m) \<Rightarrow> settle_arm (handle_call_llm turn (pi_call inputs) (d\<lparr>dr_machine := m\<rparr>))
      | (CallTools turn calls, m) \<Rightarrow> settle_arm (handle_call_tools calls (pi_tools inputs) (d\<lparr>dr_machine := m\<rparr>))
      | (CompactStep reason, m) \<Rightarrow>
          (case serve_compaction (pi_cancellation inputs) (pi_hook inputs) reason (d\<lparr>dr_machine := m\<rparr>) of
             (Inl e, d1) \<Rightarrow> (Some (Inl e), d1)
           | (Inr _, d1) \<Rightarrow> (None, d1))
      | (Done outcome, m) \<Rightarrow> (Some (end_of_steps (dr_max_turns d) outcome), d\<lparr>dr_machine := m\<rparr>))"

text \<open>The loop over a stream of inputs, with fuel: \<open>None\<close> when the fuel ran out.\<close>

fun drive_steps :: "nat \<Rightarrow> (nat \<Rightarrow> 'v pass_inputs) \<Rightarrow> 'v driver \<Rightarrow> (string result \<times> 'v driver) option" where
  "drive_steps 0 inputs d = None"
| "drive_steps (Suc fuel) inputs d =
     (case drive_step (inputs 0) d of
        (Some answer, d1) \<Rightarrow> Some (answer, d1)
      | (None, d1) \<Rightarrow> drive_steps fuel (\<lambda>i. inputs (Suc i)) d1)"

subsection \<open>What a pass leaves alone\<close>

text \<open>What no part of a pass changes: the policy, the counter, and outside a salvage the two retry marks.\<close>

definition same_frame :: "'v driver \<Rightarrow> 'v driver \<Rightarrow> bool" where
  "same_frame d d' \<longleftrightarrow>
     dr_max_turns d' = dr_max_turns d \<and> dr_context_window d' = dr_context_window d \<and>
     dr_declared_window d' = dr_declared_window d \<and> dr_threshold d' = dr_threshold d \<and> dr_auto d' = dr_auto d \<and>
     map_option cm_counter (dr_manager d') = map_option cm_counter (dr_manager d) \<and> dr_counter d' = dr_counter d \<and>
     dr_overflow_retry d' = dr_overflow_retry d \<and> dr_truncation_retry d' = dr_truncation_retry d"

lemma same_frame_trans: "same_frame d d' \<Longrightarrow> same_frame d' d'' \<Longrightarrow> same_frame d d''"
  by (simp add: same_frame_def)

lemma same_frameD:
  assumes "same_frame d d'"
  shows "driver_policy d' = driver_policy d" "count_context d' = count_context d"
    "dr_overflow_retry d' = dr_overflow_retry d" "dr_truncation_retry d' = dr_truncation_retry d"
proof -
  show "driver_policy d' = driver_policy d"
    using assms by (simp add: same_frame_def driver_policy_def effective_context_window_def split: option.split)
  show "count_context d' = count_context d"
    using assms by (intro ext) (cases "dr_manager d"; cases "dr_manager d'"; simp add: same_frame_def count_context_def)
qed (use assms in \<open>simp_all add: same_frame_def\<close>)

lemma driver_policy_updates [simp]:
  "driver_policy (d\<lparr>dr_machine := m\<rparr>) = driver_policy d"
  "driver_policy (d\<lparr>dr_salvage_target := target\<rparr>) = driver_policy d"
  "driver_policy (d\<lparr>dr_prepared_turn := b\<rparr>) = driver_policy d"
  by (rule same_frameD(1); simp add: same_frame_def)+

lemma frame_sync: "same_frame d (sync_manager_window w d)"
  by (simp add: sync_manager_window_def Let_def same_frame_def with_context_window_def split: option.split)

lemma frame_learn: "same_frame d (learn_turn_usage input_tokens total_turns d)"
proof -
  obtain cal anchor where learnt: "learn_from_usage input_tokens total_turns (dr_calibration d, dr_anchor d) = (cal, anchor)"
    by (rule prod.exhaust)
  let ?d1 = "d\<lparr>dr_calibration := cal, dr_anchor := anchor\<rparr>"
  have "same_frame d ?d1" by (simp add: same_frame_def)
  with same_frame_trans [OF this frame_sync] show ?thesis by (simp add: learn_turn_usage_def learnt Let_def)
qed

lemma learn_machine [simp]: "dr_machine (learn_turn_usage input_tokens total_turns d) = dr_machine d"
  by (simp add: learn_turn_usage_def Let_def sync_manager_window_def split: prod.split option.split)

lemma frame_steer: "same_frame d (steer steered d)"
  by (simp add: steer_def same_frame_def)

lemma frame_take: "same_frame d (take_prepared_turn changed d)"
  by (simp add: take_prepared_turn_def same_frame_def)

lemma frame_feed: "same_frame d (feed_payload advertised extra d)"
  by (simp add: feed_payload_def same_frame_def)

lemma frame_prune: "maybe_prune signalled config d = (res, d') \<Longrightarrow> same_frame d d'"
  by (cases rule: maybe_prune_cases [of signalled config d]) (auto simp: same_frame_def)

lemma frame_handle_compact:
  assumes "handle_compact Uncancelled hook reason d = (r, d')"
  shows "same_frame d d'"
proof -
  let ?d1 = "snd (compaction_pass hook (unat (turns_taken (dr_machine d))) reason (d\<lparr>dr_anchor := None\<rparr>))"
  have d1: "same_frame d ?d1"
    using pass_keeps_driver [of hook "unat (turns_taken (dr_machine d))" reason "d\<lparr>dr_anchor := None\<rparr>"]
    by (elim insertE emptyE) (simp_all add: same_frame_def)
  obtain outcome where run: "run_compaction hook (unat (turns_taken (dr_machine d))) reason (d\<lparr>dr_anchor := None\<rparr>) = (outcome, ?d1)"
    using run_compaction_driver by (metis prod.collapse)
  have "same_frame ?d1 d'"
    using assms run
    by (cases outcome) (auto simp: handle_compact_def Let_def same_frame_def split: option.splits)
  with d1 show ?thesis by (rule same_frame_trans)
qed

subsection \<open>Preparing a request\<close>

text \<open>
  The machine between the poll that asked for a model call and the answer: the turn it waits with,
  neither cancelled nor out of turns. Preparing the request keeps all of this until the poll that may
  ask for a compaction instead.
\<close>

definition waiting :: "machine_policy \<Rightarrow> usize \<Rightarrow> 'v loop_machine \<Rightarrow> bool" where
  "waiting p t m \<longleftrightarrow> mstate m = AwaitingModel t \<and> \<not> cancelled m \<and> turns_taken m < max_turns p"

definition keeps_run :: "'v loop_machine \<Rightarrow> 'v loop_machine \<Rightarrow> bool" where
  "keeps_run m m' \<longleftrightarrow> turns_taken m' = turns_taken m \<and> cancelled m' = cancelled m \<and>
     deferred_compaction m' = deferred_compaction m"

lemma keeps_run_trans: "keeps_run m m' \<Longrightarrow> keeps_run m' m'' \<Longrightarrow> keeps_run m m''"
  by (simp add: keeps_run_def)

lemma waiting_live: "waiting p t m \<Longrightarrow> \<not> is_terminal m"
  by (simp add: waiting_def is_terminal_def)

lemma model_poll:
  assumes "next_step p m = (CallLLM t, m')"
  shows "m' = m\<lparr>mstate := AwaitingModel t\<rparr>" and "waiting p t m'"
    and "mstate m = Start \<and> t = turns_taken m \<or> mstate m = AwaitingModel t"
  using assms by (cases "mstate m"; cases "cancelled m";
    auto simp: waiting_def next_step_def request_model_def Let_def not_le split: if_splits)+

lemma waiting_poll:
  assumes "waiting p t m"
  obtains (call) "next_step p m = (CallLLM t, m)"
  | (compact) c where "next_step p m = (CompactStep c, m\<lparr>mstate := AwaitingCompaction c\<rparr>)"
      and "c = ThresholdExceeded \<Longrightarrow> \<not> deferred_compaction m"
proof -
  have "m\<lparr>mstate := AwaitingModel t\<rparr> = m" using assms by (cases m) (simp add: waiting_def)
  then have poll: "next_step p m =
      (if is_emergency p m then (CompactStep Emergency, m\<lparr>mstate := AwaitingCompaction Emergency\<rparr>)
       else if auto_compact p \<and> \<not> deferred_compaction m \<and> should_compact p m
       then (CompactStep ThresholdExceeded, m\<lparr>mstate := AwaitingCompaction ThresholdExceeded\<rparr>)
       else (CallLLM t, m))"
    using assms by (simp add: waiting_def next_step_def request_model_def not_le [symmetric])
  show thesis
  proof (cases "is_emergency p m")
    case True
    then show thesis by (intro compact [of Emergency]) (simp_all add: poll)
  next
    case False
    show thesis
    proof (cases "auto_compact p \<and> \<not> deferred_compaction m \<and> should_compact p m")
      case True
      then show thesis using False by (intro compact [of ThresholdExceeded]) (simp_all add: poll)
    next
      case no: False
      then have "next_step p m = (CallLLM t, m)" using False by (auto simp: poll)
      then show thesis by (rule call)
    qed
  qed
qed

lemma waiting_tokens:
  "waiting p t m \<Longrightarrow> waiting p t (set_context_tokens n m)" "keeps_run m (set_context_tokens n m)"
  by (simp_all add: waiting_def keeps_run_def set_context_tokens_def)

lemma waiting_pruned:
  "waiting p t m \<Longrightarrow> waiting p t (adopt_pruned ms k m)" "keeps_run m (adopt_pruned ms k m)"
  by (simp_all add: waiting_def keeps_run_def adopt_pruned_def Let_def)

lemma waiting_inject:
  "waiting p t m \<Longrightarrow> waiting p t (inject msg m)" "keeps_run m (inject msg m)"
  by (simp_all add: waiting_def keeps_run_def inject_def)

text \<open>The conversation a pass over finished tool results leaves.\<close>

definition pruned_or_same :: "('v message list \<Rightarrow> u64) \<Rightarrow> 'v message list \<Rightarrow> 'v message list \<Rightarrow> bool" where
  "pruned_or_same counter ms ms' \<longleftrightarrow> ms' = ms \<or>
     (\<exists>c minimum_free cleared reclaimed. plan_prune counter ms c minimum_free = Some (ms', cleared, reclaimed))"

lemma pre_request_outcome:
  assumes "pre_request signalled config advertised extra d = (Inr sent, d')"
    and "waiting (driver_policy d) t (dr_machine d)"
  shows "same_frame d d'" and "keeps_run (dr_machine d) (dr_machine d')"
    and "prepares (driver_policy d) (dr_machine d) (dr_machine d')"
    and "sent \<Longrightarrow> waiting (driver_policy d) t (dr_machine d')"
    and "\<not> sent \<Longrightarrow> \<exists>c. mstate (dr_machine d') = AwaitingCompaction c \<and>
      (c = ThresholdExceeded \<longrightarrow> \<not> deferred_compaction (dr_machine d))"
    and "pruned_or_same (count_context d) (full_history (dr_machine d)) (full_history (dr_machine d'))"
proof -
  let ?p = "driver_policy d" and ?m = "dr_machine d"
  let ?f = "feed_payload advertised extra"
  obtain changed d1 where pass: "maybe_prune signalled config (?f d) = (Inr changed, d1)"
    using assms(1) by (auto simp: pre_request_def split: prod.splits sum.splits)
  define d2 where "d2 = (if changed then ?f d1 else d1)"
  have fed: "dr_machine (?f d') = set_context_tokens (driver_figure d' (request_payload advertised extra d')) (dr_machine d')"
    for d' :: "'a driver" by (simp add: feed_payload_def)
  have frame: "same_frame d d2"
    using same_frame_trans [OF same_frame_trans [OF frame_feed frame_prune [OF pass]] frame_feed]
      same_frame_trans [OF frame_feed frame_prune [OF pass]] by (simp add: d2_def)
  have before: "waiting ?p t (dr_machine (?f d)) \<and> keeps_run ?m (dr_machine (?f d)) \<and> prepares ?p ?m (dr_machine (?f d))"
    unfolding fed using waiting_tokens assms(2) by (blast intro: prepares.intros)
  have first: "waiting ?p t (dr_machine d1) \<and> keeps_run ?m (dr_machine d1) \<and> prepares ?p ?m (dr_machine d1) \<and>
      pruned_or_same (count_context d) (full_history ?m) (full_history (dr_machine d1))"
  proof (cases rule: maybe_prune_cases [of signalled config "?f d"])
    case (pruned c ms cleared reclaimed)
    have "length ms = length (full_history (dr_machine (?f d)))"
      using arg_cong [OF prune_shape(1) [OF pruned(3)], of length] by simp
    moreover have machine: "dr_machine d1 = adopt_pruned ms (length (history (dr_machine (?f d)))) (dr_machine (?f d))"
      using pruned(5) pass by auto
    moreover have "\<not> is_terminal (dr_machine (?f d))" using before waiting_live by blast
    ultimately have whole: "full_history (dr_machine d1) = ms" by (simp add: adopt_pruned_history(1))
    have "waiting ?p t (dr_machine d1)" "keeps_run ?m (dr_machine d1)" "prepares ?p ?m (dr_machine d1)"
      unfolding machine using before waiting_pruned(1) keeps_run_trans [OF _ waiting_pruned(2)] prep_pruned by blast+
    moreover have "pruned_or_same (count_context d) (full_history ?m) ms"
      using pruned(3) unfolding pruned_or_same_def by auto
    ultimately show ?thesis unfolding whole by blast
  qed (use before pass in \<open>auto simp: pruned_or_same_def\<close>)
  then have measured: "waiting ?p t (dr_machine d2) \<and> keeps_run ?m (dr_machine d2) \<and> prepares ?p ?m (dr_machine d2) \<and>
      pruned_or_same (count_context d) (full_history ?m) (full_history (dr_machine d2))"
    unfolding d2_def
    by (cases changed) (simp_all add: fed set_context_tokens_keeps waiting_tokens(1)
        keeps_run_trans [OF _ waiting_tokens(2)] prep_tokens)
  have policy: "driver_policy d2 = ?p" by (rule same_frameD(1) [OF frame])
  have outcome: "(case next_step ?p (dr_machine d2) of (step, m) \<Rightarrow>
      let d3 = d2\<lparr>dr_machine := m\<rparr> in
      if (case step of CompactStep _ \<Rightarrow> True | _ \<Rightarrow> False)
      then (Inr False, d3\<lparr>dr_deferred_transient_tokens := count_context d3 extra, dr_anchor := None\<rparr>)
      else (Inr True, d3\<lparr>dr_calibration :=
              note_prediction (request_payload advertised extra d3) (dr_calibration d3)\<rparr>)) = (Inr sent :: bool result, d')"
    using assms(1) unfolding pre_request_def pass prod.case sum.case Let_def d2_def [symmetric] policy .
  from measured have "waiting ?p t (dr_machine d2)" by blast
  then have "same_frame d d' \<and> keeps_run ?m (dr_machine d') \<and> prepares ?p ?m (dr_machine d') \<and>
      (sent \<longrightarrow> waiting ?p t (dr_machine d')) \<and>
      (\<not> sent \<longrightarrow> (\<exists>c. mstate (dr_machine d') = AwaitingCompaction c \<and> (c = ThresholdExceeded \<longrightarrow> \<not> deferred_compaction ?m))) \<and>
      pruned_or_same (count_context d) (full_history ?m) (full_history (dr_machine d'))"
  proof (cases rule: waiting_poll)
    case call
    then have "sent" "dr_machine d' = dr_machine d2" "same_frame d2 d'"
      using outcome by (auto simp: Let_def same_frame_def)
    then show ?thesis using measured same_frame_trans [OF frame] by simp
  next
    case (compact c)
    then have "\<not> sent" "dr_machine d' = (dr_machine d2)\<lparr>mstate := AwaitingCompaction c\<rparr>" "same_frame d2 d'"
      using outcome by (auto simp: Let_def same_frame_def)
    then show ?thesis
      using measured same_frame_trans [OF frame] prep_poll [of ?p ?m "dr_machine d2"] compact
      by (auto simp: keeps_run_def full_history_def)
  qed
  then show "same_frame d d'" "keeps_run (dr_machine d) (dr_machine d')"
    "prepares (driver_policy d) (dr_machine d) (dr_machine d')"
    "sent \<Longrightarrow> waiting (driver_policy d) t (dr_machine d')"
    "\<not> sent \<Longrightarrow> \<exists>c. mstate (dr_machine d') = AwaitingCompaction c \<and>
      (c = ThresholdExceeded \<longrightarrow> \<not> deferred_compaction (dr_machine d))"
    "pruned_or_same (count_context d) (full_history (dr_machine d)) (full_history (dr_machine d'))" by blast+
qed

subsection \<open>What a model call may do\<close>

text \<open>A salvage spends one of the two retries of its turn, and what it leaves asks again or for a pass.\<close>

definition salvaged :: "usize \<Rightarrow> 'v driver \<Rightarrow> 'v driver \<Rightarrow> bool" where
  "salvaged t d d' \<longleftrightarrow>
     driver_policy d' = driver_policy d \<and> keeps_run (dr_machine d) (dr_machine d') \<and>
     prepares (driver_policy d) (dr_machine d) (dr_machine d') \<and>
     (mstate (dr_machine d') = AwaitingModel t \<or> (\<exists>c. mstate (dr_machine d') = AwaitingCompaction c)) \<and>
     (dr_overflow_retry d \<noteq> Some t \<and> dr_overflow_retry d' = Some t \<and> dr_truncation_retry d' = dr_truncation_retry d \<or>
      dr_truncation_retry d \<noteq> Some t \<and> dr_truncation_retry d' = Some t \<and> dr_overflow_retry d' = dr_overflow_retry d)"

lemma request_shrink_outcome:
  assumes "request_shrink d = (True, d')" and "waiting (driver_policy d) t (dr_machine d)"
  shows "same_frame d d' \<and> keeps_run (dr_machine d) (dr_machine d') \<and>
    prepares (driver_policy d) (dr_machine d) (dr_machine d') \<and> (\<exists>c. mstate (dr_machine d') = AwaitingCompaction c)"
proof -
  let ?m1 = "set_context_tokens (sat_add (effective_context_window d) 1) (dr_machine d)"
  let ?d1 = "d\<lparr>dr_salvage_target := Some (salvage_line d), dr_machine := ?m1\<rparr>"
  have frame: "same_frame d ?d1" by (simp add: same_frame_def)
  have policy: "driver_policy ?d1 = driver_policy d" by (rule same_frameD(1) [OF frame])
  have asked: "(case next_step (driver_policy d) ?m1 of (step, m) \<Rightarrow>
      (case step of CompactStep _ \<Rightarrow> True | _ \<Rightarrow> False, ?d1\<lparr>dr_machine := m\<rparr>)) = (True, d')"
    using assms(1) by (auto simp: request_shrink_def Let_def policy split: if_splits)
  have "waiting (driver_policy d) t ?m1" using assms(2) by (rule waiting_tokens)
  then show ?thesis
  proof (cases rule: waiting_poll)
    case call
    then show ?thesis using asked by simp
  next
    case (compact c)
    have machine: "dr_machine d' = snd (next_step (driver_policy d) ?m1)" and frame': "same_frame ?d1 d'"
      using asked compact(1) by (auto simp: same_frame_def)
    have "prepares (driver_policy d) (dr_machine d) (dr_machine d')"
      unfolding machine by (intro prep_poll prep_tokens prep_none)
    moreover have "keeps_run (dr_machine d) (dr_machine d')"
      unfolding machine compact(1) by (simp add: keeps_run_def set_context_tokens_def)
    moreover have "mstate (dr_machine d') = AwaitingCompaction c" unfolding machine compact(1) by simp
    ultimately show ?thesis using same_frame_trans [OF frame frame'] by blast
  qed
qed

lemma truncation_outcome:
  assumes "truncation_salvage t d = (Inr (), d')" and "waiting (driver_policy d) t (dr_machine d)"
  shows "salvaged t d d'"
proof -
  let ?d0 = "d\<lparr>dr_truncation_retry := Some t\<rparr>"
  have policy: "driver_policy ?d0 = driver_policy d"
    by (simp add: driver_policy_def effective_context_window_def split: option.split)
  obtain d1 where fresh: "dr_truncation_retry d \<noteq> Some t" and shrink: "request_shrink ?d0 = (True, d1)"
    and d': "d' = d1\<lparr>dr_anchor := None\<rparr>"
    using assms(1) by (auto simp: truncation_salvage_def split: if_splits prod.splits)
  from request_shrink_outcome [OF shrink, of t] assms(2) policy
  have out: "same_frame ?d0 d1" "keeps_run (dr_machine d) (dr_machine d1)"
    "prepares (driver_policy d) (dr_machine d) (dr_machine d1)" "\<exists>c. mstate (dr_machine d1) = AwaitingCompaction c"
    by simp_all
  from out(1) have "same_frame ?d0 d'" by (simp add: d' same_frame_def)
  from same_frameD [OF this] policy out(2-4) fresh show ?thesis by (simp add: salvaged_def d')
qed

lemma overflow_outcome:
  assumes "overflow_salvage t e d = (Some (Inr ()), d')" and "waiting (driver_policy d) t (dr_machine d)"
  shows "salvaged t d d'"
proof -
  let ?d0 = "d\<lparr>dr_overflow_retry := Some t\<rparr>"
  have policy: "driver_policy ?d0 = driver_policy d"
    by (simp add: driver_policy_def effective_context_window_def split: option.split)
  obtain compacted d1 where shrink: "request_shrink ?d0 = (compacted, d1)" by (rule prod.exhaust)
  have fresh: "dr_overflow_retry d \<noteq> Some t" and go: "compacted \<or> \<not> 1 < length (full_history (dr_machine d))"
    and d': "d' = (if 1 < length (full_history (dr_machine d)) then d1
      else d1\<lparr>dr_machine := set_context_tokens (driver_figure d1
          (sat_add (count_context d1 (full_history (dr_machine d1))) (request_overhead_tokens d1)))
        (dr_machine d1)\<rparr>)\<lparr>dr_anchor := None\<rparr>"
    using assms(1) shrink by (auto simp: overflow_salvage_def Let_def split: if_splits)
  show ?thesis
  proof (cases "1 < length (full_history (dr_machine d))")
    case True
    with go shrink have "request_shrink ?d0 = (True, d1)" by simp
    from request_shrink_outcome [OF this, of t] assms(2) policy
    have out: "same_frame ?d0 d1" "keeps_run (dr_machine d) (dr_machine d1)"
      "prepares (driver_policy d) (dr_machine d) (dr_machine d1)" "\<exists>c. mstate (dr_machine d1) = AwaitingCompaction c"
      by simp_all
    from out(1) have "same_frame ?d0 d'" using True by (simp add: d' same_frame_def)
    from same_frameD [OF this] policy out(2-4) fresh True show ?thesis by (simp add: salvaged_def d')
  next
    case False
    then have d1: "d1 = ?d0" using shrink by (simp add: request_shrink_def)
    let ?m = "set_context_tokens (driver_figure d1 (sat_add (count_context d1 (full_history (dr_machine d1)))
      (request_overhead_tokens d1))) (dr_machine d)"
    have m: "dr_machine d' = ?m" using False by (simp add: d' d1)
    have "prepares (driver_policy d) (dr_machine d) ?m" by (intro prep_tokens prep_none)
    moreover have "same_frame ?d0 d'" using False by (simp add: d' d1 same_frame_def)
    moreover have "waiting (driver_policy d) t ?m" "keeps_run (dr_machine d) ?m"
      using assms(2) waiting_tokens by blast+
    ultimately show ?thesis using same_frameD [of ?d0 d'] policy fresh by (simp add: salvaged_def m waiting_def)
  qed
qed

lemma steer_outcome:
  assumes "waiting p t (dr_machine d)"
  shows "waiting p t (dr_machine (steer steered d)) \<and> keeps_run (dr_machine d) (dr_machine (steer steered d)) \<and>
    prepares p (dr_machine d) (dr_machine (steer steered d))"
proof -
  have "waiting p t (foldl (\<lambda>m msg. inject msg m) m steered) \<and> keeps_run m0 (foldl (\<lambda>m msg. inject msg m) m steered) \<and>
      prepares p m0 (foldl (\<lambda>m msg. inject msg m) m steered)"
    if "waiting p t m" "keeps_run m0 m" "prepares p m0 m" for m m0 :: "'a loop_machine"
    using that
    by (induction steered arbitrary: m) (simp_all add: waiting_inject(1) keeps_run_trans [OF _ waiting_inject(2)] prep_inject)
  from this [OF assms, of "dr_machine d"] show ?thesis
    using assms by (simp add: steer_def keeps_run_def prep_none)
qed

lemma salvaged_after:
  assumes "same_frame d d1" and "keeps_run (dr_machine d) (dr_machine d1)"
    and "\<And>m. prepares (driver_policy d) (dr_machine d1) m \<Longrightarrow> prepares (driver_policy d) (dr_machine d) m"
    and "salvaged t d1 d'"
  shows "salvaged t d d'"
  using assms(4) same_frameD [OF assms(1)] keeps_run_trans [OF assms(2)] assms(3) by (simp add: salvaged_def)

lemma prepares_trans: "prepares p m' m'' \<Longrightarrow> prepares p m m' \<Longrightarrow> prepares p m m''"
  by (induction rule: prepares.induct) (simp_all add: prepares.intros)

lemma call_outcome:
  assumes "handle_call_llm t ci d = (Inr (), d')" and "waiting (driver_policy d) t (dr_machine d)"
  obtains (put_off) c where "same_frame d d'" "keeps_run (dr_machine d) (dr_machine d')"
      "prepares (driver_policy d) (dr_machine d) (dr_machine d')" "mstate (dr_machine d') = AwaitingCompaction c"
      "c = ThresholdExceeded \<Longrightarrow> \<not> deferred_compaction (dr_machine d)"
      "ci_steered ci = [] \<Longrightarrow>
        pruned_or_same (count_context d) (full_history (dr_machine d)) (full_history (dr_machine d'))"
  | (salvage) "salvaged t d d'"
  | (served) m2 r n where "dr_machine d' = model_response r n m2" "waiting (driver_policy d) t m2"
      "keeps_run (dr_machine d) m2" "prepares (driver_policy d) (dr_machine d) m2" "driver_policy d' = driver_policy d"
proof -
  let ?p = "driver_policy d"
  let ?d0 = "take_prepared_turn (ci_surface_changed ci) (steer (ci_steered ci) d)"
  have frame0: "same_frame d ?d0" by (rule same_frame_trans [OF frame_steer frame_take])
  have policy0: "driver_policy ?d0 = ?p" "count_context ?d0 = count_context d" using same_frameD [OF frame0] by simp_all
  have "dr_machine ?d0 = dr_machine (steer (ci_steered ci) d)" by (simp add: take_prepared_turn_def)
  with steer_outcome [OF assms(2), of "ci_steered ci"]
  have start: "waiting ?p t (dr_machine ?d0)" "keeps_run (dr_machine d) (dr_machine ?d0)" "prepares ?p (dr_machine d) (dr_machine ?d0)"
    and same: "ci_steered ci = [] \<Longrightarrow> dr_machine ?d0 = dr_machine d"
    by (simp_all add: steer_def)
  obtain sent d1 where pre: "pre_request (ci_signalled ci) (ci_prune ci) (ci_advertised ci) (ci_transient ci) ?d0 = (Inr sent, d1)"
    using assms(1) by (auto simp: handle_call_llm_def split: sum.splits prod.splits)
  note out = pre_request_outcome [OF pre, unfolded policy0, OF start(1)]
  have frame1: "same_frame d d1" by (rule same_frame_trans [OF frame0 out(1)])
  have run1: "keeps_run (dr_machine d) (dr_machine d1)" by (rule keeps_run_trans [OF start(2) out(2)])
  have prep1: "prepares ?p (dr_machine d) (dr_machine d1)" by (rule prepares_trans [OF out(3) start(3)])
  show thesis
  proof (cases sent)
    case False
    then have d': "d' = d1" using assms(1) pre by (auto simp: handle_call_llm_def split: sum.splits)
    obtain c where "mstate (dr_machine d1) = AwaitingCompaction c" "c = ThresholdExceeded \<longrightarrow> \<not> deferred_compaction (dr_machine ?d0)"
      using out(5) False by blast
    then have state: "mstate (dr_machine d') = AwaitingCompaction c" "c = ThresholdExceeded \<Longrightarrow> \<not> deferred_compaction (dr_machine d)"
      using start(2) by (simp_all add: d' keeps_run_def)
    have pruned: "ci_steered ci = [] \<Longrightarrow> pruned_or_same (count_context d) (full_history (dr_machine d)) (full_history (dr_machine d'))"
      using out(6) same by (simp add: d')
    show thesis by (rule put_off [OF _ _ _ state pruned]) (use frame1 run1 prep1 d' in simp_all)
  next
    case True
    obtain switched where switched: "ci_switched ci = Inr switched"
      using assms(1) pre True by (auto simp: handle_call_llm_def split: sum.splits)
    define d2 where "d2 = (if switched then d1\<lparr>dr_anchor := None\<rparr> else d1)"
    have d2: "same_frame d1 d2" "dr_machine d2 = dr_machine d1" by (simp_all add: d2_def same_frame_def)
    have call: "(case ci_outcome ci of
        Inl e \<Rightarrow> (case overflow_salvage t e d2 of (Some salvage, d3) \<Rightarrow> (salvage, d3) | (None, d3) \<Rightarrow> (Inl e, d3))
      | Inr sv \<Rightarrow> serve_response t ci sv
          (learn_turn_usage (reported us_input (sv_usage sv)) (ci_total_turns ci) d2)) = (Inr (), d')"
      using assms(1) pre True switched by (auto simp: handle_call_llm_def d2_def [symmetric] Let_def split: sum.splits)
    have wait2: "waiting ?p t (dr_machine d2)" using out(4) True d2(2) by simp
    have from_later: "salvaged t d d'" if "same_frame d1 d3" "dr_machine d3 = dr_machine d1" "salvaged t d3 d'" for d3
    proof (rule salvaged_after [OF same_frame_trans [OF frame1 that(1)] _ _ that(3)])
      show "keeps_run (dr_machine d) (dr_machine d3)" using run1 by (simp add: that(2))
      show "prepares ?p (dr_machine d) m" if "prepares ?p (dr_machine d3) m" for m
        using prepares_trans [OF that] prep1 by (simp add: \<open>dr_machine d3 = dr_machine d1\<close>)
    qed
    show thesis
    proof (cases "ci_outcome ci")
      case (Inl e)
      then have "overflow_salvage t e d2 = (Some (Inr ()), d')"
        using call by (auto split: prod.splits option.splits)
      moreover have "driver_policy d2 = ?p" using same_frameD(1) [OF same_frame_trans [OF frame1 d2(1)]] .
      ultimately have "salvaged t d2 d'" using wait2 by (intro overflow_outcome) simp_all
      then show thesis using salvage from_later [OF d2] by blast
    next
      case (Inr sv)
      let ?d3 = "learn_turn_usage (reported us_input (sv_usage sv)) (ci_total_turns ci) d2"
      have d3: "same_frame d1 ?d3" "dr_machine ?d3 = dr_machine d1"
        using same_frame_trans [OF d2(1) frame_learn] d2(2) by simp_all
      have policy3: "driver_policy ?d3 = ?p" by (rule same_frameD(1) [OF same_frame_trans [OF frame1 d3(1)]])
      have serve: "serve_response t ci sv ?d3 = (Inr (), d')" using call Inr by simp
      show thesis
      proof (cases "tool_call_parts (sv_message sv) = [] \<and> trim (text_content (sv_message sv)) = [] \<and> sv_stop_reason sv = StopMaxTokens")
        case cut: True
        then have "truncation_salvage t ?d3 = (Inr (), d')" using serve by (simp add: serve_response_def)
        then have "salvaged t ?d3 d'" using wait2 d2(2) policy3 d3(2) by (intro truncation_outcome) simp_all
        then show thesis using salvage from_later [OF d3] by blast
      next
        case whole: False
        then obtain r n where "d' = ?d3\<lparr>dr_machine := model_response r n (dr_machine ?d3)\<rparr>"
          using serve by (auto simp: serve_response_def Let_def split: option.splits if_splits)
        moreover have "driver_policy (?d3\<lparr>dr_machine := m\<rparr>) = ?p" for m
          by (simp add: policy3)
        ultimately show thesis
          using served [of r n "dr_machine d1"] d3(2) out(4) True run1 prep1 by simp
      qed
    qed
  qed
qed

subsection \<open>Figures that settle\<close>

text \<open>
  The counters the loop is shown to end with: the heuristic counter and the counters by a ratio whose
  charge for a message covers a separator. A driver is measured when it counts with one of them and
  its conversation, and whatever a pass of its manager would make of it, is below two to the 64
  characters, the overhead of the messages included.
\<close>

definition settling :: "('v \<Rightarrow> string) \<Rightarrow> ('v message list \<Rightarrow> u64) \<Rightarrow> bool" where
  "settling json counter \<longleftrightarrow>
     counter = heuristic_count json \<or> (\<exists>c. covers_separator c \<and> counter = ratio_count json c)"

lemma settling_counter: "settling json counter \<Longrightarrow> settling_counter json counter"
  by (auto simp: settling_def ratio_settling settling_heuristic.settling_counter_axioms)

definition measured_driver :: "('v \<Rightarrow> string) \<Rightarrow> 'v driver \<Rightarrow> bool" where
  "measured_driver json d \<longleftrightarrow>
     settling json (count_context d) \<and> in_range json (full_history (dr_machine d)) \<and>
     (\<forall>cm turn reason i a sizing oc. dr_manager d = Some cm \<longrightarrow>
        compact_with_reason cm (full_history (dr_machine d)) turn reason i a sizing = Inr (Compacted oc) \<longrightarrow>
        in_range json (oc_messages oc))"

lemma sum_list_index_le:
  fixes f :: "'b \<Rightarrow> nat" and g :: "'c \<Rightarrow> nat"
  shows "length xs = length ys \<Longrightarrow> (\<And>i. i < length ys \<Longrightarrow> f (xs ! i) \<le> g (ys ! i)) \<Longrightarrow>
    sum_list (map f xs) \<le> sum_list (map g ys)"
proof (induction xs ys rule: list_induct2)
  case (Cons x xs y ys)
  have "f x \<le> g y" using Cons.prems [of 0] by simp
  moreover have "sum_list (map f xs) \<le> sum_list (map g ys)" using Cons.prems [of "Suc i" for i] by (intro Cons.IH) simp
  ultimately show ?case by simp
qed simp

lemma cleared_sizes:
  assumes "\<And>i j. (i, j) \<in> K \<Longrightarrow> i < length ms \<Longrightarrow> j < length (msg_parts (ms ! i)) \<Longrightarrow>
    Token_Count.part_size json (clear_part (msg_parts (ms ! i) ! j)) \<le> Token_Count.part_size json (msg_parts (ms ! i) ! j)"
  shows "sizes json (clear_slots K ms) \<le> sizes json ms"
  unfolding sizes_def msg_size_def
  by (intro sum_list_index_le) (use assms in \<open>auto simp: clear_slots_nth intro!: sum_list_index_le\<close>)

lemma result_size:
  "Token_Count.part_size json (ToolResultPart i n out err ret) = Token_Count.part_size json (ToolResultPart i' n' out err' ret')"
  by (cases out) simp_all

lemma single_result_size:
  "msg_size json (new_message User [ToolResultPart i n out err ret]) = Token_Count.part_size json (ToolResultPart i n out err ret)"
  by (simp add: msg_size_def new_message_def)

lemma marker_in_range:
  "in_range json [new_message User [ToolResultPart [] [] (TCText cleared_marker) (Some False) None]]"
  by (simp add: in_range_def single_result_size chars_len_def cleared_marker_def)

lemma candidate_shrinks:
  assumes "settling json counter" and "candidate counter tail ms a"
  shows "Token_Count.part_size json (clear_part (msg_parts (ms ! pc_position a) ! pc_part_index a)) \<le>
    Token_Count.part_size json (msg_parts (ms ! pc_position a) ! pc_part_index a)"
proof -
  obtain call_id name out err ret where part:
      "msg_parts (ms ! pc_position a) ! pc_part_index a = ToolResultPart call_id name out err ret"
      and dearer: "tool_result_cost counter out > marker_cost counter"
    using candidateD(3) [OF assms(2)] by blast
  have "msg_size json (new_message User [ToolResultPart [] [] (TCText cleared_marker) (Some False) None]) <
      msg_size json (new_message User [ToolResultPart [] [] out (Some False) None])"
    using dearer unfolding marker_cost_def tool_result_cost_def
    by (rule settling_counter.dearer_is_longer [OF settling_counter [OF assms(1)] _ marker_in_range])
  then show ?thesis unfolding part clear_part.simps single_result_size
    by (metis less_imp_le result_size)
qed

lemma pruned_count:
  assumes "settling json counter" and "in_range json ms" and "pruned_or_same counter ms ms'"
  shows "counter ms' \<le> counter ms"
proof (cases "ms' = ms")
  case False
  then obtain c minimum_free cleared reclaimed where
      "plan_prune counter ms c minimum_free = Some (ms', cleared, reclaimed)"
    using assms(3) by (auto simp: pruned_or_same_def)
  then obtain admitted where cands: "\<forall>a \<in> set admitted. candidate counter (protected_tail_tokens c) ms a"
      and ms': "ms' = clear_slots (slot ` set admitted) ms"
    by (rule plan_prune_spec) blast
  have "sizes json ms' \<le> sizes json ms"
    unfolding ms' by (rule cleared_sizes) (use candidate_shrinks [OF assms(1)] cands in \<open>auto simp: slot_def\<close>)
  moreover have "length ms' = length ms" by (simp add: ms' clear_slots_nth)
  ultimately show ?thesis
    using settling_counter.count_rewritten [OF settling_counter [OF assms(1)] assms(2)] by blast
qed simp

lemma adopted_shrinks:
  assumes "after < figure_before (d\<lparr>dr_anchor := None\<rparr>)" and "dr_manager d = Some cm"
    and "compact_with_reason cm (full_history (dr_machine d)) turn reason i a sizing = Inr (Compacted oc)"
    and "after = driver_figure (d\<lparr>dr_anchor := None\<rparr>) (sat_add (oc_tokens_after oc) (overhead_tokens d))"
    and "measured_driver json d"
  shows "count_context d (coalesce_adjacent_assistants (oc_messages oc)) < count_context d (full_history (dr_machine d))"
proof -
  let ?d0 = "d\<lparr>dr_anchor := None\<rparr>"
  have same: "count_context ?d0 = count_context d" "overhead_tokens ?d0 = overhead_tokens d"
    by (simp_all add: overhead_tokens_def)
  have "full_history (dr_machine d) \<noteq> []" using assms(3) by (auto simp: compact_with_reason_def Let_def)
  from pass_promises [OF this assms(3)] have counted: "oc_tokens_after oc = count_context d (oc_messages oc)"
    by (simp add: count_context_def assms(2))
  have "\<not> count_context d (full_history (dr_machine d)) \<le> oc_tokens_after oc"
  proof
    assume "count_context d (full_history (dr_machine d)) \<le> oc_tokens_after oc"
    then have "figure_before ?d0 \<le> after"
      unfolding assms(4) figure_before_def same by (intro driver_figure_mono) (simp add: same sat_add_mono)
    with assms(1) show False by simp
  qed
  moreover have "count_context d (coalesce_adjacent_assistants (oc_messages oc)) \<le> count_context d (oc_messages oc)"
    using assms(2,3,5) unfolding measured_driver_def
    by (intro settling_counter.count_joined [OF settling_counter]) blast+
  ultimately show ?thesis by (simp add: counted)
qed

lemma compaction_outcome:
  assumes "handle_compact Uncancelled hook reason d = (Inr (), d')" and "\<not> is_terminal (dr_machine d)"
    and "measured_driver json d"
  obtains (ended) "is_terminal (dr_machine d')"
  | (adopted) "mstate (dr_machine d') = Start" "keeps_run (dr_machine d) (dr_machine d')"
      "count_context d (full_history (dr_machine d')) < count_context d (full_history (dr_machine d))"
  | (put_off) "reason = ThresholdExceeded" "mstate (dr_machine d') = Start" "deferred_compaction (dr_machine d')"
      "turns_taken (dr_machine d') = turns_taken (dr_machine d)"
proof (cases rule: handle_compact_cases [OF assms(2,1)])
  case (1 oc after cm i a sizing)
  have "full_history (dr_machine d') = coalesce_adjacent_assistants (oc_messages oc)"
    unfolding 1(5) by (simp add: full_history_def)
  then show thesis using adopted_shrinks [OF 1(3,2,4,6) assms(3)] 1(5) by (intro adopted) (simp_all add: keeps_run_def)
next
  case (2 after)
  then show thesis by (intro put_off) simp_all
next
  case (3 after)
  then show thesis by (intro ended) (simp add: is_terminal_def)
qed simp_all

subsection \<open>The loop ends\<close>

text \<open>
  The measure of a pass: the steering messages still to come, then whether the machine runs, the
  turns it has left, a tool phase to finish, a turn number the machine waits with that is not its
  own, the retries the turn has left, whether it may still put a compaction off, the raw count of the
  conversation, and whether it already awaits a compaction.
\<close>

definition turn_of :: "'v loop_machine \<Rightarrow> usize" where
  "turn_of m = (case mstate m of AwaitingModel t \<Rightarrow> t | _ \<Rightarrow> turns_taken m)"

definition retries :: "'v driver \<Rightarrow> nat" where
  "retries d =
     of_bool (dr_overflow_retry d \<noteq> Some (turn_of (dr_machine d))) +
     of_bool (dr_truncation_retry d \<noteq> Some (turn_of (dr_machine d)))"

definition may_defer :: "'v loop_machine \<Rightarrow> bool" where
  "may_defer m \<longleftrightarrow> \<not> deferred_compaction m \<or> mstate m = AwaitingCompaction ThresholdExceeded"

fun waits :: "machine_state \<Rightarrow> nat" where
  "waits (AwaitingCompaction _) = 0"
| "waits _ = 1"

definition loop_order :: "((nat \<times> 'v driver) \<times> (nat \<times> 'v driver)) set" where
  "loop_order = measures
     [fst,
      \<lambda>s. of_bool (\<not> is_terminal (dr_machine (snd s))),
      \<lambda>s. unat (max_turns (driver_policy (snd s))) - unat (turns_taken (dr_machine (snd s))),
      \<lambda>s. phase (mstate (dr_machine (snd s))),
      \<lambda>s. of_bool (turn_of (dr_machine (snd s)) \<noteq> turns_taken (dr_machine (snd s))),
      \<lambda>s. retries (snd s),
      \<lambda>s. of_bool (may_defer (dr_machine (snd s))),
      \<lambda>s. unat (count_context (snd s) (full_history (dr_machine (snd s)))),
      \<lambda>s. waits (mstate (dr_machine (snd s)))]"

lemma in_loop_order:
  "((k', d'), (k, d)) \<in> loop_order \<longleftrightarrow>
     (k' < k \<or> k' = k \<and>
     (of_bool (\<not> is_terminal (dr_machine d')) < (of_bool (\<not> is_terminal (dr_machine d)) :: nat) \<or>
      is_terminal (dr_machine d') = is_terminal (dr_machine d) \<and>
     (unat (max_turns (driver_policy d')) - unat (turns_taken (dr_machine d')) <
        unat (max_turns (driver_policy d)) - unat (turns_taken (dr_machine d)) \<or>
      unat (max_turns (driver_policy d')) - unat (turns_taken (dr_machine d')) =
        unat (max_turns (driver_policy d)) - unat (turns_taken (dr_machine d)) \<and>
     (phase (mstate (dr_machine d')) < phase (mstate (dr_machine d)) \<or>
      phase (mstate (dr_machine d')) = phase (mstate (dr_machine d)) \<and>
     (of_bool (turn_of (dr_machine d') \<noteq> turns_taken (dr_machine d')) <
        (of_bool (turn_of (dr_machine d) \<noteq> turns_taken (dr_machine d)) :: nat) \<or>
      (turn_of (dr_machine d') = turns_taken (dr_machine d')) = (turn_of (dr_machine d) = turns_taken (dr_machine d)) \<and>
     (retries d' < retries d \<or> retries d' = retries d \<and>
     (of_bool (may_defer (dr_machine d')) < (of_bool (may_defer (dr_machine d)) :: nat) \<or>
      may_defer (dr_machine d') = may_defer (dr_machine d) \<and>
     (count_context d' (full_history (dr_machine d')) < count_context d (full_history (dr_machine d)) \<or>
      count_context d' (full_history (dr_machine d')) = count_context d (full_history (dr_machine d)) \<and>
      waits (mstate (dr_machine d')) < waits (mstate (dr_machine d))))))))))"
  by (auto simp: loop_order_def measures_def of_bool_eq_iff word_less_nat_alt word_unat_eq_iff)

lemma before_call:
  assumes "next_step p m0 = (CallLLM t, m)"
  shows "\<not> is_terminal m0" "phase (mstate m0) = 0" "turn_of m0 = t" "may_defer m0 = (\<not> deferred_compaction m0)"
    "waits (mstate m0) = 1" "keeps_run m0 m" "full_history m = full_history m0" "waiting p t m"
    "turns_taken m0 < max_turns p"
  using model_poll [OF assms]
  by (auto simp: is_terminal_def turn_of_def may_defer_def keeps_run_def full_history_def waiting_def)

lemma call_decreases:
  assumes "next_step (driver_policy d) (dr_machine d) = (CallLLM t, m)"
    and "handle_call_llm t ci (d\<lparr>dr_machine := m\<rparr>) = (Inr (), d')"
    and "measured_driver json d" and "k = k' + length (ci_steered ci)"
  shows "((k', d'), (k, d)) \<in> loop_order"
proof (cases "ci_steered ci = []")
  case False
  then show ?thesis using assms(4) by (simp add: in_loop_order)
next
  case True
  then have k: "k' = k" using assms(4) by simp
  note b = before_call [OF assms(1)]
  let ?dm = "d\<lparr>dr_machine := m\<rparr>"
  have start: "waiting (driver_policy ?dm) t (dr_machine ?dm)" using b(8) by simp
  show ?thesis
  proof (cases rule: call_outcome [OF assms(2) start])
    case (1 c)
    note frame = same_frameD [OF 1(1)]
    have frame_d: "driver_policy d' = driver_policy d" "count_context d' = count_context d"
      "dr_overflow_retry d' = dr_overflow_retry d" "dr_truncation_retry d' = dr_truncation_retry d"
      using frame by simp_all
    have turns: "turns_taken (dr_machine d') = turns_taken (dr_machine d)"
      "deferred_compaction (dr_machine d') = deferred_compaction (dr_machine d)"
      using 1(2) b(6) by (simp_all add: keeps_run_def)
    have latch: "may_defer (dr_machine d') = may_defer (dr_machine d)"
      using 1(4,5) b(4,6) turns by (auto simp: may_defer_def keeps_run_def)
    have "pruned_or_same (count_context d) (full_history (dr_machine d)) (full_history (dr_machine d'))"
      using 1(6) True b(7) by simp
    then have "count_context d (full_history (dr_machine d')) \<le> count_context d (full_history (dr_machine d))"
      using assms(3) by (intro pruned_count [of json]) (simp_all add: measured_driver_def)
    moreover have "turn_of (dr_machine d') = turns_taken (dr_machine d')" using 1(4) by (simp add: turn_of_def)
    moreover have "\<not> is_terminal (dr_machine d')" "phase (mstate (dr_machine d')) = 0" "waits (mstate (dr_machine d')) = 0"
      using 1(4) by (simp_all add: is_terminal_def)
    ultimately show ?thesis
      unfolding in_loop_order using b k frame_d turns latch by (auto simp: retries_def order_le_less)
  next
    case 2
    then have frame: "driver_policy d' = driver_policy d" "turns_taken (dr_machine d') = turns_taken (dr_machine d)"
      using b(6) by (simp_all add: salvaged_def keeps_run_def)
    have state: "\<not> is_terminal (dr_machine d')" "phase (mstate (dr_machine d')) = 0"
      "turn_of (dr_machine d') = t \<or> turn_of (dr_machine d') = turns_taken (dr_machine d')"
      using 2 by (auto simp: salvaged_def is_terminal_def turn_of_def)
    show ?thesis
    proof (cases "turn_of (dr_machine d') = t")
      case same: True
      have "retries d' < retries d"
        using 2 same b(3) by (auto simp: salvaged_def retries_def)
      then show ?thesis unfolding in_loop_order using b k frame state same by simp
    next
      case other: False
      then have "turn_of (dr_machine d') = turns_taken (dr_machine d')" "turn_of (dr_machine d) \<noteq> turns_taken (dr_machine d)"
        using state(3) b(3) frame(2) by auto
      then show ?thesis unfolding in_loop_order using b k frame state by simp
    qed
  next
    case (3 m2 r n)
    have live: "\<not> is_terminal m2" using 3(2) by (rule waiting_live)
    have less: "turns_taken m2 < max_turns (driver_policy d)" "turns_taken m2 = turns_taken (dr_machine d)"
      using 3(2,3) b(6) by (simp_all add: waiting_def keeps_run_def)
    have "turns_taken (dr_machine d') = sat_add (turns_taken m2) 1"
      using live by (simp add: 3(1) model_response_def Let_def)
    then have "unat (turns_taken (dr_machine d')) = Suc (unat (turns_taken (dr_machine d)))"
      using sat_add_one [OF less(1)] less(2) by simp
    then have "unat (max_turns (driver_policy d')) - unat (turns_taken (dr_machine d')) <
        unat (max_turns (driver_policy d)) - unat (turns_taken (dr_machine d))"
      using less 3(5) by (simp add: word_less_nat_alt)
    then show ?thesis unfolding in_loop_order using b(1) k by auto
  qed
qed

lemma tools_decreases:
  assumes "next_step (driver_policy d) (dr_machine d) = (CallTools t cs, m)"
    and "handle_call_tools cs ti (d\<lparr>dr_machine := m\<rparr>) = (Inr (), d')" and "k' \<le> k"
  shows "((k', d'), (k, d)) \<in> loop_order"
proof -
  from call_tools_poll [OF assms(1)] have m: "m = dr_machine d" "mstate (dr_machine d) = AwaitingTools t" by simp_all
  then have live: "\<not> is_terminal (dr_machine d)" by (simp add: is_terminal_def)
  obtain parts where parts: "ti_dispatched ti = Inr parts"
    using assms(2) by (auto simp: handle_call_tools_def split: sum.splits)
  let ?m1 = "tool_results [new_message User (fill_slots cs parts)] (dr_machine d)"
  have m1: "mstate ?m1 = Start" "turns_taken ?m1 = turns_taken (dr_machine d)" using live by (simp_all add: tool_results_def)
  obtain n where d': "dr_machine d' = set_context_tokens n ?m1" "same_frame d d'"
    using assms(2) by (auto simp: handle_call_tools_def parts m(1) feed_payload_def Let_def same_frame_def)
  then have "mstate (dr_machine d') = Start" "turns_taken (dr_machine d') = turns_taken (dr_machine d)"
    "driver_policy d' = driver_policy d"
    using m1 same_frameD(1) [OF d'(2)] by (simp_all add: set_context_tokens_def)
  then show ?thesis unfolding in_loop_order using assms(3) m(2) live by (auto simp: is_terminal_def)
qed

lemma served_handle:
  assumes "serve_compaction cancellation hook reason d = (Inr (), d')"
  shows "handle_compact Uncancelled hook reason (d\<lparr>dr_prepared_turn := False\<rparr>) = (Inr (), d')"
proof -
  have served: "handle_compact cancellation hook reason (d\<lparr>dr_prepared_turn := False\<rparr>) = (Inr (), d')"
    using assms by (auto simp: serve_compaction_def split: prod.splits sum.splits)
  then have "cancellation = Uncancelled" using handle_compact_cancelled [OF served] by auto
  with served show ?thesis by simp
qed

lemma compaction_decreases:
  assumes "next_step (driver_policy d) (dr_machine d) = (CompactStep reason, m)"
    and "serve_compaction cancellation hook reason (d\<lparr>dr_machine := m\<rparr>) = (Inr (), d')"
    and "measured_driver json d" and "k' \<le> k"
  shows "((k', d'), (k, d)) \<in> loop_order"
proof -
  let ?d1 = "d\<lparr>dr_machine := m, dr_prepared_turn := False\<rparr>"
  have served: "handle_compact Uncancelled hook reason ?d1 = (Inr (), d')" using served_handle [OF assms(2)] by simp
  from compact_poll [OF assms(1)] have m: "m = (dr_machine d)\<lparr>mstate := AwaitingCompaction reason\<rparr>"
    and before: "mstate (dr_machine d) = AwaitingCompaction reason \<or>
      phase (mstate (dr_machine d)) = 0 \<and> \<not> is_terminal (dr_machine d) \<and>
      (reason = ThresholdExceeded \<longrightarrow> \<not> deferred_compaction (dr_machine d))" by auto
  then have live: "\<not> is_terminal (dr_machine d)" "phase (mstate (dr_machine d)) = 0"
    "reason = ThresholdExceeded \<longrightarrow> may_defer (dr_machine d)"
    by (auto simp: is_terminal_def may_defer_def)
  have whole: "full_history m = full_history (dr_machine d)" by (simp add: m full_history_def)
  have "same_frame d ?d1" by (simp add: same_frame_def)
  note frame = same_frameD [OF same_frame_trans [OF this frame_handle_compact [OF served]]]
  have count: "count_context ?d1 = count_context d" using same_frameD(2) [OF \<open>same_frame d ?d1\<close>] .
  have measured: "measured_driver json ?d1" using assms(3) count by (simp add: measured_driver_def whole)
  have "\<not> is_terminal (dr_machine ?d1)" by (simp add: m is_terminal_def)
  from served this measured show ?thesis
  proof (cases rule: compaction_outcome)
    case ended
    then show ?thesis unfolding in_loop_order using live assms(4) by auto
  next
    case adopted
    have kept: "turns_taken (dr_machine d') = turns_taken (dr_machine d)"
      "deferred_compaction (dr_machine d') = deferred_compaction (dr_machine d)"
      using adopted(2) by (simp_all add: keeps_run_def m)
    have less: "count_context d' (full_history (dr_machine d')) < count_context d (full_history (dr_machine d))"
      using adopted(3) by (simp add: count frame(2) whole)
    have state: "\<not> is_terminal (dr_machine d')" "phase (mstate (dr_machine d')) = 0"
      "turn_of (dr_machine d') = turns_taken (dr_machine d')" "may_defer (dr_machine d') = (\<not> deferred_compaction (dr_machine d'))"
      using adopted(1) by (simp_all add: is_terminal_def turn_of_def may_defer_def)
    have retry: "retries d' = retries d" if "turn_of (dr_machine d) = turns_taken (dr_machine d)"
      using that frame(3,4) state(3) kept(1) by (simp add: retries_def)
    have latch: "may_defer (dr_machine d') \<Longrightarrow> may_defer (dr_machine d)"
      using state(4) kept(2) by (simp add: may_defer_def)
    show ?thesis unfolding in_loop_order
      using live assms(4) frame(1) kept state(1-3) less retry latch by auto
  next
    case put_off
    have state: "\<not> is_terminal (dr_machine d')" "phase (mstate (dr_machine d')) = 0"
      "turn_of (dr_machine d') = turns_taken (dr_machine d')" "\<not> may_defer (dr_machine d')"
      using put_off(2,3) by (simp_all add: is_terminal_def turn_of_def may_defer_def)
    have kept: "turns_taken (dr_machine d') = turns_taken (dr_machine d)" using put_off(4) by (simp add: m)
    have retry: "retries d' = retries d" if "turn_of (dr_machine d) = turns_taken (dr_machine d)"
      using that frame(3,4) state(3) kept by (simp add: retries_def)
    show ?thesis unfolding in_loop_order
      using live put_off(1) assms(4) frame(1) kept state retry by auto
  qed
qed

lemma pass_decreases:
  assumes "drive_step inputs d = (None, d')" and "measured_driver json d"
    and "k = k' + length (ci_steered (pi_call inputs))"
  shows "((k', d'), (k, d)) \<in> loop_order"
proof (cases "next_step (driver_policy d) (dr_machine d)")
  case (Pair step m)
  have k: "k' \<le> k" using assms(3) by simp
  show ?thesis
  proof (cases step)
    case (CallLLM t)
    then have "handle_call_llm t (pi_call inputs) (d\<lparr>dr_machine := m\<rparr>) = (Inr (), d')"
      using assms(1) Pair by (auto simp: drive_step_def settle_arm_def split: prod.splits sum.splits)
    then show ?thesis using Pair CallLLM assms(2,3) by (intro call_decreases) simp_all
  next
    case (CallTools t cs)
    then have "handle_call_tools cs (pi_tools inputs) (d\<lparr>dr_machine := m\<rparr>) = (Inr (), d')"
      using assms(1) Pair by (auto simp: drive_step_def settle_arm_def split: prod.splits sum.splits)
    then show ?thesis using Pair CallTools k by (intro tools_decreases) simp_all
  next
    case (CompactStep reason)
    then have "serve_compaction (pi_cancellation inputs) (pi_hook inputs) reason (d\<lparr>dr_machine := m\<rparr>) = (Inr (), d')"
      using assms(1) Pair by (auto simp: drive_step_def split: prod.splits sum.splits)
    then show ?thesis using Pair CompactStep assms(2) k by (intro compaction_decreases) simp_all
  next
    case (Done outcome)
    then show ?thesis using assms(1) Pair by (simp add: drive_step_def)
  qed
qed

text \<open>The driver after a number of passes.\<close>

primrec driver_after :: "(nat \<Rightarrow> 'v pass_inputs) \<Rightarrow> 'v driver \<Rightarrow> nat \<Rightarrow> 'v driver" where
  "driver_after inputs d 0 = d"
| "driver_after inputs d (Suc n) = snd (drive_step (inputs n) (driver_after inputs d n))"

lemma driver_after_shift:
  "driver_after (\<lambda>i. inputs (Suc i)) (snd (drive_step (inputs 0) d)) n = driver_after inputs d (Suc n)"
  by (induction n) simp_all

lemma drive_steps_None:
  "drive_steps fuel inputs d = None \<longleftrightarrow> (\<forall>n < fuel. fst (drive_step (inputs n) (driver_after inputs d n)) = None)"
proof (induction fuel arbitrary: inputs d)
  case (Suc fuel)
  obtain answer d1 where step: "drive_step (inputs 0) d = (answer, d1)" by (rule prod.exhaust)
  have shift: "driver_after (\<lambda>i. inputs (Suc i)) d1 n = driver_after inputs d (Suc n)" for n
    using driver_after_shift [of inputs d n] by (simp add: step)
  have "drive_steps (Suc fuel) inputs d = None \<longleftrightarrow>
      answer = None \<and> (\<forall>n < fuel. fst (drive_step (inputs (Suc n)) (driver_after inputs d (Suc n))) = None)"
    using Suc.IH [of "\<lambda>i. inputs (Suc i)" d1] by (simp add: step shift del: driver_after.simps split: option.split)
  then show ?case by (simp add: All_less_Suc2 step del: drive_steps.simps)
qed simp

definition steered_later :: "(nat \<Rightarrow> 'v pass_inputs) \<Rightarrow> nat set \<Rightarrow> nat \<Rightarrow> nat" where
  "steered_later inputs F n = (\<Sum>i \<in> {i \<in> F. n \<le> i}. length (ci_steered (pi_call (inputs i))))"

lemma steered_later_Suc:
  assumes "finite F" and "\<And>i. i \<notin> F \<Longrightarrow> ci_steered (pi_call (inputs i)) = []"
  shows "steered_later inputs F n = steered_later inputs F (Suc n) + length (ci_steered (pi_call (inputs n)))"
proof (cases "n \<in> F")
  case True
  then have "{i \<in> F. n \<le> i} = insert n {i \<in> F. Suc n \<le> i}" by auto
  then show ?thesis using assms(1) by (simp add: steered_later_def)
next
  case False
  then have "{i \<in> F. n \<le> i} = {i \<in> F. Suc n \<le> i}" by (auto simp: Suc_le_eq order_le_less)
  then show ?thesis using assms(2) [OF False] by (simp add: steered_later_def)
qed

text \<open>
  C1: the drive loop ends. Whatever the model, the tools, the compactor, the hooks and the observers
  of cancellation answer, pass by pass, the loop comes to an answer after finitely many passes: each
  pass that goes on takes a turn, finishes a tool phase, spends one of the two retries of its turn or
  its one deferral, makes the conversation smaller, or moves on to a compaction. Assumed: steering
  messages are queued in finitely many passes, and while the loop runs the driver counts with the
  heuristic counter or a ratio counter that charges two characters for a message, and its
  conversation, and whatever a pass of its manager would make of it, stays below 2 to the 64
  characters.
\<close>

theorem drive_loop_terminates:
  assumes "finite {n. ci_steered (pi_call (inputs n)) \<noteq> []}"
    and "\<And>n. drive_steps n inputs d = None \<Longrightarrow> measured_driver json (driver_after inputs d n)"
  shows "\<exists>fuel answer d'. drive_steps fuel inputs d = Some (answer, d')"
proof (rule ccontr)
  assume "\<not> ?thesis"
  then have never: "drive_steps fuel inputs d = None" for fuel by (metis not_Some_eq prod.exhaust)
  let ?D = "driver_after inputs d"
  let ?K = "steered_later inputs {n. ci_steered (pi_call (inputs n)) \<noteq> []}"
  have down: "((?K (Suc n), ?D (Suc n)), (?K n, ?D n)) \<in> loop_order" for n
  proof (rule pass_decreases)
    have "fst (drive_step (inputs n) (?D n)) = None" using never [of "Suc n"] by (simp only: drive_steps_None)
    then show "drive_step (inputs n) (?D n) = (None, ?D (Suc n))" by (metis driver_after.simps(2) prod.collapse)
    show "measured_driver json (?D n)" using assms(2) never by blast
    show "?K n = ?K (Suc n) + length (ci_steered (pi_call (inputs n)))"
      using assms(1) by (intro steered_later_Suc) simp_all
  qed
  have "wf (loop_order :: ((nat \<times> 'a driver) \<times> (nat \<times> 'a driver)) set)" by (simp add: loop_order_def)
  moreover have "\<exists>f. \<forall>i. (f (Suc i), f i) \<in> (loop_order :: ((nat \<times> 'a driver) \<times> (nat \<times> 'a driver)) set)"
    by (rule exI [of _ "\<lambda>n. (?K n, ?D n)"]) (intro allI down)
  ultimately show False unfolding wf_iff_no_infinite_down_chain by blast
qed

definition quiet_inputs :: "unit pass_inputs" where
  "quiet_inputs =
     \<lparr>pi_call = \<lparr>ci_routing = Inr (), ci_steered = [], ci_transient = [], ci_advertised = 0, ci_surface_changed = False,
        ci_signalled = False, ci_prune = None, ci_switched = Inr False, ci_outcome = Inl ErrCancelled,
        ci_total_turns = 0, ci_detected = None, ci_tools = []\<rparr>,
      pi_tools = \<lparr>ti_dispatched = Inr [], ti_transient = [], ti_advertised = 0, ti_surface_changed = False\<rparr>,
      pi_cancellation = Uncancelled, pi_hook = allow_hook\<rparr>"

lemma quiet_passes:
  "drive_step quiet_inputs lone_driver = (None, stalled_driver)"
  "drive_step quiet_inputs stalled_driver = (Some (Inl (CompactionStalled 5)), stalled_driver)"
proof -
  have prepared: "lone_driver\<lparr>dr_machine := m, dr_prepared_turn := False\<rparr> = lone_driver\<lparr>dr_machine := m\<rparr>" for m
    by (simp add: lone_driver_def sample_driver_def)
  show "drive_step quiet_inputs lone_driver = (None, stalled_driver)"
    by (simp add: drive_step_def lone_asked serve_compaction_def prepared lone_served quiet_inputs_def)
  have "mstate (dr_machine stalled_driver) = Terminal (Failed (CompactionStalled 5))" by (simp add: stalled_driver_def)
  then show "drive_step quiet_inputs stalled_driver = (Some (Inl (CompactionStalled 5)), stalled_driver)"
    by (simp add: drive_step_def next_step_def end_of_steps_def)
qed

theorem drive_loop_terminates_witness:
  "\<exists>fuel answer d'. drive_steps fuel (\<lambda>_. quiet_inputs) lone_driver = Some (answer, d')"
proof -
  have measured: "measured_driver (\<lambda>_. []) lone_driver" "measured_driver (\<lambda>_. []) stalled_driver"
  proof -
    have none: "dr_manager lone_driver = None" "dr_manager stalled_driver = None"
      and own: "dr_counter lone_driver = heuristic_count (\<lambda>_. [])" "dr_counter stalled_driver = heuristic_count (\<lambda>_. [])"
      by (simp_all add: lone_driver_def stalled_driver_def sample_driver_def)
    have "count_context d = dr_counter d" if "dr_manager d = None" for d :: "unit driver"
      using that by (intro ext) (simp add: count_context_def)
    with none own have "settling (\<lambda>_ :: unit. []) (count_context lone_driver)"
      "settling (\<lambda>_ :: unit. []) (count_context stalled_driver)" by (simp_all add: settling_def)
    moreover note none
    moreover have "in_range (\<lambda>_ :: unit. []) [user_message ''x'']"
      by (simp add: in_range_def msg_size_def user_message_def chars_len_def)
    ultimately show "measured_driver (\<lambda>_. []) lone_driver" "measured_driver (\<lambda>_. []) stalled_driver"
      by (simp_all add: measured_driver_def)
        (simp_all add: lone_driver_def stalled_driver_def sample_driver_def full_history_def from_history_def)
  qed
  have "measured_driver (\<lambda>_. []) (driver_after (\<lambda>_. quiet_inputs) lone_driver n)"
    if "drive_steps n (\<lambda>_. quiet_inputs) lone_driver = None" for n
  proof -
    have "n < 2"
    proof (rule ccontr)
      assume "\<not> n < 2"
      then obtain k where "n = Suc (Suc k)" by (metis less_2_cases_iff not0_implies_Suc)
      with that show False by (simp add: quiet_passes)
    qed
    then show ?thesis using measured by (auto simp: less_2_cases_iff quiet_passes)
  qed
  moreover have "ci_steered (pi_call quiet_inputs) = []" by (simp add: quiet_inputs_def)
  then have "finite {n :: nat. ci_steered (pi_call quiet_inputs) \<noteq> []}" by simp
  ultimately show ?thesis
    using drive_loop_terminates [of "\<lambda>_. quiet_inputs" lone_driver "\<lambda>_. []"] by blast
qed

section \<open>Every pass is a round of the machine's loop\<close>

text \<open>
  A pass that goes on, whatever it serves, moves the machine by a round of the loop the machine's
  protocol allows; a pass that ends with an answer of the machine leaves it terminal.
\<close>

theorem pass_is_round:
  assumes "drive_step inputs d = (None, d')"
  shows "\<exists>before. drive_round (driver_policy d) before (dr_machine d) (dr_machine d')"
proof (cases "next_step (driver_policy d) (dr_machine d)")
  case (Pair step m)
  show ?thesis
  proof (cases step)
    case (CallLLM t)
    then have poll: "next_step (driver_policy d) (dr_machine d) = (CallLLM t, m)" using Pair by simp
    have served: "handle_call_llm t (pi_call inputs) (d\<lparr>dr_machine := m\<rparr>) = (Inr (), d')"
      using assms Pair CallLLM by (auto simp: drive_step_def settle_arm_def split: prod.splits sum.splits)
    have start: "waiting (driver_policy (d\<lparr>dr_machine := m\<rparr>)) t (dr_machine (d\<lparr>dr_machine := m\<rparr>))"
      using before_call(8) [OF poll] by simp
    show ?thesis
    proof (cases rule: call_outcome [OF served start])
      case (1 c)
      then show ?thesis using round_unserved [OF poll] by auto
    next
      case 2
      then show ?thesis using round_unserved [OF poll] by (auto simp: salvaged_def)
    next
      case (3 m2 r n)
      then show ?thesis using round_model [OF poll, of m2] by auto
    qed
  next
    case (CallTools t cs)
    then have poll: "next_step (driver_policy d) (dr_machine d) = (CallTools t cs, m)" using Pair by simp
    have served: "handle_call_tools cs (pi_tools inputs) (d\<lparr>dr_machine := m\<rparr>) = (Inr (), d')"
      using assms Pair CallTools by (auto simp: drive_step_def settle_arm_def split: prod.splits sum.splits)
    then obtain n ms where "dr_machine d' = set_context_tokens n (tool_results ms m)"
      by (auto simp: handle_call_tools_def feed_payload_def Let_def split: sum.splits)
    then show ?thesis using round_tools [OF poll] by auto
  next
    case (CompactStep reason)
    then have poll: "next_step (driver_policy d) (dr_machine d) = (CompactStep reason, m)" using Pair by simp
    have "serve_compaction (pi_cancellation inputs) (pi_hook inputs) reason (d\<lparr>dr_machine := m\<rparr>) = (Inr (), d')"
      using assms Pair CompactStep by (auto simp: drive_step_def split: prod.splits sum.splits)
    note served = served_handle [OF this]
    have swap: "d\<lparr>dr_machine := m, dr_prepared_turn := False\<rparr> = (d\<lparr>dr_prepared_turn := False\<rparr>)\<lparr>dr_machine := m\<rparr>" by simp
    have "drive_round (driver_policy (d\<lparr>dr_prepared_turn := False\<rparr>))
        (figure_before (d\<lparr>dr_machine := m, dr_prepared_turn := False, dr_anchor := None\<rparr>))
        (dr_machine (d\<lparr>dr_prepared_turn := False\<rparr>)) (dr_machine d')"
      by (rule served_round [OF _ swap served]) (use poll in simp)
    then show ?thesis by auto
  next
    case (Done outcome)
    then show ?thesis using assms Pair by (simp add: drive_step_def)
  qed
qed

end
