(* ===== verification/Convergence.thy ===== *)
theory Convergence
  imports Budget Numeric
begin

section \<open>Convergence of responses\<close>

text \<open>
  src/src/detection/convergence.rs: a detector that keeps a window of the last responses and a streak
  of responses similar to their predecessor. Similarity is the Jaccard index of the sets of words.
  The tables of Unicode (lower case, alphanumeric characters) and the rounding of the one division
  are arguments, a character is its UTF-8 bytes; an \<open>f32\<close> is a rational or one of the special values.
\<close>

subsection \<open>Configuration and status\<close>

datatype convergence_action = ConvStop | ConvWarn | ConvSwitchPhase | ConvAskUser | ConvCompact

datatype convergence_config_error = WindowTooSmall usize | ThresholdOutOfRange float64

record convergence_config =
  cc_enabled :: bool
  cc_window_size :: usize
  cc_threshold :: float64
  cc_on_converge :: convergence_action

text \<open>The default threshold is the \<open>f32\<close> nearest to 0.95.\<close>

definition default_convergence_config :: convergence_config where
  "default_convergence_config =
     \<lparr>cc_enabled = True, cc_window_size = 3, cc_threshold = Finite (15938355 / 16777216), cc_on_converge = ConvWarn\<rparr>"

record convergence_status =
  cs_detected :: bool
  cs_consecutive :: usize
  cs_similarity :: rat
  cs_similar :: "string list"
  cs_action :: convergence_action

definition no_convergence :: convergence_status where
  "no_convergence =
     \<lparr>cs_detected = False, cs_consecutive = 0, cs_similarity = 0, cs_similar = [], cs_action = ConvWarn\<rparr>"

record convergence_detector =
  cd_config :: convergence_config
  cd_window :: "string list"
  cd_count :: usize
  cd_similar :: "string list"

fun in_unit_interval :: "float64 \<Rightarrow> bool" where
  "in_unit_interval (Finite x) = (0 \<le> x \<and> x \<le> 1)"
| "in_unit_interval _ = False"

definition new_convergence :: "convergence_config \<Rightarrow> convergence_config_error + convergence_detector" where
  "new_convergence c =
     (if cc_window_size c < 2 then Inl (WindowTooSmall (cc_window_size c))
      else if \<not> in_unit_interval (cc_threshold c) then Inl (ThresholdOutOfRange (cc_threshold c))
      else Inr \<lparr>cd_config = c, cd_window = [], cd_count = 0, cd_similar = []\<rparr>)"

definition default_convergence :: convergence_detector where
  "default_convergence = \<lparr>cd_config = default_convergence_config, cd_window = [], cd_count = 0, cd_similar = []\<rparr>"

subsection \<open>Similarity\<close>

record text_tables =
  tt_lowercase :: "string \<Rightarrow> string"
  tt_alphanumeric :: "string \<Rightarrow> bool"
  tt_round :: "rat \<Rightarrow> rat"

definition normalize_text :: "text_tables \<Rightarrow> string \<Rightarrow> string" where
  "normalize_text env s = concat (map (\<lambda>c. if tt_alphanumeric env c then c else '' '') (utf8_chars (tt_lowercase env s)))"

definition words_of :: "text_tables \<Rightarrow> string \<Rightarrow> string set" where
  "words_of env s = set (split_whitespace (normalize_text env s))"

definition compute_similarity :: "text_tables \<Rightarrow> string \<Rightarrow> string \<Rightarrow> rat" where
  "compute_similarity env a b =
     (if a = [] \<or> b = [] then 0
      else
        (let a_words = words_of env a; b_words = words_of env b
         in if a_words = {} \<or> b_words = {} then 0
            else unit_ratio (tt_round env) 16 (card (a_words \<inter> b_words)) (card (a_words \<union> b_words))))"

subsection \<open>Adding a response\<close>

fun reaches :: "rat \<Rightarrow> float64 \<Rightarrow> bool" where
  "reaches s (Finite x) = (x \<le> s)"
| "reaches s NegInfinity = True"
| "reaches s _ = False"

definition max_similarity :: "text_tables \<Rightarrow> string \<Rightarrow> string list \<Rightarrow> rat" where
  "max_similarity env response window =
     foldl (\<lambda>best prev. let similarity = compute_similarity env response prev
                        in if similarity > best then similarity else best) 0 window"

definition similar_to_last :: "text_tables \<Rightarrow> convergence_detector \<Rightarrow> string \<Rightarrow> bool" where
  "similar_to_last env d response \<longleftrightarrow>
     cd_window d \<noteq> [] \<and> reaches (compute_similarity env response (last (cd_window d))) (cc_threshold (cd_config d))"

text \<open>The streak and the responses of it: extended, started, or started anew.\<close>

definition next_streak :: "text_tables \<Rightarrow> string \<Rightarrow> convergence_detector \<Rightarrow> usize \<times> string list" where
  "next_streak env response d =
     (let similar = similar_to_last env d response;
          responses = (if similar \<and> response \<notin> set (cd_similar d) then cd_similar d @ [response] else cd_similar d)
      in if cd_window d = [] then (1, responses @ [response])
         else if similar then (sat_add (cd_count d) 1, responses)
         else (1, [response]))"

definition add_response :: "text_tables \<Rightarrow> string \<Rightarrow> convergence_detector \<Rightarrow> convergence_status \<times> convergence_detector" where
  "add_response env response d =
     (if \<not> cc_enabled (cd_config d) then (no_convergence, d)
      else if response = [] then (no_convergence, d\<lparr>cd_count := 0, cd_similar := []\<rparr>)
      else
        (case next_streak env response d of
           (consecutive, responses) \<Rightarrow>
             (\<lparr>cs_detected = (consecutive \<ge> cc_window_size (cd_config d)), cs_consecutive = consecutive,
               cs_similarity = max_similarity env response (cd_window d), cs_similar = responses,
               cs_action = cc_on_converge (cd_config d)\<rparr>,
              d\<lparr>cd_count := consecutive, cd_similar := responses,
                cd_window := window_push (unat (cc_window_size (cd_config d))) (cd_window d) response\<rparr>)))"

definition check_convergence :: "convergence_detector \<Rightarrow> convergence_status" where
  "check_convergence d =
     (if \<not> cc_enabled (cd_config d) then no_convergence
      else if length (cd_window d) < unat (cc_window_size (cd_config d)) then no_convergence
      else
        \<lparr>cs_detected = (cd_count d \<ge> cc_window_size (cd_config d)), cs_consecutive = cd_count d,
         cs_similarity = 0, cs_similar = cd_similar d, cs_action = cc_on_converge (cd_config d)\<rparr>)"

definition clear_convergence :: "convergence_detector \<Rightarrow> convergence_detector" where
  "clear_convergence d = d\<lparr>cd_window := [], cd_count := 0, cd_similar := []\<rparr>"

subsection \<open>What similarity means\<close>

text \<open>
  The division of the code rounds to the nearest \<open>f32\<close>; what the lemmas use of it is that it is
  monotone and exact at zero and one.
\<close>

definition rounds :: "(rat \<Rightarrow> rat) \<Rightarrow> bool" where
  "rounds rnd \<longleftrightarrow> mono rnd \<and> rnd 0 = 0 \<and> rnd 1 = 1"

lemma words_finite [simp]: "finite (words_of env s)"
  by (simp add: words_of_def)

lemma similarity_commute: "compute_similarity env a b = compute_similarity env b a"
  by (simp add: compute_similarity_def Let_def Int_commute Un_commute)

lemma similarity_bounds:
  assumes "rounds (tt_round env)"
  shows "0 \<le> compute_similarity env a b" and "compute_similarity env a b \<le> 1"
proof -
  have "card (words_of env a \<inter> words_of env b) \<le> card (words_of env a \<union> words_of env b)"
    by (intro card_mono) auto
  then have "0 \<le> unit_ratio (tt_round env) 16 (card (words_of env a \<inter> words_of env b)) (card (words_of env a \<union> words_of env b)) \<and>
      unit_ratio (tt_round env) 16 (card (words_of env a \<inter> words_of env b)) (card (words_of env a \<union> words_of env b)) \<le> 1"
    using assms by (intro unit_ratio_le_one) (simp_all add: rounds_def)
  then show "0 \<le> compute_similarity env a b" "compute_similarity env a b \<le> 1"
    by (simp_all add: compute_similarity_def Let_def)
qed

lemma similarity_same_words:
  assumes "rounds (tt_round env)" and "words_of env a = words_of env b" and "words_of env a \<noteq> {}" and "a \<noteq> []" and "b \<noteq> []"
  shows "compute_similarity env a b = 1"
proof -
  have "0 < card (words_of env b)" using assms(2,3) by (simp add: card_gt_0_iff)
  then have "unit_ratio (tt_round env) 16 (card (words_of env b)) (card (words_of env b)) = 1"
    using assms(1) by (subst unit_ratio_operands) (simp_all add: rounds_def scale_operand_pos)
  then show ?thesis using assms by (simp add: compute_similarity_def)
qed

lemma similarity_disjoint:
  assumes "rounds (tt_round env)" and "words_of env a \<inter> words_of env b = {}"
  shows "compute_similarity env a b = 0"
  using assms by (simp add: compute_similarity_def Let_def unit_ratio_def scale_operand_def narrowed_def rounds_def)

text \<open>
  Similarity is a measure of shared words. It does not depend on the order of its arguments, lies
  between zero and one whatever the rounding, is one for texts with the same words and zero for texts
  that share none, in particular for a text without words, even compared with itself.
\<close>

theorem similarity_measures_shared_words:
  assumes "rounds (tt_round env)"
  shows "compute_similarity env a b = compute_similarity env b a \<and>
    0 \<le> compute_similarity env a b \<and> compute_similarity env a b \<le> 1 \<and>
    (words_of env a \<noteq> {} \<and> words_of env a = words_of env b \<and> a \<noteq> [] \<and> b \<noteq> [] \<longrightarrow> compute_similarity env a b = 1) \<and>
    (words_of env a \<inter> words_of env b = {} \<longrightarrow> compute_similarity env a b = 0)"
  using similarity_commute similarity_bounds [OF assms] similarity_same_words [OF assms] similarity_disjoint [OF assms]
  by blast

subsection \<open>Runs of similar responses\<close>

text \<open>
  The specification of the streak, over the whole sequence of responses: an empty response ends it, a
  response that is similar to the one before extends it, any other one starts it anew.
\<close>

fun streak :: "(string \<Rightarrow> string \<Rightarrow> bool) \<Rightarrow> string list \<Rightarrow> nat" where
  "streak similar [] = 0"
| "streak similar [r] = (if r = [] then 0 else 1)"
| "streak similar (r # q # rs) = (if r = [] then 0 else if q \<noteq> [] \<and> similar r q then Suc (streak similar (q # rs)) else 1)"

text \<open>The sequence is taken newest first, so that the streak is a prefix.\<close>

lemma streak_ge:
  "0 < k \<Longrightarrow> k \<le> streak similar rs \<longleftrightarrow>
     k \<le> length rs \<and> (\<forall>i < k. rs ! i \<noteq> []) \<and> (\<forall>i. Suc i < k \<longrightarrow> similar (rs ! i) (rs ! Suc i))"
proof (induction similar rs arbitrary: k rule: streak.induct)
  case (2 similar r)
  then show ?case by (auto simp: less_Suc_eq_le le_Suc_eq)
next
  case (3 similar r q rs)
  show ?case
  proof (cases "r \<noteq> [] \<and> q \<noteq> [] \<and> similar r q")
    case True
    show ?thesis
    proof (cases "k = 1")
      case False
      then obtain k' where k: "k = Suc k'" "0 < k'" using 3(2) by (cases k) auto
      have "k' \<le> streak similar (q # rs) \<longleftrightarrow> k' \<le> length (q # rs) \<and> (\<forall>i < k'. (q # rs) ! i \<noteq> []) \<and>
          (\<forall>i. Suc i < k' \<longrightarrow> similar ((q # rs) ! i) ((q # rs) ! Suc i))"
        using 3(1) True k(2) by blast
      then show ?thesis using True k
        by (auto simp: nth_Cons less_Suc_eq_0_disj split: nat.splits) 
    qed (use True in auto)
  next
    case False
    have "\<not> ((\<forall>i < k. (r # q # rs) ! i \<noteq> []) \<and> (\<forall>i. Suc i < k \<longrightarrow> similar ((r # q # rs) ! i) ((r # q # rs) ! Suc i)))" if "1 < k"
    proof
      assume run: "(\<forall>i < k. (r # q # rs) ! i \<noteq> []) \<and> (\<forall>i. Suc i < k \<longrightarrow> similar ((r # q # rs) ! i) ((r # q # rs) ! Suc i))"
      have "r \<noteq> []" "q \<noteq> []" "similar r q"
        using run [THEN conjunct1, rule_format, of 0] run [THEN conjunct1, rule_format, of 1]
          run [THEN conjunct2, rule_format, of 0] that by simp_all
      then show False using False by blast
    qed
    then show ?thesis using False 3(2) by (cases "k = 1") auto
  qed
qed simp

definition similar_by :: "text_tables \<Rightarrow> convergence_config \<Rightarrow> string \<Rightarrow> string \<Rightarrow> bool" where
  "similar_by env c a b \<longleftrightarrow> reaches (compute_similarity env a b) (cc_threshold c)"

definition said :: "string list \<Rightarrow> string list" where
  "said rs = filter (\<lambda>r. r \<noteq> []) rs"

text \<open>A detector that was given the responses, newest first.\<close>

definition tracks :: "text_tables \<Rightarrow> string list \<Rightarrow> convergence_detector \<Rightarrow> bool" where
  "tracks env rs d \<longleftrightarrow>
     cc_enabled (cd_config d) \<and> 2 \<le> cc_window_size (cd_config d) \<and>
     cd_window d = last_n (unat (cc_window_size (cd_config d))) (rev (said rs)) \<and>
     unat (cd_count d) = min (streak (similar_by env (cd_config d)) rs) (2 ^ 64 - 1)"

lemma streak_said: "said rs = [] \<Longrightarrow> streak similar rs = 0"
  by (cases rs; cases "tl rs") (auto simp: said_def split: if_splits)

lemma streak_Cons:
  "r \<noteq> [] \<Longrightarrow> streak similar (r # rs) =
     (if rs \<noteq> [] \<and> hd rs \<noteq> [] \<and> similar r (hd rs) then Suc (streak similar rs) else 1)"
  by (cases rs) auto

lemma streak_broken: "rs = [] \<or> hd rs = [] \<Longrightarrow> streak similar rs = 0"
  by (cases rs; cases "tl rs") auto

lemma last_window:
  assumes "0 < k" and "said rs \<noteq> []"
  shows "last_n k (rev (said rs)) \<noteq> []" and "last (last_n k (rev (said rs))) = hd (said rs)"
proof -
  have "length (said rs) - k < length (said rs)" using assms by (intro diff_less) simp_all
  then show "last_n k (rev (said rs)) \<noteq> []" "last (last_n k (rev (said rs))) = hd (said rs)"
    by (simp_all add: last_n_def last_rev)
qed

lemma window_of_two: "(2 :: usize) \<le> w \<Longrightarrow> 2 \<le> unat w"
  by (simp add: word_le_nat_alt)

lemma tracks_next_streak:
  assumes "tracks env rs d" and "r \<noteq> []"
  shows "unat (fst (next_streak env r d)) = min (streak (similar_by env (cd_config d)) (r # rs)) (2 ^ 64 - 1)"
proof -
  let ?k = "unat (cc_window_size (cd_config d))" and ?sim = "similar_by env (cd_config d)"
  have k: "0 < ?k" using assms(1) window_of_two by (fastforce simp: tracks_def)
  have window: "cd_window d = last_n ?k (rev (said rs))" and streak: "unat (cd_count d) = min (streak ?sim rs) (2 ^ 64 - 1)"
    using assms(1) by (simp_all add: tracks_def)
  show ?thesis
  proof (cases "said rs = []")
    case True
    then have "cd_window d = []" using window by (simp add: last_n_def)
    moreover have "rs = [] \<or> hd rs = []" using True by (cases rs) (auto simp: said_def split: if_splits)
    ultimately show ?thesis using assms(2) by (auto simp: next_streak_def Let_def streak_Cons)
  next
    case False
    have last: "cd_window d \<noteq> []" "last (cd_window d) = hd (said rs)" using last_window [OF k False] window by simp_all
    have similar: "similar_to_last env d r = ?sim r (hd (said rs))"
      using last by (simp add: similar_to_last_def similar_by_def)
    have bound: "unat (sat_add (cd_count d) 1) = min (Suc (streak ?sim rs)) (2 ^ 64 - 1)"
      by (simp add: unat_sat_add streak)
    show ?thesis
    proof (cases "rs \<noteq> [] \<and> hd rs \<noteq> []")
      case True
      then have "hd (said rs) = hd rs" by (cases rs) (simp_all add: said_def)
      then show ?thesis using True last(1) similar bound assms(2)
        by (simp add: next_streak_def Let_def streak_Cons)
    next
      case broken: False
      then have "streak ?sim rs = 0" by (intro streak_broken) blast
      then show ?thesis using broken last(1) similar bound assms(2)
        by (auto simp: next_streak_def Let_def streak_Cons)
    qed
  qed
qed

lemma tracks_add:
  assumes "tracks env rs d"
  shows "tracks env (r # rs) (snd (add_response env r d))"
proof (cases "r = []")
  case True
  then show ?thesis using assms streak_broken [of "r # rs"]
    by (simp add: tracks_def add_response_def said_def del: streak.simps)
next
  case False
  obtain n responses where step: "next_streak env r d = (n, responses)" by (cases "next_streak env r d")
  let ?k = "unat (cc_window_size (cd_config d))"
  have k: "0 < ?k" using assms window_of_two by (fastforce simp: tracks_def)
  have "window_push ?k (cd_window d) r = last_n ?k (rev (said (r # rs)))"
    using assms False by (simp add: tracks_def deque.push_last_n [OF k] last_n_last_n_snoc [OF k] said_def)
  then show ?thesis using assms False tracks_next_streak [OF assms False] step
    by (simp add: tracks_def add_response_def del: streak.simps)
qed

lemma tracks_new: "new_convergence c = Inr d \<Longrightarrow> cc_enabled c \<Longrightarrow> tracks env [] d"
  by (auto simp: new_convergence_def tracks_def said_def last_n_def not_less split: if_splits)

lemma config_add [simp]: "cd_config (snd (add_response env r d)) = cd_config d"
  by (simp add: add_response_def split: prod.split)

definition add_responses :: "text_tables \<Rightarrow> string list \<Rightarrow> convergence_detector \<Rightarrow> convergence_detector" where
  "add_responses env rs d = fold (\<lambda>r d. snd (add_response env r d)) rs d"

lemma tracks_run: "tracks env [] d \<Longrightarrow> tracks env (rev rs) (add_responses env rs d)"
  by (induction rs rule: rev_induct) (simp_all add: tracks_add add_responses_def)

lemma config_run [simp]: "cd_config (add_responses env rs d) = cd_config d"
  by (induction rs rule: rev_induct) (simp_all add: add_responses_def)

lemma reaches_window:
  assumes "tracks env rs d"
  shows "cc_window_size (cd_config d) \<le> cd_count d \<longleftrightarrow>
    unat (cc_window_size (cd_config d)) \<le> streak (similar_by env (cd_config d)) rs"
  using assms unat_less_pow [of "cc_window_size (cd_config d)"]
  by (auto simp: tracks_def word_le_nat_alt min_le_iff_disj)

lemma converged_iff:
  fixes env rs r c d0
  assumes "new_convergence c = Inr d0" and "cc_enabled c"
  defines "d \<equiv> add_responses env rs d0" and "k \<equiv> unat (cc_window_size c)" and "newest \<equiv> r # rev rs"
  shows "cs_detected (fst (add_response env r d)) \<longleftrightarrow>
      k \<le> length newest \<and> (\<forall>i < k. newest ! i \<noteq> []) \<and> (\<forall>i. Suc i < k \<longrightarrow> similar_by env c (newest ! i) (newest ! Suc i))"
    and "cs_detected (check_convergence (snd (add_response env r d))) = cs_detected (fst (add_response env r d))"
proof -
  have new: "tracks env [] d0" by (rule tracks_new [OF assms(1,2)])
  have conf: "cd_config d0 = c" using assms(1) by (auto simp: new_convergence_def split: if_splits)
  have "tracks env (rev rs) d" unfolding d_def by (rule tracks_run [OF new])
  then have after: "tracks env newest (snd (add_response env r d))" unfolding newest_def by (rule tracks_add)
  have k: "0 < k" using new window_of_two conf unfolding tracks_def k_def by fastforce
  let ?d = "snd (add_response env r d)"
  have conf': "cd_config ?d = c" "cd_config d = c" by (simp_all add: d_def conf)
  have detected: "cs_detected (fst (add_response env r d)) \<longleftrightarrow> cc_window_size c \<le> cd_count ?d"
  proof (cases "r = []")
    case True
    have "\<not> cc_window_size c \<le> 0" using k by (auto simp: k_def word_le_nat_alt)
    then show ?thesis using True assms(2) conf' by (simp add: add_response_def no_convergence_def)
  next
    case False
    then show ?thesis using assms(2) conf' by (auto simp: add_response_def split: prod.split)
  qed
  moreover have reach: "cc_window_size c \<le> cd_count ?d \<longleftrightarrow> k \<le> streak (similar_by env c) newest"
    using reaches_window [OF after] conf' by (simp add: k_def)
  ultimately show "cs_detected (fst (add_response env r d)) \<longleftrightarrow>
      k \<le> length newest \<and> (\<forall>i < k. newest ! i \<noteq> []) \<and> (\<forall>i. Suc i < k \<longrightarrow> similar_by env c (newest ! i) (newest ! Suc i))"
    using streak_ge [OF k] by simp
  have "k \<le> length (cd_window ?d)" if "k \<le> streak (similar_by env c) newest"
  proof -
    have "k \<le> length newest" "\<forall>i < k. newest ! i \<noteq> []" using that streak_ge [OF k, of "similar_by env c" newest] by simp_all
    then have "\<forall>r \<in> set (take k newest). r \<noteq> []" by (auto simp: in_set_conv_nth)
    then have "take k newest = said (take k newest)" unfolding said_def using filter_True [of "take k newest" "\<lambda>r. r \<noteq> []"] by simp
    then have "k = length (said (take k newest))" using \<open>k \<le> length newest\<close> by (metis length_take min.absorb2)
    also have "\<dots> \<le> length (said newest)"
      unfolding said_def by (metis append_take_drop_id filter_append le_add1 length_append)
    finally show ?thesis using after conf' by (simp add: tracks_def k_def)
  qed
  then show "cs_detected (check_convergence ?d) = cs_detected (fst (add_response env r d))"
    using detected reach conf' assms(2) by (auto simp: check_convergence_def no_convergence_def k_def not_less)
qed

text \<open>
  the detector reports convergence exactly when the last responses, as many as the window is
  large, are all non-empty and each is similar to the one before it. Older responses, and empty ones
  in between, make no difference but for ending the streak; and asking the detector again answers
  the same.
\<close>

theorem convergence_is_a_run_of_similar_responses:
  assumes "new_convergence c = Inr d0" and "cc_enabled c"
  shows "cs_detected (fst (add_response env r (add_responses env rs d0))) =
      (unat (cc_window_size c) \<le> length (r # rev rs) \<and>
       (\<forall>i < unat (cc_window_size c). (r # rev rs) ! i \<noteq> []) \<and>
       (\<forall>i. Suc i < unat (cc_window_size c) \<longrightarrow> similar_by env c ((r # rev rs) ! i) ((r # rev rs) ! Suc i))) \<and>
    cs_detected (check_convergence (snd (add_response env r (add_responses env rs d0)))) =
      cs_detected (fst (add_response env r (add_responses env rs d0)))"
  using converged_iff [OF assms, of env r rs] by blast

text \<open>Small tables: two letters, everything else separates words, and exact division.\<close>

definition small_tables :: text_tables where
  "small_tables = \<lparr>tt_lowercase = id, tt_alphanumeric = (\<lambda>c. c \<in> {''o'', ''k''}), tt_round = id\<rparr>"

definition pair_config :: convergence_config where
  "pair_config = default_convergence_config\<lparr>cc_window_size := 2\<rparr>"

lemma small_ascii [simp]:
  "\<not> continues CHR ''o''" "\<not> continues CHR ''k''" "\<not> continues CHR ''!''" "\<not> continues CHR '' ''"
  by (simp_all add: continues_def)

lemma small_whitespace [simp]: "'' '' \<in> set utf8_whitespace" "''o'' \<notin> set utf8_whitespace" "''k'' \<notin> set utf8_whitespace"
  by (simp_all add: utf8_whitespace_def upt_rec char_of_def bit_simps)

lemma small_words: "words_of small_tables ''ok!'' = {''ok''}" "words_of small_tables '' ok'' = {''ok''}"
  by (simp_all add: words_of_def normalize_text_def small_tables_def split_whitespace_def)

lemma small_rounds: "rounds (tt_round small_tables)"
  by (simp add: small_tables_def rounds_def mono_def)

theorem similarity_measures_shared_words_witness: "compute_similarity small_tables ''ok!'' '' ok'' = 1"
  using similarity_measures_shared_words [OF small_rounds, of "''ok!''" "'' ok''"] by (simp add: small_words)

theorem convergence_is_a_run_of_similar_responses_witness:
  "\<exists>d0. new_convergence pair_config = Inr d0 \<and>
    cs_detected (fst (add_response small_tables ''ok!'' (add_responses small_tables ['' ok''] d0)))"
proof -
  obtain d0 where new: "new_convergence pair_config = Inr d0"
    by (simp add: new_convergence_def pair_config_def default_convergence_config_def)
  have enabled: "cc_enabled pair_config" and two: "unat (cc_window_size pair_config) = 2"
    by (simp_all add: pair_config_def default_convergence_config_def)
  have "compute_similarity small_tables ''ok!'' '' ok'' = 1"
    using similarity_same_words [OF small_rounds, of "''ok!''" "'' ok''"] by (simp add: small_words)
  then have "similar_by small_tables pair_config ''ok!'' '' ok''"
    by (simp add: similar_by_def pair_config_def default_convergence_config_def)
  then show ?thesis
    using convergence_is_a_run_of_similar_responses [OF new enabled, of small_tables "''ok!''" "['' ok'']"] new
    by (auto simp: two less_2_cases_iff nth_Cons split: nat.splits)
qed

end
