(* ===== verification/Detection.thy ===== *)
theory Detection
  imports Loop_Detector Convergence Dispatch
begin

section \<open>The detection manager\<close>

text \<open>
  src/src/detection/manager.rs joins the loop detector and the convergence detector and keeps
  statistics; the driver (src/src/engine/bare/dispatch.rs, src/src/engine/bare/llm\_turn.rs and
  src/src/engine/bare.rs) asks it before a dispatch, records after it, records a final response and
  settles the window when a run ends. A mutex is a flag that says whether it is poisoned; the order
  in which the map of counts is iterated is the argument \<open>iter\<close>.
\<close>

datatype detected_pattern =
    LoopFound usize string
  | ConvergenceFound rat usize
  | NoPattern

record detection_config =
  dc_loop_threshold :: usize
  dc_stop_threshold :: usize
  dc_enable_loop :: bool
  dc_max_history :: usize
  dc_convergence_threshold :: float64
  dc_convergence_count :: usize
  dc_enable_convergence :: bool
  dc_on_converge :: convergence_action

definition default_detection_config :: detection_config where
  "default_detection_config =
     \<lparr>dc_loop_threshold = 3, dc_stop_threshold = 10, dc_enable_loop = True, dc_max_history = 100,
      dc_convergence_threshold = Finite (15938355 / 16777216), dc_convergence_count = 3,
      dc_enable_convergence = True, dc_on_converge = ConvWarn\<rparr>"

definition to_convergence_config :: "detection_config \<Rightarrow> convergence_config" where
  "to_convergence_config c =
     \<lparr>cc_enabled = dc_enable_convergence c, cc_window_size = dc_convergence_count c,
      cc_threshold = dc_convergence_threshold c, cc_on_converge = dc_on_converge c\<rparr>"

definition to_loop_detector_config :: "detection_config \<Rightarrow> detector_config" where
  "to_loop_detector_config c =
     default_detector_config\<lparr>window_size := dc_max_history c, repetition_threshold := dc_loop_threshold c,
       stop_threshold := dc_stop_threshold c\<rparr>"

record detection_stats =
  ds_turns_analyzed :: usize
  ds_loops_detected :: usize
  ds_convergences_detected :: usize
  ds_current_streak :: usize

definition zero_stats :: detection_stats where
  "zero_stats = \<lparr>ds_turns_analyzed = 0, ds_loops_detected = 0, ds_convergences_detected = 0, ds_current_streak = 0\<rparr>"

record 'v detection_manager =
  dm_config :: detection_config
  dm_loop :: "'v loop_detector"
  dm_convergence :: convergence_detector
  dm_convergence_poisoned :: bool
  dm_stats :: detection_stats
  dm_stats_poisoned :: bool

subsection \<open>Construction\<close>

definition manager_with :: "detection_config \<Rightarrow> 'v loop_detector \<Rightarrow> convergence_config_error + 'v detection_manager" where
  "manager_with c l =
     (case new_convergence (to_convergence_config c) of
        Inl e \<Rightarrow> Inl e
      | Inr cd \<Rightarrow> Inr \<lparr>dm_config = c, dm_loop = l, dm_convergence = cd, dm_convergence_poisoned = False,
                       dm_stats = zero_stats, dm_stats_poisoned = False\<rparr>)"

definition new_with_config :: "detection_config \<Rightarrow> convergence_config_error + 'v detection_manager" where
  "new_with_config c = manager_with c (new_detector (to_loop_detector_config c) no_op_tool_signature)"

definition new_with_loop_detector ::
  "detection_config \<Rightarrow> 'v loop_detector \<Rightarrow> convergence_config_error + 'v detection_manager" where
  "new_with_loop_detector c l = manager_with c l"

definition manager_with_signature ::
  "(string \<Rightarrow> usize option) \<Rightarrow> 'v tool_signature \<Rightarrow> convergence_config_error + 'v detection_manager" where
  "manager_with_signature thresholds sig =
     manager_with default_detection_config
       (new_detector ((to_loop_detector_config default_detection_config)\<lparr>tool_thresholds := thresholds\<rparr>) sig)"

definition new_manager :: "convergence_config_error + 'v detection_manager" where
  "new_manager = new_with_config default_detection_config"

definition default_manager :: "'v detection_manager" where
  "default_manager =
     \<lparr>dm_config = default_detection_config,
      dm_loop = new_detector (to_loop_detector_config default_detection_config) no_op_tool_signature,
      dm_convergence = default_convergence, dm_convergence_poisoned = False,
      dm_stats = zero_stats, dm_stats_poisoned = False\<rparr>"

subsection \<open>Operations\<close>

definition describe_loop :: "loop_status \<Rightarrow> string" where
  "describe_loop st =
     (case repeated_operations st of [] \<Rightarrow> [] | op # _ \<Rightarrow> op_tool op @ ''('' @ primary_param op @ '')'')"

definition count_turn :: "detection_stats \<Rightarrow> detection_stats" where
  "count_turn s = s\<lparr>ds_turns_analyzed := sat_add (ds_turns_analyzed s) 1\<rparr>"

definition manager_record ::
  "(counts \<Rightarrow> counts) \<Rightarrow> operation \<Rightarrow> 'v detection_manager \<Rightarrow> detected_pattern result \<times> 'v detection_manager" where
  "manager_record iter operation m =
     (if \<not> dc_enable_loop (dm_config m) then (Inr NoPattern, m)
      else
        (let l1 = Loop_Detector.record_operation operation (dm_loop m);
             status = check_loop iter l1;
             l2 = (if should_stop status then mark_warned (repeated_operations status) l1 else l1);
             m1 = m\<lparr>dm_loop := l2\<rparr>;
             s = count_turn (dm_stats m)
         in if dm_stats_poisoned m then (Inl (from_poison ''detection_stats''), m1)
            else if is_looping status
            then (Inr (LoopFound (repetition_count status) (describe_loop status)),
                  m1\<lparr>dm_stats := s\<lparr>ds_loops_detected := sat_add (ds_loops_detected s) 1,
                                  ds_current_streak := repetition_count status\<rparr>\<rparr>)
            else (Inr NoPattern, m1\<lparr>dm_stats := s\<lparr>ds_current_streak := max_operation_count l2\<rparr>\<rparr>)))"

definition acknowledge_loop_warning :: "operation list \<Rightarrow> 'v detection_manager \<Rightarrow> 'v detection_manager" where
  "acknowledge_loop_warning repeated m = m\<lparr>dm_loop := mark_warned repeated (dm_loop m)\<rparr>"

definition hashed_operation :: "string \<Rightarrow> u64 \<Rightarrow> operation" where
  "hashed_operation tool input_hash = new_operation tool (''hash:'' @ show_nat (unat input_hash))"

definition record_tool_call ::
  "(counts \<Rightarrow> counts) \<Rightarrow> string \<Rightarrow> u64 \<Rightarrow> 'v detection_manager \<Rightarrow> detected_pattern result \<times> 'v detection_manager" where
  "record_tool_call iter tool input_hash m = manager_record iter (hashed_operation tool input_hash) m"

definition record_tool_call_with_result ::
  "(counts \<Rightarrow> counts) \<Rightarrow> string \<Rightarrow> u64 \<Rightarrow> u64 option \<Rightarrow> 'v detection_manager \<Rightarrow>
   detected_pattern result \<times> 'v detection_manager" where
  "record_tool_call_with_result iter tool input_hash hash m =
     manager_record iter (with_result_hash hash (hashed_operation tool input_hash)) m"

definition loop_pattern :: "loop_status \<Rightarrow> detected_pattern option" where
  "loop_pattern st = (if is_looping st then Some (LoopFound (repetition_count st) (describe_loop st)) else None)"

definition check_loop_pattern :: "(counts \<Rightarrow> counts) \<Rightarrow> 'v detection_manager \<Rightarrow> detected_pattern" where
  "check_loop_pattern iter m =
     (if \<not> dc_enable_loop (dm_config m) then NoPattern
      else (case loop_pattern (check_loop iter (dm_loop m)) of Some p \<Rightarrow> p | None \<Rightarrow> NoPattern))"

definition manager_check_convergence :: "'v detection_manager \<Rightarrow> convergence_status result" where
  "manager_check_convergence m =
     (if dm_convergence_poisoned m then Inl (from_poison ''convergence_detector'')
      else Inr (check_convergence (dm_convergence m)))"

definition check_convergence_pattern :: "'v detection_manager \<Rightarrow> detected_pattern result" where
  "check_convergence_pattern m =
     (case manager_check_convergence m of
        Inl e \<Rightarrow> Inl e
      | Inr st \<Rightarrow> Inr (if cs_detected st then ConvergenceFound (cs_similarity st) (cs_consecutive st) else NoPattern))"

definition check_current_pattern :: "(counts \<Rightarrow> counts) \<Rightarrow> 'v detection_manager \<Rightarrow> detected_pattern result" where
  "check_current_pattern iter m =
     (if \<not> dc_enable_loop (dm_config m) then check_convergence_pattern m
      else
        (case loop_pattern (check_loop iter (dm_loop m)) of
           Some p \<Rightarrow> Inr p
         | None \<Rightarrow> check_convergence_pattern m))"

definition consume_pending_loop_stop :: "(counts \<Rightarrow> counts) \<Rightarrow> 'v detection_manager \<Rightarrow> 'v detection_manager" where
  "consume_pending_loop_stop iter m =
     (if \<not> dc_enable_loop (dm_config m) then m
      else if should_stop (check_loop iter (dm_loop m)) then m\<lparr>dm_loop := clear_detector (dm_loop m)\<rparr> else m)"

definition record_response ::
  "text_tables \<Rightarrow> string \<Rightarrow> 'v detection_manager \<Rightarrow> detected_pattern result \<times> 'v detection_manager" where
  "record_response env response m =
     (if \<not> dc_enable_convergence (dm_config m) then (Inr NoPattern, m)
      else if dm_convergence_poisoned m then (Inl (from_poison ''convergence_detector''), m)
      else
        (case add_response env response (dm_convergence m) of
           (status, cd) \<Rightarrow>
             (let m1 = m\<lparr>dm_convergence := cd\<rparr> in
              if \<not> cs_detected status then (Inr NoPattern, m1)
              else if dm_stats_poisoned m then (Inl (from_poison ''detection_stats''), m1)
              else (Inr (ConvergenceFound (cs_similarity status) (cs_consecutive status)),
                    m1\<lparr>dm_stats := (dm_stats m)\<lparr>ds_convergences_detected :=
                        sat_add (ds_convergences_detected (dm_stats m)) 1\<rparr>\<rparr>))))"

definition manager_stats :: "'v detection_manager \<Rightarrow> detection_stats result" where
  "manager_stats m = (if dm_stats_poisoned m then Inl (from_poison ''detection_stats'') else Inr (dm_stats m))"

definition reset_manager :: "'v detection_manager \<Rightarrow> unit result \<times> 'v detection_manager" where
  "reset_manager m =
     (let m1 = m\<lparr>dm_loop := reset_detector (dm_loop m)\<rparr> in
      if dm_convergence_poisoned m then (Inl (from_poison ''convergence_detector''), m1)
      else
        (let m2 = m1\<lparr>dm_convergence := clear_convergence (dm_convergence m1)\<rparr> in
         if dm_stats_poisoned m then (Inl (from_poison ''detection_stats''), m2)
         else (Inr (), m2\<lparr>dm_stats := zero_stats\<rparr>)))"

subsection \<open>The driver's use\<close>

text \<open>\<open>se_disabled\<close> is the driver's flag that detection is skipped for the rest of the session.\<close>

record 'v detection_seam =
  se_manager :: "'v detection_manager"
  se_disabled :: bool

definition decide_detected_pattern ::
  "(counts \<Rightarrow> counts) \<Rightarrow> detected_pattern \<Rightarrow> 'v detection_manager \<Rightarrow> loop_error option \<times> 'v detection_manager" where
  "decide_detected_pattern iter pattern m =
     (case pattern of
        NoPattern \<Rightarrow> (None, m)
      | LoopFound repetitions description \<Rightarrow>
          if should_stop (check_loop iter (dm_loop m))
          then (Some (ErrLoopDetected (description @ '' repeated '' @ show_nat (unat repetitions) @ '' times'')),
                m\<lparr>dm_loop := clear_detector (dm_loop m)\<rparr>)
          else (None, m)
      | ConvergenceFound _ _ \<Rightarrow>
          (case dc_on_converge (dm_config m) of
             ConvStop \<Rightarrow> (Some (ErrLoopDetected ''agent stopped: convergence detected''), m)
           | ConvAskUser \<Rightarrow> (Some (UserInputRequired ''convergence detected, user input needed''), m)
           | _ \<Rightarrow> (None, m)))"

definition pre_detection :: "(counts \<Rightarrow> counts) \<Rightarrow> 'v detection_seam \<Rightarrow> unit result \<times> 'v detection_seam" where
  "pre_detection iter s =
     (if se_disabled s then (Inr (), s)
      else
        (case decide_detected_pattern iter (check_loop_pattern iter (se_manager s)) (se_manager s) of
           (Some e, m) \<Rightarrow> (Inl e, s\<lparr>se_manager := m\<rparr>)
         | (None, m) \<Rightarrow> (Inr (), s\<lparr>se_manager := m\<rparr>)))"

definition detection_primary_param :: "('v \<Rightarrow> string) \<Rightarrow> string \<Rightarrow> 'v \<Rightarrow> 'v detection_manager \<Rightarrow> string" where
  "detection_primary_param json tool input m =
     (let extracted = extract_primary_param (ld_signature (dm_loop m)) tool input
      in if extracted = [] then json input else extracted)"

definition result_content :: "tool_content \<Rightarrow> string" where
  "result_content out = (case out of TCText t \<Rightarrow> t | TCMultipart _ \<Rightarrow> show_tool_content out)"

definition post_detection ::
  "(counts \<Rightarrow> counts) \<Rightarrow> ('v \<Rightarrow> string) \<Rightarrow> (string \<Rightarrow> u64) \<Rightarrow> 'v tool_call \<Rightarrow> dispatch_result \<Rightarrow>
   'v detection_seam \<Rightarrow> 'v detection_seam" where
  "post_detection iter json hasher tc dispatched s =
     (let operation = \<lparr>op_tool = tc_tool tc,
                       primary_param = detection_primary_param json (tc_tool tc) (tc_input tc) (se_manager s),
                       result_hash = hash_result hasher (result_content (dr_output dispatched))\<rparr>
      in case manager_record iter operation (se_manager s) of
           (Inl (LockPoisoned what), m) \<Rightarrow> s\<lparr>se_manager := m, se_disabled := True\<rparr>
         | (_, m) \<Rightarrow> s\<lparr>se_manager := m\<rparr>)"

text \<open>What the driver does with a response that calls no tool.\<close>

definition response_detection ::
  "(counts \<Rightarrow> counts) \<Rightarrow> text_tables \<Rightarrow> bool \<Rightarrow> string \<Rightarrow> 'v detection_seam \<Rightarrow> unit result \<times> 'v detection_seam" where
  "response_detection iter env calls_tools response s =
     (case (if \<not> calls_tools \<and> \<not> se_disabled s
            then (case record_response env response (se_manager s) of
                    (Inr p, m) \<Rightarrow> (Inr p, s\<lparr>se_manager := m\<rparr>)
                  | (Inl (LockPoisoned what), m) \<Rightarrow> (Inr NoPattern, s\<lparr>se_manager := m, se_disabled := True\<rparr>)
                  | (Inl e, m) \<Rightarrow> (Inl e, s\<lparr>se_manager := m\<rparr>))
            else (Inr NoPattern, s)) of
        (Inl e, s1) \<Rightarrow> (Inl e, s1)
      | (Inr p, s1) \<Rightarrow>
          (case decide_detected_pattern iter p (se_manager s1) of
             (Some e, m) \<Rightarrow> (Inl e, s1\<lparr>se_manager := m\<rparr>)
           | (None, m) \<Rightarrow> (Inr (), s1\<lparr>se_manager := m\<rparr>)))"

section \<open>What the manager does\<close>

subsection \<open>Stops are consumed\<close>

lemma iterated_none: "iteration_order iter \<Longrightarrow> iter (count_operations []) = []"
  by (auto simp: iteration_order_def count_operations_def dest: spec [of _ "[]"])

lemma cleared_never_stops:
  assumes "iteration_order iter"
  shows "\<not> is_looping (check_loop iter (clear_detector d))" and "\<not> should_stop (check_loop iter (clear_detector d))"
proof -
  have "check_loop iter (clear_detector d) = default_status \<or>
      operations (clear_detector d) = [] \<and> \<not> operations_poisoned (clear_detector d)"
    by (auto simp: clear_detector_def check_loop_def Let_def)
  then have "\<not> is_looping (check_loop iter (clear_detector d)) \<and> \<not> should_stop (check_loop iter (clear_detector d))"
  proof (elim disjE conjE)
    assume "operations (clear_detector d) = []" and "\<not> operations_poisoned (clear_detector d)"
    then show ?thesis
      by (auto simp: check_loop_def find_repeated_def iterated_none [OF assms] Let_def)
  qed (simp add: default_status_def)
  then show "\<not> is_looping (check_loop iter (clear_detector d))" "\<not> should_stop (check_loop iter (clear_detector d))"
    by simp_all
qed

lemma passes_without_stop:
  "\<not> should_stop (check_loop iter (dm_loop (se_manager s))) \<Longrightarrow> pre_detection iter s = (Inr (), s)"
  by (auto simp: pre_detection_def check_loop_pattern_def loop_pattern_def decide_detected_pattern_def)

lemma pre_detection_cases:
  "pre_detection iter s = (Inr (), s) \<or>
   (\<exists>message. pre_detection iter s = (Inl (ErrLoopDetected message),
      s\<lparr>se_manager := (se_manager s)\<lparr>dm_loop := clear_detector (dm_loop (se_manager s))\<rparr>\<rparr>))"
  by (auto simp: pre_detection_def check_loop_pattern_def loop_pattern_def decide_detected_pattern_def)

text \<open>
  A stop fires once. When the check before a dispatch stops the run, the window is emptied with it
  and the next check passes; and a stop that never fired is settled when the run ends, so the first
  dispatch of the next run passes. Settling touches neither a window below the stop line nor the
  convergence detector nor the statistics.
\<close>

theorem stop_is_consumed:
  assumes "iteration_order iter" and "iteration_order iter'"
  shows "(case pre_detection iter s of
      (Inl e, s') \<Rightarrow> (\<exists>message. e = ErrLoopDetected message) \<and> pre_detection iter' s' = (Inr (), s')
    | (Inr _, s') \<Rightarrow> s' = s) \<and>
   (let m = se_manager s; m' = consume_pending_loop_stop iter m
    in fst (pre_detection iter (s\<lparr>se_manager := m'\<rparr>)) = Inr () \<and>
       (\<not> should_stop (check_loop iter (dm_loop m)) \<longrightarrow> m' = m) \<and>
       dm_convergence m' = dm_convergence m \<and> dm_stats m' = dm_stats m)"
proof (intro conjI)
  show "case pre_detection iter s of
      (Inl e, s') \<Rightarrow> (\<exists>message. e = ErrLoopDetected message) \<and> pre_detection iter' s' = (Inr (), s')
    | (Inr _, s') \<Rightarrow> s' = s"
    using pre_detection_cases [of iter s] by (auto simp: passes_without_stop cleared_never_stops [OF assms(2)])
  show "let m = se_manager s; m' = consume_pending_loop_stop iter m
    in fst (pre_detection iter (s\<lparr>se_manager := m'\<rparr>)) = Inr () \<and>
       (\<not> should_stop (check_loop iter (dm_loop m)) \<longrightarrow> m' = m) \<and>
       dm_convergence m' = dm_convergence m \<and> dm_stats m' = dm_stats m"
  proof (cases "dc_enable_loop (dm_config (se_manager s)) \<and> should_stop (check_loop iter (dm_loop (se_manager s)))")
    case True
    let ?s = "s\<lparr>se_manager := (se_manager s)\<lparr>dm_loop := clear_detector (dm_loop (se_manager s))\<rparr>\<rparr>"
    have "pre_detection iter ?s = (Inr (), ?s)" by (rule passes_without_stop) (simp add: cleared_never_stops [OF assms(1)])
    then show ?thesis using True by (simp add: consume_pending_loop_stop_def Let_def)
  next
    case False
    then have "pre_detection iter s = (Inr (), s)"
      using passes_without_stop [of iter s]
      by (cases "dc_enable_loop (dm_config (se_manager s))")
        (auto simp: pre_detection_def check_loop_pattern_def decide_detected_pattern_def)
    then show ?thesis using False by (auto simp: consume_pending_loop_stop_def Let_def)
  qed
qed

subsection \<open>Statistics\<close>

definition record_all ::
  "(counts \<Rightarrow> counts) \<Rightarrow> operation list \<Rightarrow> 'v detection_manager \<Rightarrow> detected_pattern list \<times> 'v detection_manager" where
  "record_all iter ops m =
     foldl (\<lambda>(ps, m) op. case manager_record iter op m of (Inr p, m') \<Rightarrow> (ps @ [p], m') | (Inl _, m') \<Rightarrow> (ps, m')) ([], m) ops"

fun is_loop_found :: "detected_pattern \<Rightarrow> bool" where
  "is_loop_found (LoopFound _ _) = True"
| "is_loop_found _ = False"

lemma record_all_snoc:
  "record_all iter (ops @ [op]) m =
     (case record_all iter ops m of (ps, m1) \<Rightarrow>
        case manager_record iter op m1 of (Inr p, m') \<Rightarrow> (ps @ [p], m') | (Inl _, m') \<Rightarrow> (ps, m'))"
  by (simp add: record_all_def split: prod.split)

lemma manager_record_healthy:
  assumes "dc_enable_loop (dm_config m)" and "\<not> dm_stats_poisoned m"
  obtains p m' where "manager_record iter op m = (Inr p, m')" and "dm_config m' = dm_config m" and "\<not> dm_stats_poisoned m'"
    and "ds_turns_analyzed (dm_stats m') = sat_add (ds_turns_analyzed (dm_stats m)) 1"
    and "ds_loops_detected (dm_stats m') =
      (if is_loop_found p then sat_add (ds_loops_detected (dm_stats m)) 1 else ds_loops_detected (dm_stats m))"
    and "ds_convergences_detected (dm_stats m') = ds_convergences_detected (dm_stats m)"
  using assms that by (cases "manager_record iter op m") (auto simp: manager_record_def Let_def count_turn_def split: if_splits)

lemma stats_account_run:
  assumes "dc_enable_loop (dm_config m)" and "\<not> dm_stats_poisoned m" and "dm_stats m = zero_stats"
  shows "length (fst (record_all iter ops m)) = length ops \<and>
    unat (ds_turns_analyzed (dm_stats (snd (record_all iter ops m)))) = min (length ops) (2 ^ 64 - 1) \<and>
    unat (ds_loops_detected (dm_stats (snd (record_all iter ops m)))) =
      min (length (filter is_loop_found (fst (record_all iter ops m)))) (2 ^ 64 - 1) \<and>
    dm_config (snd (record_all iter ops m)) = dm_config m \<and> \<not> dm_stats_poisoned (snd (record_all iter ops m))"
proof (induction ops rule: rev_induct)
  case Nil
  then show ?case using assms by (simp add: record_all_def zero_stats_def)
next
  case (snoc op ops)
  obtain ps m1 where before: "record_all iter ops m = (ps, m1)" by (cases "record_all iter ops m")
  have "dc_enable_loop (dm_config m1)" "\<not> dm_stats_poisoned m1" using snoc before assms by simp_all
  then obtain p m' where "manager_record iter op m1 = (Inr p, m')" "dm_config m' = dm_config m1" "\<not> dm_stats_poisoned m'"
    "ds_turns_analyzed (dm_stats m') = sat_add (ds_turns_analyzed (dm_stats m1)) 1"
    "ds_loops_detected (dm_stats m') =
      (if is_loop_found p then sat_add (ds_loops_detected (dm_stats m1)) 1 else ds_loops_detected (dm_stats m1))"
    by (rule manager_record_healthy)
  moreover have step: "unat (sat_add w 1) = min (Suc n) (2 ^ 64 - 1)" if "unat w = min n (2 ^ 64 - 1)" for w :: usize and n
    using that by (simp add: unat_sat_add min_def)
  moreover have "unat (ds_turns_analyzed (dm_stats m1)) = min (length ops) (2 ^ 64 - 1)"
    "unat (ds_loops_detected (dm_stats m1)) = min (length (filter is_loop_found ps)) (2 ^ 64 - 1)"
    "length ps = length ops" "dm_config m1 = dm_config m" using snoc.IH before by simp_all
  ultimately show ?case
    using step [of "ds_turns_analyzed (dm_stats m1)" "length ops"] step [of "ds_loops_detected (dm_stats m1)"]
    by (simp only: record_all_snoc before prod.case sum.case fst_conv snd_conv) (cases "is_loop_found p"; simp)
qed

subsection \<open>A call that repeats itself\<close>

lemma counts_replicate:
  assumes "0 < n" and "n < 2 ^ 64"
  shows "count_operations (replicate n op) = [(op, of_nat n)]"
  using assms
proof (induction n)
  case (Suc n)
  show ?case
  proof (cases "n = 0")
    case False
    then have "count_operations (replicate n op @ [op]) = [(op, sat_add (of_nat n) 1)]"
      using Suc by (simp add: count_operations_def)
    also have "sat_add (of_nat n) 1 = (of_nat (Suc n) :: usize)" using Suc.prems by (intro sat_add_of_nat) simp
    finally show ?thesis by (simp add: replicate_append_same [symmetric])
  qed (simp add: count_operations_def)
qed simp

lemma check_replicate:
  assumes "operations d = replicate n op" and "0 < n" and "n < 2 ^ 64" and "\<not> operations_poisoned d" and "iteration_order iter"
  shows "is_looping (check_loop iter d) \<longleftrightarrow> unat (threshold_for_tool (ld_config d) (op_tool op)) \<le> n"
    and "should_stop (check_loop iter d) \<longleftrightarrow> is_looping (check_loop iter d) \<and> 0 < unat (stop_threshold (ld_config d)) \<and>
      unat (stop_threshold (ld_config d)) \<le> n"
    and "is_looping (check_loop iter d) \<Longrightarrow> repeated_operations (check_loop iter d) = [op] \<and>
      repetition_count (check_loop iter d) = of_nat n"
proof -
  have "mset (iter (count_operations (operations d))) = {#(op, of_nat n)#}"
    using assms(5) by (simp add: iteration_order_def assms(1) counts_replicate [OF assms(2,3)])
  then have iter: "iter (count_operations (operations d)) = [(op, of_nat n)]"
    by (metis mset_single_iff_right)
  have n: "unat (of_nat n :: usize) = n" using assms(3) by (simp add: unat_of_nat)
  have pos: "(of_nat n :: usize) \<noteq> 0" using n assms(2) by (metis unat_0 less_not_refl)
  note fields = check_loop_fields [OF assms(4), of iter]
  have q: "qualifies (threshold_for_tool (ld_config d)) (op, of_nat n) \<longleftrightarrow>
      unat (threshold_for_tool (ld_config d) (op_tool op)) \<le> n"
    by (simp add: qualifies_def word_le_nat_alt n)
  have count: "top_count (threshold_for_tool (ld_config d)) [(op, of_nat n)] =
      (if unat (threshold_for_tool (ld_config d) (op_tool op)) \<le> n then of_nat n else 0)"
    using q by (auto simp: top_count_def Collect_conv_if max_def)
  show "is_looping (check_loop iter d) \<longleftrightarrow> unat (threshold_for_tool (ld_config d) (op_tool op)) \<le> n"
    unfolding fields(3) iter top_ops_def using q count by simp
  then show "should_stop (check_loop iter d) \<longleftrightarrow> is_looping (check_loop iter d) \<and> 0 < unat (stop_threshold (ld_config d)) \<and>
      unat (stop_threshold (ld_config d)) \<le> n"
    unfolding fields(4) iter count using assms(2) by (auto simp: word_le_nat_alt word_less_nat_alt n)
  show "repeated_operations (check_loop iter d) = [op] \<and> repetition_count (check_loop iter d) = of_nat n"
    if "is_looping (check_loop iter d)"
    using that unfolding fields iter top_ops_def using q count by (auto split: if_splits)
qed

lemma record_repeated:
  assumes "operations d = replicate n op" and "warned_operations d \<subseteq> {op}" and "\<not> operations_poisoned d"
    and "0 < unat (window_size (ld_config d))" and "n \<le> unat (window_size (ld_config d))"
  shows "operations (Loop_Detector.record_operation op d) = replicate (min (Suc n) (unat (window_size (ld_config d)))) op"
    and "warned_operations (Loop_Detector.record_operation op d) \<subseteq> {op}"
    and "ld_config (Loop_Detector.record_operation op d) = ld_config d"
    and "\<not> operations_poisoned (Loop_Detector.record_operation op d)"
proof -
  let ?w = "unat (window_size (ld_config d))"
  have same: "{x \<in> warned_operations d. \<not> superseded_by op x} = warned_operations d" "\<not> (\<exists>x \<in> warned_operations d. superseded_by op x)"
    using assms(2) by (auto simp: superseded_by_def)
  have "window_push ?w (replicate n op) op = last_n ?w (replicate n op @ [op])"
    by (rule deque.push_last_n) (use assms(4,5) in simp_all)
  also have "replicate n op @ [op] = replicate (Suc n) op" by (simp add: replicate_append_same)
  also have "last_n ?w (replicate (Suc n) op) = replicate (min (Suc n) ?w) op"
    by (simp add: last_n_def min_def del: replicate_Suc)
  finally have push: "window_push ?w (replicate n op) op = replicate (min (Suc n) ?w) op" .
  show "operations (Loop_Detector.record_operation op d) = replicate (min (Suc n) ?w) op"
    "warned_operations (Loop_Detector.record_operation op d) \<subseteq> {op}"
    "ld_config (Loop_Detector.record_operation op d) = ld_config d"
    "\<not> operations_poisoned (Loop_Detector.record_operation op d)"
    using assms same push by (auto simp: Loop_Detector.record_operation_def Let_def)
qed

lemma marked_detector [simp]:
  "operations (mark_warned ops d) = operations d" "ld_config (mark_warned ops d) = ld_config d"
  "operations_poisoned (mark_warned ops d) = operations_poisoned d"
  by (simp_all add: mark_warned_def split: list.split)

lemma check_marked: "should_stop (check_loop iter (mark_warned ops d)) = should_stop (check_loop iter d)"
  "is_looping (check_loop iter (mark_warned ops d)) = is_looping (check_loop iter d)"
  "repetition_count (check_loop iter (mark_warned ops d)) = repetition_count (check_loop iter d)"
  "repeated_operations (check_loop iter (mark_warned ops d)) = repeated_operations (check_loop iter d)"
  by (simp_all add: check_loop_def Let_def split: prod.split)

text \<open>A window that holds nothing but the one operation.\<close>

definition holds_only :: "operation \<Rightarrow> nat \<Rightarrow> detector_config \<Rightarrow> 'v detection_manager \<Rightarrow> bool" where
  "holds_only op n cfg m \<longleftrightarrow>
     operations (dm_loop m) = replicate n op \<and> warned_operations (dm_loop m) \<subseteq> {op} \<and>
     \<not> operations_poisoned (dm_loop m) \<and> ld_config (dm_loop m) = cfg \<and>
     dc_enable_loop (dm_config m) \<and> \<not> dm_stats_poisoned m"

lemma holds_only_record:
  assumes "holds_only op n cfg m" and "0 < unat (window_size cfg)" and "n \<le> unat (window_size cfg)" and "iteration_order iter"
  defines "n' \<equiv> min (Suc n) (unat (window_size cfg))"
  shows "\<exists>m'. manager_record iter op m = (Inr
      (if unat (threshold_for_tool cfg (op_tool op)) \<le> n'
       then LoopFound (of_nat n') (op_tool op @ ''('' @ primary_param op @ '')'') else NoPattern), m') \<and>
    holds_only op n' cfg m'"
proof -
  let ?d = "Loop_Detector.record_operation op (dm_loop m)"
  have conf: "ld_config (dm_loop m) = cfg" using assms(1) by (simp add: holds_only_def)
  note rec = record_repeated [of "dm_loop m" n op, unfolded conf, folded n'_def]
  have d: "operations ?d = replicate n' op" "warned_operations ?d \<subseteq> {op}" "ld_config ?d = cfg" "\<not> operations_poisoned ?d"
    using assms(1-3) rec by (simp_all add: holds_only_def)
  have n': "0 < n'" "n' < 2 ^ 64" using assms(2) unat_less_pow [of "window_size cfg"] by (auto simp: n'_def)
  note check = check_replicate [OF d(1) n' d(4) assms(4), unfolded d(3)]
  have "warned_operations (mark_warned [op] ?d) \<subseteq> {op}" using d(2) by (simp add: mark_warned_def)
  moreover have "repeated_operations (check_loop iter ?d) = [op]" if "should_stop (check_loop iter ?d)"
    using check(2,3) that by blast
  ultimately show ?thesis
    using assms(1) d check(1,3) by (auto simp: manager_record_def Let_def holds_only_def describe_loop_def)
qed

lemma holds_only_run:
  assumes "holds_only op 0 cfg m" and "0 < unat (window_size cfg)" and "iteration_order iter"
  shows "holds_only op (min k (unat (window_size cfg))) cfg (snd (record_all iter (replicate k op) m)) \<and>
    (0 < k \<longrightarrow> last (fst (record_all iter (replicate k op) m)) =
      (let n = min k (unat (window_size cfg)) in
       if unat (threshold_for_tool cfg (op_tool op)) \<le> n
       then LoopFound (of_nat n) (op_tool op @ ''('' @ primary_param op @ '')'') else NoPattern))"
proof (induction k)
  case 0
  then show ?case using assms by (simp add: record_all_def)
next
  case (Suc k)
  let ?w = "unat (window_size cfg)"
  obtain ps m1 where before: "record_all iter (replicate k op) m = (ps, m1)" by (cases "record_all iter (replicate k op) m")
  have min: "min (Suc (min k ?w)) ?w = min (Suc k) ?w" by simp
  have "holds_only op (min k ?w) cfg m1" using Suc before by simp
  from holds_only_record [OF this assms(2) _ assms(3)] obtain m' where
    "manager_record iter op m1 = (Inr
      (if unat (threshold_for_tool cfg (op_tool op)) \<le> min (Suc k) ?w
       then LoopFound (of_nat (min (Suc k) ?w)) (op_tool op @ ''('' @ primary_param op @ '')'') else NoPattern), m')"
    "holds_only op (min (Suc k) ?w) cfg m'"
    unfolding min by auto
  moreover have "record_all iter (replicate (Suc k) op) m = record_all iter (replicate k op @ [op]) m"
    by (simp add: replicate_append_same)
  ultimately show ?case using before by (simp add: record_all_snoc Let_def)
qed

text \<open>
  C29: a stuck agent is stopped. However often the same call with the same result is recorded on a
  fresh manager, the last record answers a loop of exactly that many repetitions (at most the size of
  the window) once the threshold of the tool is reached, and no pattern before; and the check before
  the next dispatch ends the run exactly when the stop threshold is on and reached as well.
\<close>

theorem repeated_call_is_stopped:
  assumes "new_with_loop_detector c (new_detector cfg sig) = Inr m0" and "dc_enable_loop c"
    and "iteration_order iter" and "0 < k"
  shows "let n = min k (max 1 (unat (window_size cfg)));
             looping = unat (threshold_for_tool cfg (op_tool op)) \<le> n;
             description = op_tool op @ ''('' @ primary_param op @ '')'';
             (patterns, m) = record_all iter (replicate k op) m0
         in last patterns = (if looping then LoopFound (of_nat n) description else NoPattern) \<and>
            fst (pre_detection iter \<lparr>se_manager = m, se_disabled = False\<rparr>) =
              (if looping \<and> 0 < unat (stop_threshold cfg) \<and> unat (stop_threshold cfg) \<le> n
               then Inl (ErrLoopDetected (description @ '' repeated '' @ show_nat n @ '' times'')) else Inr ())"
proof -
  let ?cfg = "ld_config (new_detector cfg sig)"
  have fields: "unat (window_size ?cfg) = max 1 (unat (window_size cfg))" "threshold_for_tool ?cfg = threshold_for_tool cfg"
    "stop_threshold ?cfg = stop_threshold cfg"
    by (simp_all add: new_detector_def max_def unat_gt_0 Suc_le_eq threshold_for_tool_def fun_eq_iff split: option.split)
  have pos: "0 < unat (window_size ?cfg)" by (simp add: fields)
  have "holds_only op 0 ?cfg m0"
    using assms(1,2) by (auto simp: new_with_loop_detector_def manager_with_def holds_only_def new_detector_def split: sum.splits)
  note run = holds_only_run [OF this pos assms(3), of k, unfolded fields]
  let ?n = "min k (max 1 (unat (window_size cfg)))"
  obtain ps m where rec: "record_all iter (replicate k op) m0 = (ps, m)" by (cases "record_all iter (replicate k op) m0")
  have held: "holds_only op ?n ?cfg m" using run rec by simp
  have n: "0 < ?n" "?n < 2 ^ 64" using assms(4) unat_less_pow [of "window_size cfg"] by (auto simp: min_def max_def)
  have "\<not> operations_poisoned (dm_loop m)" "operations (dm_loop m) = replicate ?n op" "ld_config (dm_loop m) = ?cfg"
    "dc_enable_loop (dm_config m)" using held by (simp_all add: holds_only_def)
  note check = check_replicate [OF this(2) n this(1) assms(3), unfolded this(3) fields]
  have word: "unat (of_nat ?n :: usize) = ?n" using n(2) by (simp add: unat_of_nat)
  have "fst (pre_detection iter \<lparr>se_manager = m, se_disabled = False\<rparr>) =
      (if unat (threshold_for_tool cfg (op_tool op)) \<le> ?n \<and> 0 < unat (stop_threshold cfg) \<and> unat (stop_threshold cfg) \<le> ?n
       then Inl (ErrLoopDetected ((op_tool op @ ''('' @ primary_param op @ '')'') @ '' repeated '' @ show_nat ?n @ '' times''))
       else Inr ())"
    using check word \<open>dc_enable_loop (dm_config m)\<close>
    by (simp add: pre_detection_def check_loop_pattern_def loop_pattern_def decide_detected_pattern_def describe_loop_def)
  then show ?thesis using run rec assms(4) by (simp add: Let_def)
qed

definition three_strikes :: detector_config where
  "three_strikes = default_detector_config\<lparr>stop_threshold := 4\<rparr>"

theorem stop_is_consumed_witness:
  "fst (pre_detection rev \<lparr>se_manager = consume_pending_loop_stop rev (default_manager :: nat detection_manager),
     se_disabled = False\<rparr>) = Inr ()"
  using stop_is_consumed [OF iteration_rev iteration_rev, of "\<lparr>se_manager = (default_manager :: nat detection_manager), se_disabled = False\<rparr>"]
  by (simp add: Let_def)

theorem repeated_call_is_stopped_witness:
  "\<exists>m0 :: nat detection_manager.
     new_with_loop_detector default_detection_config (new_detector three_strikes no_op_tool_signature) = Inr m0 \<and>
     (let (patterns, m) = record_all rev (replicate 4 read_a) m0
      in last patterns = LoopFound 4 ''read(a)'' \<and>
         fst (pre_detection rev \<lparr>se_manager = m, se_disabled = False\<rparr>) =
           Inl (ErrLoopDetected (''read(a) repeated '' @ show_nat 4 @ '' times'')))"
proof -
  obtain m0 :: "nat detection_manager" where new:
    "new_with_loop_detector default_detection_config (new_detector three_strikes no_op_tool_signature) = Inr m0"
    by (simp add: new_with_loop_detector_def manager_with_def new_convergence_def to_convergence_config_def
        default_detection_config_def)
  have enabled: "dc_enable_loop default_detection_config" by (simp add: default_detection_config_def)
  have vals: "unat (window_size three_strikes) = 50" "unat (threshold_for_tool three_strikes tool) = 3"
    "unat (stop_threshold three_strikes) = 4" for tool
    by (simp_all add: three_strikes_def default_detector_config_def threshold_for_tool_def)
  show ?thesis
    using repeated_call_is_stopped [OF new enabled iteration_rev, of 4 read_a] new
    by (intro exI [of _ m0]) (simp add: vals Let_def read_a_def new_operation_def split: prod.splits)
qed

end
