(* ===== verification/Registry.thy ===== *)
theory Registry
  imports Prelude "HOL-Library.AList"
begin

section \<open>The tool registry\<close>

text \<open>
  src/src/tool/registry.rs: the tools by name, the order of their first registration and the version
  of the advertised surface. A tool object is what its trait methods answer. The hash map is an
  association list with distinct keys; the only operation that shows its order is
  \<open>concurrent_safe_tools\<close>, whose order the code leaves open. The lock makes each operation atomic.
  Warnings and metrics are left out.
\<close>

record ('s, 'f) tool =
  tool_name :: string
  tool_schema :: 's
  tool_concurrency_safe :: bool
  tool_body :: 'f

record ('s, 'f) registry =
  reg_tools :: "(string \<times> ('s, 'f) tool) list"
  reg_order :: "string list"
  reg_version :: u64

definition new_registry :: "('s, 'f) registry" where
  "new_registry = \<lparr>reg_tools = [], reg_order = [], reg_version = 0\<rparr>"

definition bump_version :: "('s, 'f) registry \<Rightarrow> ('s, 'f) registry" where
  "bump_version r = r\<lparr>reg_version := reg_version r + 1\<rparr>"

definition registry_get :: "('s, 'f) registry \<Rightarrow> string \<Rightarrow> ('s, 'f) tool option" where
  "registry_get r name = map_of (reg_tools r) name"

definition registry_contains :: "('s, 'f) registry \<Rightarrow> string \<Rightarrow> bool" where
  "registry_contains r name \<longleftrightarrow> map_of (reg_tools r) name \<noteq> None"

definition register :: "('s, 'f) tool \<Rightarrow> ('s, 'f) registry \<Rightarrow> ('s, 'f) registry" where
  "register t r =
     (let name = tool_name t;
          order = (if registry_contains r name then reg_order r else reg_order r @ [name])
      in bump_version (r\<lparr>reg_order := order, reg_tools := AList.update name t (reg_tools r)\<rparr>))"

definition remove_tool :: "string \<Rightarrow> ('s, 'f) registry \<Rightarrow> ('s, 'f) registry" where
  "remove_tool name r =
     (if registry_contains r name
      then bump_version (r\<lparr>reg_tools := AList.delete name (reg_tools r),
             reg_order := filter (\<lambda>stored. stored \<noteq> name) (reg_order r)\<rparr>)
      else r)"

definition all_tools :: "('s, 'f) registry \<Rightarrow> ('s, 'f) tool list" where
  "all_tools r = List.map_filter (registry_get r) (reg_order r)"

definition all_schemas :: "('s, 'f) registry \<Rightarrow> 's list" where
  "all_schemas r = map tool_schema (List.map_filter (registry_get r) (reg_order r))"

definition versioned_surface :: "('s, 'f) registry \<Rightarrow> u64 \<times> 's list" where
  "versioned_surface r =
     (reg_version r, map tool_schema (List.map_filter (registry_get r) (reg_order r)))"

definition registration_matches :: "('s, 'f) registry \<Rightarrow> string \<Rightarrow> 's \<Rightarrow> bool" where
  "registration_matches r name schema \<longleftrightarrow>
     (case registry_get r name of None \<Rightarrow> False | Some t \<Rightarrow> tool_schema t = schema)"

definition tool_names :: "('s, 'f) registry \<Rightarrow> string list" where
  "tool_names r = sort (map fst (reg_tools r))"

definition registry_len :: "('s, 'f) registry \<Rightarrow> nat" where
  "registry_len r = length (reg_tools r)"

definition registry_is_empty :: "('s, 'f) registry \<Rightarrow> bool" where
  "registry_is_empty r \<longleftrightarrow> reg_tools r = []"

definition concurrent_safe_tools :: "('s, 'f) registry \<Rightarrow> ('s, 'f) tool list" where
  "concurrent_safe_tools r = filter tool_concurrency_safe (map snd (reg_tools r))"

subsection \<open>Well-formed registries\<close>

text \<open>The operations that change a registry, and a run of them from an empty one.\<close>

datatype ('s, 'f) registry_op = RegisterOp "('s, 'f) tool" | RemoveOp string

fun registry_step :: "('s, 'f) registry \<Rightarrow> ('s, 'f) registry_op \<Rightarrow> ('s, 'f) registry" where
  "registry_step r (RegisterOp t) = register t r"
| "registry_step r (RemoveOp name) = remove_tool name r"

definition run_registry :: "('s, 'f) registry_op list \<Rightarrow> ('s, 'f) registry" where
  "run_registry ops = foldl registry_step new_registry ops"

definition registry_wf :: "('s, 'f) registry \<Rightarrow> bool" where
  "registry_wf r \<longleftrightarrow>
     distinct (map fst (reg_tools r)) \<and> distinct (reg_order r) \<and>
     set (reg_order r) = fst ` set (reg_tools r) \<and>
     (\<forall>name t. map_of (reg_tools r) name = Some t \<longrightarrow> tool_name t = name)"

lemma registry_contains_iff: "registry_contains r name \<longleftrightarrow> name \<in> fst ` set (reg_tools r)"
  by (simp add: registry_contains_def map_of_eq_None_iff)

lemma registry_get_update [simp]:
  "map_of (AList.update k v al) = (map_of al)(k \<mapsto> v)"
  by (rule update_conv')

lemma registry_wf_new [inv_intros]: "registry_wf new_registry"
  by (simp add: registry_wf_def new_registry_def)

lemma registry_wf_register [inv_intros]:
  assumes "registry_wf r"
  shows "registry_wf (register t r)"
proof -
  have "distinct (map fst (AList.update (tool_name t) t (reg_tools r)))"
    using assms by (simp add: registry_wf_def distinct_update)
  moreover have "fst ` set (AList.update (tool_name t) t (reg_tools r)) = insert (tool_name t) (fst ` set (reg_tools r))"
    using dom_update [of "tool_name t" t "reg_tools r"] by (simp add: dom_map_of_conv_image_fst)
  ultimately show ?thesis
    using assms by (auto simp: registry_wf_def register_def bump_version_def Let_def registry_contains_iff)
qed

lemma registry_wf_remove [inv_intros]:
  assumes "registry_wf r"
  shows "registry_wf (remove_tool name r)"
proof (cases "registry_contains r name")
  case True
  have "fst ` set (AList.delete name (reg_tools r)) = fst ` set (reg_tools r) - {name}"
    using arg_cong [OF AList.delete_keys [of name "reg_tools r"], of set] by auto
  moreover have "distinct (map fst (AList.delete name (reg_tools r)))"
    using assms by (simp add: registry_wf_def AList.distinct_delete)
  ultimately show ?thesis
    using assms True
    by (auto simp: registry_wf_def remove_tool_def bump_version_def AList.delete_conv' split: if_splits)
next
  case False
  then show ?thesis using assms by (simp add: remove_tool_def)
qed

lemma registry_wf_run [simp]: "registry_wf (run_registry ops)"
proof -
  have "registry_wf r \<Longrightarrow> registry_wf (foldl registry_step r ops)" for r
  proof (induction ops arbitrary: r)
    case (Cons op ops)
    then show ?case by (cases op) (auto intro: inv_intros)
  qed simp
  then show ?thesis by (simp add: run_registry_def inv_intros)
qed

subsection \<open>The advertised surface\<close>

text \<open>
  The registry as its clients see it: the tools in the order their names were first registered, a
  tool registered again in the place of the one it replaces.
\<close>

fun replace_tool :: "('s, 'f) tool \<Rightarrow> ('s, 'f) tool list \<Rightarrow> ('s, 'f) tool list" where
  "replace_tool t [] = [t]"
| "replace_tool t (u # us) = (if tool_name u = tool_name t then t # us else u # replace_tool t us)"

fun surface_step :: "('s, 'f) tool list \<Rightarrow> ('s, 'f) registry_op \<Rightarrow> ('s, 'f) tool list" where
  "surface_step ts (RegisterOp t) = replace_tool t ts"
| "surface_step ts (RemoveOp name) = filter (\<lambda>t. tool_name t \<noteq> name) ts"

text \<open>An operation changes the surface when it registers, or removes a tool that is there.\<close>

fun mutates :: "('s, 'f) registry \<Rightarrow> ('s, 'f) registry_op \<Rightarrow> bool" where
  "mutates r (RegisterOp t) = True"
| "mutates r (RemoveOp name) = registry_contains r name"

lemma map_filter_map_of:
  "set ks \<subseteq> dom m \<Longrightarrow> List.map_filter m ks = map (\<lambda>k. the (m k)) ks"
  by (induction ks) (auto simp: List.map_filter_simps dom_def)

lemma replace_tool_absent: "tool_name t \<notin> tool_name ` set ts \<Longrightarrow> replace_tool t ts = ts @ [t]"
  by (induction ts) auto

lemma replace_tool_present:
  "tool_name t \<in> tool_name ` set ts \<Longrightarrow> distinct (map tool_name ts) \<Longrightarrow>
   replace_tool t ts = map (\<lambda>u. if tool_name u = tool_name t then t else u) ts"
proof (induction ts)
  case (Cons u us)
  then show ?case
    by (cases "tool_name u = tool_name t") (auto intro!: map_idI [symmetric] simp: image_iff)
qed simp

lemma all_tools_eq:
  assumes "registry_wf r"
  shows "all_tools r = map (\<lambda>name. the (map_of (reg_tools r) name)) (reg_order r)"
proof -
  have "set (reg_order r) \<subseteq> dom (map_of (reg_tools r))"
    using assms by (simp add: registry_wf_def dom_map_of_conv_image_fst)
  then show ?thesis
    unfolding all_tools_def registry_get_def by (rule map_filter_map_of)
qed

lemma names_all_tools:
  assumes "registry_wf r"
  shows "map tool_name (all_tools r) = reg_order r"
proof -
  have "tool_name (the (map_of (reg_tools r) name)) = name" if "name \<in> set (reg_order r)" for name
  proof -
    from that assms obtain t where "map_of (reg_tools r) name = Some t"
      by (metis registry_wf_def map_of_eq_None_iff option.exhaust)
    with assms show ?thesis by (simp add: registry_wf_def)
  qed
  then have "map (\<lambda>name. tool_name (the (map_of (reg_tools r) name))) (reg_order r) = reg_order r"
    by (rule map_idI)
  then show ?thesis by (simp add: all_tools_eq [OF assms] comp_def)
qed

lemma all_tools_register:
  assumes "registry_wf r"
  shows "all_tools (register t r) = replace_tool t (all_tools r)"
proof -
  let ?lookup = "\<lambda>name. the (map_of (reg_tools r) name)"
  have wf: "registry_wf (register t r)" by (rule registry_wf_register [OF assms])
  have names: "tool_name ` set (all_tools r) = set (reg_order r)"
    using arg_cong [OF names_all_tools [OF assms], of set] by simp
  have own: "tool_name (?lookup name) = name" if "name \<in> set (reg_order r)" for name
    using that names_all_tools [OF assms] unfolding all_tools_eq [OF assms] map_map
    by (metis comp_apply map_eq_conv list.map_ident)
  show ?thesis
  proof (cases "registry_contains r (tool_name t)")
    case True
    then have "tool_name t \<in> tool_name ` set (all_tools r)"
      using assms by (simp add: names registry_wf_def registry_contains_iff)
    moreover have "distinct (map tool_name (all_tools r))"
      using assms by (simp add: names_all_tools registry_wf_def)
    ultimately have "replace_tool t (all_tools r) = map (\<lambda>u. if tool_name u = tool_name t then t else u) (all_tools r)"
      by (rule replace_tool_present)
    also have "\<dots> = map (\<lambda>name. if name = tool_name t then t else ?lookup name) (reg_order r)"
      unfolding all_tools_eq [OF assms] map_map by (rule map_cong) (simp_all add: own)
    also have "\<dots> = all_tools (register t r)"
      using True unfolding all_tools_eq [OF wf]
      by (intro map_cong) (simp_all add: register_def bump_version_def Let_def)
    finally show ?thesis by simp
  next
    case False
    then have absent: "tool_name t \<notin> set (reg_order r)"
      using assms by (simp add: registry_wf_def registry_contains_iff)
    then have "replace_tool t (all_tools r) = all_tools r @ [t]"
      by (simp add: replace_tool_absent names)
    moreover have "all_tools (register t r) = all_tools r @ [t]"
      using False absent unfolding all_tools_eq [OF wf] all_tools_eq [OF assms]
      by (auto simp: register_def bump_version_def Let_def intro!: map_cong)
    ultimately show ?thesis by simp
  qed
qed

lemma all_tools_remove:
  assumes "registry_wf r"
  shows "all_tools (remove_tool name r) = filter (\<lambda>t. tool_name t \<noteq> name) (all_tools r)"
proof -
  have wf: "registry_wf (remove_tool name r)" by (rule registry_wf_remove [OF assms])
  have own: "tool_name (the (map_of (reg_tools r) n)) = n" if "n \<in> set (reg_order r)" for n
    using that names_all_tools [OF assms] unfolding all_tools_eq [OF assms] map_map
    by (metis comp_apply map_eq_conv list.map_ident)
  show ?thesis
  proof (cases "registry_contains r name")
    case True
    have "filter (\<lambda>t. tool_name t \<noteq> name) (all_tools r) =
        map (\<lambda>n. the (map_of (reg_tools r) n)) (filter (\<lambda>n. n \<noteq> name) (reg_order r))"
      unfolding all_tools_eq [OF assms] filter_map
      by (rule arg_cong [of _ _ "map _"], rule filter_cong) (simp_all add: own)
    also have "\<dots> = all_tools (remove_tool name r)"
      using True unfolding all_tools_eq [OF wf]
      by (intro map_cong) (simp_all add: remove_tool_def bump_version_def AList.delete_conv')
    finally show ?thesis by simp
  next
    case False
    then have "name \<notin> set (map tool_name (all_tools r))"
      using assms unfolding names_all_tools [OF assms] by (simp add: registry_wf_def registry_contains_iff)
    then have "filter (\<lambda>t. tool_name t \<noteq> name) (all_tools r) = all_tools r"
      by (intro filter_True) auto
    with False show ?thesis by (simp add: remove_tool_def)
  qed
qed

lemma all_tools_step: "registry_wf r \<Longrightarrow> all_tools (registry_step r op) = surface_step (all_tools r) op"
  by (cases op) (simp_all add: all_tools_register all_tools_remove)

lemma all_tools_run: "all_tools (run_registry ops) = foldl surface_step [] ops"
proof (induction ops rule: rev_induct)
  case Nil
  then show ?case by (simp add: run_registry_def new_registry_def all_tools_def List.map_filter_simps)
next
  case (snoc op ops)
  then show ?case
    using all_tools_step [OF registry_wf_run, of ops op] by (simp add: run_registry_def)
qed

lemma tool_names_sorted:
  assumes "registry_wf r"
  shows "sorted_wrt (<) (tool_names r) \<and> set (tool_names r) = set (map tool_name (all_tools r))"
  using assms unfolding names_all_tools [OF assms]
  by (auto simp: tool_names_def registry_wf_def strict_sorted_iff)

lemma registry_len_order:
  assumes "registry_wf r"
  shows "registry_len r = length (reg_order r)"
proof -
  have "length (map fst (reg_tools r)) = card (fst ` set (reg_tools r))"
    using assms by (simp only: registry_wf_def distinct_card [symmetric] set_map)
  moreover have "card (set (reg_order r)) = length (reg_order r)"
    using assms unfolding registry_wf_def by (intro distinct_card) blast
  ultimately show ?thesis using assms by (simp add: registry_len_def registry_wf_def)
qed

lemma registry_get_surface:
  assumes "registry_wf r"
  shows "registry_get r name = map_of (map (\<lambda>t. (tool_name t, t)) (all_tools r)) name"
proof -
  have keys: "map fst (map (\<lambda>t. (tool_name t, t)) (all_tools r)) = reg_order r"
    using names_all_tools [OF assms] by (simp add: comp_def)
  show ?thesis
  proof (cases "registry_get r name")
    case None
    then have "name \<notin> set (reg_order r)"
      using assms by (simp add: registry_wf_def registry_get_def map_of_eq_None_iff)
    then have "name \<notin> fst ` set (map (\<lambda>t. (tool_name t, t)) (all_tools r))"
      using arg_cong [OF keys, of set] unfolding set_map by blast
    then have "map_of (map (\<lambda>t. (tool_name t, t)) (all_tools r)) name = None"
      by (simp only: map_of_eq_None_iff not_False_eq_True)
    with None show ?thesis by simp
  next
    case (Some t)
    then have "name \<in> set (reg_order r)" and own: "tool_name t = name"
      using assms by (auto simp: registry_wf_def registry_get_def dom_map_of_conv_image_fst [symmetric])
    then have "t \<in> set (all_tools r)"
      using Some unfolding all_tools_eq [OF assms]
      by (simp add: registry_get_def) (metis image_eqI option.sel)
    moreover have "distinct (map fst (map (\<lambda>t. (tool_name t, t)) (all_tools r)))"
      using assms unfolding keys by (simp add: registry_wf_def)
    ultimately have "map_of (map (\<lambda>t. (tool_name t, t)) (all_tools r)) name = Some t"
      using own by (intro map_of_is_SomeI) auto
    with Some show ?thesis by simp
  qed
qed

text \<open>
  C36: After any sequence of registrations and removals the registry advertises what the ordered
  dictionary of its clients holds: the tools in the order their names first appeared, a
  re-registered name keeping its place with the new tool, a removed one gone (and back at the end
  when it is registered again); the schemas of the versioned surface are those tools' schemas, the
  sorted names exactly theirs, the length their number, and a lookup finds exactly the tool the
  surface shows under that name.
\<close>

theorem registry_is_ordered_dictionary:
  fixes ops :: "('s, 'f) registry_op list"
  shows "let r = run_registry ops; surface = foldl surface_step [] ops
    in all_tools r = surface \<and> snd (versioned_surface r) = map tool_schema surface \<and>
       tool_names r = sort (map tool_name surface) \<and> distinct (map tool_name surface) \<and>
       registry_len r = length surface \<and>
       registry_get r = map_of (map (\<lambda>t. (tool_name t, t)) surface)"
proof -
  let ?r = "run_registry ops"
  have wf: "registry_wf ?r" by simp
  have surface: "all_tools ?r = foldl surface_step [] ops" by (rule all_tools_run)
  have names: "map tool_name (foldl surface_step [] ops) = reg_order ?r"
    using names_all_tools [OF wf] by (simp only: surface)
  have sorted: "tool_names ?r = sort (map tool_name (foldl surface_step [] ops))"
    using wf unfolding names
    by (intro sorted_distinct_set_unique) (simp_all add: tool_names_def registry_wf_def)
  have "registry_get ?r name = map_of (map (\<lambda>t. (tool_name t, t)) (all_tools ?r)) name" for name
    by (rule registry_get_surface [OF wf])
  with wf surface names sorted show ?thesis
    by (auto simp: versioned_surface_def all_tools_def registry_wf_def registry_len_order Let_def
        length_map [of tool_name, symmetric] simp del: length_map)
qed

subsection \<open>The version of the surface\<close>

fun mutations :: "('s, 'f) registry \<Rightarrow> ('s, 'f) registry_op list \<Rightarrow> nat" where
  "mutations r [] = 0"
| "mutations r (op # ops) = (if mutates r op then 1 else 0) + mutations (registry_step r op) ops"

lemma version_step: "reg_version (registry_step r op) = reg_version r + (if mutates r op then 1 else 0)"
  by (cases op) (simp_all add: register_def remove_tool_def bump_version_def Let_def)

lemma unmutated_step: "\<not> mutates r op \<Longrightarrow> registry_step r op = r"
  by (cases op) (simp_all add: remove_tool_def)

lemma version_foldl: "reg_version (foldl registry_step r ops) = reg_version r + of_nat (mutations r ops)"
  by (induction ops arbitrary: r) (simp_all add: version_step add.assoc)

lemma mutations_le: "mutations r ops \<le> length ops"
  by (induction ops arbitrary: r) (simp_all add: le_SucI)

lemma no_mutations: "mutations r ops = 0 \<Longrightarrow> foldl registry_step r ops = r"
proof (induction ops arbitrary: r)
  case (Cons op ops)
  then have "registry_step r op = r" by (intro unmutated_step) (simp split: if_splits)
  with Cons show ?case by simp
qed simp

text \<open>
  A client that remembers the version of a surface and finds the same version later holds the
  surface as it is: between two readings with equal versions, fewer than 2^64 operations apart, no
  operation changed anything (the counter wraps only after that many).
\<close>

theorem equal_versions_mean_equal_surfaces:
  assumes "length later < 2 ^ 64"
    and "fst (versioned_surface (foldl registry_step r later)) = fst (versioned_surface r)"
  shows "foldl registry_step r later = r"
proof -
  have "(of_nat (mutations r later) :: u64) = 0"
    using assms(2) by (simp add: versioned_surface_def version_foldl)
  moreover have "mutations r later < 2 ^ 64"
    using mutations_le [of r later] assms(1) by (rule le_less_trans)
  ultimately have "mutations r later = 0"
    using unat_of_nat [of "mutations r later", where 'a = 64] by simp
  then show ?thesis by (rule no_mutations)
qed

definition demo_tool :: "string \<Rightarrow> nat \<Rightarrow> (nat, unit) tool" where
  "demo_tool name schema =
     \<lparr>tool_name = name, tool_schema = schema, tool_concurrency_safe = True, tool_body = ()\<rparr>"

theorem equal_versions_mean_equal_surfaces_witness:
  "foldl registry_step (run_registry [RegisterOp (demo_tool ''read'' 1)]) [RemoveOp ''write''] =
   run_registry [RegisterOp (demo_tool ''read'' 1)]"
  by (rule equal_versions_mean_equal_surfaces)
    (simp_all add: run_registry_def new_registry_def register_def remove_tool_def registry_contains_def
      bump_version_def versioned_surface_def demo_tool_def Let_def)

lemma demo_registry_reorders:
  "map tool_schema (all_tools (run_registry
     [RegisterOp (demo_tool ''read'' 1), RegisterOp (demo_tool ''edit'' 2), RegisterOp (demo_tool ''read'' 3),
      RemoveOp ''read'', RegisterOp (demo_tool ''read'' 4)])) = [2, 4]"
  by (simp add: all_tools_run demo_tool_def)

end
