(* ===== verification/Command_Check.thy ===== *)
theory Command_Check
  imports Prelude
begin

section \<open>Words, paths and the static check of a command\<close>

text \<open>
  From src/src/middleware.rs the lexical resolution of paths and the splitting of a command into
  shell words, and from src/src/middleware/verify/builtin.rs the verifier that judges a call
  without running it. A JSON value is a parameter: \<open>field v name\<close> is the member \<open>name\<close> of \<open>v\<close>
  when that is a string. The file system answers two questions, whether a directory exists and
  whether it is read-only, and the process its working directory.
\<close>

subsection \<open>Paths\<close>

definition path_sep :: char where "path_sep = CHR ''/''"

fun lexical_segment :: "string list \<Rightarrow> string \<Rightarrow> string list" where
  "lexical_segment segments segment =
     (if segment = '''' \<or> segment = ''.'' then segments
      else if segment = ''..'' then butlast segments
      else segments @ [segment])"

declare lexical_segment.simps [simp del]

definition lexical_path :: "string \<Rightarrow> string \<Rightarrow> string" where
  "lexical_path cwd path =
     (let joined = (if prefix [path_sep] path \<or> cwd = [] then path else cwd @ [path_sep] @ path);
          segments = foldl lexical_segment [] (split_on path_sep joined)
      in path_sep # join [path_sep] segments)"

definition resolved_cwd :: "string option \<Rightarrow> string \<Rightarrow> string" where
  "resolved_cwd current_dir cwd =
     (if prefix [path_sep] cwd then cwd
      else lexical_path (case current_dir of None \<Rightarrow> ''.'' | Some dir \<Rightarrow> dir) cwd)"

text \<open>\<open>Path::parent\<close> of a path that \<open>lexical_path\<close> made: everything before the last separator.\<close>

definition path_parent :: "string \<Rightarrow> string option" where
  "path_parent p =
     (case rev (filter (\<lambda>s. s \<noteq> []) (split_on path_sep p)) of
        [] \<Rightarrow> None
      | _ # rest \<Rightarrow> Some (path_sep # join [path_sep] (rev rest)))"

subsection \<open>Shell words\<close>

record word_state =
  ws_tokens :: "string list"
  ws_current :: string
  ws_single :: bool
  ws_double :: bool
  ws_started :: bool

definition shell_char :: "word_state \<Rightarrow> string \<Rightarrow> word_state" where
  "shell_char s ch =
     (if ch = [CHR 0x27] \<and> \<not> ws_double s then s\<lparr>ws_single := \<not> ws_single s, ws_started := True\<rparr>
      else if ch = [CHR 0x22] \<and> \<not> ws_single s then s\<lparr>ws_double := \<not> ws_double s, ws_started := True\<rparr>
      else if ch \<in> set utf8_whitespace \<and> \<not> ws_single s \<and> \<not> ws_double s then
        (if ws_started s
         then s\<lparr>ws_tokens := ws_tokens s @ [ws_current s], ws_current := [], ws_started := False\<rparr>
         else s)
      else s\<lparr>ws_current := ws_current s @ ch, ws_started := True\<rparr>)"

definition shell_start :: word_state where
  "shell_start = \<lparr>ws_tokens = [], ws_current = [], ws_single = False, ws_double = False, ws_started = False\<rparr>"

definition shell_words :: "string \<Rightarrow> string + string list" where
  "shell_words command =
     (let s = foldl shell_char shell_start (utf8_chars command)
      in if ws_single s then Inl ''unterminated single quote''
         else if ws_double s then Inl ''unterminated double quote''
         else Inr (if ws_started s then ws_tokens s @ [ws_current s] else ws_tokens s))"

definition is_wrapped_shell :: "string list \<Rightarrow> bool" where
  "is_wrapped_shell tokens \<longleftrightarrow>
     (let first = (case tokens of [] \<Rightarrow> '''' | t # _ \<Rightarrow> t);
          shell_like = first = ''sh'' \<or> first = ''bash'' \<or> suffix ''sh'' first \<or> suffix ''shell'' first
      in shell_like \<and> 1 < length tokens \<and> tokens ! 1 = ''-c'')"

definition string_field :: "('v \<Rightarrow> string \<Rightarrow> string option) \<Rightarrow> 'v \<Rightarrow> string list \<Rightarrow> string option" where
  "string_field field input names =
     (case List.map_filter (field input) names of [] \<Rightarrow> None | s # _ \<Rightarrow> Some s)"

subsection \<open>Deny rules\<close>

definition is_separator_byte :: "char \<Rightarrow> bool" where
  "is_separator_byte b \<longleftrightarrow> b \<in> {CHR '' '', CHR '';'', CHR ''&'', CHR ''|'', CHR ''('', CHR '')'', CHR ''#''}"

definition boundary_before :: "string \<Rightarrow> nat \<Rightarrow> bool" where
  "boundary_before bytes i \<longleftrightarrow> i = 0 \<or> (i - 1 < length bytes \<and> is_separator_byte (bytes ! (i - 1)))"

definition boundary_after :: "string \<Rightarrow> nat \<Rightarrow> bool" where
  "boundary_after bytes i \<longleftrightarrow> i = length bytes \<or> (i < length bytes \<and> is_separator_byte (bytes ! i))"

text \<open>
  \<open>str::match_indices\<close>: the starts of the matches, left to right; a search goes on behind the last
  match, so that matches never overlap.
\<close>

function match_indices :: "string \<Rightarrow> nat \<Rightarrow> string \<Rightarrow> nat list" where
  "match_indices pat i s =
     (if pat = [] \<or> s = [] then []
      else if prefix pat s then i # match_indices pat (i + length pat) (drop (length pat) s)
      else match_indices pat (Suc i) (tl s))"
  by pat_completeness auto
termination by (relation "measure (\<lambda>(pat, i, s). length s)") auto

declare match_indices.simps [simp del]

definition matches_at_token_boundary :: "string \<Rightarrow> string \<Rightarrow> bool" where
  "matches_at_token_boundary command pattern =
     (let normalized = join '' '' (split_whitespace command);
          pat = join '' '' (split_whitespace pattern)
      in pat \<noteq> [] \<and>
         list_ex (\<lambda>start. boundary_before normalized start \<and>
                     start + length pat \<le> length normalized \<and> boundary_after normalized (start + length pat))
           (match_indices pat 0 normalized))"

subsection \<open>The verifier\<close>

record verify_result =
  vr_passed :: bool
  vr_diagnostics :: string

definition verify_pass :: verify_result where
  "verify_pass = \<lparr>vr_passed = True, vr_diagnostics = ''''\<rparr>"

definition verify_fail :: "string \<Rightarrow> verify_result" where
  "verify_fail diagnostic = \<lparr>vr_passed = False, vr_diagnostics = diagnostic\<rparr>"

definition default_deny_globs :: "string list" where
  "default_deny_globs =
     [''rm -rf /'', ''rm -fr /'', ''rm -r -f /'', ''rm -f -r /'', ''rm --recursive --force /'',
      ''rm --force --recursive /'', ''rm -rf /*'', ''rm -fr /*'', ''rm -r -f /*'', '':(){:|:&};:'']"

definition default_allowed_shells :: "string list" where
  "default_allowed_shells = [''sh'', ''bash'']"

definition path_fields :: "string list" where
  "path_fields = [''path'', ''file_path'', ''filename'', ''filepath'']"

record command_verifier =
  allowed_shells :: "string list"
  deny_globs :: "string list"

definition new_command_verifier :: command_verifier where
  "new_command_verifier = \<lparr>allowed_shells = default_allowed_shells, deny_globs = default_deny_globs\<rparr>"

definition with_allowed_shells :: "string list \<Rightarrow> command_verifier \<Rightarrow> command_verifier" where
  "with_allowed_shells shells cv = cv\<lparr>allowed_shells := shells\<rparr>"

definition with_deny_globs :: "string list \<Rightarrow> command_verifier \<Rightarrow> command_verifier" where
  "with_deny_globs patterns cv = cv\<lparr>deny_globs := patterns\<rparr>"

definition backquoted :: "string \<Rightarrow> string" where
  "backquoted s = [CHR 0x60] @ s @ [CHR 0x60]"

definition check_deny :: "command_verifier \<Rightarrow> string \<Rightarrow> verify_result" where
  "check_deny cv command =
     (case find (matches_at_token_boundary command) (deny_globs cv) of
        Some pattern \<Rightarrow> verify_fail (''denied: command matches the deny rule '' @ backquoted pattern)
      | None \<Rightarrow> verify_pass)"

definition verify_command :: "command_verifier \<Rightarrow> string \<Rightarrow> verify_result" where
  "verify_command cv command =
     (case shell_words command of
        Inl reason \<Rightarrow> verify_fail (''unparseable command: '' @ reason)
      | Inr tokens \<Rightarrow>
          if tokens = [] then verify_pass
          else if is_wrapped_shell tokens then
            (if hd tokens \<notin> set (allowed_shells cv)
             then verify_fail (''shell '' @ backquoted (hd tokens) @ '' is not in the allowed set ('' @
                    join '', '' (allowed_shells cv) @ '')'')
             else check_deny cv (join '' '' (drop 2 tokens)))
          else check_deny cv (join '' '' tokens))"

record file_system =
  current_dir :: "string option"
  dir_exists :: "string \<Rightarrow> bool"
  dir_readonly :: "string \<Rightarrow> bool"

definition verify_write_path :: "file_system \<Rightarrow> string \<Rightarrow> string \<Rightarrow> verify_result" where
  "verify_write_path fs cwd path =
     (case path_parent (lexical_path (resolved_cwd (current_dir fs) cwd) path) of
        None \<Rightarrow> verify_fail ''path not writable: the target is the filesystem root, a directory''
      | Some parent \<Rightarrow>
          if \<not> dir_exists fs parent
          then verify_fail (''path not writable: parent directory '' @ parent @ '' does not exist'')
          else if dir_readonly fs parent
          then verify_fail (''path not writable: parent directory '' @ parent @ '' is read-only'')
          else verify_pass)"

definition verify_call ::
  "command_verifier \<Rightarrow> file_system \<Rightarrow> ('v \<Rightarrow> string \<Rightarrow> string option) \<Rightarrow> string \<Rightarrow> 'v \<Rightarrow> verify_result" where
  "verify_call cv fs field cwd input =
     (case string_field field input [''command'', ''cmd''] of
        Some command \<Rightarrow> verify_command cv command
      | None \<Rightarrow>
          (case string_field field input path_fields of
             Some path \<Rightarrow> verify_write_path fs cwd path
           | None \<Rightarrow> verify_pass))"

section \<open>Properties\<close>

subsection \<open>Lexical paths\<close>

definition plain_segment :: "string \<Rightarrow> bool" where
  "plain_segment s \<longleftrightarrow> s \<noteq> '''' \<and> s \<noteq> ''.'' \<and> s \<noteq> ''..'' \<and> path_sep \<notin> set s"

lemma lexical_segment_plain: "plain_segment s \<Longrightarrow> lexical_segment acc s = acc @ [s]"
  by (simp add: plain_segment_def lexical_segment.simps)

lemma lexical_segment_set:
  assumes "path_sep \<notin> set s" and "\<forall>x \<in> set acc. plain_segment x"
  shows "\<forall>x \<in> set (lexical_segment acc s). plain_segment x"
proof (cases "plain_segment s")
  case False
  then have "set (lexical_segment acc s) \<subseteq> set acc"
    using assms(1) in_set_butlastD [of _ acc] by (auto simp: plain_segment_def lexical_segment.simps)
  with assms(2) show ?thesis by blast
next
  case True
  with assms(2) show ?thesis by (simp add: lexical_segment_plain)
qed

lemma lexical_segments_plain:
  "\<forall>s \<in> set segs. path_sep \<notin> set s \<Longrightarrow> \<forall>s \<in> set acc. plain_segment s \<Longrightarrow>
   \<forall>s \<in> set (foldl lexical_segment acc segs). plain_segment s"
proof (induction segs arbitrary: acc)
  case (Cons s segs)
  then have "\<forall>x \<in> set (lexical_segment acc s). plain_segment x" by (intro lexical_segment_set) simp_all
  with Cons show ?case by simp
qed simp

lemma lexical_segments_id:
  "\<forall>s \<in> set segs. plain_segment s \<Longrightarrow> foldl lexical_segment acc segs = acc @ segs"
  by (induction segs arbitrary: acc) (simp_all add: lexical_segment_plain)

lemma lexical_path_shape:
  "\<exists>segs. lexical_path cwd path = path_sep # join [path_sep] segs \<and> (\<forall>s \<in> set segs. plain_segment s)"
proof -
  let ?joined = "if prefix [path_sep] path \<or> cwd = [] then path else cwd @ [path_sep] @ path"
  let ?segs = "foldl lexical_segment [] (split_on path_sep ?joined)"
  have "\<forall>s \<in> set ?segs. plain_segment s"
    by (rule lexical_segments_plain) (auto dest: split_on_parts)
  then show ?thesis unfolding lexical_path_def Let_def by (intro exI [of _ ?segs] conjI refl)
qed

lemma split_on_plain:
  assumes "\<forall>s \<in> set segs. plain_segment s"
  shows "split_on path_sep (path_sep # join [path_sep] segs) = '''' # (if segs = [] then [''''] else segs)"
proof (cases "segs = []")
  case False
  then show ?thesis using assms by (simp add: split_on_join plain_segment_def)
qed simp

lemma lexical_path_plain:
  assumes "\<forall>s \<in> set segs. plain_segment s"
  shows "lexical_path cwd (path_sep # join [path_sep] segs) = path_sep # join [path_sep] segs"
proof -
  have "foldl lexical_segment [] ('''' # (if segs = [] then [''''] else segs)) = segs"
    using lexical_segments_id [OF assms, of "[]"] by (simp add: lexical_segment.simps)
  moreover have "prefix [path_sep] (path_sep # join [path_sep] segs)" by simp
  ultimately show ?thesis by (simp only: lexical_path_def Let_def split_on_plain [OF assms] simp_thms if_True)
qed

text \<open>
  Resolving a path gives its normal form: an absolute path whose segments between the slashes
  are neither empty nor a dot nor two dots (so that it never climbs above the root), and resolving
  that again, against any directory, changes nothing.
\<close>

theorem lexical_path_is_normal_form:
  "\<exists>segs. lexical_path cwd path = ''/'' @ join ''/'' segs \<and> list_all plain_segment segs \<and>
     lexical_path cwd' (lexical_path cwd path) = lexical_path cwd path"
proof -
  obtain segs where segs: "lexical_path cwd path = path_sep # join [path_sep] segs"
      "\<forall>s \<in> set segs. plain_segment s"
    using lexical_path_shape by blast
  then show ?thesis
    by (intro exI [of _ segs]) (simp add: lexical_path_plain list_all_iff path_sep_def [symmetric])
qed

text \<open>The parent the verifier looks for is the directory the target stands in.\<close>

lemma path_parent_plain:
  assumes "\<forall>s \<in> set segs. plain_segment s"
  shows "path_parent (path_sep # join [path_sep] segs) =
    (if segs = [] then None else Some (path_sep # join [path_sep] (butlast segs)))"
proof -
  have "filter (\<lambda>s. s \<noteq> []) (split_on path_sep (path_sep # join [path_sep] segs)) = segs"
    using assms unfolding split_on_plain [OF assms] by (auto simp: plain_segment_def intro!: filter_True)
  then show ?thesis
    unfolding path_parent_def by (cases segs rule: rev_cases) simp_all
qed

subsection \<open>Quoting and splitting\<close>

text \<open>Text that a single-quoted word can hold: no apostrophe, and it starts with a character of its own.\<close>

definition quotable :: "string \<Rightarrow> bool" where
  "quotable w \<longleftrightarrow> starts_char w \<and> CHR 0x27 \<notin> set w"

lemma not_continues_ascii [simp]:
  "\<not> continues (CHR 0x27)" "\<not> continues (CHR '' '')" "\<not> continues (CHR 0x22)"
  by (simp_all add: continues_def)

lemma utf8_char_heads: "ch \<in> set (utf8_chars s) \<Longrightarrow> set ch \<subseteq> set s"
proof -
  assume "ch \<in> set (utf8_chars s)"
  then have "set ch \<subseteq> (\<Union>x \<in> set (utf8_chars s). set x)" by blast
  also have "\<dots> = set (concat (utf8_chars s))" by (simp only: set_concat)
  finally show "set ch \<subseteq> set s" by simp
qed

lemma shell_chars_quoted:
  "ws_single s \<Longrightarrow> \<not> ws_double s \<Longrightarrow> \<forall>ch \<in> set chs. ch \<noteq> [CHR 0x27] \<Longrightarrow> chs \<noteq> [] \<Longrightarrow>
   foldl shell_char s chs = s\<lparr>ws_current := ws_current s @ concat chs, ws_started := True\<rparr>"
proof (induction chs arbitrary: s)
  case (Cons ch chs)
  then have "shell_char s ch = s\<lparr>ws_current := ws_current s @ ch, ws_started := True\<rparr>"
    by (simp add: shell_char_def)
  with Cons show ?case by (cases "chs = []") simp_all
qed simp

lemma shell_quoted_word:
  assumes "quotable w" and "\<not> ws_single s" and "\<not> ws_double s"
  shows "foldl shell_char s (utf8_chars (quoted w)) = s\<lparr>ws_current := ws_current s @ w, ws_started := True\<rparr>"
proof -
  have "starts_char (w @ [CHR 0x27])" using assms(1) by (cases w) (simp_all add: quotable_def)
  then have "utf8_chars (quoted w) = [CHR 0x27] # utf8_chars (w @ [CHR 0x27])"
    unfolding quoted_def append_Cons append_Nil by (rule utf8_chars_Cons)
  then have chars: "utf8_chars (quoted w) = [[CHR 0x27]] @ utf8_chars w @ [[CHR 0x27]]"
    by (simp add: utf8_chars_append)
  have inner: "\<forall>ch \<in> set (utf8_chars w). ch \<noteq> [CHR 0x27]"
    using utf8_char_heads [of _ w] assms(1) by (force simp: quotable_def)
  show ?thesis
  proof (cases "w = []")
    case True
    with assms chars show ?thesis by (simp add: shell_char_def)
  next
    case False
    then have "utf8_chars w \<noteq> []" by (cases w) simp_all
    with inner assms show ?thesis
      by (simp add: chars shell_char_def [of _ "[CHR 0x27]"] shell_chars_quoted)
  qed
qed

definition between_words :: "string list \<Rightarrow> word_state" where
  "between_words ts = \<lparr>ws_tokens = ts, ws_current = [], ws_single = False, ws_double = False, ws_started = False\<rparr>"

lemma starts_char_quoted [simp]: "starts_char (quoted w @ s)" "starts_char (quoted w)"
  by (simp_all add: quoted_def)

lemma starts_char_join_quoted [simp]: "starts_char (join sep (map quoted ws))" if "ws \<noteq> []"
  using that by (cases ws rule: remdups_adj.cases) simp_all

lemma space_is_whitespace: "[CHR '' ''] \<in> set utf8_whitespace"
proof -
  have "(char_of (32 :: nat) :: char) = CHR '' ''" by (simp add: char_of_eq_iff)
  then show ?thesis by (simp add: utf8_whitespace_def)
qed

lemma shell_quoted_words:
  "\<forall>w \<in> set ws. quotable w \<Longrightarrow> ws \<noteq> [] \<Longrightarrow>
   foldl shell_char (between_words ts) (utf8_chars (join '' '' (map quoted ws))) =
     (between_words (ts @ butlast ws))\<lparr>ws_current := last ws, ws_started := True\<rparr>"
proof (induction ws arbitrary: ts)
  case (Cons w ws)
  have word: "foldl shell_char (between_words ts) (utf8_chars (quoted w)) =
      (between_words ts)\<lparr>ws_current := w, ws_started := True\<rparr>"
    using shell_quoted_word [of w "between_words ts"] Cons.prems by (simp add: between_words_def)
  show ?case
  proof (cases "ws = []")
    case True
    then show ?thesis using word by simp
  next
    case False
    then have "utf8_chars (join '' '' (map quoted (w # ws))) =
        utf8_chars (quoted w) @ [CHR '' ''] # utf8_chars (join '' '' (map quoted ws))"
      by (simp add: join_Cons utf8_chars_append takeWhile_starts_char del: utf8_chars.simps)
        (simp add: takeWhile_starts_char)
    moreover have "shell_char ((between_words ts)\<lparr>ws_current := w, ws_started := True\<rparr>) [CHR '' ''] =
        between_words (ts @ [w])"
      using space_is_whitespace by (simp add: shell_char_def between_words_def)
    ultimately show ?thesis using False word Cons by simp
  qed
qed simp

text \<open>
  C38: Splitting undoes quoting: words joined by spaces, each between apostrophes, split into exactly
  those words, whatever spaces, double quotes or separators they hold, an empty word included, as
  long as they hold no apostrophe.
\<close>

theorem shell_words_undo_quoting:
  assumes "list_all quotable ws"
  shows "shell_words (join '' '' (map quoted ws)) = Inr ws"
proof (cases "ws = []")
  case True
  then show ?thesis by (simp add: shell_words_def shell_start_def)
next
  case False
  have "shell_start = between_words []" by (simp add: shell_start_def between_words_def)
  then have "foldl shell_char shell_start (utf8_chars (join '' '' (map quoted ws))) =
      (between_words (butlast ws))\<lparr>ws_current := last ws, ws_started := True\<rparr>"
    using assms False shell_quoted_words [of ws "[]"] by (simp add: list_all_iff)
  then show ?thesis using False by (simp add: shell_words_def between_words_def)
qed

theorem shell_words_undo_quoting_witness:
  "shell_words (join '' '' (map quoted [''rm'', '''', ''a b'', ''x; y''])) = Inr [''rm'', '''', ''a b'', ''x; y'']"
  by (rule shell_words_undo_quoting) (simp add: quotable_def continues_def)

subsection \<open>Deny rules\<close>

text \<open>The occurrences of a pattern, overlapping ones included.\<close>

definition occurs_at :: "string \<Rightarrow> string \<Rightarrow> nat \<Rightarrow> bool" where
  "occurs_at pat s i \<longleftrightarrow> i \<le> length s \<and> prefix pat (drop i s)"

text \<open>A pattern is unbordered when no proper part is both its beginning and its end.\<close>

definition unbordered :: "string \<Rightarrow> bool" where
  "unbordered pat \<longleftrightarrow> list_all (\<lambda>k. take k pat \<noteq> drop (length pat - k) pat) [1..<length pat]"

lemma match_indices_sound:
  "j \<in> set (match_indices pat i s) \<Longrightarrow> i \<le> j \<and> occurs_at pat s (j - i)"
proof (induction pat i s rule: match_indices.induct)
  case (1 pat i s)
  consider "pat = [] \<or> s = []" | "pat \<noteq> []" "s \<noteq> []" "prefix pat s" | "pat \<noteq> []" "s \<noteq> []" "\<not> prefix pat s"
    by blast
  then show ?case
  proof cases
    case 1
    then show ?thesis using "1.prems" by (simp add: match_indices.simps)
  next
    case 2
    then have "j = i \<or> j \<in> set (match_indices pat (i + length pat) (drop (length pat) s))"
      using "1.prems" by (subst (asm) match_indices.simps) simp
    then show ?thesis
    proof
      assume "j = i"
      with 2 show ?thesis by (simp add: occurs_at_def)
    next
      assume "j \<in> set (match_indices pat (i + length pat) (drop (length pat) s))"
      then have rec: "i + length pat \<le> j \<and> occurs_at pat (drop (length pat) s) (j - (i + length pat))"
        using "1.IH"(1) 2 by simp
      then have shift: "j - (i + length pat) + length pat = j - i" by simp
      moreover have "length pat \<le> length s" using 2 by (simp add: prefix_length_le)
      ultimately have "j - i \<le> length s" using rec unfolding occurs_at_def length_drop by linarith
      with rec shift show ?thesis by (simp add: occurs_at_def)
    qed
  next
    case 3
    then have "j \<in> set (match_indices pat (Suc i) (tl s))"
      using "1.prems" by (subst (asm) match_indices.simps) simp
    then have rec: "Suc i \<le> j \<and> occurs_at pat (tl s) (j - Suc i)" using "1.IH"(2) 3 by simp
    moreover have "drop (j - Suc i) (tl s) = drop (j - i) s"
      using rec by (cases s) (auto simp: Suc_diff_Suc [symmetric] drop_Cons')
    ultimately show ?thesis using 3 by (cases s) (auto simp: occurs_at_def)
  qed
qed

text \<open>Two occurrences of an unbordered pattern never overlap.\<close>

lemma unbordered_occurrences:
  assumes "unbordered pat" and "occurs_at pat s i" and "occurs_at pat s j" and "i < j"
  shows "i + length pat \<le> j"
proof (rule ccontr)
  assume "\<not> i + length pat \<le> j"
  define k where "k = length pat - (j - i)"
  then have k: "1 \<le> k" "k < length pat" "j = i + (length pat - k)"
    using \<open>\<not> i + length pat \<le> j\<close> assms(4) by auto
  obtain u v where uv: "drop i s = pat @ u" "drop j s = pat @ v"
    using assms(2,3) by (auto simp: occurs_at_def prefix_def)
  have "drop j s = drop (length pat - k) (drop i s)" using k(3) by (simp add: add.commute)
  then have "pat @ v = drop (length pat - k) pat @ u" using uv by simp
  then have "take k (pat @ v) = take k (drop (length pat - k) pat @ u)" by simp
  then have "take k pat = drop (length pat - k) pat" using k(1,2) by simp
  with k(1,2) assms(1) show False by (auto simp: unbordered_def list_all_iff)
qed

lemma match_indices_complete:
  "unbordered pat \<Longrightarrow> pat \<noteq> [] \<Longrightarrow> occurs_at pat s k \<Longrightarrow> i + k \<in> set (match_indices pat i s)"
proof (induction pat i s arbitrary: k rule: match_indices.induct)
  case (1 pat i s)
  have s: "s \<noteq> []" using 1 by (auto simp: occurs_at_def)
  show ?case
  proof (cases "prefix pat s")
    case True
    then have here: "occurs_at pat s 0" by (simp add: occurs_at_def)
    show ?thesis
    proof (cases k)
      case 0
      with True s "1.prems"(2) show ?thesis by (subst match_indices.simps) simp
    next
      case (Suc k')
      then have far: "length pat \<le> k"
        using unbordered_occurrences [OF "1.prems"(1) here "1.prems"(3)] by simp
      then have "occurs_at pat (drop (length pat) s) (k - length pat)"
        using "1.prems"(3) by (auto simp: occurs_at_def)
      then have "i + length pat + (k - length pat) \<in> set (match_indices pat (i + length pat) (drop (length pat) s))"
        using "1.IH"(1) "1.prems"(1,2) True s by simp
      with True s "1.prems"(2) far show ?thesis by (subst match_indices.simps) simp
    qed
  next
    case False
    then obtain k' where k': "k = Suc k'" using "1.prems"(3) by (cases k) (auto simp: occurs_at_def)
    then have "occurs_at pat (tl s) k'" using "1.prems"(3) s by (cases s) (auto simp: occurs_at_def)
    then have "Suc i + k' \<in> set (match_indices pat (Suc i) (tl s))"
      using "1.IH"(2) "1.prems"(1,2) False s by simp
    with False s "1.prems"(2) k' show ?thesis by (subst match_indices.simps) simp
  qed
qed

text \<open>
  A place of a text where a rule is meant to fire: an occurrence between two edges, an edge being an
  end of the text or a separator.
\<close>

definition edge :: "string \<Rightarrow> bool" where
  "edge side \<longleftrightarrow> side = [] \<or> hd side \<in> set '' ;&|()#''"

definition fires_at :: "string \<Rightarrow> string \<Rightarrow> nat \<Rightarrow> bool" where
  "fires_at pat s i \<longleftrightarrow> occurs_at pat s i \<and> edge (rev (take i s)) \<and> edge (drop (i + length pat) s)"

lemma separator_eq: "is_separator_byte b \<longleftrightarrow> b \<in> set '' ;&|()#''"
  by (simp add: is_separator_byte_def)

lemma boundary_before_edge: "i \<le> length s \<Longrightarrow> boundary_before s i \<longleftrightarrow> edge (rev (take i s))"
  by (cases i) (auto simp: boundary_before_def edge_def separator_eq take_Suc_conv_app_nth)

lemma boundary_after_edge: "i \<le> length s \<Longrightarrow> boundary_after s i \<longleftrightarrow> edge (drop i s)"
  by (auto simp: boundary_after_def edge_def separator_eq hd_drop_conv_nth)

lemma occurs_at_fits: "occurs_at pat s i \<Longrightarrow> i + length pat \<le> length s"
  using prefix_length_le [of pat "drop i s"] by (auto simp: occurs_at_def)

lemma matches_iff_fires:
  assumes "unbordered (join '' '' (split_whitespace pattern))"
  shows "matches_at_token_boundary command pattern \<longleftrightarrow>
    join '' '' (split_whitespace pattern) \<noteq> [] \<and>
    (\<exists>i. fires_at (join '' '' (split_whitespace pattern)) (join '' '' (split_whitespace command)) i)"
proof -
  let ?p = "join '' '' (split_whitespace pattern)" and ?c = "join '' '' (split_whitespace command)"
  have "i \<in> set (match_indices ?p 0 ?c) \<longleftrightarrow> occurs_at ?p ?c i" if "?p \<noteq> []" for i
    using match_indices_sound [of i ?p 0 ?c] match_indices_complete [OF assms that, of ?c i 0] by auto
  then show ?thesis
    unfolding matches_at_token_boundary_def Let_def list_ex_iff fires_at_def
    using occurs_at_fits boundary_before_edge [of _ ?c] boundary_after_edge [of _ ?c] add_leD1 by metis
qed

lemma check_deny_passed:
  "vr_passed (check_deny cv command) \<longleftrightarrow> \<not> (\<exists>p \<in> set (deny_globs cv). matches_at_token_boundary command p)"
proof (cases "find (matches_at_token_boundary command) (deny_globs cv)")
  case None
  then show ?thesis using None [unfolded find_None_iff] by (simp add: check_deny_def verify_pass_def)
next
  case (Some p)
  then show ?thesis using find_Some_member [OF Some] by (auto simp: check_deny_def verify_fail_def)
qed

text \<open>
  C37: The deny check is exact for rules without a border: with every run of whitespace in command and
  rule reduced to one space, a command is denied if and only if some rule occurs in it with a
  separator or an end of the text on both sides.
\<close>

theorem deny_check_is_exact:
  assumes "\<forall>pattern \<in> set (deny_globs cv). unbordered (join '' '' (split_whitespace pattern))"
  shows "vr_passed (check_deny cv command) \<longleftrightarrow>
    \<not> (\<exists>pattern \<in> set (deny_globs cv). join '' '' (split_whitespace pattern) \<noteq> [] \<and>
         (\<exists>i. fires_at (join '' '' (split_whitespace pattern)) (join '' '' (split_whitespace command)) i))"
  using assms by (simp add: check_deny_passed matches_iff_fires)

lemma ascii_whitespace: "[c] \<in> set utf8_whitespace \<longleftrightarrow> of_char c \<in> {9 :: nat, 10, 11, 12, 13, 32}"
proof -
  have "c = char_of n \<longleftrightarrow> of_char c = n" if "n < 256" for n :: nat
    using that by (auto simp: char_of_eq_iff [symmetric] take_bit_nat_def dest: sym)
  then show ?thesis by (auto simp: utf8_whitespace_def)
qed

lemmas split_eval = split_whitespace_def takeWhile_starts_char ascii_whitespace continues_def

theorem deny_check_is_exact_witness:
  "\<not> vr_passed (check_deny (with_deny_globs [''rm  /''] new_command_verifier) ''ls; rm /;'')"
proof -
  have rule: "join '' '' (split_whitespace ''rm  /'') = ''rm /''" by (simp add: split_eval)
  have command: "join '' '' (split_whitespace ''ls; rm /;'') = ''ls; rm /;''" by (simp add: split_eval)
  have "unbordered ''rm /''" by (simp add: unbordered_def upt_rec)
  moreover have "fires_at ''rm /'' ''ls; rm /;'' 4"
    by (simp add: fires_at_def occurs_at_def edge_def)
  ultimately show ?thesis
    using deny_check_is_exact [of "with_deny_globs [''rm  /''] new_command_verifier" "''ls; rm /;''"]
    by (simp only: with_deny_globs_def) (auto simp: rule command)
qed

text \<open>
  The shortest fork bomb ends as it begins, so the rule against it has a border. After a first
  occurrence inside a word the search goes on behind it, and the bomb that starts in its last
  character, between a separator and the end of the command, is never looked at: the verifier passes it.
\<close>

lemma bomb_words: "split_whitespace ''x:(){:|:&};:(){:|:&};:'' = [''x:(){:|:&};:(){:|:&};:'']"
  by (simp add: split_eval)

lemma bomb_matches_no_rule: "\<not> list_ex (matches_at_token_boundary ''x:(){:|:&};:(){:|:&};:'') default_deny_globs"
  by (simp add: default_deny_globs_def matches_at_token_boundary_def bomb_words)
    (simp add: split_eval match_indices.simps boundary_before_def is_separator_byte_def)

theorem overlapping_occurrence_escapes:
  "verify_command new_command_verifier ''x:(){:|:&};:(){:|:&};:'' = verify_pass \<and>
   fires_at '':(){:|:&};:'' ''x:(){:|:&};:(){:|:&};:'' 11"
proof
  have "shell_words ''x:(){:|:&};:(){:|:&};:'' = Inr [''x:(){:|:&};:(){:|:&};:'']"
    by (simp add: shell_words_def shell_start_def shell_char_def takeWhile_starts_char ascii_whitespace continues_def)
  moreover have "\<not> is_wrapped_shell [''x:(){:|:&};:(){:|:&};:'']" by (simp add: is_wrapped_shell_def)
  moreover have "find (matches_at_token_boundary ''x:(){:|:&};:(){:|:&};:'') default_deny_globs = None"
    using bomb_matches_no_rule by (auto simp: find_None_iff list_ex_iff)
  ultimately show "verify_command new_command_verifier ''x:(){:|:&};:(){:|:&};:'' = verify_pass"
    by (simp add: verify_command_def check_deny_def new_command_verifier_def)
next
  show "fires_at '':(){:|:&};:'' ''x:(){:|:&};:(){:|:&};:'' 11"
    by (simp add: fires_at_def occurs_at_def edge_def)
qed

end
