(* ===== verification/Pipeline.thy ===== *)
theory Pipeline
  imports Dispatch Registry Command_Check
begin

section \<open>The middleware pipeline of a tool call\<close>

text \<open>
  src/src/middleware.rs: the context of one call, the pipeline with its cursor and its builder. From
  src/src/middleware/: the core that calls the tool, the permission gate, the limit on output, the
  deadline with retries and the verifier of writes. A layer is a function from the rest of the
  pipeline. Whatever lies outside (the tools, the user who answers a prompt, the cancel signal, the
  clock) is a world that a layer passes on, so that an equal world means that nothing was run; what
  a \<open>select!\<close> between a future and the cancel signal came to is read from the world as one outcome.
\<close>

subsection \<open>Tool errors\<close>

datatype tool_error =
    TENotFound string string | TEInvalidInput string | TEExecution string | TEPermission string
  | TEFileNotFound string | TETimeout u64 | TECancelled | TEIo string | TEJson string

fun show_tool_error :: "tool_error \<Rightarrow> string" where
  "show_tool_error (TENotFound tool available) = ''Tool not found: '' @ tool @ ''. Available: '' @ available"
| "show_tool_error (TEInvalidInput s) = ''Invalid input: '' @ s"
| "show_tool_error (TEExecution s) = ''Execution error: '' @ s"
| "show_tool_error (TEPermission s) = ''Permission denied: '' @ s"
| "show_tool_error (TEFileNotFound s) = ''File not found: '' @ s"
| "show_tool_error (TETimeout n) = ''Timeout after '' @ show_nat (unat n) @ ''s''"
| "show_tool_error TECancelled = ''Cancelled''"
| "show_tool_error (TEIo s) = ''IO error: '' @ s"
| "show_tool_error (TEJson s) = ''JSON error: '' @ s"

definition from_tool_error :: "string \<Rightarrow> tool_error \<Rightarrow> duration \<Rightarrow> dispatch_result" where
  "from_tool_error tool e d =
     \<lparr>dr_call_id = '''', dr_output = TCText (show_tool_error e), dr_is_error = True, dr_duration = d,
      dr_tool_name = tool, dr_display_hint = None, dr_retention = None, dr_gate = None\<rparr>"

definition from_result :: "string \<Rightarrow> tool_error + tool_output \<Rightarrow> duration \<Rightarrow> dispatch_result" where
  "from_result tool r d =
     (case r of Inr out \<Rightarrow> from_tool_output tool out d | Inl e \<Rightarrow> from_tool_error tool e d)"

subsection \<open>Contexts and layers\<close>

datatype 'v permission_check = PermAllow | PermDeny string | PermAsk string | PermModify 'v

record ('v, 'c) dispatch_ctx =
  dc_tool_name :: string
  dc_input :: 'v
  dc_call_id :: string
  dc_turn :: usize
  dc_permission :: "'v permission_check"
  dc_tool_context :: 'c

type_synonym ('v, 'c, 'w) layer =
  "('v, 'c) dispatch_ctx \<Rightarrow> 'w \<Rightarrow> dispatch_result \<times> ('v, 'c) dispatch_ctx \<times> 'w"

record ('v, 'c, 'w) middleware =
  mw_name :: string
  mw_dispatch :: "('v, 'c, 'w) layer \<Rightarrow> ('v, 'c, 'w) layer"

text \<open>A tool call raced with the cancel signal; the payload of a panic is a string or something else.\<close>

datatype call_race = CallReturned "tool_error + tool_output" | CallPanicked "string option" | CallCancelled

record ('b, 'v, 'c, 'w) seams =
  poll_cancelled :: "'w \<Rightarrow> bool \<times> 'w"
  read_elapsed :: "'w \<Rightarrow> duration \<times> 'w"
  digest_args :: "'v \<Rightarrow> string"
  race_call :: "'b \<Rightarrow> 'v \<Rightarrow> 'c \<Rightarrow> 'w \<Rightarrow> call_race \<times> 'w"

subsection \<open>The core\<close>

definition cancelled_text :: "string \<Rightarrow> string" where
  "cancelled_text tool = ''Tool '' @ quoted tool @ '' cancelled''"

definition panic_text :: "string \<Rightarrow> string option \<Rightarrow> string" where
  "panic_text tool msg =
     ''Tool '' @ quoted tool @ '' panicked: '' @
     (case msg of Some m \<Rightarrow> m | None \<Rightarrow> ''Tool '' @ quoted tool @ '' panicked (unknown payload)'')"

definition core_dispatch ::
  "('b, 'v, 'c, 'w) seams \<Rightarrow> ('s, 'b) registry \<Rightarrow> ('v, 'c, 'w) layer" where
  "core_dispatch sm reg ctx w =
     (let tool_name = dc_tool_name ctx;
          answer = (\<lambda>r w. (with_call_id (dc_call_id ctx) r, ctx, w))
      in case registry_get reg tool_name of
           None \<Rightarrow>
             (case read_elapsed sm w of (d, w1) \<Rightarrow>
                answer (dispatch_err tool_name
                  (show_loop_error (\<lambda>_. '''') (tool_not_found tool_name (tool_names reg))) d) w1)
         | Some tool \<Rightarrow>
             (case poll_cancelled sm w of (stop, w1) \<Rightarrow>
                if stop then
                  (case read_elapsed sm w1 of (d, w2) \<Rightarrow> answer (dispatch_err tool_name (cancelled_text tool_name) d) w2)
                else
                  (case race_call sm (tool_body tool) (dc_input ctx) (dc_tool_context ctx) w1 of (race, w2) \<Rightarrow>
                     (case read_elapsed sm w2 of (d, w3) \<Rightarrow>
                        (case race of
                           CallCancelled \<Rightarrow> answer (dispatch_err tool_name (cancelled_text tool_name) d) w3
                         | CallPanicked msg \<Rightarrow> answer (dispatch_err tool_name (panic_text tool_name msg) d) w3
                         | CallReturned r \<Rightarrow> answer (from_result tool_name r d) w3)))))"

subsection \<open>The pipeline\<close>

record ('s, 'b, 'v, 'c, 'w) pipeline =
  pl_middlewares :: "('v, 'c, 'w) middleware list"
  pl_core :: "('s, 'b) registry"
  pl_index :: nat

datatype pipeline_error = MissingCore | EmptyPipeline

record ('s, 'b, 'v, 'c, 'w) pipeline_builder =
  pb_middlewares :: "('v, 'c, 'w) middleware list"
  pb_core :: "('s, 'b) registry option"

definition new_builder :: "('s, 'b, 'v, 'c, 'w) pipeline_builder" where
  "new_builder = \<lparr>pb_middlewares = [], pb_core = None\<rparr>"

definition with_middleware ::
  "('v, 'c, 'w) middleware \<Rightarrow> ('s, 'b, 'v, 'c, 'w) pipeline_builder \<Rightarrow> ('s, 'b, 'v, 'c, 'w) pipeline_builder" where
  "with_middleware m b = b\<lparr>pb_middlewares := pb_middlewares b @ [m]\<rparr>"

definition with_core ::
  "('s, 'b) registry \<Rightarrow> ('s, 'b, 'v, 'c, 'w) pipeline_builder \<Rightarrow> ('s, 'b, 'v, 'c, 'w) pipeline_builder" where
  "with_core reg b = b\<lparr>pb_core := Some reg\<rparr>"

definition build_pipeline ::
  "('s, 'b, 'v, 'c, 'w) pipeline_builder \<Rightarrow> pipeline_error + ('s, 'b, 'v, 'c, 'w) pipeline" where
  "build_pipeline b =
     (case pb_core b of
        None \<Rightarrow> Inl (if pb_middlewares b = [] then EmptyPipeline else MissingCore)
      | Some reg \<Rightarrow> Inr \<lparr>pl_middlewares = pb_middlewares b, pl_core = reg, pl_index = 0\<rparr>)"

definition new_pipeline :: "('s, 'b) registry \<Rightarrow> ('s, 'b, 'v, 'c, 'w) pipeline" where
  "new_pipeline reg = \<lparr>pl_middlewares = [], pl_core = reg, pl_index = 0\<rparr>"

definition has_middleware :: "('s, 'b, 'v, 'c, 'w) pipeline \<Rightarrow> bool" where
  "has_middleware pl \<longleftrightarrow> pl_middlewares pl \<noteq> []"

function dispatch_at :: "('v, 'c, 'w) middleware list \<Rightarrow> ('v, 'c, 'w) layer \<Rightarrow> nat \<Rightarrow> ('v, 'c, 'w) layer" where
  "dispatch_at ms core i =
     (if i < length ms then mw_dispatch (ms ! i) (dispatch_at ms core (Suc i)) else core)"
  by pat_completeness auto
termination by (relation "measure (\<lambda>(ms, core, i). length ms - i)") auto

declare dispatch_at.simps [simp del]

definition pipeline_dispatch ::
  "('b, 'v, 'c, 'w) seams \<Rightarrow> ('s, 'b, 'v, 'c, 'w) pipeline \<Rightarrow> ('v, 'c, 'w) layer" where
  "pipeline_dispatch sm pl = dispatch_at (pl_middlewares pl) (core_dispatch sm (pl_core pl)) (pl_index pl)"

definition invoke ::
  "('b, 'v, 'c, 'w) seams \<Rightarrow> ('s, 'b, 'v, 'c, 'w) pipeline \<Rightarrow> ('v, 'c) dispatch_ctx \<Rightarrow> 'w
   \<Rightarrow> dispatch_result \<times> 'w" where
  "invoke sm pl ctx w = (case pipeline_dispatch sm (pl\<lparr>pl_index := 0\<rparr>) ctx w of (r, _, w') \<Rightarrow> (r, w'))"

fun dispatch_all ::
  "('b, 'v, 'c, 'w) seams \<Rightarrow> ('s, 'b, 'v, 'c, 'w) pipeline \<Rightarrow> ('v, 'c) dispatch_ctx list
   \<Rightarrow> dispatch_result list \<Rightarrow> 'w \<Rightarrow> dispatch_result list result \<times> 'w" where
  "dispatch_all sm pl [] results w = (Inr results, w)"
| "dispatch_all sm pl (ctx # calls) results w =
     (case poll_cancelled sm w of (stop, w1) \<Rightarrow>
        if stop then (Inl ErrCancelled, w1)
        else
          (case invoke sm pl ctx w1 of (r, w2) \<Rightarrow>
             (case poll_cancelled sm w2 of (stop, w3) \<Rightarrow>
                if stop then (Inl ErrCancelled, w3)
                else dispatch_all sm pl calls (results @ [r]) w3)))"

definition middleware_names :: "('s, 'b, 'v, 'c, 'w) pipeline \<Rightarrow> string list" where
  "middleware_names pl = map mw_name (pl_middlewares pl) @ [''tool_call'']"

subsection \<open>Permission\<close>

text \<open>A prompt raced with the cancel signal. The resolver is absent in a headless run.\<close>

datatype ask_race = AskAnswered bool | AskInterrupted

record ('v, 'c, 'w) permission_mw =
  pm_check :: "(('v, 'c) dispatch_ctx \<Rightarrow> 'v permission_check) option"
  pm_rule_id :: "string option"
  pm_ask :: "(string \<Rightarrow> string \<Rightarrow> 'w \<Rightarrow> ask_race \<times> 'w) option"

definition deny_all :: "('v, 'c, 'w) permission_mw" where
  "deny_all = \<lparr>pm_check = Some (\<lambda>_. PermDeny ''blocked by policy''), pm_rule_id = None, pm_ask = None\<rparr>"

definition allow_all :: "('v, 'c, 'w) permission_mw" where
  "allow_all = \<lparr>pm_check = Some (\<lambda>_. PermAllow), pm_rule_id = None, pm_ask = None\<rparr>"

definition from_context :: "('v, 'c, 'w) permission_mw" where
  "from_context = \<lparr>pm_check = None, pm_rule_id = None, pm_ask = None\<rparr>"

definition with_check ::
  "(('v, 'c) dispatch_ctx \<Rightarrow> 'v permission_check) \<Rightarrow> ('v, 'c, 'w) permission_mw \<Rightarrow> ('v, 'c, 'w) permission_mw" where
  "with_check f pm = pm\<lparr>pm_check := Some f, pm_rule_id := None\<rparr>"

definition with_named_check ::
  "string \<Rightarrow> (('v, 'c) dispatch_ctx \<Rightarrow> 'v permission_check) \<Rightarrow> ('v, 'c, 'w) permission_mw
   \<Rightarrow> ('v, 'c, 'w) permission_mw" where
  "with_named_check rule f pm = pm\<lparr>pm_check := Some f, pm_rule_id := Some rule\<rparr>"

definition with_ask_resolver ::
  "(string \<Rightarrow> string \<Rightarrow> 'w \<Rightarrow> ask_race \<times> 'w) \<Rightarrow> ('v, 'c, 'w) permission_mw \<Rightarrow> ('v, 'c, 'w) permission_mw" where
  "with_ask_resolver resolver pm = pm\<lparr>pm_ask := Some resolver\<rparr>"

definition resolve_permission ::
  "('v, 'c, 'w) permission_mw \<Rightarrow> ('v, 'c) dispatch_ctx \<Rightarrow> 'v permission_check \<times> gate_rule_source \<times> string" where
  "resolve_permission pm ctx =
     (case pm_check pm of
        Some f \<Rightarrow>
          (f ctx, MiddlewareRule, case pm_rule_id pm of None \<Rightarrow> ''middleware'' | Some rule \<Rightarrow> rule)
      | None \<Rightarrow> (dc_permission ctx, ContextRule, ''context''))"

definition gate_record ::
  "('v \<Rightarrow> string) \<Rightarrow> ('v, 'c) dispatch_ctx \<Rightarrow> gate_verdict \<Rightarrow> gate_rule_source \<Rightarrow> string \<Rightarrow> gate_decision" where
  "gate_record digest ctx v source rule =
     for_args digest (dc_input ctx) (new_gate_decision (dc_tool_name ctx) v rule source)"

definition evaluate_gate ::
  "('v \<Rightarrow> string) \<Rightarrow> 'c \<Rightarrow> ('v, 'c, 'w) permission_mw \<Rightarrow> string \<Rightarrow> 'v \<Rightarrow> gate_decision" where
  "evaluate_gate digest default_context pm tool input =
     (let ctx = \<lparr>dc_tool_name = tool, dc_input = input, dc_call_id = '''', dc_turn = 0,
            dc_permission = PermAllow, dc_tool_context = default_context\<rparr>
      in case resolve_permission pm ctx of (permission, source, rule) \<Rightarrow>
           (let v = (case permission of PermAllow \<Rightarrow> Allow | PermModify _ \<Rightarrow> AllowModified
                     | PermDeny _ \<Rightarrow> Deny | PermAsk _ \<Rightarrow> Ask);
                rec = gate_record digest ctx v source rule
            in case permission of PermDeny r \<Rightarrow> with_reason r rec | PermAsk prompt \<Rightarrow> with_reason prompt rec
               | _ \<Rightarrow> rec))"

definition permission_deny :: "string \<Rightarrow> string \<Rightarrow> dispatch_result" where
  "permission_deny tool why = dispatch_err tool (''Permission '' @ why @ '' for tool '' @ quoted tool) 0"

definition awaiting_approval :: string where
  "awaiting_approval = ''cancelled while awaiting approval''"

definition permission_dispatch ::
  "('b, 'v, 'c, 'w) seams \<Rightarrow> ('v, 'c, 'w) permission_mw \<Rightarrow> ('v, 'c, 'w) layer \<Rightarrow> ('v, 'c, 'w) layer" where
  "permission_dispatch sm pm next_layer ctx w =
     (case resolve_permission pm ctx of (permission, source, rule) \<Rightarrow>
        (let record_of = gate_record (digest_args sm) ctx;
             go = (\<lambda>rec ctx w. case next_layer ctx w of (r, ctx', w') \<Rightarrow> (attach_gate rec r, ctx', w'));
             refuse = (\<lambda>rec why w. (attach_gate (with_reason why rec) (permission_deny (dc_tool_name ctx) why), ctx, w))
         in case permission of
              PermAllow \<Rightarrow> go (record_of Allow source rule) ctx w
            | PermModify input' \<Rightarrow> go (record_of AllowModified source rule) (ctx\<lparr>dc_input := input'\<rparr>) w
            | PermDeny why \<Rightarrow> refuse (record_of Deny source rule) why w
            | PermAsk prompt \<Rightarrow>
                (case pm_ask pm of
                   None \<Rightarrow> refuse (record_of AskUnresolved source rule) (''permission required: '' @ prompt) w
                 | Some resolver \<Rightarrow>
                     (case resolver prompt (dc_tool_name ctx) w of
                        (AskInterrupted, w1) \<Rightarrow> refuse (record_of GateCancelled source rule) awaiting_approval w1
                      | (AskAnswered False, w1) \<Rightarrow>
                          refuse (record_of AskDenied AskResolverRule ''ask'') ''denied by user'' w1
                      | (AskAnswered True, w1) \<Rightarrow>
                          (case poll_cancelled sm w1 of (stop, w2) \<Rightarrow>
                             if stop then refuse (record_of GateCancelled source rule) awaiting_approval w2
                             else go (record_of AskAllowed AskResolverRule ''ask'') ctx w2)))))"

definition permission_middleware ::
  "('b, 'v, 'c, 'w) seams \<Rightarrow> ('v, 'c, 'w) permission_mw \<Rightarrow> ('v, 'c, 'w) middleware" where
  "permission_middleware sm pm = \<lparr>mw_name = ''permission'', mw_dispatch = permission_dispatch sm pm\<rparr>"

subsection \<open>The limit on output\<close>

definition char_count :: "string \<Rightarrow> nat" where
  "char_count s = length (utf8_chars s)"

definition truncation_marker :: string where
  "truncation_marker = CHR 0x0A # ''[truncated]''"

definition truncate_marked :: "string \<Rightarrow> nat \<Rightarrow> string" where
  "truncate_marked s budget =
     concat (take (budget - char_count truncation_marker) (utf8_chars s)) @ truncation_marker"

fun limit_parts :: "nat \<Rightarrow> tool_content_part list \<Rightarrow> tool_content_part list" where
  "limit_parts remaining [] = []"
| "limit_parts remaining (TPText s # parts) =
     (if char_count s > remaining
      then TPText (if remaining = 0 then '''' else truncate_marked s remaining) # limit_parts 0 parts
      else TPText s # limit_parts (remaining - char_count s) parts)"
| "limit_parts remaining (TPImage img # parts) = TPImage img # limit_parts remaining parts"

definition limit_output :: "nat \<Rightarrow> tool_content \<Rightarrow> tool_content" where
  "limit_output max_chars out =
     (case out of
        TCText s \<Rightarrow> if char_count s > max_chars then TCText (truncate_marked s max_chars) else out
      | TCMultipart parts \<Rightarrow> TCMultipart (limit_parts max_chars parts))"

definition limit_dispatch :: "nat \<Rightarrow> ('v, 'c, 'w) layer \<Rightarrow> ('v, 'c, 'w) layer" where
  "limit_dispatch max_chars next_layer ctx w =
     (case next_layer ctx w of (r, ctx', w') \<Rightarrow>
        (if max_chars = 0 then r else r\<lparr>dr_output := limit_output max_chars (dr_output r)\<rparr>, ctx', w'))"

definition limit_middleware :: "nat \<Rightarrow> ('v, 'c, 'w) middleware" where
  "limit_middleware max_chars = \<lparr>mw_name = ''output_limit'', mw_dispatch = limit_dispatch max_chars\<rparr>"

subsection \<open>Verification of writes\<close>

text \<open>The verifier sees the context of the tool, the tool's name and the input as the model sent it.\<close>

record ('v, 'c, 'w) verify_mw =
  vm_verifier :: "'c \<Rightarrow> string \<Rightarrow> 'v \<Rightarrow> 'w \<Rightarrow> verify_result \<times> 'w"
  vm_write_tools :: "string list"

definition noop_verifier :: "'c \<Rightarrow> string \<Rightarrow> 'v \<Rightarrow> 'w \<Rightarrow> verify_result \<times> 'w" where
  "noop_verifier c tool input w = (\<lparr>vr_passed = True, vr_diagnostics = ''''\<rparr>, w)"

definition verify_block :: "verify_result \<Rightarrow> string" where
  "verify_block v =
     [CHR 0x0A, CHR 0x0A] @ ''[verify] '' @ (if vr_passed v then ''passed'' else ''failed'') @ '': '' @ vr_diagnostics v"

definition append_verify_result :: "tool_content \<Rightarrow> verify_result \<Rightarrow> tool_content" where
  "append_verify_result out v =
     (case out of
        TCText s \<Rightarrow> TCText (s @ verify_block v)
      | TCMultipart parts \<Rightarrow> TCMultipart (parts @ [TPText (strip_with utf8_whitespace (verify_block v))]))"

definition verify_dispatch :: "('v, 'c, 'w) verify_mw \<Rightarrow> ('v, 'c, 'w) layer \<Rightarrow> ('v, 'c, 'w) layer" where
  "verify_dispatch vm next_layer ctx w =
     (case next_layer ctx w of (r, ctx', w') \<Rightarrow>
        (let resolved = (if dr_tool_name r = '''' then dc_tool_name ctx' else dr_tool_name r)
         in if resolved \<notin> set (vm_write_tools vm) \<or> dr_is_error r then (r, ctx', w')
            else
              (case vm_verifier vm (dc_tool_context ctx') resolved (dc_input ctx) w' of (v, w'') \<Rightarrow>
                 (r\<lparr>dr_output := append_verify_result (dr_output r) v\<rparr>, ctx', w''))))"

definition verify_middleware :: "('v, 'c, 'w) verify_mw \<Rightarrow> ('v, 'c, 'w) middleware" where
  "verify_middleware vm = \<lparr>mw_name = ''verify'', mw_dispatch = verify_dispatch vm\<rparr>"

subsection \<open>Deadlines\<close>

text \<open>
  The rest of the pipeline under a deadline, raced with the cancel signal: the outcome says which of
  the three came first. A call that is timed out or interrupted is dropped where it stands, so the
  context and the world it leaves are whatever it had done by then: the seam \<open>bounded\<close> gives them.
\<close>

datatype bounded_call = InTime dispatch_result | TimedOut | Interrupted

record timeout_config =
  tmo_timeout :: duration
  tmo_retry :: bool
  tmo_max_retries :: u32

definition default_timeout_config :: timeout_config where
  "default_timeout_config = \<lparr>tmo_timeout = 120 * 10 ^ 9, tmo_retry = False, tmo_max_retries = 0\<rparr>"

definition timeout_from_secs :: "u64 \<Rightarrow> timeout_config" where
  "timeout_from_secs secs = default_timeout_config\<lparr>tmo_timeout := unat secs * 10 ^ 9\<rparr>"

definition no_timeout :: timeout_config where
  "no_timeout = \<lparr>tmo_timeout = duration_max, tmo_retry = False, tmo_max_retries = 0\<rparr>"

definition timeout_text :: "string \<Rightarrow> duration \<Rightarrow> string" where
  "timeout_text tool d = ''Tool '' @ quoted tool @ '' timed out after '' @ show_nat (d div 10 ^ 9) @ ''s''"

partial_function (option) timeout_loop ::
  "(duration \<Rightarrow> ('v, 'c, 'w) layer \<Rightarrow> ('v, 'c) dispatch_ctx \<Rightarrow> 'w \<Rightarrow> bounded_call \<times> ('v, 'c) dispatch_ctx \<times> 'w)
   \<Rightarrow> timeout_config \<Rightarrow> ('v, 'c, 'w) layer \<Rightarrow> string \<Rightarrow> u32 \<Rightarrow> duration \<Rightarrow> ('v, 'c) dispatch_ctx \<Rightarrow> 'w
   \<Rightarrow> (dispatch_result \<times> ('v, 'c) dispatch_ctx \<times> 'w) option" where
  "timeout_loop bounded cfg next_layer tool attempt current ctx w =
     (case bounded current next_layer ctx w of (outcome, ctx', w') \<Rightarrow>
        (case outcome of
           InTime r \<Rightarrow> Some (r, ctx', w')
         | Interrupted \<Rightarrow> Some (dispatch_err tool (cancelled_text tool) 0, ctx', w')
         | TimedOut \<Rightarrow>
             (if tmo_retry cfg \<and> sat_add attempt 1 \<le> tmo_max_retries cfg
              then timeout_loop bounded cfg next_layer tool (sat_add attempt 1) (min (2 * current) duration_max) ctx' w'
              else Some (dispatch_err tool (timeout_text tool current) current, ctx', w'))))"

declare timeout_loop.simps [code]

definition timeout_dispatch ::
  "(duration \<Rightarrow> ('v, 'c, 'w) layer \<Rightarrow> ('v, 'c) dispatch_ctx \<Rightarrow> 'w \<Rightarrow> bounded_call \<times> ('v, 'c) dispatch_ctx \<times> 'w)
   \<Rightarrow> timeout_config \<Rightarrow> ('v, 'c, 'w) layer \<Rightarrow> ('v, 'c) dispatch_ctx \<Rightarrow> 'w
   \<Rightarrow> (dispatch_result \<times> ('v, 'c) dispatch_ctx \<times> 'w) option" where
  "timeout_dispatch bounded cfg next_layer ctx w =
     timeout_loop bounded cfg next_layer (dc_tool_name ctx) 0 (tmo_timeout cfg) ctx w"

section \<open>Properties\<close>

subsection \<open>The cursor\<close>

text \<open>Walking the cursor nests the layers: the first registered is the outermost.\<close>

lemma dispatch_at_nests: "dispatch_at ms core i = foldr mw_dispatch (drop i ms) core"
proof (induction ms core i rule: dispatch_at.induct)
  case (1 ms core i)
  then show ?case
    by (subst dispatch_at.simps) (simp add: Cons_nth_drop_Suc [symmetric])
qed

lemma invoke_nests:
  "invoke sm pl ctx w =
     (case foldr mw_dispatch (pl_middlewares pl) (core_dispatch sm (pl_core pl)) ctx w of (r, _, w') \<Rightarrow> (r, w'))"
  by (simp add: invoke_def pipeline_dispatch_def dispatch_at_nests)

lemma build_pipeline_cases:
  "build_pipeline b =
     (if pb_core b = None then Inl (if pb_middlewares b = [] then EmptyPipeline else MissingCore)
      else Inr \<lparr>pl_middlewares = pb_middlewares b, pl_core = the (pb_core b), pl_index = 0\<rparr>)"
  by (auto simp: build_pipeline_def split: option.splits)

lemma dispatch_all_length:
  "fst (dispatch_all sm pl calls results w) = Inr rs \<Longrightarrow> length rs = length results + length calls"
  by (induction calls arbitrary: results w) (auto split: prod.splits if_splits)

subsection \<open>The permission gate\<close>

definition allowing :: "gate_verdict \<Rightarrow> bool" where
  "allowing v \<longleftrightarrow> v \<in> {Allow, AllowModified, AskAllowed}"

lemma gate_record_simps [simp]:
  "gate_tool (gate_record digest ctx v source rule) = dc_tool_name ctx"
  "args_digest (gate_record digest ctx v source rule) = digest (dc_input ctx)"
  "verdict (gate_record digest ctx v source rule) = v"
  by (simp_all add: gate_record_def for_args_def new_gate_decision_def)

lemma attach_gate_deny [simp]:
  "dr_gate (attach_gate rec (permission_deny tool why)) = Some rec"
  "dr_is_error (attach_gate rec (permission_deny tool why))"
  by (simp_all add: attach_gate_def permission_deny_def dispatch_err_def)

text \<open>What a permission layer does with one call, before it looks at the rest of the pipeline.\<close>

datatype ('v, 'c, 'w) gate_action =
    Refuse dispatch_result 'w
  | Proceed gate_decision "('v, 'c) dispatch_ctx" 'w

definition gate_action ::
  "('b, 'v, 'c, 'w) seams \<Rightarrow> ('v, 'c, 'w) permission_mw \<Rightarrow> ('v, 'c) dispatch_ctx \<Rightarrow> 'w \<Rightarrow> ('v, 'c, 'w) gate_action" where
  "gate_action sm pm ctx w =
     (case resolve_permission pm ctx of (permission, source, rule) \<Rightarrow>
        (let record_of = gate_record (digest_args sm) ctx;
             refuse = (\<lambda>rec why w. Refuse (attach_gate (with_reason why rec) (permission_deny (dc_tool_name ctx) why)) w)
         in case permission of
              PermAllow \<Rightarrow> Proceed (record_of Allow source rule) ctx w
            | PermModify input' \<Rightarrow> Proceed (record_of AllowModified source rule) (ctx\<lparr>dc_input := input'\<rparr>) w
            | PermDeny why \<Rightarrow> refuse (record_of Deny source rule) why w
            | PermAsk prompt \<Rightarrow>
                (case pm_ask pm of
                   None \<Rightarrow> refuse (record_of AskUnresolved source rule) (''permission required: '' @ prompt) w
                 | Some resolver \<Rightarrow>
                     (case resolver prompt (dc_tool_name ctx) w of
                        (AskInterrupted, w1) \<Rightarrow> refuse (record_of GateCancelled source rule) awaiting_approval w1
                      | (AskAnswered False, w1) \<Rightarrow>
                          refuse (record_of AskDenied AskResolverRule ''ask'') ''denied by user'' w1
                      | (AskAnswered True, w1) \<Rightarrow>
                          (case poll_cancelled sm w1 of (stop, w2) \<Rightarrow>
                             if stop then refuse (record_of GateCancelled source rule) awaiting_approval w2
                             else Proceed (record_of AskAllowed AskResolverRule ''ask'') ctx w2)))))"

lemma permission_dispatch_action:
  "permission_dispatch sm pm next_layer ctx w =
     (case gate_action sm pm ctx w of
        Refuse r w' \<Rightarrow> (r, ctx, w')
      | Proceed rec ctx' w' \<Rightarrow> (case next_layer ctx' w' of (r, ctx'', w'') \<Rightarrow> (attach_gate rec r, ctx'', w'')))"
  unfolding permission_dispatch_def gate_action_def
  by (cases "resolve_permission pm ctx"; cases "fst (resolve_permission pm ctx)")
    (simp_all add: Let_def split: option.split prod.split ask_race.split bool.split)

text \<open>
  C10: A permission layer decides before anything behind it runs. Whatever the rest of the pipeline is,
  the layer mints one record for the call as it came (its tool and the digest of its input). If the
  verdict refuses, the answer is an error that carries the record, the context is as it was and the
  rest is never reached: the world is the one the prompt left. If the verdict allows, the rest runs
  exactly once, on the same context, or on the one with the rule's input when the verdict says that it
  was modified, and the record is attached to its result.
\<close>

theorem gate_decides_before_dispatch:
  "\<exists>rec ctx' w'. gate_tool rec = dc_tool_name ctx \<and> args_digest rec = digest_args sm (dc_input ctx) \<and>
     (if allowing (verdict rec)
      then (ctx' = ctx \<or> (\<exists>v. ctx' = ctx\<lparr>dc_input := v\<rparr> \<and> verdict rec = AllowModified)) \<and>
        (\<forall>next_layer. permission_dispatch sm pm next_layer ctx w =
           (case next_layer ctx' w' of (r, c, w'') \<Rightarrow> (attach_gate rec r, c, w'')))
      else ctx' = ctx \<and>
        (\<exists>r. dr_is_error r \<and> dr_gate r = Some rec \<and>
           (\<forall>next_layer. permission_dispatch sm pm next_layer ctx w = (r, ctx, w'))))"
proof (cases "gate_action sm pm ctx w")
  case (Refuse r w')
  then have "\<exists>rec. gate_tool rec = dc_tool_name ctx \<and> args_digest rec = digest_args sm (dc_input ctx) \<and>
      \<not> allowing (verdict rec) \<and> dr_is_error r \<and> dr_gate r = Some rec"
    unfolding gate_action_def
    by (auto simp: Let_def allowing_def with_reason_def
        split: prod.splits permission_check.splits option.splits ask_race.splits bool.splits if_splits)
  then obtain rec where rec: "gate_tool rec = dc_tool_name ctx" "args_digest rec = digest_args sm (dc_input ctx)"
      "\<not> allowing (verdict rec)" "dr_is_error r" "dr_gate r = Some rec" by blast
  then show ?thesis
    using Refuse by (intro exI [of _ rec] exI [of _ ctx] exI [of _ w']) (auto simp: permission_dispatch_action)
next
  case (Proceed rec ctx' w')
  then have "gate_tool rec = dc_tool_name ctx \<and> args_digest rec = digest_args sm (dc_input ctx) \<and>
      allowing (verdict rec) \<and> (ctx' = ctx \<or> (\<exists>v. ctx' = ctx\<lparr>dc_input := v\<rparr> \<and> verdict rec = AllowModified))"
    unfolding gate_action_def
    by (auto simp: Let_def allowing_def
        split: prod.splits permission_check.splits option.splits ask_race.splits bool.splits if_splits)
  then show ?thesis
    using Proceed by (intro exI [of _ rec] exI [of _ ctx'] exI [of _ w']) (auto simp: permission_dispatch_action)
qed

text \<open>An approval that lands after the run was cancelled is worth nothing: the call is refused.\<close>

lemma approval_after_cancel_is_refused:
  assumes "resolve_permission pm ctx = (PermAsk prompt, source, rule)"
    and "pm_ask pm = Some resolver" and "resolver prompt (dc_tool_name ctx) w = (AskAnswered approved, w1)"
    and "fst (poll_cancelled sm w1)"
  obtains r w' where "permission_dispatch sm pm next_layer ctx w = (r, ctx, w')" and "dr_is_error r"
  using assms that by (cases approved; cases "poll_cancelled sm w1") (auto simp: permission_dispatch_def Let_def)

text \<open>With every call denied, no tool of any registry behind any layers is run.\<close>

lemma deny_all_runs_nothing:
  "invoke sm \<lparr>pl_middlewares = permission_middleware sm deny_all # inner, pl_core = reg, pl_index = i\<rparr> ctx w =
     (attach_gate (with_reason ''blocked by policy''
        (gate_record (digest_args sm) ctx Deny MiddlewareRule ''middleware''))
        (permission_deny (dc_tool_name ctx) ''blocked by policy''), w)"
  by (simp add: invoke_nests permission_middleware_def permission_dispatch_def deny_all_def
      resolve_permission_def Let_def)

text \<open>
  C13: A dry run answers what the dispatch will decide: for a rule that looks at the tool and its input
  alone, on the permission the engine gives every call, the record that \<open>evaluate\<close> returns is the one
  the dispatch attaches, to a result that has none of its own, unless the rule asks: then the dry run
  answers \<open>Ask\<close> with the prompt as the reason, and the dispatch records what became of the prompt.
\<close>

theorem dry_run_agrees_with_dispatch:
  assumes "\<And>f c c'. pm_check pm = Some f \<Longrightarrow> dc_tool_name c = dc_tool_name c' \<Longrightarrow> dc_input c = dc_input c' \<Longrightarrow> f c = f c'"
    and "dc_permission ctx = PermAllow"
    and "\<And>c w. dr_gate (fst (next_layer c w)) = None"
  shows "let dry = evaluate_gate (digest_args sm) default_context pm (dc_tool_name ctx) (dc_input ctx);
      real = dr_gate (fst (permission_dispatch sm pm next_layer ctx w))
    in if verdict dry = Ask
       then (\<exists>prompt. fst (resolve_permission pm ctx) = PermAsk prompt \<and> reason dry = Some prompt) \<and>
            (\<exists>g. real = Some g \<and> verdict g \<in> {AskAllowed, AskDenied, AskUnresolved, GateCancelled} \<and>
               gate_tool g = gate_tool dry \<and> args_digest g = args_digest dry)
       else real = Some dry"
proof -
  define dry_ctx where "dry_ctx = \<lparr>dc_tool_name = dc_tool_name ctx, dc_input = dc_input ctx, dc_call_id = '''',
    dc_turn = 0, dc_permission = PermAllow, dc_tool_context = default_context\<rparr>"
  have same: "resolve_permission pm dry_ctx = resolve_permission pm ctx"
  proof (cases "pm_check pm")
    case None
    then show ?thesis using assms(2) by (simp add: resolve_permission_def dry_ctx_def)
  next
    case (Some f)
    then have "f dry_ctx = f ctx" by (rule assms(1)) (simp_all add: dry_ctx_def)
    with Some show ?thesis by (simp add: resolve_permission_def)
  qed
  have rec: "gate_record digest dry_ctx v source rule = gate_record digest ctx v source rule" for digest v source rule
    by (simp add: gate_record_def dry_ctx_def)
  obtain p source rule where p: "resolve_permission pm ctx = (p, source, rule)" by (cases "resolve_permission pm ctx")
  have attached: "dr_gate (attach_gate g r) = Some g" if "next_layer c v = (r, c', w')" for c v r c' w' g
    using assms(3) [of c v] that by (simp add: attach_gate_def)
  have dry: "evaluate_gate (digest_args sm) default_context pm (dc_tool_name ctx) (dc_input ctx) =
      (let v = (case p of PermAllow \<Rightarrow> Allow | PermModify _ \<Rightarrow> AllowModified | PermDeny _ \<Rightarrow> Deny | PermAsk _ \<Rightarrow> Ask);
           rec = gate_record (digest_args sm) ctx v source rule
       in case p of PermDeny r \<Rightarrow> with_reason r rec | PermAsk prompt \<Rightarrow> with_reason prompt rec | _ \<Rightarrow> rec)"
    unfolding evaluate_gate_def Let_def dry_ctx_def [symmetric] same p prod.case rec by simp
  show ?thesis
  proof (cases p)
    case (PermAsk prompt)
    then show ?thesis
      unfolding permission_dispatch_def p dry Let_def fst_conv
      by (auto simp: attached with_reason_def split: option.split prod.split ask_race.split bool.split)
  qed (auto simp: permission_dispatch_def p dry Let_def attached with_reason_def split: prod.split)
qed

definition demo_seams :: "(unit, nat, unit, nat) seams" where
  "demo_seams = \<lparr>poll_cancelled = (\<lambda>w. (False, w)), read_elapsed = (\<lambda>w. (0, w)), digest_args = show_nat,
     race_call = (\<lambda>_ _ _ w. (CallCancelled, Suc w))\<rparr>"

definition demo_ctx :: "(nat, unit) dispatch_ctx" where
  "demo_ctx = \<lparr>dc_tool_name = ''read'', dc_input = 7, dc_call_id = ''c1'', dc_turn = 1,
     dc_permission = PermAllow, dc_tool_context = ()\<rparr>"

definition cautious :: "(nat, unit, nat) permission_mw" where
  "cautious = with_named_check ''even''
     (\<lambda>c. if even (dc_input c) then PermAllow else PermDeny ''odd input'') from_context"

theorem dry_run_agrees_with_dispatch_witness:
  "dr_gate (fst (permission_dispatch demo_seams cautious
       (\<lambda>c w. (dispatch_ok (dc_tool_name c) ''fine'' 0, c, w)) demo_ctx 0)) =
   Some (evaluate_gate show_nat () cautious ''read'' 7)"
proof -
  have "verdict (evaluate_gate show_nat () cautious ''read'' 7) = Deny"
    by (simp add: evaluate_gate_def cautious_def with_named_check_def resolve_permission_def with_reason_def Let_def)
  moreover have "f c = f c'" if "pm_check cautious = Some f" and "dc_input c = dc_input c'" for f c c'
    using that by (auto simp: cautious_def with_named_check_def)
  ultimately show ?thesis
    using dry_run_agrees_with_dispatch
      [where pm = cautious and ctx = demo_ctx and sm = demo_seams and default_context = "()" and w = 0
        and next_layer = "\<lambda>c w. (dispatch_ok (dc_tool_name c) ''fine'' 0, c, w)"]
    by (simp add: dispatch_ok_def demo_ctx_def demo_seams_def Let_def)
qed

subsection \<open>Layers that only rework the result\<close>

text \<open>
  The contract of a layer that runs the rest of the pipeline once and edits what comes back: it leaves
  the world and the context to the rest, and neither turns a failure into a success, or back, nor
  touches the gate record.
\<close>

locale forwarding_layer =
  fixes layer :: "('v, 'c, 'w) layer \<Rightarrow> ('v, 'c, 'w) layer"
    and post :: "('v, 'c) dispatch_ctx \<Rightarrow> dispatch_result \<Rightarrow> dispatch_result"
  assumes forwards: "layer rest ctx w = (case rest ctx w of (r, ctx', w') \<Rightarrow> (post ctx' r, ctx', w'))"
    and keeps_verdict: "dr_is_error (post ctx r) = dr_is_error r"
    and keeps_gate: "dr_gate (post ctx r) = dr_gate r"
begin

lemma same_effects: "snd (layer rest ctx w) = snd (rest ctx w)"
  by (simp add: forwards split: prod.split)

lemma same_verdict: "dr_is_error (fst (layer rest ctx w)) = dr_is_error (fst (rest ctx w))"
  by (simp add: forwards keeps_verdict split: prod.split)

lemma same_gate: "dr_gate (fst (layer rest ctx w)) = dr_gate (fst (rest ctx w))"
  by (simp add: forwards keeps_gate split: prod.split)

lemma outermost:
  "\<exists>ctx'. invoke sm \<lparr>pl_middlewares = \<lparr>mw_name = n, mw_dispatch = layer\<rparr> # inner, pl_core = reg, pl_index = i\<rparr> ctx w =
     (case invoke sm \<lparr>pl_middlewares = inner, pl_core = reg, pl_index = i\<rparr> ctx w of (r, w') \<Rightarrow> (post ctx' r, w'))"
  by (auto simp: invoke_nests forwards split: prod.split)

end

interpretation limit: forwarding_layer "limit_dispatch max_chars"
    "\<lambda>_ r. if max_chars = 0 then r else r\<lparr>dr_output := limit_output max_chars (dr_output r)\<rparr>"
  for max_chars
  by unfold_locales (simp_all add: limit_dispatch_def)

subsection \<open>The limit on output\<close>

definition part_chars :: "tool_content_part \<Rightarrow> nat" where
  "part_chars p = (case p of TPText s \<Rightarrow> char_count s | TPImage _ \<Rightarrow> 0)"

lemma part_chars_simps [simp]: "part_chars (TPText s) = char_count s" "part_chars (TPImage img) = 0"
  by (simp_all add: part_chars_def)

lemma char_count_Nil [simp]: "char_count [] = 0"
  by (simp add: char_count_def)

lemma utf8_chars_marker: "utf8_chars truncation_marker = map (\<lambda>c. [c]) truncation_marker"
  by (rule utf8_chars_ascii) (simp add: truncation_marker_def continues_def)

lemma char_count_marker [simp]: "char_count truncation_marker = 12"
  by (simp only: char_count_def utf8_chars_marker) (simp add: truncation_marker_def)

lemma char_count_truncate_marked:
  "char_count (truncate_marked s budget) = min (budget - 12) (char_count s) + 12"
proof -
  have "starts_char truncation_marker" by (simp add: truncation_marker_def continues_def)
  then show ?thesis
    by (simp add: truncate_marked_def char_count_def [of "_ @ _"] utf8_chars_append
        char_count_def [symmetric] min.commute)
qed

abbreviation text_chars :: "tool_content_part list \<Rightarrow> nat" where
  "text_chars ps \<equiv> sum_list (map part_chars ps)"

fun emptied :: "tool_content_part \<Rightarrow> tool_content_part" where
  "emptied (TPText s) = TPText ''''"
| "emptied (TPImage img) = TPImage img"

lemma no_chars: "char_count s = 0 \<longleftrightarrow> s = ''''"
  by (cases s) (simp_all add: char_count_def)

lemma limit_parts_exhausted: "limit_parts 0 ps = map emptied ps"
proof (induction ps)
  case (Cons p ps)
  then show ?case by (cases p) (simp_all add: no_chars)
qed simp

lemma limit_parts_id: "text_chars ps \<le> remaining \<Longrightarrow> limit_parts remaining ps = ps"
  by (induction remaining ps rule: limit_parts.induct) simp_all

text \<open>
  What a text becomes that does not fit the room left for it: nothing when there is no room, else its
  first characters and the marker, the room exactly, unless the room is too small for the marker.
\<close>

definition cut_to :: "nat \<Rightarrow> string \<Rightarrow> string \<Rightarrow> bool" where
  "cut_to room s t \<longleftrightarrow>
     (if room = 0 then t = ''''
      else (\<exists>kept rest. s = kept @ rest \<and> utf8_chars kept = take (room - 12) (utf8_chars s) \<and>
              t = kept @ truncation_marker \<and> char_count t = max 12 room))"

lemma cut_marked: "0 < room \<Longrightarrow> room < char_count s \<Longrightarrow> cut_to room s (truncate_marked s room)"
proof -
  assume room: "0 < room" "room < char_count s"
  let ?kept = "concat (take (room - 12) (utf8_chars s))" and ?rest = "concat (drop (room - 12) (utf8_chars s))"
  have "s = ?kept @ ?rest" by (metis append_take_drop_id concat_append concat_utf8_chars)
  moreover have "truncate_marked s room = ?kept @ truncation_marker" by (simp add: truncate_marked_def)
  moreover have "char_count (truncate_marked s room) = max 12 room" using room by (simp add: char_count_truncate_marked)
  ultimately show ?thesis
    unfolding cut_to_def using room(1) by (intro if_not_P [THEN iffD2] exI [of _ ?kept] exI [of _ ?rest]) auto
qed

lemma limit_parts_cut:
  assumes "remaining < text_chars ps"
  shows "\<exists>before s after t. ps = before @ TPText s # after \<and> limit_parts remaining ps = before @ TPText t # map emptied after \<and>
    text_chars before \<le> remaining \<and> remaining < text_chars before + char_count s \<and>
    cut_to (remaining - text_chars before) s t"
  using assms
proof (induction remaining ps rule: limit_parts.induct)
  case (2 remaining s ps)
  show ?case
  proof (cases "remaining < char_count s")
    case True
    then have "cut_to remaining s (if remaining = 0 then '''' else truncate_marked s remaining)"
      using cut_marked [of remaining s] by (simp add: cut_to_def)
    with True show ?thesis
      by (intro exI [of _ "[]"] exI [of _ s] exI [of _ ps]
            exI [of _ "if remaining = 0 then '''' else truncate_marked s remaining"])
        (simp add: limit_parts_exhausted)
  next
    case False
    then have "remaining - char_count s < text_chars ps" using "2.prems" by simp
    from "2.IH"(2) [OF False this] obtain before s' after t where
      "ps = before @ TPText s' # after" "limit_parts (remaining - char_count s) ps = before @ TPText t # map emptied after"
      "text_chars before \<le> remaining - char_count s" "remaining - char_count s < text_chars before + char_count s'"
      "cut_to (remaining - char_count s - text_chars before) s' t" by blast
    with False show ?thesis
      by (intro exI [of _ "TPText s # before"] exI [of _ s'] exI [of _ after] exI [of _ t]) auto
  qed
next
  case (3 remaining img ps)
  then obtain before s after t where
    "ps = before @ TPText s # after" "limit_parts remaining ps = before @ TPText t # map emptied after"
    "text_chars before \<le> remaining" "remaining < text_chars before + char_count s"
    "cut_to (remaining - text_chars before) s t" by auto
  then show ?case by (intro exI [of _ "TPImage img # before"] exI [of _ s] exI [of _ after] exI [of _ t]) simp
qed simp

definition shown_parts :: "tool_content \<Rightarrow> tool_content_part list" where
  "shown_parts out = (case out of TCText s \<Rightarrow> [TPText s] | TCMultipart ps \<Rightarrow> ps)"

fun one_text :: "tool_content \<Rightarrow> bool" where
  "one_text (TCText _) = True"
| "one_text (TCMultipart _) = False"

definition output_chars :: "tool_content \<Rightarrow> nat" where
  "output_chars out = text_chars (shown_parts out)"

lemma limit_output_id: "output_chars out \<le> m \<Longrightarrow> limit_output m out = out"
  by (auto simp: limit_output_def output_chars_def shown_parts_def limit_parts_id split: tool_content.split)

lemma limit_output_parts:
  assumes "0 < m"
  shows "shown_parts (limit_output m out) = limit_parts m (shown_parts out)"
    and "one_text (limit_output m out) = one_text out"
  using assms by (auto simp: limit_output_def shown_parts_def split: tool_content.split)

text \<open>
  C12: a limit registered first caps whatever the layers behind it and the tool come to. A limit of 0 is
  disabled, and an output whose text fits the limit passes unchanged. Else only the output is touched,
  and of it only texts: the parts before the one that does not fit stay as they are, that one is cut to
  its first characters and the marker, so that it ends exactly on the limit, and every text after it is
  emptied. (Less room than the marker's twelve characters still gets the bare marker, no room nothing.)
\<close>

theorem output_is_capped:
  "let raw = fst (invoke sm \<lparr>pl_middlewares = inner, pl_core = reg, pl_index = i\<rparr> ctx w);
      capped = fst (invoke sm \<lparr>pl_middlewares = limit_middleware max_chars # inner, pl_core = reg, pl_index = i\<rparr> ctx w)
    in if max_chars = 0 \<or> output_chars (dr_output raw) \<le> max_chars then capped = raw
       else capped = raw\<lparr>dr_output := dr_output capped\<rparr> \<and>
         one_text (dr_output capped) = one_text (dr_output raw) \<and>
         (\<exists>before s after t.
            shown_parts (dr_output raw) = before @ TPText s # after \<and>
            shown_parts (dr_output capped) = before @ TPText t # map emptied after \<and>
            text_chars before \<le> max_chars \<and> max_chars < text_chars before + char_count s \<and>
            cut_to (max_chars - text_chars before) s t)"
proof -
  let ?raw = "fst (invoke sm \<lparr>pl_middlewares = inner, pl_core = reg, pl_index = i\<rparr> ctx w)"
  have capped: "fst (invoke sm \<lparr>pl_middlewares = limit_middleware max_chars # inner, pl_core = reg, pl_index = i\<rparr> ctx w) =
      (if max_chars = 0 then ?raw else ?raw\<lparr>dr_output := limit_output max_chars (dr_output ?raw)\<rparr>)"
    using limit.outermost [of sm "''output_limit''" max_chars inner reg i ctx w]
    by (simp add: limit_middleware_def split: prod.split)
  show ?thesis
  proof (cases "max_chars = 0 \<or> output_chars (dr_output ?raw) \<le> max_chars")
    case True
    then show ?thesis unfolding capped Let_def by (auto simp: limit_output_id)
  next
    case False
    then have "0 < max_chars" "max_chars < text_chars (shown_parts (dr_output ?raw))"
      by (simp_all add: output_chars_def)
    note cut = limit_parts_cut [OF this(2), folded limit_output_parts(1) [OF this(1)]]
    show ?thesis
      using False cut limit_output_parts(2) [OF \<open>0 < max_chars\<close>] unfolding capped Let_def by simp
  qed
qed

text \<open>The cap can be missed by at most eleven characters: the marker less the one character that let it in.\<close>

lemma limit_parts_bound: "text_chars (limit_parts remaining ps) \<le> remaining + 11"
proof (cases "remaining < text_chars ps")
  case True
  from limit_parts_cut [OF this] obtain before s after t where
    cut: "limit_parts remaining ps = before @ TPText t # map emptied after" "text_chars before \<le> remaining"
      "cut_to (remaining - text_chars before) s t" by blast
  have "part_chars (emptied p) = 0" for p by (cases p) (simp_all add: char_count_def)
  then have "text_chars (map emptied ps) = 0" for ps by (induction ps) simp_all
  then have "text_chars (limit_parts remaining ps) = text_chars before + char_count t" by (simp add: cut(1) del: map_map)
  moreover have "char_count t \<le> remaining - text_chars before + 11"
    using cut(3) by (auto simp: cut_to_def split: if_splits)
  ultimately show ?thesis using cut(2) by simp
qed (simp add: limit_parts_id)

text \<open>
  The excess is real: the cap floors at one marker for every output, not for a small cap only. A part
  that ends one character below the cap leaves a budget of one to the next, which gets its whole marker.
\<close>

theorem multipart_cap_overshoots:
  "output_chars (limit_output 20 (TCMultipart [TPText (replicate 19 CHR ''a''), TPText ''bc''])) = 31"
proof -
  have "char_count (replicate 19 CHR ''a'') = 19" "char_count ''bc'' = 2"
    by (simp_all add: char_count_def utf8_chars_ascii continues_def del: utf8_chars.simps)
  then show ?thesis
    by (simp add: limit_output_def output_chars_def shown_parts_def char_count_truncate_marked)
qed

subsection \<open>Deadlines\<close>

primrec deadline_of :: "timeout_config \<Rightarrow> nat \<Rightarrow> duration" where
  "deadline_of cfg 0 = tmo_timeout cfg"
| "deadline_of cfg (Suc k) = min (2 * deadline_of cfg k) duration_max"

text \<open>What is left after \<open>k\<close> attempts that all timed out, if they did.\<close>

primrec timed_out_runs ::
  "(duration \<Rightarrow> ('v, 'c, 'w) layer \<Rightarrow> ('v, 'c) dispatch_ctx \<Rightarrow> 'w \<Rightarrow> bounded_call \<times> ('v, 'c) dispatch_ctx \<times> 'w)
   \<Rightarrow> timeout_config \<Rightarrow> ('v, 'c, 'w) layer \<Rightarrow> ('v, 'c) dispatch_ctx \<Rightarrow> 'w \<Rightarrow> nat
   \<Rightarrow> (('v, 'c) dispatch_ctx \<times> 'w) option" where
  "timed_out_runs bounded cfg next_layer ctx w 0 = Some (ctx, w)"
| "timed_out_runs bounded cfg next_layer ctx w (Suc k) =
     (case timed_out_runs bounded cfg next_layer ctx w k of
        None \<Rightarrow> None
      | Some (c, v) \<Rightarrow>
          (case bounded (deadline_of cfg k) next_layer c v of (outcome, c', v') \<Rightarrow>
             if outcome = TimedOut then Some (c', v') else None))"

definition allowed_retries :: "timeout_config \<Rightarrow> nat" where
  "allowed_retries cfg = (if tmo_retry cfg then unat (tmo_max_retries cfg) else 0)"

fun timeout_answer :: "string \<Rightarrow> duration \<Rightarrow> bounded_call \<Rightarrow> dispatch_result" where
  "timeout_answer tool d (InTime r) = r"
| "timeout_answer tool d TimedOut = dispatch_err tool (timeout_text tool d) d"
| "timeout_answer tool d Interrupted = dispatch_err tool (cancelled_text tool) 0"

lemma retry_condition:
  assumes "tmo_max_retries cfg \<noteq> - 1" and "k \<le> allowed_retries cfg"
  shows "tmo_retry cfg \<and> sat_add (of_nat k) 1 \<le> tmo_max_retries cfg \<longleftrightarrow> k < allowed_retries cfg"
    and "sat_add (of_nat k) 1 = (of_nat (Suc k) :: u32)"
proof -
  have "unat (tmo_max_retries cfg) \<noteq> unat (- 1 :: u32)"
    using assms(1) by (simp only: word_unat_eq_iff not_False_eq_True)
  moreover have "unat (tmo_max_retries cfg) < 2 ^ 32" using unat_less_pow [of "tmo_max_retries cfg"] by simp
  ultimately have fits: "Suc k < 2 ^ 32"
    using assms(2) by (auto simp: allowed_retries_def split: if_splits)
  then show suc: "sat_add (of_nat k) 1 = (of_nat (Suc k) :: u32)" by (intro sat_add_of_nat) simp
  have "unat (of_nat (Suc k) :: u32) = Suc k" using unat_of_nat [where 'a = 32, of "Suc k"] fits by (simp del: of_nat_Suc)
  then show "tmo_retry cfg \<and> sat_add (of_nat k) 1 \<le> tmo_max_retries cfg \<longleftrightarrow> k < allowed_retries cfg"
    unfolding suc by (simp only: word_le_nat_alt) (auto simp: allowed_retries_def)
qed

lemma timeout_loop_from:
  assumes "tmo_max_retries cfg \<noteq> - 1"
  shows "k \<le> allowed_retries cfg \<Longrightarrow> timed_out_runs bounded cfg next_layer ctx w k = Some (c, v) \<Longrightarrow>
    \<exists>n c1 v1 outcome c' v'. n \<le> allowed_retries cfg \<and>
      timed_out_runs bounded cfg next_layer ctx w n = Some (c1, v1) \<and>
      bounded (deadline_of cfg n) next_layer c1 v1 = (outcome, c', v') \<and>
      timeout_loop bounded cfg next_layer tool (of_nat k) (deadline_of cfg k) c v =
        Some (timeout_answer tool (deadline_of cfg n) outcome, c', v') \<and>
      (if outcome = TimedOut then n = allowed_retries cfg else True)"
proof (induction "allowed_retries cfg - k" arbitrary: k c v rule: less_induct)
  case less
  obtain outcome c' v' where step: "bounded (deadline_of cfg k) next_layer c v = (outcome, c', v')"
    by (cases "bounded (deadline_of cfg k) next_layer c v")
  show ?case
  proof (cases "outcome = TimedOut \<and> k < allowed_retries cfg")
    case True
    then have again: "tmo_retry cfg \<and> sat_add (of_nat k) 1 \<le> tmo_max_retries cfg"
      and suc: "sat_add (of_nat k) 1 = (of_nat (Suc k) :: u32)"
      using retry_condition [OF assms less.prems(1)] by simp_all
    have "timed_out_runs bounded cfg next_layer ctx w (Suc k) = Some (c', v')"
      using less.prems(2) step True by simp
    then obtain n c1 v1 out c2 v2 where n: "n \<le> allowed_retries cfg"
        "timed_out_runs bounded cfg next_layer ctx w n = Some (c1, v1)"
        "bounded (deadline_of cfg n) next_layer c1 v1 = (out, c2, v2)"
        "timeout_loop bounded cfg next_layer tool (of_nat (Suc k)) (deadline_of cfg (Suc k)) c' v' =
           Some (timeout_answer tool (deadline_of cfg n) out, c2, v2)"
        "if out = TimedOut then n = allowed_retries cfg else True"
      using less.hyps [of "Suc k" c' v', OF diff_less_mono2 Suc_leI] True by blast
    have "timeout_loop bounded cfg next_layer tool (of_nat k) (deadline_of cfg k) c v =
        Some (timeout_answer tool (deadline_of cfg n) out, c2, v2)"
      using again True n(4) by (subst timeout_loop.simps) (simp only: step prod.case bounded_call.case suc if_P deadline_of.simps)
    with n show ?thesis by blast
  next
    case False
    have "timeout_loop bounded cfg next_layer tool (of_nat k) (deadline_of cfg k) c v =
        Some (timeout_answer tool (deadline_of cfg k) outcome, c', v')"
      using False retry_condition(1) [OF assms less.prems(1)]
      by (subst timeout_loop.simps) (cases outcome; auto simp: step)
    moreover have "if outcome = TimedOut then k = allowed_retries cfg else True" using False less.prems(1) by auto
    ultimately show ?thesis using less.prems step by blast
  qed
qed

text \<open>
  C11: A deadline returns: unless the ceiling on retries is the largest 32-bit number, the layer makes
  attempts one after the other, the first under the configured deadline and each further one under twice
  the deadline before it, until one does not time out or the retries are used up, and it answers for
  that attempt: its result, the cancellation, or the timeout with the deadline it ran under. A layer that
  is not told to retry makes one attempt.
\<close>

theorem deadline_layer_returns:
  assumes "tmo_max_retries cfg \<noteq> - 1"
  shows "\<exists>n c1 v1 outcome c' v'. n \<le> allowed_retries cfg \<and>
      timed_out_runs bounded cfg next_layer ctx w n = Some (c1, v1) \<and>
      bounded (deadline_of cfg n) next_layer c1 v1 = (outcome, c', v') \<and>
      timeout_dispatch bounded cfg next_layer ctx w =
        Some (timeout_answer (dc_tool_name ctx) (deadline_of cfg n) outcome, c', v') \<and>
      (if outcome = TimedOut then n = allowed_retries cfg else True)"
  using timeout_loop_from [OF assms le0 timed_out_runs.simps(1), of bounded next_layer ctx w "dc_tool_name ctx"]
  by (simp only: timeout_dispatch_def semiring_1_class.of_nat_0 deadline_of.simps(1))

definition hung :: "duration \<Rightarrow> ('v, 'c, nat) layer \<Rightarrow> ('v, 'c) dispatch_ctx \<Rightarrow> nat
    \<Rightarrow> bounded_call \<times> ('v, 'c) dispatch_ctx \<times> nat" where
  "hung d next_layer ctx w = (TimedOut, ctx, Suc w)"

theorem deadline_layer_returns_witness:
  "timeout_dispatch hung \<lparr>tmo_timeout = 3 * 10 ^ 9, tmo_retry = True, tmo_max_retries = 1\<rparr>
     (\<lambda>c w. (dispatch_ok ''read'' ''fine'' 0, c, w)) demo_ctx 0 =
   Some (dispatch_err ''read'' (timeout_text ''read'' (6 * 10 ^ 9)) (6 * 10 ^ 9), demo_ctx, 2)"
proof -
  let ?cfg = "\<lparr>tmo_timeout = 3 * 10 ^ 9, tmo_retry = True, tmo_max_retries = 1\<rparr>"
  let ?layer = "\<lambda>c w. (dispatch_ok ''read'' ''fine'' 0, c, w)"
  have second: "deadline_of ?cfg 1 = 6 * 10 ^ 9" by (simp add: duration_max_def)
  have retries: "allowed_retries ?cfg = 1" by (simp add: allowed_retries_def)
  have "tmo_max_retries ?cfg \<noteq> - 1" by simp
  from deadline_layer_returns [OF this, of hung ?layer demo_ctx 0]
  obtain n c1 v1 outcome c' v' where n: "n \<le> allowed_retries ?cfg"
      "timed_out_runs hung ?cfg ?layer demo_ctx 0 n = Some (c1, v1)"
      "hung (deadline_of ?cfg n) ?layer c1 v1 = (outcome, c', v')"
      "timeout_dispatch hung ?cfg ?layer demo_ctx 0 =
         Some (timeout_answer (dc_tool_name demo_ctx) (deadline_of ?cfg n) outcome, c', v')"
      "if outcome = TimedOut then n = allowed_retries ?cfg else True" by blast
  then have outcome: "outcome = TimedOut" "c' = c1" "v' = Suc v1" by (simp_all add: hung_def)
  then have one: "n = 1" using n(5) retries by simp
  then have "c1 = demo_ctx" "v1 = 1" using n(2) by (simp_all add: hung_def)
  with n(4) outcome show ?thesis
    unfolding one second by (simp add: demo_ctx_def)
qed

end
