(* ===== verification/Unknown_Tool.thy ===== *)
theory Unknown_Tool
  imports Pipeline Numeric
begin

section \<open>Suggestions for unknown tools\<close>

text \<open>
  src/src/middleware/unknown\_tool.rs: the similarity of two names by their longest common
  subsequence, the best match among the registered names and the layer that appends it to an error.
  \<open>to_lowercase\<close> on names is the parameter \<open>lower\<close> (the Unicode tables); on the error text, which is
  only searched for ASCII words, it is \<open>lowercase\<close> of the prelude. Every float here is finite: a
  float is a rational, the rounding of each operation the parameter \<open>rnd\<close>.
\<close>

subsection \<open>Similarity\<close>

text \<open>
  The inner loop over \<open>b\<close>, \<open>prev\<close> and \<open>curr\<close> being the two rows: \<open>above\<close> is the rest of \<open>prev\<close> from
  the entry before the current one on, \<open>left\<close> the entry just written.
\<close>

fun lcs_row :: "'a \<Rightarrow> 'a list \<Rightarrow> nat list \<Rightarrow> nat \<Rightarrow> nat list" where
  "lcs_row a_ch (b_ch # b) (diag # up # prev) left =
     (let entry = (if a_ch = b_ch then diag + 1 else max up left)
      in entry # lcs_row a_ch b (up # prev) entry)"
| "lcs_row a_ch b prev left = []"

definition lcs_next_row :: "'a list \<Rightarrow> nat list \<Rightarrow> 'a \<Rightarrow> nat list" where
  "lcs_next_row b prev a_ch = 0 # lcs_row a_ch b prev 0"

definition lcs_length :: "'a list \<Rightarrow> 'a list \<Rightarrow> nat" where
  "lcs_length a b = last (foldl (lcs_next_row b) (replicate (length b + 1) 0) a)"

definition clamp_unit :: "rat \<Rightarrow> rat" where
  "clamp_unit x = (if x < 0 then 0 else if x > 1 then 1 else x)"

definition u32_of_len :: "nat \<Rightarrow> nat" where
  "u32_of_len n = (if n < 2 ^ 32 then n else 2 ^ 32 - 1)"

definition common_prefix_len :: "'a list \<Rightarrow> 'a list \<Rightarrow> nat" where
  "common_prefix_len a b = length (takeWhile (\<lambda>(x, y). x = y) (zip a b))"

definition similarity :: "(rat \<Rightarrow> rat) \<Rightarrow> (string \<Rightarrow> string) \<Rightarrow> string \<Rightarrow> string \<Rightarrow> rat" where
  "similarity rnd lower a b =
     (if a = '''' \<and> b = '''' then 1
      else if a = '''' \<or> b = '''' then 0
      else if lower a = lower b then 1
      else
        (let a_chars = utf8_chars (lower a); b_chars = utf8_chars (lower b);
             lcs = of_nat (u32_of_len (lcs_length a_chars b_chars));
             max_len = of_nat (u32_of_len (max (length a_chars) (length b_chars)));
             prefix_len = common_prefix_len a_chars b_chars;
             prefix_bonus = (if prefix_len > 0
               then rnd (rnd (of_nat (u32_of_len prefix_len) / max_len) * rnd (1 / 10)) else 0)
         in clamp_unit (rnd (rnd (lcs / max_len) + prefix_bonus))))"

definition float_epsilon :: rat where
  "float_epsilon = 1 / 2 ^ 52"

definition better_match ::
  "(rat \<Rightarrow> rat) \<Rightarrow> rat \<Rightarrow> (string \<times> rat) option \<Rightarrow> string \<times> rat \<Rightarrow> (string \<times> rat) option" where
  "better_match rnd threshold best cand =
     (case cand of (name, score) \<Rightarrow>
        if score > 0 \<and> score \<ge> threshold then
          (case best of
             None \<Rightarrow> Some (name, score)
           | Some (best_name, best_score) \<Rightarrow>
               if score > best_score then Some (name, score)
               else if \<bar>rnd (score - best_score)\<bar> < float_epsilon \<and> name < best_name then Some (name, score)
               else best)
        else best)"

definition find_best_match_inner ::
  "(rat \<Rightarrow> rat) \<Rightarrow> (string \<Rightarrow> string) \<Rightarrow> string \<Rightarrow> string list \<Rightarrow> rat \<Rightarrow> (string \<times> rat) option" where
  "find_best_match_inner rnd lower requested available threshold =
     foldl (\<lambda>best name. better_match rnd threshold best (name, similarity rnd lower requested name)) None available"

subsection \<open>The layer\<close>

definition is_tool_not_found :: "dispatch_result \<Rightarrow> bool" where
  "is_tool_not_found r \<longleftrightarrow>
     dr_is_error r \<and>
     (case dr_output r of
        TCMultipart _ \<Rightarrow> False
      | TCText t \<Rightarrow> sublist ''not found'' (lowercase t) \<and> sublist ''tool'' (lowercase t))"

record ('s, 'b) unknown_tool_mw =
  ut_registry :: "('s, 'b) registry"
  ut_threshold :: rat

definition new_unknown_tool :: "(rat \<Rightarrow> rat) \<Rightarrow> ('s, 'b) registry \<Rightarrow> ('s, 'b) unknown_tool_mw" where
  "new_unknown_tool rnd reg = \<lparr>ut_registry = reg, ut_threshold = rnd (4 / 10)\<rparr>"

definition with_threshold :: "rat \<Rightarrow> ('s, 'b) unknown_tool_mw \<Rightarrow> ('s, 'b) unknown_tool_mw" where
  "with_threshold t ut = ut\<lparr>ut_threshold := clamp_unit t\<rparr>"

definition append_suggestion :: "string \<Rightarrow> tool_content \<Rightarrow> tool_content" where
  "append_suggestion name out =
     (case out of TCText msg \<Rightarrow> TCText (msg @ ''. Did you mean '' @ quoted name @ ''?'') | TCMultipart ps \<Rightarrow> TCMultipart ps)"

definition unknown_tool_dispatch ::
  "(rat \<Rightarrow> rat) \<Rightarrow> (string \<Rightarrow> string) \<Rightarrow> ('s, 'b) unknown_tool_mw \<Rightarrow> ('v, 'c, 'w) layer \<Rightarrow> ('v, 'c, 'w) layer" where
  "unknown_tool_dispatch rnd lower ut next_layer ctx w =
     (case next_layer ctx w of (r, ctx', w') \<Rightarrow>
        (if is_tool_not_found r then
           (case find_best_match_inner rnd lower (dc_tool_name ctx') (tool_names (ut_registry ut)) (ut_threshold ut) of
              None \<Rightarrow> r
            | Some (suggestion, score) \<Rightarrow> r\<lparr>dr_output := append_suggestion suggestion (dr_output r)\<rparr>)
         else r, ctx', w'))"

definition unknown_tool_middleware ::
  "(rat \<Rightarrow> rat) \<Rightarrow> (string \<Rightarrow> string) \<Rightarrow> ('s, 'b) unknown_tool_mw \<Rightarrow> ('v, 'c, 'w) middleware" where
  "unknown_tool_middleware rnd lower ut =
     \<lparr>mw_name = ''unknown_tool'', mw_dispatch = unknown_tool_dispatch rnd lower ut\<rparr>"

text \<open>The layer reworks the text of a failure and nothing else.\<close>

interpretation suggesting: forwarding_layer "unknown_tool_dispatch rnd lower ut"
    "\<lambda>ctx r. if is_tool_not_found r then
       (case find_best_match_inner rnd lower (dc_tool_name ctx) (tool_names (ut_registry ut)) (ut_threshold ut) of
          None \<Rightarrow> r
        | Some (suggestion, score) \<Rightarrow> r\<lparr>dr_output := append_suggestion suggestion (dr_output r)\<rparr>)
       else r"
  for rnd lower ut
  by unfold_locales (auto simp: unknown_tool_dispatch_def split: option.split)

section \<open>Properties\<close>

subsection \<open>The longest common subsequence\<close>

text \<open>The textbook recursion, on the ends of the two lists, and what it means.\<close>

fun lcs_spec :: "'a list \<Rightarrow> 'a list \<Rightarrow> nat" where
  "lcs_spec [] ys = 0"
| "lcs_spec xs [] = 0"
| "lcs_spec (x # xs) (y # ys) =
     (if x = y then Suc (lcs_spec xs ys) else max (lcs_spec (x # xs) ys) (lcs_spec xs (y # ys)))"

lemma lcs_spec_Nil [simp]: "lcs_spec xs [] = 0"
  by (cases xs) simp_all

lemma lcs_spec_attained: "\<exists>zs. subseq zs xs \<and> subseq zs ys \<and> length zs = lcs_spec xs ys"
proof (induction xs ys rule: lcs_spec.induct)
  case (3 x xs y ys)
  show ?case
  proof (cases "x = y")
    case True
    with 3 obtain zs where "subseq zs xs" "subseq zs ys" "length zs = lcs_spec xs ys" by blast
    with True show ?thesis by (intro exI [of _ "x # zs"]) simp
  next
    case False
    with 3 obtain us vs where
        "subseq us (x # xs)" "subseq us ys" "length us = lcs_spec (x # xs) ys"
        "subseq vs xs" "subseq vs (y # ys)" "length vs = lcs_spec xs (y # ys)" by blast
    with False show ?thesis
      by (cases "lcs_spec (x # xs) ys \<le> lcs_spec xs (y # ys)")
        (fastforce simp: max_def intro: exI [of _ vs], fastforce simp: max_def intro: exI [of _ us])
  qed
qed auto


lemma lcs_spec_bound: "subseq zs xs \<Longrightarrow> subseq zs ys \<Longrightarrow> length zs \<le> lcs_spec xs ys"
proof (induction xs ys arbitrary: zs rule: lcs_spec.induct)
  case (3 x xs y ys)
  show ?case
  proof (cases zs)
    case Nil
    then show ?thesis by simp
  next
    case (Cons z zs')
    show ?thesis
    proof (cases "x = y")
      case True
      have "subseq zs' xs" "subseq zs' ys"
        using 3(4,5) Cons by (auto dest: subseq_Cons' split: if_splits)
      with 3(1) True Cons show ?thesis by simp
    next
      case False
      with 3(4,5) Cons consider "subseq zs xs" "subseq zs (y # ys)" | "subseq zs (x # xs)" "subseq zs ys"
        by (cases "z = x") auto
      then show ?thesis using 3(2,3) False by cases (auto simp: le_max_iff_disj)
    qed
  qed
qed auto

lemma lcs_spec_sound:
  "(\<exists>zs. subseq zs xs \<and> subseq zs ys \<and> length zs = lcs_spec xs ys) \<and>
   (\<forall>zs. subseq zs xs \<and> subseq zs ys \<longrightarrow> length zs \<le> lcs_spec xs ys)"
  using lcs_spec_attained lcs_spec_bound by blast

text \<open>
  A row of the table, for a beginning of \<open>a\<close> and the beginnings of \<open>b\<close>, all held in reverse: \<open>rp\<close> is the
  part of \<open>b\<close> already passed.
\<close>

fun lcs_cells :: "'a list \<Rightarrow> 'a list \<Rightarrow> 'a list \<Rightarrow> nat list" where
  "lcs_cells ra rp [] = [lcs_spec ra rp]"
| "lcs_cells ra rp (b # suf) = lcs_spec ra rp # lcs_cells ra (b # rp) suf"

lemma lcs_cells_Cons: "lcs_cells ra rp suf = lcs_spec ra rp # tl (lcs_cells ra rp suf)"
  by (cases suf) simp_all

lemma lcs_row_cells: "lcs_row a suf (lcs_cells ra rp suf) (lcs_spec (a # ra) rp) = tl (lcs_cells (a # ra) rp suf)"
proof (induction suf arbitrary: rp)
  case (Cons b suf)
  obtain r where r: "lcs_cells ra (b # rp) suf = lcs_spec ra (b # rp) # r" using lcs_cells_Cons by blast
  have "lcs_row a (b # suf) (lcs_cells ra rp (b # suf)) (lcs_spec (a # ra) rp) =
      lcs_spec (a # ra) (b # rp) # lcs_row a suf (lcs_cells ra (b # rp) suf) (lcs_spec (a # ra) (b # rp))"
    by (simp add: r Let_def max.commute)
  also have "\<dots> = tl (lcs_cells (a # ra) rp (b # suf))"
    unfolding Cons.IH lcs_cells.simps list.sel by (rule lcs_cells_Cons [symmetric])
  finally show ?case .
qed simp

lemma lcs_next_row_cells: "lcs_next_row b (lcs_cells ra [] b) a = lcs_cells (a # ra) [] b"
  using lcs_row_cells [of a b ra "[]"] lcs_cells_Cons [of "a # ra" "[]" b] by (simp add: lcs_next_row_def)

lemma lcs_cells_empty: "lcs_cells [] rp suf = replicate (length suf + 1) 0"
  by (induction suf arbitrary: rp) simp_all

lemma last_lcs_cells: "last (lcs_cells ra rp suf) = lcs_spec ra (rev suf @ rp)"
proof (induction suf arbitrary: rp)
  case (Cons b suf)
  have "lcs_cells ra (b # rp) suf \<noteq> []" by (subst lcs_cells_Cons) simp
  with Cons show ?case by simp
qed simp

lemma lcs_rows: "foldl (lcs_next_row b) (lcs_cells ra [] b) a = lcs_cells (rev a @ ra) [] b"
  by (induction a arbitrary: ra) (simp_all add: lcs_next_row_cells)

lemma lcs_length_spec: "lcs_length a b = lcs_spec (rev a) (rev b)"
  using lcs_rows [of b "[]" a] by (simp only: lcs_length_def lcs_cells_empty last_lcs_cells append_Nil2)

lemma subseq_rev: "subseq xs ys \<Longrightarrow> subseq (rev xs) (rev ys)"
  by (induction xs ys rule: list_emb.induct) (auto intro: list_emb_append_mono subseq_rev_drop_many)

lemma common_subseq_rev:
  "(\<exists>zs. n = length zs \<and> subseq zs (rev a) \<and> subseq zs (rev b)) \<longleftrightarrow> (\<exists>zs. n = length zs \<and> subseq zs a \<and> subseq zs b)"
  by (metis length_rev rev_rev_ident subseq_rev)

text \<open>
  C40: The two-row table computes the length of a longest common subsequence: there is a common
  subsequence of that length, and none is longer.
\<close>

theorem lcs_length_is_longest:
  "lcs_length a b = Max {length zs |zs. subseq zs a \<and> subseq zs b}"
proof -
  have lens: "{length zs |zs. subseq zs a \<and> subseq zs b} = {length zs |zs. subseq zs (rev a) \<and> subseq zs (rev b)}"
    by (simp only: common_subseq_rev)
  have "Max {length zs |zs. subseq zs (rev a) \<and> subseq zs (rev b)} = lcs_spec (rev a) (rev b)"
  proof (rule Max_eqI)
    show "finite {length zs |zs. subseq zs (rev a) \<and> subseq zs (rev b)}"
      by (rule finite_subset [of _ "{..length a}"]) (auto dest: list_emb_length)
    show "n \<le> lcs_spec (rev a) (rev b)" if "n \<in> {length zs |zs. subseq zs (rev a) \<and> subseq zs (rev b)}" for n
      using that lcs_spec_bound [of _ "rev a" "rev b"] by blast
    show "lcs_spec (rev a) (rev b) \<in> {length zs |zs. subseq zs (rev a) \<and> subseq zs (rev b)}"
      using lcs_spec_attained [of "rev a" "rev b"] by (simp only: mem_Collect_eq) metis
  qed
  then show ?thesis by (simp only: lcs_length_spec lens)
qed

subsection \<open>The best match\<close>

text \<open>
  The names come sorted from the registry, so the order of arrival breaks ties and the comparison of
  names in the code never decides.
\<close>

definition best_of :: "(string \<Rightarrow> rat) \<Rightarrow> rat \<Rightarrow> string list \<Rightarrow> (string \<times> rat) option \<Rightarrow> bool" where
  "best_of score threshold names best \<longleftrightarrow>
     (case best of
        None \<Rightarrow> \<forall>n \<in> set names. score n \<le> 0 \<or> score n < threshold
      | Some (name, s) \<Rightarrow> name \<in> set names \<and> s = score name \<and> 0 < s \<and> threshold \<le> s \<and>
          (\<forall>n \<in> set names. score n < s \<or> (score n = s \<and> name \<le> n)))"

lemma best_of_step:
  assumes "best_of score threshold names best" and "\<forall>n \<in> set names. n < name"
  shows "best_of score threshold (names @ [name]) (better_match rnd threshold best (name, score name))"
proof (cases "score name > 0 \<and> score name \<ge> threshold")
  case False
  then show ?thesis using assms
    by (cases best) (auto simp: best_of_def better_match_def not_less not_le)
next
  case True
  show ?thesis
  proof (cases best)
    case None
    with assms True show ?thesis by (auto simp: best_of_def better_match_def)
  next
    case (Some b)
    obtain best_name s where b: "b = (best_name, s)" by (cases b)
    have "best_name < name" using assms Some b by (auto simp: best_of_def)
    then have older: "\<not> name < best_name" "best_name \<le> name" by simp_all
    then show ?thesis
      using assms Some b True by (auto simp: best_of_def better_match_def not_less order.strict_iff_order)
  qed
qed

lemma best_of_all:
  "sorted_wrt (<) names \<Longrightarrow>
   best_of score threshold names (foldl (\<lambda>best name. better_match rnd threshold best (name, score name)) None names)"
proof (induction names rule: rev_induct)
  case Nil
  then show ?case by (simp add: best_of_def)
next
  case (snoc name names)
  then show ?case by (simp add: sorted_wrt_append best_of_step)
qed

text \<open>
  The suggestion is the most similar registered name, the first in alphabetical order among equals:
  for a registry that operations have built, the search returns nothing exactly when no name reaches
  the threshold with a positive score, and otherwise a registered name with its score, above which
  there is none.
\<close>

theorem suggestion_is_most_similar:
  "best_of (similarity rnd lower requested) threshold (tool_names (run_registry ops))
     (find_best_match_inner rnd lower requested (tool_names (run_registry ops)) threshold)"
  unfolding find_best_match_inner_def
  by (rule best_of_all) (simp add: tool_names_sorted [OF registry_wf_run])

subsection \<open>Errors that only look like an unknown tool\<close>

lemma similarity_self: "a \<noteq> '''' \<Longrightarrow> similarity rnd lower a a = 1"
  by (simp add: similarity_def)

lemma similarity_le_one: "similarity rnd lower a b \<le> 1"
  by (simp add: similarity_def clamp_unit_def Let_def)

text \<open>
  The test for an unknown tool looks for two words anywhere in the text of the error. A registered tool
  that reports a missing file of this name passes it, and the layer suggests, to the caller of a tool
  that is there, a tool whose name is as similar to its own as can be.
\<close>

theorem missing_file_suggests_a_tool:
  assumes "registry_get (run_registry ops) (dc_tool_name ctx') \<noteq> None" and "dc_tool_name ctx' \<noteq> ''''"
    and "threshold \<le> 1"
    and "next_layer ctx w = (from_tool_error (dc_tool_name ctx') (TEFileNotFound ''src/tool.rs'') d, ctx', w')"
  shows "\<exists>suggestion. similarity rnd lower (dc_tool_name ctx') suggestion = 1 \<and>
    dr_output (fst (unknown_tool_dispatch rnd lower \<lparr>ut_registry = run_registry ops, ut_threshold = threshold\<rparr>
      next_layer ctx w)) =
    TCText (''File not found: src/tool.rs. Did you mean '' @ quoted suggestion @ ''?'')"
proof -
  let ?name = "dc_tool_name ctx'" and ?names = "tool_names (run_registry ops)"
  let ?r = "from_tool_error ?name (TEFileNotFound ''src/tool.rs'') d"
  have "lowercase ''File not found: src/tool.rs'' = ''file not found: src/tool.rs''"
    by (simp add: ascii_to_lower_def char_of_eq_iff Let_def)
  moreover have "sublist ''not found'' ''file not found: src/tool.rs''" "sublist ''tool'' ''file not found: src/tool.rs''"
    by (simp_all add: sublist_code)
  ultimately have looks: "is_tool_not_found ?r"
    by (simp add: is_tool_not_found_def from_tool_error_def)
  have "?name \<in> set ?names"
    using assms(1) by (simp add: tool_names_def registry_get_def map_of_eq_None_iff)
  moreover have self: "similarity rnd lower ?name ?name = 1" by (rule similarity_self [OF assms(2)])
  moreover have best: "best_of (similarity rnd lower ?name) threshold ?names
      (find_best_match_inner rnd lower ?name ?names threshold)"
    unfolding find_best_match_inner_def
    by (rule best_of_all) (simp add: tool_names_sorted [OF registry_wf_run])
  ultimately obtain suggestion s where found: "find_best_match_inner rnd lower ?name ?names threshold = Some (suggestion, s)"
      and s: "s = similarity rnd lower ?name suggestion" "1 \<le> s"
    using assms(3) by (fastforce simp: best_of_def split: option.splits)
  then have "similarity rnd lower ?name suggestion = 1"
    using similarity_le_one [of rnd lower ?name suggestion] by simp
  with found looks assms(4) show ?thesis
    by (intro exI [of _ suggestion])
      (simp add: unknown_tool_dispatch_def append_suggestion_def from_tool_error_def)
qed

definition reading_layer :: "(nat, unit, nat) layer" where
  "reading_layer c w = (from_tool_error (dc_tool_name c) (TEFileNotFound ''src/tool.rs'') 0, c, w)"

theorem missing_file_suggests_a_tool_witness:
  "\<exists>suggestion. similarity id id ''read'' suggestion = 1 \<and>
    dr_output (fst (unknown_tool_dispatch id id
      (new_unknown_tool id (run_registry [RegisterOp (demo_tool ''read'' 1)])) reading_layer demo_ctx 0)) =
    TCText (''File not found: src/tool.rs. Did you mean '' @ quoted suggestion @ ''?'')"
  using missing_file_suggests_a_tool [of "[RegisterOp (demo_tool ''read'' 1)]" demo_ctx "4 / 10"
      reading_layer demo_ctx 0 0 0 id id]
  by (simp add: demo_ctx_def reading_layer_def new_unknown_tool_def run_registry_def register_def
      registry_contains_def new_registry_def bump_version_def registry_get_def demo_tool_def Let_def)

end
