(* ===== verification/Memoize.thy ===== *)
theory Memoize
  imports Pipeline
begin

section \<open>Memoized tool calls\<close>

text \<open>
  src/src/middleware/memoize.rs: the cache of successful results by tool and input, with expiry after a
  number of turns, eviction by written paths and the epoch that keeps a result out that was computed
  before a write; and the shipped extractor of paths from src/src/middleware/memoize/builtin.rs. The
  hash map is an association list whose order is never observed. The hash of the canonical JSON text
  is the parameter \<open>hash_of\<close>, the extractor the field \<open>me_paths\<close>. Each access to the cache is one step
  under its lock, so a dispatch is four steps: it captures the epoch, looks its key up, runs the rest
  of the pipeline, and settles.
\<close>

subsection \<open>The cache\<close>

record cache_key =
  ck_tool :: string
  ck_hash :: u64

record cache_entry =
  ce_result :: dispatch_result
  ce_turn :: usize
  ce_paths :: "string list"

record cache_state =
  cs_entries :: "(cache_key \<times> cache_entry) list"
  cs_epoch :: u64

definition empty_cache :: cache_state where
  "empty_cache = \<lparr>cs_entries = [], cs_epoch = 0\<rparr>"

definition make_key :: "('v \<Rightarrow> u64) \<Rightarrow> string \<Rightarrow> 'v \<Rightarrow> cache_key" where
  "make_key hash_of tool input = \<lparr>ck_tool = tool, ck_hash = hash_of input\<rparr>"

definition entry_expired :: "usize \<Rightarrow> u32 \<Rightarrow> cache_entry \<Rightarrow> bool" where
  "entry_expired turn ttl e \<longleftrightarrow> sat_sub turn (ce_turn e) \<ge> ucast ttl"

definition lookup_fresh ::
  "cache_state \<Rightarrow> cache_key \<Rightarrow> usize \<Rightarrow> u32 \<Rightarrow> dispatch_result option \<times> cache_state" where
  "lookup_fresh cache key turn ttl =
     (case map_of (cs_entries cache) key of
        Some e \<Rightarrow>
          if entry_expired turn ttl e then (None, cache\<lparr>cs_entries := AList.delete key (cs_entries cache)\<rparr>)
          else (Some (ce_result e), cache)
      | None \<Rightarrow> (None, cache))"

definition insert_result ::
  "cache_state \<Rightarrow> cache_key \<Rightarrow> dispatch_result \<Rightarrow> usize \<Rightarrow> string list \<Rightarrow> u64 \<Rightarrow> bool \<times> cache_state" where
  "insert_result cache key r turn paths epoch_at_dispatch =
     (if cs_epoch cache \<noteq> epoch_at_dispatch then (False, cache)
      else (True, cache\<lparr>cs_entries := AList.update key \<lparr>ce_result = r, ce_turn = turn, ce_paths = paths\<rparr>
             (cs_entries cache)\<rparr>))"

definition current_epoch :: "cache_state \<Rightarrow> u64" where
  "current_epoch cache = cs_epoch cache"

definition invalidate_paths :: "cache_state \<Rightarrow> string list \<Rightarrow> cache_state" where
  "invalidate_paths cache write_paths =
     (if write_paths = [] then cache
      else \<lparr>cs_entries = filter (\<lambda>(key, e). \<not> list_ex (\<lambda>p. p \<in> set write_paths) (ce_paths e)) (cs_entries cache),
            cs_epoch = sat_add (cs_epoch cache) 1\<rparr>)"

definition append_cached_marker :: "tool_content \<Rightarrow> tool_content" where
  "append_cached_marker out =
     (case out of
        TCText s \<Rightarrow> TCText (s @ [CHR 0x0A] @ ''[cached]'')
      | TCMultipart parts \<Rightarrow> TCMultipart (parts @ [TPText ''[cached]'']))"

subsection \<open>The layer\<close>

record ('v, 'c) memo_mw =
  me_tools :: "string list"
  me_write_tools :: "string list"
  me_paths :: "string \<Rightarrow> 'v \<Rightarrow> 'c \<Rightarrow> string list"
  me_ttl_turns :: u32
  me_hash :: "'v \<Rightarrow> u64"

text \<open>What a dispatch holds on to while the rest of the pipeline runs.\<close>

record 'v memo_pending =
  mp_memoized :: bool
  mp_write :: bool
  mp_key :: "cache_key option"
  mp_input :: "'v option"
  mp_turn :: usize
  mp_epoch :: "u64 option"

definition memo_capture :: "('v, 'c) memo_mw \<Rightarrow> cache_state \<Rightarrow> ('v, 'c) dispatch_ctx \<Rightarrow> 'v memo_pending" where
  "memo_capture mw cache ctx =
     (let memoized = dc_tool_name ctx \<in> set (me_tools mw)
      in \<lparr>mp_memoized = memoized, mp_write = (dc_tool_name ctx \<in> set (me_write_tools mw)),
          mp_key = (if memoized then Some (make_key (me_hash mw) (dc_tool_name ctx) (dc_input ctx)) else None),
          mp_input = (if memoized then Some (dc_input ctx) else None), mp_turn = dc_turn ctx,
          mp_epoch = (if memoized then Some (current_epoch cache) else None)\<rparr>)"

definition memo_lookup ::
  "('v, 'c) memo_mw \<Rightarrow> 'v memo_pending \<Rightarrow> string \<Rightarrow> cache_state \<Rightarrow> dispatch_result option \<times> cache_state" where
  "memo_lookup mw held call_id cache =
     (case mp_key held of
        None \<Rightarrow> (None, cache)
      | Some key \<Rightarrow>
          (case lookup_fresh cache key (mp_turn held) (me_ttl_turns mw) of
             (None, cache') \<Rightarrow> (None, cache')
           | (Some r, cache') \<Rightarrow>
               (Some (r\<lparr>dr_output := append_cached_marker (dr_output r), dr_call_id := call_id, dr_gate := None\<rparr>),
                cache')))"

definition memo_settle ::
  "('v, 'c) memo_mw \<Rightarrow> 'v memo_pending \<Rightarrow> ('v, 'c) dispatch_ctx \<Rightarrow> dispatch_result \<Rightarrow> cache_state \<Rightarrow> cache_state" where
  "memo_settle mw held ctx r cache =
     (if mp_write held \<and> \<not> dr_is_error r
      then invalidate_paths cache (me_paths mw (dc_tool_name ctx) (dc_input ctx) (dc_tool_context ctx))
      else if mp_memoized held \<and> \<not> dr_is_error r
      then
        (let input = (case mp_input held of Some v \<Rightarrow> v | None \<Rightarrow> dc_input ctx);
             paths = me_paths mw (dc_tool_name ctx) input (dc_tool_context ctx)
         in case (mp_key held, mp_epoch held) of
              (Some key, Some epoch) \<Rightarrow> snd (insert_result cache key r (mp_turn held) paths epoch)
            | _ \<Rightarrow> cache)
      else cache)"

text \<open>One dispatch with nothing beside it; the cache stands beside the world of the other layers.\<close>

definition memo_dispatch ::
  "('v, 'c) memo_mw \<Rightarrow> ('v, 'c, 'w) layer \<Rightarrow> ('v, 'c, cache_state \<times> 'w) layer" where
  "memo_dispatch mw next_layer ctx state =
     (case state of (cache, w) \<Rightarrow>
        (let held = memo_capture mw cache ctx
         in case memo_lookup mw held (dc_call_id ctx) cache of
              (Some r, cache') \<Rightarrow> (r, ctx, cache', w)
            | (None, cache') \<Rightarrow>
                (case next_layer ctx w of (r, ctx', w') \<Rightarrow> (r, ctx', memo_settle mw held ctx' r cache', w'))))"

subsection \<open>The shipped extractor\<close>

definition redirect_operators :: "string list" where
  "redirect_operators = [''>>'', ''2>>'', ''2>'', ''1>>'', ''1>'', ''&>'', ''>&'', ''>'']"

definition unwrap_shell_payload :: "string list \<Rightarrow> string list" where
  "unwrap_shell_payload tokens =
     (if \<not> is_wrapped_shell tokens then tokens
      else if 2 < length tokens then (case shell_words (tokens ! 2) of Inr ws \<Rightarrow> ws | Inl _ \<Rightarrow> [])
      else [])"

definition inline_redirect_target :: "string \<Rightarrow> string option" where
  "inline_redirect_target token =
     (if token \<in> set redirect_operators then None
      else
        (case find (\<lambda>operator. prefix operator token \<and> drop (length operator) token \<noteq> []) redirect_operators of
           None \<Rightarrow> None
         | Some operator \<Rightarrow> Some (drop (length operator) token)))"

definition is_file_target :: "string \<Rightarrow> bool" where
  "is_file_target operand \<longleftrightarrow> \<not> (prefix ''&'' operand \<or> list_all is_ascii_digit operand)"

fun targets_from :: "string list \<Rightarrow> string list" where
  "targets_from [] = []"
| "targets_from (token # rest) =
     (case inline_redirect_target token of
        Some target \<Rightarrow> (if is_file_target target then [target] else []) @ targets_from rest
      | None \<Rightarrow>
          (if token \<in> set redirect_operators
           then (case rest of operand # _ \<Rightarrow> if is_file_target operand then [operand] else [] | [] \<Rightarrow> [])
           else []) @ targets_from rest)"

definition redirection_targets :: "string \<Rightarrow> string list" where
  "redirection_targets command =
     (case shell_words command of
        Inl _ \<Rightarrow> []
      | Inr tokens \<Rightarrow> targets_from (tokens @ (if is_wrapped_shell tokens then unwrap_shell_payload tokens else [])))"

definition write_paths_with_cwd ::
  "string option \<Rightarrow> ('v \<Rightarrow> string \<Rightarrow> string option) \<Rightarrow> string \<Rightarrow> 'v \<Rightarrow> string \<Rightarrow> string list" where
  "write_paths_with_cwd process_dir field tool input cwd =
     (let base = resolved_cwd process_dir cwd
      in case string_field field input [''command'', ''cmd''] of
           Some command \<Rightarrow> map (lexical_path base) (redirection_targets command)
         | None \<Rightarrow>
             (case string_field field input path_fields of
                Some path \<Rightarrow> [lexical_path base path]
              | None \<Rightarrow> []))"

definition noop_paths :: "string \<Rightarrow> 'v \<Rightarrow> string \<Rightarrow> string list" where
  "noop_paths tool input cwd = []"

section \<open>Properties\<close>

subsection \<open>A repeated call\<close>

lemma lookup_fresh_update:
  assumes "cs_epoch cache = epoch"
  shows "lookup_fresh (snd (insert_result cache key r turn paths epoch)) key turn' ttl =
    (if sat_sub turn' turn \<ge> ucast ttl
     then (None, (snd (insert_result cache key r turn paths epoch))
       \<lparr>cs_entries := AList.delete key (cs_entries (snd (insert_result cache key r turn paths epoch)))\<rparr>)
     else (Some r, snd (insert_result cache key r turn paths epoch)))"
  using assms by (simp add: lookup_fresh_def insert_result_def update_conv' entry_expired_def)

lemma lookup_epoch: "memo_lookup mw held call_id cache = (out, cache') \<Longrightarrow> cs_epoch cache' = cs_epoch cache"
  by (auto simp: memo_lookup_def lookup_fresh_def split: option.splits prod.splits if_splits)

text \<open>
  C39: A repeat is answered from the cache: after a memoized call (of a tool that is not also a write
  tool) ran and succeeded behind layers that keep the name, the same call in a turn before the entry
  expires gets the first answer with the marker, under its own call id and without a gate record, and
  nothing behind the cache is reached: the world and the cache stay as the first call left them.
\<close>

theorem repeated_call_is_answered_from_cache:
  assumes "dc_tool_name ctx \<in> set (me_tools mw)" and "dc_tool_name ctx \<notin> set (me_write_tools mw)"
    and "fst (memo_lookup mw (memo_capture mw cache ctx) (dc_call_id ctx) cache) = None"
    and "memo_dispatch mw first_next ctx (cache, w) = (r, ctx1, cache1, w1)" and "\<not> dr_is_error r"
    and "dc_tool_name ctx2 = dc_tool_name ctx" and "dc_input ctx2 = dc_input ctx"
    and "sat_sub (dc_turn ctx2) (dc_turn ctx) < ucast (me_ttl_turns mw)"
  shows "memo_dispatch mw second_next ctx2 (cache1, w1) =
    (r\<lparr>dr_output := append_cached_marker (dr_output r), dr_call_id := dc_call_id ctx2, dr_gate := None\<rparr>,
     ctx2, cache1, w1)"
proof -
  let ?held = "memo_capture mw cache ctx" and ?key = "make_key (me_hash mw) (dc_tool_name ctx) (dc_input ctx)"
  obtain cache' where miss: "memo_lookup mw ?held (dc_call_id ctx) cache = (None, cache')"
    using assms(3) by (cases "memo_lookup mw ?held (dc_call_id ctx) cache") simp
  have epoch: "cs_epoch cache' = cs_epoch cache" by (rule lookup_epoch [OF miss])
  obtain paths where cache1: "cache1 = snd (insert_result cache' ?key r (dc_turn ctx) paths (cs_epoch cache))"
    using assms(1,2,4,5) miss
    by (auto simp: memo_dispatch_def memo_settle_def memo_capture_def current_epoch_def Let_def split: prod.splits)
  have "lookup_fresh cache1 ?key (dc_turn ctx2) (me_ttl_turns mw) = (Some r, cache1)"
    using assms(8) unfolding cache1 lookup_fresh_update [OF epoch] by (simp add: not_le)
  then have "memo_lookup mw (memo_capture mw cache1 ctx2) (dc_call_id ctx2) cache1 =
      (Some (r\<lparr>dr_output := append_cached_marker (dr_output r), dr_call_id := dc_call_id ctx2, dr_gate := None\<rparr>), cache1)"
    using assms(1,6,7) by (simp add: memo_lookup_def memo_capture_def Let_def)
  then show ?thesis by (simp add: memo_dispatch_def Let_def)
qed

definition demo_memo :: "(nat, unit) memo_mw" where
  "demo_memo = \<lparr>me_tools = [''read''], me_write_tools = [''edit''], me_paths = (\<lambda>_ _ _. [''/a'']),
     me_ttl_turns = 2, me_hash = of_nat\<rparr>"

definition counting_layer :: "(nat, unit, nat) layer" where
  "counting_layer c w = (dispatch_ok (dc_tool_name c) ''text'' 0, c, Suc w)"

theorem repeated_call_is_answered_from_cache_witness:
  "\<exists>cache1. memo_dispatch demo_memo counting_layer demo_ctx (empty_cache, 0) =
       (dispatch_ok ''read'' ''text'' 0, demo_ctx, cache1, 1) \<and>
     memo_dispatch demo_memo counting_layer (demo_ctx\<lparr>dc_turn := 2\<rparr>) (cache1, 1) =
       ((dispatch_ok ''read'' ''text'' 0)\<lparr>dr_output := append_cached_marker (TCText ''text''), dr_call_id := ''c1''\<rparr>,
        demo_ctx\<lparr>dc_turn := 2\<rparr>, cache1, 1)"
proof -
  have miss: "fst (memo_lookup demo_memo (memo_capture demo_memo empty_cache demo_ctx) (dc_call_id demo_ctx) empty_cache) = None"
    by (simp add: memo_lookup_def memo_capture_def lookup_fresh_def empty_cache_def demo_memo_def demo_ctx_def)
  then obtain cache1 where first: "memo_dispatch demo_memo counting_layer demo_ctx (empty_cache, 0) =
      (dispatch_ok ''read'' ''text'' 0, demo_ctx, cache1, 1)"
    by (cases "memo_lookup demo_memo (memo_capture demo_memo empty_cache demo_ctx) (dc_call_id demo_ctx) empty_cache")
      (simp add: memo_dispatch_def counting_layer_def demo_ctx_def Let_def)
  have "dc_tool_name demo_ctx = ''read''" "dc_turn demo_ctx = 1" "dc_call_id demo_ctx = ''c1''"
    by (simp_all add: demo_ctx_def)
  then show ?thesis
    using first repeated_call_is_answered_from_cache
      [where ctx = demo_ctx and mw = demo_memo and cache = empty_cache and first_next = counting_layer
        and second_next = counting_layer and w = "0 :: nat" and r = "dispatch_ok ''read'' ''text'' 0" and ?ctx1.0 = demo_ctx
        and ?cache1.0 = cache1 and ?w1.0 = 1 and ?ctx2.0 = "demo_ctx\<lparr>dc_turn := 2\<rparr>", OF _ _ miss first]
    by (simp add: demo_memo_def dispatch_ok_def sat_sub_def)
qed

text \<open>
  The working directory is no part of the key. A call with a relative path is answered with what the same
  text named under another directory.
\<close>

theorem other_directory_hits:
  assumes "memo_lookup mw (memo_capture mw cache ctx) call_id cache = (Some r, cache')"
  shows "memo_lookup mw (memo_capture mw cache (ctx\<lparr>dc_tool_context := elsewhere\<rparr>)) call_id cache = (Some r, cache')"
  using assms by (cases "dc_tool_name ctx \<in> set (me_tools mw)") (simp_all add: memo_lookup_def memo_capture_def Let_def)

subsection \<open>Calls side by side\<close>

text \<open>
  The calls of a wave share the cache. What a path holds is counted by a version; a read remembers the
  versions it saw, a write touches the paths it reports, at any moments while it runs. An entry of the
  cache remembers through \<open>sys_seen\<close> what the call that filled it saw. With \<open>clean\<close>, a write that fails
  has touched nothing.
\<close>

datatype memo_stage = Captured | Running | HasRead "string \<Rightarrow> nat"

record ('v, 'c) memo_call =
  mc_ctx :: "('v, 'c) dispatch_ctx"
  mc_held :: "'v memo_pending"
  mc_stage :: memo_stage
  mc_touched :: "string set"

record ('v, 'c) memo_system =
  sys_cache :: cache_state
  sys_versions :: "string \<Rightarrow> nat"
  sys_seen :: "cache_key \<Rightarrow> string \<Rightarrow> nat"
  sys_calls :: "nat \<Rightarrow> ('v, 'c) memo_call option"

definition call_paths :: "('v, 'c) memo_mw \<Rightarrow> ('v, 'c) memo_call \<Rightarrow> string list" where
  "call_paths mw c = me_paths mw (dc_tool_name (mc_ctx c)) (dc_input (mc_ctx c)) (dc_tool_context (mc_ctx c))"

definition initial_system :: "('v, 'c) memo_system" where
  "initial_system = \<lparr>sys_cache = empty_cache, sys_versions = (\<lambda>_. 0), sys_seen = (\<lambda>_ _. 0), sys_calls = (\<lambda>_. None)\<rparr>"

definition start_call :: "('v, 'c) memo_mw \<Rightarrow> nat \<Rightarrow> ('v, 'c) dispatch_ctx \<Rightarrow> ('v, 'c) memo_system \<Rightarrow> ('v, 'c) memo_system" where
  "start_call mw i ctx s = s\<lparr>sys_calls := (sys_calls s)(i \<mapsto>
     \<lparr>mc_ctx = ctx, mc_held = memo_capture mw (sys_cache s) ctx, mc_stage = Captured, mc_touched = {}\<rparr>)\<rparr>"

definition look_up :: "('v, 'c) memo_mw \<Rightarrow> nat \<Rightarrow> ('v, 'c) memo_call \<Rightarrow> ('v, 'c) memo_system \<Rightarrow> ('v, 'c) memo_system" where
  "look_up mw i c s =
     (case memo_lookup mw (mc_held c) (dc_call_id (mc_ctx c)) (sys_cache s) of
        (Some r, cache) \<Rightarrow> s\<lparr>sys_cache := cache, sys_calls := (sys_calls s)(i := None)\<rparr>
      | (None, cache) \<Rightarrow> s\<lparr>sys_cache := cache, sys_calls := (sys_calls s)(i \<mapsto> c\<lparr>mc_stage := Running\<rparr>)\<rparr>)"

definition touch_path :: "nat \<Rightarrow> ('v, 'c) memo_call \<Rightarrow> string \<Rightarrow> ('v, 'c) memo_system \<Rightarrow> ('v, 'c) memo_system" where
  "touch_path i c p s = s\<lparr>sys_versions := (sys_versions s)(p := sys_versions s p + 1),
     sys_calls := (sys_calls s)(i \<mapsto> c\<lparr>mc_touched := insert p (mc_touched c)\<rparr>)\<rparr>"

definition read_paths :: "nat \<Rightarrow> ('v, 'c) memo_call \<Rightarrow> ('v, 'c) memo_system \<Rightarrow> ('v, 'c) memo_system" where
  "read_paths i c s = s\<lparr>sys_calls := (sys_calls s)(i \<mapsto> c\<lparr>mc_stage := HasRead (sys_versions s)\<rparr>)\<rparr>"

definition settle_call ::
  "('v, 'c) memo_mw \<Rightarrow> nat \<Rightarrow> ('v, 'c) memo_call \<Rightarrow> dispatch_result \<Rightarrow> ('v, 'c) memo_system \<Rightarrow> ('v, 'c) memo_system" where
  "settle_call mw i c r s =
     s\<lparr>sys_cache := memo_settle mw (mc_held c) (mc_ctx c) r (sys_cache s),
       sys_seen := (case (mc_stage c, mp_key (mc_held c)) of
           (HasRead snap, Some key) \<Rightarrow>
             if \<not> dr_is_error r \<and> mp_epoch (mc_held c) = Some (cs_epoch (sys_cache s))
             then (sys_seen s)(key := snap) else sys_seen s
         | _ \<Rightarrow> sys_seen s),
       sys_calls := (sys_calls s)(i := None)\<rparr>"

text \<open>
  The steps of overlapping calls. Two simplifications: a read sees all its paths at one instant, and a
  dispatch that is dropped half way (a timeout or a cancellation around the layer) has no step. A
  dropped write would settle nothing in the code, so what it had changed would leave the cached reads
  in place, as a failed write does.
\<close>

inductive memo_step :: "bool \<Rightarrow> ('v, 'c) memo_mw \<Rightarrow> ('v, 'c) memo_system \<Rightarrow> ('v, 'c) memo_system \<Rightarrow> bool"
  for clean :: bool and mw :: "('v, 'c) memo_mw" where
  Start: "sys_calls s i = None \<Longrightarrow> memo_step clean mw s (start_call mw i ctx s)"
| Look_up: "sys_calls s i = Some c \<Longrightarrow> mc_stage c = Captured \<Longrightarrow> memo_step clean mw s (look_up mw i c s)"
| Touch: "sys_calls s i = Some c \<Longrightarrow> mc_stage c = Running \<Longrightarrow> mp_write (mc_held c) \<Longrightarrow>
    p \<in> set (call_paths mw c) \<Longrightarrow> memo_step clean mw s (touch_path i c p s)"
| Read: "sys_calls s i = Some c \<Longrightarrow> mc_stage c = Running \<Longrightarrow> \<not> mp_write (mc_held c) \<Longrightarrow>
    memo_step clean mw s (read_paths i c s)"
| Settle: "sys_calls s i = Some c \<Longrightarrow> mc_stage c = (if mp_write (mc_held c) then Running else HasRead snap) \<Longrightarrow>
    (clean \<Longrightarrow> dr_is_error r \<Longrightarrow> mc_touched c = {}) \<Longrightarrow> memo_step clean mw s (settle_call mw i c r s)"

inductive memo_reachable :: "bool \<Rightarrow> ('v, 'c) memo_mw \<Rightarrow> ('v, 'c) memo_system \<Rightarrow> bool"
  for clean :: bool and mw :: "('v, 'c) memo_mw" where
  initial: "memo_reachable clean mw initial_system"
| step: "memo_reachable clean mw s \<Longrightarrow> memo_step clean mw s s' \<Longrightarrow> memo_reachable clean mw s'"

text \<open>What was seen of some paths is current, but for the paths that a running write has touched.\<close>

definition current_view :: "('v, 'c) memo_system \<Rightarrow> (string \<Rightarrow> nat) \<Rightarrow> string list \<Rightarrow> bool" where
  "current_view s snap paths \<longleftrightarrow>
     (\<forall>p \<in> set paths. snap p = sys_versions s p \<or> (\<exists>i c. sys_calls s i = Some c \<and> p \<in> mc_touched c))"

definition call_ok :: "('v, 'c) memo_mw \<Rightarrow> ('v, 'c) memo_system \<Rightarrow> ('v, 'c) memo_call \<Rightarrow> bool" where
  "call_ok mw s c \<longleftrightarrow>
     mc_touched c \<subseteq> set (call_paths mw c) \<and>
     (if mc_stage c = Running \<and> mp_write (mc_held c) then True else mc_touched c = {}) \<and>
     (\<exists>cache. mc_held c = memo_capture mw cache (mc_ctx c) \<and> cs_epoch cache \<le> cs_epoch (sys_cache s)) \<and>
     (\<forall>snap. mc_stage c = HasRead snap \<and> mp_epoch (mc_held c) = Some (cs_epoch (sys_cache s)) \<longrightarrow>
        current_view s snap (call_paths mw c))"

definition cache_current :: "('v, 'c) memo_system \<Rightarrow> bool" where
  "cache_current s \<longleftrightarrow>
     (\<forall>key e. map_of (cs_entries (sys_cache s)) key = Some e \<longrightarrow> current_view s (sys_seen s key) (ce_paths e))"

definition memo_inv :: "('v, 'c) memo_mw \<Rightarrow> ('v, 'c) memo_system \<Rightarrow> bool" where
  "memo_inv mw s \<longleftrightarrow>
     distinct (map fst (cs_entries (sys_cache s))) \<and> cache_current s \<and>
     (\<forall>i c. sys_calls s i = Some c \<longrightarrow> call_ok mw s c)"

definition covered :: "('v, 'c) memo_system \<Rightarrow> string \<Rightarrow> bool" where
  "covered s p \<longleftrightarrow> (\<exists>i c. sys_calls s i = Some c \<and> p \<in> mc_touched c)"

lemma current_view_transfer:
  assumes "current_view s snap paths"
    and "\<And>p. p \<in> set paths \<Longrightarrow> sys_versions s' p = sys_versions s p \<or> covered s' p"
    and "\<And>p. p \<in> set paths \<Longrightarrow> covered s p \<Longrightarrow> covered s' p"
  shows "current_view s' snap paths"
  using assms unfolding current_view_def covered_def [symmetric] by metis

lemma call_ok_transfer:
  assumes "call_ok mw s c" and "cs_epoch (sys_cache s) = cs_epoch (sys_cache s')"
    and "\<And>p. sys_versions s' p = sys_versions s p \<or> covered s' p" and "\<And>p. covered s p \<Longrightarrow> covered s' p"
  shows "call_ok mw s' c"
  using assms(1) current_view_transfer [OF _ assms(3,4)] unfolding call_ok_def assms(2) by blast

text \<open>A step that leaves versions and coverage alone and at most forgets entries keeps the invariant.\<close>

lemma memo_inv_quiet:
  assumes inv: "memo_inv mw s"
    and entries: "distinct (map fst (cs_entries (sys_cache s')))"
      "\<And>key e. map_of (cs_entries (sys_cache s')) key = Some e \<Longrightarrow> map_of (cs_entries (sys_cache s)) key = Some e"
    and same: "cs_epoch (sys_cache s) = cs_epoch (sys_cache s')" "sys_seen s' = sys_seen s"
    and versions: "\<And>p. sys_versions s' p = sys_versions s p \<or> covered s' p"
    and cover: "\<And>p. covered s p \<Longrightarrow> covered s' p"
    and calls: "\<And>j c. sys_calls s' j = Some c \<Longrightarrow> sys_calls s j = Some c \<or> call_ok mw s' c"
  shows "memo_inv mw s'"
proof -
  have "current_view s' (sys_seen s' key) (ce_paths e)" if "map_of (cs_entries (sys_cache s')) key = Some e" for key e
    using inv entries(2) [OF that] current_view_transfer [OF _ versions cover]
    unfolding memo_inv_def cache_current_def same(2) by blast
  moreover have "call_ok mw s' c" if "sys_calls s' j = Some c" for j c
    using calls [OF that] inv call_ok_transfer [OF _ same(1) versions cover] unfolding memo_inv_def by blast
  ultimately show ?thesis using entries(1) by (simp add: memo_inv_def cache_current_def)
qed

lemma covered_remove: "mc_touched c = {} \<Longrightarrow> sys_calls s i = Some c \<Longrightarrow> covered s p \<Longrightarrow>
    sys_calls s' = (sys_calls s)(i := x) \<Longrightarrow> covered s' p"
  unfolding covered_def by (metis empty_iff fun_upd_other option.inject)

lemma idle_untouched: "call_ok mw s c \<Longrightarrow> mc_stage c \<noteq> Running \<or> \<not> mp_write (mc_held c) \<Longrightarrow> mc_touched c = {}"
  by (auto simp: call_ok_def split: if_splits)

lemma start_inv:
  assumes "memo_inv mw s" and "sys_calls s i = None"
  shows "memo_inv mw (start_call mw i ctx s)"
proof (rule memo_inv_quiet [OF assms(1)])
  show "distinct (map fst (cs_entries (sys_cache (start_call mw i ctx s))))"
    using assms(1) by (simp add: memo_inv_def start_call_def)
  show "covered (start_call mw i ctx s) p" if "covered s p" for p
    using that assms(2) unfolding covered_def start_call_def by simp (metis option.distinct(1))
  show "sys_calls s j = Some c \<or> call_ok mw (start_call mw i ctx s) c" if "sys_calls (start_call mw i ctx s) j = Some c" for j c
    using that by (auto simp: start_call_def call_ok_def split: if_splits)
qed (simp_all add: start_call_def)

lemma lookup_forgets:
  assumes "memo_lookup mw held call_id cache = (out, cache')" and "distinct (map fst (cs_entries cache))"
  shows "distinct (map fst (cs_entries cache'))"
    and "map_of (cs_entries cache') key = Some e \<Longrightarrow> map_of (cs_entries cache) key = Some e"
  using assms
  by (auto simp: memo_lookup_def lookup_fresh_def AList.distinct_delete AList.delete_conv' split: option.splits prod.splits if_splits)

lemma look_up_inv:
  assumes "memo_inv mw s" and c: "sys_calls s i = Some c" "mc_stage c = Captured"
  shows "memo_inv mw (look_up mw i c s)"
proof -
  have ok: "call_ok mw s c" using assms(1) c(1) by (simp add: memo_inv_def)
  then have idle: "mc_touched c = {}" using c(2) by (simp add: idle_untouched)
  obtain out cache' where out: "memo_lookup mw (mc_held c) (dc_call_id (mc_ctx c)) (sys_cache s) = (out, cache')"
    by (cases "memo_lookup mw (mc_held c) (dc_call_id (mc_ctx c)) (sys_cache s)")
  have d: "distinct (map fst (cs_entries (sys_cache s)))" using assms(1) by (simp add: memo_inv_def)
  have cache: "sys_cache (look_up mw i c s) = cache'" by (simp add: look_up_def out split: option.split)
  have calls: "sys_calls (look_up mw i c s) =
      (sys_calls s)(i := (case out of Some _ \<Rightarrow> None | None \<Rightarrow> Some (c\<lparr>mc_stage := Running\<rparr>)))"
    by (simp add: look_up_def out split: option.split)
  have epoch: "cs_epoch cache' = cs_epoch (sys_cache s)" by (rule lookup_epoch [OF out])
  show ?thesis
  proof (rule memo_inv_quiet [OF assms(1)], unfold cache)
    show "covered (look_up mw i c s) p" if "covered s p" for p
      using covered_remove [OF idle c(1) that calls] .
    show "sys_calls s j = Some c' \<or> call_ok mw (look_up mw i c s) c'" if "sys_calls (look_up mw i c s) j = Some c'" for j c'
      using that ok idle epoch unfolding calls
      by (auto simp: call_ok_def cache call_paths_def split: if_splits option.splits)
  qed (use lookup_forgets [OF out d] epoch in \<open>auto simp: look_up_def out split: option.split\<close>)
qed

lemma touch_inv:
  assumes "memo_inv mw s" and c: "sys_calls s i = Some c" "mc_stage c = Running" "mp_write (mc_held c)"
    and p: "p \<in> set (call_paths mw c)"
  shows "memo_inv mw (touch_path i c p s)"
proof (rule memo_inv_quiet [OF assms(1)])
  have ok: "call_ok mw s c" using assms(1) c(1) by (simp add: memo_inv_def)
  show "distinct (map fst (cs_entries (sys_cache (touch_path i c p s))))"
    using assms(1) by (simp add: memo_inv_def touch_path_def)
  show "sys_versions (touch_path i c p s) q = sys_versions s q \<or> covered (touch_path i c p s) q" for q
    by (cases "q = p") (auto simp: touch_path_def covered_def)
  show "covered (touch_path i c p s) q" if "covered s q" for q
    using that c(1) unfolding covered_def touch_path_def by (auto split: if_splits) (metis insertI2 option.inject)
  show "sys_calls s j = Some c' \<or> call_ok mw (touch_path i c p s) c'" if "sys_calls (touch_path i c p s) j = Some c'" for j c'
    using that ok c p by (auto simp: touch_path_def call_ok_def call_paths_def split: if_splits)
qed (simp_all add: touch_path_def)

lemma read_inv:
  assumes "memo_inv mw s" and c: "sys_calls s i = Some c" "mc_stage c = Running" "\<not> mp_write (mc_held c)"
  shows "memo_inv mw (read_paths i c s)"
proof (rule memo_inv_quiet [OF assms(1)])
  have ok: "call_ok mw s c" using assms(1) c(1) by (simp add: memo_inv_def)
  then have idle: "mc_touched c = {}" using c(3) by (simp add: idle_untouched)
  show "distinct (map fst (cs_entries (sys_cache (read_paths i c s))))"
    using assms(1) by (simp add: memo_inv_def read_paths_def)
  show "covered (read_paths i c s) q" if "covered s q" for q
    by (rule covered_remove [OF idle c(1) that]) (simp add: read_paths_def)
  show "sys_calls s j = Some c' \<or> call_ok mw (read_paths i c s) c'" if "sys_calls (read_paths i c s) j = Some c'" for j c'
    using that ok idle c by (auto simp: read_paths_def call_ok_def call_paths_def current_view_def split: if_splits)
qed (simp_all add: read_paths_def)

lemma settle_quiet_inv:
  assumes "memo_inv mw s" and c: "sys_calls s i = Some c" "mc_touched c = {}"
    and quiet: "sys_cache (settle_call mw i c r s) = sys_cache s" "sys_seen (settle_call mw i c r s) = sys_seen s"
  shows "memo_inv mw (settle_call mw i c r s)"
proof (rule memo_inv_quiet [OF assms(1)])
  show "covered (settle_call mw i c r s) q" if "covered s q" for q
    by (rule covered_remove [OF c(2,1) that]) (simp add: settle_call_def)
  show "sys_calls s j = Some c' \<or> call_ok mw (settle_call mw i c r s) c'"
    if "sys_calls (settle_call mw i c r s) j = Some c'" for j c'
    using that by (auto simp: settle_call_def split: if_splits)
qed (use assms(1) quiet in \<open>simp_all add: memo_inv_def settle_call_def\<close>)

lemma capture_fields:
  "mp_write (memo_capture mw cache ctx) \<longleftrightarrow> dc_tool_name ctx \<in> set (me_write_tools mw)"
  "mp_memoized (memo_capture mw cache ctx) \<longleftrightarrow> dc_tool_name ctx \<in> set (me_tools mw)"
  "dc_tool_name ctx \<in> set (me_tools mw) \<Longrightarrow>
     mp_key (memo_capture mw cache ctx) = Some (make_key (me_hash mw) (dc_tool_name ctx) (dc_input ctx)) \<and>
     mp_input (memo_capture mw cache ctx) = Some (dc_input ctx) \<and>
     mp_epoch (memo_capture mw cache ctx) = Some (cs_epoch cache)"
  "dc_tool_name ctx \<notin> set (me_tools mw) \<Longrightarrow>
     mp_key (memo_capture mw cache ctx) = None \<and> mp_epoch (memo_capture mw cache ctx) = None"
  by (simp_all add: memo_capture_def current_epoch_def Let_def)

lemma map_of_invalidated:
  assumes "distinct (map fst (cs_entries cache))"
    and "map_of (cs_entries (invalidate_paths cache paths)) key = Some e"
  shows "map_of (cs_entries cache) key = Some e \<and> set (ce_paths e) \<inter> set paths = {}"
proof -
  have "(key, e) \<in> set (cs_entries (invalidate_paths cache paths))" by (rule map_of_SomeD [OF assms(2)])
  then have "(key, e) \<in> set (cs_entries cache) \<and> set (ce_paths e) \<inter> set paths = {}"
    by (cases "paths = []") (auto simp: invalidate_paths_def list_ex_iff)
  then show ?thesis using assms(1) by simp
qed

lemma distinct_invalidated:
  "distinct (map fst (cs_entries cache)) \<Longrightarrow> distinct (map fst (cs_entries (invalidate_paths cache paths)))"
  by (simp add: invalidate_paths_def distinct_map_filter)

lemma less_sat_add: "a \<noteq> - 1 \<Longrightarrow> a < sat_add a 1" for a :: "64 word"
  using unat_less_pow [of a] by (cases "a = 0") (simp_all add: word_less_nat_alt unat_sat_add word_unat_eq_iff min_def)

lemma settle_write_inv:
  assumes "memo_inv mw s" and c: "sys_calls s i = Some c" "mc_stage c = Running" "mp_write (mc_held c)"
    and r: "\<not> dr_is_error r" and room: "cs_epoch (sys_cache s) \<noteq> - 1"
  shows "memo_inv mw (settle_call mw i c r s)"
proof -
  let ?s' = "settle_call mw i c r s" and ?w = "call_paths mw c"
  have ok: "call_ok mw s c" using assms(1) c(1) by (simp add: memo_inv_def)
  have d: "distinct (map fst (cs_entries (sys_cache s)))" using assms(1) by (simp add: memo_inv_def)
  have cache: "sys_cache ?s' = invalidate_paths (sys_cache s) ?w"
    using c r by (simp add: settle_call_def memo_settle_def call_paths_def)
  have rest: "sys_seen ?s' = sys_seen s" "sys_versions ?s' = sys_versions s" "sys_calls ?s' = (sys_calls s)(i := None)"
    using c by (simp_all add: settle_call_def)
  have cover: "covered ?s' p" if "covered s p" "p \<notin> set ?w" for p
    using that c(1) ok unfolding covered_def rest(3) call_ok_def by (metis fun_upd_other in_mono option.inject)
  have view: "current_view ?s' snap paths" if "current_view s snap paths" "set paths \<inter> set ?w = {}" for snap paths
    using that(1) by (rule current_view_transfer) (use rest(2) cover that(2) in auto)
  have "cache_current ?s'"
    unfolding cache_current_def cache rest(1)
    using map_of_invalidated [OF d] assms(1) view unfolding memo_inv_def cache_current_def by blast
  moreover have "call_ok mw ?s' c'" if "sys_calls ?s' j = Some c'" for j c'
  proof -
    have old: "call_ok mw s c'" using that assms(1) unfolding rest(3) by (auto simp: memo_inv_def split: if_splits)
    then obtain cache0 where cache0: "mc_held c' = memo_capture mw cache0 (mc_ctx c')"
        "cs_epoch cache0 \<le> cs_epoch (sys_cache s)" by (auto simp: call_ok_def)
    have mono: "cs_epoch (sys_cache s) \<le> cs_epoch (sys_cache ?s')"
      by (simp add: cache invalidate_paths_def le_sat_add)
    have "current_view ?s' snap (call_paths mw c')"
      if snap: "mc_stage c' = HasRead snap" "mp_epoch (mc_held c') = Some (cs_epoch (sys_cache ?s'))" for snap
    proof (cases "?w = []")
      case True
      then have "cs_epoch (sys_cache ?s') = cs_epoch (sys_cache s)" by (simp add: cache invalidate_paths_def)
      with snap old have "current_view s snap (call_paths mw c')" by (simp add: call_ok_def)
      then show ?thesis by (rule view) (simp add: True)
    next
      case False
      have "cs_epoch cache0 = cs_epoch (sys_cache ?s')"
        using snap(2) cache0(1) capture_fields(3,4) [of "mc_ctx c'" mw cache0]
        by (cases "dc_tool_name (mc_ctx c') \<in> set (me_tools mw)") simp_all
      moreover have "cs_epoch (sys_cache s) < cs_epoch (sys_cache ?s')"
        using False room by (simp add: cache invalidate_paths_def less_sat_add)
      ultimately show ?thesis using cache0(2) by simp
    qed
    with old cache0 mono show ?thesis unfolding call_ok_def by (meson order_trans)
  qed
  ultimately show ?thesis
    using distinct_invalidated [OF d] by (simp add: memo_inv_def cache)
qed

lemma settle_read_inv:
  assumes "memo_inv mw s" and c: "sys_calls s i = Some c" "mc_stage c = HasRead snap" "\<not> mp_write (mc_held c)"
  shows "memo_inv mw (settle_call mw i c r s)"
proof -
  let ?s' = "settle_call mw i c r s"
  have ok: "call_ok mw s c" using assms(1) c(1) by (simp add: memo_inv_def)
  then have idle: "mc_touched c = {}" using c(3) by (simp add: idle_untouched)
  obtain cache0 where held: "mc_held c = memo_capture mw cache0 (mc_ctx c)" using ok by (auto simp: call_ok_def)
  let ?key = "make_key (me_hash mw) (dc_tool_name (mc_ctx c)) (dc_input (mc_ctx c))"
  show ?thesis
  proof (cases "dc_tool_name (mc_ctx c) \<in> set (me_tools mw) \<and> \<not> dr_is_error r \<and> cs_epoch cache0 = cs_epoch (sys_cache s)")
    case False
    then have "sys_cache ?s' = sys_cache s" "sys_seen ?s' = sys_seen s"
      using c(2,3) capture_fields(2) [of mw cache0 "mc_ctx c"] capture_fields(3,4) [of "mc_ctx c" mw cache0] held
      by (cases "dc_tool_name (mc_ctx c) \<in> set (me_tools mw)";
          auto simp: settle_call_def memo_settle_def insert_result_def Let_def)+
    with assms(1) c(1) idle show ?thesis by (intro settle_quiet_inv)
  next
    case True
    then have fields: "mp_key (mc_held c) = Some ?key" "mp_input (mc_held c) = Some (dc_input (mc_ctx c))"
        "mp_epoch (mc_held c) = Some (cs_epoch (sys_cache s))" "mp_memoized (mc_held c)"
      using capture_fields(3) [of "mc_ctx c" mw cache0] capture_fields(2) [of mw cache0 "mc_ctx c"] held by simp_all
    have view: "current_view s snap (call_paths mw c)" using ok c(2) fields(3) by (simp add: call_ok_def)
    have cache: "sys_cache ?s' = snd (insert_result (sys_cache s) ?key r (mp_turn (mc_held c)) (call_paths mw c) (cs_epoch (sys_cache s)))"
      using True c(3) fields by (simp add: settle_call_def memo_settle_def call_paths_def)
    have seen: "sys_seen ?s' = (sys_seen s)(?key := snap)" using True c(2) fields by (simp add: settle_call_def)
    have cover: "covered ?s' p" if "covered s p" for p
      by (rule covered_remove [OF idle c(1) that]) (simp add: settle_call_def)
    have versions: "sys_versions ?s' p = sys_versions s p \<or> covered ?s' p" for p by (simp add: settle_call_def)
    have epoch: "cs_epoch (sys_cache s) = cs_epoch (sys_cache ?s')" by (simp add: cache insert_result_def)
    have entries: "map_of (cs_entries (sys_cache ?s')) = (map_of (cs_entries (sys_cache s)))
        (?key \<mapsto> \<lparr>ce_result = r, ce_turn = mp_turn (mc_held c), ce_paths = call_paths mw c\<rparr>)"
      by (simp add: cache insert_result_def update_conv')
    have "cache_current ?s'"
      unfolding cache_current_def entries seen
      using view assms(1) current_view_transfer [OF _ versions cover]
      by (auto simp: memo_inv_def cache_current_def split: if_splits)
    moreover have "call_ok mw ?s' c'" if "sys_calls ?s' j = Some c'" for j c'
    proof -
      have "call_ok mw s c'" using that assms(1) by (auto simp: memo_inv_def settle_call_def split: if_splits)
      then show ?thesis by (rule call_ok_transfer [OF _ epoch versions cover])
    qed
    moreover have "distinct (map fst (cs_entries (sys_cache ?s')))"
      using assms(1) by (simp add: cache insert_result_def memo_inv_def distinct_update)
    ultimately show ?thesis by (simp add: memo_inv_def)
  qed
qed

lemma settle_inv:
  assumes "memo_inv mw s" and c: "sys_calls s i = Some c"
    and stage: "mc_stage c = (if mp_write (mc_held c) then Running else HasRead snap)"
    and clean: "dr_is_error r \<Longrightarrow> mc_touched c = {}" and room: "cs_epoch (sys_cache s) \<noteq> - 1"
  shows "memo_inv mw (settle_call mw i c r s)"
proof (cases "mp_write (mc_held c)")
  case False
  then show ?thesis using settle_read_inv [OF assms(1) c, of snap] stage by simp
next
  case True
  show ?thesis
  proof (cases "dr_is_error r")
    case True
    with \<open>mp_write (mc_held c)\<close> stage clean show ?thesis
      by (intro settle_quiet_inv [OF assms(1) c]) (simp_all add: settle_call_def memo_settle_def)
  next
    case False
    then show ?thesis using settle_write_inv [OF assms(1) c] stage room \<open>mp_write (mc_held c)\<close> by simp
  qed
qed

lemma memo_step_epoch: "memo_step clean mw s s' \<Longrightarrow> cs_epoch (sys_cache s) \<le> cs_epoch (sys_cache s')"
proof (induction rule: memo_step.induct)
  case (Look_up s i c)
  obtain out cache' where out: "memo_lookup mw (mc_held c) (dc_call_id (mc_ctx c)) (sys_cache s) = (out, cache')"
    by (cases "memo_lookup mw (mc_held c) (dc_call_id (mc_ctx c)) (sys_cache s)")
  then show ?case using lookup_epoch [OF out] by (simp add: look_up_def split: option.split)
next
  case (Settle s i c snap r)
  show ?case
    by (auto simp: settle_call_def memo_settle_def invalidate_paths_def insert_result_def le_sat_add Let_def split: option.split)
qed (simp_all add: start_call_def touch_path_def read_paths_def)

lemma memo_step_inv:
  assumes "memo_step True mw s s'" and "memo_inv mw s" and "cs_epoch (sys_cache s) \<noteq> - 1"
  shows "memo_inv mw s'"
  using assms
proof (induction rule: memo_step.induct)
  case (Start s i ctx)
  then show ?case by (simp add: start_inv)
next
  case (Look_up s i c)
  then show ?case by (simp add: look_up_inv)
next
  case (Touch s i c p)
  then show ?case by (simp add: touch_inv)
next
  case (Read s i c)
  then show ?case by (simp add: read_inv)
next
  case (Settle s i c snap r)
  then show ?case by (intro settle_inv) simp_all
qed

lemma memo_reachable_inv: "memo_reachable True mw s \<Longrightarrow> cs_epoch (sys_cache s) \<noteq> - 1 \<Longrightarrow> memo_inv mw s"
proof (induction rule: memo_reachable.induct)
  case initial
  then show ?case by (simp add: memo_inv_def cache_current_def initial_system_def empty_cache_def)
next
  case (step s s')
  have room: "cs_epoch (sys_cache s) \<noteq> - 1"
  proof
    assume "cs_epoch (sys_cache s) = - 1"
    with memo_step_epoch [OF step.hyps(2)] have "cs_epoch (sys_cache s') = - 1"
      by (simp only: word_order.extremum_unique)
    with step.prems show False by contradiction
  qed
  show ?case by (rule memo_step_inv [OF step.hyps(2) step.IH [OF room] room])
qed

text \<open>
  C9: A cached answer is current. However the calls of a run overlap, as long as a write that fails has
  touched nothing and every write touches and every read looks at only the paths the extractor reports,
  an entry that a lookup may answer with was computed from what its paths hold now, but for paths that a
  write still in flight has touched (and will evict when it settles). A result computed before a write
  never outlives it, although the lock is not held while a call runs (below 2^64 - 1 evicting writes,
  where the epoch would saturate).
\<close>

theorem cached_answers_are_current:
  assumes "memo_reachable True mw s" and "cs_epoch (sys_cache s) \<noteq> - 1"
    and "fst (lookup_fresh (sys_cache s) key turn ttl) = Some r"
  shows "\<exists>e. map_of (cs_entries (sys_cache s)) key = Some e \<and> ce_result e = r \<and>
    list_all (\<lambda>p. sys_seen s key p = sys_versions s p \<or> (\<exists>i c. sys_calls s i = Some c \<and> p \<in> mc_touched c)) (ce_paths e)"
proof -
  obtain e where e: "map_of (cs_entries (sys_cache s)) key = Some e" "ce_result e = r"
    using assms(3) by (auto simp: lookup_fresh_def split: option.splits if_splits)
  have "current_view s (sys_seen s key) (ce_paths e)"
    using memo_reachable_inv [OF assms(1,2)] e(1) by (auto simp: memo_inv_def cache_current_def)
  then show ?thesis unfolding current_view_def list_all_iff [symmetric] using e by blast
qed

text \<open>A run: one read fills the cache, then a write fails after it changed the file.\<close>

definition on_call :: "nat \<Rightarrow> (('v, 'c) memo_call \<Rightarrow> ('v, 'c) memo_system \<Rightarrow> ('v, 'c) memo_system)
    \<Rightarrow> ('v, 'c) memo_system \<Rightarrow> ('v, 'c) memo_system" where
  "on_call i f s = (case sys_calls s i of Some c \<Rightarrow> f c s | None \<Rightarrow> s)"

definition demo_read :: "(nat, unit) memo_system" where
  "demo_read = on_call 0 (\<lambda>c. settle_call demo_memo 0 c (dispatch_ok ''read'' ''text'' 0))
     (on_call 0 (read_paths 0) (on_call 0 (look_up demo_memo 0) (start_call demo_memo 0 demo_ctx initial_system)))"

definition demo_failed_write :: "(nat, unit) memo_system" where
  "demo_failed_write = on_call 1 (\<lambda>c. settle_call demo_memo 1 c (dispatch_err ''edit'' ''disk full'' 0))
     (on_call 1 (\<lambda>c. touch_path 1 c ''/a'') (on_call 1 (look_up demo_memo 1)
       (start_call demo_memo 1 (demo_ctx\<lparr>dc_tool_name := ''edit''\<rparr>) demo_read)))"

lemmas demo_run_simps = on_call_def start_call_def look_up_def read_paths_def touch_path_def settle_call_def
  memo_lookup_def memo_capture_def memo_settle_def lookup_fresh_def insert_result_def initial_system_def
  empty_cache_def demo_memo_def demo_ctx_def current_epoch_def make_key_def dispatch_ok_def dispatch_err_def
  call_paths_def

definition on_guard :: "nat \<Rightarrow> (('v, 'c) memo_call \<Rightarrow> bool) \<Rightarrow> ('v, 'c) memo_system \<Rightarrow> bool" where
  "on_guard i P s \<longleftrightarrow> (case sys_calls s i of Some c \<Rightarrow> P c | None \<Rightarrow> True)"

lemma reach_start:
  "memo_reachable clean mw s \<Longrightarrow> sys_calls s i = None \<Longrightarrow> memo_reachable clean mw (start_call mw i ctx s)"
  by (rule memo_reachable.step [OF _ memo_step.Start])

lemma reach_look_up:
  "memo_reachable clean mw s \<Longrightarrow> on_guard i (\<lambda>c. mc_stage c = Captured) s \<Longrightarrow>
   memo_reachable clean mw (on_call i (look_up mw i) s)"
  by (auto simp: on_guard_def on_call_def split: option.splits intro: memo_reachable.step memo_step.Look_up)

lemma reach_read:
  "memo_reachable clean mw s \<Longrightarrow> on_guard i (\<lambda>c. mc_stage c = Running \<and> \<not> mp_write (mc_held c)) s \<Longrightarrow>
   memo_reachable clean mw (on_call i (read_paths i) s)"
  by (auto simp: on_guard_def on_call_def split: option.splits intro: memo_reachable.step memo_step.Read)

lemma reach_touch:
  "memo_reachable clean mw s \<Longrightarrow>
   on_guard i (\<lambda>c. mc_stage c = Running \<and> mp_write (mc_held c) \<and> p \<in> set (call_paths mw c)) s \<Longrightarrow>
   memo_reachable clean mw (on_call i (\<lambda>c. touch_path i c p) s)"
  by (auto simp: on_guard_def on_call_def split: option.splits intro: memo_reachable.step memo_step.Touch)

lemma reach_settle:
  assumes "memo_reachable clean mw s"
    and "on_guard i (\<lambda>c. mc_stage c = (if mp_write (mc_held c) then Running else HasRead snap)) s"
    and "\<not> clean \<or> \<not> dr_is_error r"
  shows "memo_reachable clean mw (on_call i (\<lambda>c. settle_call mw i c r) s)"
proof (cases "sys_calls s i")
  case None
  then show ?thesis using assms(1) by (simp add: on_call_def)
next
  case (Some c)
  then have "memo_step clean mw s (settle_call mw i c r s)"
    using assms(2,3) by (intro memo_step.Settle [OF Some]) (auto simp: on_guard_def)
  with assms(1) Some show ?thesis by (simp add: on_call_def memo_reachable.step)
qed

lemma demo_read_reachable: "memo_reachable clean demo_memo demo_read"
  unfolding demo_read_def
  by (intro reach_settle [where snap = "\<lambda>_. 0"] reach_read reach_look_up reach_start memo_reachable.initial)
    (simp_all add: on_guard_def demo_run_simps)

lemma demo_failed_write_reachable: "memo_reachable False demo_memo demo_failed_write"
  unfolding demo_failed_write_def
  by (intro reach_settle [where snap = "\<lambda>_. 0"] reach_touch reach_look_up reach_start demo_read_reachable)
    (simp_all add: on_guard_def demo_read_def demo_run_simps)

theorem cached_answers_are_current_witness:
  "sys_seen demo_read (make_key of_nat ''read'' 7) ''/a'' = sys_versions demo_read ''/a''"
proof -
  have hit: "fst (lookup_fresh (sys_cache demo_read) (make_key of_nat ''read'' 7) 1 2) = Some (dispatch_ok ''read'' ''text'' 0)"
    and epoch: "cs_epoch (sys_cache demo_read) \<noteq> - 1"
    and entry: "map_option ce_paths (map_of (cs_entries (sys_cache demo_read)) (make_key of_nat ''read'' 7)) = Some [''/a'']"
    and idle: "sys_calls demo_read = (\<lambda>_. None)"
    by (simp_all add: demo_read_def demo_run_simps entry_expired_def sat_sub_def fun_eq_iff)
  show ?thesis
    using cached_answers_are_current [OF demo_read_reachable epoch hit] entry idle by auto
qed

text \<open>
  The proviso is needed: a write that changes a file and then fails (a command that writes and then
  exits with an error) evicts nothing, and the stale entry goes on answering when no call is in flight.
\<close>

theorem failed_write_leaves_stale_answer:
  "memo_reachable False demo_memo demo_failed_write \<and> sys_calls demo_failed_write = (\<lambda>_. None) \<and>
   fst (lookup_fresh (sys_cache demo_failed_write) (make_key of_nat ''read'' 7) 1 2) = Some (dispatch_ok ''read'' ''text'' 0) \<and>
   sys_seen demo_failed_write (make_key of_nat ''read'' 7) ''/a'' < sys_versions demo_failed_write ''/a''"
  using demo_failed_write_reachable
  by (simp add: demo_failed_write_def demo_read_def demo_run_simps entry_expired_def sat_sub_def fun_eq_iff)

end
