(* ===== verification/Spec2Isabelle.thy ===== *)
theory Spec2Isabelle
  imports Machine Fallback Loop_Detector Budget Recovery Tool_Health Drive_Loop Detection Registry
    Unknown_Tool Memoize
begin

text \<open>
  A verification development for loopctl, a Rust framework that runs an agent loop: a conversation
  is sent to a language model, the tool calls of the answer are dispatched, their results are
  appended, and the loop goes on until the model stops, a budget is spent or an error ends it.

  Parts and how they interact. The driver (src/src/engine/bare.rs and its submodules) polls the
  loop machine (src/src/engine/core/machine.rs) for the next step and feeds it what happened: a
  model response, tool results, a compaction. Before a model call it asks the budget gate
  (src/src/budget.rs) and the fallback circuit breaker (src/src/fallback.rs) which model may be
  called; after it, it reports success or failure to the breaker. A batch of tool calls is planned
  into waves and dispatched (src/src/engine/bare/dispatch.rs); each call passes hooks, the loop
  detector (src/src/detection/loop\_detector.rs) and the tool, and a failed call goes through the
  reflector and the recovery strategy (src/src/reflection.rs, src/src/reflection/backoff.rs). When
  the machine asks for it, a compactor (src/src/compact/truncating.rs) cuts the history, sized by a
  token counter (src/src/compact.rs). A
  router (src/src/tool/health.rs) redirects calls of a tool whose breaker is open.

  Theories. Each theory models one part, in the order of the code, and opens with what it holds.
  \<open>Prelude\<close>: fixed-width integers with Rust's saturating and checked operations, byte strings, the
  bounded deque and its locale. \<open>Errors\<close>: src/src/error.rs. \<open>Message\<close>: src/src/message.rs.
  \<open>Machine\<close>: the loop machine; one definition per method, the state is the record
  \<open>loop_machine\<close> with the fields of \<open>LoopMachine\<close>. \<open>Fallback\<close>: the breaker and its chain; the
  record \<open>fallback_manager\<close> holds the state behind the mutex and a flag for its poisoning; the
  routing and bookkeeping functions of the driver are composed from it. \<open>Loop_Detector\<close>: the
  sliding window of operations, its check and its warnings. \<open>Budget\<close>: the gate with its four
  dimensions and one-shot warnings, the soft line and the duration grammar. \<open>Dispatch\<close>: dispatch
  results and gate records (src/src/tool.rs, src/src/tool/permission.rs), the wave planner and
  the two dispatch modes. \<open>Recovery\<close>: one pass of a tool call with its events, the retry loop, the
  backoff strategy and corrections. \<open>Numeric\<close>: the ratio of two counts (src/src/numeric.rs).
  \<open>Tool_Health\<close>: statistics, breaker with probe lease, registry and router of tools.
  \<open>Token_Count\<close>: the two counters and the decimal ratio (src/src/compact.rs). \<open>Compact_Types\<close>: the
  context and outcome of a compaction pass (src/src/compact/types.rs) and the placement of pins.
  \<open>Pairing\<close> and \<open>Truncating\<close>: src/src/compact/truncating.rs, first the scan that pairs tool calls
  with results, the safe cuts and the durable results pulled over a cut, then the compactor and the
  splitter. \<open>Context_Manager\<close>: the manager of src/src/compact.rs, its lines, pins and passes.
  \<open>Calibration\<close> and \<open>Driver\<close>: src/src/engine/bare.rs and src/src/engine/bare/compact.rs, the correction
  of estimates by reported usage, and the compaction step of the driver, which joins the machine,
  the manager and the calibration, with the salvage of turns refused for their size. \<open>Prune\<close>:
  src/src/engine/bare/prune.rs, the clearing of finished tool results before a request. \<open>Drive_Loop\<close>: \<open>drive_steps\<close> of
  src/src/engine/bare.rs with the handlers of a model call and of a tool phase, over the driver state
  of \<open>Driver\<close>; what the outside answers in a pass of the loop is one record of inputs.
  \<open>Convergence\<close> and \<open>Detection\<close>: src/src/detection/convergence.rs and src/src/detection/manager.rs, the
  similarity of successive responses, the manager that runs both detectors, and the seams of the
  driver that feed it and consume its stops. \<open>Stream\<close>: src/src/stream.rs, the events of a streamed
  response and the accumulator that collects them into a message. \<open>Api_Error\<close>: src/src/api/error.rs.
  \<open>Rate_Limit\<close>: src/src/stream/rate\_limit.rs, the token bucket. \<open>Stream_Config\<close> and \<open>Stream_Turn\<close>:
  src/src/stream/handler.rs, first the configurations, the detection of rate limits and the decisions
  after a failure, then the generator of a turn as a machine over phases, each step reading one
  observation, and the loop of src/src/engine/bare/llm\_turn.rs that consumes it. \<open>Registry\<close>:
  src/src/tool/registry.rs, the tools, their order and the version of their surface. \<open>Pipeline\<close>:
  src/src/middleware.rs and, from src/src/middleware/, the core and the layers for permission, deadlines,
  output limits and verification; a layer is a function from the rest of the pipeline, and everything
  outside is a world it passes on. \<open>Command_Check\<close>: shell words, lexical paths and the static
  verifier (src/src/middleware/verify/builtin.rs). \<open>Unknown_Tool\<close>: the suggestion of names.
  \<open>Memoize\<close>: the cache of results, as a layer and as steps of calls that overlap.

  Conventions. \<open>u64\<close>, \<open>usize\<close> and \<open>u32\<close> are words of 64, 64 and 32 bits; lengths and indices of
  vectors are naturals; strings are lists of bytes; durations and instants are naturals in
  nanoseconds; \<open>Result<T, LoopError>\<close> is the sum \<open>loop_error + 'a\<close>; a method on \<open>&mut self\<close> is a
  function to the updated record; a method behind a mutex is the same with a poisoning flag; the
  clock is an argument. JSON values are a type parameter. The iteration order of a hash map is a
  parameter that some lemma shows not to matter. Trait objects (reflector, strategy, hooks, tools)
  are parameters, and each property with hypotheses about them has a witness.

  What the lemmas show. Machine: a run, with its follow-ups, takes one turn for each response and stays
  within its turn budget; an outcome is final; salvage and rewind
  cut the history at the longest prefix without an unanswered call; compaction is adopted exactly
  when it makes progress. Fallback: an invariant of all reachable states and the routing it gives;
  the trip and close thresholds; exhaustion of the chain. Loop detector: the check reports exactly
  the most repeated operations of the window, in an order that depends on the hash map at most
  for operations that differ in their result alone. Budget: each dimension warns once per run;
  a refusal names the first reached line; bounds of the soft line; the grammar of durations.
  Dispatch: the waves partition the batch, share no resource and keep the order of conflicting
  calls; both modes answer alike; the record with the highest precedence survives. Recovery: events
  are paired; a call is dispatched at most six times; the exact delay and the exact number of
  retries of the backoff strategy. Tool health: an invariant of the breaker; a probe is alone
  until its lease and the cooldown after it are over; the read-only oracle says what a request
  would be answered; the router takes the first available tool and changes nothing. Token counts:
  a count is exact below the width, and monotone. Pairing: the scan pairs a result with the most
  recent unclaimed call of its id. Truncating: a pass leaves every call and its result together and
  no result without its call, hands every message back or evicts it, does not grow the history
  without pins and with a plain first message, and picks the largest tail that fits; the splitters cut at the best turn
  boundary that no pair straddles. Context manager: a configured manager is well formed and its lines
  are in order; a pass that succeeds carries every pin and fits; with the truncating compactor it
  stays coherent, but a pin displaces the first message in the next pass. Calibration: the ratio
  converges to the reported one, and the manager's and the machine's lines agree through it. Driver:
  a compaction step adopts progress, defers, stalls or fails and does nothing else, refines a
  round of the machine's protocol (\<open>Machine.drive_round\<close>, a specification with no counterpart in the
  code), and a refused turn is salvaged once. A pass with the truncating compactor that goes through leaves a
  coherent conversation, and a step that errs leaves the machine alone. Drive loop: every pass is
  a round of the protocol, and the loop ends, whatever the model, the tools, the compactor and the
  hooks answer, when steering messages come in finitely many passes and the counter settles, that is,
  rewriting a conversation in place without making it longer, or joining neighbours in it, never
  raises its figure (\<open>settling_counter\<close> in \<open>Token_Count\<close>: the heuristic counter and both shipped ratios). Prune: a pass rewrites the admitted
  results in place and nothing else, pool by pool; a request is sent with the figure of exactly the
  conversation it carries. Convergence: a response converges exactly when it ends a run of similar
  responses of the configured length. Detection: a call repeated beyond the thresholds is stopped
  before it is dispatched, and a stop is consumed by one turn. Stream: interleaved lanes build the
  message that sending them one after the other would build; a stop closes one lane. Api errors: a rate
  limit is always retryable, a status written is the status read, metadata is never looked at. Rate
  limiter: a fresh bucket grants a burst of exactly its capacity, under any rounding like that of
  doubles; with exact arithmetic the grants of a whole run stay within capacity and refill and the wait it asks for is
  enough, but idle minutes are banked, so that the capacity does not bound a later burst. Stream handler:
  the repaired configuration is valid; the delays and the ladder of rate limits; a turn opens
  boundedly many streams and ends within four steps of its deadline; a permanent error ends it at
  once; the driver serves the last attempt alone, folded as the handler's shadow folded it. Registry:
  any run of registrations and removals shows the surface of an ordered dictionary, and equal versions
  mean equal surfaces. Pipeline: a permission layer decides before anything behind it runs, and a dry run
  says what it will decide; the part of an output that passes the cap is cut so that it ends
  on it, marker included; a layer with a deadline returns.
  Command check: splitting undoes quoting, paths have a normal form, the deny rules fire exactly at
  boundaries unless they overlap themselves. Unknown tools: the table computes the longest common
  subsequence, the suggestion is the most similar name, and some other failures get one too. Memoize: a
  repeat is answered without a dispatch; however calls overlap a cached answer is current, unless a
  write failed after it changed something.

  Bounds and fuel. Only \<open>Drive_Loop.drive_steps\<close> takes fuel, and its theorem gives a fuel that
  suffices: the passes decrease a lexicographic measure (\<open>loop_order\<close>). Every other loop is a structural recursion or a function with
  a termination proof (the measure of the retry loop is the number of attempts left below the
  ceiling of five), except the loop of the timeout layer, which may run forever when its ceiling is the
  largest 32-bit number: it is a partial function, proved to return otherwise.

  Not modelled: the asynchronous wiring of the driver, the compactors that ask a model for a
  summary, memory back ends, metrics, tracing, observers, providers and their wire formats, the
  built-in tools, redaction, tool shields and grants, MCP, manifests, and the companion crates. They are
  I/O, third-party protocols, or glue around the parts above.
\<close>

end
